(* ===== verification/Prelude.thy ===== *)
theory Prelude
  imports Main "HOL-Library.Word" "HOL-Library.Char_ord"
begin

text \<open>
  Shared vocabulary of the development: C characters and NUL-terminated strings, checked
  memory reads, and the lemma collections the component theories use.

  A C string \<open>const char *s\<close> that is only read is a HOL \<open>string\<close> (a list of
  bytes); the list stands for the bytes from the pointer on and its end for the terminating
  NUL. \<open>cur s\<close> is \<open>*s\<close> and \<open>tl s\<close> is \<open>s + 1\<close>. A buffer
  that the code writes is a list of all its bytes, and every access to it is checked.
\<close>

named_theorems cstr_simps \<open>reading C strings\<close>
named_theorems ctype_simps \<open>character classes\<close>
named_theorems refine_simps \<open>abstraction of concrete operations\<close>

abbreviation NUL :: char where "NUL \<equiv> CHR 0x00"

abbreviation ord :: "char \<Rightarrow> nat" where "ord c \<equiv> of_char c"

definition cur :: "string \<Rightarrow> char" where
  "cur s = (case s of [] \<Rightarrow> NUL | c # _ \<Rightarrow> c)"

lemma cur_simps [simp, cstr_simps]: "cur [] = NUL" "cur (c # s) = c"
  by (simp_all add: cur_def)

lemma cur_not_NUL_cases [elim]:
  assumes "cur s \<noteq> NUL"
  obtains c t where "s = c # t" "c \<noteq> NUL"
  using assms by (cases s) auto

text \<open>Dereferencing a pointer into the string shortens it: the measure of every scan.\<close>

lemma cur_shorter [termination_simp]: "cur s \<noteq> NUL \<Longrightarrow> length s - Suc 0 < length s"
  by (cases s) auto

definition no_nul :: "string \<Rightarrow> bool" where
  "no_nul s \<longleftrightarrow> NUL \<notin> set s"

lemma no_nul_simps [simp]: "no_nul []" "no_nul (c # s) \<longleftrightarrow> c \<noteq> NUL \<and> no_nul s"
  by (auto simp: no_nul_def)

lemma no_nul_append [simp]: "no_nul (s @ t) \<longleftrightarrow> no_nul s \<and> no_nul t"
  by (auto simp: no_nul_def)

lemma no_nul_take: "no_nul s \<Longrightarrow> no_nul (take n s)"
  by (auto simp: no_nul_def dest: in_set_takeD)

lemma no_nul_cur: "no_nul s \<Longrightarrow> cur s = NUL \<longleftrightarrow> s = []"
  by (cases s) auto

text \<open>The string a buffer holds: the bytes before its first NUL.\<close>

definition cstr :: "string \<Rightarrow> string" where
  "cstr b = takeWhile (\<lambda>c. c \<noteq> NUL) b"

lemma cstr_simps_list [simp]:
  "cstr [] = []" "cstr (c # b) = (if c = NUL then [] else c # cstr b)"
  by (simp_all add: cstr_def)

lemma no_nul_cstr [simp]: "no_nul (cstr b)"
  by (induction b) auto

lemma cstr_no_nul [simp]: "no_nul s \<Longrightarrow> cstr s = s"
  by (induction s) auto

lemma cstr_append_NUL [simp]: "no_nul s \<Longrightarrow> cstr (s @ NUL # t) = s"
  by (induction s) auto

lemma ex_le_Suc: "(\<exists>j \<le> Suc n. P j) \<longleftrightarrow> P 0 \<or> (\<exists>j \<le> n. P (Suc j))"
proof
  assume "\<exists>j \<le> Suc n. P j"
  then obtain j where "j \<le> Suc n" "P j" by blast
  then show "P 0 \<or> (\<exists>j \<le> n. P (Suc j))" by (cases j) auto
qed auto

text \<open>Checked access to a buffer.\<close>

definition rd :: "'a list \<Rightarrow> nat \<Rightarrow> 'a option" where
  "rd b i = (if i < length b then Some (b ! i) else None)"

definition wr :: "'a list \<Rightarrow> nat \<Rightarrow> 'a \<Rightarrow> 'a list option" where
  "wr b i c = (if i < length b then Some (b[i := c]) else None)"

lemma rd_wr_simps [simp]:
  "i < length b \<Longrightarrow> rd b i = Some (b ! i)" "i < length b \<Longrightarrow> wr b i c = Some (b[i := c])"
  "\<not> i < length b \<Longrightarrow> rd b i = None" "\<not> i < length b \<Longrightarrow> wr b i c = None"
  by (simp_all add: rd_def wr_def)

lemma rd_append [simp]: "rd (xs @ y # ys) (length xs) = Some y"
  by (simp add: rd_def nth_append)

lemma wr_append [simp]: "wr (xs @ y # ys) (length xs) c = Some (xs @ c # ys)"
  by (simp add: wr_def)

lemma wr_length: "wr b i c = Some b' \<Longrightarrow> length b' = length b"
  by (auto simp: wr_def split: if_splits)

text \<open>Words put together with a separator, as the assembling loops write them.\<close>

fun join :: "char \<Rightarrow> string list \<Rightarrow> string" where
  "join c [] = []"
| "join c [w] = w"
| "join c (w # v # ws) = w @ c # join c (v # ws)"

lemma join_snoc: "ws \<noteq> [] \<Longrightarrow> join c (ws @ [w]) = join c ws @ c # w"
  by (induction c ws rule: join.induct) auto

lemma join_Nil_iff: "[] \<notin> set ws \<Longrightarrow> join c ws = [] \<longleftrightarrow> ws = []"
  by (induction c ws rule: join.induct) auto

lemma no_nul_join: "c \<noteq> NUL \<Longrightarrow> \<forall>w \<in> set ws. no_nul w \<Longrightarrow> no_nul (join c ws)"
  by (induction c ws rule: join.induct) auto

text \<open>Writing a block of bytes: \<open>b\<close> holds \<open>w\<close> up to \<open>length w\<close>.\<close>

definition holds :: "string \<Rightarrow> string \<Rightarrow> bool" where
  "holds b w \<longleftrightarrow> take (length w) b = w"

lemma holds_Nil [simp]: "holds b []"
  by (simp add: holds_def)

lemma holds_length: "holds b w \<Longrightarrow> length w \<le> length b"
  unfolding holds_def by (metis length_take min.cobounded1)

lemma holds_append: "holds (w @ v @ r) (w @ v)"
  by (simp add: holds_def)

lemma holds_self [simp]: "holds (w @ r) w"
  by (simp add: holds_def)

lemma holdsE:
  assumes "holds b w"
  obtains r where "b = w @ r"
  using assms unfolding holds_def by (metis append_take_drop_id)

lemma holds_wr:
  assumes "holds b w" "length w < length b"
  shows "wr b (length w) c = Some (b[length w := c])" "holds (b[length w := c]) (w @ [c])"
proof -
  obtain r where r: "b = w @ r" using assms(1) by (rule holdsE)
  moreover from r assms(2) obtain x r' where "r = x # r'" by (cases r) auto
  ultimately show "wr b (length w) c = Some (b[length w := c])" "holds (b[length w := c]) (w @ [c])"
    by (simp_all add: holds_def)
qed

text \<open>Characters are compared through their byte values, where arithmetic decides.\<close>

lemma ord_eq_iff: "c = d \<longleftrightarrow> ord c = ord d"
  by simp

lemma ord_eqI: "ord c = ord d \<Longrightarrow> c = d"
  by simp

lemma ord_less_256 [simp]: "ord c < 256"
  by simp

lemma of_char_0 [simp]:
  "(of_char c :: nat) = 0 \<longleftrightarrow> c = NUL" "(of_char c :: int) = 0 \<longleftrightarrow> c = NUL"
proof -
  show "ord c = 0 \<longleftrightarrow> c = NUL"
    using of_char_eq_iff [of c NUL, where ?'a = nat] by (simp del: of_char_eq_iff)
  show "(of_char c :: int) = 0 \<longleftrightarrow> c = NUL"
    using of_char_eq_iff [of c NUL, where ?'a = int] by (simp del: of_char_eq_iff)
qed

lemma of_char_0' [simp]:
  "0 = (of_char c :: nat) \<longleftrightarrow> c = NUL" "0 = (of_char c :: int) \<longleftrightarrow> c = NUL"
  using of_char_0 by (metis)+

text \<open>Every byte is \<open>char_of n\<close> for an \<open>n\<close> below 256, which settles finite
  statements about characters by evaluation.\<close>

lemma all_chars_iff: "(\<forall>c::char. P c) \<longleftrightarrow> (\<forall>n \<in> set [0..<256]. P (char_of n))"
proof
  assume *: "\<forall>n \<in> set [0..<256]. P (char_of n)"
  show "\<forall>c. P c"
  proof
    fix c :: char
    have "ord c \<in> set [0..<256]" by simp
    with * have "P (char_of (ord c))" by blast
    then show "P c" by simp
  qed
qed simp

text \<open>Elimination rules for successful sequences of fallible steps.\<close>

lemma bind_SomeE:
  assumes "Option.bind m g = Some r"
  obtains a where "m = Some a" "g a = Some r"
  using assms by (cases m) auto

lemma bind_pairE:
  assumes "Option.bind m (\<lambda>(a, b). g a b) = Some r"
  obtains a b where "m = Some (a, b)" "g a b = Some r"
  using assms by (cases m) auto

lemma bind_tripleE:
  assumes "Option.bind m (\<lambda>(a, b, c). g a b c) = Some r"
  obtains a b c where "m = Some (a, b, c)" "g a b c = Some r"
  using assms by (cases m) auto

end
