(* ===== verification/Cstr.thy ===== *)
theory Cstr
  imports Prelude "HOL-Library.Monad_Syntax"
begin

text \<open>
  The character macros of lib/include/libchaos/str.h and the comparison and bounded copy
  routines of lib/src/str.c. A comparison reads two strings from their start; the fourfold
  unrolled loops of the source are one recursive step each. The copy routines write into a
  buffer given as the list of its bytes; a write or a read outside it is \<open>None\<close>.
\<close>

section \<open>Character classes\<close>

definition str_isspace :: "char \<Rightarrow> bool" where
  "str_isspace c \<longleftrightarrow> c = CHR '' '' \<or> c = CHR 0x09 \<or> c = CHR 0x0A \<or> c = CHR 0x0D"

definition str_isdigit :: "char \<Rightarrow> bool" where
  "str_isdigit c \<longleftrightarrow> c \<le> CHR ''9'' \<and> c \<ge> CHR ''0''"

definition str_isalpha :: "char \<Rightarrow> bool" where
  "str_isalpha c \<longleftrightarrow>
     (c \<ge> CHR ''A'' \<and> c \<le> CHR ''Z'') \<or> (c \<ge> CHR ''a'' \<and> c \<le> CHR ''z'')"

definition str_isalnum :: "char \<Rightarrow> bool" where
  "str_isalnum c \<longleftrightarrow> str_isdigit c \<or> str_isalpha c"

definition str_tolower :: "char \<Rightarrow> char" where
  "str_tolower c =
     (if c \<ge> CHR ''A'' \<and> c \<le> CHR ''Z'' then char_of (ord c + ord (CHR ''a'') - ord (CHR ''A''))
      else c)"

definition str_islower :: "char \<Rightarrow> bool" where
  "str_islower c \<longleftrightarrow> c \<ge> CHR ''a'' \<and> c \<le> CHR ''z''"

text \<open>The upper bound of the range really is \<open>'a'\<close> in the source.\<close>

definition str_toupper :: "char \<Rightarrow> char" where
  "str_toupper c =
     (if c \<ge> CHR ''a'' \<and> c \<le> CHR ''a'' then char_of (ord c - (ord (CHR ''a'') - ord (CHR ''A'')))
      else c)"

definition str_isupper :: "char \<Rightarrow> bool" where
  "str_isupper c \<longleftrightarrow> c \<ge> CHR ''A'' \<and> c \<le> CHR ''Z''"

lemma ord_str_tolower [ctype_simps]:
  "ord (str_tolower c) = (if 65 \<le> ord c \<and> ord c \<le> 90 then ord c + 32 else ord c)"
  by (simp add: str_tolower_def less_eq_char_def)

lemma str_tolower_idem [simp]: "str_tolower (str_tolower c) = str_tolower c"
  by (rule ord_eq_iff [THEN iffD2], simp only: ord_str_tolower) simp

lemma str_tolower_NUL [simp]: "str_tolower NUL = NUL"
  by (simp add: str_tolower_def less_eq_char_def)

lemma str_tolower_NUL_iff [simp]:
  "str_tolower c = NUL \<longleftrightarrow> c = NUL" "NUL = str_tolower c \<longleftrightarrow> c = NUL"
proof -
  have "ord (str_tolower c) = 0 \<longleftrightarrow> ord c = 0"
    by (simp only: ord_str_tolower) (simp del: of_char_0)
  then show "str_tolower c = NUL \<longleftrightarrow> c = NUL" by simp
  then show "NUL = str_tolower c \<longleftrightarrow> c = NUL" by metis
qed

definition str_lower :: "string \<Rightarrow> string" where
  "str_lower s = map str_tolower s"

lemma str_lower_simps [simp]:
  "str_lower [] = []" "str_lower (c # s) = str_tolower c # str_lower s"
  by (simp_all add: str_lower_def)

section \<open>Comparison\<close>

text \<open>The result of a comparison: the difference of the two bytes read as unsigned.\<close>

abbreviation byte_diff :: "char \<Rightarrow> char \<Rightarrow> int" where
  "byte_diff a b \<equiv> of_char a - of_char b"

fun str_cmp :: "string \<Rightarrow> string \<Rightarrow> int" where
  "str_cmp s1 s2 =
     (if cur s1 \<noteq> cur s2 then byte_diff (cur s1) (cur s2)
      else if cur s1 = NUL then byte_diff (cur s1) (cur s2)
      else str_cmp (tl s1) (tl s2))"

fun str_icmp :: "string \<Rightarrow> string \<Rightarrow> int" where
  "str_icmp s1 s2 =
     (if str_tolower (cur s1) \<noteq> str_tolower (cur s2)
      then byte_diff (str_tolower (cur s1)) (str_tolower (cur s2))
      else if cur s1 = NUL then byte_diff (str_tolower (cur s1)) (str_tolower (cur s2))
      else str_icmp (tl s1) (tl s2))"

text \<open>\<open>str_ncmp\<close> counts \<open>n\<close> down and leaves with 0 when it is used up or
  both strings end.\<close>

fun str_ncmp_loop :: "string \<Rightarrow> string \<Rightarrow> nat \<Rightarrow> int" where
  "str_ncmp_loop s1 s2 n =
     (if cur s1 \<noteq> cur s2 then byte_diff (cur s1) (cur s2)
      else if n - 1 = 0 \<or> cur s1 = NUL then 0
      else str_ncmp_loop (tl s1) (tl s2) (n - 1))"

definition str_ncmp :: "string \<Rightarrow> string \<Rightarrow> nat \<Rightarrow> int" where
  "str_ncmp s1 s2 n = (if n = 0 then 0 else str_ncmp_loop s1 s2 n)"

text \<open>\<open>str_nicmp\<close> counts \<open>i\<close> up to \<open>n\<close>.\<close>

fun str_nicmp_loop :: "string \<Rightarrow> string \<Rightarrow> nat \<Rightarrow> nat \<Rightarrow> int" where
  "str_nicmp_loop s1 s2 i n =
     (if i = n then 0
      else if str_tolower (cur s1) \<noteq> str_tolower (cur s2)
        then byte_diff (str_tolower (cur s1)) (str_tolower (cur s2))
      else if cur s1 = NUL then byte_diff (str_tolower (cur s1)) (str_tolower (cur s2))
      else str_nicmp_loop (tl s1) (tl s2) (Suc i) n)"

definition str_nicmp :: "string \<Rightarrow> string \<Rightarrow> nat \<Rightarrow> int" where
  "str_nicmp s1 s2 n = (if n = 0 then 0 else str_nicmp_loop s1 s2 0 n)"

declare str_cmp.simps [simp del] str_icmp.simps [simp del]
  str_ncmp_loop.simps [simp del] str_nicmp_loop.simps [simp del]

lemma str_cmp_0: "str_cmp s1 s2 = 0 \<longleftrightarrow> cstr s1 = cstr s2"
proof (induction s1 s2 rule: str_cmp.induct)
  case (1 s1 s2)
  show ?case
    by (subst str_cmp.simps; cases s1; cases s2) (use 1 in auto)
qed

lemma str_icmp_0: "str_icmp s1 s2 = 0 \<longleftrightarrow> str_lower (cstr s1) = str_lower (cstr s2)"
proof (induction s1 s2 rule: str_icmp.induct)
  case (1 s1 s2)
  show ?case
    by (subst str_icmp.simps; cases s1; cases s2) (use 1 in \<open>auto dest: sym\<close>)
qed

lemma str_ncmp_loop_0:
  "n > 0 \<Longrightarrow> str_ncmp_loop s1 s2 n = 0 \<longleftrightarrow> take n (cstr s1) = take n (cstr s2)"
proof (induction s1 s2 n rule: str_ncmp_loop.induct)
  case (1 s1 s2 n)
  then obtain k where n: "n = Suc k" by (cases n) auto
  show ?case
    by (subst str_ncmp_loop.simps; cases s1; cases s2; cases k) (use 1 n in auto)
qed

lemma str_nicmp_loop_0:
  "i \<le> n \<Longrightarrow> str_nicmp_loop s1 s2 i n = 0 \<longleftrightarrow>
     take (n - i) (str_lower (cstr s1)) = take (n - i) (str_lower (cstr s2))"
proof (induction s1 s2 i n rule: str_nicmp_loop.induct)
  case (1 s1 s2 i n)
  show ?case
  proof (cases "i = n")
    case True
    then show ?thesis by (subst str_nicmp_loop.simps) simp
  next
    case False
    with "1.prems" obtain k where k: "n - i = Suc k" "n - Suc i = k" "Suc i \<le> n"
      by (cases "n - i") auto
    show ?thesis
      by (subst str_nicmp_loop.simps; cases s1; cases s2) (use 1 k False in \<open>auto dest: sym\<close>)
  qed
qed

section \<open>Bounded copy and append\<close>

text \<open>\<open>strlcpy(d, s, n)\<close>: the loop stores \<open>s[i]\<close>, leaves at the
  terminator and when \<open>i\<close> reaches the decremented \<open>n\<close>; the byte at
  \<open>i\<close> is then the new terminator and \<open>i\<close> the result.\<close>

fun strlcpy_loop :: "string \<Rightarrow> string \<Rightarrow> nat \<Rightarrow> nat \<Rightarrow> (string \<times> nat) option" where
  "strlcpy_loop d s i n = do {
     d \<leftarrow> wr d i (cur s);
     if cur s = NUL then Some (d, i)
     else if Suc i = n then Some (d, Suc i)
     else strlcpy_loop d (tl s) (Suc i) n }"

definition strlcpy :: "string \<Rightarrow> string \<Rightarrow> nat \<Rightarrow> (string \<times> nat) option" where
  "strlcpy d s n =
     (if n = 0 then Some (d, 0)
      else do {
        (d, i) \<leftarrow> (if n - 1 > 0 then strlcpy_loop d s 0 (n - 1) else Some (d, 0));
        d \<leftarrow> wr d i NUL;
        Some (d, i) })"

text \<open>\<open>strlcat(d, s, n)\<close>: find the end of \<open>d\<close>, terminate there, then
  store the bytes of \<open>s\<close> while there is room.\<close>

fun strlcat_end :: "string \<Rightarrow> nat \<Rightarrow> nat \<Rightarrow> nat \<Rightarrow> nat option" where
  "strlcat_end d 0 i n = None"
| "strlcat_end d (Suc fuel) i n = do {
     c \<leftarrow> rd d i;
     if c = NUL then Some i
     else if Suc i = n then Some (Suc i)
     else strlcat_end d fuel (Suc i) n }"

definition strlcat :: "string \<Rightarrow> string \<Rightarrow> nat \<Rightarrow> (string \<times> nat) option" where
  "strlcat d s n =
     (if n = 0 then Some (d, 0)
      else do {
        i \<leftarrow> (if n - 1 > 0 then strlcat_end d (n - 1) 0 (n - 1) else Some 0);
        d \<leftarrow> wr d i NUL;
        if n - 1 > i then do {
          (d, i) \<leftarrow> strlcpy_loop d s i (n - 1);
          d \<leftarrow> wr d i NUL;
          Some (d, i) }
        else Some (d, i) })"

declare strlcpy_loop.simps [simp del]

text \<open>What the copying loop leaves: the bytes before \<open>i\<close>, a prefix of the
  source, and an untouched rest.\<close>

lemma strlcpy_loop_correct:
  assumes "i < n" "n < length d"
  shows "let k = min (length (cstr s)) (n - i) in
     \<exists>d'. strlcpy_loop d s i n = Some (d', i + k) \<and>
       wr d' (i + k) NUL = Some (take i d @ take k (cstr s) @ NUL # drop (Suc (i + k)) d)"
  using assms
proof (induction d s i n rule: strlcpy_loop.induct)
  case (1 d s i n)
  then have wr: "wr d i (cur s) = Some (d[i := cur s])" by simp
  show ?case
  proof (cases "cur s = NUL")
    case True
    then have "cstr s = []" by (cases s) auto
    then show ?thesis
      using True 1 by (subst strlcpy_loop.simps) (simp add: upd_conv_take_nth_drop)
  next
    case False
    then obtain c t where s: "s = c # t" "c \<noteq> NUL" by (cases s) auto
    show ?thesis
    proof (cases "Suc i = n")
      case True
      then have min: "min (length (cstr s)) (n - i) = Suc 0" using s by auto
      have "d[i := c, Suc i := NUL] = take (Suc i) (d[i := c]) @ NUL # drop (Suc (Suc i)) d"
        using "1.prems" True by (subst upd_conv_take_nth_drop) auto
      then have "d[i := c, Suc i := NUL] = take i d @ [c] @ NUL # drop (Suc (Suc i)) d"
        using "1.prems" by (simp add: take_Suc_conv_app_nth)
      then show ?thesis
        using s "1.prems" True min unfolding Let_def
        by (subst strlcpy_loop.simps) (auto simp: wr_def)
    next
      case F: False
      with 1 have lt: "Suc i < n" by simp
      define k where "k = min (length (cstr t)) (n - Suc i)"
      from "1.IH"[OF wr False F lt] "1.prems" s obtain d' where
        d': "strlcpy_loop (d[i := c]) t (Suc i) n = Some (d', Suc i + k)"
        "wr d' (Suc i + k) NUL =
          Some (take (Suc i) (d[i := c]) @ take k (cstr t) @ NUL # drop (Suc (Suc i + k)) (d[i := c]))"
        unfolding k_def Let_def by auto
      have "n - i = Suc (n - Suc i)" using lt by simp
      then have "min (length (cstr s)) (n - i) = Suc k"
        using s by (simp add: k_def)
      then show ?thesis
        using d' s F 1 wr by (subst strlcpy_loop.simps)
          (auto simp add: Let_def take_Suc_conv_app_nth)
    qed
  qed
qed

lemma strlcpy_result:
  assumes "0 < n" "n \<le> length d"
  shows "strlcpy d s n = (let k = min (length (cstr s)) (n - 1) in
     Some (take k (cstr s) @ NUL # drop (Suc k) d, k))"
proof (cases "n - 1 = 0")
  case True
  then show ?thesis
    using assms by (cases d) (auto simp: strlcpy_def Let_def)
next
  case False
  with assms have "0 < n - 1" "n - 1 < length d" by auto
  from strlcpy_loop_correct[OF this, of s] show ?thesis
    using False assms by (auto simp: strlcpy_def Let_def)
qed

text \<open>A copy that fits, whatever the limit says about the room behind it.\<close>

lemma strlcpy_loop_fits:
  "i + length (cstr s) < length d \<Longrightarrow> i + length (cstr s) < n \<Longrightarrow>
   strlcpy_loop d s i n = Some (take i d @ cstr s @ NUL # drop (Suc (i + length (cstr s))) d,
     i + length (cstr s))"
proof (induction d s i n rule: strlcpy_loop.induct)
  case (1 d s i n)
  have wr: "wr d i (cur s) = Some (d[i := cur s])" using "1.prems" by simp
  show ?case
  proof (cases "cur s = NUL")
    case True
    then have "cstr s = []" by (cases s) auto
    then show ?thesis
      using True wr "1.prems" by (subst strlcpy_loop.simps) (simp add: upd_conv_take_nth_drop)
  next
    case False
    then obtain c t where s: "s = c # t" "c \<noteq> NUL" by (cases s) auto
    moreover have "Suc i \<noteq> n" using "1.prems" s by simp
    ultimately show ?thesis
      using "1.IH"[OF wr False] "1.prems" wr
      by (subst strlcpy_loop.simps) (simp add: take_Suc_conv_app_nth)
  qed
qed

lemma strlcpy_fits:
  assumes "length (cstr s) < length d" "length (cstr s) + 1 < n"
  shows "strlcpy d s n = Some (cstr s @ NUL # drop (Suc (length (cstr s))) d, length (cstr s))"
proof -
  have "(cstr s @ NUL # drop (Suc (length (cstr s))) d)[length (cstr s) := NUL] =
      cstr s @ NUL # drop (Suc (length (cstr s))) d"
    by simp
  then show ?thesis
    using strlcpy_loop_fits[of 0 s d "n - 1"] assms by (simp add: strlcpy_def)
qed

text \<open>\<open>strlcpy(&b[i], s, n)\<close>.\<close>

definition strlcpy_at :: "string \<Rightarrow> nat \<Rightarrow> string \<Rightarrow> nat \<Rightarrow> (string \<times> nat) option" where
  "strlcpy_at b i s n = (if i \<le> length b then map_option (\<lambda>(d, k). (take i b @ d, k)) (strlcpy (drop i b) s n)
     else None)"

lemma strlcpy_at_fits:
  assumes "holds b w" "length w + length (cstr s) < length b" "length (cstr s) + 1 < n"
  obtains b' where "strlcpy_at b (length w) s n = Some (b', length (cstr s))"
    "holds b' (w @ cstr s)" "length b' = length b"
proof -
  obtain r where r: "b = w @ r" using assms(1) by (rule holdsE)
  then have "strlcpy r s n = Some (cstr s @ NUL # drop (Suc (length (cstr s))) r, length (cstr s))"
    using assms by (intro strlcpy_fits) auto
  then show ?thesis
    using that[of "w @ cstr s @ NUL # drop (Suc (length (cstr s))) r"] assms(2) r
    by (simp add: strlcpy_at_def holds_def)
qed

lemma strlcat_end_correct:
  assumes "i < n" "n - i \<le> fuel" "n \<le> length d" "NUL \<notin> set (take i d)"
  shows "strlcat_end d fuel i n = Some (min n (length (cstr d)))"
  using assms
proof (induction d fuel i n rule: strlcat_end.induct)
  case (2 d fuel i n)
  then have rd: "rd d i = Some (d ! i)" by simp
  have d: "d = take i d @ d ! i # drop (Suc i) d"
    using 2 by (intro id_take_nth_drop) simp
  have nn: "no_nul (take i d)" using 2 by (simp add: no_nul_def)
  show ?case
  proof (cases "d ! i = NUL")
    case True
    then have "cstr d = take i d"
      by (metis d cstr_append_NUL nn)
    then show ?thesis using True rd 2 by (simp add: min_def)
  next
    case False
    with nn 2 have nn': "no_nul (take (Suc i) d)"
      by (simp add: take_Suc_conv_app_nth)
    have pre: "Suc i \<le> length (cstr d)"
    proof -
      have "cstr d = cstr (take (Suc i) d @ drop (Suc i) d)" by simp
      also have "\<dots> = take (Suc i) d @ cstr (drop (Suc i) d)"
        unfolding cstr_def using nn' by (subst takeWhile_append2) (auto simp: no_nul_def)
      finally have "length (cstr d) = length (take (Suc i) d) + length (cstr (drop (Suc i) d))"
        by (metis length_append)
      then show ?thesis using 2 by simp
    qed
    show ?thesis
    proof (cases "Suc i = n")
      case True
      then show ?thesis using rd False pre by simp
    next
      case F: False
      then show ?thesis
        using 2 rd False nn' by (auto simp: no_nul_def)
    qed
  qed
qed simp

section \<open>Trimming\<close>

text \<open>
  \<open>str_trim(s)\<close> goes through a local buffer \<open>buf\<close> of 1024 bytes, whose
  contents before the call are arbitrary. The index it trims from is the copied length
  minus two. The result is what \<open>s\<close> holds afterwards.
\<close>

fun trim_skip :: "string \<Rightarrow> nat \<Rightarrow> nat \<Rightarrow> string" where
  "trim_skip s i bufsize =
     (if cur s \<noteq> NUL \<and> i < bufsize - 1 \<and> str_isspace (cur s) then trim_skip (tl s) (Suc i) bufsize
      else s)"

function trim_back :: "string \<Rightarrow> int \<Rightarrow> string" where
  "trim_back buf i =
     (if i \<ge> 0 \<and> str_isspace (buf ! nat i) then trim_back (buf[nat i := NUL]) (i - 1) else buf)"
  by pat_completeness auto
termination by (relation "measure (\<lambda>(buf, i). nat (i + 1))") auto

definition str_trim :: "string \<Rightarrow> string \<Rightarrow> string option" where
  "str_trim buf s = do {
     (buf, n) \<leftarrow> strlcpy buf (trim_skip s 0 (length buf)) (length buf);
     Some (cstr (trim_back buf (int n - 2))) }"

declare trim_skip.simps [simp del] trim_back.simps [simp del]

lemma no_nul_takeWhile [simp]: "no_nul s \<Longrightarrow> no_nul (takeWhile P s)"
  by (auto simp: no_nul_def dest: set_takeWhileD)

lemma cstr_set_NUL:
  assumes "no_nul (take i b)" "i < length b"
  shows "cstr (b[i := NUL]) = take i b"
  using assms by (simp add: upd_conv_take_nth_drop)

lemma strlcpy_cstr:
  assumes "0 < n" "n \<le> length d" "strlcpy d s n = Some (d', k)"
  shows "cstr d' = take (n - 1) (cstr s) \<and> length d' = length d \<and> k = length (cstr d')"
  using assms by (auto simp: strlcpy_result Let_def no_nul_take min_def)

lemma strlcat_result:
  assumes n: "0 < n" "n \<le> length d" and fits: "length (cstr d) < n"
  obtains d' where "strlcat d s n = Some (d', length (cstr d'))"
    "cstr d' = take (n - 1) (cstr d @ cstr s)" "length d' = length d"
proof -
  define e where "e = length (cstr d)"
  have e: "e \<le> n - 1" "e < length d" using assms by (auto simp: e_def)
  have cstr_d: "cstr d = take e d"
    unfolding e_def cstr_def by (rule takeWhile_eq_take)
  then have nn: "no_nul (take e d)" by (metis no_nul_cstr)
  have end_e: "(if n - 1 > 0 then strlcat_end d (n - 1) 0 (n - 1) else Some 0) = Some e"
    using strlcat_end_correct[of 0 "n - 1" "n - 1" d] e n by (auto simp: e_def min_def)
  show thesis
  proof (cases "n - 1 > e")
    case False
    then have "strlcat d s n = Some (d[e := NUL], e)"
      using n e end_e by (simp add: strlcat_def)
    moreover have "cstr (d[e := NUL]) = take e d" using nn e(2) by (rule cstr_set_NUL)
    ultimately show thesis
      using that[of "d[e := NUL]"] False e cstr_d by simp
  next
    case True
    have lt: "n - 1 < length (d[e := NUL])" using n by simp
    define k where "k = min (length (cstr s)) (n - 1 - e)"
    from strlcpy_loop_correct[OF True lt, of s] obtain d' where
      loop: "strlcpy_loop (d[e := NUL]) s e (n - 1) = Some (d', e + k)" and
      d': "wr d' (e + k) NUL =
        Some (take e d @ take k (cstr s) @ NUL # drop (Suc (e + k)) d)"
      using e by (auto simp: Let_def k_def)
    define r where "r = take e d @ take k (cstr s) @ NUL # drop (Suc (e + k)) d"
    have k: "e + k < length d" using True n by (simp add: k_def)
    have res: "strlcat d s n = Some (r, e + k)"
      using n e end_e True loop d' by (simp add: strlcat_def r_def)
    have cstr_r: "cstr r = take e d @ take k (cstr s)"
      unfolding r_def append_assoc[symmetric]
      by (rule cstr_append_NUL) (simp add: nn no_nul_take)
    have "take k (cstr s) = take (n - 1 - e) (cstr s)"
      by (simp add: k_def min_def)
    then have "cstr r = take (n - 1) (cstr d @ cstr s)"
      using cstr_r cstr_d e True by (simp add: min_def)
    moreover have "length (cstr r) = e + k" using cstr_r e k by (simp add: k_def)
    moreover have "length r = length d" using k by (simp add: r_def k_def)
    ultimately show thesis using that[of r] res by simp
  qed
qed

definition rstrip :: "string \<Rightarrow> string" where
  "rstrip s = rev (dropWhile str_isspace (rev s))"

lemma rstrip_simps [simp]:
  "rstrip [] = []" "rstrip (s @ [c]) = (if str_isspace c then rstrip s else s @ [c])"
  by (simp_all add: rstrip_def)

lemma length_rstrip: "length (rstrip s) \<le> length s"
  using length_dropWhile_le[of str_isspace "rev s"] by (simp add: rstrip_def)

lemma no_nul_rstrip: "no_nul s \<Longrightarrow> no_nul (rstrip s)"
  by (auto simp: rstrip_def no_nul_def dest: set_dropWhileD)

lemma trim_skip_dropWhile:
  "no_nul s \<Longrightarrow> i + length s < bufsize \<Longrightarrow> trim_skip s i bufsize = dropWhile str_isspace s"
  by (induction s arbitrary: i) (auto simp: trim_skip.simps)

lemma trim_back_rstrip:
  "trim_back (u @ rest) (int (length u) - 1) =
     rstrip u @ replicate (length u - length (rstrip u)) NUL @ rest"
proof (induction u arbitrary: rest rule: rev_induct)
  case Nil
  then show ?case by (simp add: trim_back.simps)
next
  case (snoc c u)
  show ?case
  proof (cases "str_isspace c")
    case True
    then have "trim_back ((u @ [c]) @ rest) (int (length (u @ [c])) - 1) =
        trim_back (u @ NUL # rest) (int (length u) - 1)"
      by (subst trim_back.simps) (simp add: nth_append)
    then show ?thesis
      using True snoc length_rstrip[of u] by (simp add: Suc_diff_le replicate_app_Cons_same)
  next
    case False
    then show ?thesis by (subst trim_back.simps) (simp add: nth_append)
  qed
qed

text \<open>What \<open>str_trim\<close> leaves of the string without its leading blanks.\<close>

definition trim_tail :: "string \<Rightarrow> string" where
  "trim_tail t =
     (if butlast t \<noteq> [] \<and> str_isspace (last (butlast t)) then rstrip (butlast t) else t)"

lemma cstr_trim_back:
  assumes "no_nul t"
  shows "cstr (trim_back (t @ NUL # rest) (int (length t) - 2)) = trim_tail t"
proof (cases t rule: rev_cases)
  case Nil
  then show ?thesis by (simp add: trim_back.simps trim_tail_def)
next
  case (snoc u c)
  then have eq: "trim_back (t @ NUL # rest) (int (length t) - 2) =
      rstrip u @ replicate (length u - length (rstrip u)) NUL @ c # NUL # rest"
    using trim_back_rstrip[of u "c # NUL # rest"] by simp
  have u: "no_nul u" "c \<noteq> NUL" using assms snoc by simp_all
  from eq show ?thesis
  proof (cases u rule: rev_cases)
    case Nil
    then show ?thesis using snoc u eq by (simp add: trim_tail_def)
  next
    case (snoc w d)
    show ?thesis
    proof (cases "str_isspace d")
      case True
      then have "length u - length (rstrip u) = Suc (length u - Suc (length (rstrip u)))"
        using snoc length_rstrip[of w] by simp
      then show ?thesis
        using True snoc u \<open>t = u @ [c]\<close> eq
        by (simp add: trim_tail_def no_nul_rstrip butlast_append del: rstrip_simps)
    next
      case False
      then have "cstr (w @ d # c # NUL # rest) = w @ [d, c]"
        using cstr_append_NUL[of "w @ [d, c]" rest] u snoc by simp
      then show ?thesis
        using False snoc u \<open>t = u @ [c]\<close> eq
          by (simp add: trim_tail_def butlast_append)
    qed
  qed
qed

section \<open>The properties\<close>

text \<open>A comparison is zero exactly on equal strings: \<open>str_cmp\<close> byte for byte,
  \<open>str_icmp\<close> up to ASCII case, and the counted variants on the first \<open>n\<close>
  bytes. None reads past a terminator.\<close>

theorem str_compare_zero:
  "(str_cmp s t = 0 \<longleftrightarrow> cstr s = cstr t) \<and>
   (str_icmp s t = 0 \<longleftrightarrow> str_lower (cstr s) = str_lower (cstr t)) \<and>
   (str_ncmp s t n = 0 \<longleftrightarrow> take n (cstr s) = take n (cstr t)) \<and>
   (str_nicmp s t n = 0 \<longleftrightarrow> take n (str_lower (cstr s)) = take n (str_lower (cstr t)))"
  using str_cmp_0 str_icmp_0 str_ncmp_loop_0[of n s t] str_nicmp_loop_0[of 0 n s t]
  by (simp add: str_ncmp_def str_nicmp_def)

text \<open>C28. With a buffer of at least \<open>n\<close> bytes, \<open>strlcpy\<close> stays inside its
  first \<open>n\<close> bytes, leaves there the first \<open>n - 1\<close> bytes of the source with a
  terminator, and returns the length of the result.\<close>

theorem strlcpy_bounded:
  assumes "0 < n" "n \<le> length d"
  shows "\<exists>d'. strlcpy d s n = Some (d', length (cstr d')) \<and> cstr d' = take (n - 1) (cstr s) \<and>
    length d' = length d \<and> drop n d' = drop n d \<and> NUL \<in> set (take n d')"
proof -
  define k where "k = min (length (cstr s)) (n - 1)"
  define d' where "d' = take k (cstr s) @ NUL # drop (Suc k) d"
  have k: "k \<le> length (cstr s)" "Suc k \<le> n" using assms by (auto simp: k_def)
  have "take k (cstr s) = take (n - 1) (cstr s)" by (simp add: k_def min_def)
  then have "cstr d' = take (n - 1) (cstr s)" "length (cstr d') = k"
    unfolding d'_def using k_def by (simp_all add: no_nul_take)
  moreover have "strlcpy d s n = Some (d', k)"
    using strlcpy_result[OF assms, of s] by (simp add: Let_def d'_def k_def)
  moreover have "take n d' = take k (cstr s) @ NUL # take (n - Suc k) (drop (Suc k) d)"
    using k assms by (simp add: d'_def min_def take_Cons' )
  moreover have "drop n d' = drop n d" "length d' = length d"
    using k assms by (auto simp: d'_def min_def drop_Cons' add.commute)
  ultimately show ?thesis by auto
qed

lemma strlcpy_bounded_witness:
  "\<exists>d'. strlcpy ''xxxxxx'' ''hello'' 4 = Some (d', length (cstr d')) \<and> cstr d' = ''hel''"
  using strlcpy_bounded[of 4 "''xxxxxx''" "''hello''"] by auto

text \<open>\<open>strlcat\<close> on a terminated buffer of at least \<open>n\<close> bytes appends as
  much of the source as fits, terminates, keeps the buffer's length and returns the length of
  the result.\<close>

theorem strlcat_bounded:
  assumes "0 < n" "n \<le> length d" "length (cstr d) < n"
  shows "\<exists>d'. strlcat d s n = Some (d', length (cstr d')) \<and>
    cstr d' = take (n - 1) (cstr d @ cstr s) \<and> length d' = length d"
  using strlcat_result[OF assms, of s] by metis

lemma strlcat_bounded_witness:
  "\<exists>d'. strlcat (''ab'' @ [NUL, NUL, NUL]) ''cdef'' 5 = Some (d', 4) \<and> cstr d' = ''abcd''"
  using strlcat_bounded[of 5 "''ab'' @ [NUL, NUL, NUL]" "''cdef''"] by auto

text \<open>\<open>str_trim\<close> strips leading blanks, but inspects the tail from the byte before
  the last: when that byte is not a blank a trailing blank survives, and when it is one the
  last byte is dropped with the blanks, whatever it is. The call never leaves its buffers.\<close>

theorem str_trim_exact:
  assumes "no_nul s" "length s < length buf"
  shows "str_trim buf s = Some (trim_tail (dropWhile str_isspace s))"
proof -
  define t where "t = dropWhile str_isspace s"
  have t: "no_nul t" using assms(1) by (auto simp: t_def no_nul_def dest: set_dropWhileD)
  have "length t \<le> length s" by (simp add: t_def length_dropWhile_le)
  then have "strlcpy buf t (length buf) =
      Some (t @ NUL # drop (Suc (length t)) buf, length t)"
    using assms(2) t by (subst strlcpy_result) (auto simp: Let_def)
  moreover have "trim_skip s 0 (length buf) = t"
    using assms by (simp add: t_def trim_skip_dropWhile)
  ultimately show ?thesis
    using cstr_trim_back[OF t] by (simp add: str_trim_def t_def)
qed

lemma str_trim_witness:
  "str_trim (replicate 1024 NUL) ''  a b'' = Some ''a'' \<and>
   str_trim (replicate 1024 NUL) ''ab '' = Some ''ab '' "
  using str_trim_exact[of "''  a b''" "replicate 1024 NUL"]
    str_trim_exact[of "''ab ''" "replicate 1024 NUL"]
  by (simp add: trim_tail_def rstrip_def str_isspace_def)

end
