(* ===== verification/Glob.thy ===== *)
theory Glob
  imports Cstr
begin

text \<open>
  Wildcard matching: \<open>str_match\<close> and \<open>str_imatch\<close> of lib/src/str.c, which decide
  ban lists, G-lines and K-lines. The code keeps four pointers into the two strings and
  gives up after \<open>MATCH_MAX_CALLS\<close> iterations; the model keeps the offsets, and every
  dereference is checked. The specification is the predicate \<open>glob\<close>. The two routines
  differ in the character comparison only, so their lemmas are proved once in the locale
  \<open>char_match\<close> and interpreted for both.
\<close>

section \<open>The code\<close>

text \<open>\<open>s[i]\<close> for an offset into a terminated string: the terminator is readable,
  nothing beyond it is.\<close>

definition chr_at :: "string \<Rightarrow> nat \<Rightarrow> char option" where
  "chr_at s i = (if i < length s then Some (s ! i) else if i = length s then Some NUL else None)"

function skip_stars :: "string \<Rightarrow> nat \<Rightarrow> nat" where
  "skip_stars k m = (if chr_at k m = Some (CHR ''*'') then skip_stars k (Suc m) else m)"
  by pat_completeness auto
termination
  by (relation "measure (\<lambda>(k, m). Suc (length k) - m)")
    (auto simp: chr_at_def split: if_splits)

fun back_qmarks :: "string \<Rightarrow> nat \<Rightarrow> nat" where
  "back_qmarks k m = (if m > 0 \<and> chr_at k m = Some (CHR ''?'') then back_qmarks k (m - 1) else m)"

record mstate =
  pm :: nat
  pn :: nat
  ma :: nat
  na :: nat
  wild :: bool

text \<open>The tail of an iteration: compare, then backtrack to the last star or advance.\<close>

definition match_compare ::
  "(char \<Rightarrow> char \<Rightarrow> bool) \<Rightarrow> string \<Rightarrow> string \<Rightarrow> mstate \<Rightarrow> (int + mstate) option" where
  "match_compare e str msk s = do {
     cm \<leftarrow> chr_at msk (pm s);
     cn \<leftarrow> chr_at str (pn s);
     if \<not> e cm cn \<and> cm \<noteq> CHR ''?'' then
       (if \<not> wild s then Some (Inl 0)
        else Some (Inr (s\<lparr>pm := ma s, na := Suc (na s), pn := Suc (na s)\<rparr>)))
     else
       Some (Inr (s\<lparr>pm := (if cm \<noteq> NUL then Suc (pm s) else pm s),
                   pn := (if cn \<noteq> NUL then Suc (pn s) else pn s)\<rparr>)) }"

text \<open>One iteration: \<open>Inl\<close> is a return, \<open>Inr\<close> the state of the next one.
  Stepping back from the start of an empty mask reads \<open>mask[-1]\<close>, which is
  \<open>None\<close>.\<close>

definition match_star :: "string \<Rightarrow> mstate \<Rightarrow> mstate" where
  "match_star msk s =
     (if chr_at msk (pm s) = Some (CHR ''*'')
      then let m = skip_stars msk (pm s) in s\<lparr>pm := m, wild := True, ma := m, na := pn s\<rparr>
      else s)"

definition match_iter ::
  "(char \<Rightarrow> char \<Rightarrow> bool) \<Rightarrow> string \<Rightarrow> string \<Rightarrow> mstate \<Rightarrow> (int + mstate) option" where
  "match_iter e str msk s0 = (let s = match_star msk s0 in do {
     cm \<leftarrow> chr_at msk (pm s);
     cn \<leftarrow> chr_at str (pn s);
     if cm = NUL then
       (if cn = NUL then Some (Inl 1)
        else if pm s = 0 then None
        else let b = back_qmarks msk (pm s - 1) in
          (if chr_at msk b = Some (CHR ''*'') \<and> b > 0 then Some (Inl 1)
           else if \<not> wild s then Some (Inl 0)
           else match_compare e str msk (s\<lparr>pm := ma s, na := Suc (na s), pn := Suc (na s)\<rparr>)))
     else if cn = NUL then
       Some (Inl (if chr_at msk (skip_stars msk (pm s)) = Some NUL then 1 else 0))
     else match_compare e str msk s })"

definition MATCH_MAX_CALLS :: nat where "MATCH_MAX_CALLS = 512"

fun match_loop ::
  "(char \<Rightarrow> char \<Rightarrow> bool) \<Rightarrow> nat \<Rightarrow> string \<Rightarrow> string \<Rightarrow> mstate \<Rightarrow> int option" where
  "match_loop e 0 str msk s = Some 0"
| "match_loop e (Suc calls) str msk s = do {
     r \<leftarrow> match_iter e str msk s;
     case r of Inl v \<Rightarrow> Some v | Inr s' \<Rightarrow> match_loop e calls str msk s' }"

definition match_init :: mstate where
  "match_init = \<lparr>pm = 0, pn = 0, ma = 0, na = 0, wild = False\<rparr>"

text \<open>Both arguments are pointers and may be NULL.\<close>

definition str_match :: "string option \<Rightarrow> string option \<Rightarrow> int option" where
  "str_match str msk = (case (str, msk) of
     (Some s, Some k) \<Rightarrow> match_loop (\<lambda>x y. x = y) MATCH_MAX_CALLS s k match_init
   | _ \<Rightarrow> Some 0)"

definition str_imatch :: "string option \<Rightarrow> string option \<Rightarrow> int option" where
  "str_imatch str msk = (case (str, msk) of
     (Some s, Some k) \<Rightarrow>
       match_loop (\<lambda>x y. str_tolower x = str_tolower y) MATCH_MAX_CALLS s k match_init
   | _ \<Rightarrow> Some 0)"

section \<open>The specification\<close>

fun glob :: "(char \<Rightarrow> char \<Rightarrow> bool) \<Rightarrow> string \<Rightarrow> string \<Rightarrow> bool" where
  "glob e [] s \<longleftrightarrow> s = []"
| "glob e (x # k) s \<longleftrightarrow>
     (if x = CHR ''*'' then glob e k s \<or> (case s of [] \<Rightarrow> False | _ # t \<Rightarrow> glob e (x # k) t)
      else case s of [] \<Rightarrow> False | c # t \<Rightarrow> (x = CHR ''?'' \<or> e x c) \<and> glob e k t)"

declare skip_stars.simps [simp del] back_qmarks.simps [simp del] glob.simps(2) [simp del]

lemma glob_simps [simp]:
  "glob e (CHR ''*'' # k) [] \<longleftrightarrow> glob e k []"
  "glob e (CHR ''*'' # k) (c # t) \<longleftrightarrow> glob e k (c # t) \<or> glob e (CHR ''*'' # k) t"
  "x \<noteq> CHR ''*'' \<Longrightarrow> \<not> glob e (x # k) []"
  "x \<noteq> CHR ''*'' \<Longrightarrow> glob e (x # k) (c # t) \<longleftrightarrow> (x = CHR ''?'' \<or> e x c) \<and> glob e k t"
  by (simp_all add: glob.simps(2))

lemma glob_star_iff: "glob e (CHR ''*'' # k) s \<longleftrightarrow> (\<exists>j \<le> length s. glob e k (drop j s))"
  by (induction s) (simp_all add: ex_le_Suc del: Suc_le_eq)

lemma glob_append:
  "glob e (k @ k') s \<longleftrightarrow> (\<exists>j \<le> length s. glob e k (take j s) \<and> glob e k' (drop j s))"
proof (induction k arbitrary: s)
  case Nil
  then show ?case by auto
next
  case (Cons x k)
  show ?case
  proof (cases "x = CHR ''*''")
    case True
    show ?thesis
    proof
      assume "glob e ((x # k) @ k') s"
      then obtain i where i: "i \<le> length s" "glob e (k @ k') (drop i s)"
        using True by (auto simp: glob_star_iff)
      then obtain j where j: "j \<le> length s - i" "glob e k (take j (drop i s))"
          "glob e k' (drop j (drop i s))"
        using Cons.IH by auto
      have "glob e (x # k) (take (i + j) s)"
        unfolding True glob_star_iff using i j
        by (intro exI[of _ i]) (simp add: drop_take)
      then show "\<exists>j \<le> length s. glob e (x # k) (take j s) \<and> glob e k' (drop j s)"
        using i j by (intro exI[of _ "i + j"]) (auto simp: add.commute)
    next
      assume "\<exists>j \<le> length s. glob e (x # k) (take j s) \<and> glob e k' (drop j s)"
      then obtain j i where j: "j \<le> length s" "glob e k' (drop j s)" and
        i: "i \<le> j" "glob e k (drop i (take j s))"
        using True by (auto simp: glob_star_iff)
      have "glob e (k @ k') (drop i s)"
        unfolding Cons.IH using i j
        by (intro exI[of _ "j - i"]) (auto simp: drop_take)
      then show "glob e ((x # k) @ k') s"
        using True i j by (auto simp: glob_star_iff intro!: exI[of _ i])
    qed
  next
    case False
    show ?thesis
    proof (cases s)
      case Nil
      with False show ?thesis by simp
    next
      case s: (Cons c t)
      have "(\<exists>j \<le> length s. glob e (x # k) (take j s) \<and> glob e k' (drop j s)) \<longleftrightarrow>
        (\<exists>j \<le> length t. (x = CHR ''?'' \<or> e x c) \<and> glob e k (take j t) \<and> glob e k' (drop j t))"
        using False s by (simp add: ex_le_Suc)
      with False s Cons.IH[of t] show ?thesis by auto
    qed
  qed
qed

text \<open>What a mask needs at least: one character for every position that is no star.\<close>

lemma glob_min_length: "glob e k s \<Longrightarrow> length (filter (\<lambda>x. x \<noteq> CHR ''*'') k) \<le> length s"
proof (induction k arbitrary: s)
  case (Cons x k)
  show ?case
  proof (cases "x = CHR ''*''")
    case True
    with Cons.prems obtain j where "glob e k (drop j s)" by (auto simp: glob_star_iff)
    from Cons.IH[OF this] True show ?thesis by simp
  next
    case False
    with Cons show ?thesis by (cases s) auto
  qed
qed simp

lemma glob_stars: "glob e (replicate n (CHR ''*'') @ k) s \<longleftrightarrow>
    (if n = 0 then glob e k s else \<exists>j \<le> length s. glob e k (drop j s))"
proof (induction n arbitrary: s)
  case (Suc n)
  show ?case
  proof (cases "n = 0")
    case True
    then show ?thesis by (simp add: glob_star_iff)
  next
    case False
    have "(\<exists>i \<le> length s. \<exists>j \<le> length s - i. glob e k (drop (j + i) s)) \<longleftrightarrow>
        (\<exists>j \<le> length s. glob e k (drop j s))"
    proof
      assume "\<exists>i \<le> length s. \<exists>j \<le> length s - i. glob e k (drop (j + i) s)"
      then obtain i j where "i \<le> length s" "j \<le> length s - i" "glob e k (drop (j + i) s)" by blast
      then show "\<exists>j \<le> length s. glob e k (drop j s)" by (intro exI[of _ "j + i"]) simp
    next
      assume "\<exists>j \<le> length s. glob e k (drop j s)"
      then show "\<exists>i \<le> length s. \<exists>j \<le> length s - i. glob e k (drop (j + i) s)"
        by (intro exI[of _ 0]) simp
    qed
    with False show ?thesis by (simp add: Suc glob_star_iff)
  qed
qed simp

lemma glob_star_suffix:
  "glob e (k @ [CHR ''*'']) s \<Longrightarrow> glob e (k @ [CHR ''*'']) (s @ t)"
proof -
  assume "glob e (k @ [CHR ''*'']) s"
  then obtain j where "j \<le> length s" "glob e k (take j s)"
    by (auto simp: glob_append)
  then show ?thesis
    unfolding glob_append glob_star_iff by (intro exI[of _ j]) (auto intro: exI[of _ "length s + length t - j"])
qed

text \<open>A mask that ends in a star and some question marks matches every extension of what
  it matches.\<close>

lemma glob_qmarks: "glob e (replicate n (CHR ''?'')) s \<longleftrightarrow> length s = n"
  by (induction n arbitrary: s) (case_tac s; auto)+

lemma glob_star_qmarks_extend:
  assumes "glob e (k @ CHR ''*'' # replicate n (CHR ''?'')) s"
  shows "glob e (k @ CHR ''*'' # replicate n (CHR ''?'')) (s @ t)"
proof -
  have eq: "k @ CHR ''*'' # replicate n (CHR ''?'') = (k @ [CHR ''*'']) @ replicate n (CHR ''?'')"
    by simp
  from assms obtain j where j: "j \<le> length s" "glob e (k @ [CHR ''*'']) (take j s)" "length s - j = n"
    unfolding eq glob_append[of e "k @ _"] glob_qmarks by auto
  have "glob e (k @ [CHR ''*'']) (take j s @ take (length t) (drop j (s @ t)))"
    by (rule glob_star_suffix[OF j(2)])
  also have "take j s @ take (length t) (drop j (s @ t)) = take (j + length t) (s @ t)"
    using j(1) by (simp add: take_add add.commute)
  finally show ?thesis
    unfolding eq glob_append[of e "k @ _"] glob_qmarks
    using j by (intro exI[of _ "j + length t"]) simp
qed

section \<open>Scanning the mask\<close>

lemma chr_at_simps [simp]:
  "i < length s \<Longrightarrow> chr_at s i = Some (s ! i)" "chr_at s (length s) = Some NUL"
  "i = length s \<Longrightarrow> chr_at s i = Some NUL"
  by (simp_all add: chr_at_def)

lemma chr_at_total: "i \<le> length s \<Longrightarrow> \<exists>c. chr_at s i = Some c"
  by (auto simp: chr_at_def)

lemma chr_at_NUL_iff: "no_nul s \<Longrightarrow> chr_at s i = Some NUL \<longleftrightarrow> i = length s"
  by (auto simp: chr_at_def no_nul_def dest: nth_mem)

lemma chr_at_SomeD: "chr_at s i = Some c \<Longrightarrow> c \<noteq> NUL \<Longrightarrow> i < length s \<and> s ! i = c"
  by (auto simp: chr_at_def split: if_splits)

lemma skip_stars_correct:
  assumes "m \<le> length k"
  shows "m \<le> skip_stars k m \<and> skip_stars k m \<le> length k \<and>
    drop m k = replicate (skip_stars k m - m) (CHR ''*'') @ drop (skip_stars k m) k \<and>
    chr_at k (skip_stars k m) \<noteq> Some (CHR ''*'')"
  using assms
proof (induction k m rule: skip_stars.induct)
  case (1 k m)
  show ?case
  proof (cases "chr_at k m = Some (CHR ''*'')")
    case False
    then have "skip_stars k m = m" by (subst skip_stars.simps) simp
    then show ?thesis using 1 False by simp
  next
    case True
    then have m: "m < length k" "k ! m = CHR ''*''" by (auto dest: chr_at_SomeD)
    have eq: "skip_stars k m = skip_stars k (Suc m)"
      using True by (subst skip_stars.simps) simp
    have dm: "drop m k = CHR ''*'' # drop (Suc m) k"
      using m by (metis Cons_nth_drop_Suc)
    have IH: "Suc m \<le> skip_stars k (Suc m)" "skip_stars k (Suc m) \<le> length k"
      "drop (Suc m) k = replicate (skip_stars k (Suc m) - Suc m) (CHR ''*'') @
         drop (skip_stars k (Suc m)) k"
      "chr_at k (skip_stars k (Suc m)) \<noteq> Some (CHR ''*'')"
      using "1.IH"[OF True] m by simp_all
    have "skip_stars k (Suc m) - m = Suc (skip_stars k (Suc m) - Suc m)" using IH(1) by simp
    then show ?thesis
      unfolding eq dm using IH by (simp only: replicate_Suc append_Cons) simp
  qed
qed

lemma skip_stars_greater:
  "chr_at k m = Some (CHR ''*'') \<Longrightarrow> m < skip_stars k m"
  using skip_stars_correct[of "Suc m" k]
  by (subst skip_stars.simps) (auto dest: chr_at_SomeD)

lemma take_skip_stars:
  assumes "m \<le> length k"
  shows "take (skip_stars k m) k = take m k @ replicate (skip_stars k m - m) (CHR ''*'')"
proof -
  define d where "d = skip_stars k m - m"
  from skip_stars_correct[OF assms] have d: "skip_stars k m = m + d"
    "drop m k = replicate d (CHR ''*'') @ drop (m + d) k" by (auto simp: d_def)
  have "take (m + d) k = take m k @ take d (drop m k)" by (rule take_add)
  also have "take d (drop m k) = replicate d (CHR ''*'')"
    by (subst d(2)) simp
  finally show ?thesis by (simp add: d)
qed

lemma back_qmarks_correct:
  assumes "m < length k"
  shows "back_qmarks k m \<le> m \<and>
    drop (Suc (back_qmarks k m)) (take (Suc m) k) = replicate (m - back_qmarks k m) (CHR ''?'')"
  using assms
proof (induction k m rule: back_qmarks.induct)
  case (1 k m)
  show ?case
  proof (cases "m > 0 \<and> chr_at k m = Some (CHR ''?'')")
    case False
    then have "back_qmarks k m = m" by (subst back_qmarks.simps) auto
    then show ?thesis by simp
  next
    case True
    with 1 have m: "k ! m = CHR ''?''" "m < length k" by simp_all
    have eq: "back_qmarks k m = back_qmarks k (m - 1)"
      using True by (subst back_qmarks.simps) simp
    have lt: "m - 1 < length k" using m by simp
    define d where "d = m - 1 - back_qmarks k (m - 1)"
    have d: "back_qmarks k (m - 1) + d = m - 1"
      "drop (Suc (back_qmarks k (m - 1))) (take m k) = replicate d (CHR ''?'')"
      using "1.IH"[OF True lt] True by (auto simp: d_def)
    have "drop (Suc (back_qmarks k (m - 1))) (take (Suc m) k) =
        replicate d (CHR ''?'') @ [CHR ''?'']"
      using m d True by (simp add: take_Suc_conv_app_nth)
    moreover have "m - back_qmarks k (m - 1) = Suc d" using d(1) True by auto
    ultimately show ?thesis
      unfolding eq using d by (simp add: replicate_append_same)
  qed
qed

section \<open>The invariant of the loop\<close>

definition match_inv :: "(char \<Rightarrow> char \<Rightarrow> bool) \<Rightarrow> string \<Rightarrow> string \<Rightarrow> mstate \<Rightarrow> bool" where
  "match_inv e str msk s \<longleftrightarrow>
     pm s \<le> length msk \<and> pn s \<le> length str \<and>
     glob e (take (pm s) msk) (take (pn s) str) \<and>
     (\<forall>i. ma s \<le> i \<and> i < pm s \<longrightarrow> msk ! i \<noteq> CHR ''*'') \<and>
     na s \<le> pn s \<and> ma s \<le> pm s \<and> pm s - ma s = pn s - na s \<and>
     (wild s \<longrightarrow> chr_at msk (ma s) \<noteq> Some (CHR ''*'') \<and>
        (\<exists>k. take (ma s) msk = k @ [CHR ''*'']) \<and>
        glob e (take (ma s) msk) (take (na s) str)) \<and>
     (\<not> wild s \<longrightarrow> ma s = 0 \<and> na s = 0)"

text \<open>What is left to match, from here or by moving the last star further.\<close>

definition match_live :: "(char \<Rightarrow> char \<Rightarrow> bool) \<Rightarrow> string \<Rightarrow> string \<Rightarrow> mstate \<Rightarrow> bool" where
  "match_live e str msk s \<longleftrightarrow>
     glob e (drop (pm s) msk) (drop (pn s) str) \<or>
     (wild s \<and> (\<exists>j. na s < j \<and> j \<le> length str \<and> glob e (drop (ma s) msk) (drop j str)))"

definition match_work :: "string \<Rightarrow> string \<Rightarrow> mstate \<Rightarrow> nat" where
  "match_work str msk s = (length str - na s) * Suc (length msk) + (length msk - pm s)"

text \<open>The comparison enters only through how it treats the terminator.\<close>

locale char_match =
  fixes e :: "char \<Rightarrow> char \<Rightarrow> bool"
  assumes e_NUL_left: "e NUL c \<longleftrightarrow> c = NUL"
    and e_NUL_right: "e x NUL \<longleftrightarrow> x = NUL"
begin

text \<open>Moving the last star one character further.\<close>

lemma backtrack_inv:
  assumes "match_inv e str msk s" "wild s" "na s < length str"
  shows "match_inv e str msk (s\<lparr>pm := ma s, na := Suc (na s), pn := Suc (na s)\<rparr>)"
proof -
  obtain k where k: "take (ma s) msk = k @ [CHR ''*'']"
    using assms by (auto simp: match_inv_def)
  have "glob e (take (ma s) msk) (take (na s) str @ [str ! na s])"
    using glob_star_suffix[of e k "take (na s) str"] assms k by (simp add: match_inv_def)
  then have "glob e (take (ma s) msk) (take (Suc (na s)) str)"
    using assms by (simp add: take_Suc_conv_app_nth)
  then show ?thesis
    using assms by (auto simp: match_inv_def)
qed

lemma backtrack_live:
  assumes "match_live e str msk s" "\<not> glob e (drop (pm s) msk) (drop (pn s) str)"
  shows "match_live e str msk (s\<lparr>pm := ma s, na := Suc (na s), pn := Suc (na s)\<rparr>)"
  using assms by (auto simp: match_live_def less_Suc_eq_le Suc_le_eq)
    (metis Suc_lessI Suc_leI le_neq_implies_less)

lemma backtrack_work:
  assumes "match_inv e str msk s" "na s < length str"
  shows "match_work str msk (s\<lparr>pm := ma s, na := Suc (na s), pn := Suc (na s)\<rparr>)
    < match_work str msk s"
proof -
  obtain d where "length str - na s = Suc d" "length str - Suc (na s) = d"
    using assms(2) by (metis Suc_diff_Suc)
  then show ?thesis by (simp add: match_work_def)
qed

lemma compare_total:
  assumes "match_inv e str msk s"
  shows "match_compare e str msk s \<noteq> None"
  using assms chr_at_total[of "pm s" msk] chr_at_total[of "pn s" str]
  by (auto simp: match_compare_def match_inv_def)

text \<open>The comparison at the end of an iteration. The position in the string is behind
  its end only together with the mask.\<close>

lemma compare_Inr:
  assumes inv: "match_inv e str msk s" and res: "match_compare e str msk s = Some (Inr s')"
    and nstar: "chr_at msk (pm s) \<noteq> Some (CHR ''*'')"
    and ends: "pn s = length str \<Longrightarrow> pm s = length msk" and nn: "no_nul str" "no_nul msk"
  shows "match_inv e str msk s' \<and> (match_live e str msk s \<longrightarrow> match_live e str msk s') \<and>
    (match_work str msk s' < match_work str msk s \<or> s' = s)"
proof -
  have le: "pm s \<le> length msk" "pn s \<le> length str" using inv by (auto simp: match_inv_def)
  obtain cm cn where c: "chr_at msk (pm s) = Some cm" "chr_at str (pn s) = Some cn"
    using chr_at_total le by meson
  show ?thesis
  proof (cases "\<not> e cm cn \<and> cm \<noteq> CHR ''?''")
    case True
    with res c have s': "s' = s\<lparr>pm := ma s, na := Suc (na s), pn := Suc (na s)\<rparr>" "wild s"
      by (auto simp: match_compare_def split: if_splits)
    have "pn s < length str"
    proof (rule ccontr)
      assume "\<not> pn s < length str"
      with le ends c have "cn = NUL" "cm = NUL" by auto
      with True e_NUL_left show False by simp
    qed
    then have na: "na s < length str" using inv by (auto simp: match_inv_def)
    have "\<not> glob e (drop (pm s) msk) (drop (pn s) str)"
    proof (cases "pm s < length msk")
      case False
      then show ?thesis using \<open>pn s < length str\<close> by simp
    next
      case m: True
      then have "drop (pm s) msk = cm # drop (Suc (pm s)) msk" "cm \<noteq> CHR ''*''"
        "drop (pn s) str = cn # drop (Suc (pn s)) str"
        using c nstar \<open>pn s < length str\<close> by (auto simp: Cons_nth_drop_Suc)
      with True show ?thesis by simp
    qed
    then show ?thesis
      unfolding s' using backtrack_inv[OF inv s'(2) na] backtrack_live backtrack_work[OF inv na]
      by blast
  next
    case False
    with res c have s': "s' = s\<lparr>pm := (if cm \<noteq> NUL then Suc (pm s) else pm s),
        pn := (if cn \<noteq> NUL then Suc (pn s) else pn s)\<rparr>"
      by (auto simp: match_compare_def)
    show ?thesis
    proof (cases "pm s < length msk")
      case m: False
      then have "cm = NUL" using c le by (auto simp: chr_at_def split: if_splits)
      with False e_NUL_left have "cn = NUL" by auto
      with s' \<open>cm = NUL\<close> have "s' = s" by simp
      then show ?thesis using inv by simp
    next
      case m: True
      then have n: "pn s < length str" using ends le by fastforce
      have cs: "cm = msk ! pm s" "cn = str ! pn s" "cm \<noteq> CHR ''*''" "cm \<noteq> NUL" "cn \<noteq> NUL"
        using c m n nstar nn by (auto simp: no_nul_def dest: nth_mem)
      then have s'': "s' = s\<lparr>pm := Suc (pm s), pn := Suc (pn s)\<rparr>" using s' by simp
      have "glob e [cm] [cn]" using False cs by auto
      then have g: "glob e (take (Suc (pm s)) msk) (take (Suc (pn s)) str)"
        using inv m n cs unfolding match_inv_def
        by (simp add: take_Suc_conv_app_nth glob_append)
          (intro exI[of _ "pn s"], simp)
      have d: "drop (pm s) msk = cm # drop (Suc (pm s)) msk"
        "drop (pn s) str = cn # drop (Suc (pn s)) str"
        using cs m n by (auto simp: Cons_nth_drop_Suc)
      have "match_inv e str msk s'"
        using inv g m n cs unfolding s'' match_inv_def by (auto simp: less_Suc_eq)
      moreover have "match_live e str msk s \<Longrightarrow> match_live e str msk s'"
        using cs d unfolding s'' match_live_def by auto
      moreover have "match_work str msk s' < match_work str msk s"
        using m by (simp add: s'' match_work_def)
      ultimately show ?thesis by blast
    qed
  qed
qed

lemma compare_Inl:
  assumes inv: "match_inv e str msk s" and res: "match_compare e str msk s = Some (Inl v)"
    and nstar: "chr_at msk (pm s) \<noteq> Some (CHR ''*'')" and nn: "no_nul str" "no_nul msk"
  shows "v = 0 \<and> \<not> match_live e str msk s"
proof -
  have le: "pm s \<le> length msk" "pn s \<le> length str" using inv by (auto simp: match_inv_def)
  obtain cm cn where c: "chr_at msk (pm s) = Some cm" "chr_at str (pn s) = Some cn"
    using chr_at_total le by meson
  with res have r: "\<not> e cm cn" "cm \<noteq> CHR ''?''" "\<not> wild s" "v = 0"
    by (auto simp: match_compare_def split: if_splits)
  have "\<not> glob e (drop (pm s) msk) (drop (pn s) str)"
  proof (cases "pm s < length msk"; cases "pn s < length str")
    assume "pm s < length msk" "pn s < length str"
    then have "drop (pm s) msk = cm # drop (Suc (pm s)) msk" "cm \<noteq> CHR ''*''"
      "drop (pn s) str = cn # drop (Suc (pn s)) str"
      using c nstar by (auto simp: Cons_nth_drop_Suc)
    with r show ?thesis by simp
  next
    assume m: "pm s < length msk" "\<not> pn s < length str"
    then have "drop (pm s) msk = cm # drop (Suc (pm s)) msk" "cm \<noteq> CHR ''*''"
      using c nstar by (auto simp: Cons_nth_drop_Suc)
    with m show ?thesis by simp
  next
    assume "\<not> pm s < length msk" "\<not> pn s < length str"
    with c le have "cm = NUL" "cn = NUL" by (auto simp: chr_at_def split: if_splits)
    with r e_NUL_left show ?thesis by simp
  qed simp
  with r show ?thesis by (simp add: match_live_def)
qed

text \<open>Running over the stars: a later star replaces the one that was remembered. What
  the earlier star could still have matched, the later one can.\<close>

lemma star_cases:
  obtains "chr_at msk (pm s) \<noteq> Some (CHR ''*'')" "match_star msk s = s"
  | "chr_at msk (pm s) = Some (CHR ''*'')" "pm s < length msk" "pm s < skip_stars msk (pm s)"
    "match_star msk s = s\<lparr>pm := skip_stars msk (pm s), wild := True,
       ma := skip_stars msk (pm s), na := pn s\<rparr>"
proof (cases "chr_at msk (pm s) = Some (CHR ''*'')")
  case True
  then show thesis
    using that(2) skip_stars_greater[OF True]
    by (auto simp: match_star_def Let_def dest: chr_at_SomeD)
qed (use that in \<open>simp add: match_star_def\<close>)

lemma star_inv:
  assumes inv: "match_inv e str msk s"
  shows "match_inv e str msk (match_star msk s) \<and>
    chr_at msk (pm (match_star msk s)) \<noteq> Some (CHR ''*'')"
proof (cases rule: star_cases[of msk s])
  case 2
  define m where "m = skip_stars msk (pm s)"
  have sk: "m \<le> length msk" "chr_at msk m \<noteq> Some (CHR ''*'')"
    using skip_stars_correct[of "pm s" msk] 2 by (auto simp: m_def)
  obtain d where d: "m - pm s = Suc d" using 2 by (auto simp: m_def dest: less_imp_Suc_add)
  have t: "take m msk = take (pm s) msk @ replicate (m - pm s) (CHR ''*'')"
    using 2 unfolding m_def by (intro take_skip_stars) simp
  have "glob e (take m msk) (take (pn s) str)"
    unfolding t glob_append using inv
    by (intro exI[of _ "pn s"]) (simp add: match_inv_def glob_stars[where k = "[]", simplified])
  moreover have "\<exists>k. take m msk = k @ [CHR ''*'']"
    using t d by (metis append_assoc replicate_Suc replicate_append_same)
  ultimately show ?thesis
    using inv sk unfolding 2(4) m_def[symmetric] by (simp add: match_inv_def)
qed (use inv in simp)

lemma star_work:
  assumes inv: "match_inv e str msk s"
  shows "match_work str msk (match_star msk s) \<le> match_work str msk s"
proof (cases rule: star_cases[of msk s])
  case 2
  have "na s \<le> pn s" using inv by (simp add: match_inv_def)
  then show ?thesis
    unfolding 2(4) match_work_def using 2(3)
    by (simp add: add_mono mult_le_mono diff_le_mono2)
qed simp

lemma star_free_length:
  "glob e k s \<Longrightarrow> (\<forall>i < length k. k ! i \<noteq> CHR ''*'') \<Longrightarrow> length s = length k"
proof (induction k arbitrary: s)
  case (Cons x k)
  from Cons.prems(2) have "x \<noteq> CHR ''*''" "\<forall>i < length k. k ! i \<noteq> CHR ''*''" by force+
  with Cons show ?case by (cases s) auto
qed simp

lemma star_live:
  assumes inv: "match_inv e str msk s" and live: "match_live e str msk s"
  shows "match_live e str msk (match_star msk s)"
proof (cases rule: star_cases[of msk s])
  case 2
  define m where "m = skip_stars msk (pm s)"
  have dm: "drop (pm s) msk = replicate (m - pm s) (CHR ''*'') @ drop m msk"
    using skip_stars_correct[of "pm s" msk] 2 by (simp add: m_def)
  have gt: "m - pm s \<noteq> 0" using 2 by (simp add: m_def)
  have "\<exists>j \<ge> pn s. j \<le> length str \<and> glob e (drop m msk) (drop j str)"
  proof -
    from live consider "glob e (drop (pm s) msk) (drop (pn s) str)"
      | j where "wild s" "na s < j" "j \<le> length str" "glob e (drop (ma s) msk) (drop j str)"
      by (auto simp: match_live_def)
    then show ?thesis
    proof cases
      case 1
      with gt obtain j where "j \<le> length str - pn s" "glob e (drop m msk) (drop j (drop (pn s) str))"
        by (auto simp: dm glob_stars)
      then show ?thesis
        using inv by (intro exI[of _ "pn s + j"]) (auto simp: match_inv_def add.commute)
    next
      case (2 j)
      define seg where "seg = take (pm s - ma s) (drop (ma s) msk)"
      have le: "ma s \<le> pm s" "pm s \<le> length msk" "pm s - ma s = pn s - na s" "na s \<le> pn s"
        using inv by (auto simp: match_inv_def)
      have "drop (ma s) msk = seg @ drop (pm s) msk"
        using le by (metis append_take_drop_id drop_drop le_add_diff_inverse2 seg_def)
      with 2 obtain i where i: "i \<le> length str - j" "glob e seg (take i (drop j str))"
        "glob e (drop (pm s) msk) (drop i (drop j str))"
        by (auto simp: glob_append)
      have "\<forall>i < length seg. seg ! i \<noteq> CHR ''*''"
        using inv le by (auto simp: match_inv_def seg_def)
      from star_free_length[OF i(2) this] have "i = pm s - ma s"
        using i(1) le 2 by (simp add: seg_def)
      moreover from i(3) gt obtain l where "l \<le> length str - (i + j)"
          "glob e (drop m msk) (drop l (drop (i + j) str))"
        by (auto simp: dm glob_stars)
      ultimately show ?thesis
        using i(1) le 2 by (intro exI[of _ "l + (i + j)"]) auto
    qed
  qed
  then obtain j where j: "pn s \<le> j" "j \<le> length str" "glob e (drop m msk) (drop j str)" by blast
  then show ?thesis
    unfolding 2(4) m_def[symmetric] match_live_def by (cases "j = pn s") auto
qed (use live in simp)

text \<open>The shortcut at the end of the mask: a star followed by question marks.\<close>

lemma end_of_mask_match:
  assumes inv: "match_inv e str msk s" and pm: "pm s = length msk" "msk \<noteq> []"
    and b: "b = back_qmarks msk (pm s - 1)" "chr_at msk b = Some (CHR ''*'')"
  shows "glob e msk str"
proof -
  have bq: "b \<le> length msk - 1"
    "drop (Suc b) msk = replicate (length msk - 1 - b) (CHR ''?'')"
    using back_qmarks_correct[of "length msk - 1" msk] pm b by simp_all
  have lt: "b < length msk" "msk ! b = CHR ''*''" using b(2) by (auto dest: chr_at_SomeD)
  have msk: "msk = take b msk @ CHR ''*'' # replicate (length msk - 1 - b) (CHR ''?'')"
    using id_take_nth_drop[OF lt(1)] lt bq by simp
  have "glob e msk (take (pn s) str)"
    using inv pm by (simp add: match_inv_def)
  then have "glob e msk (take (pn s) str @ drop (pn s) str)"
    by (subst msk, subst (asm) msk, intro glob_star_qmarks_extend)
  then show ?thesis by simp
qed

lemma glob_only_stars: "glob e k [] \<longleftrightarrow> (\<exists>n. k = replicate n (CHR ''*''))"
proof
  show "glob e k [] \<Longrightarrow> \<exists>n. k = replicate n (CHR ''*'')"
  proof (induction k)
    case (Cons x k)
    then show ?case
      by (cases "x = CHR ''*''") (auto intro: exI[of _ "Suc _"] simp flip: replicate_Suc)
  qed simp
qed (use glob_stars[where k = "[]"] in auto)

text \<open>The end of the string: the rest of the mask has to be stars.\<close>

lemma end_of_string:
  assumes inv: "match_inv e str msk s" and pn: "pn s = length str" and nn: "no_nul msk"
  shows "chr_at msk (skip_stars msk (pm s)) = Some NUL \<Longrightarrow> glob e msk str"
    and "chr_at msk (skip_stars msk (pm s)) \<noteq> Some NUL \<Longrightarrow> \<not> match_live e str msk s"
proof -
  have le: "pm s \<le> length msk" "ma s \<le> pm s" using inv by (auto simp: match_inv_def)
  note sk = skip_stars_correct[OF le(1)]
  define r where "r = skip_stars msk (pm s)"
  have dm: "drop (pm s) msk = replicate (r - pm s) (CHR ''*'') @ drop r msk" "r \<le> length msk"
    using sk by (auto simp: r_def)
  show "glob e msk str" if "chr_at msk (skip_stars msk (pm s)) = Some NUL"
  proof -
    have "r = length msk" using that nn chr_at_NUL_iff r_def by blast
    then have "glob e (drop (pm s) msk) []" using dm by (auto simp: glob_only_stars)
    then have "glob e (take (pm s) msk @ drop (pm s) msk) str"
      unfolding glob_append using inv pn
      by (intro exI[of _ "length str"]) (simp add: match_inv_def)
    then show ?thesis by simp
  qed
  show "\<not> match_live e str msk s" if "chr_at msk (skip_stars msk (pm s)) \<noteq> Some NUL"
  proof
    assume "match_live e str msk s"
    have r: "r < length msk" "msk ! r \<noteq> CHR ''*''"
      using that dm(2) sk by (auto simp: r_def chr_at_def split: if_splits)
    then have nonstar: "msk ! r \<in> set (filter (\<lambda>x. x \<noteq> CHR ''*'') (drop (pm s) msk))"
      using dm(1) by (auto simp: Cons_nth_drop_Suc[symmetric])
    have count: "0 < length (filter (\<lambda>x. x \<noteq> CHR ''*'') (drop (pm s) msk))"
      using nonstar by (metis length_pos_if_in_set)
    from \<open>match_live e str msk s\<close> consider "glob e (drop (pm s) msk) []"
      | j where "wild s" "na s < j" "glob e (drop (ma s) msk) (drop j str)"
      using pn by (auto simp: match_live_def)
    then show False
    proof cases
      case 1
      with glob_min_length[OF 1] count show False by simp
    next
      case (2 j)
      have "drop (ma s) msk = take (pm s - ma s) (drop (ma s) msk) @ drop (pm s) msk"
        using le by (metis append_take_drop_id drop_drop le_add_diff_inverse2)
      moreover have "filter (\<lambda>x. x \<noteq> CHR ''*'') (take (pm s - ma s) (drop (ma s) msk)) =
          take (pm s - ma s) (drop (ma s) msk)"
        using inv le by (auto simp: match_inv_def filter_id_conv in_set_conv_nth)
      ultimately have "length (filter (\<lambda>x. x \<noteq> CHR ''*'') (drop (ma s) msk)) > pm s - ma s"
        using count le by (metis (no_types, lifting) filter_append length_append length_take
            length_drop less_add_same_cancel1 min.absorb2 diff_le_mono)
      with glob_min_length[OF 2(3)] 2(2) inv pn show False
        by (auto simp: match_inv_def)
    qed
  qed
qed

lemma iter_correct:
  assumes inv: "match_inv e str msk s0" and nn: "no_nul str" "no_nul msk" and ne: "msk \<noteq> []"
  shows "case match_iter e str msk s0 of
      None \<Rightarrow> False
    | Some (Inl v) \<Rightarrow> v = 1 \<and> glob e msk str \<or> v = 0 \<and> \<not> match_live e str msk s0
    | Some (Inr s') \<Rightarrow> match_inv e str msk s' \<and>
        (match_live e str msk s0 \<longrightarrow> match_live e str msk s') \<and>
        match_work str msk s' < match_work str msk s0"
proof -
  define s where "s = match_star msk s0"
  have inv': "match_inv e str msk s" "chr_at msk (pm s) \<noteq> Some (CHR ''*'')"
    using star_inv[OF inv] by (auto simp: s_def)
  have live: "match_live e str msk s0 \<Longrightarrow> match_live e str msk s"
    and work: "match_work str msk s \<le> match_work str msk s0"
    using star_live[OF inv] star_work[OF inv] by (auto simp: s_def)
  have le: "pm s \<le> length msk" "pn s \<le> length str" "na s \<le> pn s"
    "pm s - ma s = pn s - na s" "ma s \<le> pm s"
    using inv' by (auto simp: match_inv_def)
  obtain cm cn where c: "chr_at msk (pm s) = Some cm" "chr_at str (pn s) = Some cn"
    using chr_at_total le by meson
  have cm: "cm = NUL \<longleftrightarrow> pm s = length msk" and cn: "cn = NUL \<longleftrightarrow> pn s = length str"
    using c nn chr_at_NUL_iff by auto
  consider "cm = NUL" "cn = NUL" | "cm = NUL" "cn \<noteq> NUL" | "cm \<noteq> NUL" "cn = NUL"
    | "cm \<noteq> NUL" "cn \<noteq> NUL" by blast
  then show ?thesis
  proof cases
    case 1
    then show ?thesis
      using c inv' cm cn by (simp add: match_iter_def s_def[symmetric] match_inv_def)
  next
    case 2
    define b where "b = back_qmarks msk (pm s - 1)"
    define s2 where "s2 = s\<lparr>pm := ma s, na := Suc (na s), pn := Suc (na s)\<rparr>"
    have pm: "pm s = length msk" "pm s \<noteq> 0" and pn: "pn s < length str"
      using 2 cm cn le ne by auto
    have dead: "\<not> glob e (drop (pm s) msk) (drop (pn s) str)" using pm pn by simp
    show ?thesis
    proof (cases "chr_at msk b = Some (CHR ''*'') \<and> b > 0")
      case True
      with 2 c pm end_of_mask_match[OF inv'(1) pm(1) ne] show ?thesis
        by (simp add: match_iter_def s_def[symmetric] b_def)
    next
      case noshort: False
      show ?thesis
      proof (cases "wild s")
        case False
        with noshort 2 c pm dead live show ?thesis
          by (auto simp: match_iter_def s_def[symmetric] b_def match_live_def Let_def)
      next
        case True
        have na: "na s < length str" using le pn by simp
        have inv2: "match_inv e str msk s2"
          unfolding s2_def by (rule backtrack_inv[OF inv'(1) True na])
        have live2: "match_live e str msk s \<Longrightarrow> match_live e str msk s2"
          unfolding s2_def using backtrack_live dead by blast
        have work2: "match_work str msk s2 < match_work str msk s"
          unfolding s2_def by (rule backtrack_work[OF inv'(1) na])
        have nstar2: "chr_at msk (pm s2) \<noteq> Some (CHR ''*'')"
          using inv'(1) True by (simp add: s2_def match_inv_def)
        have ends2: "pn s2 = length str \<Longrightarrow> pm s2 = length msk"
          using le pn pm by (auto simp: s2_def)
        have it: "match_iter e str msk s0 = match_compare e str msk s2"
          using noshort 2 c pm True
          by (auto simp: match_iter_def s_def[symmetric] b_def s2_def Let_def)
        show ?thesis
          unfolding it
          using compare_total[OF inv2] compare_Inl[OF inv2 _ nstar2 nn]
            compare_Inr[OF inv2 _ nstar2 ends2 nn] live live2 work work2
          by (fastforce split: option.split sum.split)
      qed
    qed
  next
    case 3
    with c cn end_of_string[OF inv'(1) _ nn(2)] live show ?thesis
      by (auto simp: match_iter_def s_def[symmetric])
  next
    case 4
    have it: "match_iter e str msk s0 = match_compare e str msk s"
      using 4 c by (simp add: match_iter_def s_def[symmetric])
    have ends: "pn s = length str \<Longrightarrow> pm s = length msk" using 4 cn by simp
    have neq: "s' \<noteq> s" if "match_compare e str msk s = Some (Inr s')" for s'
    proof
      assume "s' = s"
      with that c 4 have "\<not> e cm cn" "wild s" "s = s\<lparr>pm := ma s, na := Suc (na s), pn := Suc (na s)\<rparr>"
        by (auto simp: match_compare_def split: if_splits dest: arg_cong[where f = pm])
      then show False by (metis mstate.select_convs(4) mstate.surjective mstate.update_convs n_not_Suc_n)
    qed
    show ?thesis
      unfolding it
      using compare_total[OF inv'(1)] compare_Inl[OF inv'(1) _ inv'(2) nn]
        compare_Inr[OF inv'(1) _ inv'(2) ends nn] live work neq
      by (fastforce split: option.split sum.split)
  qed
qed

lemma loop_safe:
  assumes "match_inv e str msk s" "no_nul str" "no_nul msk" "msk \<noteq> []"
  shows "match_loop e calls str msk s \<noteq> None"
  using assms(1)
proof (induction calls arbitrary: s)
  case (Suc calls)
  from iter_correct[OF Suc.prems assms(2-4)] Suc.IH show ?case
    by (auto split: option.splits sum.splits)
qed simp

lemma loop_sound:
  assumes "match_inv e str msk s" "no_nul str" "no_nul msk" "msk \<noteq> []"
    and "match_loop e calls str msk s = Some v" "v \<noteq> 0"
  shows "v = 1 \<and> glob e msk str"
  using assms(1,5)
proof (induction calls arbitrary: s)
  case (Suc calls)
  from iter_correct[OF Suc.prems(1) assms(2-4)] Suc assms(6) show ?case
    by (auto split: option.splits sum.splits)
qed (use assms(6) in simp)

lemma loop_complete:
  assumes "match_inv e str msk s" "no_nul str" "no_nul msk" "msk \<noteq> []"
    and "match_live e str msk s" "match_work str msk s < calls"
  shows "match_loop e calls str msk s = Some 1"
  using assms(1,5,6)
proof (induction calls arbitrary: s)
  case (Suc calls)
  from iter_correct[OF Suc.prems(1) assms(2-4)] Suc show ?case
    by (auto split: option.splits sum.splits)
qed simp

lemma init_inv: "match_inv e str msk match_init"
  by (simp add: match_inv_def match_init_def)

lemma init_live: "match_live e str msk match_init \<longleftrightarrow> glob e msk str"
  by (simp add: match_live_def match_init_def)

lemma loop_exact:
  assumes "no_nul str" "no_nul msk" "msk \<noteq> []"
    and "Suc (length str) * Suc (length msk) \<le> calls"
  shows "match_loop e calls str msk match_init = Some (if glob e msk str then 1 else 0)"
proof -
  have work: "match_work str msk match_init < calls"
    using assms(4) by (simp add: match_work_def match_init_def)
  obtain v where v: "match_loop e calls str msk match_init = Some v"
    using loop_safe[OF init_inv assms(1-3)] by blast
  show ?thesis
    using loop_complete[OF init_inv assms(1-3) _ work] loop_sound[OF init_inv assms(1-3) v] v
    by (auto simp: init_live)
qed

end

interpretation exact: char_match "\<lambda>x y. x = y"
  by unfold_locales auto

interpretation folded: char_match "\<lambda>x y. str_tolower x = str_tolower y"
  by unfold_locales auto

section \<open>What the two routines decide\<close>

abbreviation glob_exact :: "string \<Rightarrow> string \<Rightarrow> bool" where
  "glob_exact \<equiv> glob (\<lambda>x y. x = y)"

abbreviation glob_folded :: "string \<Rightarrow> string \<Rightarrow> bool" where
  "glob_folded \<equiv> glob (\<lambda>x y. str_tolower x = str_tolower y)"

lemma str_match_total:
  assumes "no_nul s" "no_nul k" "k \<noteq> []"
  shows "str_match (Some s) (Some k) \<noteq> None"
  using exact.loop_safe[OF exact.init_inv assms] by (simp add: str_match_def)

lemma str_match_result:
  assumes "no_nul s" "no_nul k" "k \<noteq> []" "str_match (Some s) (Some k) = Some v" "v \<noteq> 0"
  shows "v = 1 \<and> glob_exact k s"
  using exact.loop_sound[OF exact.init_inv assms(1-3)] assms(4,5)
  by (simp add: str_match_def)

text \<open>Soundness of wildcard matching: whatever the lengths of the two strings, when
  \<open>str_match\<close> reports a match the string really is in the language of the mask.\<close>

theorem str_match_sound:
  assumes "no_nul s" "no_nul k" "k \<noteq> []" "str_match (Some s) (Some k) = Some v" "v \<noteq> 0"
  shows "v = 1 \<and> glob_exact k s"
  using exact.loop_sound[OF exact.init_inv assms(1-3)] assms(4,5)
  by (simp add: str_match_def)

text \<open>C16. Exactness under the call limit: for strings with
  \<open>(|str| + 1) * (|mask| + 1) <= 512\<close> the limit of \<open>MATCH_MAX_CALLS\<close> iterations
  is never reached and \<open>str_match\<close> decides the mask's language.\<close>

theorem str_match_exact:
  assumes "no_nul s" "no_nul k" "k \<noteq> []"
    and "Suc (length s) * Suc (length k) \<le> MATCH_MAX_CALLS"
  shows "str_match (Some s) (Some k) = Some (if glob_exact k s then 1 else 0)"
  using exact.loop_exact[OF assms] by (simp add: str_match_def)

text \<open>The case-insensitive routine decides the language of the mask up to ASCII case,
  under the same bound.\<close>

theorem str_imatch_exact:
  assumes "no_nul s" "no_nul k" "k \<noteq> []"
    and "Suc (length s) * Suc (length k) \<le> MATCH_MAX_CALLS"
  shows "str_imatch (Some s) (Some k) = Some (if glob_folded k s then 1 else 0)"
  using folded.loop_exact[OF assms] by (simp add: str_imatch_def)

text \<open>Memory safety: for a nonempty mask and any string, no iteration of
  \<open>str_match\<close> or \<open>str_imatch\<close> reads outside the two terminated strings.\<close>

theorem str_match_safe:
  assumes "no_nul s" "no_nul k" "k \<noteq> []"
  shows "str_match (Some s) (Some k) \<noteq> None \<and> str_imatch (Some s) (Some k) \<noteq> None"
  using exact.loop_safe[OF exact.init_inv assms] folded.loop_safe[OF folded.init_inv assms]
  by (simp add: str_match_def str_imatch_def)

text \<open>The empty mask is the exception: against a nonempty string both routines step
  back before the start of the mask and read \<open>mask[-1]\<close>.\<close>

theorem str_match_empty_mask_reads_before:
  assumes "s \<noteq> []" "no_nul s"
  shows "str_match (Some s) (Some []) = None \<and> str_imatch (Some s) (Some []) = None"
  using assms
  by (cases s) (simp_all add: str_match_def str_imatch_def MATCH_MAX_CALLS_def numeral_eq_Suc
      match_iter_def match_star_def match_init_def chr_at_def)

section \<open>Instances\<close>

lemma str_match_sound_witness:
  "(1::int) = 1 \<and> glob_exact ''*!*@*.example.org'' ''bob!b@x.example.org''"
  by (rule str_match_sound) code_simp+

lemma str_match_exact_witness:
  "str_match (Some ''bob!b@x.example.org'') (Some ''*!?@*.org'') =
     Some (if glob_exact ''*!?@*.org'' ''bob!b@x.example.org'' then 1 else 0)"
  by (rule str_match_exact) code_simp+

lemma str_imatch_exact_witness:
  "str_imatch (Some ''BOB!b@X.Example.org'') (Some ''bob!?@*.ORG'') =
     Some (if glob_folded ''bob!?@*.ORG'' ''BOB!b@X.Example.org'' then 1 else 0)"
  by (rule str_imatch_exact) code_simp+

lemma str_match_safe_witness:
  "str_match (Some ''abcb'') (Some ''*b?'') \<noteq> None \<and> str_imatch (Some ''abcb'') (Some ''*b?'') \<noteq> None"
  by (rule str_match_safe) code_simp+

lemma str_match_empty_mask_witness:
  "str_match (Some ''a'') (Some []) = None \<and> str_imatch (Some ''a'') (Some []) = None"
  by (rule str_match_empty_mask_reads_before) code_simp+

text \<open>Above the bound the routine can miss: a host name of 63 characters that the
  mask \<open>*aaaaaaaaab\<close> covers is reported as not matching, since every start of the
  repeated letter costs ten iterations and the 512 calls are used up.\<close>

theorem str_match_gives_up:
  "let host = replicate 62 (CHR ''a'') @ ''b''; k = ''*aaaaaaaaab'' in
     glob_exact k host \<and> str_match (Some host) (Some k) = Some 0"
  by code_simp

end
