(* ===== verification/Dlink.thy ===== *)
theory Dlink
  imports Prelude "HOL-Library.Monad_Syntax"
begin

text \<open>
  The doubly linked lists of lib/src/dlink.c, on which every table of the daemon is built.
  The model keeps the pointers: a heap maps node addresses to nodes, a list head holds the
  addresses of the first and last node and a 64-bit count, NULL is \<open>None\<close>, and an access
  through NULL or to a freed node makes the operation \<open>None\<close>. The predicate \<open>dl_list\<close>
  relates a head and a heap to the HOL list of node addresses it stands for; each operation
  is shown to implement the list operation it is named after, and to leave every node outside
  the list alone.
\<close>

section \<open>Nodes, heads and the heap\<close>

type_synonym addr = nat

record 'd node =
  ndata :: "'d option"
  nprev :: "addr option"
  nnext :: "addr option"

record dlist =
  lhead :: "addr option"
  ltail :: "addr option"
  lsize :: "64 word"

text \<open>The node heap with the statistics counters \<open>dlink_count\<close> and
  \<open>dlink_linked\<close>.\<close>

record 'd dstate =
  nodes :: "addr \<rightharpoonup> 'd node"
  dlink_count :: "32 word"
  dlink_linked :: "32 word"

definition dlink_list_zero :: dlist where
  "dlink_list_zero = \<lparr>lhead = None, ltail = None, lsize = 0\<rparr>"

definition dlink_node_zero :: "'d node" where
  "dlink_node_zero = \<lparr>ndata = None, nprev = None, nnext = None\<rparr>"

definition deref :: "'d dstate \<Rightarrow> addr option \<Rightarrow> 'd node option" where
  "deref st p = Option.bind p (nodes st)"

definition modify :: "'d dstate \<Rightarrow> addr option \<Rightarrow> ('d node \<Rightarrow> 'd node) \<Rightarrow> 'd dstate option" where
  "modify st p f = do {
     a \<leftarrow> p;
     n \<leftarrow> nodes st a;
     Some (st\<lparr>nodes := (nodes st)(a \<mapsto> f n)\<rparr>) }"

section \<open>The operations\<close>

text \<open>\<open>mem_static_alloc\<close> returns the address \<open>a\<close> of an unused block.\<close>

definition dlink_node_new :: "'d dstate \<Rightarrow> addr \<Rightarrow> 'd dstate" where
  "dlink_node_new st a =
     st\<lparr>nodes := (nodes st)(a \<mapsto> dlink_node_zero), dlink_count := dlink_count st + 1\<rparr>"

definition dlink_node_free :: "'d dstate \<Rightarrow> addr \<Rightarrow> 'd dstate" where
  "dlink_node_free st a =
     st\<lparr>nodes := (nodes st)(a := None), dlink_count := dlink_count st - 1\<rparr>"

definition dlink_add_head ::
  "'d dstate \<Rightarrow> dlist \<Rightarrow> addr \<Rightarrow> 'd option \<Rightarrow> ('d dstate \<times> dlist) option" where
  "dlink_add_head st l n ptr = do {
     st \<leftarrow> modify st (Some n) (\<lambda>x. x\<lparr>ndata := ptr\<rparr>);
     st \<leftarrow> modify st (Some n) (\<lambda>x. x\<lparr>nprev := None\<rparr>);
     st \<leftarrow> modify st (Some n) (\<lambda>x. x\<lparr>nnext := lhead l\<rparr>);
     (st, l) \<leftarrow> (if lhead l \<noteq> None
        then do { st \<leftarrow> modify st (lhead l) (\<lambda>x. x\<lparr>nprev := Some n\<rparr>); Some (st, l) }
        else Some (st, l\<lparr>ltail := Some n\<rparr>));
     Some (st\<lparr>dlink_linked := dlink_linked st + 1\<rparr>,
           l\<lparr>lhead := Some n, lsize := lsize l + 1\<rparr>) }"

definition dlink_add_tail ::
  "'d dstate \<Rightarrow> dlist \<Rightarrow> addr \<Rightarrow> 'd option \<Rightarrow> ('d dstate \<times> dlist) option" where
  "dlink_add_tail st l n ptr = do {
     st \<leftarrow> modify st (Some n) (\<lambda>x. x\<lparr>ndata := ptr\<rparr>);
     st \<leftarrow> modify st (Some n) (\<lambda>x. x\<lparr>nnext := None\<rparr>);
     st \<leftarrow> modify st (Some n) (\<lambda>x. x\<lparr>nprev := ltail l\<rparr>);
     (st, l) \<leftarrow> (if ltail l \<noteq> None
        then do { st \<leftarrow> modify st (ltail l) (\<lambda>x. x\<lparr>nnext := Some n\<rparr>); Some (st, l) }
        else Some (st, l\<lparr>lhead := Some n\<rparr>));
     Some (st\<lparr>dlink_linked := dlink_linked st + 1\<rparr>,
           l\<lparr>ltail := Some n, lsize := lsize l + 1\<rparr>) }"

definition dlink_add_before ::
  "'d dstate \<Rightarrow> dlist \<Rightarrow> addr \<Rightarrow> addr \<Rightarrow> 'd option \<Rightarrow> ('d dstate \<times> dlist) option" where
  "dlink_add_before st l n before ptr =
     (if Some before = lhead l then dlink_add_head st l n ptr
      else do {
        st \<leftarrow> modify st (Some n) (\<lambda>x. x\<lparr>ndata := ptr\<rparr>);
        st \<leftarrow> modify st (Some n) (\<lambda>x. x\<lparr>nnext := Some before\<rparr>);
        b \<leftarrow> deref st (Some before);
        st \<leftarrow> modify st (Some n) (\<lambda>x. x\<lparr>nprev := nprev b\<rparr>);
        b \<leftarrow> deref st (Some before);
        st \<leftarrow> modify st (nprev b) (\<lambda>x. x\<lparr>nnext := Some n\<rparr>);
        st \<leftarrow> modify st (Some before) (\<lambda>x. x\<lparr>nprev := Some n\<rparr>);
        Some (st\<lparr>dlink_linked := dlink_linked st + 1\<rparr>, l\<lparr>lsize := lsize l + 1\<rparr>) })"

definition dlink_add_after ::
  "'d dstate \<Rightarrow> dlist \<Rightarrow> addr \<Rightarrow> addr \<Rightarrow> 'd option \<Rightarrow> ('d dstate \<times> dlist) option" where
  "dlink_add_after st l n after ptr =
     (if Some after = ltail l then dlink_add_tail st l n ptr
      else do {
        st \<leftarrow> modify st (Some n) (\<lambda>x. x\<lparr>ndata := ptr\<rparr>);
        a \<leftarrow> deref st (Some after);
        st \<leftarrow> modify st (Some n) (\<lambda>x. x\<lparr>nnext := nnext a\<rparr>);
        st \<leftarrow> modify st (Some n) (\<lambda>x. x\<lparr>nprev := Some after\<rparr>);
        a \<leftarrow> deref st (Some after);
        st \<leftarrow> modify st (nnext a) (\<lambda>x. x\<lparr>nprev := Some n\<rparr>);
        st \<leftarrow> modify st (Some after) (\<lambda>x. x\<lparr>nnext := Some n\<rparr>);
        Some (st\<lparr>dlink_linked := dlink_linked st + 1\<rparr>, l\<lparr>lsize := lsize l + 1\<rparr>) })"

definition dlink_delete :: "'d dstate \<Rightarrow> dlist \<Rightarrow> addr \<Rightarrow> ('d dstate \<times> dlist) option" where
  "dlink_delete st l n = do {
     x \<leftarrow> deref st (Some n);
     (st, l) \<leftarrow> (if Some n = lhead l then Some (st, l\<lparr>lhead := nnext x\<rparr>)
        else do { st \<leftarrow> modify st (nprev x) (\<lambda>y. y\<lparr>nnext := nnext x\<rparr>); Some (st, l) });
     x \<leftarrow> deref st (Some n);
     (st, l) \<leftarrow> (if ltail l = Some n then Some (st, l\<lparr>ltail := nprev x\<rparr>)
        else do { st \<leftarrow> modify st (nnext x) (\<lambda>y. y\<lparr>nprev := nprev x\<rparr>); Some (st, l) });
     st \<leftarrow> modify st (Some n) (\<lambda>y. y\<lparr>nnext := None\<rparr>);
     st \<leftarrow> modify st (Some n) (\<lambda>y. y\<lparr>nprev := None\<rparr>);
     Some (st\<lparr>dlink_linked := dlink_linked st - 1\<rparr>, l\<lparr>lsize := lsize l - 1\<rparr>) }"

text \<open>The walk of \<open>dlink_foreach\<close> ends at NULL; on a cyclic chain it does not end, which
  is the value \<open>None\<close>.\<close>

partial_function (option) find_from ::
  "'d dstate \<Rightarrow> addr option \<Rightarrow> 'd option \<Rightarrow> addr option option" where
  "find_from st p ptr = (case p of None \<Rightarrow> Some None | Some a \<Rightarrow>
     Option.bind (nodes st a)
       (\<lambda>x. if ndata x = ptr then Some (Some a) else find_from st (nnext x) ptr))"

definition dlink_find :: "'d dstate \<Rightarrow> dlist \<Rightarrow> 'd option \<Rightarrow> addr option option" where
  "dlink_find st l ptr = find_from st (lhead l) ptr"

definition dlink_find_delete ::
  "'d dstate \<Rightarrow> dlist \<Rightarrow> 'd option \<Rightarrow> ('d dstate \<times> dlist \<times> addr option) option" where
  "dlink_find_delete st l ptr = do {
     r \<leftarrow> find_from st (lhead l) ptr;
     case r of None \<Rightarrow> Some (st, l, None) | Some n \<Rightarrow> do {
       x \<leftarrow> deref st (Some n);
       (st, l) \<leftarrow> (if nprev x \<noteq> None
          then do { st \<leftarrow> modify st (nprev x) (\<lambda>y. y\<lparr>nnext := nnext x\<rparr>); Some (st, l) }
          else Some (st, l\<lparr>lhead := nnext x\<rparr>));
       x \<leftarrow> deref st (Some n);
       (st, l) \<leftarrow> (if nnext x \<noteq> None
          then do { st \<leftarrow> modify st (nnext x) (\<lambda>y. y\<lparr>nprev := nprev x\<rparr>); Some (st, l) }
          else Some (st, l\<lparr>ltail := nprev x\<rparr>));
       st \<leftarrow> modify st (Some n) (\<lambda>y. y\<lparr>nnext := None\<rparr>);
       st \<leftarrow> modify st (Some n) (\<lambda>y. y\<lparr>nprev := None\<rparr>);
       Some (st\<lparr>dlink_linked := dlink_linked st - 1\<rparr>, l\<lparr>lsize := lsize l - 1\<rparr>, Some n) } }"

partial_function (option) index_from ::
  "'d dstate \<Rightarrow> addr option \<Rightarrow> 64 word \<Rightarrow> 64 word \<Rightarrow> addr option option" where
  "index_from st p i index = (case p of None \<Rightarrow> Some None | Some a \<Rightarrow>
     if i = index then Some (Some a)
     else Option.bind (nodes st a) (\<lambda>x. index_from st (nnext x) (i + 1) index))"

definition dlink_index :: "'d dstate \<Rightarrow> dlist \<Rightarrow> 64 word \<Rightarrow> addr option option" where
  "dlink_index st l index =
     (if index \<ge> lsize l then Some None else index_from st (lhead l) 0 index)"

text \<open>\<open>dlink_foreach_safe\<close> saves the next pointer before the body frees the node.\<close>

partial_function (option) destroy_from ::
  "'d dstate \<Rightarrow> addr option \<Rightarrow> addr option \<Rightarrow> 'd dstate option" where
  "destroy_from st n m = (case n of None \<Rightarrow> Some st | Some a \<Rightarrow>
     Option.bind (if m \<noteq> None then map_option nnext (deref (dlink_node_free st a) m) else Some None)
       (\<lambda>m'. destroy_from (dlink_node_free st a) m m'))"

definition dlink_destroy :: "'d dstate \<Rightarrow> dlist \<Rightarrow> ('d dstate \<times> dlist) option" where
  "dlink_destroy st l = do {
     m \<leftarrow> (if lhead l \<noteq> None then map_option nnext (deref st (lhead l)) else Some None);
     st \<leftarrow> destroy_from st (lhead l) m;
     Some (st\<lparr>dlink_linked := dlink_linked st - ucast (lsize l)\<rparr>, dlink_list_zero) }"

definition dlink_move_head ::
  "'d dstate \<Rightarrow> dlist \<Rightarrow> dlist \<Rightarrow> ('d dstate \<times> dlist \<times> dlist) option" where
  "dlink_move_head st from_l to_l = do {
     (st, to_l) \<leftarrow>
       (if lhead to_l = None then Some (st, from_l)
        else if ltail from_l \<noteq> None then do {
          st \<leftarrow> modify st (ltail from_l) (\<lambda>y. y\<lparr>nnext := lhead to_l\<rparr>);
          st \<leftarrow> modify st (lhead to_l) (\<lambda>y. y\<lparr>nprev := ltail from_l\<rparr>);
          Some (st, to_l\<lparr>lhead := lhead from_l, lsize := lsize to_l + lsize from_l\<rparr>) }
        else Some (st, to_l));
     Some (st, dlink_list_zero, to_l) }"

definition dlink_move_tail ::
  "'d dstate \<Rightarrow> dlist \<Rightarrow> dlist \<Rightarrow> ('d dstate \<times> dlist \<times> dlist) option" where
  "dlink_move_tail st from_l to_l = do {
     (st, to_l) \<leftarrow>
       (if ltail to_l = None then Some (st, from_l)
        else if lhead from_l \<noteq> None then do {
          st \<leftarrow> modify st (lhead from_l) (\<lambda>y. y\<lparr>nprev := ltail to_l\<rparr>);
          st \<leftarrow> modify st (ltail to_l) (\<lambda>y. y\<lparr>nnext := lhead from_l\<rparr>);
          Some (st, to_l\<lparr>ltail := ltail from_l, lsize := lsize to_l + lsize from_l\<rparr>) }
        else Some (st, to_l));
     Some (st, dlink_list_zero, to_l) }"

text \<open>\<open>dlink_copy\<close> allocates with \<open>fresh\<close>, the address \<open>mem_static_alloc\<close>
  would return for the current heap. The size of the destination stays zero.\<close>

definition copy_step ::
  "dlist \<Rightarrow> addr \<Rightarrow> 'd dstate \<Rightarrow> dlist \<Rightarrow> addr \<Rightarrow> addr option \<Rightarrow>
     ('d dstate \<times> dlist \<times> addr option) option" where
  "copy_step from_l t st to_l f prev = do {
     st \<leftarrow> Some (dlink_node_new st t);
     x \<leftarrow> deref st (Some f);
     st \<leftarrow> modify st (Some t) (\<lambda>y. y\<lparr>ndata := ndata x\<rparr>);
     to_l \<leftarrow> Some (if Some f = lhead from_l then to_l\<lparr>lhead := Some t\<rparr> else to_l);
     to_l \<leftarrow> Some (if Some f = ltail from_l then to_l\<lparr>ltail := Some t\<rparr> else to_l);
     st \<leftarrow> modify st (Some t) (\<lambda>y. y\<lparr>nprev := prev\<rparr>);
     st \<leftarrow> modify st (Some t) (\<lambda>y. y\<lparr>nnext := None\<rparr>);
     st \<leftarrow> (if prev \<noteq> None then modify st prev (\<lambda>y. y\<lparr>nnext := Some t\<rparr>) else Some st);
     x \<leftarrow> deref st (Some f);
     Some (st\<lparr>dlink_linked := dlink_linked st + 1\<rparr>, to_l, nnext x) }"

partial_function (option) copy_from ::
  "((addr \<rightharpoonup> 'd node) \<Rightarrow> addr) \<Rightarrow> dlist \<Rightarrow> 'd dstate \<Rightarrow> dlist \<Rightarrow> addr option \<Rightarrow> addr option \<Rightarrow>
     ('d dstate \<times> dlist) option" where
  "copy_from fresh from_l st to_l p prev = (case p of None \<Rightarrow> Some (st, to_l) | Some f \<Rightarrow>
     Option.bind (copy_step from_l (fresh (nodes st)) st to_l f prev)
       (\<lambda>(st', to_l', p'). copy_from fresh from_l st' to_l' p' (Some (fresh (nodes st)))))"

definition dlink_copy ::
  "((addr \<rightharpoonup> 'd node) \<Rightarrow> addr) \<Rightarrow> 'd dstate \<Rightarrow> dlist \<Rightarrow> ('d dstate \<times> dlist) option" where
  "dlink_copy fresh st from_l = copy_from fresh from_l st dlink_list_zero (lhead from_l) None"

partial_function (option) count_from :: "'d dstate \<Rightarrow> addr option \<Rightarrow> 32 word \<Rightarrow> 32 word option" where
  "count_from st p i = (case p of None \<Rightarrow> Some i | Some a \<Rightarrow>
     Option.bind (nodes st a) (\<lambda>x. count_from st (nnext x) (i + 1)))"

definition dlink_count_nodes :: "'d dstate \<Rightarrow> dlist \<Rightarrow> 32 word option" where
  "dlink_count_nodes st l = count_from st (lhead l) 0"

text \<open>\<open>dlink_swap\<close> copies both nodes, redirects their neighbours, reads the links
  back from the nodes (which a neighbour update may just have changed) and stores the
  copies.\<close>

definition dlink_swap ::
  "'d dstate \<Rightarrow> dlist \<Rightarrow> addr \<Rightarrow> addr \<Rightarrow> ('d dstate \<times> dlist) option" where
  "dlink_swap st l p1 p2 =
     (if p1 = p2 then Some (st, l)
      else do {
        n1 \<leftarrow> deref st (Some p1);
        n2 \<leftarrow> deref st (Some p2);
        (st, l) \<leftarrow> (if nnext n2 \<noteq> None
           then do { st \<leftarrow> modify st (nnext n2) (\<lambda>y. y\<lparr>nprev := Some p1\<rparr>); Some (st, l) }
           else Some (st, l\<lparr>ltail := Some p1\<rparr>));
        (st, l) \<leftarrow> (if nprev n2 \<noteq> None
           then do { st \<leftarrow> modify st (nprev n2) (\<lambda>y. y\<lparr>nnext := Some p1\<rparr>); Some (st, l) }
           else Some (st, l\<lparr>lhead := Some p1\<rparr>));
        (st, l) \<leftarrow> (if nnext n1 \<noteq> None
           then do { st \<leftarrow> modify st (nnext n1) (\<lambda>y. y\<lparr>nprev := Some p2\<rparr>); Some (st, l) }
           else Some (st, l\<lparr>ltail := Some p2\<rparr>));
        (st, l) \<leftarrow> (if nprev n1 \<noteq> None
           then do { st \<leftarrow> modify st (nprev n1) (\<lambda>y. y\<lparr>nnext := Some p2\<rparr>); Some (st, l) }
           else Some (st, l\<lparr>lhead := Some p2\<rparr>));
        x1 \<leftarrow> deref st (Some p1);
        x2 \<leftarrow> deref st (Some p2);
        st \<leftarrow> modify st (Some p1) (\<lambda>_. n1\<lparr>nnext := nnext x2, nprev := nprev x2\<rparr>);
        st \<leftarrow> modify st (Some p2) (\<lambda>_. n2\<lparr>nnext := nnext x1, nprev := nprev x1\<rparr>);
        Some (st, l) })"

section \<open>The lists a heap represents\<close>

type_synonym 'd entries = "(addr \<times> 'd option) list"

fun first_or :: "'d entries \<Rightarrow> addr option \<Rightarrow> addr option" where
  "first_or [] q = q"
| "first_or ((x, d) # v) q = Some x"

definition last_or :: "'d entries \<Rightarrow> addr option \<Rightarrow> addr option" where
  "last_or v p = (if v = [] then p else Some (fst (last v)))"

fun dseg :: "(addr \<rightharpoonup> 'd node) \<Rightarrow> addr option \<Rightarrow> 'd entries \<Rightarrow> addr option \<Rightarrow> bool" where
  "dseg h p [] q \<longleftrightarrow> True"
| "dseg h p ((x, d) # v) q \<longleftrightarrow>
     h x = Some \<lparr>ndata = d, nprev = p, nnext = first_or v q\<rparr> \<and> dseg h (Some x) v q"

definition dl_list :: "'d dstate \<Rightarrow> dlist \<Rightarrow> 'd entries \<Rightarrow> bool" where
  "dl_list st l v \<longleftrightarrow> distinct (map fst v) \<and> dseg (nodes st) None v None \<and>
     lhead l = first_or v None \<and> ltail l = last_or v None \<and> lsize l = of_nat (length v)"

text \<open>The addresses of a list, and heaps that agree away from some of them.\<close>

abbreviation addrs :: "'d entries \<Rightarrow> addr set" where "addrs v \<equiv> fst ` set v"

definition heap_frame :: "addr set \<Rightarrow> 'd dstate \<Rightarrow> 'd dstate \<Rightarrow> bool" where
  "heap_frame A st st' \<longleftrightarrow> (\<forall>a. a \<notin> A \<longrightarrow> nodes st' a = nodes st a)"

lemma last_or_simps [simp]:
  "last_or [] p = p" "last_or (v @ [(x, d)]) p = Some x" "last_or [(x, d)] p = Some x"
  "last_or (v @ (x, d) # w) p = last_or w (Some x)"
  "last_or ((x, d) # w) p = last_or w (Some x)"
  by (simp_all add: last_or_def)

lemma first_or_append [simp]: "first_or (v @ w) q = first_or v (first_or w q)"
  by (cases v) auto

lemma dseg_append [simp]:
  "dseg h p (v @ w) q \<longleftrightarrow> dseg h p v (first_or w q) \<and> dseg h (last_or v p) w q"
  by (induction v arbitrary: p) (auto simp: last_or_def)

lemma dseg_frame [simp]: "x \<notin> addrs v \<Longrightarrow> dseg (h(x := y)) p v q = dseg h p v q"
  by (induction v arbitrary: p) auto

lemma dseg_cong: "(\<forall>a \<in> addrs v. h' a = h a) \<Longrightarrow> dseg h' p v q = dseg h p v q"
  by (induction v arbitrary: p) auto

lemma first_or_None [simp]: "first_or v None = None \<longleftrightarrow> v = []"
  by (cases v) auto

lemma last_or_None [simp]: "last_or v None = None \<longleftrightarrow> v = []"
  by (simp add: last_or_def)

lemma entries_rev_cases:
  obtains "v = []" | w x d where "v = w @ [(x, d)]"
  by (cases v rule: rev_cases) auto

text \<open>A list is untouched by operations on addresses it does not contain.\<close>

lemma dl_list_frame:
  assumes "dl_list st l v" "heap_frame A st st'" "A \<inter> addrs v = {}"
  shows "dl_list st' l v"
proof -
  have "dseg (nodes st') None v None = dseg (nodes st) None v None"
    using assms(2,3) by (intro dseg_cong) (auto simp: heap_frame_def)
  with assms(1) show ?thesis by (simp add: dl_list_def)
qed

lemma modify_Some [simp]:
  "nodes st a = Some n \<Longrightarrow> modify st (Some a) f = Some (st\<lparr>nodes := (nodes st)(a \<mapsto> f n)\<rparr>)"
  by (simp add: modify_def)

lemma deref_Some [simp]: "deref st (Some a) = nodes st a"
  by (simp add: deref_def)

section \<open>Every operation implements its list operation\<close>

lemma dlink_add_head_refines:
  assumes "dl_list st l v" "n \<notin> addrs v" "nodes st n = Some x"
  shows "\<exists>st' l'. dlink_add_head st l n d = Some (st', l') \<and> dl_list st' l' ((n, d) # v) \<and>
    heap_frame (insert n (addrs v)) st st' \<and> dlink_linked st' = dlink_linked st + 1"
proof (cases v)
  case Nil
  with assms show ?thesis
    by (auto simp: dlink_add_head_def dl_list_def heap_frame_def)
next
  case (Cons y w)
  then obtain a da where y: "v = (a, da) # w" by (cases y) auto
  with assms show ?thesis
    by (auto simp: dlink_add_head_def dl_list_def heap_frame_def)
qed

lemma dlink_add_tail_refines:
  assumes "dl_list st l v" "n \<notin> addrs v" "nodes st n = Some x"
  shows "\<exists>st' l'. dlink_add_tail st l n d = Some (st', l') \<and> dl_list st' l' (v @ [(n, d)]) \<and>
    heap_frame (insert n (addrs v)) st st' \<and> dlink_linked st' = dlink_linked st + 1"
proof (cases v rule: entries_rev_cases)
  case 1
  with assms show ?thesis
    by (auto simp: dlink_add_tail_def dl_list_def heap_frame_def)
next
  case (2 w a da)
  with assms show ?thesis
    by (auto simp: dlink_add_tail_def dl_list_def heap_frame_def)
qed

lemma dlink_add_before_refines:
  assumes "dl_list st l (v @ (b, db) # w)" "n \<notin> addrs (v @ (b, db) # w)" "nodes st n = Some x"
  shows "\<exists>st' l'. dlink_add_before st l n b d = Some (st', l') \<and>
    dl_list st' l' (v @ (n, d) # (b, db) # w) \<and>
    heap_frame (insert n (addrs (v @ (b, db) # w))) st st' \<and>
    dlink_linked st' = dlink_linked st + 1"
proof (cases v rule: entries_rev_cases)
  case 1
  with assms dlink_add_head_refines[of st l "(b, db) # w" n x d] show ?thesis
    by (auto simp: dlink_add_before_def dl_list_def)
next
  case (2 u a da)
  have "Some b \<noteq> lhead l"
    using assms(1) 2 by (cases u) (auto simp: dl_list_def)
  with 2 assms show ?thesis
    by (auto simp: dlink_add_before_def dl_list_def heap_frame_def image_Un)
qed

lemma dlink_add_after_refines:
  assumes "dl_list st l (v @ (b, db) # w)" "n \<notin> addrs (v @ (b, db) # w)" "nodes st n = Some x"
  shows "\<exists>st' l'. dlink_add_after st l n b d = Some (st', l') \<and>
    dl_list st' l' (v @ (b, db) # (n, d) # w) \<and>
    heap_frame (insert n (addrs (v @ (b, db) # w))) st st' \<and>
    dlink_linked st' = dlink_linked st + 1"
proof (cases w)
  case Nil
  with assms dlink_add_tail_refines[of st l "v @ [(b, db)]" n x d] show ?thesis
    by (auto simp: dlink_add_after_def dl_list_def)
next
  case (Cons y u)
  then obtain a da where w: "w = (a, da) # u" by (cases y) auto
  have "Some b \<noteq> ltail l"
    using assms(1) w by (auto simp: dl_list_def last_or_def)
  with w assms show ?thesis
    by (auto simp: dlink_add_after_def dl_list_def heap_frame_def image_Un)
qed

lemma dlink_delete_refines:
  assumes "dl_list st l (v @ (n, d) # w)"
  shows "\<exists>st' l'. dlink_delete st l n = Some (st', l') \<and> dl_list st' l' (v @ w) \<and>
    heap_frame (addrs (v @ (n, d) # w)) st st' \<and> dlink_linked st' = dlink_linked st - 1 \<and>
    nodes st' n = Some \<lparr>ndata = d, nprev = None, nnext = None\<rparr>"
proof (cases v rule: entries_rev_cases; cases w)
  fix u a da y t assume v: "v = u @ [(a, da)]" and "w = y # t"
  then obtain b db where w: "w = (b, db) # t" by (cases y) auto
  have "Some n \<noteq> lhead l" "Some n \<noteq> ltail l"
    using assms v w by (cases u; auto simp: dl_list_def last_or_def)+
  with v w assms show ?thesis
    by (auto simp: dlink_delete_def dl_list_def heap_frame_def)
next
  fix u a da assume v: "v = u @ [(a, da)]" and w: "w = []"
  have "Some n \<noteq> lhead l"
    using assms v w by (cases u) (auto simp: dl_list_def)
  with v w assms show ?thesis
    by (auto simp: dlink_delete_def dl_list_def heap_frame_def)
next
  fix y t assume v: "v = []" and "w = y # t"
  then obtain b db where w: "w = (b, db) # t" by (cases y) auto
  have "Some n \<noteq> ltail l"
    using assms v w by (auto simp: dl_list_def last_or_def)
  with v w assms show ?thesis
    by (auto simp: dlink_delete_def dl_list_def heap_frame_def)
next
  assume "v = []" "w = []"
  with assms show ?thesis
    by (auto simp: dlink_delete_def dl_list_def heap_frame_def)
qed

text \<open>The searches walk the list and end.\<close>

definition entry_find :: "'d entries \<Rightarrow> 'd option \<Rightarrow> addr option" where
  "entry_find v ptr = map_option fst (List.find (\<lambda>(a, d). d = ptr) v)"

lemma find_from_dseg:
  "dseg (nodes st) p v None \<Longrightarrow> find_from st (first_or v None) ptr = Some (entry_find v ptr)"
  by (induction v arbitrary: p)
    (auto simp: find_from.simps[of st "None"] find_from.simps[of st "Some _"] entry_find_def)

lemma dlink_find_refines:
  "dl_list st l v \<Longrightarrow> dlink_find st l ptr = Some (entry_find v ptr)"
  unfolding dlink_find_def dl_list_def using find_from_dseg[of st None v ptr] by simp

lemma entry_find_Some:
  "entry_find v ptr = Some a \<Longrightarrow> \<exists>u w. v = u @ (a, ptr) # w \<and> ptr \<notin> snd ` set u"
  unfolding entry_find_def
  by (induction v) (auto split: if_splits intro: exI[of _ "[]"], metis append_Cons image_insert insert_iff list.set(2) snd_conv)

lemma entry_find_None: "entry_find v ptr = None \<longleftrightarrow> ptr \<notin> snd ` set v"
  unfolding entry_find_def by (induction v) auto

lemma dlink_find_delete_refines:
  assumes "dl_list st l v" "entry_find v ptr = Some n" "v = u @ (n, ptr) # w"
  shows "\<exists>st' l'. dlink_find_delete st l ptr = Some (st', l', Some n) \<and> dl_list st' l' (u @ w) \<and>
    heap_frame (addrs v) st st' \<and> dlink_linked st' = dlink_linked st - 1 \<and>
    nodes st' n = Some \<lparr>ndata = ptr, nprev = None, nnext = None\<rparr>"
proof -
  have find: "find_from st (lhead l) ptr = Some (Some n)"
    using dlink_find_refines[OF assms(1)] assms(2) by (simp add: dlink_find_def)
  have v: "dl_list st l (u @ (n, ptr) # w)" using assms by simp
  show ?thesis
  proof (cases u rule: entries_rev_cases; cases w)
    fix t a da y r assume u: "u = t @ [(a, da)]" and "w = y # r"
    then obtain b db where w: "w = (b, db) # r" by (cases y) auto
    show ?thesis
      using find v unfolding assms(3) u w
      by (auto simp: dlink_find_delete_def dl_list_def heap_frame_def)
  next
    fix t a da assume u: "u = t @ [(a, da)]" and w: "w = []"
    show ?thesis
      using find v unfolding assms(3) u w
      by (auto simp: dlink_find_delete_def dl_list_def heap_frame_def)
  next
    fix y r assume u: "u = []" and "w = y # r"
    then obtain b db where w: "w = (b, db) # r" by (cases y) auto
    show ?thesis
      using find v unfolding assms(3) u w
      by (auto simp: dlink_find_delete_def dl_list_def heap_frame_def)
  next
    assume u: "u = []" and w: "w = []"
    show ?thesis
      using find v unfolding assms(3) u w
      by (auto simp: dlink_find_delete_def dl_list_def heap_frame_def)
  qed
qed

text \<open>Indexing. The index is a 64-bit number, as is the count kept in the head.\<close>

lemma index_from_dseg:
  assumes "dseg (nodes st) p v None" "length v < 2 ^ 64" "i \<le> k" "k < length v"
  shows "index_from st (first_or (drop i v) None) (of_nat i) (of_nat k) = Some (Some (fst (v ! k)))"
  using assms(3)
proof (induction i rule: inc_induct)
  case base
  have "drop k v = v ! k # drop (Suc k) v" using assms by (simp add: Cons_nth_drop_Suc)
  then show ?case
    by (cases "v ! k") (simp add: index_from.simps[of st "Some _"])
next
  case (step i)
  obtain a d where a: "v ! i = (a, d)" by (cases "v ! i") auto
  have drop: "drop i v = (a, d) # drop (Suc i) v"
    using step assms a Cons_nth_drop_Suc[of i v] by simp
  have "dseg (nodes st) p (take i v @ drop i v) None" using assms by simp
  then have "nodes st a = Some \<lparr>ndata = d, nprev = last_or (take i v) p, nnext = first_or (drop (Suc i) v) None\<rparr>"
    unfolding dseg_append drop by simp
  moreover have "(of_nat i :: 64 word) \<noteq> of_nat k"
    using step assms by (simp add: of_nat_eq_iff word_of_nat_eq_iff take_bit_nat_eq_self)
  ultimately show ?case
    using step by (simp add: drop index_from.simps[of st "Some _"] add.commute)
qed

lemma dlink_index_refines:
  assumes "dl_list st l v" "length v < 2 ^ 64" and k: "k < 2 ^ 64"
  shows "dlink_index st l (of_nat k) = Some (if k < length v then Some (fst (v ! k)) else None)"
proof -
  have "(of_nat k :: 64 word) \<ge> lsize l \<longleftrightarrow> \<not> k < length v"
    using assms by (simp add: dl_list_def word_le_nat_alt unat_of_nat take_bit_nat_eq_self not_less)
  then show ?thesis
    using assms index_from_dseg[of st None v 0 k]
    by (auto simp: dlink_index_def dl_list_def)
qed

lemma count_from_dseg:
  "dseg (nodes st) p v None \<Longrightarrow> count_from st (first_or v None) i = Some (i + of_nat (length v))"
  by (induction v arbitrary: p i)
    (auto simp: count_from.simps[of st "None"] count_from.simps[of st "Some _"] add.assoc)

lemma dlink_count_nodes_refines:
  "dl_list st l v \<Longrightarrow> dlink_count_nodes st l = Some (of_nat (length v))"
  unfolding dlink_count_nodes_def dl_list_def using count_from_dseg[of st None v 0] by simp

text \<open>Destroying a list frees exactly its nodes.\<close>

definition free_all :: "'d dstate \<Rightarrow> 'd entries \<Rightarrow> 'd dstate" where
  "free_all st v = fold (\<lambda>(a, _) st. dlink_node_free st a) v st"

lemma free_all_simps [simp]:
  "free_all st [] = st" "free_all st ((a, d) # v) = free_all (dlink_node_free st a) v"
  by (simp_all add: free_all_def)

lemma nodes_free [simp]: "nodes (dlink_node_free st a) = (nodes st)(a := None)"
  by (simp add: dlink_node_free_def)

lemma destroy_from_dseg:
  assumes "distinct (map fst v)" "dseg (nodes st) p v None"
  shows "destroy_from st (first_or v None) (if v = [] then None else first_or (tl v) None) =
     Some (free_all st v)"
  using assms
proof (induction v arbitrary: st p)
  case Nil
  then show ?case by (simp add: destroy_from.simps[of st None])
next
  case (Cons x v)
  obtain a d where x: "x = (a, d)" by (cases x) auto
  have "dseg ((nodes st)(a := None)) (Some a) v None"
  proof (rule dseg_frame[THEN iffD2])
    show "a \<notin> addrs v" "dseg (nodes st) (Some a) v None" using Cons.prems x by auto
  qed
  then have IH: "destroy_from (dlink_node_free st a) (first_or v None)
      (if v = [] then None else first_or (tl v) None) = Some (free_all (dlink_node_free st a) v)"
    using Cons.prems x by (intro Cons.IH[where p = "Some a"]) (simp_all only: nodes_free, simp)
  show ?case
  proof (cases v)
    case Nil
    with IH x show ?thesis by (simp add: destroy_from.simps[of st "Some _"])
  next
    case (Cons y w)
    then obtain b db where y: "v = (b, db) # w" by (cases y) auto
    then have "deref (dlink_node_free st a) (Some b) =
        Some \<lparr>ndata = db, nprev = Some a, nnext = first_or w None\<rparr>"
      using Cons.prems x by (auto)
    with IH x y show ?thesis by (simp add: destroy_from.simps[of st "Some _"])
  qed
qed

lemma nodes_free_all: "nodes (free_all st v) = (nodes st) |` (- addrs v)"
  by (induction v arbitrary: st) (force simp: restrict_map_def fun_eq_iff)+

lemma count_free_all: "dlink_count (free_all st v) = dlink_count st - of_nat (length v)"
  by (induction v arbitrary: st) (auto simp: dlink_node_free_def)

lemma dlink_destroy_refines:
  assumes "dl_list st l v"
  shows "\<exists>st'. dlink_destroy st l = Some (st', dlink_list_zero) \<and> dl_list st' dlink_list_zero [] \<and>
    nodes st' = (nodes st) |` (- addrs v) \<and> dlink_count st' = dlink_count st - of_nat (length v)"
proof -
  have "(if lhead l \<noteq> None then map_option nnext (deref st (lhead l)) else Some None) =
      Some (if v = [] then None else first_or (tl v) None)"
    using assms by (cases v) (auto simp: dl_list_def)
  moreover have "destroy_from st (lhead l) (if v = [] then None else first_or (tl v) None) =
      Some (free_all st v)"
    using assms destroy_from_dseg[of v st None] by (simp add: dl_list_def)
  ultimately show ?thesis
    by (simp add: dlink_destroy_def nodes_free_all count_free_all)
      (simp add: dl_list_def dlink_list_zero_def)
qed

text \<open>Concatenation of two disjoint lists.\<close>

lemma entries_first: "v \<noteq> [] \<Longrightarrow> \<exists>a d w. v = (a, d) # w"
  by (cases v) auto

lemma entries_last: "v \<noteq> [] \<Longrightarrow> \<exists>a d w. v = w @ [(a, d)]"
  by (cases v rule: rev_cases) auto

lemma dlink_move_head_refines:
  assumes "dl_list st l v" "dl_list st l' w" "addrs v \<inter> addrs w = {}"
  shows "\<exists>st' l''. dlink_move_head st l l' = Some (st', dlink_list_zero, l'') \<and>
    dl_list st' l'' (v @ w) \<and> heap_frame (addrs v \<union> addrs w) st st'"
proof (cases "v = [] \<or> w = []")
  case True
  with assms show ?thesis
    by (auto simp: dlink_move_head_def dl_list_def heap_frame_def)
next
  case False
  then obtain a d t b e r where v: "v = t @ [(a, d)]" and w: "w = (b, e) # r"
    using entries_last[of v] entries_first[of w] by blast
  have "a \<noteq> b" "a \<notin> addrs r" "b \<notin> addrs t" using assms(3) v w by auto
  then show ?thesis
    using assms unfolding v w
    by (simp add: dlink_move_head_def dl_list_def heap_frame_def image_Un Int_Un_distrib)
qed

lemma dlink_move_tail_refines:
  assumes "dl_list st l v" "dl_list st l' w" "addrs v \<inter> addrs w = {}"
  shows "\<exists>st' l''. dlink_move_tail st l l' = Some (st', dlink_list_zero, l'') \<and>
    dl_list st' l'' (w @ v) \<and> heap_frame (addrs v \<union> addrs w) st st'"
proof (cases "v = [] \<or> w = []")
  case True
  with assms show ?thesis
    by (auto simp: dlink_move_tail_def dl_list_def heap_frame_def)
next
  case False
  then obtain a d t b e r where w: "w = t @ [(a, d)]" and v: "v = (b, e) # r"
    using entries_last[of w] entries_first[of v] by blast
  have "a \<noteq> b" "a \<notin> addrs r" "b \<notin> addrs t" using assms(3) v w by auto
  then show ?thesis
    using assms unfolding v w
    by (simp add: dlink_move_tail_def dl_list_def heap_frame_def image_Un Int_Un_distrib)
      (simp add: Int_commute add.commute)
qed

section \<open>Copying\<close>

lemma dseg_dom: "dseg h p v q \<Longrightarrow> addrs v \<subseteq> dom h"
proof (induction v arbitrary: p)
  case (Cons x v)
  then show ?case by (cases x) auto
qed simp

text \<open>One round of the copy: the source is \<open>u @ (f, d) # w\<close>, \<open>c\<close> the part
  copied so far.\<close>

lemma copy_step_correct:
  assumes src: "dseg (nodes st) None (u @ (f, d) # w) None"
      "distinct (map fst (u @ (f, d) # w))"
      "lhead l = first_or (u @ (f, d) # w) None" "ltail l = last_or (u @ (f, d) # w) None"
    and cpy: "dseg (nodes st) None c None" "distinct (map fst c)"
      "addrs c \<inter> addrs (u @ (f, d) # w) = {}"
    and t: "nodes st t = None"
  shows "\<exists>st'. copy_step l t st to_l f (last_or c None) =
      Some (st', to_l\<lparr>lhead := (if u = [] then Some t else lhead to_l),
                      ltail := (if w = [] then Some t else ltail to_l)\<rparr>, first_or w None) \<and>
    dseg (nodes st') None (u @ (f, d) # w) None \<and>
    dseg (nodes st') None (c @ [(t, d)]) None \<and>
    heap_frame (insert t (addrs c)) st st' \<and> dom (nodes st') = insert t (dom (nodes st))"
proof -
  have tu: "t \<notin> addrs (u @ (f, d) # w)" and tc: "t \<notin> addrs c"
    using dseg_dom[OF src(1)] dseg_dom[OF cpy(1)] t by blast+
  have head: "Some f = lhead l \<longleftrightarrow> u = []"
    using src by (cases u) auto
  have tail: "Some f = ltail l \<longleftrightarrow> w = []"
    using src by (cases w rule: entries_rev_cases) auto
  show ?thesis
  proof (cases c rule: entries_rev_cases)
    case 1
    with src tu head tail show ?thesis
      by (auto simp: copy_step_def dlink_node_new_def dlink_node_zero_def heap_frame_def image_Un)
  next
    case (2 r a da)
    then have "a \<notin> addrs (u @ (f, d) # w)" "a \<noteq> f" "a \<noteq> t" "f \<notin> addrs r" "t \<notin> addrs r"
      using cpy(3) tc by auto
    with 2 src cpy tu head tail show ?thesis
      by (auto simp: copy_step_def dlink_node_new_def dlink_node_zero_def heap_frame_def image_Un)
  qed
qed

text \<open>What the allocator promises: the address of a block that is not in use.\<close>

definition allocates :: "((addr \<rightharpoonup> 'd node) \<Rightarrow> addr) \<Rightarrow> bool" where
  "allocates fresh \<longleftrightarrow> (\<forall>h. finite (dom h) \<longrightarrow> h (fresh h) = None)"

lemma copy_from_correct:
  assumes fresh: "allocates fresh" and fin: "finite (dom (nodes st))"
    and src: "dseg (nodes st) None (u @ w) None" "distinct (map fst (u @ w))"
      "lhead l = first_or (u @ w) None" "ltail l = last_or (u @ w) None"
    and cpy: "dseg (nodes st) None c None" "distinct (map fst c)"
      "addrs c \<inter> addrs (u @ w) = {}" "map snd c = map snd u"
      "lhead to_l = first_or c None" "w = [] \<Longrightarrow> ltail to_l = last_or c None"
  shows "\<exists>st' c'. copy_from fresh l st to_l (first_or w None) (last_or c None) =
      Some (st', to_l\<lparr>lhead := first_or c' None, ltail := last_or c' None\<rparr>) \<and>
    dseg (nodes st') None c' None \<and> distinct (map fst c') \<and> map snd c' = map snd (u @ w) \<and>
    addrs c' - addrs c \<subseteq> - dom (nodes st) \<and> heap_frame (addrs c') st st' \<and> addrs c \<subseteq> addrs c'"
  using fin src cpy
proof (induction w arbitrary: st u c to_l)
  case Nil
  then show ?case
    by (intro exI[of _ st] exI[of _ c])
      (simp add: copy_from.simps[of _ _ _ _ None] heap_frame_def)
next
  case (Cons x w)
  obtain f d where x: "x = (f, d)" by (cases x) auto
  define t where "t = fresh (nodes st)"
  have t: "nodes st t = None" using fresh Cons.prems(1) by (simp add: t_def allocates_def)
  obtain st' where st': "copy_step l t st to_l f (last_or c None) =
      Some (st', to_l\<lparr>lhead := (if u = [] then Some t else lhead to_l),
                      ltail := (if w = [] then Some t else ltail to_l)\<rparr>, first_or w None)"
    "dseg (nodes st') None (u @ (f, d) # w) None" "dseg (nodes st') None (c @ [(t, d)]) None"
    "heap_frame (insert t (addrs c)) st st'" "dom (nodes st') = insert t (dom (nodes st))"
    using copy_step_correct[of st u f d w l c t to_l] Cons.prems t x by auto
  let ?to = "to_l\<lparr>lhead := (if u = [] then Some t else lhead to_l),
     ltail := (if w = [] then Some t else ltail to_l)\<rparr>"
  have uc: "u = [] \<longleftrightarrow> c = []" using Cons.prems(9) by (metis list.map_disc_iff)
  have tn: "t \<notin> addrs (u @ (f, d) # w)" "t \<notin> addrs c"
    using dseg_dom[OF Cons.prems(2)] dseg_dom[OF Cons.prems(6)] t x by auto
  have "\<exists>st'' c'. copy_from fresh l st' ?to (first_or w None) (last_or (c @ [(t, d)]) None) =
      Some (st'', ?to\<lparr>lhead := first_or c' None, ltail := last_or c' None\<rparr>) \<and>
    dseg (nodes st'') None c' None \<and> distinct (map fst c') \<and>
    map snd c' = map snd ((u @ [(f, d)]) @ w) \<and>
    addrs c' - addrs (c @ [(t, d)]) \<subseteq> - dom (nodes st') \<and> heap_frame (addrs c') st' st'' \<and>
    addrs (c @ [(t, d)]) \<subseteq> addrs c'"
  proof (rule Cons.IH)
    show "finite (dom (nodes st'))" using Cons.prems(1) st'(5) by simp
    show "dseg (nodes st') None ((u @ [(f, d)]) @ w) None" using st'(2) by simp
    show "distinct (map fst ((u @ [(f, d)]) @ w))" using Cons.prems(3) x by simp
    show "lhead l = first_or ((u @ [(f, d)]) @ w) None" using Cons.prems(4) x by simp
    show "ltail l = last_or ((u @ [(f, d)]) @ w) None" using Cons.prems(5) x by simp
    show "dseg (nodes st') None (c @ [(t, d)]) None" by (rule st'(3))
    show "distinct (map fst (c @ [(t, d)]))" using Cons.prems(7) tn(2) by simp
    show "addrs (c @ [(t, d)]) \<inter> addrs ((u @ [(f, d)]) @ w) = {}"
      using Cons.prems(8) tn(1) x by auto
    show "map snd (c @ [(t, d)]) = map snd (u @ [(f, d)])" using Cons.prems(9) by simp
    show "lhead ?to = first_or (c @ [(t, d)]) None"
      using Cons.prems(10) uc by (cases c) auto
    show "ltail ?to = last_or (c @ [(t, d)]) None" if "w = []" using that by simp
  qed
  then obtain st'' c' where r: "copy_from fresh l st' ?to (first_or w None) (Some t) =
      Some (st'', ?to\<lparr>lhead := first_or c' None, ltail := last_or c' None\<rparr>)"
    "dseg (nodes st'') None c' None" "distinct (map fst c')"
    "map snd c' = map snd (u @ (f, d) # w)" "addrs c' - insert t (addrs c) \<subseteq> - dom (nodes st')"
    "heap_frame (addrs c') st' st''" "insert t (addrs c) \<subseteq> addrs c'"
    by auto
  have "copy_from fresh l st to_l (Some f) (last_or c None) =
      Some (st'', to_l\<lparr>lhead := first_or c' None, ltail := last_or c' None\<rparr>)"
    using st'(1) r(1) by (simp add: copy_from.simps[of _ _ _ _ "Some _"] t_def[symmetric])
  moreover have "heap_frame (addrs c') st st''"
    unfolding heap_frame_def
  proof (intro allI impI)
    fix a assume "a \<notin> addrs c'"
    moreover from this r(7) have "a \<notin> insert t (addrs c)" by blast
    ultimately show "nodes st'' a = nodes st a"
      using st'(4) r(6) by (simp add: heap_frame_def)
  qed
  moreover have "addrs c' - addrs c \<subseteq> - dom (nodes st)"
    using r(5) st'(5) t by auto
  ultimately show ?case
    using r x by (intro exI[of _ st''] exI[of _ c']) simp
qed

lemma dlink_copy_refines:
  assumes "allocates fresh" "finite (dom (nodes st))" "dl_list st l v"
  shows "\<exists>st' l' c. dlink_copy fresh st l = Some (st', l') \<and> map snd c = map snd v \<and>
    lsize l' = 0 \<and> dl_list st' (l'\<lparr>lsize := of_nat (length v)\<rparr>) c \<and> dl_list st' l v \<and>
    addrs c \<inter> dom (nodes st) = {}"
proof -
  obtain st' c where r: "copy_from fresh l st dlink_list_zero (first_or v None) None =
      Some (st', dlink_list_zero\<lparr>lhead := first_or c None, ltail := last_or c None\<rparr>)"
    "dseg (nodes st') None c None" "distinct (map fst c)" "map snd c = map snd v"
    "addrs c \<subseteq> - dom (nodes st)" "heap_frame (addrs c) st st'"
    using copy_from_correct[OF assms(1,2), where u = "[]" and w = v and l = l and c = "[]" and
      to_l = dlink_list_zero] assms(3)
    by (auto simp: dl_list_def dlink_list_zero_def)
  have "length c = length v" using r(4) by (metis length_map)
  moreover have "addrs v \<subseteq> dom (nodes st)"
    using assms(3) by (auto simp: dl_list_def dest: dseg_dom)
  then have "dl_list st' l v"
    using r(5) by (intro dl_list_frame[OF assms(3) r(6)]) blast
  ultimately show ?thesis
    using r assms(3)
    by (intro exI[of _ st'] exI[of _ "dlink_list_zero\<lparr>lhead := first_or c None, ltail := last_or c None\<rparr>"] exI[of _ c])
      (auto simp: dlink_copy_def dl_list_def dlink_list_zero_def)
qed

section \<open>Swapping two nodes\<close>

lemma dlink_swap_refines:
  assumes "dl_list st l (u @ (a, da) # v @ (b, db) # w)"
  shows "\<exists>st' l'. dlink_swap st l a b = Some (st', l') \<and>
      dl_list st' l' (u @ (b, db) # v @ (a, da) # w) \<and>
      heap_frame (addrs (u @ (a, da) # v @ (b, db) # w)) st st'" (is ?ab)
    and "\<exists>st' l'. dlink_swap st l b a = Some (st', l') \<and>
      dl_list st' l' (u @ (b, db) # v @ (a, da) # w) \<and>
      heap_frame (addrs (u @ (a, da) # v @ (b, db) # w)) st st'" (is ?ba)
proof -
  have firsts: "x = [] \<or> (\<exists>e de t. x = (e, de) # t)" for x :: "'a entries"
    by (cases x) auto
  have lasts: "x = [] \<or> (\<exists>e de t. x = t @ [(e, de)])" for x :: "'a entries"
    by (cases x rule: rev_cases) auto
  have mids: "x = [] \<or> (\<exists>e de. x = [(e, de)]) \<or> (\<exists>e de t f df. x = (e, de) # t @ [(f, df)])"
    for x :: "'a entries"
    using firsts[of x] lasts[of "tl x"] by auto
  from firsts[of w] lasts[of u] mids[of v] assms show ?ab
    by (elim disjE exE) (auto simp: dlink_swap_def dl_list_def heap_frame_def image_Un)
  from firsts[of w] lasts[of u] mids[of v] assms show ?ba
    by (elim disjE exE) (auto simp: dlink_swap_def dl_list_def heap_frame_def image_Un)
qed

section \<open>Sequences of operations\<close>

datatype 'd dlop =
    AddHead addr "'d option"
  | AddTail addr "'d option"
  | AddBefore addr addr "'d option"
  | AddAfter addr addr "'d option"
  | Delete addr
  | FindDelete "'d option"
  | Swap addr addr

fun dl_exec :: "'d dstate \<times> dlist \<Rightarrow> 'd dlop \<Rightarrow> ('d dstate \<times> dlist) option" where
  "dl_exec (st, l) (AddHead n d) = dlink_add_head st l n d"
| "dl_exec (st, l) (AddTail n d) = dlink_add_tail st l n d"
| "dl_exec (st, l) (AddBefore n b d) = dlink_add_before st l n b d"
| "dl_exec (st, l) (AddAfter n b d) = dlink_add_after st l n b d"
| "dl_exec (st, l) (Delete n) = dlink_delete st l n"
| "dl_exec (st, l) (FindDelete d) =
     map_option (\<lambda>(st, l, _). (st, l)) (dlink_find_delete st l d)"
| "dl_exec (st, l) (Swap a b) = dlink_swap st l a b"

text \<open>The abstract meaning; \<open>None\<close> where the operation may not be called: linking a node
  that is linked, or naming a node that is not.\<close>

definition insert_before :: "addr \<Rightarrow> addr \<times> 'd option \<Rightarrow> 'd entries \<Rightarrow> 'd entries" where
  "insert_before b e v =
     takeWhile (\<lambda>x. fst x \<noteq> b) v @ e # dropWhile (\<lambda>x. fst x \<noteq> b) v"

definition insert_after :: "addr \<Rightarrow> addr \<times> 'd option \<Rightarrow> 'd entries \<Rightarrow> 'd entries" where
  "insert_after b e v =
     takeWhile (\<lambda>x. fst x \<noteq> b) v @ take 1 (dropWhile (\<lambda>x. fst x \<noteq> b) v) @
     e # drop 1 (dropWhile (\<lambda>x. fst x \<noteq> b) v)"

definition swap_entries :: "addr \<Rightarrow> addr \<Rightarrow> 'd entries \<Rightarrow> 'd entries" where
  "swap_entries a b v = map (\<lambda>(x, d).
     if x = a then (b, the (map_of v b)) else if x = b then (a, the (map_of v a)) else (x, d)) v"

fun dl_spec :: "'d entries \<Rightarrow> 'd dlop \<Rightarrow> 'd entries option" where
  "dl_spec v (AddHead n d) = (if n \<in> addrs v then None else Some ((n, d) # v))"
| "dl_spec v (AddTail n d) = (if n \<in> addrs v then None else Some (v @ [(n, d)]))"
| "dl_spec v (AddBefore n b d) =
     (if n \<in> addrs v \<or> b \<notin> addrs v then None else Some (insert_before b (n, d) v))"
| "dl_spec v (AddAfter n b d) =
     (if n \<in> addrs v \<or> b \<notin> addrs v then None else Some (insert_after b (n, d) v))"
| "dl_spec v (Delete n) =
     (if n \<in> addrs v then Some (filter (\<lambda>x. fst x \<noteq> n) v) else None)"
| "dl_spec v (FindDelete d) = (case entry_find v d of
     None \<Rightarrow> Some v | Some n \<Rightarrow> Some (filter (\<lambda>x. fst x \<noteq> n) v))"
| "dl_spec v (Swap a b) =
     (if a \<in> addrs v \<and> b \<in> addrs v \<and> a \<noteq> b then Some (swap_entries a b v) else None)"

fun dl_links :: "'d dlop \<Rightarrow> addr set" where
  "dl_links (AddHead n d) = {n}"
| "dl_links (AddTail n d) = {n}"
| "dl_links (AddBefore n b d) = {n}"
| "dl_links (AddAfter n b d) = {n}"
| "dl_links _ = {}"

text \<open>The interface: a representation of entry lists whose single operations refine
  \<open>dl_spec\<close> and keep allocated nodes allocated. Whole sequences then refine.\<close>

locale list_refinement =
  fixes rep :: "'c \<Rightarrow> 'd entries \<Rightarrow> bool"
    and ready :: "'c \<Rightarrow> addr set"
    and exec :: "'c \<Rightarrow> 'd dlop \<Rightarrow> 'c option"
  assumes exec_refines: "rep c v \<Longrightarrow> dl_spec v x = Some v' \<Longrightarrow> dl_links x \<subseteq> ready c \<Longrightarrow>
    \<exists>c'. exec c x = Some c' \<and> rep c' v' \<and> ready c \<subseteq> ready c'"
begin

fun run :: "'c \<Rightarrow> 'd dlop list \<Rightarrow> 'c option" where
  "run c [] = Some c"
| "run c (x # xs) = Option.bind (exec c x) (\<lambda>c'. run c' xs)"

end

fun dl_run :: "'d dstate \<times> dlist \<Rightarrow> 'd dlop list \<Rightarrow> ('d dstate \<times> dlist) option" where
  "dl_run c [] = Some c"
| "dl_run c (x # xs) = Option.bind (dl_exec c x) (\<lambda>c'. dl_run c' xs)"

fun dl_spec_run :: "'d entries \<Rightarrow> 'd dlop list \<Rightarrow> 'd entries option" where
  "dl_spec_run v [] = Some v"
| "dl_spec_run v (x # xs) = Option.bind (dl_spec v x) (\<lambda>v'. dl_spec_run v' xs)"

context list_refinement
begin

lemma run_refines:
  assumes "rep c v" "dl_spec_run v xs = Some v'" "(\<Union>x \<in> set xs. dl_links x) \<subseteq> ready c"
  shows "\<exists>c'. run c xs = Some c' \<and> rep c' v'"
  using assms
proof (induction xs arbitrary: c v)
  case (Cons x xs)
  then obtain u where u: "dl_spec v x = Some u" "dl_spec_run u xs = Some v'"
    by (auto simp: bind_eq_Some_conv)
  with exec_refines[OF Cons.prems(1) u(1)] Cons.prems(3) obtain c' where
    c': "exec c x = Some c'" "rep c' u" "ready c \<subseteq> ready c'" by auto
  with Cons.IH[OF c'(2) u(2)] Cons.prems(3) show ?case by auto
qed simp

end

text \<open>Links change, but no operation of the sequence allocates or frees.\<close>

lemma frame_dom:
  "heap_frame A st st' \<Longrightarrow> A \<subseteq> dom (nodes st') \<Longrightarrow> dom (nodes st) \<subseteq> dom (nodes st')"
  by (force simp: heap_frame_def)

lemma dl_list_dom: "dl_list st l v \<Longrightarrow> addrs v \<subseteq> dom (nodes st)"
  by (auto simp: dl_list_def dest: dseg_dom)

lemma split_at_addr:
  assumes "b \<in> addrs v"
  obtains u db w where "v = u @ (b, db) # w" "b \<notin> addrs u"
proof -
  from assms obtain db where "(b, db) \<in> set v" by auto
  then have "\<exists>x \<in> set v. fst x = b" by force
  then show thesis
  proof (rule split_list_first_propE)
    fix u x w assume "v = u @ x # w" "fst x = b" "\<forall>y \<in> set u. fst y \<noteq> b"
    then show thesis by (intro that[of u "snd x" w]) auto
  qed
qed

lemma takeWhile_split: "b \<notin> addrs u \<Longrightarrow> takeWhile (\<lambda>x. fst x \<noteq> b) (u @ (b, db) # w) = u"
  by (induction u) auto

lemma dropWhile_split:
  "b \<notin> addrs u \<Longrightarrow> dropWhile (\<lambda>x. fst x \<noteq> b) (u @ (b, db) # w) = (b, db) # w"
  by (induction u) auto

lemma insert_before_split:
  "b \<notin> addrs u \<Longrightarrow> insert_before b e (u @ (b, db) # w) = u @ e # (b, db) # w"
  by (simp add: insert_before_def takeWhile_split dropWhile_split)

lemma insert_after_split:
  "b \<notin> addrs u \<Longrightarrow> insert_after b e (u @ (b, db) # w) = u @ (b, db) # e # w"
  by (simp add: insert_after_def takeWhile_split dropWhile_split)

lemma filter_other: "n \<notin> fst ` set u \<Longrightarrow> filter (\<lambda>x. fst x \<noteq> n) u = u"
  by (induction u) auto

lemma filter_split:
  "distinct (map fst (u @ (n, d) # w)) \<Longrightarrow>
     filter (\<lambda>x. fst x \<noteq> n) (u @ (n, d) # w) = u @ w"
  by (auto simp: filter_other)

lemma swap_entries_id: "a \<notin> addrs u \<Longrightarrow> b \<notin> addrs u \<Longrightarrow> map (\<lambda>(x, d).
     if x = a then (b, p) else if x = b then (a, q) else (x, d)) u = u"
  by (induction u) auto

lemma swap_entries_split:
  assumes "distinct (map fst (u @ (a, da) # v @ (b, db) # w))"
  shows "swap_entries a b (u @ (a, da) # v @ (b, db) # w) = u @ (b, db) # v @ (a, da) # w"
    "swap_entries b a (u @ (a, da) # v @ (b, db) # w) = u @ (b, db) # v @ (a, da) # w"
proof -
  let ?l = "u @ (a, da) # v @ (b, db) # w"
  have m: "map_of ?l a = Some da" "map_of ?l b = Some db"
    by (simp_all only: map_of_eq_Some_iff[OF assms]) simp_all
  have n: "a \<notin> addrs u" "b \<notin> addrs u" "a \<notin> addrs v" "b \<notin> addrs v" "a \<notin> addrs w" "b \<notin> addrs w" "a \<noteq> b"
    using assms by auto
  show "swap_entries a b ?l = u @ (b, db) # v @ (a, da) # w"
    "swap_entries b a ?l = u @ (b, db) # v @ (a, da) # w"
    unfolding swap_entries_def m using n by (simp_all add: swap_entries_id)
qed

lemma dl_swap_any:
  assumes "dl_list st l v" "a \<in> addrs v" "b \<in> addrs v" "a \<noteq> b"
  shows "\<exists>st' l'. dlink_swap st l a b = Some (st', l') \<and> dl_list st' l' (swap_entries a b v) \<and>
    heap_frame (addrs v) st st' \<and> addrs (swap_entries a b v) = addrs v"
proof -
  obtain u da w where v: "v = u @ (a, da) # w" "a \<notin> addrs u"
    using split_at_addr[OF assms(2)] by blast
  have d: "distinct (map fst v)" using assms(1) by (simp add: dl_list_def)
  from assms(3,4) v(1) consider "b \<in> addrs u" | "b \<in> addrs w" by auto
  then show ?thesis
  proof cases
    case 1
    then obtain r db t where u: "u = r @ (b, db) # t" using split_at_addr by blast
    have sw: "v = r @ (b, db) # t @ (a, da) # w" using u v by simp
    have e: "swap_entries a b v = r @ (a, da) # t @ (b, db) # w"
      unfolding sw by (rule swap_entries_split(2)) (use d sw in simp)
    have "dl_list st l (r @ (b, db) # t @ (a, da) # w)" using assms(1) sw by simp
    from dlink_swap_refines(2)[OF this] show ?thesis
      unfolding e unfolding sw by (auto simp: image_Un)
  next
    case 2
    then obtain r db t where u: "w = r @ (b, db) # t" using split_at_addr by blast
    have sw: "v = u @ (a, da) # r @ (b, db) # t" using u v by simp
    have e: "swap_entries a b v = u @ (b, db) # r @ (a, da) # t"
      unfolding sw by (rule swap_entries_split(1)) (use d sw in simp)
    have "dl_list st l (u @ (a, da) # r @ (b, db) # t)" using assms(1) sw by simp
    from dlink_swap_refines(1)[OF this] show ?thesis
      unfolding e unfolding sw by (auto simp: image_Un)
  qed
qed

text \<open>What one operation owes: it succeeds on a heap representing the new list, and every
  node allocated before is still allocated.\<close>

definition op_ok :: "'d dstate \<Rightarrow> ('d dstate \<times> dlist) option \<Rightarrow> 'd entries \<Rightarrow> bool" where
  "op_ok st r v' \<longleftrightarrow> (\<exists>st' l'. r = Some (st', l') \<and> dl_list st' l' v' \<and>
     dom (nodes st) \<subseteq> dom (nodes st'))"

lemma op_okI:
  assumes "r = Some (st', l')" "dl_list st' l' v'" "heap_frame A st st'" "A \<subseteq> dom (nodes st')"
  shows "op_ok st r v'"
  using assms frame_dom[of A st st'] by (auto simp: op_ok_def)

lemma add_head_ok:
  assumes "dl_list st l v" "n \<notin> addrs v" "n \<in> dom (nodes st)"
  shows "op_ok st (dlink_add_head st l n e) ((n, e) # v)"
proof -
  obtain y where "nodes st n = Some y" using assms(3) by auto
  from dlink_add_head_refines[OF assms(1,2) this, of e] obtain st' l' where
    r: "dlink_add_head st l n e = Some (st', l')" "dl_list st' l' ((n, e) # v)"
      "heap_frame (insert n (addrs v)) st st'" by blast
  show ?thesis
    by (rule op_okI[OF r]) (use dl_list_dom[OF r(2)] in auto)
qed

lemma add_tail_ok:
  assumes "dl_list st l v" "n \<notin> addrs v" "n \<in> dom (nodes st)"
  shows "op_ok st (dlink_add_tail st l n e) (v @ [(n, e)])"
proof -
  obtain y where "nodes st n = Some y" using assms(3) by auto
  from dlink_add_tail_refines[OF assms(1,2) this, of e] obtain st' l' where
    r: "dlink_add_tail st l n e = Some (st', l')" "dl_list st' l' (v @ [(n, e)])"
      "heap_frame (insert n (addrs v)) st st'" by blast
  show ?thesis
    by (rule op_okI[OF r]) (use dl_list_dom[OF r(2)] in auto)
qed

lemma add_before_ok:
  assumes "dl_list st l v" "n \<notin> addrs v" "n \<in> dom (nodes st)" "b \<in> addrs v"
  shows "op_ok st (dlink_add_before st l n b e) (insert_before b (n, e) v)"
proof -
  obtain y where y: "nodes st n = Some y" using assms(3) by auto
  from assms(4) obtain u db w where v: "v = u @ (b, db) # w" "b \<notin> addrs u"
    by (rule split_at_addr)
  from dlink_add_before_refines[OF assms(1)[unfolded v(1)] assms(2)[unfolded v(1)] y, of e]
  obtain st' l' where
    r: "dlink_add_before st l n b e = Some (st', l')" "dl_list st' l' (u @ (n, e) # (b, db) # w)"
      "heap_frame (insert n (addrs (u @ (b, db) # w))) st st'" by blast
  show ?thesis
    unfolding v(1) insert_before_split[OF v(2)]
    by (rule op_okI[OF r]) (use dl_list_dom[OF r(2)] in auto)
qed

lemma add_after_ok:
  assumes "dl_list st l v" "n \<notin> addrs v" "n \<in> dom (nodes st)" "b \<in> addrs v"
  shows "op_ok st (dlink_add_after st l n b e) (insert_after b (n, e) v)"
proof -
  obtain y where y: "nodes st n = Some y" using assms(3) by auto
  from assms(4) obtain u db w where v: "v = u @ (b, db) # w" "b \<notin> addrs u"
    by (rule split_at_addr)
  from dlink_add_after_refines[OF assms(1)[unfolded v(1)] assms(2)[unfolded v(1)] y, of e]
  obtain st' l' where
    r: "dlink_add_after st l n b e = Some (st', l')" "dl_list st' l' (u @ (b, db) # (n, e) # w)"
      "heap_frame (insert n (addrs (u @ (b, db) # w))) st st'" by blast
  show ?thesis
    unfolding v(1) insert_after_split[OF v(2)]
    by (rule op_okI[OF r]) (use dl_list_dom[OF r(2)] in auto)
qed

lemma delete_ok:
  assumes "dl_list st l v" "n \<in> addrs v"
  shows "op_ok st (dlink_delete st l n) (filter (\<lambda>y. fst y \<noteq> n) v)"
proof -
  from assms(2) obtain u dn w where v: "v = u @ (n, dn) # w" "n \<notin> addrs u"
    by (rule split_at_addr)
  from dlink_delete_refines[OF assms(1)[unfolded v(1)]] obtain st' l' where
    r: "dlink_delete st l n = Some (st', l')" "dl_list st' l' (u @ w)"
      "heap_frame (addrs (u @ (n, dn) # w)) st st'" and n: "nodes st' n \<noteq> None" by auto
  have "filter (\<lambda>y. fst y \<noteq> n) v = u @ w"
    using assms(1) v filter_split[of u n dn w] by (simp add: dl_list_def)
  then show ?thesis
    by (auto intro!: op_okI[OF r(1) _ r(3)] simp: r(2)) (use n dl_list_dom[OF r(2)] in auto)
qed

lemma find_delete_ok:
  assumes "dl_list st l v"
  shows "op_ok st (map_option (\<lambda>(st, l, _). (st, l)) (dlink_find_delete st l e))
    (case entry_find v e of None \<Rightarrow> v | Some n \<Rightarrow> filter (\<lambda>y. fst y \<noteq> n) v)"
proof (cases "entry_find v e")
  case None
  then have "dlink_find_delete st l e = Some (st, l, None)"
    using dlink_find_refines[OF assms, of e] by (simp add: dlink_find_delete_def dlink_find_def)
  then show ?thesis using assms None by (simp add: op_ok_def)
next
  case (Some n)
  then obtain u w where v: "v = u @ (n, e) # w" using entry_find_Some by blast
  from dlink_find_delete_refines[OF assms Some v] obtain st' l' where
    r: "dlink_find_delete st l e = Some (st', l', Some n)" "dl_list st' l' (u @ w)"
      "heap_frame (addrs v) st st'" and n: "nodes st' n \<noteq> None" by auto
  have "filter (\<lambda>y. fst y \<noteq> n) v = u @ w"
    using assms v filter_split[of u n e w] by (simp add: dl_list_def)
  then show ?thesis
    unfolding Some option.case r(1)
    by (auto intro!: op_okI[OF _ _ r(3)] simp: r(2)) (use n v dl_list_dom[OF r(2)] in auto)
qed

lemma swap_ok:
  assumes "dl_list st l v" "a \<in> addrs v" "b \<in> addrs v" "a \<noteq> b"
  shows "op_ok st (dlink_swap st l a b) (swap_entries a b v)"
proof -
  from dl_swap_any[OF assms] obtain st' l' where
    r: "dlink_swap st l a b = Some (st', l')" "dl_list st' l' (swap_entries a b v)"
      "heap_frame (addrs v) st st'" and v: "addrs (swap_entries a b v) = addrs v" by blast
  show ?thesis
    by (rule op_okI[OF r]) (use dl_list_dom[OF r(2)] v in auto)
qed

lemmas op_oks = add_head_ok add_tail_ok add_before_ok add_after_ok delete_ok find_delete_ok swap_ok

lemma dl_exec_refines:
  assumes "dl_list st l v" "dl_spec v x \<noteq> None" "dl_links x \<subseteq> dom (nodes st)"
  shows "op_ok st (dl_exec (st, l) x) (the (dl_spec v x))"
proof (cases x)
  case (FindDelete e)
  with find_delete_ok[OF assms(1), of e] show ?thesis
    by (cases "entry_find v e") simp_all
qed (use assms in \<open>simp_all add: op_oks del: filter.simps not_None_eq split: if_split_asm\<close>)

interpretation dl: list_refinement
  "\<lambda>(st, l) v. dl_list st l v" "\<lambda>(st, l). dom (nodes st)" dl_exec
proof (unfold_locales, goal_cases)
  case (1 c v x v')
  then show ?case
    using dl_exec_refines[of "fst c" "snd c" v x] by (cases c) (auto simp: op_ok_def)
qed

lemma dl_run_eq: "dl.run c xs = dl_run c xs"
  by (induction xs arbitrary: c) simp_all

section \<open>The properties\<close>

text \<open>C18. Any sequence of head, tail, before and after insertions, deletions,
  find-and-deletes and swaps that links only allocated, unlinked nodes and names only linked
  ones runs without touching NULL or a freed node, and leaves a well-formed doubly linked list
  (both chains, the head, the tail and the count agree) holding the entries the same sequence
  of list operations gives.\<close>

theorem dlink_run_refines:
  assumes "dl_list st l v" "dl_spec_run v xs = Some v'"
    "(\<Union>x \<in> set xs. dl_links x) \<subseteq> dom (nodes st)"
  shows "\<exists>st' l'. dl_run (st, l) xs = Some (st', l') \<and> dl_list st' l' v'"
  using dl.run_refines[of "(st, l)" v xs v'] assms by (auto simp: dl_run_eq)

definition three_nodes :: "nat dstate" where
  "three_nodes = \<lparr>nodes = (\<lambda>a. if a \<in> {1, 2, 3} then Some dlink_node_zero else None),
     dlink_count = 3, dlink_linked = 0\<rparr>"

definition a_sequence :: "nat dlop list" where
  "a_sequence = [AddHead 1 (Some 10), AddTail 2 (Some 20), AddBefore 3 2 (Some 30), Swap 1 2,
     FindDelete (Some 30)]"

lemma dlink_run_witness:
  "\<exists>st' l'. dl_run (three_nodes, dlink_list_zero) a_sequence = Some (st', l') \<and>
     dl_list st' l' [(2, Some 20), (1, Some (10::nat))]"
proof (rule dlink_run_refines[where v = "[]"])
  show "dl_list three_nodes dlink_list_zero []"
    by (simp add: dl_list_def dlink_list_zero_def)
  show "dl_spec_run [] a_sequence = Some [(2, Some 20), (1, Some 10)]"
    by (simp add: a_sequence_def insert_before_def swap_entries_def entry_find_def)
  show "(\<Union>x \<in> set a_sequence. dl_links x) \<subseteq> dom (nodes three_nodes)"
    by (auto simp: a_sequence_def three_nodes_def)
qed

text \<open>On a represented list \<open>dlink_find\<close> returns the first node holding the data and
  NULL when there is none, \<open>dlink_index\<close> the node at the index and NULL past the end, and
  \<open>dlink_count_nodes\<close> the length (modulo 2 to the 32); all of them return.\<close>

theorem dlink_lookups_correct:
  assumes "dl_list st l v" "length v < 2 ^ 64" "k < 2 ^ 64"
  shows "dlink_find st l d = Some (map_option fst (List.find (\<lambda>(a, e). e = d) v)) \<and>
    dlink_index st l (of_nat k) = Some (if k < length v then Some (fst (v ! k)) else None) \<and>
    dlink_count_nodes st l = Some (of_nat (length v))"
  using dlink_find_refines[OF assms(1)] dlink_index_refines[OF assms]
    dlink_count_nodes_refines[OF assms(1)] by (simp add: entry_find_def)

definition two_linked :: "nat dstate" where
  "two_linked = \<lparr>nodes =
      [4 \<mapsto> \<lparr>ndata = Some 7, nprev = None, nnext = Some 9\<rparr>,
       9 \<mapsto> \<lparr>ndata = Some 8, nprev = Some 4, nnext = None\<rparr>],
     dlink_count = 2, dlink_linked = 2\<rparr>"

definition two_head :: dlist where
  "two_head = \<lparr>lhead = Some 4, ltail = Some 9, lsize = 2\<rparr>"

lemma two_linked_list: "dl_list two_linked two_head [(4, Some 7), (9, Some 8)]"
  by (simp add: dl_list_def two_linked_def two_head_def)

lemma dlink_lookups_witness:
  "dlink_find two_linked two_head (Some 8) = Some (Some 9) \<and>
   dlink_index two_linked two_head 0 = Some (Some 4) \<and>
   dlink_count_nodes two_linked two_head = Some 2"
  using dlink_lookups_correct[OF two_linked_list, of 0 "Some 8"] by simp

text \<open>\<open>dlink_destroy\<close> frees exactly the nodes of the list, reads no node it has
  freed, takes them off the node count and leaves an empty head.\<close>

theorem dlink_destroy_frees:
  assumes "dl_list st l v"
  shows "\<exists>st'. dlink_destroy st l = Some (st', dlink_list_zero) \<and>
    dom (nodes st') = dom (nodes st) - addrs v \<and> heap_frame (addrs v) st st' \<and>
    dlink_count st' = dlink_count st - of_nat (length v)"
  using dlink_destroy_refines[OF assms] by (auto simp: heap_frame_def)

lemma dlink_destroy_witness:
  "\<exists>st'. dlink_destroy two_linked two_head = Some (st', dlink_list_zero) \<and>
     dom (nodes st') = {}"
  using dlink_destroy_frees[OF two_linked_list] by (auto simp: two_linked_def)

text \<open>Moving one list in front of, or behind, a disjoint other one concatenates them,
  empties the source and touches no other node.\<close>

theorem dlink_move_concatenates:
  assumes "dl_list st l v" "dl_list st l' w" "addrs v \<inter> addrs w = {}"
  shows "(\<exists>st' l''. dlink_move_head st l l' = Some (st', dlink_list_zero, l'') \<and>
      dl_list st' l'' (v @ w) \<and> heap_frame (addrs v \<union> addrs w) st st') \<and>
    (\<exists>st' l''. dlink_move_tail st l l' = Some (st', dlink_list_zero, l'') \<and>
      dl_list st' l'' (w @ v) \<and> heap_frame (addrs v \<union> addrs w) st st')"
  using dlink_move_head_refines[OF assms] dlink_move_tail_refines[OF assms] by blast

definition two_singles :: "nat dstate" where
  "two_singles = \<lparr>nodes =
      [4 \<mapsto> \<lparr>ndata = Some 7, nprev = None, nnext = None\<rparr>,
       9 \<mapsto> \<lparr>ndata = Some 8, nprev = None, nnext = None\<rparr>],
     dlink_count = 2, dlink_linked = 2\<rparr>"

lemma dlink_move_witness:
  "\<exists>st' l''. dlink_move_head two_singles \<lparr>lhead = Some 4, ltail = Some 4, lsize = 1\<rparr>
       \<lparr>lhead = Some 9, ltail = Some 9, lsize = 1\<rparr> = Some (st', dlink_list_zero, l'') \<and>
     dl_list st' l'' [(4, Some 7), (9, Some 8)]"
  using dlink_move_concatenates[of two_singles "\<lparr>lhead = Some 4, ltail = Some 4, lsize = 1\<rparr>"
      "[(4, Some 7)]" "\<lparr>lhead = Some 9, ltail = Some 9, lsize = 1\<rparr>" "[(9, Some 8)]"]
  by (auto simp: dl_list_def two_singles_def)

text \<open>With an allocator that returns unused blocks, \<open>dlink_copy\<close> returns, builds
  fresh nodes carrying the same data in the same order, leaves the source list as it was, and
  leaves the copy's size field at zero: only with the size set to the length is the copy a
  well-formed list.\<close>

theorem dlink_copy_correct_but_size:
  assumes "\<forall>h. finite (dom h) \<longrightarrow> h (fresh h) = None" "finite (dom (nodes st))" "dl_list st l v"
  shows "\<exists>st' l' c. dlink_copy fresh st l = Some (st', l') \<and> map snd c = map snd v \<and>
    lsize l' = 0 \<and> dl_list st' (l'\<lparr>lsize := of_nat (length v)\<rparr>) c \<and> dl_list st' l v \<and>
    addrs c \<inter> dom (nodes st) = {}"
  using dlink_copy_refines[of fresh st l v] assms by (simp add: allocates_def)

definition next_free :: "(addr \<rightharpoonup> 'd node) \<Rightarrow> addr" where
  "next_free h = Suc (Max (insert 0 (dom h)))"

lemma next_free_unused: "finite (dom h) \<Longrightarrow> h (next_free h) = None"
proof -
  assume "finite (dom h)"
  then have "a \<le> Max (insert 0 (dom h))" if "a \<in> dom h" for a
    using that by (intro Max_ge) auto
  then have "next_free h \<notin> dom h" unfolding next_free_def by fastforce
  then show ?thesis by auto
qed

lemma dlink_copy_witness:
  "\<exists>st' l' (c :: nat entries). dlink_copy next_free two_linked two_head = Some (st', l') \<and>
     map snd c = [Some (7 :: nat), Some 8] \<and> lsize l' = 0 \<and> dl_list st' two_head [(4, Some 7), (9, Some 8)]"
proof -
  have f: "\<forall>h :: addr \<rightharpoonup> nat node. finite (dom h) \<longrightarrow> h (next_free h) = None"
    by (simp add: next_free_unused)
  have d: "finite (dom (nodes two_linked))" by (simp add: two_linked_def)
  note dlink_copy_correct_but_size[OF f d two_linked_list]
  then show ?thesis
    unfolding list.map snd_conv by (elim exE conjE) (intro exI conjI; assumption)
qed

end
