(* ===== verification/Numconv.thy ===== *)
theory Numconv
  imports Prelude Cstr "HOL-Library.Monad_Syntax"
begin

text \<open>
  Numbers and strings, from lib/src/str.c: the four decimal printers \<open>str_lltoa\<close>,
  \<open>str_llutoa\<close>, \<open>str_ltoa\<close>, \<open>str_lutoa\<close>, the pointer printer
  \<open>str_ptoa\<close>, and the parsers \<open>str_toi\<close>, \<open>str_toul\<close>,
  \<open>str_tol\<close>, \<open>str_toull\<close>. Types have their LP64 widths: \<open>int\<close> 32,
  \<open>long\<close>, \<open>long long\<close> and pointers 64 bits. \<open>None\<close> is an access outside
  a buffer or a signed overflow. The printers are shown to write the decimal numeral, the
  parsers to read it back.
\<close>

section \<open>Printing\<close>

lemma unat_div10 [simp]: "unat (l div (10 :: 64 word)) = unat l div 10"
  by (simp add: unat_div)

lemma unat_mod10 [simp]: "unat (l mod (10 :: 64 word)) = unat l mod 10"
  by (simp add: unat_mod)

lemma div10_zero [simp]: "l div (10 :: 64 word) = 0 \<longleftrightarrow> unat l div 10 = 0"
  by (metis unat_div10 unat_eq_zero)

text \<open>The digits go to the local \<open>bbuf\<close> in ascending order of weight; \<open>l\<close> is
  not negative here, so that the signed and the unsigned division agree.\<close>

function ltoa_fill :: "string \<Rightarrow> nat \<Rightarrow> 64 word \<Rightarrow> (string \<times> nat) option" where
  "ltoa_fill bbuf bi l = do {
     bbuf \<leftarrow> wr bbuf bi (char_of (ord (CHR ''0'') + unat (l mod 10)));
     if l div 10 \<noteq> 0 then ltoa_fill bbuf (Suc bi) (l div 10) else Some (bbuf, Suc bi) }"
  by pat_completeness auto
termination
  by (relation "measure (\<lambda>(_, _, l). unat l)") auto

text \<open>\<open>while(bi) *p++ = bbuf[--bi]\<close>.\<close>

fun ltoa_copy :: "string \<Rightarrow> nat \<Rightarrow> string \<Rightarrow> nat \<Rightarrow> (string \<times> nat) option" where
  "ltoa_copy s p bbuf 0 = Some (s, p)"
| "ltoa_copy s p bbuf (Suc bi) = do {
     c \<leftarrow> rd bbuf bi;
     s \<leftarrow> wr s p c;
     ltoa_copy s (Suc p) bbuf bi }"

definition str_lutoa :: "string \<Rightarrow> 64 word \<Rightarrow> (string \<times> nat) option" where
  "str_lutoa s l = do {
     (bbuf, bi) \<leftarrow> ltoa_fill (replicate 32 NUL) 0 l;
     (s, p) \<leftarrow> ltoa_copy s 0 bbuf bi;
     s \<leftarrow> wr s p NUL;
     Some (s, p) }"

definition str_llutoa :: "string \<Rightarrow> 64 word \<Rightarrow> (string \<times> nat) option" where
  "str_llutoa s llu = do {
     (bbuf, bi) \<leftarrow> ltoa_fill (replicate 32 NUL) 0 llu;
     (s, p) \<leftarrow> ltoa_copy s 0 bbuf bi;
     s \<leftarrow> wr s p NUL;
     Some (s, p) }"

text \<open>Negating the least \<open>long\<close> overflows.\<close>

definition neg_long :: "64 word \<Rightarrow> 64 word option" where
  "neg_long l = (if sint l = - (2 ^ 63) then None else Some (- l))"

definition str_ltoa :: "string \<Rightarrow> 64 word \<Rightarrow> (string \<times> nat) option" where
  "str_ltoa s l = do {
     (s, p, l) \<leftarrow>
       (if sint l < 0 then do { s \<leftarrow> wr s 0 (CHR ''-''); l \<leftarrow> neg_long l; Some (s, 1, l) }
        else Some (s, 0, l));
     (bbuf, bi) \<leftarrow> ltoa_fill (replicate 32 NUL) 0 l;
     (s, p) \<leftarrow> ltoa_copy s p bbuf bi;
     s \<leftarrow> wr s p NUL;
     Some (s, p) }"

definition str_lltoa :: "string \<Rightarrow> 64 word \<Rightarrow> (string \<times> nat) option" where
  "str_lltoa s ll = do {
     (s, p, ll) \<leftarrow>
       (if sint ll < 0 then do { s \<leftarrow> wr s 0 (CHR ''-''); ll \<leftarrow> neg_long ll; Some (s, 1, ll) }
        else Some (s, 0, ll));
     (bbuf, bi) \<leftarrow> ltoa_fill (replicate 32 NUL) 0 ll;
     (s, p) \<leftarrow> ltoa_copy s p bbuf bi;
     s \<leftarrow> wr s p NUL;
     Some (s, p) }"

definition str_hexchars :: string where
  "str_hexchars = ''0123456789abcdef''"

text \<open>The pointer printer stores through \<open>buf\<close>, one byte after the other.\<close>

fun store_all :: "string \<Rightarrow> nat \<Rightarrow> string \<Rightarrow> (string \<times> nat) option" where
  "store_all buf n [] = Some (buf, n)"
| "store_all buf n (c # cs) = do { buf \<leftarrow> wr buf n c; store_all buf (Suc n) cs }"

definition hexchar :: "64 word \<Rightarrow> 64 word \<Rightarrow> nat \<Rightarrow> char" where
  "hexchar v msk sh = str_hexchars ! unat (drop_bit sh (and v msk))"

definition str_ptoa :: "string \<Rightarrow> 64 word \<Rightarrow> (string \<times> nat) option" where
  "str_ptoa buf v =
     (if v = 0 then do {
        (buf, n) \<leftarrow> store_all buf 0 ''(nil)'';
        buf \<leftarrow> wr buf n NUL;
        Some (buf, 5) }
      else do {
        (buf, n) \<leftarrow> store_all buf 0 [CHR ''0'', CHR ''x'',
          hexchar v 0xf0000000 0x1c, hexchar v 0x0f000000 0x18,
          hexchar v 0x00f00000 0x14, hexchar v 0x000f0000 0x10,
          hexchar v 0x0000f000 0x0c, hexchar v 0x00000f00 0x08,
          hexchar v 0x000000f0 0x04, hexchar v 0x0000000f 0];
        buf \<leftarrow> wr buf n NUL;
        Some (buf, n) })"

section \<open>Parsing\<close>

definition isnum :: "char \<Rightarrow> bool" where
  "isnum c \<longleftrightarrow> ord c \<ge> ord (CHR ''0'') \<and> ord c \<le> ord (CHR ''9'')"

fun toi_skip :: "string \<Rightarrow> string" where
  "toi_skip p =
     (if cur p \<noteq> NUL \<and> \<not> isnum (cur p) \<and> cur p \<noteq> CHR ''-'' then toi_skip (tl p) else p)"

fun toi_digits :: "string \<Rightarrow> 32 word \<Rightarrow> 32 word" where
  "toi_digits p i =
     (if cur p \<noteq> NUL \<and> isnum (cur p)
      then toi_digits (tl p) (i * 10 + of_nat (ord (cur p) - ord (CHR ''0''))) else i)"

definition str_toi :: "string \<Rightarrow> 32 word" where
  "str_toi s = (let p = toi_skip s in
     if cur p = CHR ''-'' then - toi_digits (tl p) 0 else toi_digits p 0)"

text \<open>The 64-bit parsers work on a string and the offset of \<open>nptr\<close> in it. The result
  is the value, the end offset when the call stores one, and \<open>syscall_errno\<close>.\<close>

record conv =
  conv_val :: "64 word"
  conv_end :: "nat option"
  conv_errno :: int

definition ERANGE :: int where "ERANGE = 34"

definition at :: "string \<Rightarrow> nat \<Rightarrow> char" where
  "at s i = (if i < length s then s ! i else NUL)"

function skip_space :: "string \<Rightarrow> nat \<Rightarrow> nat" where
  "skip_space s i = (if i < length s \<and> str_isspace (at s i) then skip_space s (Suc i) else i)"
  by pat_completeness auto
termination by (relation "measure (\<lambda>(s, i). length s - i)") auto

text \<open>The value of a digit, stored in an \<open>unsigned char\<close>.\<close>

definition toul_digit :: "char \<Rightarrow> int" where
  "toul_digit c = (
     if ord c \<ge> ord (CHR ''a'') then int (ord c) - int (ord (CHR ''a'')) + 10
     else if ord c \<ge> ord (CHR ''A'') then int (ord c) - int (ord (CHR ''A'')) + 10
     else if ord c \<le> ord (CHR ''9'') then int (ord c) - int (ord (CHR ''0''))
     else 0xff) mod 256"

function toul_loop :: "string \<Rightarrow> nat \<Rightarrow> int \<Rightarrow> 64 word \<Rightarrow> (64 word \<times> nat) option" where
  "toul_loop s i base v =
     (if i < length s \<and> at s i \<noteq> NUL then
        let c = toul_digit (at s i) in
        if c \<ge> base then Some (v, i)
        else let w = v * of_int base in
          if w < v then None else toul_loop s (Suc i) base (w + of_int c)
      else Some (v, i))"
  by pat_completeness auto
termination by (relation "measure (\<lambda>(s, i, _). length s - i)") auto

definition toul_base :: "string \<Rightarrow> nat \<Rightarrow> int \<Rightarrow> nat \<times> int" where
  "toul_base s i base =
     (let skip0x = (\<lambda>base. if at s (i + 1) = CHR ''x'' \<or> at s (i + 1) = CHR ''X''
                            then (i + 2, 16) else (i, base)) in
      if base = 16 \<and> at s i = CHR ''0'' then skip0x base
      else if base = 0 then (if at s i = CHR ''0'' then skip0x 8 else (i, 10))
      else (i, base))"

definition str_toul :: "string \<Rightarrow> nat \<Rightarrow> bool \<Rightarrow> int \<Rightarrow> conv" where
  "str_toul s i endptr base =
     (let i = skip_space s i;
          neg = (at s i = CHR ''-'');
          i = (if neg then i + 1 else i);
          i = (if at s i = CHR ''+'' then i + 1 else i);
          (i, base) = toul_base s i base
      in case toul_loop s i base 0 of
           None \<Rightarrow> \<lparr>conv_val = - 1, conv_end = None, conv_errno = ERANGE\<rparr>
         | Some (v, i) \<Rightarrow> \<lparr>conv_val = (if neg then - v else v),
             conv_end = (if endptr then Some i else None), conv_errno = 0\<rparr>)"

definition ABS_LONG_MIN :: "64 word" where "ABS_LONG_MIN = 2147483648"

definition LONG_MIN :: "64 word" where "LONG_MIN = 0x8000000000000000"

definition LONG_MAX :: "64 word" where "LONG_MAX = 0x7FFFFFFFFFFFFFFF"

definition str_tol :: "string \<Rightarrow> nat \<Rightarrow> bool \<Rightarrow> int \<Rightarrow> conv" where
  "str_tol s i endptr base =
     (let i = skip_space s i;
          neg = (at s i = CHR ''-'');
          i = (if neg then i + 1 else i);
          r = str_toul s i endptr base;
          v = conv_val r
      in if v \<ge> ABS_LONG_MIN then
           (if v = ABS_LONG_MIN \<and> neg then r\<lparr>conv_errno := 0\<rparr>
            else r\<lparr>conv_val := (if neg then LONG_MIN else LONG_MAX), conv_errno := ERANGE\<rparr>)
         else r\<lparr>conv_val := (if neg then - v else v)\<rparr>)"

text \<open>\<open>str_toull\<close> accumulates in a signed \<open>long long\<close>.\<close>

definition toull_digit :: "char \<Rightarrow> int" where
  "toull_digit c = (
     if ord c \<ge> ord (CHR ''a'') then int (ord c) - int (ord (CHR ''a'')) + 10
     else if ord c \<ge> ord (CHR ''A'') then int (ord c) - int (ord (CHR ''A'')) + 10
     else int (ord c) - int (ord (CHR ''0''))) mod 256"

definition in_long :: "int \<Rightarrow> bool" where
  "in_long x \<longleftrightarrow> - (2 ^ 63) \<le> x \<and> x < 2 ^ 63"

function toull_loop :: "string \<Rightarrow> nat \<Rightarrow> int \<Rightarrow> int \<Rightarrow> (int \<times> nat) option" where
  "toull_loop s i base v =
     (if i < length s \<and> at s i \<noteq> NUL then
        let c = toull_digit (at s i) in
        if c \<ge> base then Some (v, i)
        else if in_long (v * base) \<and> in_long (v * base + c)
          then toull_loop s (Suc i) base (v * base + c) else None
      else Some (v, i))"
  by pat_completeness auto
termination by (relation "measure (\<lambda>(s, i, _). length s - i)") auto

definition str_toull :: "string \<Rightarrow> nat \<Rightarrow> int \<Rightarrow> (64 word \<times> nat) option" where
  "str_toull s i base =
     (let i = skip_space s i;
          i = (if at s i = CHR ''+'' then i + 1 else i);
          (i, base) = (if base = 0 then
             (if at s i = CHR ''0'' then
                (if at s (i + 1) = CHR ''x'' \<or> at s (i + 1) = CHR ''X'' then (i + 2, 16) else (i, 8))
              else (i, 10)) else (i, base))
      in map_option (\<lambda>(v, i). (of_int v, i)) (toull_loop s i base 0))"

declare ltoa_fill.simps [simp del] toi_skip.simps [simp del] toi_digits.simps [simp del]
  skip_space.simps [simp del] toul_loop.simps [simp del] toull_loop.simps [simp del]

section \<open>Decimal numerals\<close>

definition digit_chr :: "nat \<Rightarrow> char" where
  "digit_chr d = char_of (ord (CHR ''0'') + d)"

fun decimal :: "nat \<Rightarrow> string" where
  "decimal n = (if n < 10 then [digit_chr n] else decimal (n div 10) @ [digit_chr (n mod 10)])"

declare decimal.simps [simp del]

lemma decimal_small: "n < 10 \<Longrightarrow> decimal n = [digit_chr n]"
  by (simp add: decimal.simps)

lemma decimal_step: "n \<ge> 10 \<Longrightarrow> decimal n = decimal (n div 10) @ [digit_chr (n mod 10)]"
  by (subst decimal.simps) simp

lemma decimal_not_Nil [simp]: "decimal n \<noteq> []"
  by (cases "n < 10") (simp_all add: decimal_small decimal_step)

lemma decimal_length: "n < 10 ^ Suc k \<Longrightarrow> length (decimal n) \<le> Suc k"
proof (induction k arbitrary: n)
  case 0
  then show ?case by (simp add: decimal_small)
next
  case (Suc k)
  show ?case
  proof (cases "n < 10")
    case True
    then show ?thesis by (simp add: decimal_small)
  next
    case False
    have "n div 10 < 10 ^ Suc k"
      using Suc.prems by (simp add: less_mult_imp_div_less mult.commute)
    with Suc.IH[of "n div 10"] False show ?thesis by (simp add: decimal_step)
  qed
qed

lemma ord_digit_chr: "d < 10 \<Longrightarrow> ord (digit_chr d) = 48 + d"
  by (simp add: digit_chr_def)

lemma digit_chr_class:
  assumes "d < 10"
  shows "isnum (digit_chr d)" "digit_chr d \<noteq> NUL" "digit_chr d \<noteq> CHR ''-''"
    "digit_chr d \<noteq> CHR ''+''" "\<not> str_isspace (digit_chr d)"
proof -
  have o: "ord (digit_chr d) = 48 + d" using assms by (rule ord_digit_chr)
  show "isnum (digit_chr d)" using o assms by (simp add: isnum_def)
  have ne: "digit_chr d \<noteq> c" if "ord c < 48" for c using o that by auto
  show "digit_chr d \<noteq> NUL" "digit_chr d \<noteq> CHR ''-''" "digit_chr d \<noteq> CHR ''+''"
    by (rule ne; simp)+
  show "\<not> str_isspace (digit_chr d)"
    unfolding str_isspace_def by (intro notI; elim disjE; (rule ne[THEN notE]; simp))
qed

lemma decimal_digits: "c \<in> set (decimal n) \<Longrightarrow> \<exists>d < 10. c = digit_chr d"
proof (induction n rule: decimal.induct)
  case (1 n)
  have "\<exists>d < 10. digit_chr (n mod 10) = digit_chr d" by (rule exI[of _ "n mod 10"]) simp
  with 1 show ?case by (cases "n < 10") (auto simp: decimal_small decimal_step)
qed

lemma no_nul_decimal [simp]: "no_nul (decimal n)"
  by (auto simp: no_nul_def dest!: decimal_digits dest: digit_chr_class(2))

section \<open>The printers write numerals\<close>

lemma ltoa_fill_correct:
  assumes "bi + length (decimal (unat l)) \<le> length b"
  shows "ltoa_fill b bi l = Some (take bi b @ rev (decimal (unat l)) @
      drop (bi + length (decimal (unat l))) b, bi + length (decimal (unat l)))"
  using assms
proof (induction b bi l rule: ltoa_fill.induct)
  case (1 b bi l)
  have c: "char_of (ord (CHR ''0'') + unat (l mod 10)) = digit_chr (unat l mod 10)"
    by (simp add: digit_chr_def)
  have bi: "bi < length b" using 1 by (cases "decimal (unat l)") auto
  show ?case
  proof (cases "unat l < 10")
    case True
    then have "unat l div 10 = 0" by simp
    then show ?thesis
      using bi True
      by (subst ltoa_fill.simps, subst c) (simp add: decimal_small upd_conv_take_nth_drop)
  next
    case False
    then have d: "unat l div 10 \<noteq> 0" by simp
    have *: "decimal (unat l) = decimal (unat (l div 10)) @ [digit_chr (unat l mod 10)]"
      using False by (simp add: decimal_step)
    have "ltoa_fill (b[bi := digit_chr (unat l mod 10)]) (Suc bi) (l div 10) =
      Some (take (Suc bi) (b[bi := digit_chr (unat l mod 10)]) @ rev (decimal (unat (l div 10))) @
        drop (Suc bi + length (decimal (unat (l div 10)))) (b[bi := digit_chr (unat l mod 10)]),
        Suc bi + length (decimal (unat (l div 10))))"
    proof (rule "1.IH")
      show "wr b bi (char_of (ord (CHR ''0'') + unat (l mod 10))) =
          Some (b[bi := digit_chr (unat l mod 10)])" using bi c by simp
      show "l div 10 \<noteq> 0" using d by simp
    qed (use 1 * in simp)
    then show ?thesis
      using bi d unfolding *
      by (subst ltoa_fill.simps, subst c) (simp add: take_Suc_conv_app_nth)
  qed
qed

lemma ltoa_copy_correct:
  assumes "p + bi \<le> length s" "bi \<le> length b"
  shows "ltoa_copy s p b bi = Some (take p s @ rev (take bi b) @ drop (p + bi) s, p + bi)"
  using assms
proof (induction s p b bi rule: ltoa_copy.induct)
  case (2 s p b bi)
  then have "ltoa_copy (s[p := b ! bi]) (Suc p) b bi =
      Some (take (Suc p) (s[p := b ! bi]) @ rev (take bi b) @ drop (Suc p + bi) (s[p := b ! bi]),
        Suc p + bi)"
    by (intro "2.IH"[of "b ! bi"]) simp_all
  with 2 show ?case by (simp add: take_Suc_conv_app_nth)
qed simp

text \<open>20 digits are enough for 64 bits, so \<open>bbuf\<close> never overflows.\<close>

lemma decimal_unat_length: "length (decimal (unat (l :: 64 word))) \<le> 20"
proof -
  have "unat l < 2 ^ 64" using unsigned_less[where ?'a = nat, of l] by simp
  also have "(2 :: nat) ^ 64 \<le> 10 ^ Suc 19" by simp
  finally show ?thesis using decimal_length[of "unat l" 19] by simp
qed

lemma print_digits:
  assumes "p + length (decimal (unat (l :: 64 word))) < length s"
  shows "(do { (bbuf, bi) \<leftarrow> ltoa_fill (replicate 32 NUL) 0 l;
     (s, p) \<leftarrow> ltoa_copy s p bbuf bi; s \<leftarrow> wr s p NUL; Some (s, p) }) =
   Some (take p s @ decimal (unat l) @ NUL # drop (Suc (p + length (decimal (unat l)))) s,
     p + length (decimal (unat l)))"
proof -
  let ?d = "decimal (unat l)"
  have "length ?d \<le> 32" using decimal_unat_length[of l] by simp
  then have "ltoa_fill (replicate 32 NUL) 0 l =
      Some (rev ?d @ replicate (32 - length ?d) NUL, length ?d)"
    using ltoa_fill_correct[of 0 l "replicate 32 NUL"] by simp
  moreover have "ltoa_copy s p (rev ?d @ replicate (32 - length ?d) NUL) (length ?d) =
      Some (take p s @ ?d @ drop (p + length ?d) s, p + length ?d)"
    using ltoa_copy_correct[of p "length ?d" s "rev ?d @ replicate (32 - length ?d) NUL"] assms
    by simp
  moreover have "wr (take p s @ ?d @ drop (p + length ?d) s) (p + length ?d) NUL =
      Some (take p s @ ?d @ NUL # drop (Suc (p + length ?d)) s)"
  proof -
    have "drop (p + length ?d) s = s ! (p + length ?d) # drop (Suc (p + length ?d)) s"
      using assms by (simp add: Cons_nth_drop_Suc)
    then have "take p s @ ?d @ drop (p + length ?d) s =
        (take p s @ ?d) @ s ! (p + length ?d) # drop (Suc (p + length ?d)) s" by simp
    moreover have "p + length ?d = length (take p s @ ?d)" using assms by simp
    ultimately show ?thesis by (metis wr_append append_assoc)
  qed
  ultimately show ?thesis by simp
qed

text \<open>The numeral of a signed number.\<close>

definition signed_decimal :: "int \<Rightarrow> string" where
  "signed_decimal x = (if x < 0 then CHR ''-'' # decimal (nat (- x)) else decimal (nat x))"

lemma print_unsigned:
  assumes "length (decimal (unat l)) < length s"
  shows "str_lutoa s l = Some (decimal (unat l) @ NUL # drop (Suc (length (decimal (unat l)))) s,
      length (decimal (unat l)))"
    and "str_llutoa s l = Some (decimal (unat l) @ NUL # drop (Suc (length (decimal (unat l)))) s,
      length (decimal (unat l)))"
  using print_digits[of 0 l s] assms by (simp_all add: str_lutoa_def str_llutoa_def)

lemma sint_bounds: "- (2 ^ 63) \<le> sint (l :: 64 word)" "sint (l :: 64 word) < 2 ^ 63"
  using sint_greater_eq[of l] sint_less[of l] by simp_all

lemma unat_sint:
  "sint (l :: 64 word) \<ge> 0 \<Longrightarrow> unat l = nat (sint l)"
  "sint (l :: 64 word) < 0 \<Longrightarrow> unat (- l) = nat (- sint l)"
proof -
  have b: "- (2 ^ 63) \<le> sint l" "sint l < 2 ^ 63" by (rule sint_bounds)+
  show "unat l = nat (sint l)" if "sint l \<ge> 0"
  proof -
    have "uint (word_of_int (sint l) :: 64 word) = sint l mod 2 ^ 64"
      unfolding uint_word_of_int by simp
    then show ?thesis using b that by (simp add: unat_eq_nat_uint)
  qed
  show "unat (- l) = nat (- sint l)" if "sint l < 0"
  proof -
    have "uint (word_of_int (- sint l) :: 64 word) = (- sint l) mod 2 ^ 64"
      unfolding uint_word_of_int by simp
    moreover have "word_of_int (- sint l) = - l" by simp
    moreover have "(- sint l) mod 2 ^ 64 = - sint l" using b that by simp
    ultimately show ?thesis by (simp add: unat_eq_nat_uint)
  qed
qed

lemma print_signed:
  assumes "length (signed_decimal (sint l)) < length s" "sint l \<noteq> - (2 ^ 63)"
  shows "str_ltoa s l = Some (signed_decimal (sint l) @ NUL #
      drop (Suc (length (signed_decimal (sint l)))) s, length (signed_decimal (sint l)))"
    and "str_lltoa s l = Some (signed_decimal (sint l) @ NUL #
      drop (Suc (length (signed_decimal (sint l)))) s, length (signed_decimal (sint l)))"
proof -
  have pos: "unat l = nat (sint l)" if "\<not> sint l < 0" using that by (simp add: unat_sint)
  have ne: "take 1 (s[0 := CHR ''-'']) = ''-''" if "sint l < 0"
    using assms that by (cases s) (auto simp: signed_decimal_def)
  show "str_ltoa s l = Some (signed_decimal (sint l) @ NUL #
      drop (Suc (length (signed_decimal (sint l)))) s, length (signed_decimal (sint l)))"
    and "str_lltoa s l = Some (signed_decimal (sint l) @ NUL #
      drop (Suc (length (signed_decimal (sint l)))) s, length (signed_decimal (sint l)))"
    using print_digits[of 0 l s] print_digits[of 1 "- l" "s[0 := CHR ''-'']"] assms pos ne
    by (auto simp: str_ltoa_def str_lltoa_def neg_long_def signed_decimal_def unat_sint(2)
        wr_def split: if_splits)
qed

section \<open>The parsers read numerals\<close>

lemma toi_digits_decimal:
  "toi_digits (decimal n @ rest) i = toi_digits rest (i * 10 ^ length (decimal n) + of_nat n)"
proof (induction n arbitrary: rest rule: decimal.induct)
  case (1 n)
  have step: "toi_digits (digit_chr d # r) j = toi_digits r (j * 10 + of_nat d)" if "d < 10" for d r j
    using that by (subst toi_digits.simps) (simp add: digit_chr_class ord_digit_chr)
  show ?case
  proof (cases "n < 10")
    case True
    then show ?thesis by (simp add: decimal_small step)
  next
    case False
    have "(of_nat (n div 10) * 10 + of_nat (n mod 10) :: 32 word) = of_nat (n div 10 * 10 + n mod 10)"
      by (simp only: of_nat_add of_nat_mult of_nat_numeral)
    then have n: "(of_nat n :: 32 word) = of_nat (n div 10) * 10 + of_nat (n mod 10)" by simp
    have "toi_digits (decimal n @ rest) i =
        toi_digits rest ((i * 10 ^ length (decimal (n div 10)) + of_nat (n div 10)) * 10 + of_nat (n mod 10))"
      using False 1[of "digit_chr (n mod 10) # rest"] by (simp add: decimal_step step)
    also have "(i * 10 ^ length (decimal (n div 10)) + of_nat (n div 10)) * 10 + of_nat (n mod 10) =
        i * 10 ^ length (decimal n) + of_nat n"
      unfolding n using False by (simp add: decimal_step distrib_right mult.assoc mult.commute)
    finally show ?thesis .
  qed
qed

lemma cur_decimal: "\<exists>d < 10. cur (decimal n @ r) = digit_chr d"
  using decimal_digits[of "hd (decimal n)" n] by (cases "decimal n") auto

lemma toi_skip_decimal [simp]: "toi_skip (decimal n @ r) = decimal n @ r"
proof -
  obtain d where "d < 10" "cur (decimal n @ r) = digit_chr d" using cur_decimal by blast
  then show ?thesis by (subst toi_skip.simps) (simp add: digit_chr_class)
qed

lemma str_toi_signed:
  assumes "\<not> isnum (cur r)"
  shows "str_toi (signed_decimal x @ r) = of_int x"
proof -
  have stop: "toi_digits r i = i" for i using assms by (subst toi_digits.simps) simp
  show ?thesis
  proof (cases "x < 0")
    case True
    have "toi_skip (CHR ''-'' # decimal (nat (- x)) @ r) = CHR ''-'' # decimal (nat (- x)) @ r"
      by (subst toi_skip.simps) simp
    moreover have "(of_nat (nat (- x)) :: 32 word) = - of_int x"
      using True by (metis of_int_minus of_nat_nat neg_0_le_iff_le nless_le)
    ultimately show ?thesis
      using True by (simp add: str_toi_def signed_decimal_def toi_digits_decimal stop)
  next
    case False
    obtain d where "d < 10" "cur (decimal (nat x) @ r) = digit_chr d" using cur_decimal by blast
    then show ?thesis
      using False by (simp add: str_toi_def signed_decimal_def toi_digits_decimal stop digit_chr_class)
  qed
qed

text \<open>The 64-bit loops, which index the whole string.\<close>

lemma at_append [simp]: "at (pre @ c # r) (length pre) = c" "at (c # r) 0 = c"
  by (simp_all add: at_def)

lemma toul_digit_chr: "d < 10 \<Longrightarrow> toul_digit (digit_chr d) = int d"
  by (simp add: toul_digit_def ord_digit_chr)

lemma unat_of_nat64: "m < 2 ^ 64 \<Longrightarrow> unat (of_nat m :: 64 word) = m"
  by (simp only: unat_of_nat take_bit_nat_eq_self) simp

lemma toul_step:
  assumes "d < 10" "unat v * 10 + d < 2 ^ 64"
  shows "toul_loop (pre @ digit_chr d # r) (length pre) 10 v =
    toul_loop (pre @ digit_chr d # r) (Suc (length pre)) 10 (of_nat (unat v * 10 + d))"
proof -
  have "unat (v * 10) = unat v * 10"
    using assms(2) by (subst unat_word_ariths) (simp add: mod_less)
  then have "\<not> v * 10 < v" by (simp add: word_less_nat_alt)
  then show ?thesis
    using assms by (subst toul_loop.simps) (simp add: toul_digit_chr digit_chr_class)
qed

lemma toul_decimal:
  assumes "unat v * 10 ^ length (decimal n) + n < 2 ^ 64"
  shows "toul_loop (pre @ decimal n @ r) (length pre) 10 v =
    toul_loop (pre @ decimal n @ r) (length (pre @ decimal n)) 10
      (of_nat (unat v * 10 ^ length (decimal n) + n))"
  using assms
proof (induction n arbitrary: r rule: decimal.induct)
  case (1 n)
  show ?case
  proof (cases "n < 10")
    case True
    then show ?thesis using toul_step[of n v pre r] 1 by (simp add: decimal_small)
  next
    case False
    let ?m = "n div 10" and ?d = "n mod 10"
    let ?k = "length (decimal ?m)"
    have n: "unat v * 10 ^ length (decimal n) + n = (unat v * 10 ^ ?k + ?m) * 10 + ?d"
      using False by (simp add: decimal_step algebra_simps)
    define v' :: "64 word" where "v' = of_nat (unat v * 10 ^ ?k + ?m)"
    have lt: "(unat v * 10 ^ ?k + ?m) * 10 + ?d < 2 ^ 64" using "1.prems" unfolding n .
    have "A < B" if "A * 10 + D < B" for A B D :: nat using that by simp
    from this[OF lt] have v': "unat v' = unat v * 10 ^ ?k + ?m"
      unfolding v'_def by (rule unat_of_nat64)
    have "toul_loop (pre @ decimal ?m @ digit_chr ?d # r) (length pre) 10 v =
      toul_loop (pre @ decimal ?m @ digit_chr ?d # r) (length (pre @ decimal ?m)) 10 v'"
      unfolding v'_def using False lt by (intro "1.IH") simp_all
    also have "\<dots> = toul_loop (pre @ decimal ?m @ digit_chr ?d # r)
        (Suc (length (pre @ decimal ?m))) 10 (of_nat (unat v' * 10 + ?d))"
      using toul_step[of ?d v' "pre @ decimal ?m" r] lt by (simp add: v')
    finally show ?thesis
      using False unfolding n v' by (simp add: decimal_step)
  qed
qed

lemma toul_digit_other: "\<not> isnum c \<Longrightarrow> toul_digit c \<ge> 10"
proof -
  assume *: "\<not> isnum c"
  have "(int o' - 48) mod 256 = int o' + 208" if "o' < 48" for o' :: nat
  proof -
    have "(int o' - 48) mod 256 = (int o' - 48 + 256) mod 256"
      by (rule mod_add_self2[symmetric])
    also have "\<dots> = int o' + 208" using that by simp
    finally show ?thesis .
  qed
  moreover have "ord c < 256" by simp
  then have "97 \<le> ord c \<Longrightarrow> (int (ord c) - 87) mod 256 = int (ord c) - 87"
    "65 \<le> ord c \<Longrightarrow> (int (ord c) - 55) mod 256 = int (ord c) - 55"
    by (auto intro!: mod_pos_pos_trivial simp del: ord_less_256)
  ultimately show ?thesis
    using * by (auto simp: toul_digit_def isnum_def)
qed

lemma toul_stop:
  assumes "\<not> isnum (cur r)"
  shows "toul_loop (pre @ r) (length pre) 10 v = Some (v, length pre)"
proof (cases r)
  case Nil
  then show ?thesis by (subst toul_loop.simps) simp
next
  case (Cons c t)
  then show ?thesis using assms toul_digit_other[of c] by (subst toul_loop.simps) (simp add: Let_def)
qed

lemma toul_value:
  assumes "n < 2 ^ 64" "\<not> isnum (cur r)"
  shows "toul_loop (pre @ decimal n @ r) (length pre) 10 0 =
    Some (of_nat n, length (pre @ decimal n))"
  using toul_decimal[of 0 n pre r] toul_stop[OF assms(2), of "pre @ decimal n"] assms(1) by simp

text \<open>Leading blanks and signs of a numeral.\<close>

lemma at_decimal: "\<exists>d < 10. at (pre @ decimal n @ r) (length pre) = digit_chr d"
  using cur_decimal[of n r] by (cases "decimal n @ r") auto

lemma at_space [simp]: "\<not> str_isspace (at s i) \<Longrightarrow> skip_space s i = i"
  by (subst skip_space.simps) simp

lemma str_toul_decimal:
  assumes "n < 2 ^ 64" "\<not> isnum (cur r)"
  shows "str_toul (pre @ decimal n @ r) (length pre) True 10 =
    \<lparr>conv_val = of_nat n, conv_end = Some (length (pre @ decimal n)), conv_errno = 0\<rparr>"
proof -
  obtain d where "d < 10" "at (pre @ decimal n @ r) (length pre) = digit_chr d"
    using at_decimal by blast
  then have "skip_space (pre @ decimal n @ r) (length pre) = length pre"
    "at (pre @ decimal n @ r) (length pre) \<noteq> CHR ''-''"
    "at (pre @ decimal n @ r) (length pre) \<noteq> CHR ''+''"
    by (simp_all add: digit_chr_class)
  then show ?thesis
    using toul_value[OF assms, of pre] by (simp add: str_toul_def toul_base_def)
qed

section \<open>The properties\<close>

lemma signed_decimal_length32: "length (signed_decimal (sint (w :: 32 word))) \<le> 11"
proof -
  have b: "- (2 ^ 31) \<le> sint w" "sint w < 2 ^ 31"
    using sint_greater_eq[of w] sint_less[of w] by simp_all
  then have "nat (sint w) < 10 ^ Suc 9" "nat (- sint w) < 10 ^ Suc 9" by simp_all
  from decimal_length[OF this(1)] decimal_length[OF this(2)] show ?thesis
    by (simp add: signed_decimal_def)
qed

lemma unsigned_decimal_length32: "length (decimal (unat (w :: 32 word))) \<le> 10"
proof -
  have "unat w < 10 ^ Suc 9" using unsigned_less[where ?'a = nat, of w] by simp
  from decimal_length[OF this] show ?thesis by simp
qed

lemma signed_decimal_length64: "length (signed_decimal (sint (w :: 64 word))) \<le> 20"
proof -
  have "nat (sint w) < 10 ^ Suc 18" "nat (- sint w) < 10 ^ Suc 18"
    using sint_bounds[of w] by simp_all
  from decimal_length[OF this(1)] decimal_length[OF this(2)] show ?thesis
    by (simp add: signed_decimal_def)
qed

lemma no_nul_signed_decimal [simp]: "no_nul (signed_decimal x)"
  by (simp add: signed_decimal_def)

text \<open>The printers write exactly the decimal numeral of the number, with a terminator,
  and return its length, in the buffers the formatter gives them: 11 bytes for an unsigned
  and 12 for a signed 32-bit value, 22 for an unsigned 64-bit value, and 24 for a signed one
  other than the least.\<close>

theorem printers_write_numerals:
  assumes "length b11 = 11" "length b12 = 12" "length b22 = 22" "length b24 = 24"
    "sint l \<noteq> - (2 ^ 63)"
  shows "(\<exists>s. str_lutoa b11 (ucast (w :: 32 word)) = Some (s, length (cstr s)) \<and>
      cstr s = decimal (unat w)) \<and>
    (\<exists>s. str_ltoa b12 (scast w) = Some (s, length (cstr s)) \<and> cstr s = signed_decimal (sint w)) \<and>
    (\<exists>s. str_llutoa b22 l = Some (s, length (cstr s)) \<and> cstr s = decimal (unat l)) \<and>
    (\<exists>s. str_lltoa b24 l = Some (s, length (cstr s)) \<and> cstr s = signed_decimal (sint l))"
proof (intro conjI)
  have u: "unat (ucast w :: 64 word) = unat w"
    using unsigned_less[where ?'a = nat, of w]
    by (simp add: unsigned_ucast_eq take_bit_nat_eq_self)
  have s: "sint (scast w :: 64 word) = sint w" by (simp add: sint_up_scast is_up)
  have "sint w \<noteq> - (2 ^ 63)" using sint_greater_eq[of w] by simp
  then show "\<exists>s. str_ltoa b12 (scast w) = Some (s, length (cstr s)) \<and> cstr s = signed_decimal (sint w)"
    using print_signed(1)[of "scast w" b12] signed_decimal_length32[of w] assms(2) s by simp
  show "\<exists>s. str_lutoa b11 (ucast w) = Some (s, length (cstr s)) \<and> cstr s = decimal (unat w)"
    using print_unsigned(1)[of "ucast w" b11] unsigned_decimal_length32[of w] assms(1) u by simp
  show "\<exists>s. str_llutoa b22 l = Some (s, length (cstr s)) \<and> cstr s = decimal (unat l)"
    using print_unsigned(2)[of l b22] decimal_unat_length[of l] assms(3) by simp
  show "\<exists>s. str_lltoa b24 l = Some (s, length (cstr s)) \<and> cstr s = signed_decimal (sint l)"
    using print_signed(2)[of l b24] signed_decimal_length64[of l] assms(4,5) by simp
qed

lemma printers_witness:
  "\<exists>s. str_ltoa (replicate 12 NUL) (scast (- 2147483648 :: 32 word)) = Some (s, length (cstr s)) \<and>
     cstr s = signed_decimal (sint (- 2147483648 :: 32 word))"
  using printers_write_numerals[of "replicate 11 NUL" "replicate 12 NUL" "replicate 22 NUL"
      "replicate 24 NUL" 5 "- 2147483648"] by simp

text \<open>C32. Round trip: \<open>str_toi\<close> applied to what \<open>str_ltoa\<close> printed for a 32-bit
  integer is that integer, and it takes every decimal numeral modulo 2 to the 32.\<close>

theorem toi_inverts_ltoa:
  assumes "length b = 12"
  shows "\<exists>s k. str_ltoa b (scast w) = Some (s, k) \<and> str_toi s = (w :: 32 word) \<and>
    str_toi (signed_decimal x) = of_int x"
proof -
  have s: "sint (scast w :: 64 word) = sint w" by (simp add: sint_up_scast is_up)
  have "sint w \<noteq> - (2 ^ 63)" using sint_greater_eq[of w] by simp
  then have "\<exists>r k. str_ltoa b (scast w) = Some (signed_decimal (sint w) @ NUL # r, k)"
    using print_signed(1)[of "scast w" b] signed_decimal_length32[of w] assms s by simp
  moreover have "str_toi (signed_decimal (sint w) @ NUL # r) = w" for r
    using str_toi_signed[of "NUL # r" "sint w"] by (simp add: isnum_def)
  moreover have "str_toi (signed_decimal x) = of_int x"
    using str_toi_signed[of "[]" x] by (simp add: isnum_def)
  ultimately show ?thesis by blast
qed

lemma toi_inverts_witness:
  "\<exists>s k. str_ltoa (replicate 12 NUL) (scast (- 42 :: 32 word)) = Some (s, k) \<and>
     str_toi s = - 42 \<and> str_toi (signed_decimal 7) = of_int 7"
  using toi_inverts_ltoa[of "replicate 12 NUL" "- 42" 7] by simp

text \<open>C33. \<open>str_toul\<close> in base 10 reads back every 64-bit numeral in front of a byte that
  is not a digit, stores the offset after it and clears the error; \<open>str_tol\<close> does the same
  for numbers of absolute value below 2 to the 31.\<close>

theorem str_toul_reads_numerals:
  assumes "n < 2 ^ 64" "\<not> isnum (cur r)" "\<bar>x\<bar> < 2 ^ 31"
  shows "str_toul (decimal n @ r) 0 True 10 =
      \<lparr>conv_val = of_nat n, conv_end = Some (length (decimal n)), conv_errno = 0\<rparr> \<and>
    str_tol (signed_decimal x @ r) 0 True 10 =
      \<lparr>conv_val = of_int x, conv_end = Some (length (signed_decimal x)), conv_errno = 0\<rparr>"
proof (intro conjI)
  show "str_toul (decimal n @ r) 0 True 10 =
      \<lparr>conv_val = of_nat n, conv_end = Some (length (decimal n)), conv_errno = 0\<rparr>"
    using str_toul_decimal[OF assms(1,2), of "[]"] by simp
next
  let ?n = "nat \<bar>x\<bar>"
  have n: "?n < 2 ^ 64" "?n < 2 ^ 31"
    using assms(3) by simp_all
  note unat_of_nat64[OF n(1)]
  then have lt: "\<not> ABS_LONG_MIN \<le> (of_nat ?n :: 64 word)"
    using n(2) by (simp add: ABS_LONG_MIN_def word_le_nat_alt del: of_nat_nat)
  show "str_tol (signed_decimal x @ r) 0 True 10 =
      \<lparr>conv_val = of_int x, conv_end = Some (length (signed_decimal x)), conv_errno = 0\<rparr>"
  proof (cases "x < 0")
    case True
    then have *: "?n = nat (- x)" by simp
    have "str_toul (CHR ''-'' # decimal ?n @ r) (Suc 0) True 10 =
        \<lparr>conv_val = of_nat ?n, conv_end = Some (Suc (length (decimal ?n))), conv_errno = 0\<rparr>"
      using str_toul_decimal[OF n(1) assms(2), of "''-''"] by simp
    moreover have "skip_space (CHR ''-'' # decimal ?n @ r) 0 = 0"
      by (simp add: str_isspace_def)
    moreover have "- (of_nat ?n :: 64 word) = of_int x" using True by simp
    ultimately show ?thesis
      using True lt by (simp add: str_tol_def signed_decimal_def * Let_def del: of_nat_nat)
  next
    case False
    then have *: "?n = nat x" by simp
    obtain d where d: "d < 10" "at (decimal ?n @ r) 0 = digit_chr d"
      using at_decimal[of "[]" ?n r] by auto
    then have "skip_space (decimal ?n @ r) 0 = 0" "at (decimal ?n @ r) 0 \<noteq> CHR ''-''"
      by (simp_all add: digit_chr_class)
    moreover have "str_toul (decimal ?n @ r) 0 True 10 =
        \<lparr>conv_val = of_nat ?n, conv_end = Some (length (decimal ?n)), conv_errno = 0\<rparr>"
      using str_toul_decimal[OF n(1) assms(2), of "[]"] by simp
    moreover have "(of_nat ?n :: 64 word) = of_int x" using False by simp
    ultimately show ?thesis
      using False lt by (simp add: str_tol_def signed_decimal_def * Let_def del: of_nat_nat)
  qed
qed

lemma str_toul_reads_witness:
  "str_toul (decimal 18446744073709551615 @ '' x'') 0 True 10 =
      \<lparr>conv_val = of_nat 18446744073709551615, conv_end = Some (length (decimal 18446744073709551615)),
       conv_errno = 0\<rparr> \<and>
   str_tol (signed_decimal (- 17) @ '' x'') 0 True 10 =
      \<lparr>conv_val = of_int (- 17), conv_end = Some (length (signed_decimal (- 17))), conv_errno = 0\<rparr>"
  by (rule str_toul_reads_numerals) (simp_all add: isnum_def)

text \<open>Where the 64-bit parsers go wrong: \<open>str_toul\<close> accepts the numeral of 3 times
  10 to the 19, which needs 65 bits, without an error and returns it modulo 2 to the 64;
  \<open>str_tol\<close> reports the representable 3000000000 as out of range and returns
  \<open>-2147483648\<close> as its positive; \<open>str_toull\<close> reads a colon as the digit 10.\<close>

theorem wide_parsers_misread:
  "str_toul ''30000000000000000000'' 0 True 10 =
     \<lparr>conv_val = 11553255926290448384, conv_end = Some 20, conv_errno = 0\<rparr> \<and>
   str_tol ''3000000000'' 0 False 10 =
     \<lparr>conv_val = LONG_MAX, conv_end = None, conv_errno = ERANGE\<rparr> \<and>
   str_tol ''-2147483648'' 0 False 10 =
     \<lparr>conv_val = 2147483648, conv_end = None, conv_errno = 0\<rparr> \<and>
   str_toull ''1:'' 0 16 = Some (26, 2)"
  by code_simp

lemma hexchar_nibble:
  assumes "drop_bit sh msk = 15"
  shows "hexchar v msk sh = str_hexchars ! (unat v div 2 ^ sh mod 16)"
proof -
  have "drop_bit sh (and v msk) = take_bit 4 (drop_bit sh v)"
    using assms by (simp add: take_bit_eq_mask mask_numeral)
  then have "unat (drop_bit sh (and v msk)) = take_bit 4 (drop_bit sh (unat v))"
    using take_bit_nat_eq_self[of "unat v" 64] unsigned_less[where ?'a = nat, of v]
    by (simp add: unsigned_take_bit_eq unsigned_drop_bit_eq)
  also have "\<dots> = unat v div 2 ^ sh mod 16"
    by (simp add: take_bit_eq_mod drop_bit_eq_div)
  finally show ?thesis by (simp add: hexchar_def)
qed

lemma store_all_correct:
  "n + length cs \<le> length b \<Longrightarrow>
     store_all b n cs = Some (take n b @ cs @ drop (n + length cs) b, n + length cs)"
  by (induction cs arbitrary: b n) (auto simp: take_Suc_conv_app_nth)

lemma store_terminated:
  assumes "length ds < length b"
  shows "(do { (s, n) \<leftarrow> store_all b 0 ds; s \<leftarrow> wr s n NUL; Some (s, n) }) =
    Some (ds @ NUL # drop (Suc (length ds)) b, length ds)"
proof -
  have "drop (length ds) b = b ! length ds # drop (Suc (length ds)) b"
    using assms by (simp add: Cons_nth_drop_Suc)
  then show ?thesis using store_all_correct[of 0 ds b] assms by simp
qed

text \<open>The text of a pointer: the low 32 bits in hexadecimal.\<close>

definition ptr_text :: "64 word \<Rightarrow> string" where
  "ptr_text v = (if v = 0 then ''(nil)''
     else ''0x'' @ map (\<lambda>k. str_hexchars ! (unat v div 2 ^ k mod 16)) [28, 24, 20, 16, 12, 8, 4, 0])"

lemma no_nul_ptr_text [simp]: "no_nul (ptr_text v)"
proof -
  have "str_hexchars ! (k mod 16) \<noteq> NUL" for k
  proof -
    have "str_hexchars ! (k mod 16) \<in> set str_hexchars"
      by (rule nth_mem) (simp add: str_hexchars_def)
    then show ?thesis by (auto simp: str_hexchars_def)
  qed
  then show ?thesis by (simp add: ptr_text_def)
qed

lemma ptr_text_length: "length (ptr_text v) \<le> 10"
  by (simp add: ptr_text_def)

lemma print_ptr:
  assumes "11 \<le> length b"
  shows "str_ptoa b v =
    Some (ptr_text v @ NUL # drop (Suc (length (ptr_text v))) b, length (ptr_text v))"
proof (cases "v = 0")
  case True
  then have "str_ptoa b v =
      (do { (s, n) \<leftarrow> store_all b 0 (ptr_text v); s \<leftarrow> wr s n NUL; Some (s, 5) })"
    by (simp add: str_ptoa_def ptr_text_def)
  then show ?thesis
    using store_terminated[of "ptr_text v" b] assms True
    by (auto simp: bind_eq_Some_conv split_beta ptr_text_def simp del: store_all.simps)
next
  case False
  have nibs: "hexchar v 0xf0000000 0x1c = str_hexchars ! (unat v div 2 ^ 28 mod 16)"
      "hexchar v 0x0f000000 0x18 = str_hexchars ! (unat v div 2 ^ 24 mod 16)"
      "hexchar v 0x00f00000 0x14 = str_hexchars ! (unat v div 2 ^ 20 mod 16)"
      "hexchar v 0x000f0000 0x10 = str_hexchars ! (unat v div 2 ^ 16 mod 16)"
      "hexchar v 0x0000f000 0x0c = str_hexchars ! (unat v div 2 ^ 12 mod 16)"
      "hexchar v 0x00000f00 0x08 = str_hexchars ! (unat v div 2 ^ 8 mod 16)"
      "hexchar v 0x000000f0 0x04 = str_hexchars ! (unat v div 2 ^ 4 mod 16)"
      "hexchar v 0x0000000f 0 = str_hexchars ! (unat v div 2 ^ 0 mod 16)"
    by (rule hexchar_nibble; simp)+
  have "str_ptoa b v = (do { (s, n) \<leftarrow> store_all b 0 (ptr_text v); s \<leftarrow> wr s n NUL; Some (s, n) })"
    using False unfolding str_ptoa_def nibs ptr_text_def by simp
  then show ?thesis
    using store_terminated[of "ptr_text v" b] assms ptr_text_length[of v] by simp
qed

text \<open>\<open>str_ptoa\<close>, which also serves \<open>%x\<close>, prints a nonzero value as
  \<open>0x\<close> and the eight hexadecimal digits of its low 32 bits, whatever the upper half of the
  pointer is; zero is printed as \<open>(nil)\<close>. 11 bytes are enough.\<close>

theorem str_ptoa_low_half:
  assumes "11 \<le> length b"
  shows "\<exists>s. str_ptoa b v = Some (s, length (cstr s)) \<and>
    cstr s = (if v = 0 then ''(nil)''
      else ''0x'' @ map (\<lambda>k. str_hexchars ! (unat v div 2 ^ k mod 16)) [28, 24, 20, 16, 12, 8, 4, 0])"
  using print_ptr[OF assms, of v] unfolding ptr_text_def[symmetric] by simp

lemma str_ptoa_witness:
  "\<exists>s. str_ptoa (replicate 11 NUL) 0x7fff00000000abcd = Some (s, length (cstr s)) \<and>
     cstr s = ''0x0000abcd''"
  using str_ptoa_low_half[of "replicate 11 NUL" "0x7fff00000000abcd"] by (simp add: str_hexchars_def)

end
