(* ===== verification/Hash.thy ===== *)
theory Hash
  imports Prelude Cstr
begin

unbundle bit_operations_syntax

text \<open>
  The string hashes of lib/src/str.c, on 64-bit words. \<open>ROR\<close> and \<open>ROL\<close>
  are the same macro, a rotation to the right; for a rotation by zero it shifts left by the
  full width, which C leaves undefined, so what that shift yields is the parameter
  \<open>shl\<close>. Characters are signed, as on x86. The hash tables of commands, channels and
  classes look strings up by these values.
\<close>

section \<open>The hashes\<close>

definition rotate_macro :: "(64 word \<Rightarrow> 64 word) \<Rightarrow> 64 word \<Rightarrow> 64 word \<Rightarrow> 64 word" where
  "rotate_macro shl v n = (let k = unat (n AND (64 - 1)) in
     drop_bit k v OR (if 64 - k = 64 then shl v else push_bit (64 - k) v))"

definition char_value :: "char \<Rightarrow> 64 word" where
  "char_value c = scast (of_nat (ord c) :: 8 word)"

definition hash_step :: "(64 word \<Rightarrow> 64 word) \<Rightarrow> 64 word \<Rightarrow> char \<Rightarrow> 64 word" where
  "hash_step shl ret c = (
     let temp = ret;
         ret = rotate_macro shl ret (char_value c);
         temp = temp XOR char_value c;
         temp = rotate_macro shl temp ret
     in ret - temp)"

definition hash_init :: "64 word" where
  "hash_init = push_bit 32 0xdefaced OR 0xcafebabe"

fun hash_loop :: "(64 word \<Rightarrow> 64 word) \<Rightarrow> string \<Rightarrow> 64 word \<Rightarrow> 64 word" where
  "hash_loop shl s ret =
     (if cur s \<noteq> NUL then hash_loop shl (tl s) (hash_step shl ret (cur s)) else ret)"

definition str_hash :: "(64 word \<Rightarrow> 64 word) \<Rightarrow> string option \<Rightarrow> 64 word" where
  "str_hash shl s = (case s of None \<Rightarrow> hash_init | Some s \<Rightarrow> hash_loop shl s hash_init)"

fun ihash_loop :: "(64 word \<Rightarrow> 64 word) \<Rightarrow> string \<Rightarrow> 64 word \<Rightarrow> 64 word" where
  "ihash_loop shl s ret =
     (if cur s \<noteq> NUL then ihash_loop shl (tl s) (hash_step shl ret (str_tolower (cur s))) else ret)"

definition str_ihash :: "(64 word \<Rightarrow> 64 word) \<Rightarrow> string option \<Rightarrow> 64 word" where
  "str_ihash shl s = (case s of None \<Rightarrow> hash_init | Some s \<Rightarrow> ihash_loop shl s hash_init)"

declare hash_loop.simps [simp del] ihash_loop.simps [simp del]

section \<open>Hashes and comparisons\<close>

lemma hash_loop_cstr: "hash_loop shl s r = fold (\<lambda>c r. hash_step shl r c) (cstr s) r"
proof (induction shl s r rule: hash_loop.induct)
  case (1 shl s r)
  then show ?case by (subst hash_loop.simps, cases s) auto
qed

lemma ihash_loop_cstr:
  "ihash_loop shl s r = fold (\<lambda>c r. hash_step shl r c) (str_lower (cstr s)) r"
proof (induction shl s r rule: ihash_loop.induct)
  case (1 shl s r)
  then show ?case by (subst ihash_loop.simps, cases s) auto
qed

lemma cstr_str_lower: "cstr (str_lower s) = str_lower (cstr s)"
  by (induction s) auto

text \<open>The hashes fit the comparisons: strings that \<open>str_cmp\<close> calls equal have the
  same \<open>str_hash\<close>, strings that \<open>str_icmp\<close> calls equal have the same
  \<open>str_ihash\<close>, and \<open>str_ihash\<close> is \<open>str_hash\<close> of the lower-cased
  string, whatever a shift by the full width yields. A lookup that compares the hash first
  misses nothing.\<close>

theorem hashes_respect_comparison:
  shows "(str_cmp s t = 0 \<longrightarrow> str_hash shl (Some s) = str_hash shl (Some t)) \<and>
    (str_icmp s t = 0 \<longrightarrow> str_ihash shl (Some s) = str_ihash shl (Some t)) \<and>
    str_ihash shl (Some s) = str_hash shl (Some (str_lower s))"
  by (simp add: str_cmp_0 str_icmp_0 str_hash_def str_ihash_def hash_loop_cstr ihash_loop_cstr
      cstr_str_lower)

lemma hashes_respect_witness:
  "str_icmp ''#Chan'' ''#chaN'' = 0 \<and>
   str_ihash (\<lambda>v. v) (Some ''#Chan'') = str_ihash (\<lambda>v. v) (Some ''#chaN'')"
proof -
  have "str_icmp ''#Chan'' ''#chaN'' = 0" by code_simp
  then show ?thesis
    using hashes_respect_comparison[of "''#Chan''" "''#chaN''" "\<lambda>v. v"] by simp
qed

end
