(* ===== verification/Tokenize.thy ===== *)
theory Tokenize
  imports Prelude Cstr "HOL-Library.Monad_Syntax"
begin

text \<open>
  Splitting a line into words in place, from lib/src/str.c: \<open>str_tokenize\<close> for IRC
  lines, \<open>str_tokenize_d\<close> for a set of delimiters and \<open>str_tokenize_s\<close> for
  one. The string is a buffer of all its bytes and a pointer into it an offset; the vector is
  the caller's array of pointers. Every access is checked, and \<open>None\<close> is an access
  outside either. The three routines have the same shape, proved correct once in the locale
  \<open>tokenizer\<close> against the specification \<open>words_of\<close>.
\<close>

section \<open>The common loops\<close>

text \<open>\<open>while(delim(*s)) *s++ = '\0'\<close>.\<close>

function skip_zero :: "(char \<Rightarrow> bool) \<Rightarrow> string \<Rightarrow> nat \<Rightarrow> (string \<times> nat) option" where
  "skip_zero delim b s =
     (if s < length b then
        if delim (b ! s) then skip_zero delim (b[s := NUL]) (Suc s) else Some (b, s)
      else None)"
  by pat_completeness auto
termination by (relation "measure (\<lambda>(_, b, s). length b - s)") auto

text \<open>\<open>while(*s && !delim(*s)) s++\<close>.\<close>

function scan_word :: "(char \<Rightarrow> bool) \<Rightarrow> string \<Rightarrow> nat \<Rightarrow> nat option" where
  "scan_word delim b s =
     (if s < length b then
        if b ! s \<noteq> NUL \<and> \<not> delim (b ! s) then scan_word delim b (Suc s) else Some s
      else None)"
  by pat_completeness auto
termination by (relation "measure (\<lambda>(_, b, s). length b - s)") auto

declare skip_zero.simps [simp del] scan_word.simps [simp del]

text \<open>The end of the last word: up to a line end, which is cleared, then back over blanks.\<close>

function cut_line :: "(char \<Rightarrow> bool) \<Rightarrow> string \<Rightarrow> nat \<Rightarrow> (string \<times> nat) option" where
  "cut_line eol b s =
     (if s < length b then
        if b ! s = NUL then Some (b, s)
        else if eol (b ! s) then Some (b[s := NUL], s)
        else cut_line eol b (Suc s)
      else None)"
  by pat_completeness auto
termination by (relation "measure (\<lambda>(_, b, s). length b - s)") auto

text \<open>\<open>do s--; while(blank(*s))\<close>; stepping below the buffer is \<open>None\<close>.\<close>

fun back_blank :: "(char \<Rightarrow> bool) \<Rightarrow> string \<Rightarrow> nat \<Rightarrow> nat option" where
  "back_blank blank b 0 = None"
| "back_blank blank b (Suc s) =
     (if s < length b then if blank (b ! s) then back_blank blank b s else Some s else None)"

declare cut_line.simps [simp del]

definition cut_last ::
  "(char \<Rightarrow> bool) \<Rightarrow> (char \<Rightarrow> bool) \<Rightarrow> string \<Rightarrow> nat \<Rightarrow> string option" where
  "cut_last eol blank b s = do {
     (b, s) \<leftarrow> cut_line eol b s;
     s \<leftarrow> back_blank blank b s;
     wr b (Suc s) NUL }"

lemma skip_zero_bounds:
  "skip_zero delim b s = Some (b', s') \<Longrightarrow>
     s \<le> s' \<and> s' < length b' \<and> length b' = length b \<and> \<not> delim (b' ! s')"
proof (induction delim b s rule: skip_zero.induct)
  case (1 delim b s)
  show ?case
    using "1.IH" "1.prems"[unfolded skip_zero.simps[of delim b s]] by (auto split: if_splits)
qed

lemma scan_word_bounds:
  "scan_word delim b s = Some s' \<Longrightarrow> s \<le> s' \<and> s' < length b \<and>
     (b ! s \<noteq> NUL \<and> \<not> delim (b ! s) \<longrightarrow> s < s')"
proof (induction delim b s rule: scan_word.induct)
  case (1 delim b s)
  show ?case
    using "1.IH" "1.prems"[unfolded scan_word.simps[of delim b s]] by (auto split: if_splits)
qed

section \<open>The routines\<close>

definition is_ws :: "char \<Rightarrow> bool" where
  "is_ws c \<longleftrightarrow> c = CHR '' '' \<or> c = CHR 0x09 \<or> c = CHR 0x0D \<or> c = CHR 0x0A"

definition is_eol :: "char \<Rightarrow> bool" where
  "is_eol c \<longleftrightarrow> c = CHR 0x0D \<or> c = CHR 0x0A"

definition is_blank :: "char \<Rightarrow> bool" where
  "is_blank c \<longleftrightarrow> c = CHR '' '' \<or> c = CHR 0x09"

type_synonym pvec = "nat option list"

text \<open>The loop of \<open>str_tokenize\<close>, which also stops at a colon that starts a word.\<close>

function tok_loop :: "string \<Rightarrow> pvec \<Rightarrow> nat \<Rightarrow> nat \<Rightarrow> nat \<Rightarrow> (string \<times> pvec \<times> nat \<times> nat) option" where
  "tok_loop b v s c maxtok = do {
     (b, s) \<leftarrow> skip_zero is_ws b s;
     if b ! s = NUL then Some (b, v, s, c)
     else if c = maxtok then Some (b, v, s, c)
     else if b ! s = CHR '':'' then do { v \<leftarrow> wr v c (Some (s + 1)); Some (b, v, s, c + 1) }
     else do {
       v \<leftarrow> wr v c (Some s);
       if c + 1 = maxtok then Some (b, v, s, c + 1)
       else do { s \<leftarrow> scan_word is_ws b s; tok_loop b v s (c + 1) maxtok } } }"
  by pat_completeness auto
termination
  by (relation "measure (\<lambda>(b, v, s, c, maxtok). length b - s)")
    (auto dest!: skip_zero_bounds scan_word_bounds)

definition str_tokenize :: "string \<Rightarrow> pvec \<Rightarrow> nat \<Rightarrow> (string \<times> pvec \<times> nat) option" where
  "str_tokenize b v maxtok = do {
     (b, v, s, c) \<leftarrow> tok_loop b v 0 0 maxtok;
     b \<leftarrow> (if c = maxtok \<or> b ! s = CHR '':'' then cut_last is_eol is_blank b s else Some b);
     v \<leftarrow> wr v c None;
     Some (b, v, c) }"

text \<open>The loop of the two variants.\<close>

function tok_loop_d ::
  "(char \<Rightarrow> bool) \<Rightarrow> string \<Rightarrow> pvec \<Rightarrow> nat \<Rightarrow> nat \<Rightarrow> nat \<Rightarrow> (string \<times> pvec \<times> nat \<times> nat) option" where
  "tok_loop_d delim b v s c maxtok = do {
     (b, s) \<leftarrow> skip_zero delim b s;
     if b ! s = NUL then Some (b, v, s, c)
     else if c = maxtok then Some (b, v, s, c)
     else do {
       v \<leftarrow> wr v c (Some s);
       if c + 1 = maxtok then Some (b, v, s, c + 1)
       else do { s \<leftarrow> scan_word delim b s; tok_loop_d delim b v s (c + 1) maxtok } } }"
  by pat_completeness auto
termination
  by (relation "measure (\<lambda>(delim, b, v, s, c, maxtok). length b - s)")
    (auto dest!: skip_zero_bounds scan_word_bounds)

text \<open>\<open>strchr(delim, c)\<close> is not NULL: it also finds the terminator of
  \<open>delim\<close>.\<close>

definition strchr_found :: "string \<Rightarrow> char \<Rightarrow> bool" where
  "strchr_found delim c \<longleftrightarrow> c \<in> set delim \<or> c = NUL"

definition str_tokenize_d :: "string \<Rightarrow> pvec \<Rightarrow> nat \<Rightarrow> string \<Rightarrow> (string \<times> pvec \<times> nat) option" where
  "str_tokenize_d b v maxtok delim = do {
     (b, v, s, c) \<leftarrow> tok_loop_d (strchr_found delim) b v 0 0 maxtok;
     b \<leftarrow> (if c = maxtok then cut_last (strchr_found delim) (strchr_found delim) b s else Some b);
     v \<leftarrow> wr v c None;
     Some (b, v, c) }"

definition str_tokenize_s :: "string \<Rightarrow> pvec \<Rightarrow> nat \<Rightarrow> char \<Rightarrow> (string \<times> pvec \<times> nat) option" where
  "str_tokenize_s b v maxtok delim = do {
     (b, v, s, c) \<leftarrow> tok_loop_d (\<lambda>c. c = delim) b v 0 0 maxtok;
     b \<leftarrow> (if c = maxtok then cut_last (\<lambda>c. c = delim) (\<lambda>c. c = delim) b s else Some b);
     v \<leftarrow> wr v c None;
     Some (b, v, c) }"

declare tok_loop.simps [simp del] tok_loop_d.simps [simp del]

section \<open>The specification\<close>

text \<open>The words of a string, at most \<open>k\<close> of them: maximal runs without delimiters,
  except that the last one admitted, or one that starts with a colon, takes the rest of the
  line without trailing blanks.\<close>

definition last_word :: "(char \<Rightarrow> bool) \<Rightarrow> (char \<Rightarrow> bool) \<Rightarrow> string \<Rightarrow> string" where
  "last_word eol blank s = rev (dropWhile blank (rev (takeWhile (\<lambda>c. \<not> eol c) s)))"

fun words_of ::
  "bool \<Rightarrow> (char \<Rightarrow> bool) \<Rightarrow> (char \<Rightarrow> bool) \<Rightarrow> (char \<Rightarrow> bool) \<Rightarrow> nat \<Rightarrow> string \<Rightarrow> string list" where
  "words_of colon delim eol blank 0 s = []"
| "words_of colon delim eol blank (Suc k) s = (case dropWhile delim s of
     [] \<Rightarrow> []
   | c # t \<Rightarrow>
       if colon \<and> c = CHR '':'' then [last_word eol blank t]
       else if k = 0 then [last_word eol blank (c # t)]
       else takeWhile (\<lambda>c. \<not> delim c) (c # t) #
         words_of colon delim eol blank k (dropWhile (\<lambda>c. \<not> delim c) (c # t)))"

text \<open>The two loops are instances of one.\<close>

function tok_gen :: "bool \<Rightarrow> (char \<Rightarrow> bool) \<Rightarrow> string \<Rightarrow> pvec \<Rightarrow> nat \<Rightarrow> nat \<Rightarrow> nat \<Rightarrow>
    (string \<times> pvec \<times> nat \<times> nat) option" where
  "tok_gen colon delim b v s c maxtok = do {
     (b, s) \<leftarrow> skip_zero delim b s;
     if b ! s = NUL then Some (b, v, s, c)
     else if c = maxtok then Some (b, v, s, c)
     else if colon \<and> b ! s = CHR '':'' then do { v \<leftarrow> wr v c (Some (s + 1)); Some (b, v, s, c + 1) }
     else do {
       v \<leftarrow> wr v c (Some s);
       if c + 1 = maxtok then Some (b, v, s, c + 1)
       else do { s \<leftarrow> scan_word delim b s; tok_gen colon delim b v s (c + 1) maxtok } } }"
  by pat_completeness auto
termination
  by (relation "measure (\<lambda>(colon, delim, b, v, s, c, maxtok). length b - s)")
    (auto dest!: skip_zero_bounds scan_word_bounds)

declare tok_gen.simps [simp del]

lemma bind_cong_Some:
  "(\<And>x. m = Some x \<Longrightarrow> f x = g x) \<Longrightarrow> Option.bind m f = Option.bind m g"
  by (cases m) auto

lemma tok_loop_gen: "tok_loop b v s c maxtok = tok_gen True is_ws b v s c maxtok"
proof (induction b v s c maxtok rule: tok_loop.induct)
  case (1 b v s c maxtok)
  show ?case
    unfolding tok_loop.simps[of b v s] tok_gen.simps[of _ _ b v s]
    by (auto intro!: bind_cong_Some simp: 1[simplified] split: prod.splits)
qed

lemma tok_loop_d_gen: "tok_loop_d delim b v s c maxtok = tok_gen False delim b v s c maxtok"
proof (induction delim b v s c maxtok rule: tok_loop_d.induct)
  case (1 delim b v s c maxtok)
  show ?case
    unfolding tok_loop_d.simps[of _ b v s] tok_gen.simps[of _ _ b v s]
    by (auto intro!: bind_cong_Some simp: 1[simplified] split: prod.splits)
qed

text \<open>The whole routine, from any point of the buffer.\<close>

definition tok_all :: "bool \<Rightarrow> (char \<Rightarrow> bool) \<Rightarrow> (char \<Rightarrow> bool) \<Rightarrow> (char \<Rightarrow> bool) \<Rightarrow>
    string \<Rightarrow> pvec \<Rightarrow> nat \<Rightarrow> nat \<Rightarrow> nat \<Rightarrow> (string \<times> pvec \<times> nat) option" where
  "tok_all colon delim eol blank b v s c maxtok = do {
     (b, v, s, c) \<leftarrow> tok_gen colon delim b v s c maxtok;
     b \<leftarrow> (if c = maxtok \<or> colon \<and> b ! s = CHR '':'' then cut_last eol blank b s else Some b);
     v \<leftarrow> wr v c None;
     Some (b, v, c) }"

lemma str_tokenize_all:
  "str_tokenize b v maxtok = tok_all True is_ws is_eol is_blank b v 0 0 maxtok"
  "str_tokenize_s b v maxtok delim =
     tok_all False (\<lambda>c. c = delim) (\<lambda>c. c = delim) (\<lambda>c. c = delim) b v 0 0 maxtok"
  by (simp_all add: str_tokenize_def str_tokenize_s_def tok_all_def tok_loop_gen tok_loop_d_gen)

section \<open>Correctness of the common loops\<close>

lemma skip_zero_correct:
  assumes "\<not> delim NUL"
  shows "skip_zero delim (d @ s @ NUL # r) (length d) =
    Some (d @ replicate (length (takeWhile delim s)) NUL @ dropWhile delim s @ NUL # r,
      length d + length (takeWhile delim s))"
proof (induction s arbitrary: d)
  case Nil
  then show ?case using assms by (subst skip_zero.simps) simp
next
  case (Cons c s)
  show ?case
    using Cons[of "d @ [NUL]"] by (subst skip_zero.simps) (simp add: list_update_append)
qed

lemma scan_word_correct:
  "no_nul s \<Longrightarrow> scan_word delim (d @ s @ NUL # r) (length d) =
     Some (length d + length (takeWhile (\<lambda>c. \<not> delim c) s))"
proof (induction s arbitrary: d)
  case Nil
  then show ?case by (subst scan_word.simps) simp
next
  case (Cons c s)
  then show ?case
    using Cons.IH[of "d @ [c]"] by (subst scan_word.simps) simp
qed

lemma cut_line_correct:
  "no_nul s \<Longrightarrow> \<exists>r'. cut_line eol (d @ s @ NUL # r) (length d) =
     Some (d @ takeWhile (\<lambda>c. \<not> eol c) s @ NUL # r',
       length d + length (takeWhile (\<lambda>c. \<not> eol c) s)) \<and>
     length r' + length (takeWhile (\<lambda>c. \<not> eol c) s) = length r + length s"
proof (induction s arbitrary: d)
  case Nil
  then show ?case by (subst cut_line.simps) simp
next
  case (Cons c s)
  then show ?case
    using Cons.IH[of "d @ [c]"] by (subst cut_line.simps) auto
qed

lemma back_blank_correct:
  "\<not> blank x \<Longrightarrow> back_blank blank (d @ x # t @ r) (Suc (length d + length t)) =
     Some (length d + length (rev (dropWhile blank (rev t))))"
proof (induction t arbitrary: r rule: rev_induct)
  case (snoc c t)
  then show ?case using snoc.IH[of "c # r"] by (simp add: nth_append)
qed simp

lemma cut_last_correct:
  assumes "no_nul s" "x \<noteq> NUL" "\<not> eol x" "\<not> blank x"
  shows "\<exists>b'. cut_last eol blank (d @ x # s @ NUL # r) (length d) = Some (d @ x # b') \<and>
    cstr b' = last_word eol blank s \<and> length b' = Suc (length s + length r)"
proof -
  define t where "t = takeWhile (\<lambda>c. \<not> eol c) s"
  obtain r' where r': "cut_line eol (d @ x # s @ NUL # r) (length d) =
      Some (d @ x # t @ NUL # r', Suc (length d + length t))"
    "length r' + length t = length r + length s"
    using cut_line_correct[of "x # s" eol d r] assms by (auto simp: t_def)
  define u where "u = rev (dropWhile blank (rev t))"
  have bk: "back_blank blank (d @ x # t @ NUL # r') (Suc (length d + length t)) =
      Some (length d + length u)"
    using back_blank_correct[of blank x d t "NUL # r'"] assms by (simp add: u_def)
  obtain w where w: "t = u @ w" unfolding u_def
    by (metis rev_append rev_rev_ident takeWhile_dropWhile_id)
  obtain y z where yz: "w @ NUL # r' = y # z" by (cases "w @ NUL # r'") auto
  have "no_nul t" using assms(1) by (simp add: t_def)
  then have "no_nul u" using w by simp
  moreover have "cut_last eol blank (d @ x # s @ NUL # r) (length d) =
      Some (d @ x # u @ NUL # z)"
    using r'(1) bk yz unfolding w
    by (simp add: cut_last_def wr_def nth_append list_update_append)
  moreover have "length (u @ NUL # z) = Suc (length s + length r)"
    using r'(2) w arg_cong[OF yz, of length] by simp
  ultimately show ?thesis
    by (intro exI[of _ "u @ NUL # z"]) (simp add: last_word_def u_def t_def)
qed

section \<open>Correctness of the routines\<close>

text \<open>The words \<open>ws\<close> can be read through the vector from slot \<open>c\<close> on.\<close>

definition words_at :: "string \<Rightarrow> pvec \<Rightarrow> nat \<Rightarrow> string list \<Rightarrow> bool" where
  "words_at b v c ws \<longleftrightarrow>
     (\<forall>j < length ws. \<exists>p < length b. v ! (c + j) = Some p \<and> cstr (drop p b) = ws ! j)"

lemma words_at_Nil [simp]: "words_at b v c []"
  by (simp add: words_at_def)

lemma words_at_Cons:
  "words_at b v c (w # ws) \<longleftrightarrow>
     (\<exists>p < length b. v ! c = Some p \<and> cstr (drop p b) = w) \<and> words_at b v (Suc c) ws"
  unfolding words_at_def length_Cons All_less_Suc2 by simp

lemma hd_dropWhile_not:
  "dropWhile (\<lambda>c. \<not> P c) s = [] \<or> P (hd (dropWhile (\<lambda>c. \<not> P c) s))"
  by (induction s) auto

locale tokenizer =
  fixes colon :: bool and delim eol blank :: "char \<Rightarrow> bool"
  assumes delim_NUL: "\<not> delim NUL"
    and eol_delim: "eol x \<Longrightarrow> delim x"
    and blank_delim: "blank x \<Longrightarrow> delim x"
begin

definition outcome :: "string \<Rightarrow> string \<Rightarrow> string \<Rightarrow> pvec \<Rightarrow> nat \<Rightarrow> nat \<Rightarrow>
    (string \<times> pvec \<times> nat) option \<Rightarrow> bool" where
  "outcome d s r v c maxtok res \<longleftrightarrow> (let ws = words_of colon delim eol blank (maxtok - c) s in
     \<exists>b v'. res = Some (d @ b, v', c + length ws) \<and> length b = Suc (length s + length r) \<and>
       (s = [] \<or> delim (hd s) \<longrightarrow> hd b = NUL) \<and> length v' = length v \<and>
       (\<forall>i < c. v' ! i = v ! i) \<and> v' ! (c + length ws) = None \<and>
       words_at (d @ b) v' c ws)"

lemma cut_word:
  assumes "no_nul (x # t)" "\<not> delim x"
  obtains b where "cut_last eol blank (d @ x # t @ NUL # r) (length d) = Some (d @ x # b)"
    "cstr b = last_word eol blank t" "length b = Suc (length t + length r)"
  using cut_last_correct[of t x eol blank d r] assms eol_delim blank_delim by auto

lemma last_word_Cons: "\<not> delim x \<Longrightarrow> last_word eol blank (x # t) = x # last_word eol blank t"
proof -
  assume "\<not> delim x"
  then have "\<not> eol x" "\<not> blank x" using eol_delim blank_delim by auto
  then show ?thesis
    by (auto simp: last_word_def dropWhile_append)
qed

lemma tok_all_next:
  assumes "skip_zero delim b0 p = Some (b1, p1)" "b1 ! p1 \<noteq> NUL" "c \<noteq> maxtok"
    "\<not> (colon \<and> b1 ! p1 = CHR '':'')" "c < length v" "Suc c \<noteq> maxtok"
    "scan_word delim b1 p1 = Some p2"
  shows "tok_all colon delim eol blank b0 v p c maxtok =
    tok_all colon delim eol blank b1 (v[c := Some p1]) p2 (Suc c) maxtok"
  unfolding tok_all_def tok_gen.simps[of colon delim b0 v p c] using assms by auto

lemma all_correct:
  assumes "no_nul s" "c < maxtok" "maxtok < length v"
  shows "outcome d s r v c maxtok
    (tok_all colon delim eol blank (d @ s @ NUL # r) v (length d) c maxtok)"
  using assms
proof (induction "maxtok - c" arbitrary: c s d v)
  case (Suc k)
  have k: "maxtok - c = Suc k" using Suc.hyps(2) by simp
  define z where "z = length (takeWhile delim s)"
  define d1 where "d1 = d @ replicate z NUL"
  have skip: "skip_zero delim (d @ s @ NUL # r) (length d) =
      Some (d1 @ dropWhile delim s @ NUL # r, length d1)"
    using skip_zero_correct[of delim d s r] delim_NUL by (simp add: d1_def z_def)
  have zs: "z + length (dropWhile delim s) = length s"
    unfolding z_def by (metis length_append takeWhile_dropWhile_id)
  have z0: "z = 0 \<Longrightarrow> s = [] \<or> delim (hd s) \<Longrightarrow> s = []"
    by (cases s) (auto simp: z_def)
  have ne: "maxtok \<noteq> c" "c \<noteq> maxtok" "c < length v" "Suc c < length v" using Suc.prems by auto
  show ?case
  proof (cases "dropWhile delim s")
    case Nil
    then have "tok_all colon delim eol blank (d @ s @ NUL # r) v (length d) c maxtok =
        Some (d @ replicate z NUL @ NUL # r, v[c := None], c)"
      using skip ne by (simp add: tok_all_def tok_gen.simps[of _ _ _ v] d1_def nth_append)
    moreover have "words_of colon delim eol blank (maxtok - c) s = []"
      using Nil k by (simp del: dropWhile_eq_Nil_conv)
    moreover have "z = length s" using zs Nil by simp
    ultimately show ?thesis
      unfolding outcome_def Let_def using ne
      by (intro exI[of _ "replicate z NUL @ NUL # r"] exI[of _ "v[c := None]"]) (auto simp: hd_append)
  next
    case (Cons x t)
    then have x: "\<not> delim x" "no_nul (x # t)"
      using Suc.prems(1) hd_dropWhile[of delim s] set_dropWhileD[of _ delim s]
      by (auto simp: no_nul_def)
    have hd: "s = [] \<or> delim (hd s) \<Longrightarrow> z > 0"
      using z0 Cons by (cases z) auto
    show ?thesis
    proof (cases "colon \<and> x = CHR '':'' \<or> k = 0")
      case True
      define p where "p = (if colon \<and> x = CHR '':'' then Suc (length d1) else length d1)"
      have c1: "\<not> (colon \<and> x = CHR '':'') \<Longrightarrow> Suc c = maxtok" using True k by auto
      obtain b where b: "cut_last eol blank (d1 @ x # t @ NUL # r) (length d1) = Some (d1 @ x # b)"
        "cstr b = last_word eol blank t" "length b = Suc (length t + length r)"
        using cut_word[OF x(2,1)] by blast
      have res: "tok_all colon delim eol blank (d @ s @ NUL # r) v (length d) c maxtok =
          Some (d1 @ x # b, v[c := Some p, Suc c := None], Suc c)"
        using skip ne b(1) c1 x Cons
        by (auto simp: tok_all_def tok_gen.simps[of _ _ _ v] p_def nth_append)
      have "cstr (drop p (d1 @ x # b)) =
          (if colon \<and> x = CHR '':'' then last_word eol blank t else last_word eol blank (x # t))"
        using b(2) x by (auto simp: p_def last_word_Cons)
      moreover have "words_of colon delim eol blank (maxtok - c) s =
          [if colon \<and> x = CHR '':'' then last_word eol blank t else last_word eol blank (x # t)]"
        using True k Cons by auto
      moreover have "p < length (d1 @ x # b)" using b(3) by (simp add: p_def)
      ultimately show ?thesis
        using b(3) zs Cons hd ne res
        by (auto simp: outcome_def words_at_Cons d1_def hd_append)
    next
      case False
      define y where "y = takeWhile (\<lambda>c. \<not> delim c) (x # t)"
      define u where "u = dropWhile (\<lambda>c. \<not> delim c) (x # t)"
      have xt: "x # t = y @ u" by (simp add: y_def u_def)
      have u: "no_nul u" "no_nul y" using x(2) unfolding xt by simp_all
      have hu: "u = [] \<or> delim (hd u)"
        unfolding u_def by (rule hd_dropWhile_not)
      have scan: "scan_word delim (d1 @ (x # t) @ NUL # r) (length d1) = Some (length (d1 @ y))"
        using scan_word_correct[OF x(2)] by (simp add: y_def)
      have step: "tok_all colon delim eol blank (d @ s @ NUL # r) v (length d) c maxtok =
          tok_all colon delim eol blank ((d1 @ y) @ u @ NUL # r) (v[c := Some (length d1)])
            (length (d1 @ y)) (Suc c) maxtok"
        unfolding append_assoc[symmetric] unfolding append_assoc xt[symmetric]
        by (rule tok_all_next[OF skip[unfolded Cons]])
          (use ne False k x scan in \<open>auto simp: nth_append\<close>)
      have IH: "outcome (d1 @ y) u r (v[c := Some (length d1)]) (Suc c) maxtok
          (tok_all colon delim eol blank ((d1 @ y) @ u @ NUL # r) (v[c := Some (length d1)])
            (length (d1 @ y)) (Suc c) maxtok)"
        using Suc.prems k False u by (intro Suc.hyps(1)) auto
      have mk: "maxtok - Suc c = k" using k by simp
      have ws: "words_of colon delim eol blank (maxtok - c) s =
          y # words_of colon delim eol blank k u"
        using False k Cons by (auto simp: y_def u_def)
      obtain b v' where b: "tok_all colon delim eol blank ((d1 @ y) @ u @ NUL # r)
            (v[c := Some (length d1)]) (length (d1 @ y)) (Suc c) maxtok =
          Some ((d1 @ y) @ b, v', Suc c + length (words_of colon delim eol blank k u))"
        "length b = Suc (length u + length r)" "hd b = NUL" "length v' = length v"
        "\<forall>i < Suc c. v' ! i = v[c := Some (length d1)] ! i"
        "v' ! (Suc c + length (words_of colon delim eol blank k u)) = None"
        "words_at ((d1 @ y) @ b) v' (Suc c) (words_of colon delim eol blank k u)"
        using IH hu unfolding outcome_def mk Let_def by auto
      obtain b' where "b = NUL # b'" using b(2,3) by (cases b) auto
      then have "cstr (drop (length d1) (d1 @ y @ b)) = y" using u by simp
      moreover have "length y + length u = Suc (length t)" using arg_cong[OF xt, of length] by simp
      ultimately show ?thesis
        unfolding outcome_def ws Let_def
        using b step zs Cons hd ne
        by (auto simp: words_at_Cons d1_def hd_append intro!: exI[of _ "replicate z NUL @ y @ b"])
    qed
  qed
qed simp

end

interpretation irc: tokenizer True is_ws is_eol is_blank
  by unfold_locales (auto simp: is_ws_def is_eol_def is_blank_def)

lemma single_tokenizer:
  "delim \<noteq> NUL \<Longrightarrow> tokenizer (\<lambda>c. c = delim) (\<lambda>c. c = delim) (\<lambda>c. c = delim)"
  by unfold_locales auto

section \<open>The properties\<close>

text \<open>The words of an IRC line: a colon or the last slot takes the rest.\<close>

definition irc_words :: "nat \<Rightarrow> string \<Rightarrow> string list" where
  "irc_words = words_of True is_ws is_eol is_blank"

text \<open>C34. \<open>str_tokenize\<close> on a terminated line, with room for \<open>maxtok + 1\<close>
  pointers and \<open>maxtok\<close> positive, returns the number of words of the line, at most
  \<open>maxtok\<close>; the pointers lead to the words, each terminated in place, a NULL follows
  them, and nothing outside the line and the vector is touched.\<close>

theorem str_tokenize_words:
  assumes "no_nul s" "0 < maxtok" "maxtok < length v"
  shows "\<exists>b v'. str_tokenize (s @ NUL # r) v maxtok = Some (b, v', length (irc_words maxtok s)) \<and>
    length b = length (s @ NUL # r) \<and> length v' = length v \<and>
    words_at b v' 0 (irc_words maxtok s) \<and> v' ! length (irc_words maxtok s) = None"
  using irc.all_correct[OF assms, of "[]" r]
  by (auto simp: irc.outcome_def Let_def str_tokenize_all irc_words_def)

lemma str_tokenize_words_witness:
  "\<exists>b v'. str_tokenize (''PRIVMSG  #a :hi there '' @ [NUL]) (replicate 4 None) 3 =
     Some (b, v', length (irc_words 3 ''PRIVMSG  #a :hi there '')) \<and>
     words_at b v' 0 [''PRIVMSG'', ''#a'', ''hi there'']"
proof -
  have "irc_words 3 ''PRIVMSG  #a :hi there '' = [''PRIVMSG'', ''#a'', ''hi there'']"
    by code_simp
  then show ?thesis
    using str_tokenize_words[of "''PRIVMSG  #a :hi there ''" 3 "replicate 4 None" "[]"] by auto
qed

lemma words_of_length: "length (words_of colon P E B k s) \<le> k"
  by (induction k arbitrary: s) (auto split: list.splits)

lemma words_of_clean:
  "\<forall>w \<in> set (butlast (words_of colon P E B k s)). w \<noteq> [] \<and> (\<forall>c \<in> set w. \<not> P c)"
proof (induction k arbitrary: s)
  case (Suc k)
  show ?case
  proof
    fix w assume w: "w \<in> set (butlast (words_of colon P E B (Suc k) s))"
    show "w \<noteq> [] \<and> (\<forall>c \<in> set w. \<not> P c)"
    proof (cases "dropWhile P s")
      case Nil
      then show ?thesis using w by (simp del: dropWhile_eq_Nil_conv)
    next
      case (Cons c t)
      then have c: "\<not> P c" using hd_dropWhile[of P s] by simp
      let ?u = "dropWhile (\<lambda>c. \<not> P c) (c # t)"
      from w Cons have "w = takeWhile (\<lambda>c. \<not> P c) (c # t) \<or>
          w \<in> set (butlast (words_of colon P E B k ?u))"
        by (simp split: if_splits)
      then show ?thesis
      proof
        assume "w = takeWhile (\<lambda>c. \<not> P c) (c # t)"
        with c show ?thesis by (auto dest: set_takeWhileD)
      next
        assume "w \<in> set (butlast (words_of colon P E B k ?u))"
        with Suc[of ?u] show ?thesis by blast
      qed
    qed
  qed
qed simp

text \<open>The number of words of a line never exceeds the limit, and no word but the last
  contains a blank or is empty: a word can be used as a command name or a channel name without
  another check for separators.\<close>

theorem irc_words_bounds:
  "length (irc_words k s) \<le> k \<and>
   (\<forall>w \<in> set (butlast (irc_words k s)). w \<noteq> [] \<and> (\<forall>c \<in> set w. \<not> is_ws c))"
  unfolding irc_words_def using words_of_length words_of_clean by blast

lemma irc_words_bounds_witness:
  "\<forall>w \<in> set (butlast (irc_words 15 ''NICK a'')). w \<noteq> [] \<and> (\<forall>c \<in> set w. \<not> is_ws c)"
  using irc_words_bounds[of 15 "''NICK a''"] by blast

lemma dropWhile_none: "\<forall>c \<in> set s. \<not> P c \<Longrightarrow> dropWhile P s = s"
  by (cases s) auto

lemma last_word_same: "last_word P P s = takeWhile (\<lambda>c. \<not> P c) s"
proof -
  have "dropWhile P (rev (takeWhile (\<lambda>c. \<not> P c) s)) = rev (takeWhile (\<lambda>c. \<not> P c) s)"
    by (rule dropWhile_none) (auto dest: set_takeWhileD)
  then show ?thesis by (simp add: last_word_def)
qed

lemma words_of_same_clean:
  "\<forall>w \<in> set (words_of False P P P k s). w \<noteq> [] \<and> (\<forall>c \<in> set w. \<not> P c)"
proof (induction k arbitrary: s)
  case (Suc k)
  show ?case
  proof
    fix w assume w: "w \<in> set (words_of False P P P (Suc k) s)"
    show "w \<noteq> [] \<and> (\<forall>c \<in> set w. \<not> P c)"
    proof (cases "dropWhile P s")
      case Nil
      then show ?thesis using w by (simp del: dropWhile_eq_Nil_conv)
    next
      case (Cons c t)
      then have c: "\<not> P c" using hd_dropWhile[of P s] by simp
      let ?u = "dropWhile (\<lambda>c. \<not> P c) (c # t)"
      from w Cons have "w = takeWhile (\<lambda>c. \<not> P c) (c # t) \<or> w \<in> set (words_of False P P P k ?u)"
        by (simp add: last_word_same split: if_splits)
      then show ?thesis
      proof
        assume "w = takeWhile (\<lambda>c. \<not> P c) (c # t)"
        with c show ?thesis by (auto dest: set_takeWhileD)
      next
        assume "w \<in> set (words_of False P P P k ?u)"
        with Suc[of ?u] show ?thesis by blast
      qed
    qed
  qed
qed simp

text \<open>\<open>str_tokenize_s\<close> splits at one delimiter: it returns at most
  \<open>maxtok\<close> words, in place and terminated, none of them empty and none containing the
  delimiter, followed by NULL.\<close>

theorem str_tokenize_s_words:
  assumes "no_nul s" "0 < maxtok" "maxtok < length v" "delim \<noteq> NUL"
  shows "\<exists>b v' ws. str_tokenize_s (s @ NUL # r) v maxtok delim = Some (b, v', length ws) \<and>
    ws = words_of False (\<lambda>c. c = delim) (\<lambda>c. c = delim) (\<lambda>c. c = delim) maxtok s \<and>
    length ws \<le> maxtok \<and> words_at b v' 0 ws \<and> v' ! length ws = None \<and>
    (\<forall>w \<in> set ws. w \<noteq> [] \<and> delim \<notin> set w)"
proof -
  note t = single_tokenizer[OF assms(4)]
  have "\<forall>w \<in> set (words_of False (\<lambda>c. c = delim) (\<lambda>c. c = delim) (\<lambda>c. c = delim) maxtok s).
      w \<noteq> [] \<and> delim \<notin> set w"
    using words_of_same_clean[of "\<lambda>c. c = delim" maxtok s] by blast
  then show ?thesis
    using tokenizer.all_correct[OF t assms(1-3), where d = "[]" and colon = False and r = r]
      words_of_length[of False "\<lambda>c. c = delim" "\<lambda>c. c = delim" "\<lambda>c. c = delim" maxtok s]
    by (auto simp: tokenizer.outcome_def[OF t] Let_def str_tokenize_all)
qed

lemma str_tokenize_s_witness:
  "\<exists>b v' ws. str_tokenize_s (''#a,,#b,#c'' @ [NUL]) (replicate 4 None) 2 (CHR '','') =
     Some (b, v', length ws) \<and> ws = [''#a'', ''#b'']"
proof -
  have "words_of False (\<lambda>c. c = CHR '','') (\<lambda>c. c = CHR '','') (\<lambda>c. c = CHR '','') 2
      ''#a,,#b,#c'' = [''#a'', ''#b'']" by code_simp
  then show ?thesis
    using str_tokenize_s_words[of "''#a,,#b,#c''" 2 "replicate 4 None" "CHR '',''" "[]"] by auto
qed

text \<open>\<open>str_tokenize_d\<close> skips terminators like delimiters.\<close>

lemma strchr_found_simps:
  "strchr_found delim NUL" "c \<noteq> NUL \<Longrightarrow> strchr_found delim c \<longleftrightarrow> c \<in> set delim"
  by (simp_all add: strchr_found_def)

lemma skip_zero_strchr:
  "no_nul s \<Longrightarrow> skip_zero (strchr_found delim) (d @ s @ [NUL]) (length d) =
     (if dropWhile (\<lambda>c. c \<in> set delim) s = [] then None
      else Some (d @ replicate (length (takeWhile (\<lambda>c. c \<in> set delim) s)) NUL @
          dropWhile (\<lambda>c. c \<in> set delim) s @ [NUL],
        length d + length (takeWhile (\<lambda>c. c \<in> set delim) s)))"
proof (induction s arbitrary: d)
  case Nil
  then show ?case
    by (subst skip_zero.simps) (simp add: strchr_found_simps skip_zero.simps[of _ _ "Suc _"])
next
  case (Cons c s)
  then show ?case
    using Cons.IH[of "d @ [NUL]"]
    by (subst skip_zero.simps) (auto simp: strchr_found_simps list_update_append)
qed

lemma tok_gen_overrun:
  assumes "no_nul s" "c < maxtok" "maxtok < length v"
    "length (words_of False (\<lambda>c. c \<in> set delim) E B (maxtok - c) s) < maxtok - c"
  shows "tok_gen False (strchr_found delim) (d @ s @ [NUL]) v (length d) c maxtok = None"
  using assms
proof (induction "maxtok - c" arbitrary: c s d v)
  case (Suc k)
  let ?P = "\<lambda>c. c \<in> set delim"
  have k: "maxtok - c = Suc k" using Suc.hyps(2) by simp
  show ?case
  proof (cases "dropWhile ?P s")
    case Nil
    then show ?thesis
      using skip_zero_strchr[OF Suc.prems(1), of delim d]
      by (subst tok_gen.simps) (simp del: dropWhile_eq_Nil_conv)
  next
    case (Cons x t)
    define d1 where "d1 = d @ replicate (length (takeWhile ?P s)) NUL"
    have x: "x \<notin> set delim" "no_nul (x # t)"
      using Cons hd_dropWhile[of ?P s] set_dropWhileD[of _ ?P s] Suc.prems(1)
      by (auto simp: no_nul_def)
    have "k \<noteq> 0"
    proof
      assume "k = 0"
      then show False using Suc.prems(4) k Cons by simp
    qed
    define y where "y = takeWhile (\<lambda>c. \<not> ?P c) (x # t)"
    define u where "u = dropWhile (\<lambda>c. \<not> ?P c) (x # t)"
    have xt: "x # t = y @ u" by (simp add: y_def u_def)
    have skip: "skip_zero (strchr_found delim) (d @ s @ [NUL]) (length d) =
        Some (d1 @ (x # t) @ [NUL], length d1)"
      using skip_zero_strchr[OF Suc.prems(1), of delim d] Cons by (simp add: d1_def)
    have "takeWhile (\<lambda>c. \<not> strchr_found delim c) (x # t) = y"
      unfolding y_def using x by (intro takeWhile_cong) (auto simp: strchr_found_def no_nul_def)
    then have scan: "scan_word (strchr_found delim) (d1 @ (x # t) @ [NUL]) (length d1) =
        Some (length (d1 @ y))"
      using scan_word_correct[OF x(2), of "strchr_found delim" d1 "[]"] by simp
    have "tok_gen False (strchr_found delim) ((d1 @ y) @ u @ [NUL]) (v[c := Some (length d1)])
        (length (d1 @ y)) (Suc c) maxtok = None"
    proof (rule Suc.hyps(1))
      show "no_nul u" using x(2) unfolding xt by simp
      have "maxtok - Suc c = k" using k by simp
      then show "length (words_of False ?P E B (maxtok - Suc c) u) < maxtok - Suc c"
        using Suc.prems(4) k Cons \<open>k \<noteq> 0\<close> by (simp add: u_def)
      show "k = maxtok - Suc c" "Suc c < maxtok" using k \<open>k \<noteq> 0\<close> by simp_all
    qed (use Suc.prems in simp)
    moreover have "(d1 @ (x # t) @ [NUL]) ! length d1 \<noteq> NUL" using x by simp
    moreover have "c \<noteq> maxtok" "Suc c \<noteq> maxtok" "c < length v"
      using Suc.prems k \<open>k \<noteq> 0\<close> by auto
    ultimately show ?thesis
      using skip scan unfolding xt by (subst tok_gen.simps) simp
  qed
qed simp

text \<open>\<open>str_tokenize_d\<close> mistakes the terminator for a delimiter: on every string
  with fewer than \<open>maxtok\<close> words it runs past the end of its buffer, and when bytes follow
  the terminator it zeroes and returns them as words.\<close>

theorem str_tokenize_d_overruns:
  assumes "no_nul s" "0 < maxtok" "maxtok < length v"
    "length (words_of False (\<lambda>c. c \<in> set delim) E B maxtok s) < maxtok"
  shows "str_tokenize_d (s @ [NUL]) v maxtok delim = None"
  using tok_gen_overrun[of s 0 maxtok v delim E B "[]"] assms
  by (simp add: str_tokenize_d_def tok_loop_d_gen)

lemma str_tokenize_d_witness:
  "str_tokenize_d (''a b'' @ [NUL]) (replicate 5 None) 4 '' '' = None \<and>
   map_option (\<lambda>(_, v, c). (v, c))
     (str_tokenize_d (''a b'' @ NUL # ''junk'' @ [NUL]) (replicate 4 None) 3 '' '') =
     Some ([Some 0, Some 2, Some 4, None], 3)"
proof
  have "length (words_of False (\<lambda>c. c \<in> set '' '') is_eol is_blank 4 ''a b'') < 4" by code_simp
  then show "str_tokenize_d (''a b'' @ [NUL]) (replicate 5 None) 4 '' '' = None"
    by (intro str_tokenize_d_overruns) simp_all
qed code_simp

end
