(* ===== verification/Format.thy ===== *)
theory Format
  imports Prelude Cstr Numconv "HOL-Library.Monad_Syntax"
begin

text \<open>
  The formatter of lib/src/str.c: \<open>str_vsnprintf\<close>, through which the daemon builds
  every line it sends, with its table of registered conversions. The variable arguments are a
  list of tagged values and reading one with the wrong type is \<open>None\<close>, as is an access
  outside the output buffer, a digit buffer or the format string. The registered callbacks are
  values of the model's table. For format strings made of ordinary pieces the output is shown
  to be the concatenation of the pieces, cut to the buffer; the registered conversions and the
  malformed formats are covered by the definitions.
\<close>

section \<open>State\<close>

datatype farg = ArgStr "string option" | Arg32 "32 word" | Arg64 "64 word" | ArgPtr "64 word"

text \<open>The output buffer, the write pointer \<open>p\<close> and the count \<open>bytes\<close>.\<close>

record out =
  ostr :: string
  optr :: nat
  obytes :: nat

text \<open>The locals of one conversion.\<close>

record spec =
  sleft :: bool
  spad :: char
  spadding :: "32 word"
  slonglev :: nat

text \<open>A registered conversion: it gets the buffer state, the limit, the padding, the
  alignment and its argument.\<close>

type_synonym format_cb = "out \<Rightarrow> nat \<Rightarrow> 32 word \<Rightarrow> bool \<Rightarrow> farg \<Rightarrow> out option"

type_synonym format_table = "format_cb option list"

definition str_init :: format_table where
  "str_init = replicate 64 None"

definition str_register :: "format_table \<Rightarrow> char \<Rightarrow> format_cb \<Rightarrow> format_table option" where
  "str_register tab c cb = (if str_isalpha c then wr tab (ord c - 0x40) (Some cb) else Some tab)"

definition str_unregister :: "format_table \<Rightarrow> char \<Rightarrow> format_table option" where
  "str_unregister tab c = (if str_isalpha c then wr tab (ord c - 0x40) None else Some tab)"

section \<open>Output\<close>

text \<open>\<open>*p++ = c; bytes++\<close>.\<close>

definition put :: "out \<Rightarrow> char \<Rightarrow> out option" where
  "put o' c = do {
     s \<leftarrow> wr (ostr o') (optr o') c;
     Some \<lparr>ostr = s, optr = Suc (optr o'), obytes = Suc (obytes o')\<rparr> }"

text \<open>\<open>while(padding-- && bytes < n) { *p++ = pad; bytes++; }\<close>: \<open>padding\<close> is
  decremented by the test also when the loop ends.\<close>

function pad_loop :: "nat \<Rightarrow> char \<Rightarrow> out \<Rightarrow> 32 word \<Rightarrow> (out \<times> 32 word) option" where
  "pad_loop n ch o' padding =
     (if padding \<noteq> 0 \<and> obytes o' < n then do { o' \<leftarrow> put o' ch; pad_loop n ch o' (padding - 1) }
      else Some (o', padding - 1))"
  by pat_completeness auto
termination
  by (relation "measure (\<lambda>(n, ch, o', padding). n - obytes o')")
    (auto simp: put_def bind_eq_Some_conv)

text \<open>\<open>while(len-- && bytes < n) { *p++ = is[idx++]; bytes++; padding--; }\<close>.\<close>

fun copy_loop :: "nat \<Rightarrow> nat \<Rightarrow> string \<Rightarrow> nat \<Rightarrow> out \<Rightarrow> 32 word \<Rightarrow> (out \<times> 32 word) option" where
  "copy_loop 0 n is idx o' padding = Some (o', padding)"
| "copy_loop (Suc len) n is idx o' padding =
     (if obytes o' < n then do {
        c \<leftarrow> rd is idx;
        o' \<leftarrow> put o' c;
        copy_loop len n is (Suc idx) o' (padding - 1) }
      else Some (o', padding))"

text \<open>\<open>while(*p1 && bytes < n) { *p++ = *p1++; bytes++; padding--; }\<close>.\<close>

fun copy_str :: "nat \<Rightarrow> string \<Rightarrow> out \<Rightarrow> 32 word \<Rightarrow> (out \<times> 32 word) option" where
  "copy_str n p1 o' padding =
     (if cur p1 \<noteq> NUL \<and> obytes o' < n then do {
        o' \<leftarrow> put o' (cur p1);
        copy_str n (tl p1) o' (padding - 1) }
      else Some (o', padding))"

declare pad_loop.simps [simp del] copy_str.simps [simp del]

text \<open>The three phases shared by the numeric conversions; only the unsigned ones pad with
  the requested character.\<close>

definition vs_number :: "nat \<Rightarrow> spec \<Rightarrow> char \<Rightarrow> string \<Rightarrow> nat \<Rightarrow> out \<Rightarrow> out option" where
  "vs_number n sp pad is len o' = do {
     (o', padding) \<leftarrow>
       (if \<not> sleft sp \<and> len < unat (spadding sp)
        then pad_loop n pad o' (spadding sp - of_nat len) else Some (o', spadding sp));
     (o', padding) \<leftarrow> copy_loop len n is 0 o' padding;
     (o', padding) \<leftarrow>
       (if sleft sp \<and> padding > 0 then pad_loop n (CHR '' '') o' padding else Some (o', padding));
     Some o' }"

definition vs_string :: "nat \<Rightarrow> spec \<Rightarrow> string option \<Rightarrow> out \<Rightarrow> out option" where
  "vs_string n sp p1 o' = do {
     let len = (case p1 of Some s \<Rightarrow> length (cstr s) | None \<Rightarrow> 6);
     (o', padding) \<leftarrow>
       (if \<not> sleft sp \<and> len < unat (spadding sp)
        then pad_loop n (CHR '' '') o' (spadding sp - of_nat len) else Some (o', spadding sp));
     (o', padding) \<leftarrow> copy_str n (case p1 of Some s \<Rightarrow> s | None \<Rightarrow> ''(null)'') o' padding;
     (o', padding) \<leftarrow>
       (if sleft sp \<and> padding > 0 then pad_loop n (CHR '' '') o' padding else Some (o', padding));
     Some o' }"

section \<open>The conversions\<close>

definition arg_str :: "farg list \<Rightarrow> (string option \<times> farg list) option" where
  "arg_str as = (case as of ArgStr s # as \<Rightarrow> Some (s, as) | _ \<Rightarrow> None)"

definition arg_32 :: "farg list \<Rightarrow> (32 word \<times> farg list) option" where
  "arg_32 as = (case as of Arg32 x # as \<Rightarrow> Some (x, as) | _ \<Rightarrow> None)"

definition arg_64 :: "farg list \<Rightarrow> (64 word \<times> farg list) option" where
  "arg_64 as = (case as of Arg64 x # as \<Rightarrow> Some (x, as) | _ \<Rightarrow> None)"

definition arg_ptr :: "farg list \<Rightarrow> (64 word \<times> farg list) option" where
  "arg_ptr as = (case as of ArgPtr x # as \<Rightarrow> Some (x, as) | _ \<Rightarrow> None)"

text \<open>The conversions, one block of the routine each. The result holds the output, the
  arguments left and \<open>longlev\<close>, which only the numeric conversions clear.\<close>

definition conv_s ::
  "nat \<Rightarrow> spec \<Rightarrow> farg list \<Rightarrow> out \<Rightarrow> (out \<times> farg list \<times> nat) option" where
  "conv_s n sp args o' = do {
     (p1, args) \<leftarrow> arg_str args;
     o' \<leftarrow> vs_string n sp p1 o';
     Some (o', args, slonglev sp) }"

definition conv_llu ::
  "nat \<Rightarrow> spec \<Rightarrow> farg list \<Rightarrow> out \<Rightarrow> (out \<times> farg list \<times> nat) option" where
  "conv_llu n sp args o' = do {
     (x, args) \<leftarrow> arg_64 args;
     (is, len) \<leftarrow> str_llutoa (replicate 22 NUL) x;
     o' \<leftarrow> vs_number n sp (spad sp) is len o';
     Some (o', args, 0) }"

definition conv_u ::
  "nat \<Rightarrow> spec \<Rightarrow> farg list \<Rightarrow> out \<Rightarrow> (out \<times> farg list \<times> nat) option" where
  "conv_u n sp args o' = do {
     (x, args) \<leftarrow> arg_32 args;
     (is, len) \<leftarrow> str_lutoa (replicate 11 NUL) (ucast x);
     o' \<leftarrow> vs_number n sp (spad sp) is len o';
     Some (o', args, 0) }"

definition conv_lld ::
  "nat \<Rightarrow> spec \<Rightarrow> farg list \<Rightarrow> out \<Rightarrow> (out \<times> farg list \<times> nat) option" where
  "conv_lld n sp args o' = do {
     (x, args) \<leftarrow> arg_64 args;
     (is, len) \<leftarrow> str_lltoa (replicate 24 NUL) x;
     o' \<leftarrow> vs_number n sp (CHR '' '') is len o';
     Some (o', args, 0) }"

definition conv_d ::
  "nat \<Rightarrow> spec \<Rightarrow> farg list \<Rightarrow> out \<Rightarrow> (out \<times> farg list \<times> nat) option" where
  "conv_d n sp args o' = do {
     (x, args) \<leftarrow> arg_32 args;
     (is, len) \<leftarrow> str_ltoa (replicate 12 NUL) (scast x);
     o' \<leftarrow> vs_number n sp (CHR '' '') is len o';
     Some (o', args, 0) }"

definition conv_x ::
  "nat \<Rightarrow> spec \<Rightarrow> farg list \<Rightarrow> out \<Rightarrow> (out \<times> farg list \<times> nat) option" where
  "conv_x n sp args o' = do {
     (x, args) \<leftarrow> arg_ptr args;
     (is, len) \<leftarrow> str_ptoa (replicate 12 NUL) x;
     o' \<leftarrow> vs_number n sp (CHR '' '') is len o';
     Some (o', args, 0) }"

definition conv_p ::
  "nat \<Rightarrow> spec \<Rightarrow> farg list \<Rightarrow> out \<Rightarrow> (out \<times> farg list \<times> nat) option" where
  "conv_p n sp args o' = do {
     (x, args) \<leftarrow> arg_ptr args;
     (ps, len) \<leftarrow> str_ptoa (replicate 11 NUL) x;
     (o', _) \<leftarrow> copy_loop len n ps 0 o' 0;
     Some (o', args, slonglev sp) }"

definition conv_c ::
  "nat \<Rightarrow> spec \<Rightarrow> farg list \<Rightarrow> out \<Rightarrow> (out \<times> farg list \<times> nat) option" where
  "conv_c n sp args o' = do {
     (x, args) \<leftarrow> arg_32 args;
     o' \<leftarrow> (if obytes o' < n then put o' (char_of (unat x)) else Some o');
     Some (o', args, slonglev sp) }"

definition conv_registered :: "format_cb \<Rightarrow>
    nat \<Rightarrow> spec \<Rightarrow> farg list \<Rightarrow> out \<Rightarrow> (out \<times> farg list \<times> nat) option" where
  "conv_registered cb n sp args o' = (case args of [] \<Rightarrow> None | a # args \<Rightarrow> do {
     o' \<leftarrow> cb o' n (spadding sp) (sleft sp) a;
     Some (o', args, slonglev sp) })"

text \<open>The dispatch; it is \<open>None\<close> inside when no conversion matches and the character is
  copied.\<close>

definition vs_convert :: "format_table \<Rightarrow> nat \<Rightarrow> char \<Rightarrow> spec \<Rightarrow> farg list \<Rightarrow> out \<Rightarrow>
    (out \<times> farg list \<times> nat) option option" where
  "vs_convert tab n c sp args o' =
     (if c = CHR ''s'' then map_option Some (conv_s n sp args o')
      else if slonglev sp = 2 \<and> c = CHR ''u'' then map_option Some (conv_llu n sp args o')
      else if c = CHR ''u'' then map_option Some (conv_u n sp args o')
      else if slonglev sp = 2 \<and> (c = CHR ''i'' \<or> c = CHR ''d'')
        then map_option Some (conv_lld n sp args o')
      else if c = CHR ''i'' \<or> c = CHR ''d'' then map_option Some (conv_d n sp args o')
      else if c = CHR ''x'' then map_option Some (conv_x n sp args o')
      else if c = CHR ''p'' then map_option Some (conv_p n sp args o')
      else if c = CHR ''c'' then map_option Some (conv_c n sp args o')
      else if str_isalpha c \<and> tab ! (ord c - 0x40) \<noteq> None
        then map_option Some (conv_registered (the (tab ! (ord c - 0x40))) n sp args o')
      else Some None)"

lemmas conv_defs = conv_s_def conv_llu_def conv_u_def conv_lld_def conv_d_def conv_x_def
  conv_p_def conv_c_def conv_registered_def

section \<open>The format string\<close>

text \<open>The format is the list of its bytes with the terminator; a read takes the next byte,
  and a read behind the terminator is \<open>None\<close>.\<close>

fun nextc :: "string \<Rightarrow> (char \<times> string) option" where
  "nextc [] = None"
| "nextc (c # f) = Some (c, f)"

fun get_padding :: "char \<Rightarrow> string \<Rightarrow> 32 word \<Rightarrow> (char \<times> string \<times> 32 word) option" where
  "get_padding c [] padding = (if isnum c then None else Some (c, [], padding))"
| "get_padding c (c' # f) padding =
     (if isnum c then get_padding c' f (padding * 10 + of_nat (ord c - ord (CHR ''0'')))
      else Some (c, c' # f, padding))"

lemma nextc_shorter: "nextc f = Some (c, f') \<Longrightarrow> length f' < length f"
  by (cases f) auto

lemma get_padding_shorter: "get_padding c f p = Some (c', f', p') \<Longrightarrow> length f' \<le> length f"
  by (induction c f p rule: get_padding.induct) (fastforce split: if_splits)+

text \<open>From the label \<open>again\<close> to the conversion character.\<close>

function parse_spec :: "string \<Rightarrow> spec \<Rightarrow> (char \<times> string \<times> spec) option" where
  "parse_spec f sp = do {
     (c, f) \<leftarrow> nextc f;
     (c, f, sp) \<leftarrow> (if c = CHR ''-''
        then do { (c, f) \<leftarrow> nextc f; Some (c, f, sp\<lparr>sleft := True\<rparr>) } else Some (c, f, sp));
     (c, f, sp) \<leftarrow> (if c = CHR ''0''
        then do { (c, f) \<leftarrow> nextc f; Some (c, f, sp\<lparr>spad := CHR ''0''\<rparr>) } else Some (c, f, sp));
     (c, f, padding) \<leftarrow> get_padding c f (spadding sp);
     let sp = sp\<lparr>spadding := padding\<rparr>;
     if c = CHR ''l'' then parse_spec f (sp\<lparr>slonglev := Suc (slonglev sp)\<rparr>)
     else Some (c, f, sp) }"
  by pat_completeness auto
termination
proof (relation "measure (\<lambda>(f, sp). length f)", goal_cases)
  case (2 f sp a c f1 b c2 r2 f2 sp2 d c3 r3 f3 sp3 e c4 r4 f4 p sp5)
  then have "length f1 < length f" "length f2 \<le> length f1" "length f3 \<le> length f2"
    "length f4 \<le> length f3"
    by (auto split: if_splits simp: bind_eq_Some_conv dest!: nextc_shorter get_padding_shorter)
  then show ?case by simp
qed simp

declare parse_spec.simps [simp del]

definition signed_char :: "char \<Rightarrow> int" where
  "signed_char c = (if ord c < 128 then int (ord c) else int (ord c) - 256)"

text \<open>The \<open>I64\<close> modifier; the macro \<open>str_isdigit\<close> evaluates its argument
  \<open>*f++\<close> twice.\<close>

definition parse_I :: "char \<Rightarrow> string \<Rightarrow> spec \<Rightarrow> (char \<times> string \<times> spec) option" where
  "parse_I c f sp =
     (if c = CHR ''I'' then do {
        (c, f) \<leftarrow> nextc f;
        let sp = (if c = CHR ''6'' then sp\<lparr>slonglev := Suc (slonglev sp)\<rparr> else sp);
        (c, f) \<leftarrow> nextc f;
        (isdig, f) \<leftarrow> (if signed_char c \<le> signed_char (CHR ''9'')
           then do { (c, f) \<leftarrow> nextc f; Some (signed_char c \<ge> signed_char (CHR ''0''), f) }
           else Some (False, f));
        let sp = (if isdig then sp\<lparr>slonglev := Suc (slonglev sp)\<rparr> else sp);
        (c, f) \<leftarrow> nextc f;
        Some (c, f, sp) }
      else Some (c, f, sp))"

lemma parse_spec_shorter: "parse_spec f sp = Some (c, f', sp') \<Longrightarrow> length f' < length f"
proof (induction f sp rule: parse_spec.induct)
  case (1 f sp)
  note prems = "1.prems"[unfolded parse_spec.simps[of f sp]]
  from prems obtain c1 f1 c2 f2 sp2 c3 f3 sp3 c4 f4 p where
    c1: "nextc f = Some (c1, f1)" and
    c2: "(if c1 = CHR ''-''
        then do { (c, f) \<leftarrow> nextc f1; Some (c, f, sp\<lparr>sleft := True\<rparr>) } else Some (c1, f1, sp)) =
      Some (c2, f2, sp2)" and
    c3: "(if c2 = CHR ''0''
        then do { (c, f) \<leftarrow> nextc f2; Some (c, f, sp2\<lparr>spad := CHR ''0''\<rparr>) } else Some (c2, f2, sp2)) =
      Some (c3, f3, sp3)" and
    c4: "get_padding c3 f3 (spadding sp3) = Some (c4, f4, p)"
    by (auto simp: bind_eq_Some_conv split: prod.splits)
  have len: "length f1 < length f" "length f2 \<le> length f1" "length f3 \<le> length f2"
      "length f4 \<le> length f3"
    using c1 c2 c3 c4
    by (auto split: if_splits simp: bind_eq_Some_conv dest!: nextc_shorter get_padding_shorter)
  show ?case
  proof (cases "c4 = CHR ''l''")
    case True
    then have "parse_spec f4 (sp3\<lparr>spadding := p, slonglev := Suc (slonglev sp3)\<rparr>) = Some (c, f', sp')"
      using prems c1 c2 c3 c4 by simp
    then have "length f' < length f4"
      using "1.IH"[OF c1 refl c2 refl refl c3 refl refl c4 refl refl refl True] by simp
    then show ?thesis using len by simp
  next
    case False
    then have "f' = f4" using prems c1 c2 c3 c4 by simp
    then show ?thesis using len by simp
  qed
qed

lemma parse_I_shorter:
  assumes "parse_I c f sp = Some (c', f', sp')"
  shows "length f' \<le> length f"
proof (cases "c = CHR ''I''")
  case True
  from assms[unfolded parse_I_def Let_def if_P[OF True]]
  obtain c1 f1 c2 f2 b f3 where "nextc f = Some (c1, f1)" "nextc f1 = Some (c2, f2)"
    and d: "(if signed_char c2 \<le> signed_char (CHR ''9'')
      then do { (c, f) \<leftarrow> nextc f2; Some (signed_char c \<ge> signed_char (CHR ''0''), f) }
      else Some (False, f2)) = Some (b, f3)" and "nextc f3 = Some (c', f')"
    by (elim bind_pairE) (simp only: option.inject prod.inject)
  moreover from d have "length f3 \<le> length f2"
    by (cases "signed_char c2 \<le> signed_char (CHR ''9'')")
      (auto simp: bind_eq_Some_conv dest!: nextc_shorter)
  ultimately show ?thesis by (auto dest!: nextc_shorter)
next
  case False
  then show ?thesis using assms by (simp add: parse_I_def)
qed

section \<open>The routine\<close>

function vs_loop :: "format_table \<Rightarrow> nat \<Rightarrow> string \<Rightarrow> farg list \<Rightarrow> nat \<Rightarrow> out \<Rightarrow> out option" where
  "vs_loop tab n f args longlev o' = do {
     (c, f) \<leftarrow> nextc f;
     if c = NUL \<or> \<not> obytes o' < n then Some o'
     else if c = CHR ''%'' then do {
       (c, f, sp) \<leftarrow> parse_spec f
         \<lparr>sleft = False, spad = CHR '' '', spadding = 0, slonglev = longlev\<rparr>;
       (c, f, sp) \<leftarrow> parse_I c f sp;
       r \<leftarrow> vs_convert tab n c sp args o';
       case r of
         Some (o', args, longlev) \<Rightarrow> vs_loop tab n f args longlev o'
       | None \<Rightarrow> do { o' \<leftarrow> put o' c; vs_loop tab n f args (slonglev sp) o' } }
     else do { o' \<leftarrow> put o' c; vs_loop tab n f args longlev o' } }"
  by pat_completeness auto
termination
  by (relation "measure (\<lambda>(tab, n, f, _). length f)")
    (auto dest!: nextc_shorter parse_spec_shorter parse_I_shorter)

declare vs_loop.simps [simp del]

definition str_vsnprintf ::
  "format_table \<Rightarrow> string \<Rightarrow> nat \<Rightarrow> string \<Rightarrow> farg list \<Rightarrow> (string \<times> nat) option" where
  "str_vsnprintf tab str n format args =
     (if n = 0 then Some (str, 0)
      else do {
        o' \<leftarrow> vs_loop tab (n - 1) (format @ [NUL]) args 0 \<lparr>ostr = str, optr = 0, obytes = 0\<rparr>;
        s \<leftarrow> wr (ostr o') (optr o') NUL;
        Some (s, obytes o') })"

text \<open>\<open>str_vsprintf\<close> passes the largest 32-bit number as the limit.\<close>

definition str_vsprintf :: "format_table \<Rightarrow> string \<Rightarrow> string \<Rightarrow> farg list \<Rightarrow> (string \<times> nat) option" where
  "str_vsprintf tab str format args = str_vsnprintf tab str (2 ^ 32 - 1) format args"

text \<open>\<open>str_snprintf\<close> and \<open>str_sprintf\<close> collect their arguments and call these.\<close>

definition str_snprintf ::
  "format_table \<Rightarrow> string \<Rightarrow> nat \<Rightarrow> string \<Rightarrow> farg list \<Rightarrow> (string \<times> nat) option" where
  "str_snprintf tab str n format args = str_vsnprintf tab str n format args"

definition str_sprintf :: "format_table \<Rightarrow> string \<Rightarrow> string \<Rightarrow> farg list \<Rightarrow> (string \<times> nat) option" where
  "str_sprintf tab str format args = str_vsnprintf tab str (2 ^ 32 - 1) format args"

section \<open>What the phases write\<close>

text \<open>The state after the text \<open>w\<close> has been written to the buffer \<open>s0\<close>.\<close>

definition written :: "string \<Rightarrow> string \<Rightarrow> out" where
  "written s0 w = \<lparr>ostr = w @ drop (length w) s0, optr = length w, obytes = length w\<rparr>"

lemma written_sel [simp]: "obytes (written s0 w) = length w" "optr (written s0 w) = length w"
  "ostr (written s0 w) = w @ drop (length w) s0"
  by (simp_all add: written_def)

lemma put_written [simp]:
  "length w < length s0 \<Longrightarrow> put (written s0 w) c = Some (written s0 (w @ [c]))"
  by (simp add: put_def written_def wr_def list_update_append Cons_nth_drop_Suc[symmetric])

lemma unat_pred: "(p :: 32 word) \<noteq> 0 \<Longrightarrow> unat (p - 1) = unat p - 1"
  by (rule unat_minus_one)

lemma pad_loop_written:
  assumes "n \<le> length s0" "length w \<le> n"
  shows "\<exists>p'. pad_loop n ch (written s0 w) p =
    Some (written s0 (w @ take (n - length w) (replicate (unat p) ch)), p')"
  using assms(2)
proof (induction "unat p" arbitrary: p w)
  case 0
  then show ?case by (subst pad_loop.simps) (simp add: unat_eq_zero)
next
  case (Suc k)
  then have p: "p \<noteq> 0" by auto
  then have k: "k = unat (p - 1)" using Suc.hyps(2) unat_pred by simp
  show ?case
  proof (cases "length w < n")
    case True
    then have "length (w @ [ch]) \<le> n" by simp
    from Suc.hyps(1)[OF k this] obtain p' where
      "pad_loop n ch (written s0 (w @ [ch])) (p - 1) =
        Some (written s0 ((w @ [ch]) @ take (n - length (w @ [ch])) (replicate k ch)), p')"
      unfolding k by blast
    moreover have "n - length w = Suc (n - length (w @ [ch]))" using True by simp
    ultimately show ?thesis
      using True p assms(1) Suc.hyps(2)[symmetric] by (subst pad_loop.simps) simp
  next
    case False
    then show ?thesis using Suc.prems by (subst pad_loop.simps) simp
  qed
qed

lemma copy_loop_written:
  assumes "n \<le> length s0" "length w \<le> n" "idx + len \<le> length is"
  shows "copy_loop len n is idx (written s0 w) p =
    Some (written s0 (w @ take (n - length w) (take len (drop idx is))),
      p - of_nat (min len (n - length w)))"
  using assms(2,3)
proof (induction len arbitrary: idx w p)
  case (Suc len)
  show ?case
  proof (cases "length w < n")
    case True
    then have m: "n - length w = Suc (n - length (w @ [is ! idx]))" by simp
    have "take (Suc len) (drop idx is) = is ! idx # take len (drop (Suc idx) is)"
      using Suc.prems by (simp add: Cons_nth_drop_Suc[symmetric])
    then show ?thesis
      using Suc.IH[of "w @ [is ! idx]" "Suc idx" "p - 1"] Suc.prems True assms(1) m
      by (simp add: diff_diff_eq add.commute)
  next
    case False
    then show ?thesis using Suc.prems by simp
  qed
qed simp

lemma copy_str_written:
  assumes "n \<le> length s0" "length w \<le> n"
  shows "copy_str n t (written s0 w) p =
    Some (written s0 (w @ take (n - length w) (cstr t)),
      p - of_nat (min (length (cstr t)) (n - length w)))"
  using assms(2)
proof (induction t arbitrary: w p)
  case Nil
  then show ?case by (subst copy_str.simps) simp
next
  case (Cons c t)
  show ?case
  proof (cases "c \<noteq> NUL \<and> length w < n")
    case True
    then have "n - length w = Suc (n - length (w @ [c]))" by auto
    then show ?thesis
      using Cons.IH[of "w @ [c]" "p - 1"] Cons.prems True assms(1)
      by (subst copy_str.simps) (simp add: diff_diff_eq add.commute)
  next
    case False
    then show ?thesis using Cons.prems by (subst copy_str.simps) auto
  qed
qed

text \<open>The text of one conversion. On the left side the padding is what the unsigned
  subtraction gives, which wraps around for a text longer than the field.\<close>

definition aligned :: "bool \<Rightarrow> char \<Rightarrow> 32 word \<Rightarrow> string \<Rightarrow> string" where
  "aligned left pad padding text =
     (if left then text @ replicate (unat (padding - of_nat (length text))) (CHR '' '')
      else replicate (unat padding - length text) pad @ text)"

lemma three_phases:
  assumes n: "n \<le> length s0" "length w \<le> n"
    and copy: "\<And>w p. length w \<le> n \<Longrightarrow> copy (written s0 w) p =
      Some (written s0 (w @ take (n - length w) text), p - of_nat (min (length text) (n - length w)))"
  shows "(do {
     (o', padding) \<leftarrow>
       (if \<not> left \<and> length text < unat padding
        then pad_loop n ch (written s0 w) (padding - of_nat (length text))
        else Some (written s0 w, padding));
     (o', padding) \<leftarrow> copy o' padding;
     (o', padding) \<leftarrow>
       (if left \<and> padding > 0 then pad_loop n (CHR '' '') o' padding else Some (o', padding));
     Some o' }) = Some (written s0 (w @ take (n - length w) (aligned left ch padding text)))"
proof (cases left)
  case True
  let ?w = "w @ take (n - length w) text"
  let ?p = "padding - of_nat (min (length text) (n - length w))"
  have w: "length ?w \<le> n" using n by simp
  obtain p' where pad: "pad_loop n (CHR '' '') (written s0 ?w) ?p =
      Some (written s0 (?w @ take (n - length ?w) (replicate (unat ?p) (CHR '' ''))), p')"
    using pad_loop_written[OF n(1) w] by blast
  have "?w @ take (n - length ?w) (replicate (unat ?p) (CHR '' '')) =
      w @ take (n - length w) (aligned left ch padding text)"
    using n True by (cases "length text \<le> n - length w") (simp_all add: aligned_def min_def)
  then show ?thesis
    using pad True copy[OF n(2)] by (cases "?p = 0") (simp_all add: word_gt_0)
next
  case False
  show ?thesis
  proof (cases "length text < unat padding")
    case True
    have "unat (padding - of_nat (length text)) = unat padding - length text"
    proof -
      have "length text < 2 ^ 32" using True unsigned_less[where ?'a = nat, of padding] by simp
      then have u: "unat (of_nat (length text) :: 32 word) = length text"
        by (simp only: unat_of_nat take_bit_nat_eq_self) simp
      then have "(of_nat (length text) :: 32 word) \<le> padding"
        using True by (simp add: word_le_nat_alt)
      then show ?thesis using u by (simp add: unat_sub)
    qed
    then obtain p' where pad: "pad_loop n ch (written s0 w) (padding - of_nat (length text)) =
        Some (written s0 (w @ take (n - length w) (replicate (unat padding - length text) ch)), p')"
      using pad_loop_written[OF n] by metis
    have "length (w @ take (n - length w) (replicate (unat padding - length text) ch)) \<le> n"
      using n by simp
    from copy[OF this] show ?thesis
      using pad False True n
      by (cases "n - length w \<le> unat padding - length text") (simp_all add: aligned_def min_def)
  next
    case F: False
    then show ?thesis using False copy[OF n(2)] by (simp add: aligned_def)
  qed
qed

lemma vs_number_written:
  assumes "n \<le> length s0" "length w \<le> n" "len \<le> length is"
  shows "vs_number n sp ch is len (written s0 w) = Some (written s0 (w @ take (n - length w)
    (aligned (sleft sp) ch (spadding sp) (take len is))))"
proof -
  have l: "length (take len is) = len" using assms(3) by simp
  have c: "copy_loop len n is 0 (written s0 w) p =
      Some (written s0 (w @ take (n - length w) (take len is)),
        p - of_nat (min (length (take len is)) (n - length w)))" if "length w \<le> n" for w p
    using copy_loop_written[OF assms(1) that, of 0 len "is" p] assms(3) by (simp add: l)
  show ?thesis
    unfolding vs_number_def
    using three_phases[OF assms(1,2), of "copy_loop len n is 0" "take len is" "sleft sp" "spadding sp" ch,
      OF c, unfolded l] .
qed

lemma vs_string_written:
  assumes "n \<le> length s0" "length w \<le> n"
  shows "vs_string n sp p1 (written s0 w) = Some (written s0 (w @ take (n - length w)
    (aligned (sleft sp) (CHR '' '') (spadding sp)
      (case p1 of Some s \<Rightarrow> cstr s | None \<Rightarrow> ''(null)''))))"
proof -
  define t where "t = (case p1 of Some s \<Rightarrow> s | None \<Rightarrow> ''(null)'')"
  have t: "(case p1 of Some s \<Rightarrow> cstr s | None \<Rightarrow> ''(null)'') = cstr t"
    "(case p1 of Some s \<Rightarrow> length (cstr s) | None \<Rightarrow> 6) = length (cstr t)"
    by (simp_all add: t_def split: option.splits)
  show ?thesis
    unfolding vs_string_def Let_def t unfolding t_def[symmetric]
    using three_phases[OF assms, of "copy_str n t" "cstr t" "sleft sp" "spadding sp" "CHR '' ''",
      OF copy_str_written[OF assms(1)]] .
qed

section \<open>Format strings made of pieces\<close>

text \<open>A format string is put together from literal bytes and conversions with flags and a
  field width, each conversion with its argument. \<open>%lu\<close> reads the lower half of its argument.\<close>

datatype piece =
    PLit char
  | PStr bool bool nat "string option"
  | PUns bool bool nat "32 word"
  | PLow bool bool nat "32 word"
  | PSig bool bool nat "32 word"
  | PUll bool bool nat "64 word"
  | PSll bool bool nat "64 word"
  | PHex bool bool nat "64 word"
  | PPtr "64 word"
  | PChr "32 word"

definition flags :: "bool \<Rightarrow> bool \<Rightarrow> nat \<Rightarrow> string" where
  "flags left zero width = (if left then ''-'' else []) @ (if zero then ''0'' else []) @
     (if width = 0 then [] else decimal width)"

fun render :: "piece \<Rightarrow> string" where
  "render (PLit c) = [c]"
| "render (PStr l z w s) = ''%'' @ flags l z w @ ''s''"
| "render (PUns l z w x) = ''%'' @ flags l z w @ ''u''"
| "render (PLow l z w x) = ''%'' @ flags l z w @ ''lu''"
| "render (PSig l z w x) = ''%'' @ flags l z w @ ''d''"
| "render (PUll l z w x) = ''%'' @ flags l z w @ ''llu''"
| "render (PSll l z w x) = ''%'' @ flags l z w @ ''lld''"
| "render (PHex l z w x) = ''%'' @ flags l z w @ ''x''"
| "render (PPtr x) = ''%p''"
| "render (PChr x) = ''%c''"

fun piece_arg :: "piece \<Rightarrow> farg list" where
  "piece_arg (PLit c) = []"
| "piece_arg (PStr l z w s) = [ArgStr s]"
| "piece_arg (PUns l z w x) = [Arg32 x]"
| "piece_arg (PLow l z w x) = [Arg32 x]"
| "piece_arg (PSig l z w x) = [Arg32 x]"
| "piece_arg (PUll l z w x) = [Arg64 x]"
| "piece_arg (PSll l z w x) = [Arg64 x]"
| "piece_arg (PHex l z w x) = [ArgPtr x]"
| "piece_arg (PPtr x) = [ArgPtr x]"
| "piece_arg (PChr x) = [Arg32 x]"

definition zero_pad :: "bool \<Rightarrow> char" where
  "zero_pad z = (if z then CHR ''0'' else CHR '' '')"

fun meaning :: "piece \<Rightarrow> string" where
  "meaning (PLit c) = [c]"
| "meaning (PStr l z w s) = aligned l (CHR '' '') (of_nat w)
     (case s of Some s \<Rightarrow> cstr s | None \<Rightarrow> ''(null)'')"
| "meaning (PUns l z w x) = aligned l (zero_pad z) (of_nat w) (decimal (unat x))"
| "meaning (PLow l z w x) = aligned l (zero_pad z) (of_nat w) (decimal (unat x))"
| "meaning (PSig l z w x) = aligned l (CHR '' '') (of_nat w) (signed_decimal (sint x))"
| "meaning (PUll l z w x) = aligned l (zero_pad z) (of_nat w) (decimal (unat x))"
| "meaning (PSll l z w x) = aligned l (CHR '' '') (of_nat w) (signed_decimal (sint x))"
| "meaning (PHex l z w x) = aligned l (CHR '' '') (of_nat w) (ptr_text x)"
| "meaning (PPtr x) = ptr_text x"
| "meaning (PChr x) = [char_of (unat x)]"

fun piece_ok :: "piece \<Rightarrow> bool" where
  "piece_ok (PLit c) \<longleftrightarrow> c \<noteq> NUL \<and> c \<noteq> CHR ''%''"
| "piece_ok (PSll l z w x) \<longleftrightarrow> sint x \<noteq> - (2 ^ 63)"
| "piece_ok _ \<longleftrightarrow> True"

lemma hd_decimal: "n > 0 \<Longrightarrow> \<exists>d > 0. d < 10 \<and> hd (decimal n) = digit_chr d"
proof (induction n rule: decimal.induct)
  case (1 n)
  then show ?case by (cases "n < 10") (auto simp: decimal_small decimal_step)
qed

lemma get_padding_decimal:
  "decimal n = c # t \<Longrightarrow>
     get_padding c (t @ k # r) p = get_padding k r (p * 10 ^ length (decimal n) + of_nat n)"
proof (induction n arbitrary: t k r rule: decimal.induct)
  case (1 n)
  show ?case
  proof (cases "n < 10")
    case True
    then show ?thesis
      using 1 by (auto simp: decimal_small digit_chr_class ord_digit_chr)
  next
    case False
    obtain t' where t': "decimal (n div 10) = c # t'"
      using 1(2) False by (cases "decimal (n div 10)") (auto simp: decimal_step)
    have t: "t = t' @ [digit_chr (n mod 10)]" using 1(2) t' False by (simp add: decimal_step)
    have d: "isnum (digit_chr (n mod 10))" "ord (digit_chr (n mod 10)) = 48 + n mod 10"
      by (simp_all add: digit_chr_class ord_digit_chr)
    have "(of_nat (n div 10) * 10 + of_nat (n mod 10) :: 32 word) = of_nat (n div 10 * 10 + n mod 10)"
      by (simp only: of_nat_add of_nat_mult of_nat_numeral)
    then have n: "(of_nat n :: 32 word) = of_nat (n div 10) * 10 + of_nat (n mod 10)" by simp
    have "get_padding c (t @ k # r) p = get_padding (digit_chr (n mod 10)) (k # r)
        (p * 10 ^ length (decimal (n div 10)) + of_nat (n div 10))"
      using "1.IH"[OF False t', of "digit_chr (n mod 10)" "k # r"] by (simp add: t)
    also have "\<dots> = get_padding k r
        ((p * 10 ^ length (decimal (n div 10)) + of_nat (n div 10)) * 10 + of_nat (n mod 10))"
      using d by simp
    also have "(p * 10 ^ length (decimal (n div 10)) + of_nat (n div 10)) * 10 + of_nat (n mod 10) =
        p * 10 ^ length (decimal n) + of_nat n"
      unfolding n using False by (simp add: decimal_step distrib_right mult.assoc mult.commute)
    finally show ?thesis .
  qed
qed

lemma get_padding_stop: "\<not> isnum k \<Longrightarrow> get_padding k r p = Some (k, r, p)"
  by (cases r) simp_all

lemma isnum_l [simp]: "\<not> isnum (CHR ''l'')"
  by (simp add: isnum_def)

lemma parse_spec_flags:
  assumes k: "\<not> isnum k" "k \<noteq> CHR ''-''"
  shows "parse_spec (flags l z w @ k # f)
      \<lparr>sleft = False, spad = CHR '' '', spadding = 0, slonglev = lev\<rparr> =
    (let sp = \<lparr>sleft = l, spad = zero_pad z, spadding = of_nat w, slonglev = lev\<rparr> in
     if k = CHR ''l'' then parse_spec f (sp\<lparr>slonglev := Suc lev\<rparr>) else Some (k, f, sp))"
proof (cases "w = 0")
  case True
  have "k \<noteq> CHR ''0''" using k by (auto simp: isnum_def)
  then show ?thesis
    using k True by (subst parse_spec.simps) (simp add: flags_def get_padding_stop zero_pad_def Let_def)
next
  case False
  obtain c t where ct: "decimal w = c # t" by (cases "decimal w") auto
  then obtain d where d: "d > 0" "d < 10" "c = digit_chr d" using hd_decimal[of w] False by auto
  have c: "c \<noteq> CHR ''-''" "c \<noteq> CHR ''0''"
    using d digit_chr_class[OF d(2)] ord_digit_chr[OF d(2)] by auto
  have "get_padding c (t @ k # f) 0 = Some (k, f, of_nat w)"
    using get_padding_decimal[OF ct, of k f 0] k by (simp add: get_padding_stop)
  then show ?thesis
    using c False ct
    by (cases "k = CHR ''l''"; subst parse_spec.simps) (simp_all add: flags_def zero_pad_def Let_def)
qed

lemma parse_spec_plain:
  assumes "\<not> isnum k" "k \<noteq> CHR ''-''"
  shows "parse_spec (k # f) sp =
    (if k = CHR ''l'' then parse_spec f (sp\<lparr>slonglev := Suc (slonglev sp)\<rparr>) else Some (k, f, sp))"
proof -
  have "k \<noteq> CHR ''0''" using assms by (auto simp: isnum_def)
  then show ?thesis
    using assms by (subst parse_spec.simps) (simp add: get_padding_stop Let_def)
qed

text \<open>Each conversion, as it appears in a format string, appends its text.\<close>

lemma parse_I_other: "c \<noteq> CHR ''I'' \<Longrightarrow> parse_I c f sp = Some (c, f, sp)"
  by (simp add: parse_I_def)

lemma num_buffers:
  "\<exists>is. str_lutoa (replicate 11 NUL) (ucast (x :: 32 word)) = Some (is, length (decimal (unat x))) \<and>
    take (length (decimal (unat x))) is = decimal (unat x) \<and> length (decimal (unat x)) \<le> length is"
  "\<exists>is. str_ltoa (replicate 12 NUL) (scast (x :: 32 word)) = Some (is, length (signed_decimal (sint x))) \<and>
    take (length (signed_decimal (sint x))) is = signed_decimal (sint x) \<and>
    length (signed_decimal (sint x)) \<le> length is"
  "\<exists>is. str_llutoa (replicate 22 NUL) l = Some (is, length (decimal (unat l))) \<and>
    take (length (decimal (unat l))) is = decimal (unat l) \<and> length (decimal (unat l)) \<le> length is"
  "sint l \<noteq> - (2 ^ 63) \<Longrightarrow>
    \<exists>is. str_lltoa (replicate 24 NUL) l = Some (is, length (signed_decimal (sint l))) \<and>
    take (length (signed_decimal (sint l))) is = signed_decimal (sint l) \<and>
    length (signed_decimal (sint l)) \<le> length is"
  "\<exists>is. str_ptoa (replicate 12 NUL) l = Some (is, length (ptr_text l)) \<and>
    take (length (ptr_text l)) is = ptr_text l \<and> length (ptr_text l) \<le> length is"
  "\<exists>is. str_ptoa (replicate 11 NUL) l = Some (is, length (ptr_text l)) \<and>
    take (length (ptr_text l)) is = ptr_text l \<and> length (ptr_text l) \<le> length is"
proof -
  have u: "unat (ucast x :: 64 word) = unat x"
    using unsigned_less[where ?'a = nat, of x] by (simp add: unsigned_ucast_eq take_bit_nat_eq_self)
  have s: "sint (scast x :: 64 word) = sint x" by (simp add: sint_up_scast is_up)
  have "sint x \<noteq> - (2 ^ 63)" using sint_greater_eq[of x] by simp
  then show "\<exists>is. str_ltoa (replicate 12 NUL) (scast x) = Some (is, length (signed_decimal (sint x))) \<and>
      take (length (signed_decimal (sint x))) is = signed_decimal (sint x) \<and>
      length (signed_decimal (sint x)) \<le> length is"
    using print_signed(1)[of "scast x" "replicate 12 NUL"] signed_decimal_length32[of x] s by simp
  show "\<exists>is. str_lutoa (replicate 11 NUL) (ucast x) = Some (is, length (decimal (unat x))) \<and>
      take (length (decimal (unat x))) is = decimal (unat x) \<and> length (decimal (unat x)) \<le> length is"
    using print_unsigned(1)[of "ucast x" "replicate 11 NUL"] unsigned_decimal_length32[of x] u by simp
  show "\<exists>is. str_llutoa (replicate 22 NUL) l = Some (is, length (decimal (unat l))) \<and>
      take (length (decimal (unat l))) is = decimal (unat l) \<and> length (decimal (unat l)) \<le> length is"
    using print_unsigned(2)[of l "replicate 22 NUL"] decimal_unat_length[of l] by simp
  show "\<exists>is. str_lltoa (replicate 24 NUL) l = Some (is, length (signed_decimal (sint l))) \<and>
      take (length (signed_decimal (sint l))) is = signed_decimal (sint l) \<and>
      length (signed_decimal (sint l)) \<le> length is" if "sint l \<noteq> - (2 ^ 63)"
    using print_signed(2)[of l "replicate 24 NUL"] signed_decimal_length64[of l] that by simp
  show "\<exists>is. str_ptoa (replicate 12 NUL) l = Some (is, length (ptr_text l)) \<and>
      take (length (ptr_text l)) is = ptr_text l \<and> length (ptr_text l) \<le> length is"
    "\<exists>is. str_ptoa (replicate 11 NUL) l = Some (is, length (ptr_text l)) \<and>
      take (length (ptr_text l)) is = ptr_text l \<and> length (ptr_text l) \<le> length is"
    using print_ptr[of "replicate 12 NUL" l] print_ptr[of "replicate 11 NUL" l]
      ptr_text_length[of l] by simp_all
qed

lemma conv_chars [simp]:
  "\<not> isnum (CHR ''s'')" "\<not> isnum (CHR ''u'')" "\<not> isnum (CHR ''d'')" "\<not> isnum (CHR ''x'')"
  "\<not> isnum (CHR ''p'')" "\<not> isnum (CHR ''c'')"
  by (simp_all add: isnum_def)

text \<open>A conversion with flags that \<open>vs_convert\<close> handles and that leaves no pending
  length modifier is one step of the loop.\<close>

lemma vs_loop_conversion:
  assumes "length w < n"
    and "parse_spec f \<lparr>sleft = False, spad = CHR '' '', spadding = 0, slonglev = 0\<rparr> = Some (c, f', sp)"
    and "c \<noteq> CHR ''I''" "vs_convert tab n c sp as (written s0 w) = Some (Some (o', as', 0))"
  shows "vs_loop tab n (CHR ''%'' # f) as 0 (written s0 w) = vs_loop tab n f' as' 0 o'"
  using assms by (subst vs_loop.simps) (simp add: parse_I_other)

lemma piece_step:
  assumes q: "piece_ok q" and n: "n \<le> length s0" "length w < n"
  shows "vs_loop tab n (render q @ f) (piece_arg q @ as) 0 (written s0 w) =
    vs_loop tab n f as 0 (written s0 (w @ take (n - length w) (meaning q)))"
proof -
  have w: "length w \<le> n" using n by simp
  note num = vs_number_written[OF n(1) w]
  note conv = vs_convert_def conv_defs arg_str_def arg_32_def arg_64_def arg_ptr_def Let_def
    parse_spec_flags parse_spec_plain
  show ?thesis
  proof (cases q)
    case (PLit c)
    then show ?thesis using q n by (subst vs_loop.simps) (auto simp: take_Cons')
  next
    case (PStr l z d s)
    show ?thesis unfolding PStr render.simps append_assoc append_Cons append_Nil piece_arg.simps
      by (rule vs_loop_conversion[OF n(2)], simp add: conv, simp, simp add: conv vs_string_written[OF n(1) w])
  next
    case (PUns l z d x)
    obtain "is" where "is": "str_lutoa (replicate 11 NUL) (ucast x) = Some (is, length (decimal (unat x)))"
      "take (length (decimal (unat x))) is = decimal (unat x)" "length (decimal (unat x)) \<le> length is"
      using num_buffers(1) by blast
    show ?thesis unfolding PUns render.simps append_assoc append_Cons append_Nil piece_arg.simps
      by (rule vs_loop_conversion[OF n(2)], simp add: conv, simp, simp add: conv num[OF "is"(3)] "is"(1,2))
  next
    case (PLow l z d x)
    obtain "is" where "is": "str_lutoa (replicate 11 NUL) (ucast x) = Some (is, length (decimal (unat x)))"
      "take (length (decimal (unat x))) is = decimal (unat x)" "length (decimal (unat x)) \<le> length is"
      using num_buffers(1) by blast
    show ?thesis unfolding PLow render.simps append_assoc append_Cons append_Nil piece_arg.simps
      by (rule vs_loop_conversion[OF n(2)], simp add: conv, simp, simp add: conv num[OF "is"(3)] "is"(1,2))
  next
    case (PSig l z d x)
    obtain "is" where "is": "str_ltoa (replicate 12 NUL) (scast x) = Some (is, length (signed_decimal (sint x)))"
      "take (length (signed_decimal (sint x))) is = signed_decimal (sint x)"
      "length (signed_decimal (sint x)) \<le> length is"
      using num_buffers(2) by blast
    show ?thesis unfolding PSig render.simps append_assoc append_Cons append_Nil piece_arg.simps
      by (rule vs_loop_conversion[OF n(2)], simp add: conv, simp, simp add: conv num[OF "is"(3)] "is"(1,2))
  next
    case (PUll l z d x)
    obtain "is" where "is": "str_llutoa (replicate 22 NUL) x = Some (is, length (decimal (unat x)))"
      "take (length (decimal (unat x))) is = decimal (unat x)" "length (decimal (unat x)) \<le> length is"
      using num_buffers(3) by blast
    show ?thesis unfolding PUll render.simps append_assoc append_Cons append_Nil piece_arg.simps
      by (rule vs_loop_conversion[OF n(2)], simp add: conv, simp, simp add: conv num[OF "is"(3)] "is"(1,2))
  next
    case (PSll l z d x)
    then have "sint x \<noteq> - (2 ^ 63)" using q by simp
    from num_buffers(4)[OF this] obtain "is" where
      "is": "str_lltoa (replicate 24 NUL) x = Some (is, length (signed_decimal (sint x)))"
      "take (length (signed_decimal (sint x))) is = signed_decimal (sint x)"
      "length (signed_decimal (sint x)) \<le> length is" by blast
    show ?thesis unfolding PSll render.simps append_assoc append_Cons append_Nil piece_arg.simps
      by (rule vs_loop_conversion[OF n(2)], simp add: conv, simp, simp add: conv num[OF "is"(3)] "is"(1,2))
  next
    case (PHex l z d x)
    obtain "is" where "is": "str_ptoa (replicate 12 NUL) x = Some (is, length (ptr_text x))"
      "take (length (ptr_text x)) is = ptr_text x" "length (ptr_text x) \<le> length is"
      using num_buffers(5) by blast
    show ?thesis unfolding PHex render.simps append_assoc append_Cons append_Nil piece_arg.simps
      by (rule vs_loop_conversion[OF n(2)], simp add: conv, simp, simp add: conv num[OF "is"(3)] "is"(1,2))
  next
    case (PPtr x)
    obtain "is" where "is": "str_ptoa (replicate 11 NUL) x = Some (is, length (ptr_text x))"
      "take (length (ptr_text x)) is = ptr_text x" "length (ptr_text x) \<le> length is"
      using num_buffers(6) by blast
    have "copy_loop (length (ptr_text x)) n is 0 (written s0 w) 0 =
        Some (written s0 (w @ take (n - length w) (ptr_text x)), - of_nat (min (length (ptr_text x)) (n - length w)))"
      using copy_loop_written[OF n(1) w, of 0 "length (ptr_text x)" "is" 0] "is" by simp
    then show ?thesis unfolding PPtr render.simps append_assoc append_Cons append_Nil piece_arg.simps
      by (intro vs_loop_conversion[OF n(2)], simp_all only:) (simp add: conv, simp, simp add: conv "is"(1))
  next
    case (PChr x)
    show ?thesis unfolding PChr render.simps append_assoc append_Cons append_Nil piece_arg.simps
      using n
      by (intro vs_loop_conversion[OF n(2)], simp_all only:) (simp add: conv, simp, simp add: conv take_Cons')
  qed
qed

lemma render_not_Nil: "render q \<noteq> []"
  by (cases q) simp_all

lemma vs_loop_full:
  assumes "length w = n"
  shows "vs_loop tab n (concat (map render qs) @ [NUL]) as 0 (written s0 w) = Some (written s0 w)"
proof -
  obtain c t where "concat (map render qs) @ [NUL] = c # t"
    by (cases "concat (map render qs) @ [NUL]") auto
  then show ?thesis using assms by (subst vs_loop.simps) simp
qed

lemma vs_loop_pieces:
  assumes "\<forall>q \<in> set qs. piece_ok q" "n \<le> length s0" "length w \<le> n"
  shows "vs_loop tab n (concat (map render qs) @ [NUL]) (concat (map piece_arg qs)) 0 (written s0 w) =
    Some (written s0 (w @ take (n - length w) (concat (map meaning qs))))"
  using assms(1,3)
proof (induction qs arbitrary: w)
  case Nil
  then show ?case by (subst vs_loop.simps) simp
next
  case (Cons q qs)
  show ?case
  proof (cases "length w = n")
    case True
    then show ?thesis using vs_loop_full[OF True, of tab "q # qs"] by simp
  next
    case False
    then have "length w < n" using Cons.prems by simp
    have "length (w @ take (n - length w) (meaning q)) \<le> n" using Cons.prems by simp
    moreover have "w @ take (n - length w) (meaning q) @
        take (n - (length w + min (length (meaning q)) (n - length w))) (concat (map meaning qs)) =
        w @ take (n - length w) (meaning q @ concat (map meaning qs))"
      by (cases "length (meaning q) \<le> n - length w") (simp_all add: min_def)
    ultimately show ?thesis
      using Cons.IH[of "w @ take (n - length w) (meaning q)"] piece_step[OF _ assms(2) \<open>length w < n\<close>, of q] Cons.prems by simp
  qed
qed

section \<open>Bounds for every format\<close>

text \<open>The write pointer keeps step with the count, stays within the limit, and nothing
  beyond the limit has changed.\<close>

definition out_ok :: "nat \<Rightarrow> string \<Rightarrow> out \<Rightarrow> bool" where
  "out_ok n s0 o' \<longleftrightarrow> optr o' = obytes o' \<and> obytes o' \<le> n \<and> length (ostr o') = length s0 \<and>
     drop n (ostr o') = drop n s0"

text \<open>What is expected of a registered conversion.\<close>

definition callbacks_ok :: "format_table \<Rightarrow> bool" where
  "callbacks_ok tab \<longleftrightarrow> length tab = 64 \<and> (\<forall>cb. Some cb \<in> set tab \<longrightarrow>
     (\<forall>o' n s0 p l a o''. out_ok n s0 o' \<and> cb o' n p l a = Some o'' \<longrightarrow> out_ok n s0 o''))"

lemma put_ok: "out_ok n s0 o' \<Longrightarrow> obytes o' < n \<Longrightarrow> put o' c = Some o'' \<Longrightarrow> out_ok n s0 o''"
  by (auto simp: out_ok_def put_def wr_def bind_eq_Some_conv split: if_splits)

lemma pad_loop_ok:
  "out_ok n s0 o' \<Longrightarrow> pad_loop n ch o' p = Some (o'', p') \<Longrightarrow> out_ok n s0 o''"
proof (induction n ch o' p rule: pad_loop.induct)
  case (1 n ch o' p)
  note run = "1.prems"(2)[unfolded pad_loop.simps[of n ch o' p]]
  show ?case
  proof (cases "p \<noteq> 0 \<and> obytes o' < n")
    case True
    with run obtain o1 where "put o' ch = Some o1" "pad_loop n ch o1 (p - 1) = Some (o'', p')"
      by (auto elim: bind_SomeE)
    then show ?thesis using "1.IH"[OF True] put_ok[OF "1.prems"(1)] True by blast
  next
    case False
    then show ?thesis using run "1.prems"(1) by auto
  qed
qed

lemma copy_loop_ok:
  "out_ok n s0 o' \<Longrightarrow> copy_loop len n is idx o' p = Some (o'', p') \<Longrightarrow> out_ok n s0 o''"
  by (induction len arbitrary: idx o' p)
    (auto split: if_splits elim!: bind_SomeE dest: put_ok)

lemma copy_str_ok:
  "out_ok n s0 o' \<Longrightarrow> copy_str n t o' p = Some (o'', p') \<Longrightarrow> out_ok n s0 o''"
proof (induction n t o' p rule: copy_str.induct)
  case (1 n t o' p)
  note run = "1.prems"(2)[unfolded copy_str.simps[of n t o' p]]
  show ?case
  proof (cases "cur t \<noteq> NUL \<and> obytes o' < n")
    case True
    with run obtain o1 where "put o' (cur t) = Some o1" "copy_str n (tl t) o1 (p - 1) = Some (o'', p')"
      by (auto elim: bind_SomeE)
    then show ?thesis using "1.IH"[OF True] put_ok[OF "1.prems"(1)] True by blast
  next
    case False
    then show ?thesis using run "1.prems"(1) by auto
  qed
qed

lemma three_phases_ok:
  assumes o: "out_ok n s0 o'"
    and copy: "\<And>o' p o'' p'. out_ok n s0 o' \<Longrightarrow> copy o' p = Some (o'', p') \<Longrightarrow> out_ok n s0 o''"
    and run: "(do {
     (o', padding) \<leftarrow> (if b then pad_loop n ch o' q else Some (o', q'));
     (o', padding) \<leftarrow> copy o' padding;
     (o', padding) \<leftarrow> (if c padding then pad_loop n ch' o' padding else Some (o', padding));
     Some o' }) = Some o''"
  shows "out_ok n s0 o''"
proof -
  from run obtain o1 p1 o2 p2 p3 where
    1: "(if b then pad_loop n ch o' q else Some (o', q')) = Some (o1, p1)" and
    2: "copy o1 p1 = Some (o2, p2)" and
    3: "(if c p2 then pad_loop n ch' o2 p2 else Some (o2, p2)) = Some (o'', p3)"
    by (auto elim!: bind_pairE)
  have "out_ok n s0 o1" using 1 o pad_loop_ok by (auto split: if_splits)
  from copy[OF this 2] show ?thesis using 3 pad_loop_ok by (auto split: if_splits)
qed

lemma vs_number_ok:
  assumes "out_ok n s0 o'" "vs_number n sp ch is len o' = Some o''"
  shows "out_ok n s0 o''"
  by (rule three_phases_ok[OF assms(1) _ assms(2)[unfolded vs_number_def]]) (rule copy_loop_ok)

lemma vs_string_ok:
  assumes "out_ok n s0 o'" "vs_string n sp p1 o' = Some o''"
  shows "out_ok n s0 o''"
  by (rule three_phases_ok[OF assms(1) _ assms(2)[unfolded vs_string_def Let_def]]) (rule copy_str_ok)

lemma vs_convert_ok:
  assumes ok: "out_ok n s0 o'" "callbacks_ok tab"
    and run: "vs_convert tab n c sp args o' = Some (Some (o'', args', lev))"
  shows "out_ok n s0 o''"
proof -
  have tab: "out_ok n s0 o''" if "tab ! (ord c - 0x40) = Some cb" "cb o' n p l a = Some o''"
    "str_isalpha c" for cb p l a
  proof -
    have "ord c - 0x40 < 64" using that(3) by (auto simp: str_isalpha_def less_eq_char_def)
    then have "Some cb \<in> set tab" using ok(2) that(1) by (metis callbacks_ok_def nth_mem)
    then show ?thesis using ok that(2) unfolding callbacks_ok_def by blast
  qed
  note fin = vs_number_ok[OF ok(1)] vs_string_ok[OF ok(1)]
  note run = run[unfolded vs_convert_def conv_defs]
  show ?thesis
  proof (cases "c = CHR ''c''")
    case True
    with run obtain x where "(if obytes o' < n then put o' x else Some o') = Some o''"
      by (auto elim!: bind_pairE bind_SomeE)
    then show ?thesis using put_ok[OF ok(1)] ok(1) by (auto split: if_splits)
  next
    case c: False
    show ?thesis
    proof (cases "c \<in> set ''suidxp''")
    case True
    with run show ?thesis
      by (auto split: if_splits elim!: bind_pairE bind_SomeE
          intro: fin copy_loop_ok[OF ok(1)])
    next
      case False
      with run c show ?thesis
        by (auto split: if_splits list.splits elim!: bind_SomeE intro: tab)
    qed
  qed
qed

lemma vs_loop_ok:
  assumes "callbacks_ok tab"
  shows "out_ok n s0 o' \<Longrightarrow> vs_loop tab n f args lev o' = Some o'' \<Longrightarrow> out_ok n s0 o''"
proof (induction "length f" arbitrary: f args lev o' rule: less_induct)
  case less
  note run = less.prems(2)[unfolded vs_loop.simps[of tab n f args lev o']]
  from run obtain c f1 where c: "nextc f = Some (c, f1)" by (auto elim: bind_pairE)
  then have f1: "length f1 < length f" by (rule nextc_shorter)
  show ?case
  proof (cases "c = NUL \<or> \<not> obytes o' < n")
    case True
    then show ?thesis using run c less.prems(1) by auto
  next
    case cont: False
    then have room: "obytes o' < n" by simp
    show ?thesis
    proof (cases "c = CHR ''%''")
      case False
      then obtain o1 where "put o' c = Some o1" "vs_loop tab n f1 args lev o1 = Some o''"
        using run c cont by (auto elim: bind_SomeE)
      then show ?thesis using less.hyps[OF f1] put_ok[OF less.prems(1) room] by blast
    next
      case True
      then obtain c2 f2 sp2 c3 f3 sp3 r where
        p: "parse_spec f1 \<lparr>sleft = False, spad = CHR '' '', spadding = 0, slonglev = lev\<rparr> =
          Some (c2, f2, sp2)" "parse_I c2 f2 sp2 = Some (c3, f3, sp3)" and
        r: "vs_convert tab n c3 sp3 args o' = Some r" and
        rest: "(case r of Some (o', args, longlev) \<Rightarrow> vs_loop tab n f3 args longlev o'
          | None \<Rightarrow> do { o' \<leftarrow> put o' c3; vs_loop tab n f3 args (slonglev sp3) o' }) = Some o''"
        using run c cont by (auto elim!: bind_tripleE bind_SomeE)
      have f3: "length f3 < length f"
        using f1 parse_spec_shorter[OF p(1)] parse_I_shorter[OF p(2)] by simp
      show ?thesis
      proof (cases r)
        case None
        then obtain o1 where "put o' c3 = Some o1" "vs_loop tab n f3 args (slonglev sp3) o1 = Some o''"
          using rest by (auto elim: bind_SomeE)
        then show ?thesis using less.hyps[OF f3] put_ok[OF less.prems(1) room] by blast
      next
        case (Some x)
        then obtain o1 args1 lev1 where x: "r = Some (o1, args1, lev1)" by (cases x) auto
        have "out_ok n s0 o1" using vs_convert_ok[OF less.prems(1) assms] r x by simp
        then show ?thesis using less.hyps[OF f3] rest x by simp
      qed
    qed
  qed
qed

lemma vsnprintf_text:
  assumes "\<forall>q \<in> set qs. piece_ok q" "0 < n" "n \<le> length str"
  shows "str_vsnprintf tab str n (concat (map render qs)) (concat (map piece_arg qs)) =
    (let t = take (n - 1) (concat (map meaning qs)) in
     Some (t @ NUL # drop (Suc (length t)) str, length t))"
proof -
  define t where "t = take (n - 1) (concat (map meaning qs))"
  have "vs_loop tab (n - 1) (concat (map render qs) @ [NUL]) (concat (map piece_arg qs)) 0
      \<lparr>ostr = str, optr = 0, obytes = 0\<rparr> = Some (written str t)"
    using vs_loop_pieces[OF assms(1), of "n - 1" str "[]" tab] assms(3)
    by (simp add: t_def written_def)
  moreover have "length t < length str" using assms by (simp add: t_def)
  then have "wr (t @ drop (length t) str) (length t) NUL = Some (t @ NUL # drop (Suc (length t)) str)"
    by (simp add: Cons_nth_drop_Suc[symmetric])
  ultimately show ?thesis
    using assms(2) unfolding t_def[symmetric] by (simp add: str_vsnprintf_def)
qed

lemma snprintf_text:
  assumes "fmt = concat (map render qs)" "args = concat (map piece_arg qs)" "\<forall>q \<in> set qs. piece_ok q"
    "0 < n" "n \<le> length str" "t = take (n - 1) (concat (map meaning qs))"
  shows "str_snprintf tab str n fmt args = Some (t @ NUL # drop (Suc (length t)) str, length t)"
  using assms vsnprintf_text[of qs n str tab] by (simp add: str_snprintf_def Let_def)

section \<open>The properties\<close>

text \<open>C29. For a format string built of literal bytes and the conversions \<open>%s\<close>,
  \<open>%u\<close>, \<open>%lu\<close>, \<open>%d\<close>, \<open>%llu\<close>, \<open>%lld\<close>, \<open>%x\<close>, \<open>%p\<close> and \<open>%c\<close>
  with any flags and width, \<open>str_vsnprintf\<close> returns and leaves in the buffer the
  concatenation of the converted pieces, cut to \<open>n - 1\<close> bytes and terminated; the rest of
  the buffer is as before, and the result is the number of bytes written.\<close>

theorem vsnprintf_pieces:
  assumes "\<forall>q \<in> set qs. piece_ok q" "0 < n" "n \<le> length str"
  shows "str_vsnprintf tab str n (concat (map render qs)) (concat (map piece_arg qs)) =
    (let t = take (n - 1) (concat (map meaning qs)) in
     Some (t @ NUL # drop (Suc (length t)) str, length t))"
  by (rule vsnprintf_text) (use assms in blast)+

lemma vsnprintf_pieces_witness:
  "str_vsnprintf str_init (replicate 12 (CHR ''#'')) 12 ''%-6s[%03u]'' [ArgStr (Some ''nick''), Arg32 7] =
     Some (''nick  [007]'' @ [NUL], 11)"
proof -
  let ?qs = "[PStr True False 6 (Some ''nick''), PLit (CHR ''[''), PUns False True 3 7, PLit (CHR '']'')]"
  have r: "concat (map render ?qs) = ''%-6s[%03u]''" "concat (map meaning ?qs) = ''nick  [007]''"
    "concat (map piece_arg ?qs) = [ArgStr (Some ''nick''), Arg32 7]"
    by code_simp+
  have "str_vsnprintf str_init (replicate 12 (CHR ''#'')) 12 (concat (map render ?qs))
      (concat (map piece_arg ?qs)) = (let t = take (12 - 1) (concat (map meaning ?qs)) in
     Some (t @ NUL # drop (Suc (length t)) (replicate 12 (CHR ''#'')), length t))"
    by (rule vsnprintf_pieces) simp_all
  then show ?thesis unfolding r by simp
qed

text \<open>C30. Whatever the format string and the arguments, when \<open>str_vsnprintf\<close> returns it
  has written at most \<open>n - 1\<close> bytes and a terminator inside the first \<open>n\<close> bytes of the
  buffer, provided the registered conversions respect the limit they are given.\<close>

theorem vsnprintf_bounded:
  assumes "callbacks_ok tab" "0 < n" "n \<le> length str"
    "str_vsnprintf tab str n format args = Some (str', r)"
  shows "r < n \<and> length str' = length str \<and> drop n str' = drop n str \<and> str' ! r = NUL"
proof -
  from assms obtain o' where
    run: "vs_loop tab (n - 1) (format @ [NUL]) args 0 \<lparr>ostr = str, optr = 0, obytes = 0\<rparr> = Some o'"
    and fin: "wr (ostr o') (optr o') NUL = Some str'" "r = obytes o'"
    by (auto simp: str_vsnprintf_def elim!: bind_SomeE)
  have "out_ok (n - 1) str \<lparr>ostr = str, optr = 0, obytes = 0\<rparr>" by (simp add: out_ok_def)
  from vs_loop_ok[OF assms(1) this run] have o: "optr o' = r" "r \<le> n - 1"
    "length (ostr o') = length str" "drop (n - 1) (ostr o') = drop (n - 1) str"
    using fin by (simp_all add: out_ok_def)
  have "drop n (ostr o') = drop 1 (drop (n - 1) (ostr o'))" using assms(2) by simp
  also have "\<dots> = drop n str" unfolding o(4) using assms(2) by simp
  finally show ?thesis
    using fin o assms(2,3) by (auto simp: wr_def split: if_splits)
qed

lemma vsnprintf_bounded_witness:
  "callbacks_ok str_init \<and>
   (\<exists>s. str_vsnprintf str_init (replicate 6 NUL) 4 ''%%ab%d'' [Arg32 5] = Some (s, 3) \<and> (3::nat) < 4 \<and>
     length s = 6)"
proof -
  have c: "callbacks_ok str_init" by (simp add: callbacks_ok_def str_init_def)
  obtain s where s: "str_vsnprintf str_init (replicate 6 NUL) 4 ''%%ab%d'' [Arg32 5] = Some (s, 3)"
  proof -
    have "map_option snd (str_vsnprintf str_init (replicate 6 NUL) 4 ''%%ab%d'' [Arg32 5]) = Some 3"
      by code_simp
    then show thesis using that by auto
  qed
  from vsnprintf_bounded[OF c _ _ s] c s show ?thesis by simp
qed

text \<open>A left-aligned string longer than its field is not followed by what comes next in
  the format: the padding has wrapped around, and blanks fill the buffer up to the limit.\<close>

theorem left_overflow_fills:
  assumes "width < length (cstr s)" "length (cstr s) < n" "n \<le> length str" "n < 2 ^ 31"
    "\<forall>q \<in> set qs. piece_ok q"
  shows "str_vsnprintf tab str n (concat (map render (PStr True False width (Some s) # qs)))
      (concat (map piece_arg (PStr True False width (Some s) # qs))) =
    Some (cstr s @ replicate (n - 1 - length (cstr s)) (CHR '' '') @ NUL # drop n str, n - 1)"
proof -
  let ?l = "length (cstr s)"
  define k where "k = unat (of_nat width - of_nat ?l :: 32 word)"
  have eq: "(of_nat width - of_nat ?l :: 32 word) = word_of_int (int width - int ?l)" by simp
  have "int k = uint (of_nat width - of_nat ?l :: 32 word)"
    unfolding k_def unat_eq_nat_uint by (rule nat_0_le) (rule uint_ge_0)
  also have "\<dots> = (int width - int ?l) mod 2 ^ 32"
    unfolding eq uint_word_of_int by simp
  also have "\<dots> = (int width - int ?l + 2 ^ 32) mod 2 ^ 32" by (rule mod_add_self2[symmetric])
  also have "\<dots> = int width - int ?l + 2 ^ 32"
    using assms(1,2,4) by (intro mod_pos_pos_trivial) auto
  finally have "int k = int width - int ?l + 4294967296" by simp
  moreover have "n < 2147483648" using assms(4) by simp
  ultimately have "n - 1 - ?l \<le> k" using assms(1,2) by linarith
  then have t: "take (n - 1) (concat (map meaning (PStr True False width (Some s) # qs))) =
      cstr s @ replicate (n - 1 - ?l) (CHR '' '')"
    using assms(2) by (simp add: aligned_def k_def[symmetric] min_def)
  have l: "length (cstr s @ replicate (n - 1 - ?l) (CHR '' '')) = n - 1" "Suc (n - 1) = n"
    using assms(2) by simp_all
  have "\<forall>q \<in> set (PStr True False width (Some s) # qs). piece_ok q" "0 < n"
    using assms(2,5) by simp_all
  from vsnprintf_pieces[OF this assms(3), of tab] show ?thesis
    unfolding t Let_def l append_assoc .
qed

lemma left_overflow_witness:
  "str_vsnprintf str_init (replicate 10 (CHR ''#'')) 10 ''%-3s|'' [ArgStr (Some ''hello'')] =
     Some (''hello    '' @ [NUL], 9)"
proof -
  let ?qs = "[PStr True False 3 (Some ''hello''), PLit (CHR ''|'')]"
  have r: "concat (map render ?qs) = ''%-3s|''"
    "concat (map piece_arg ?qs) = [ArgStr (Some ''hello'')]"
    by code_simp+
  have "str_vsnprintf str_init (replicate 10 (CHR ''#'')) 10 (concat (map render ?qs))
      (concat (map piece_arg ?qs)) =
    Some (cstr ''hello'' @ replicate (10 - 1 - length (cstr ''hello'')) (CHR '' '') @
      NUL # drop 10 (replicate 10 (CHR ''#'')), 10 - 1)"
    by (rule left_overflow_fills) simp_all
  then show ?thesis unfolding r by (simp add: numeral_eq_Suc)
qed

text \<open>Two formats that read behind the terminator of the format string: a single
  percent sign at its end, and \<open>%I64u\<close>, where the digit test, a macro, advances the
  pointer twice and so skips the conversion character.\<close>

theorem formats_overrun:
  "str_vsnprintf str_init (replicate 16 NUL) 16 ''100%'' [] = None \<and>
   str_vsnprintf str_init (replicate 32 NUL) 32 ''%I64u'' [Arg64 5] = None"
  by code_simp

end
