(* ===== verification/Chars.thy ===== *)
theory Chars
  imports Prelude Cstr
begin

unbundle bit_operations_syntax

text \<open>
  The character classes of src/chars.c and include/ircd/chars.h: the attribute table, one flag
  word per byte value, the class tests, and the four validators for host, user, nick and
  channel names. The validators are shown to accept exactly the words over their class, and
  the classes to exclude the separators of the protocol.
\<close>

section \<open>The table\<close>

definition PRINT_C :: "32 word" where "PRINT_C = 0x0001"

definition CNTRL_C :: "32 word" where "CNTRL_C = 0x0002"

definition ALPHA_C :: "32 word" where "ALPHA_C = 0x0004"

definition PUNCT_C :: "32 word" where "PUNCT_C = 0x0008"

definition DIGIT_C :: "32 word" where "DIGIT_C = 0x0010"

definition SPACE_C :: "32 word" where "SPACE_C = 0x0020"

definition NICK_C :: "32 word" where "NICK_C = 0x0040"

definition CHAN_C :: "32 word" where "CHAN_C = 0x0080"

definition KWILD_C :: "32 word" where "KWILD_C = 0x0100"

definition CHANPFX_C :: "32 word" where "CHANPFX_C = 0x0200"

definition USER_C :: "32 word" where "USER_C = 0x0400"

definition HOST_C :: "32 word" where "HOST_C = 0x0800"

definition NONEOS_C :: "32 word" where "NONEOS_C = 0x1000"

definition SERV_C :: "32 word" where "SERV_C = 0x2000"

definition EOL_C :: "32 word" where "EOL_C = 0x4000"

definition UID_C :: "32 word" where "UID_C = 0x8000"

definition chars_low :: "32 word list" where
  "chars_low = [
    CNTRL_C, CNTRL_C OR CHAN_C OR NONEOS_C, CNTRL_C OR CHAN_C OR NONEOS_C,
    CNTRL_C OR CHAN_C OR NONEOS_C, CNTRL_C OR CHAN_C OR NONEOS_C, CNTRL_C OR CHAN_C OR NONEOS_C,
    CNTRL_C OR CHAN_C OR NONEOS_C, CNTRL_C OR NONEOS_C, CNTRL_C OR CHAN_C OR NONEOS_C,
    CNTRL_C OR SPACE_C OR CHAN_C OR NONEOS_C, CNTRL_C OR SPACE_C OR CHAN_C OR NONEOS_C OR EOL_C,
    CNTRL_C OR SPACE_C OR CHAN_C OR NONEOS_C, CNTRL_C OR SPACE_C OR CHAN_C OR NONEOS_C,
    CNTRL_C OR SPACE_C OR CHAN_C OR NONEOS_C OR EOL_C, CNTRL_C OR CHAN_C OR NONEOS_C,
    CNTRL_C OR CHAN_C OR NONEOS_C, CNTRL_C OR CHAN_C OR NONEOS_C, CNTRL_C OR CHAN_C OR NONEOS_C,
    CNTRL_C OR CHAN_C OR NONEOS_C, CNTRL_C OR CHAN_C OR NONEOS_C, CNTRL_C OR CHAN_C OR NONEOS_C,
    CNTRL_C OR CHAN_C OR NONEOS_C, CNTRL_C OR CHAN_C OR NONEOS_C, CNTRL_C OR CHAN_C OR NONEOS_C,
    CNTRL_C OR CHAN_C OR NONEOS_C, CNTRL_C OR CHAN_C OR NONEOS_C, CNTRL_C OR CHAN_C OR NONEOS_C,
    CNTRL_C OR CHAN_C OR NONEOS_C, CNTRL_C OR CHAN_C OR NONEOS_C, CNTRL_C OR CHAN_C OR NONEOS_C,
    CNTRL_C OR CHAN_C OR NONEOS_C, CNTRL_C OR CHAN_C OR NONEOS_C, PRINT_C OR SPACE_C,
    PRINT_C OR KWILD_C OR CHANPFX_C OR CHAN_C OR NONEOS_C, PRINT_C OR CHAN_C OR NONEOS_C,
    PRINT_C OR CHANPFX_C OR CHAN_C OR NONEOS_C, PRINT_C OR CHAN_C OR NONEOS_C OR USER_C,
    PRINT_C OR CHAN_C OR NONEOS_C, PRINT_C OR CHANPFX_C OR CHAN_C OR NONEOS_C,
    PRINT_C OR CHAN_C OR NONEOS_C, PRINT_C OR CHAN_C OR NONEOS_C, PRINT_C OR CHAN_C OR NONEOS_C,
    PRINT_C OR KWILD_C OR CHAN_C OR NONEOS_C OR SERV_C,
    PRINT_C OR CHANPFX_C OR CHAN_C OR NONEOS_C, PRINT_C OR NONEOS_C,
    PRINT_C OR NICK_C OR CHAN_C OR NONEOS_C OR USER_C OR HOST_C,
    PRINT_C OR KWILD_C OR CHAN_C OR NONEOS_C OR USER_C OR HOST_C OR SERV_C,
    PRINT_C OR CHAN_C OR NONEOS_C,
    PRINT_C OR DIGIT_C OR NICK_C OR CHAN_C OR NONEOS_C OR USER_C OR HOST_C OR UID_C,
    PRINT_C OR DIGIT_C OR NICK_C OR CHAN_C OR NONEOS_C OR USER_C OR HOST_C OR UID_C,
    PRINT_C OR DIGIT_C OR NICK_C OR CHAN_C OR NONEOS_C OR USER_C OR HOST_C OR UID_C,
    PRINT_C OR DIGIT_C OR NICK_C OR CHAN_C OR NONEOS_C OR USER_C OR HOST_C OR UID_C,
    PRINT_C OR DIGIT_C OR NICK_C OR CHAN_C OR NONEOS_C OR USER_C OR HOST_C OR UID_C,
    PRINT_C OR DIGIT_C OR NICK_C OR CHAN_C OR NONEOS_C OR USER_C OR HOST_C OR UID_C,
    PRINT_C OR DIGIT_C OR NICK_C OR CHAN_C OR NONEOS_C OR USER_C OR HOST_C OR UID_C,
    PRINT_C OR DIGIT_C OR NICK_C OR CHAN_C OR NONEOS_C OR USER_C OR HOST_C OR UID_C,
    PRINT_C OR DIGIT_C OR NICK_C OR CHAN_C OR NONEOS_C OR USER_C OR HOST_C OR UID_C,
    PRINT_C OR DIGIT_C OR NICK_C OR CHAN_C OR NONEOS_C OR USER_C OR HOST_C OR UID_C,
    PRINT_C OR CHAN_C OR NONEOS_C OR HOST_C, PRINT_C OR CHAN_C OR NONEOS_C,
    PRINT_C OR CHAN_C OR NONEOS_C, PRINT_C OR CHAN_C OR NONEOS_C, PRINT_C OR CHAN_C OR NONEOS_C,
    PRINT_C OR KWILD_C OR CHAN_C OR NONEOS_C, PRINT_C OR KWILD_C OR CHAN_C OR NONEOS_C,
    PRINT_C OR ALPHA_C OR NICK_C OR CHAN_C OR NONEOS_C OR USER_C OR HOST_C OR UID_C,
    PRINT_C OR ALPHA_C OR NICK_C OR CHAN_C OR NONEOS_C OR USER_C OR HOST_C OR UID_C,
    PRINT_C OR ALPHA_C OR NICK_C OR CHAN_C OR NONEOS_C OR USER_C OR HOST_C OR UID_C,
    PRINT_C OR ALPHA_C OR NICK_C OR CHAN_C OR NONEOS_C OR USER_C OR HOST_C OR UID_C,
    PRINT_C OR ALPHA_C OR NICK_C OR CHAN_C OR NONEOS_C OR USER_C OR HOST_C OR UID_C,
    PRINT_C OR ALPHA_C OR NICK_C OR CHAN_C OR NONEOS_C OR USER_C OR HOST_C OR UID_C,
    PRINT_C OR ALPHA_C OR NICK_C OR CHAN_C OR NONEOS_C OR USER_C OR HOST_C OR UID_C,
    PRINT_C OR ALPHA_C OR NICK_C OR CHAN_C OR NONEOS_C OR USER_C OR HOST_C OR UID_C,
    PRINT_C OR ALPHA_C OR NICK_C OR CHAN_C OR NONEOS_C OR USER_C OR HOST_C OR UID_C,
    PRINT_C OR ALPHA_C OR NICK_C OR CHAN_C OR NONEOS_C OR USER_C OR HOST_C OR UID_C,
    PRINT_C OR ALPHA_C OR NICK_C OR CHAN_C OR NONEOS_C OR USER_C OR HOST_C OR UID_C,
    PRINT_C OR ALPHA_C OR NICK_C OR CHAN_C OR NONEOS_C OR USER_C OR HOST_C OR UID_C,
    PRINT_C OR ALPHA_C OR NICK_C OR CHAN_C OR NONEOS_C OR USER_C OR HOST_C OR UID_C,
    PRINT_C OR ALPHA_C OR NICK_C OR CHAN_C OR NONEOS_C OR USER_C OR HOST_C OR UID_C,
    PRINT_C OR ALPHA_C OR NICK_C OR CHAN_C OR NONEOS_C OR USER_C OR HOST_C OR UID_C,
    PRINT_C OR ALPHA_C OR NICK_C OR CHAN_C OR NONEOS_C OR USER_C OR HOST_C OR UID_C,
    PRINT_C OR ALPHA_C OR NICK_C OR CHAN_C OR NONEOS_C OR USER_C OR HOST_C OR UID_C,
    PRINT_C OR ALPHA_C OR NICK_C OR CHAN_C OR NONEOS_C OR USER_C OR HOST_C OR UID_C,
    PRINT_C OR ALPHA_C OR NICK_C OR CHAN_C OR NONEOS_C OR USER_C OR HOST_C OR UID_C,
    PRINT_C OR ALPHA_C OR NICK_C OR CHAN_C OR NONEOS_C OR USER_C OR HOST_C OR UID_C,
    PRINT_C OR ALPHA_C OR NICK_C OR CHAN_C OR NONEOS_C OR USER_C OR HOST_C OR UID_C,
    PRINT_C OR ALPHA_C OR NICK_C OR CHAN_C OR NONEOS_C OR USER_C OR HOST_C OR UID_C,
    PRINT_C OR ALPHA_C OR NICK_C OR CHAN_C OR NONEOS_C OR USER_C OR HOST_C OR UID_C,
    PRINT_C OR ALPHA_C OR NICK_C OR CHAN_C OR NONEOS_C OR USER_C OR HOST_C OR UID_C,
    PRINT_C OR ALPHA_C OR NICK_C OR CHAN_C OR NONEOS_C OR USER_C OR HOST_C OR UID_C,
    PRINT_C OR ALPHA_C OR NICK_C OR CHAN_C OR NONEOS_C OR USER_C OR HOST_C OR UID_C,
    PRINT_C OR ALPHA_C OR NICK_C OR CHAN_C OR NONEOS_C OR USER_C,
    PRINT_C OR ALPHA_C OR NICK_C OR CHAN_C OR NONEOS_C OR USER_C,
    PRINT_C OR ALPHA_C OR NICK_C OR CHAN_C OR NONEOS_C OR USER_C,
    PRINT_C OR ALPHA_C OR NICK_C OR CHAN_C OR NONEOS_C OR USER_C,
    PRINT_C OR NICK_C OR CHAN_C OR NONEOS_C OR USER_C,
    PRINT_C OR NICK_C OR CHAN_C OR NONEOS_C OR USER_C,
    PRINT_C OR ALPHA_C OR NICK_C OR CHAN_C OR NONEOS_C OR USER_C OR HOST_C OR UID_C,
    PRINT_C OR ALPHA_C OR NICK_C OR CHAN_C OR NONEOS_C OR USER_C OR HOST_C OR UID_C,
    PRINT_C OR ALPHA_C OR NICK_C OR CHAN_C OR NONEOS_C OR USER_C OR HOST_C OR UID_C,
    PRINT_C OR ALPHA_C OR NICK_C OR CHAN_C OR NONEOS_C OR USER_C OR HOST_C OR UID_C,
    PRINT_C OR ALPHA_C OR NICK_C OR CHAN_C OR NONEOS_C OR USER_C OR HOST_C OR UID_C,
    PRINT_C OR ALPHA_C OR NICK_C OR CHAN_C OR NONEOS_C OR USER_C OR HOST_C OR UID_C,
    PRINT_C OR ALPHA_C OR NICK_C OR CHAN_C OR NONEOS_C OR USER_C OR HOST_C OR UID_C,
    PRINT_C OR ALPHA_C OR NICK_C OR CHAN_C OR NONEOS_C OR USER_C OR HOST_C OR UID_C,
    PRINT_C OR ALPHA_C OR NICK_C OR CHAN_C OR NONEOS_C OR USER_C OR HOST_C OR UID_C,
    PRINT_C OR ALPHA_C OR NICK_C OR CHAN_C OR NONEOS_C OR USER_C OR HOST_C OR UID_C,
    PRINT_C OR ALPHA_C OR NICK_C OR CHAN_C OR NONEOS_C OR USER_C OR HOST_C OR UID_C,
    PRINT_C OR ALPHA_C OR NICK_C OR CHAN_C OR NONEOS_C OR USER_C OR HOST_C OR UID_C,
    PRINT_C OR ALPHA_C OR NICK_C OR CHAN_C OR NONEOS_C OR USER_C OR HOST_C OR UID_C,
    PRINT_C OR ALPHA_C OR NICK_C OR CHAN_C OR NONEOS_C OR USER_C OR HOST_C OR UID_C,
    PRINT_C OR ALPHA_C OR NICK_C OR CHAN_C OR NONEOS_C OR USER_C OR HOST_C OR UID_C,
    PRINT_C OR ALPHA_C OR NICK_C OR CHAN_C OR NONEOS_C OR USER_C OR HOST_C OR UID_C,
    PRINT_C OR ALPHA_C OR NICK_C OR CHAN_C OR NONEOS_C OR USER_C OR HOST_C OR UID_C,
    PRINT_C OR ALPHA_C OR NICK_C OR CHAN_C OR NONEOS_C OR USER_C OR HOST_C OR UID_C,
    PRINT_C OR ALPHA_C OR NICK_C OR CHAN_C OR NONEOS_C OR USER_C OR HOST_C OR UID_C,
    PRINT_C OR ALPHA_C OR NICK_C OR CHAN_C OR NONEOS_C OR USER_C OR HOST_C OR UID_C,
    PRINT_C OR ALPHA_C OR NICK_C OR CHAN_C OR NONEOS_C OR USER_C OR HOST_C OR UID_C,
    PRINT_C OR ALPHA_C OR NICK_C OR CHAN_C OR NONEOS_C OR USER_C OR HOST_C OR UID_C,
    PRINT_C OR ALPHA_C OR NICK_C OR CHAN_C OR NONEOS_C OR USER_C OR HOST_C OR UID_C,
    PRINT_C OR ALPHA_C OR NICK_C OR CHAN_C OR NONEOS_C OR USER_C OR HOST_C OR UID_C,
    PRINT_C OR ALPHA_C OR NICK_C OR CHAN_C OR NONEOS_C OR USER_C OR HOST_C OR UID_C,
    PRINT_C OR ALPHA_C OR NICK_C OR CHAN_C OR NONEOS_C OR USER_C OR HOST_C OR UID_C,
    PRINT_C OR ALPHA_C OR NICK_C OR CHAN_C OR NONEOS_C OR USER_C,
    PRINT_C OR ALPHA_C OR NICK_C OR CHAN_C OR NONEOS_C OR USER_C,
    PRINT_C OR ALPHA_C OR NICK_C OR CHAN_C OR NONEOS_C OR USER_C,
    PRINT_C OR ALPHA_C OR CHAN_C OR NONEOS_C OR USER_C, CHAN_C OR NONEOS_C]"

definition chars_high :: "32 word list" where
  "chars_high = [
    CHAN_C OR NONEOS_C, CHAN_C OR NONEOS_C, CHAN_C OR NONEOS_C, CHAN_C OR NONEOS_C,
    CHAN_C OR NONEOS_C, CHAN_C OR NONEOS_C, CHAN_C OR NONEOS_C, CHAN_C OR NONEOS_C,
    CHAN_C OR NONEOS_C, CHAN_C OR NONEOS_C, CHAN_C OR NONEOS_C, CHAN_C OR NONEOS_C,
    CHAN_C OR NONEOS_C, CHAN_C OR NONEOS_C, CHAN_C OR NONEOS_C, CHAN_C OR NONEOS_C,
    CHAN_C OR NONEOS_C, CHAN_C OR NONEOS_C, CHAN_C OR NONEOS_C, CHAN_C OR NONEOS_C,
    CHAN_C OR NONEOS_C, CHAN_C OR NONEOS_C, CHAN_C OR NONEOS_C, CHAN_C OR NONEOS_C,
    CHAN_C OR NONEOS_C, CHAN_C OR NONEOS_C, CHAN_C OR NONEOS_C, CHAN_C OR NONEOS_C,
    CHAN_C OR NONEOS_C, CHAN_C OR NONEOS_C, CHAN_C OR NONEOS_C, CHAN_C OR NONEOS_C,
    CHAN_C OR NONEOS_C, CHAN_C OR NONEOS_C, CHAN_C OR NONEOS_C, CHAN_C OR NONEOS_C,
    CHAN_C OR NONEOS_C, CHAN_C OR NONEOS_C, CHAN_C OR NONEOS_C, CHAN_C OR NONEOS_C,
    CHAN_C OR NONEOS_C, CHAN_C OR NONEOS_C, CHAN_C OR NONEOS_C, CHAN_C OR NONEOS_C,
    CHAN_C OR NONEOS_C, CHAN_C OR NONEOS_C, CHAN_C OR NONEOS_C, CHAN_C OR NONEOS_C,
    CHAN_C OR NONEOS_C, CHAN_C OR NONEOS_C, CHAN_C OR NONEOS_C, CHAN_C OR NONEOS_C,
    CHAN_C OR NONEOS_C, CHAN_C OR NONEOS_C, CHAN_C OR NONEOS_C, CHAN_C OR NONEOS_C,
    CHAN_C OR NONEOS_C, CHAN_C OR NONEOS_C, CHAN_C OR NONEOS_C, CHAN_C OR NONEOS_C,
    CHAN_C OR NONEOS_C, CHAN_C OR NONEOS_C OR UID_C, CHAN_C OR NONEOS_C OR UID_C,
    CHAN_C OR NONEOS_C OR UID_C, CHAN_C OR NONEOS_C OR ALPHA_C OR NICK_C OR UID_C,
    CHAN_C OR NONEOS_C OR ALPHA_C OR NICK_C OR UID_C,
    CHAN_C OR NONEOS_C OR ALPHA_C OR NICK_C OR UID_C,
    CHAN_C OR NONEOS_C OR ALPHA_C OR NICK_C OR UID_C,
    CHAN_C OR NONEOS_C OR ALPHA_C OR NICK_C OR UID_C,
    CHAN_C OR NONEOS_C OR ALPHA_C OR NICK_C OR UID_C,
    CHAN_C OR NONEOS_C OR ALPHA_C OR NICK_C OR UID_C,
    CHAN_C OR NONEOS_C OR ALPHA_C OR NICK_C OR UID_C,
    CHAN_C OR NONEOS_C OR ALPHA_C OR NICK_C OR UID_C,
    CHAN_C OR NONEOS_C OR ALPHA_C OR NICK_C OR UID_C,
    CHAN_C OR NONEOS_C OR ALPHA_C OR NICK_C OR UID_C,
    CHAN_C OR NONEOS_C OR ALPHA_C OR NICK_C OR UID_C,
    CHAN_C OR NONEOS_C OR ALPHA_C OR NICK_C OR UID_C,
    CHAN_C OR NONEOS_C OR ALPHA_C OR NICK_C OR UID_C,
    CHAN_C OR NONEOS_C OR ALPHA_C OR NICK_C OR UID_C,
    CHAN_C OR NONEOS_C OR ALPHA_C OR NICK_C OR UID_C,
    CHAN_C OR NONEOS_C OR ALPHA_C OR NICK_C OR UID_C,
    CHAN_C OR NONEOS_C OR ALPHA_C OR NICK_C OR UID_C,
    CHAN_C OR NONEOS_C OR ALPHA_C OR NICK_C OR UID_C,
    CHAN_C OR NONEOS_C OR ALPHA_C OR NICK_C OR UID_C,
    CHAN_C OR NONEOS_C OR ALPHA_C OR NICK_C OR UID_C,
    CHAN_C OR NONEOS_C OR ALPHA_C OR NICK_C OR UID_C,
    CHAN_C OR NONEOS_C OR ALPHA_C OR NICK_C OR UID_C,
    CHAN_C OR NONEOS_C OR ALPHA_C OR NICK_C OR UID_C,
    CHAN_C OR NONEOS_C OR ALPHA_C OR NICK_C OR UID_C,
    CHAN_C OR NONEOS_C OR ALPHA_C OR NICK_C OR UID_C,
    CHAN_C OR NONEOS_C OR ALPHA_C OR NICK_C OR UID_C,
    CHAN_C OR NONEOS_C OR ALPHA_C OR NICK_C OR UID_C,
    CHAN_C OR NONEOS_C OR ALPHA_C OR NICK_C OR UID_C,
    CHAN_C OR NONEOS_C OR ALPHA_C OR NICK_C OR UID_C,
    CHAN_C OR NONEOS_C OR ALPHA_C OR NICK_C OR UID_C, CHAN_C OR NONEOS_C OR UID_C,
    CHAN_C OR NONEOS_C OR ALPHA_C OR NICK_C OR UID_C,
    CHAN_C OR NONEOS_C OR ALPHA_C OR NICK_C OR UID_C,
    CHAN_C OR NONEOS_C OR ALPHA_C OR NICK_C OR UID_C,
    CHAN_C OR NONEOS_C OR ALPHA_C OR NICK_C OR UID_C,
    CHAN_C OR NONEOS_C OR ALPHA_C OR NICK_C OR UID_C,
    CHAN_C OR NONEOS_C OR ALPHA_C OR NICK_C OR UID_C,
    CHAN_C OR NONEOS_C OR ALPHA_C OR NICK_C OR UID_C,
    CHAN_C OR NONEOS_C OR ALPHA_C OR NICK_C OR UID_C,
    CHAN_C OR NONEOS_C OR ALPHA_C OR NICK_C OR UID_C,
    CHAN_C OR NONEOS_C OR ALPHA_C OR NICK_C OR UID_C,
    CHAN_C OR NONEOS_C OR ALPHA_C OR NICK_C OR UID_C,
    CHAN_C OR NONEOS_C OR ALPHA_C OR NICK_C OR UID_C,
    CHAN_C OR NONEOS_C OR ALPHA_C OR NICK_C OR UID_C,
    CHAN_C OR NONEOS_C OR ALPHA_C OR NICK_C OR UID_C,
    CHAN_C OR NONEOS_C OR ALPHA_C OR NICK_C OR UID_C,
    CHAN_C OR NONEOS_C OR ALPHA_C OR NICK_C OR UID_C,
    CHAN_C OR NONEOS_C OR ALPHA_C OR NICK_C OR UID_C,
    CHAN_C OR NONEOS_C OR ALPHA_C OR NICK_C OR UID_C,
    CHAN_C OR NONEOS_C OR ALPHA_C OR NICK_C OR UID_C,
    CHAN_C OR NONEOS_C OR ALPHA_C OR NICK_C OR UID_C,
    CHAN_C OR NONEOS_C OR ALPHA_C OR NICK_C OR UID_C,
    CHAN_C OR NONEOS_C OR ALPHA_C OR NICK_C OR UID_C,
    CHAN_C OR NONEOS_C OR ALPHA_C OR NICK_C OR UID_C,
    CHAN_C OR NONEOS_C OR ALPHA_C OR NICK_C OR UID_C,
    CHAN_C OR NONEOS_C OR ALPHA_C OR NICK_C OR UID_C,
    CHAN_C OR NONEOS_C OR ALPHA_C OR NICK_C OR UID_C,
    CHAN_C OR NONEOS_C OR ALPHA_C OR NICK_C OR UID_C,
    CHAN_C OR NONEOS_C OR ALPHA_C OR NICK_C OR UID_C,
    CHAN_C OR NONEOS_C OR ALPHA_C OR NICK_C OR UID_C,
    CHAN_C OR NONEOS_C OR ALPHA_C OR NICK_C OR UID_C,
    CHAN_C OR NONEOS_C OR ALPHA_C OR NICK_C OR UID_C, CHAN_C OR NONEOS_C]"

text \<open>The table is these two halves.\<close>

definition chars :: "32 word list" where
  "chars = chars_low @ chars_high"

section \<open>Class tests\<close>

definition chars_at :: "char \<Rightarrow> 32 word" where
  "chars_at c = chars ! ord c"

definition chars_ishostchar :: "char \<Rightarrow> bool" where
  "chars_ishostchar c \<longleftrightarrow> chars_at c AND HOST_C \<noteq> 0"

definition chars_isuserchar :: "char \<Rightarrow> bool" where
  "chars_isuserchar c \<longleftrightarrow> chars_at c AND USER_C \<noteq> 0"

definition chars_ischanprefix :: "char \<Rightarrow> bool" where
  "chars_ischanprefix c \<longleftrightarrow> chars_at c AND CHANPFX_C \<noteq> 0"

definition chars_ischanchar :: "char \<Rightarrow> bool" where
  "chars_ischanchar c \<longleftrightarrow> chars_at c AND CHAN_C \<noteq> 0"

definition chars_iskwildchar :: "char \<Rightarrow> bool" where
  "chars_iskwildchar c \<longleftrightarrow> chars_at c AND KWILD_C \<noteq> 0"

definition chars_isnickchar :: "char \<Rightarrow> bool" where
  "chars_isnickchar c \<longleftrightarrow> chars_at c AND NICK_C \<noteq> 0"

definition chars_isuidchar :: "char \<Rightarrow> bool" where
  "chars_isuidchar c \<longleftrightarrow> chars_at c AND UID_C \<noteq> 0"

definition chars_isservchar :: "char \<Rightarrow> bool" where
  "chars_isservchar c \<longleftrightarrow> chars_at c AND (NICK_C OR SERV_C) \<noteq> 0"

definition chars_iscntrl :: "char \<Rightarrow> bool" where
  "chars_iscntrl c \<longleftrightarrow> chars_at c AND CNTRL_C \<noteq> 0"

definition chars_isalpha :: "char \<Rightarrow> bool" where
  "chars_isalpha c \<longleftrightarrow> chars_at c AND ALPHA_C \<noteq> 0"

definition chars_isspace :: "char \<Rightarrow> bool" where
  "chars_isspace c \<longleftrightarrow> chars_at c AND SPACE_C \<noteq> 0"

definition chars_isdigit :: "char \<Rightarrow> bool" where
  "chars_isdigit c \<longleftrightarrow> chars_at c AND DIGIT_C \<noteq> 0"

definition chars_isalnum :: "char \<Rightarrow> bool" where
  "chars_isalnum c \<longleftrightarrow> chars_at c AND (DIGIT_C OR ALPHA_C) \<noteq> 0"

definition chars_isprint :: "char \<Rightarrow> bool" where
  "chars_isprint c \<longleftrightarrow> chars_at c AND PRINT_C \<noteq> 0"

definition chars_isascii :: "char \<Rightarrow> bool" where
  "chars_isascii c \<longleftrightarrow> ord c < 0x80"

definition chars_ispunct :: "char \<Rightarrow> bool" where
  "chars_ispunct c \<longleftrightarrow> \<not> (chars_at c AND (CNTRL_C OR ALPHA_C OR DIGIT_C) \<noteq> 0)"

definition chars_isnoneos :: "char \<Rightarrow> bool" where
  "chars_isnoneos c \<longleftrightarrow> chars_at c AND NONEOS_C \<noteq> 0"

definition chars_iseol :: "char \<Rightarrow> bool" where
  "chars_iseol c \<longleftrightarrow> chars_at c AND EOL_C \<noteq> 0"

section \<open>Validators\<close>

fun valid_host_loop :: "string \<Rightarrow> nat \<Rightarrow> bool" where
  "valid_host_loop s dot =
     (if cur s = NUL then dot > 0
      else if \<not> chars_ishostchar (cur s) then False
      else valid_host_loop (tl s) (if cur s = CHR ''.'' then Suc dot else dot))"

definition chars_valid_host :: "string option \<Rightarrow> bool" where
  "chars_valid_host s = (case s of None \<Rightarrow> False | Some s \<Rightarrow>
     if cur s = CHR ''.'' then False else valid_host_loop s 0)"

fun valid_loop :: "(char \<Rightarrow> bool) \<Rightarrow> string \<Rightarrow> bool" where
  "valid_loop is_char s =
     (if cur s = NUL then True
      else if \<not> is_char (cur s) then False
      else valid_loop is_char (tl s))"

definition chars_valid_user :: "string option \<Rightarrow> bool" where
  "chars_valid_user s = (case s of None \<Rightarrow> False | Some s \<Rightarrow>
     valid_loop chars_isuserchar (if cur s = CHR ''~'' then tl s else s))"

definition chars_valid_nick :: "string option \<Rightarrow> bool" where
  "chars_valid_nick s = (case s of None \<Rightarrow> False | Some s \<Rightarrow>
     if chars_isdigit (cur s) \<or> cur s = CHR ''-'' then False
     else valid_loop chars_isnickchar s)"

definition chars_valid_chan :: "string option \<Rightarrow> bool" where
  "chars_valid_chan s = (case s of None \<Rightarrow> False | Some s \<Rightarrow> valid_loop chars_ischanchar s)"

declare valid_host_loop.simps [simp del] valid_loop.simps [simp del]

section \<open>The classes, byte by byte\<close>

lemmas flag_defs = PRINT_C_def CNTRL_C_def ALPHA_C_def PUNCT_C_def DIGIT_C_def SPACE_C_def
  NICK_C_def CHAN_C_def KWILD_C_def CHANPFX_C_def USER_C_def HOST_C_def NONEOS_C_def SERV_C_def
  EOL_C_def UID_C_def

definition letter_or_digit :: "nat \<Rightarrow> bool" where
  "letter_or_digit n \<longleftrightarrow> 48 \<le> n \<and> n \<le> 57 \<or> 65 \<le> n \<and> n \<le> 90 \<or> 97 \<le> n \<and> n \<le> 122"

definition nick_byte :: "nat \<Rightarrow> bool" where
  "nick_byte n \<longleftrightarrow> n = 45 \<or> 48 \<le> n \<and> n \<le> 57 \<or> 65 \<le> n \<and> n \<le> 125 \<or>
     192 \<le> n \<and> n \<le> 254 \<and> n \<noteq> 223"

definition user_byte :: "nat \<Rightarrow> bool" where
  "user_byte n \<longleftrightarrow> n = 36 \<or> n = 45 \<or> n = 46 \<or> 48 \<le> n \<and> n \<le> 57 \<or> 65 \<le> n \<and> n \<le> 126"

definition host_byte :: "nat \<Rightarrow> bool" where
  "host_byte n \<longleftrightarrow> n = 45 \<or> n = 46 \<or> n = 58 \<or> letter_or_digit n"

definition chan_byte :: "nat \<Rightarrow> bool" where
  "chan_byte n \<longleftrightarrow> n \<noteq> 0 \<and> n \<noteq> 7 \<and> n \<noteq> 32 \<and> n \<noteq> 44"

definition alpha_byte :: "nat \<Rightarrow> bool" where
  "alpha_byte n \<longleftrightarrow> 65 \<le> n \<and> n \<le> 94 \<or> 97 \<le> n \<and> n \<le> 126 \<or>
     192 \<le> n \<and> n \<le> 254 \<and> n \<noteq> 223"

lemma class_tables:
  "map (\<lambda>x. x AND NICK_C \<noteq> 0) chars = map nick_byte [0..<256]"
  "map (\<lambda>x. x AND USER_C \<noteq> 0) chars = map user_byte [0..<256]"
  "map (\<lambda>x. x AND HOST_C \<noteq> 0) chars = map host_byte [0..<256]"
  "map (\<lambda>x. x AND CHAN_C \<noteq> 0) chars = map chan_byte [0..<256]"
  "map (\<lambda>x. x AND ALPHA_C \<noteq> 0) chars = map alpha_byte [0..<256]"
  "map (\<lambda>x. x AND DIGIT_C \<noteq> 0) chars = map (\<lambda>n. 48 \<le> n \<and> n \<le> 57) [0..<256]"
  by code_simp+

lemma table_at:
  assumes "map f chars = map g [0..<256]"
  shows "f (chars_at c) \<longleftrightarrow> g (ord c)"
proof -
  have "length chars = 256" using arg_cong[OF assms, of length] by simp
  then have "f (chars_at c) = map f chars ! ord c" by (simp add: chars_at_def)
  also have "\<dots> = map g [0..<256] ! ord c" by (simp only: assms)
  also have "\<dots> = g (ord c)" by simp
  finally show ?thesis .
qed

lemma class_tests:
  "chars_isnickchar c \<longleftrightarrow> nick_byte (ord c)" "chars_isuserchar c \<longleftrightarrow> user_byte (ord c)"
  "chars_ishostchar c \<longleftrightarrow> host_byte (ord c)" "chars_ischanchar c \<longleftrightarrow> chan_byte (ord c)"
  "chars_isalpha c \<longleftrightarrow> alpha_byte (ord c)" "chars_isdigit c \<longleftrightarrow> 48 \<le> ord c \<and> ord c \<le> 57"
  using class_tables[THEN table_at, of c]
  by (simp_all add: chars_isnickchar_def chars_isuserchar_def chars_ishostchar_def
      chars_ischanchar_def chars_isalpha_def chars_isdigit_def)

section \<open>The validators\<close>

lemma valid_loop_iff: "valid_loop is_char s \<longleftrightarrow> (\<forall>c \<in> set (cstr s). is_char c)"
proof (induction is_char s rule: valid_loop.induct)
  case (1 is_char s)
  then show ?case by (subst valid_loop.simps, cases s) auto
qed

lemma valid_host_loop_iff: "valid_host_loop s dot \<longleftrightarrow>
    (\<forall>c \<in> set (cstr s). chars_ishostchar c) \<and> (dot > 0 \<or> CHR ''.'' \<in> set (cstr s))"
proof (induction s dot rule: valid_host_loop.induct)
  case (1 s dot)
  then show ?case by (subst valid_host_loop.simps, cases s) auto
qed

lemma valid_nick_iff: "chars_valid_nick (Some s) \<longleftrightarrow>
    (\<forall>c \<in> set (cstr s). nick_byte (ord c)) \<and> \<not> chars_isdigit (cur s) \<and> cur s \<noteq> CHR ''-''"
  by (auto simp: chars_valid_nick_def valid_loop_iff class_tests)

lemma valid_user_iff: "chars_valid_user (Some s) \<longleftrightarrow> (\<forall>c \<in> set (cstr s). user_byte (ord c))"
  by (cases s) (auto simp: chars_valid_user_def valid_loop_iff class_tests user_byte_def)

lemma valid_host_iff: "chars_valid_host (Some s) \<longleftrightarrow>
    (\<forall>c \<in> set (cstr s). host_byte (ord c)) \<and> CHR ''.'' \<in> set (cstr s) \<and> cur s \<noteq> CHR ''.''"
  by (auto simp: chars_valid_host_def valid_host_loop_iff class_tests)

lemma valid_chan_iff: "chars_valid_chan (Some s) \<longleftrightarrow> (\<forall>c \<in> set (cstr s). chan_byte (ord c))"
  by (simp add: chars_valid_chan_def valid_loop_iff class_tests)

section \<open>The properties\<close>

text \<open>C35. The four validators decide these languages: a nick is any word over letters,
  digits, dash, brackets, caret, underscore, backquote and braces and Latin-1 letters that starts with neither a digit nor a
  dash; a user name one over letters, digits, dollar, dash, dot and the same marks with the
  tilde; a host name one over letters, digits, dash, dot and colon with a dot, though not as
  its first byte; a channel name any word without BEL, blank and comma. The empty word is a
  valid nick, user and channel name; NULL is never valid.\<close>

theorem validators_exact:
  "(chars_valid_nick (Some s) \<longleftrightarrow> (\<forall>c \<in> set (cstr s). nick_byte (ord c)) \<and>
      \<not> (48 \<le> ord (cur s) \<and> ord (cur s) \<le> 57) \<and> cur s \<noteq> CHR ''-'') \<and>
   (chars_valid_user (Some s) \<longleftrightarrow> (\<forall>c \<in> set (cstr s). user_byte (ord c))) \<and>
   (chars_valid_host (Some s) \<longleftrightarrow> (\<forall>c \<in> set (cstr s). host_byte (ord c)) \<and>
      CHR ''.'' \<in> set (cstr s) \<and> cur s \<noteq> CHR ''.'') \<and>
   (chars_valid_chan (Some s) \<longleftrightarrow> (\<forall>c \<in> set (cstr s). chan_byte (ord c))) \<and>
   \<not> chars_valid_nick None \<and> \<not> chars_valid_user None \<and> \<not> chars_valid_host None \<and>
   \<not> chars_valid_chan None"
  by (simp add: valid_nick_iff valid_user_iff valid_host_iff valid_chan_iff class_tests)
    (simp add: chars_valid_nick_def chars_valid_user_def chars_valid_host_def chars_valid_chan_def)

lemma validators_exact_witness:
  "chars_valid_nick (Some []) \<and> \<not> chars_valid_nick (Some ''9a'')"
  using validators_exact[of "[]"] validators_exact[of "''9a''"] by simp

text \<open>The parts of a prefix \<open>nick!user@host\<close> contain none of its separators and
  no wildcard: a valid nick, user or host name has no exclamation mark, at sign, blank, comma,
  asterisk, question mark, carriage return or line feed, and a valid nick or host name is no
  channel name, since it has no number sign, ampersand or plus.\<close>

theorem prefix_parts_separate:
  assumes "chars_valid_nick (Some n)" "chars_valid_user (Some u)" "chars_valid_host (Some h)"
  shows "set (cstr n @ cstr u @ cstr h) \<inter>
      {CHR ''!'', CHR ''@'', CHR '' '', CHR '','', CHR ''*'', CHR ''?'', CHR 0x0A, CHR 0x0D} = {} \<and>
    set (cstr n @ cstr h) \<inter> {CHR ''#'', CHR ''&'', CHR ''+''} = {}"
proof -
  have "nick_byte (ord c) \<or> user_byte (ord c) \<or> host_byte (ord c)" if "c \<in> set (cstr n @ cstr u @ cstr h)" for c
    using that assms by (auto simp: valid_nick_iff valid_user_iff valid_host_iff)
  moreover have "nick_byte (ord c) \<or> host_byte (ord c)" if "c \<in> set (cstr n @ cstr h)" for c
    using that assms by (auto simp: valid_nick_iff valid_host_iff)
  moreover have "\<not> (nick_byte (ord c) \<or> user_byte (ord c) \<or> host_byte (ord c))"
    if "c \<in> {CHR ''!'', CHR ''@'', CHR '' '', CHR '','', CHR ''*'', CHR ''?'', CHR 0x0A, CHR 0x0D}" for c
    using that by (auto simp: nick_byte_def user_byte_def host_byte_def letter_or_digit_def)
  moreover have "\<not> (nick_byte (ord c) \<or> host_byte (ord c))" if "c \<in> {CHR ''#'', CHR ''&'', CHR ''+''}" for c
    using that by (auto simp: nick_byte_def host_byte_def letter_or_digit_def)
  ultimately show ?thesis by blast
qed

lemma prefix_parts_witness:
  "set (cstr ''al'' @ cstr ''~al'' @ cstr ''a.b'') \<inter>
     {CHR ''!'', CHR ''@'', CHR '' '', CHR '','', CHR ''*'', CHR ''?'', CHR 0x0A, CHR 0x0D} = {}"
  using prefix_parts_separate[of "''al''" "''~al''" "''a.b''"]
  by (simp add: valid_nick_iff valid_user_iff valid_host_iff class_tests nick_byte_def user_byte_def
      host_byte_def letter_or_digit_def)

end
