(* ===== verification/Registry.thy ===== *)
theory Registry
  imports Cstr Hash "HOL-Library.Monad_Syntax"
begin

text \<open>
  Registries of the daemon: commands, connection classes and channels are kept in lists of
  pointers and looked up by name, ignoring case, with a hash compared first. A list of the
  library is the HOL list of its data pointers, as the list routines are shown to behave like
  that; unlinking a node that is not in the list is undefined in C and \<open>None\<close> here.
  The locale \<open>name_registry\<close> states what a lookup promises, and its extension
  \<open>dynamic_registry\<close> what linking and unlinking an entry promises; the components
  interpret them.
\<close>

section \<open>Lists of pointers\<close>

type_synonym ptr = nat

text \<open>\<open>hash % n\<close>, the index of a bucket.\<close>

definition hash_index :: "64 word \<Rightarrow> nat \<Rightarrow> nat" where
  "hash_index h n = unat h mod n"

lemma hash_index_less [simp]: "0 < n \<Longrightarrow> hash_index h n < n"
  by (simp add: hash_index_def)

definition unlink :: "'p \<Rightarrow> 'p list \<Rightarrow> 'p list option" where
  "unlink p ps = (if p \<in> set ps then Some (remove1 p ps) else None)"

lemma unlink_distinct: "distinct ps \<Longrightarrow> unlink p ps = (if p \<in> set ps then Some (removeAll p ps) else None)"
  by (simp add: unlink_def distinct_remove1_removeAll)

text \<open>\<open>dlink_foreach(list, p) if(test(p)) return p;\<close> where the test may fault.\<close>

fun search :: "('p \<Rightarrow> bool option) \<Rightarrow> 'p list \<Rightarrow> 'p option option" where
  "search test [] = Some None"
| "search test (p # ps) = do {
     b \<leftarrow> test p;
     if b then Some (Some p) else search test ps }"

lemma search_find:
  "(\<And>p. p \<in> set ps \<Longrightarrow> test p = Some (P p)) \<Longrightarrow> search test ps = Some (List.find P ps)"
  by (induction ps) auto

lemma find_cong': "(\<And>p. p \<in> set ps \<Longrightarrow> P p = Q p) \<Longrightarrow> List.find P ps = List.find Q ps"
  by (induction ps) auto

lemma find_append: "List.find P (xs @ ys) = (case List.find P xs of None \<Rightarrow> List.find P ys | r \<Rightarrow> r)"
  by (induction xs) auto

lemma find_None: "List.find P xs = None \<longleftrightarrow> (\<forall>x \<in> set xs. \<not> P x)"
  by (induction xs) auto

lemma find_removeAll: "\<not> P p \<Longrightarrow> List.find P (removeAll p xs) = List.find P xs"
  by (induction xs) auto

lemma find_SomeD: "List.find P xs = Some p \<Longrightarrow> p \<in> set xs \<and> P p"
  by (induction xs) (auto split: if_splits)

lemma find_only:
  assumes "p \<in> set xs" "P p" "\<And>q. q \<in> set xs \<Longrightarrow> P q \<Longrightarrow> q = p"
  shows "List.find P xs = Some p"
proof (cases "List.find P xs")
  case None
  then show ?thesis using assms(1,2) by (auto simp: find_None)
next
  case (Some q)
  then show ?thesis using find_SomeD[OF Some] assms(3)[of q] by simp
qed

lemma find_concat_bucket:
  assumes "i < length tab" "\<And>j p. j < length tab \<Longrightarrow> p \<in> set (tab ! j) \<Longrightarrow> P p \<Longrightarrow> j = i"
  shows "List.find P (concat tab) = List.find P (tab ! i)"
  using assms
proof (induction tab arbitrary: i)
  case (Cons ps tab)
  show ?case
  proof (cases i)
    case 0
    have "List.find P (concat tab) = None"
      unfolding find_None
    proof
      fix x assume "x \<in> set (concat tab)"
      then obtain k where k: "k < length tab" "x \<in> set (tab ! k)"
        by (force simp: in_set_conv_nth)
      then show "\<not> P x" using Cons.prems(2)[of "Suc k" x] 0 by auto
    qed
    then show ?thesis using 0 by (simp add: find_append split: option.split)
  next
    case (Suc k)
    have "List.find P ps = None"
      unfolding find_None using Cons.prems(2)[of 0] Suc by auto
    moreover have "List.find P (concat tab) = List.find P (tab ! k)"
    proof (rule Cons.IH)
      show "k < length tab" using Cons.prems(1) Suc by simp
      show "j = k" if "j < length tab" "p \<in> set (tab ! j)" "P p" for j p
        using Cons.prems(2)[of "Suc j" p] that Suc by simp
    qed
    ultimately show ?thesis using Suc by (simp add: find_append)
  qed
qed simp

section \<open>Names\<close>

text \<open>Two names are the same to \<open>str_icmp\<close>.\<close>

definition same_name :: "string \<Rightarrow> string \<Rightarrow> bool" where
  "same_name s t \<longleftrightarrow> str_lower (cstr s) = str_lower (cstr t)"

lemma same_name_refl [simp]: "same_name s s"
  by (simp add: same_name_def)

lemma same_name_sym: "same_name s t \<longleftrightarrow> same_name t s"
  by (auto simp: same_name_def)

lemma same_name_trans: "same_name s t \<Longrightarrow> same_name t u \<Longrightarrow> same_name s u"
  by (simp add: same_name_def)

lemma same_name_trans2: "same_name s u \<Longrightarrow> same_name t u \<Longrightarrow> same_name s t"
  by (simp add: same_name_def)

lemma str_icmp_same_name: "str_icmp s t = 0 \<longleftrightarrow> same_name s t"
  by (simp add: str_icmp_0 same_name_def)

lemma str_ihash_same_name: "same_name s t \<Longrightarrow> str_ihash shl (Some s) = str_ihash shl (Some t)"
  by (simp add: same_name_def str_ihash_def ihash_loop_cstr)

text \<open>The string in an array of \<open>n\<close> characters after \<open>strlcpy\<close> into it.\<close>

definition field :: "nat \<Rightarrow> string \<Rightarrow> string" where
  "field n s = take (n - 1) (cstr s)"

lemma field_strlcpy:
  assumes "0 < n" "length d = n"
  obtains d' k where "strlcpy d s n = Some (d', k)" "cstr d' = field n s"
proof -
  obtain d' k where "strlcpy d s n = Some (d', k)"
    using strlcpy_result[of n d s] assms by (auto simp: Let_def)
  then show ?thesis
    using that strlcpy_cstr[of n d s d' k] assms by (simp add: field_def)
qed

lemma no_nul_field [simp]: "no_nul (field n s)"
  by (simp add: field_def no_nul_take)

lemma length_field: "length (field n s) \<le> n - 1"
  by (simp add: field_def)

lemma field_id: "no_nul s \<Longrightarrow> length s < n \<Longrightarrow> field n s = s"
  by (simp add: field_def)

lemma same_name_length: "same_name s t \<Longrightarrow> length (cstr s) = length (cstr t)"
  by (metis length_map same_name_def str_lower_def)

lemma same_name_field: "0 < n \<Longrightarrow> same_name (field n s) s \<longleftrightarrow> length (cstr s) < n"
  using same_name_length[of "field n s" s] by (auto simp: field_def same_name_def no_nul_take)

text \<open>Appending to, and unlinking from, one bucket.\<close>

lemma concat_update:
  "i < length tab \<Longrightarrow> concat (tab[i := ps]) = concat (take i tab) @ ps @ concat (drop (Suc i) tab)"
  by (simp add: upd_conv_take_nth_drop)

lemma concat_split:
  "i < length tab \<Longrightarrow> concat tab = concat (take i tab) @ tab ! i @ concat (drop (Suc i) tab)"
  using concat_update[of i tab "tab ! i"] by simp

lemma bucket_append:
  assumes "i < length tab" "p \<notin> set (concat tab)" "distinct (concat tab)"
  shows "distinct (concat (tab[i := tab ! i @ [p]]))"
    "removeAll p (concat (tab[i := tab ! i @ [p]])) = concat tab"
    "p \<in> set (concat (tab[i := tab ! i @ [p]]))"
proof -
  have "p \<notin> set (concat (take i tab)) \<union> set (tab ! i) \<union> set (concat (drop (Suc i) tab))"
    using assms(1,2) by (subst (asm) concat_split[of i]) auto
  moreover have "distinct (concat (take i tab) @ tab ! i @ concat (drop (Suc i) tab))"
    using assms(1,3) by (subst (asm) concat_split[of i]) auto
  ultimately show "distinct (concat (tab[i := tab ! i @ [p]]))"
    "removeAll p (concat (tab[i := tab ! i @ [p]])) = concat tab"
    "p \<in> set (concat (tab[i := tab ! i @ [p]]))"
    unfolding concat_update[OF assms(1)] concat_split[OF assms(1)] by auto
qed

lemma bucket_unlink:
  assumes "i < length tab" "p \<in> set (tab ! i)" "distinct (concat tab)"
  shows "unlink p (tab ! i) = Some (removeAll p (tab ! i))"
    "concat (tab[i := removeAll p (tab ! i)]) = removeAll p (concat tab)"
proof -
  have d: "distinct (concat (take i tab) @ tab ! i @ concat (drop (Suc i) tab))"
    using assms(1,3) by (subst (asm) concat_split[of i]) auto
  then show "unlink p (tab ! i) = Some (removeAll p (tab ! i))"
    using assms(2) by (simp add: unlink_distinct)
  have "p \<notin> set (concat (take i tab)) \<union> set (concat (drop (Suc i) tab))"
    using d assms(2) by auto
  then show "concat (tab[i := removeAll p (tab ! i)]) = removeAll p (concat tab)"
    unfolding concat_update[OF assms(1)] concat_split[OF assms(1)] by auto
qed

text \<open>A hash table: every entry once, in the bucket its hash selects. The test of the hash
  before the name does not change what a search of the bucket finds.\<close>

definition hashed_table :: "('p \<Rightarrow> 64 word) \<Rightarrow> 'p list list \<Rightarrow> bool" where
  "hashed_table hash tab \<longleftrightarrow> distinct (concat tab) \<and>
     (\<forall>j < length tab. \<forall>p \<in> set (tab ! j). j = hash_index (hash p) (length tab))"

lemma in_bucket_concat: "j < length tab \<Longrightarrow> p \<in> set (tab ! j) \<Longrightarrow> p \<in> set (concat tab)"
  by (auto intro: nth_mem)

lemma hashed_table_bucket:
  assumes "hashed_table hash tab" "p \<in> set (concat tab)"
  shows "p \<in> set (tab ! hash_index (hash p) (length tab))" "hash_index (hash p) (length tab) < length tab"
proof -
  from assms(2) obtain j where "j < length tab" "p \<in> set (tab ! j)"
    by (force simp: in_set_conv_nth)
  then show "p \<in> set (tab ! hash_index (hash p) (length tab))"
    "hash_index (hash p) (length tab) < length tab"
    using assms(1) unfolding hashed_table_def by metis+
qed

lemma hashed_table_empty: "hashed_table hash (replicate n [])"
  by (simp add: hashed_table_def)

lemma hashed_table_append:
  assumes t: "hashed_table hash tab" and p: "p \<notin> set (concat tab)"
    and same: "\<And>q. q \<in> set (concat tab) \<Longrightarrow> hash' q = hash q"
    and i: "i = hash_index (hash' p) (length tab)" "i < length tab"
  shows "hashed_table hash' (tab[i := tab ! i @ [p]])"
  unfolding hashed_table_def
proof (intro conjI allI impI ballI)
  show "distinct (concat (tab[i := tab ! i @ [p]]))"
    using bucket_append(1)[OF i(2) p] t by (simp add: hashed_table_def)
  fix j q assume j: "j < length (tab[i := tab ! i @ [p]])" and q: "q \<in> set (tab[i := tab ! i @ [p]] ! j)"
  show "j = hash_index (hash' q) (length (tab[i := tab ! i @ [p]]))"
  proof (cases "q = p")
    case True
    then have "j = i" using q j p in_bucket_concat[of j tab p] by (cases "j = i") auto
    then show ?thesis using True i by simp
  next
    case False
    then have "q \<in> set (tab ! j)" using q j by (cases "j = i") auto
    then show ?thesis
      using t j same[OF in_bucket_concat[of j tab q]] by (simp add: hashed_table_def)
  qed
qed

lemma hashed_table_unlink:
  assumes t: "hashed_table hash tab" and i: "i < length tab" "p \<in> set (tab ! i)"
  shows "hashed_table hash (tab[i := removeAll p (tab ! i)])"
  unfolding hashed_table_def
proof (intro conjI allI impI ballI)
  show "distinct (concat (tab[i := removeAll p (tab ! i)]))"
    using bucket_unlink(2)[OF i] t by (simp add: hashed_table_def distinct_removeAll)
  fix j q assume "j < length (tab[i := removeAll p (tab ! i)])"
    "q \<in> set (tab[i := removeAll p (tab ! i)] ! j)"
  then show "j = hash_index (hash q) (length (tab[i := removeAll p (tab ! i)]))"
    using t i by (cases "j = i") (auto simp: hashed_table_def)
qed

lemma hashed_search:
  assumes t: "hashed_table hash tab" "0 < length tab"
    and i: "i = hash_index (str_ihash shl (Some n)) (length tab)"
    and h: "\<And>p. p \<in> set (concat tab) \<Longrightarrow> hash p = str_ihash shl (Some (name p))"
  shows "List.find (\<lambda>p. hash p = str_ihash shl (Some n) \<and> str_icmp (name p) n = 0) (tab ! i) =
    List.find (\<lambda>p. same_name (name p) n) (concat tab)"
proof -
  have len: "i < length tab" using t(2) i by simp
  have "List.find (\<lambda>p. same_name (name p) n) (concat tab) =
      List.find (\<lambda>p. same_name (name p) n) (tab ! i)"
  proof (rule find_concat_bucket[OF len])
    fix j p assume jp: "j < length tab" "p \<in> set (tab ! j)" "same_name (name p) n"
    have "j = hash_index (hash p) (length tab)" using t(1) jp by (simp add: hashed_table_def)
    then show "j = i"
      using h[OF in_bucket_concat[OF jp(1,2)]] str_ihash_same_name[OF jp(3), of shl] i by simp
  qed
  also have "\<dots> = List.find (\<lambda>p. hash p = str_ihash shl (Some n) \<and> str_icmp (name p) n = 0) (tab ! i)"
  proof (rule find_cong')
    fix p assume "p \<in> set (tab ! i)"
    then show "same_name (name p) n = (hash p = str_ihash shl (Some n) \<and> str_icmp (name p) n = 0)"
      using h[OF in_bucket_concat[OF len]] str_ihash_same_name[of "name p" n shl]
      by (auto simp: str_icmp_same_name)
  qed
  finally show ?thesis by simp
qed

section \<open>The interfaces\<close>

locale name_registry =
  fixes wf :: "'s \<Rightarrow> bool" and entries :: "'s \<Rightarrow> 'p list" and name_of :: "'s \<Rightarrow> 'p \<Rightarrow> string"
    and lookup :: "'s \<Rightarrow> string \<Rightarrow> 'p option option"
  assumes lookup_law: "wf s \<Longrightarrow> lookup s n = Some (List.find (\<lambda>p. same_name (name_of s p) n) (entries s))"
begin

definition unique :: "'s \<Rightarrow> bool" where
  "unique s \<longleftrightarrow> (\<forall>p \<in> set (entries s). \<forall>q \<in> set (entries s).
     same_name (name_of s p) (name_of s q) \<longrightarrow> p = q)"

lemma lookup_total: "wf s \<Longrightarrow> lookup s n \<noteq> None"
  by (simp add: lookup_law)

lemma lookup_None: "wf s \<Longrightarrow> lookup s n = Some None \<longleftrightarrow> (\<forall>p \<in> set (entries s). \<not> same_name (name_of s p) n)"
  by (simp add: lookup_law find_None)

lemma lookup_Some:
  "wf s \<Longrightarrow> lookup s n = Some (Some p) \<Longrightarrow> p \<in> set (entries s) \<and> same_name (name_of s p) n"
  by (auto simp: lookup_law dest: find_SomeD)

lemma lookup_case: "wf s \<Longrightarrow> same_name n m \<Longrightarrow> lookup s n = lookup s m"
  by (auto simp: lookup_law same_name_def)

lemma lookup_entry:
  "wf s \<Longrightarrow> unique s \<Longrightarrow> p \<in> set (entries s) \<Longrightarrow> same_name (name_of s p) n \<Longrightarrow> lookup s n = Some (Some p)"
  unfolding lookup_law unique_def by (auto intro!: find_only dest: same_name_trans2)

end

locale dynamic_registry = name_registry wf entries name_of lookup
  for wf :: "'s \<Rightarrow> bool" and entries :: "'s \<Rightarrow> 'p list" and name_of and lookup +
  fixes linkable :: "'s \<Rightarrow> 'p \<Rightarrow> bool" and link :: "'s \<Rightarrow> 'p \<Rightarrow> 's option"
    and drop :: "'s \<Rightarrow> 'p \<Rightarrow> 's option"
  assumes link_law: "wf s \<Longrightarrow> linkable s p \<Longrightarrow> \<exists>s'. link s p = Some s' \<and> wf s' \<and>
      p \<in> set (entries s') \<and> removeAll p (entries s') = entries s \<and> name_of s' = name_of s"
    and drop_law: "wf s \<Longrightarrow> p \<in> set (entries s) \<Longrightarrow> \<exists>s'. drop s p = Some s' \<and> wf s' \<and>
      entries s' = removeAll p (entries s) \<and> (\<forall>q \<in> set (entries s'). name_of s' q = name_of s q)"
begin

lemma link_lookup:
  assumes "wf s" "linkable s p"
  obtains s' where "link s p = Some s'" "wf s'"
    "\<And>n. \<not> same_name (name_of s p) n \<Longrightarrow> lookup s' n = lookup s n"
    "\<And>n. same_name (name_of s p) n \<Longrightarrow> lookup s n = Some None \<Longrightarrow> lookup s' n = Some (Some p)"
proof -
  from link_law[OF assms] obtain s' where s': "link s p = Some s'" "wf s'" "p \<in> set (entries s')"
    "removeAll p (entries s') = entries s" "name_of s' = name_of s" by blast
  show ?thesis
  proof
    fix n
    show "lookup s' n = lookup s n" if "\<not> same_name (name_of s p) n"
      using that s' assms(1) find_removeAll[of "\<lambda>q. same_name (name_of s q) n" p "entries s'"]
      by (simp add: lookup_law)
    show "lookup s' n = Some (Some p)" if n: "same_name (name_of s p) n" "lookup s n = Some None"
    proof -
      have none: "\<not> same_name (name_of s q) n" if "q \<in> set (entries s)" for q
        using n(2) lookup_None[OF assms(1)] that by blast
      have "q = p" if "q \<in> set (entries s')" "same_name (name_of s q) n" for q
        using none[of q] that unfolding s'(4)[symmetric] by auto
      then have "List.find (\<lambda>q. same_name (name_of s q) n) (entries s') = Some p"
        using s'(3) n(1) by (blast intro: find_only)
      then show ?thesis using lookup_law[OF s'(2)] s'(5) by simp
    qed
  qed (use s' in auto)
qed

lemma link_unique:
  assumes "wf s" "linkable s p" "unique s" "lookup s (name_of s p) = Some None" "link s p = Some s'"
  shows "unique s'"
proof -
  from link_law[OF assms(1,2)] assms(5) have s': "removeAll p (entries s') = entries s"
    "name_of s' = name_of s" by auto
  have fresh: "\<not> same_name (name_of s q) (name_of s p)" if "q \<in> set (entries s')" "q \<noteq> p" for q
    using assms(1,4) that by (auto simp: lookup_None simp flip: s'(1))
  have old: "q \<in> set (entries s)" if "q \<in> set (entries s')" "q \<noteq> p" for q
    using that by (auto simp flip: s'(1))
  show ?thesis unfolding unique_def s'(2)
  proof (intro ballI impI)
    fix q r assume qr: "q \<in> set (entries s')" "r \<in> set (entries s')"
      "same_name (name_of s q) (name_of s r)"
    then show "q = r"
      using fresh[of q] fresh[of r] old[of q] old[of r] assms(3) same_name_sym
      by (cases "q = p"; cases "r = p") (unfold unique_def, blast+)
  qed
qed

lemma drop_lookup:
  assumes "wf s" "p \<in> set (entries s)" "unique s"
  obtains s' where "drop s p = Some s'" "wf s'" "unique s'"
    "\<And>n. same_name (name_of s p) n \<Longrightarrow> lookup s' n = Some None"
    "\<And>n. \<not> same_name (name_of s p) n \<Longrightarrow> lookup s' n = lookup s n"
proof -
  from drop_law[OF assms(1,2)] obtain s' where s': "drop s p = Some s'" "wf s'"
    "entries s' = removeAll p (entries s)" "\<And>q. q \<in> set (entries s') \<Longrightarrow> name_of s' q = name_of s q"
    by blast
  have find: "lookup s' n = Some (List.find (\<lambda>q. same_name (name_of s q) n) (removeAll p (entries s)))" for n
    unfolding lookup_law[OF s'(2)] s'(3)[symmetric] option.inject
    by (rule find_cong') (simp add: s'(4))
  show ?thesis
  proof
    show "unique s'" using assms(3) s'(3,4) by (auto simp: unique_def)
    fix n
    show "lookup s' n = Some None" if "same_name (name_of s p) n"
      using assms that by (auto simp: find find_None unique_def dest: same_name_trans2)
    show "lookup s' n = lookup s n" if "\<not> same_name (name_of s p) n"
      using assms(1) that find_removeAll[of "\<lambda>q. same_name (name_of s q) n" p "entries s"]
      by (simp add: find lookup_law)
  qed (use s' in auto)
qed

end

end
