(* ===== verification/Msg.thy ===== *)
theory Msg
  imports Registry
begin

text \<open>
  The command table of src/msg.c: a hash table of \<open>MSG_HASH_SIZE\<close> lists of pointers to
  the \<open>struct msg\<close> of the command modules. A lookup ignores case, a registration
  refuses a name that is taken, and identifiers come from a 32-bit counter.
\<close>

section \<open>State\<close>

text \<open>\<open>struct msg\<close> without its list node; the handlers are indexed by the kind of the
  client.\<close>

record 'h msg =
  mcmd :: string
  margs :: "64 word"
  mmaxargs :: "64 word"
  mflags :: "64 word"
  mhandlers :: "'h option list"
  mhash :: "64 word"
  mcounts :: "32 word list"
  mbytes :: "64 word"
  mid :: "32 word"

definition MSG_HASH_SIZE :: nat where "MSG_HASH_SIZE = 32"

lemma MSG_HASH_SIZE_pos [simp]: "0 < MSG_HASH_SIZE"
  by (simp add: MSG_HASH_SIZE_def)

text \<open>\<open>msg_table\<close>, \<open>msg_id\<close> and the message blocks.\<close>

record 'h msgs =
  mheap :: "ptr \<rightharpoonup> 'h msg"
  msg_table :: "ptr list list"
  msg_id :: "32 word"

definition msg_init :: "(ptr \<rightharpoonup> 'h msg) \<Rightarrow> 'h msgs" where
  "msg_init h = \<lparr>mheap = h, msg_table = replicate MSG_HASH_SIZE [], msg_id = 0\<rparr>"

section \<open>Operations\<close>

definition msg_find :: "(64 word \<Rightarrow> 64 word) \<Rightarrow> 'h msgs \<Rightarrow> string \<Rightarrow> ptr option option" where
  "msg_find shl s name =
     (let hash = str_ihash shl (Some name) in
      search (\<lambda>p. do {
        m \<leftarrow> mheap s p;
        Some (mhash m = hash \<and> str_icmp (mcmd m) name = 0) }) (msg_table s ! hash_index hash MSG_HASH_SIZE))"

definition msg_find_id :: "'h msgs \<Rightarrow> 32 word \<Rightarrow> ptr option option" where
  "msg_find_id s n = search (\<lambda>p. do { m \<leftarrow> mheap s p; Some (mid m = n) }) (concat (msg_table s))"

text \<open>The second half of \<open>msg_register\<close>, and the whole.\<close>

definition msg_link :: "(64 word \<Rightarrow> 64 word) \<Rightarrow> 'h msgs \<Rightarrow> ptr \<Rightarrow> 'h msgs option" where
  "msg_link shl s p = do {
     m \<leftarrow> mheap s p;
     let hash = str_ihash shl (Some (mcmd m));
     let i = hash_index hash MSG_HASH_SIZE;
     Some (s\<lparr>mheap := (mheap s)(p \<mapsto> m\<lparr>mhash := hash, mid := msg_id s\<rparr>), msg_id := msg_id s + 1,
       msg_table := (msg_table s)[i := msg_table s ! i @ [p]]\<rparr>) }"

definition msg_register ::
  "(64 word \<Rightarrow> 64 word) \<Rightarrow> 'h msgs \<Rightarrow> ptr \<Rightarrow> ('h msgs \<times> ptr option) option" where
  "msg_register shl s p = do {
     m \<leftarrow> mheap s p;
     found \<leftarrow> msg_find shl s (mcmd m);
     if found \<noteq> None then Some (s, None)
     else do { s \<leftarrow> msg_link shl s p; Some (s, Some p) } }"

definition msg_unregister :: "'h msgs \<Rightarrow> ptr \<Rightarrow> 'h msgs option" where
  "msg_unregister s p = do {
     m \<leftarrow> mheap s p;
     let i = hash_index (mhash m) MSG_HASH_SIZE;
     ps \<leftarrow> unlink p (msg_table s ! i);
     Some (s\<lparr>msg_table := (msg_table s)[i := ps]\<rparr>) }"

section \<open>Invariant\<close>

abbreviation msg_entries :: "'h msgs \<Rightarrow> ptr list" where
  "msg_entries s \<equiv> concat (msg_table s)"

definition msg_name :: "'h msgs \<Rightarrow> ptr \<Rightarrow> string" where
  "msg_name s p = (case mheap s p of None \<Rightarrow> [] | Some m \<Rightarrow> mcmd m)"

definition msg_hash :: "'h msgs \<Rightarrow> ptr \<Rightarrow> 64 word" where
  "msg_hash s p = (case mheap s p of None \<Rightarrow> 0 | Some m \<Rightarrow> mhash m)"

definition msgs_wf :: "(64 word \<Rightarrow> 64 word) \<Rightarrow> 'h msgs \<Rightarrow> bool" where
  "msgs_wf shl s \<longleftrightarrow> length (msg_table s) = MSG_HASH_SIZE \<and>
     hashed_table (msg_hash s) (msg_table s) \<and>
     (\<forall>p \<in> set (msg_entries s). \<exists>m. mheap s p = Some m \<and> mhash m = str_ihash shl (Some (mcmd m)))"

lemma msgs_wfD:
  assumes "msgs_wf shl s"
  shows "length (msg_table s) = MSG_HASH_SIZE" "hashed_table (msg_hash s) (msg_table s)"
    "distinct (msg_entries s)"
    "p \<in> set (msg_entries s) \<Longrightarrow> \<exists>m. mheap s p = Some m \<and> mhash m = str_ihash shl (Some (mcmd m))"
    "p \<in> set (msg_entries s) \<Longrightarrow> msg_hash s p = str_ihash shl (Some (msg_name s p))"
proof -
  show "p \<in> set (msg_entries s) \<Longrightarrow> \<exists>m. mheap s p = Some m \<and> mhash m = str_ihash shl (Some (mcmd m))"
    using assms unfolding msgs_wf_def by blast
  then show "p \<in> set (msg_entries s) \<Longrightarrow> msg_hash s p = str_ihash shl (Some (msg_name s p))"
    by (auto simp: msg_hash_def msg_name_def)
  show "hashed_table (msg_hash s) (msg_table s)" "length (msg_table s) = MSG_HASH_SIZE"
    using assms unfolding msgs_wf_def by blast+
  then show "distinct (msg_entries s)" by (simp add: hashed_table_def)
qed

lemma msg_find_law:
  assumes wf: "msgs_wf shl s"
  shows "msg_find shl s n = Some (List.find (\<lambda>p. same_name (msg_name s p) n) (msg_entries s))"
proof -
  define i where "i = hash_index (str_ihash shl (Some n)) MSG_HASH_SIZE"
  have i: "i < length (msg_table s)" using msgs_wfD(1)[OF wf] by (simp add: i_def)
  have "msg_find shl s n = Some (List.find
      (\<lambda>p. msg_hash s p = str_ihash shl (Some n) \<and> str_icmp (msg_name s p) n = 0) (msg_table s ! i))"
    unfolding msg_find_def Let_def i_def[symmetric]
  proof (rule search_find)
    fix p assume "p \<in> set (msg_table s ! i)"
    then obtain m where "mheap s p = Some m" using msgs_wfD(4)[OF wf in_bucket_concat[OF i]] by blast
    then show "do { m \<leftarrow> mheap s p; Some (mhash m = str_ihash shl (Some n) \<and> str_icmp (mcmd m) n = 0) } =
        Some (msg_hash s p = str_ihash shl (Some n) \<and> str_icmp (msg_name s p) n = 0)"
      by (simp add: msg_hash_def msg_name_def)
  qed
  also have "List.find (\<lambda>p. msg_hash s p = str_ihash shl (Some n) \<and> str_icmp (msg_name s p) n = 0)
      (msg_table s ! i) = List.find (\<lambda>p. same_name (msg_name s p) n) (msg_entries s)"
    using hashed_search[OF msgs_wfD(2)[OF wf], of i shl n] msgs_wfD[OF wf] by (simp add: i_def)
  finally show ?thesis .
qed

definition msg_linkable :: "'h msgs \<Rightarrow> ptr \<Rightarrow> bool" where
  "msg_linkable s p \<longleftrightarrow> mheap s p \<noteq> None \<and> p \<notin> set (msg_entries s)"

lemma msg_link_law:
  assumes wf: "msgs_wf shl s" and p: "msg_linkable s p"
  shows "\<exists>s'. msg_link shl s p = Some s' \<and> msgs_wf shl s' \<and> p \<in> set (msg_entries s') \<and>
    removeAll p (msg_entries s') = msg_entries s \<and> msg_name s' = msg_name s"
proof -
  from p obtain m where m: "mheap s p = Some m" and new: "p \<notin> set (msg_entries s)"
    by (auto simp: msg_linkable_def)
  define i where "i = hash_index (str_ihash shl (Some (mcmd m))) MSG_HASH_SIZE"
  have i: "i < length (msg_table s)" and len: "length (msg_table s) = MSG_HASH_SIZE"
    using msgs_wfD(1)[OF wf] by (simp_all add: i_def)
  obtain s' where s': "msg_link shl s p = Some s'" by (simp add: msg_link_def m Let_def)
  then have table: "msg_table s' = (msg_table s)[i := msg_table s ! i @ [p]]"
    and heap: "mheap s' = (mheap s)(p \<mapsto> m\<lparr>mhash := str_ihash shl (Some (mcmd m)), mid := msg_id s\<rparr>)"
    by (auto simp: msg_link_def m i_def Let_def)
  note app = bucket_append[OF i new msgs_wfD(3)[OF wf]]
  have ent: "q = p \<or> q \<in> set (msg_entries s)" if "q \<in> set (msg_entries s')" for q
    using that app(2) unfolding table
    by (metis (no_types, lifting) DiffI empty_iff insert_iff set_removeAll)
  have wf': "msgs_wf shl s'"
    unfolding msgs_wf_def
  proof (intro conjI ballI)
    show "length (msg_table s') = MSG_HASH_SIZE" by (simp add: table len)
    show "hashed_table (msg_hash s') (msg_table s')"
      unfolding table using msgs_wfD(2)[OF wf] new
    proof (rule hashed_table_append)
      show "msg_hash s' q = msg_hash s q" if "q \<in> set (msg_entries s)" for q
        using that new by (cases "q = p") (auto simp: msg_hash_def heap)
      show "i = hash_index (msg_hash s' p) (length (msg_table s))"
        by (simp add: msg_hash_def heap i_def len)
    qed (rule i)
    show "\<exists>m. mheap s' q = Some m \<and> mhash m = str_ihash shl (Some (mcmd m))"
      if "q \<in> set (msg_entries s')" for q
      using ent[OF that] msgs_wfD(4)[OF wf, of q] by (auto simp: heap)
  qed
  moreover have "msg_name s' = msg_name s"
    by (rule ext) (simp add: msg_name_def heap m)
  ultimately show ?thesis
    using s' app(2,3) by (simp add: table)
qed

lemma msg_unregister_law:
  assumes wf: "msgs_wf shl s" and p: "p \<in> set (msg_entries s)"
  shows "\<exists>s'. msg_unregister s p = Some s' \<and> msgs_wf shl s' \<and>
    msg_entries s' = removeAll p (msg_entries s) \<and> (\<forall>q \<in> set (msg_entries s'). msg_name s' q = msg_name s q)"
proof -
  obtain m where m: "mheap s p = Some m" using msgs_wfD(4)[OF wf p] by blast
  define i where "i = hash_index (mhash m) MSG_HASH_SIZE"
  have i: "i < length (msg_table s)" "p \<in> set (msg_table s ! i)"
    using hashed_table_bucket[OF msgs_wfD(2)[OF wf] p] msgs_wfD(1)[OF wf]
    by (simp_all add: i_def msg_hash_def m)
  define s' where "s' = s\<lparr>msg_table := (msg_table s)[i := removeAll p (msg_table s ! i)]\<rparr>"
  note unl = bucket_unlink[OF i msgs_wfD(3)[OF wf]]
  have "msg_unregister s p = Some s'"
    using unl(1) by (simp add: msg_unregister_def m s'_def i_def Let_def)
  moreover have e: "msg_entries s' = removeAll p (msg_entries s)"
    using unl(2) by (simp add: s'_def)
  moreover have "msgs_wf shl s'"
    unfolding msgs_wf_def e
  proof (intro conjI ballI)
    have "msg_hash s' = msg_hash s" by (rule ext) (simp add: msg_hash_def s'_def)
    then show "hashed_table (msg_hash s') (msg_table s')"
      using hashed_table_unlink[OF msgs_wfD(2)[OF wf] i] by (simp add: s'_def)
  qed (use msgs_wfD(1,4)[OF wf] in \<open>auto simp: s'_def\<close>)
  moreover have "msg_name s' q = msg_name s q" for q by (simp add: msg_name_def s'_def)
  ultimately show ?thesis by blast
qed

interpretation commands: dynamic_registry "msgs_wf shl" msg_entries msg_name "msg_find shl"
  msg_linkable "msg_link shl" msg_unregister for shl
  by unfold_locales (rule msg_find_law msg_link_law msg_unregister_law, assumption+)+

section \<open>The properties\<close>

lemma msg_init_wf: "msgs_wf shl (msg_init h)"
  by (simp add: msgs_wf_def msg_init_def hashed_table_empty)

lemma msg_init_unique: "commands.unique (msg_init h)"
  by (simp add: commands.unique_def msg_init_def)

text \<open>Modules come and go in any order: the reachable command tables.\<close>

inductive msg_reachable :: "(64 word \<Rightarrow> 64 word) \<Rightarrow> 'h msgs \<Rightarrow> bool" for shl where
  init: "msg_reachable shl (msg_init h)"
| register: "msg_reachable shl s \<Longrightarrow> msg_register shl s p = Some (s', r) \<Longrightarrow> msg_reachable shl s'"
| unregister: "msg_reachable shl s \<Longrightarrow> msg_unregister s p = Some s' \<Longrightarrow> msg_reachable shl s'"

lemma msg_unregister_registered:
  assumes "msgs_wf shl s" "msg_unregister s p = Some s'"
  shows "p \<in> set (msg_entries s)"
proof -
  obtain m where m: "mheap s p = Some m"
    and u: "unlink p (msg_table s ! hash_index (mhash m) MSG_HASH_SIZE) \<noteq> None"
    using assms(2) by (auto simp: msg_unregister_def Let_def bind_eq_Some_conv)
  then have "p \<in> set (msg_table s ! hash_index (mhash m) MSG_HASH_SIZE)"
    by (auto simp: unlink_def split: if_splits)
  then show ?thesis using in_bucket_concat msgs_wfD(1)[OF assms(1)] by (metis MSG_HASH_SIZE_pos hash_index_less)
qed

text \<open>A free name means that the block is not registered already.\<close>

lemma msg_free_linkable:
  assumes "msgs_wf shl s" "mheap s p = Some m" "msg_find shl s (mcmd m) = Some None"
  shows "msg_linkable s p"
proof -
  have "p \<notin> set (msg_entries s)"
  proof
    assume "p \<in> set (msg_entries s)"
    then have "\<not> same_name (msg_name s p) (mcmd m)"
      using assms(3) commands.lookup_None[OF assms(1), of "mcmd m"] by blast
    then show False by (simp add: msg_name_def assms(2))
  qed
  then show ?thesis by (simp add: msg_linkable_def assms(2))
qed

lemma msg_reachable_unique:
  assumes "msg_reachable shl s"
  shows "msgs_wf shl s \<and> commands.unique s"
  using assms
proof (induction rule: msg_reachable.induct)
  case (init h)
  then show ?case by (simp add: msg_init_wf msg_init_unique)
next
  case (register s p s' r)
  then obtain m found where m: "mheap s p = Some m" and f: "msg_find shl s (mcmd m) = Some found"
    by (auto simp: msg_register_def bind_eq_Some_conv)
  show ?case
  proof (cases found)
    case None
    then have l: "msg_linkable s p" and "msg_link shl s p = Some s'"
      using register m f msg_free_linkable by (auto simp: msg_register_def bind_eq_Some_conv)
    moreover have "msg_find shl s (msg_name s p) = Some None"
      using f None m by (simp add: msg_name_def)
    ultimately show ?thesis
      using register.IH commands.link_unique commands.link_lookup by (metis option.inject)
  next
    case (Some q)
    then show ?thesis using register m f by (simp add: msg_register_def)
  qed
next
  case (unregister s p s')
  then show ?case
    using commands.drop_lookup[of shl s p] msg_unregister_registered[of shl s p s'] by auto
qed

text \<open>C36. In every reachable command table the names are unique up to case, a lookup
  returns, and it returns exactly the registered command of that name in any case.\<close>

theorem msg_table_invariant:
  assumes "msg_reachable shl s"
  shows "(\<forall>p \<in> set (msg_entries s). \<forall>q \<in> set (msg_entries s).
      same_name (msg_name s p) (msg_name s q) \<longrightarrow> p = q) \<and>
    (\<exists>r. msg_find shl s n = Some r) \<and>
    (msg_find shl s n = Some (Some p) \<longleftrightarrow> p \<in> set (msg_entries s) \<and> same_name (msg_name s p) n)"
proof -
  have wf: "msgs_wf shl s" and u: "commands.unique s" using msg_reachable_unique[OF assms] by auto
  show ?thesis
    using u commands.lookup_total[OF wf, of n] commands.lookup_Some[OF wf, of n p]
      commands.lookup_entry[OF wf u, of p n]
    unfolding commands.unique_def by blast
qed

text \<open>C37. Registering a command in a reachable table: a taken name is refused and nothing
  changes; otherwise the command is found under its name from then on, every other name as
  before, and unregistering it gives back the lookups there were.\<close>

theorem msg_register_correct:
  assumes "msg_reachable shl s" "mheap s p = Some m"
  shows "\<exists>s' r. msg_register shl s p = Some (s', r) \<and>
    (if msg_find shl s (mcmd m) = Some None
     then r = Some p \<and>
       (\<forall>n. msg_find shl s' n = (if same_name (mcmd m) n then Some (Some p) else msg_find shl s n)) \<and>
       (\<exists>s''. msg_unregister s' p = Some s'' \<and> (\<forall>n. msg_find shl s'' n = msg_find shl s n))
     else r = None \<and> s' = s)"
proof -
  have wf: "msgs_wf shl s" and u: "commands.unique s" using msg_reachable_unique[OF assms(1)] by auto
  have name: "msg_name s p = mcmd m" using assms(2) by (simp add: msg_name_def)
  obtain found where f: "msg_find shl s (mcmd m) = Some found"
    using commands.lookup_total[OF wf, of "mcmd m"] by auto
  show ?thesis
  proof (cases found)
    case None
    note l = msg_free_linkable[OF wf assms(2) f[unfolded None]]
    obtain s' where s': "msg_link shl s p = Some s'" "msgs_wf shl s'"
      and found: "\<And>n. msg_find shl s' n = (if same_name (mcmd m) n then Some (Some p) else msg_find shl s n)"
      using commands.link_lookup[OF wf l] commands.lookup_case[OF wf, of "mcmd m"] f None
      unfolding name by metis
    have u': "commands.unique s'"
      using commands.link_unique[OF wf l u _ s'(1)] f None by (simp add: name)
    obtain names: "msg_name s' = msg_name s" and p: "p \<in> set (msg_entries s')"
      using msg_link_law[OF wf l] s'(1) by auto
    obtain s'' where s'': "msg_unregister s' p = Some s''"
      "\<And>n. msg_find shl s'' n = (if same_name (mcmd m) n then Some None else msg_find shl s' n)"
      using commands.drop_lookup[OF s'(2) p u'] unfolding names name by metis
    have "msg_find shl s'' n = msg_find shl s n" for n
      using s''(2)[of n] found[of n] commands.lookup_case[OF wf, of "mcmd m" n] f None by auto
    then show ?thesis
      using s' s''(1) found f None by (auto simp: msg_register_def assms(2))
  next
    case (Some q)
    then show ?thesis using f by (simp add: msg_register_def assms(2))
  qed
qed

text \<open>Two commands, one registered under a name the other takes in another case.\<close>

definition a_msg :: "string \<Rightarrow> unit msg" where
  "a_msg n = \<lparr>mcmd = n, margs = 0, mmaxargs = 0, mflags = 0, mhandlers = [None, None, None, None],
     mhash = 0, mcounts = [0, 0, 0, 0], mbytes = 0, mid = 0\<rparr>"

definition two_msgs :: "unit msgs" where
  "two_msgs = msg_init [1 \<mapsto> a_msg ''JOIN'', 2 \<mapsto> a_msg ''join'']"

lemma msg_register_witness:
  "\<exists>s' r. msg_register (\<lambda>v. v) two_msgs 1 = Some (s', r) \<and> r = Some 1 \<and>
    msg_find (\<lambda>v. v) s' ''joiN'' = Some (Some 1)"
proof -
  have heap: "mheap two_msgs 1 = Some (a_msg ''JOIN'')"
    by (simp add: two_msgs_def msg_init_def)
  have free: "msg_find (\<lambda>v. v) two_msgs (mcmd (a_msg ''JOIN'')) = Some None"
    unfolding two_msgs_def commands.lookup_None[OF msg_init_wf] by (simp add: msg_init_def)
  have name: "same_name (mcmd (a_msg ''JOIN'')) ''joiN''" by code_simp
  have "msg_reachable (\<lambda>v. v) two_msgs" unfolding two_msgs_def by (rule msg_reachable.init)
  from msg_register_correct[OF this heap] obtain s' r where
    "msg_register (\<lambda>v. v) two_msgs 1 = Some (s', r)" "r = Some 1"
    "\<forall>n. msg_find (\<lambda>v. v) s' n =
      (if same_name (mcmd (a_msg ''JOIN'')) n then Some (Some 1) else msg_find (\<lambda>v. v) two_msgs n)"
    unfolding if_P[OF free] by blast
  moreover from this(3) have "msg_find (\<lambda>v. v) s' ''joiN'' = Some (Some 1)"
    using name by (metis (no_types))
  ultimately show ?thesis by blast
qed

lemma msg_table_witness:
  "msg_reachable (\<lambda>v. v) two_msgs \<and> (\<exists>r. msg_find (\<lambda>v. v) two_msgs ''JOIN'' = Some r)"
proof -
  have "msg_reachable (\<lambda>v. v) two_msgs" unfolding two_msgs_def by (rule msg_reachable.init)
  then show ?thesis using msg_table_invariant[of "\<lambda>v. v" two_msgs "''JOIN''" 1] by blast
qed

end
