(* ===== verification/Class.thy ===== *)
theory Class
  imports Registry
begin

text \<open>
  The connection classes of src/class.c: a list of blocks with a reference count, found by name
  or identifier. A new class is appended without looking for its name, and its name is cut to
  the array; what that means for lookups is stated below.
\<close>

section \<open>State\<close>

record conn_class =
  cl_id :: "32 word"
  cl_refcount :: "32 word"
  cl_hash :: "64 word"
  cl_ping_freq :: "64 word"
  cl_max_clients :: "32 word"
  cl_clients_per_ip :: "32 word"
  cl_recvq :: "32 word"
  cl_sendq :: "32 word"
  cl_flood_trigger :: "32 word"
  cl_flood_interval :: "64 word"
  cl_throttle_trigger :: "32 word"
  cl_throttle_interval :: "64 word"
  cl_name :: string

record classes =
  class_heap :: "ptr \<rightharpoonup> conn_class"
  class_list :: "ptr list"
  class_id :: "32 word"

definition IRCD_CLASSLEN :: nat where "IRCD_CLASSLEN = 32"

text \<open>A block after \<open>memset(clptr, 0, sizeof(struct class))\<close>.\<close>

definition class_zero :: conn_class where
  "class_zero = \<lparr>cl_id = 0, cl_refcount = 0, cl_hash = 0, cl_ping_freq = 0, cl_max_clients = 0,
     cl_clients_per_ip = 0, cl_recvq = 0, cl_sendq = 0, cl_flood_trigger = 0, cl_flood_interval = 0,
     cl_throttle_trigger = 0, cl_throttle_interval = 0, cl_name = []\<rparr>"

definition class_init :: classes where
  "class_init = \<lparr>class_heap = Map.empty, class_list = [], class_id = 0\<rparr>"

section \<open>Operations\<close>

definition class_default :: "(64 word \<Rightarrow> 64 word) \<Rightarrow> conn_class \<Rightarrow> conn_class" where
  "class_default shl cl = cl\<lparr>cl_name := ''default'', cl_ping_freq := 360, cl_max_clients := 1000,
     cl_clients_per_ip := 1, cl_recvq := push_bit 16 1, cl_sendq := push_bit 16 1,
     cl_flood_trigger := 0, cl_flood_interval := 0, cl_throttle_trigger := 0,
     cl_throttle_interval := 0, cl_hash := str_ihash shl (Some ''default'')\<rparr>"

text \<open>The limits of a class, in the order of the parameters, and \<open>class_update\<close>.\<close>

type_synonym class_limits = "64 word \<times> 32 word \<times> 32 word \<times> 32 word \<times> 32 word \<times>
  32 word \<times> 64 word \<times> 32 word \<times> 64 word"

fun class_limits :: "class_limits \<Rightarrow> conn_class \<Rightarrow> conn_class" where
  "class_limits (ping_freq, max_clients, clients_per_ip, recvq, sendq, flood_trigger,
      flood_interval, throttle_trigger, throttle_interval) cl =
   cl\<lparr>cl_ping_freq := ping_freq, cl_max_clients := max_clients, cl_clients_per_ip := clients_per_ip,
     cl_recvq := recvq, cl_sendq := sendq, cl_flood_trigger := flood_trigger,
     cl_flood_interval := flood_interval, cl_throttle_trigger := throttle_trigger,
     cl_throttle_interval := throttle_interval\<rparr>"

definition class_link :: "classes \<Rightarrow> ptr \<Rightarrow> classes option" where
  "class_link s p = do {
     _ \<leftarrow> class_heap s p;
     Some (s\<lparr>class_list := class_list s @ [p]\<rparr>) }"

text \<open>\<open>p\<close> is the block that \<open>mem_static_alloc\<close> returns.\<close>

definition class_add ::
  "(64 word \<Rightarrow> 64 word) \<Rightarrow> classes \<Rightarrow> ptr \<Rightarrow> string \<Rightarrow> class_limits \<Rightarrow> (classes \<times> ptr) option" where
  "class_add shl s p name limits = (
     let name' = field (IRCD_CLASSLEN + 1) name;
       cl = class_limits limits (class_zero\<lparr>cl_name := name', cl_hash := str_ihash shl (Some name')\<rparr>);
       cl = cl\<lparr>cl_id := cl_id cl + class_id s, cl_refcount := 1\<rparr>
     in do {
       s \<leftarrow> class_link (s\<lparr>class_heap := (class_heap s)(p \<mapsto> cl), class_id := class_id s + 1\<rparr>) p;
       Some (s, p) })"

definition class_update :: "classes \<Rightarrow> ptr \<Rightarrow> class_limits \<Rightarrow> (classes \<times> int) option" where
  "class_update s p limits = do {
     cl \<leftarrow> class_heap s p;
     Some (s\<lparr>class_heap := (class_heap s)(p \<mapsto> class_limits limits cl)\<rparr>, 0) }"

definition class_delete :: "classes \<Rightarrow> ptr \<Rightarrow> classes option" where
  "class_delete s p = do {
     _ \<leftarrow> class_heap s p;
     ps \<leftarrow> unlink p (class_list s);
     Some (s\<lparr>class_list := ps, class_heap := (class_heap s)(p := None)\<rparr>) }"

text \<open>\<open>dlink_foreach_safe(&class_list, clptr, next) class_delete(clptr)\<close>.\<close>

fun class_delete_all :: "classes \<Rightarrow> ptr list \<Rightarrow> classes option" where
  "class_delete_all s [] = Some s"
| "class_delete_all s (p # ps) = do { s \<leftarrow> class_delete s p; class_delete_all s ps }"

definition class_shutdown :: "classes \<Rightarrow> classes option" where
  "class_shutdown s = class_delete_all s (class_list s)"

definition class_pop :: "classes \<Rightarrow> ptr option \<Rightarrow> (classes \<times> ptr option) option" where
  "class_pop s clptr = (case clptr of None \<Rightarrow> Some (s, None) | Some p \<Rightarrow> do {
     cl \<leftarrow> class_heap s p;
     Some (s\<lparr>class_heap := (class_heap s)(p \<mapsto> cl\<lparr>cl_refcount := cl_refcount cl + 1\<rparr>)\<rparr>, Some p) })"

text \<open>The second result is the caller's pointer afterwards, which is also returned.\<close>

definition class_push :: "classes \<Rightarrow> ptr option \<Rightarrow> (classes \<times> ptr option) option" where
  "class_push s clptr = (case clptr of None \<Rightarrow> Some (s, None) | Some p \<Rightarrow> do {
     cl \<leftarrow> class_heap s p;
     if cl_refcount cl = 0 then Some (s, None)
     else Some (s\<lparr>class_heap := (class_heap s)(p \<mapsto> cl\<lparr>cl_refcount := cl_refcount cl - 1\<rparr>)\<rparr>, None) })"

definition class_find_name :: "(64 word \<Rightarrow> 64 word) \<Rightarrow> classes \<Rightarrow> string \<Rightarrow> ptr option option" where
  "class_find_name shl s name = (let hash = str_ihash shl (Some name) in
     search (\<lambda>p. do {
       cl \<leftarrow> class_heap s p;
       Some (hash = cl_hash cl \<and> str_icmp (cl_name cl) name = 0) }) (class_list s))"

definition class_find_id :: "classes \<Rightarrow> 32 word \<Rightarrow> ptr option option" where
  "class_find_id s n = search (\<lambda>p. do { cl \<leftarrow> class_heap s p; Some (n = cl_id cl) }) (class_list s)"

section \<open>The registry\<close>

definition class_name :: "classes \<Rightarrow> ptr \<Rightarrow> string" where
  "class_name s p = (case class_heap s p of None \<Rightarrow> [] | Some cl \<Rightarrow> cl_name cl)"

definition class_ok :: "(64 word \<Rightarrow> 64 word) \<Rightarrow> classes \<Rightarrow> ptr \<Rightarrow> bool" where
  "class_ok shl s p \<longleftrightarrow>
     (\<exists>cl. class_heap s p = Some cl \<and> cl_hash cl = str_ihash shl (Some (cl_name cl)))"

definition classes_wf :: "(64 word \<Rightarrow> 64 word) \<Rightarrow> classes \<Rightarrow> bool" where
  "classes_wf shl s \<longleftrightarrow> distinct (class_list s) \<and> (\<forall>p \<in> set (class_list s). class_ok shl s p)"

definition class_linkable :: "(64 word \<Rightarrow> 64 word) \<Rightarrow> classes \<Rightarrow> ptr \<Rightarrow> bool" where
  "class_linkable shl s p \<longleftrightarrow> class_ok shl s p \<and> p \<notin> set (class_list s)"

lemma class_find_law:
  assumes "classes_wf shl s"
  shows "class_find_name shl s n =
    Some (List.find (\<lambda>p. same_name (class_name s p) n) (class_list s))"
  unfolding class_find_name_def Let_def
proof (rule search_find)
  fix p assume "p \<in> set (class_list s)"
  then obtain cl where "class_heap s p = Some cl" "cl_hash cl = str_ihash shl (Some (cl_name cl))"
    using assms by (auto simp: classes_wf_def class_ok_def)
  then show "do { cl \<leftarrow> class_heap s p;
      Some (str_ihash shl (Some n) = cl_hash cl \<and> str_icmp (cl_name cl) n = 0) } =
    Some (same_name (class_name s p) n)"
    using str_ihash_same_name[of "cl_name cl" n shl]
    by (auto simp: class_name_def str_icmp_same_name)
qed

lemma class_link_law:
  assumes "classes_wf shl s" "class_linkable shl s p"
  shows "\<exists>s'. class_link s p = Some s' \<and> classes_wf shl s' \<and> p \<in> set (class_list s') \<and>
    removeAll p (class_list s') = class_list s \<and> class_name s' = class_name s"
  using assms
  by (auto simp: class_link_def classes_wf_def class_linkable_def class_ok_def class_name_def
      fun_eq_iff)

lemma class_delete_law:
  assumes "classes_wf shl s" "p \<in> set (class_list s)"
  shows "\<exists>s'. class_delete s p = Some s' \<and> classes_wf shl s' \<and>
    class_list s' = removeAll p (class_list s) \<and>
    (\<forall>q \<in> set (class_list s'). class_name s' q = class_name s q)"
proof -
  obtain cl where "class_heap s p = Some cl"
    using assms by (auto simp: classes_wf_def class_ok_def)
  then show ?thesis
    using assms by (simp add: class_delete_def classes_wf_def class_ok_def class_name_def
        unlink_distinct distinct_removeAll)
qed

interpretation classes: dynamic_registry "classes_wf shl" class_list class_name
  "class_find_name shl" "class_linkable shl" class_link class_delete for shl
  by unfold_locales (rule class_find_law class_link_law class_delete_law, assumption+)+

section \<open>The properties\<close>

lemma class_limits_name [simp]:
  "cl_name (class_limits l cl) = cl_name cl" "cl_hash (class_limits l cl) = cl_hash cl"
  "cl_id (class_limits l cl) = cl_id cl" "cl_refcount (class_limits l cl) = cl_refcount cl"
  by (induct l cl rule: class_limits.induct, simp)+

text \<open>Adding a class in terms of the registry.\<close>

lemma class_add_link:
  assumes wf: "classes_wf shl s" and new: "class_heap s p = None"
  obtains t s' where "class_add shl s p name l = Some (s', p)" "class_link t p = Some s'"
    "classes_wf shl t" "class_linkable shl t p" "class_name t p = field 33 name"
    "\<And>n. class_find_name shl t n = class_find_name shl s n"
proof -
  define cl where "cl = (class_limits l (class_zero\<lparr>cl_name := field 33 name,
    cl_hash := str_ihash shl (Some (field 33 name))\<rparr>))"
  define t where "t = s\<lparr>class_heap := (class_heap s)(p \<mapsto> cl\<lparr>cl_id := cl_id cl + class_id s,
    cl_refcount := 1\<rparr>), class_id := class_id s + 1\<rparr>"
  have p: "p \<notin> set (class_list s)" using wf new by (auto simp: classes_wf_def class_ok_def)
  have others: "class_heap t q = class_heap s q" if "q \<in> set (class_list s)" for q
    using that p by (auto simp: t_def)
  have t: "classes_wf shl t" "class_linkable shl t p"
    using wf p others by (auto simp: classes_wf_def class_linkable_def class_ok_def)
      (simp_all add: t_def cl_def)
  obtain s' where s': "class_link t p = Some s'" using class_link_law[OF t] by blast
  then have "class_add shl s p name l = Some (s', p)"
    by (simp add: class_add_def Let_def t_def cl_def IRCD_CLASSLEN_def)
  moreover have "class_find_name shl t n = class_find_name shl s n" for n
    unfolding class_find_law[OF t(1)] class_find_law[OF wf]
    by (simp add: t_def) (rule find_cong', use others in \<open>auto simp: class_name_def t_def\<close>)
  moreover have "class_name t p = field 33 name" by (simp add: class_name_def t_def cl_def)
  ultimately show ?thesis using that s' t by blast
qed

text \<open>Adding a class: with a fresh block the list stays well-formed. The class is found
  under its name, in any case, exactly if the name fits the array of 33 bytes and was free; a
  taken name keeps leading to the class it had, and a longer name is not found even though its
  class was added.\<close>

theorem class_add_lookup:
  assumes "classes_wf shl s" "class_heap s p = None"
  shows "\<exists>s'. class_add shl s p name l = Some (s', p) \<and> classes_wf shl s' \<and>
    (\<forall>n. class_find_name shl s' n =
      (if class_find_name shl s n = Some None \<and> same_name (field 33 name) n then Some (Some p)
       else class_find_name shl s n)) \<and>
    (class_find_name shl s' name = Some (Some p) \<longleftrightarrow>
      class_find_name shl s name = Some None \<and> length (cstr name) \<le> 32)"
proof -
  obtain t s' where s': "class_add shl s p name l = Some (s', p)" "class_link t p = Some s'"
    and t: "classes_wf shl t" "class_linkable shl t p" "class_name t p = field 33 name"
    and same: "\<And>n. class_find_name shl t n = class_find_name shl s n"
    using class_add_link[OF assms, of name l] by metis
  have wf': "classes_wf shl s'" using class_link_law[OF t(1,2)] s'(2) by auto
  have p: "p \<notin> set (class_list s)" using assms by (auto simp: classes_wf_def class_ok_def)
  have list: "class_list s' = class_list t @ [p]" "class_name s' = class_name t"
    using s'(2) by (auto simp: class_link_def class_name_def bind_eq_Some_conv)
  have find: "class_find_name shl s' n =
      (if class_find_name shl s n = Some None \<and> same_name (field 33 name) n then Some (Some p)
       else class_find_name shl s n)" for n
    unfolding same[symmetric] class_find_law[OF wf'] class_find_law[OF t(1)] list find_append
    using t(3) by (auto split: option.splits)
  have "class_find_name shl s name \<noteq> Some (Some p)"
    using p classes.lookup_Some[OF assms(1)] by blast
  then show ?thesis
    using s'(1) wf' find find[of name] same_name_field[of 33 name] by auto
qed

text \<open>References: taking one and giving it back restores the class and clears the
  caller's pointer, a release at zero does not wrap the counter, and a class without list
  errors can be shut down, which frees exactly the classes of the list.\<close>

theorem class_refcounts:
  assumes "class_heap s p = Some cl"
  shows "(cl_refcount cl \<noteq> - 1 \<longrightarrow>
      (\<exists>s'. class_pop s (Some p) = Some (s', Some p) \<and> class_push s' (Some p) = Some (s, None))) \<and>
    (cl_refcount cl = 0 \<longrightarrow> class_push s (Some p) = Some (s, None)) \<and>
    (cl_refcount cl \<noteq> 0 \<longrightarrow> (\<exists>s'. class_push s (Some p) = Some (s', None) \<and>
      (\<exists>cl'. class_heap s' p = Some cl' \<and> unat (cl_refcount cl') = unat (cl_refcount cl) - 1)))"
proof (intro conjI impI)
  assume r: "cl_refcount cl \<noteq> - 1"
  have "cl_refcount cl + 1 \<noteq> 0" using r by (metis add.commute add_eq_0_iff)
  then show "\<exists>s'. class_pop s (Some p) = Some (s', Some p) \<and> class_push s' (Some p) = Some (s, None)"
    using assms by (auto simp: class_pop_def class_push_def fun_upd_idem)
next
  assume "cl_refcount cl \<noteq> 0"
  then show "\<exists>s'. class_push s (Some p) = Some (s', None) \<and>
      (\<exists>cl'. class_heap s' p = Some cl' \<and> unat (cl_refcount cl') = unat (cl_refcount cl) - 1)"
    using assms by (auto simp: class_push_def unat_minus_one)
qed (use assms in \<open>simp add: class_push_def\<close>)

lemma class_delete_all_correct:
  "classes_wf shl s \<Longrightarrow> class_list s = ps \<Longrightarrow>
   \<exists>s'. class_delete_all s ps = Some s' \<and> class_list s' = [] \<and>
     class_heap s' = (class_heap s) |` (- set ps)"
proof (induction ps arbitrary: s)
  case Nil
  then show ?case by simp
next
  case (Cons p ps)
  then have d: "p \<notin> set ps" and p: "p \<in> set (class_list s)" by (auto simp: classes_wf_def)
  obtain s1 where s1: "class_delete s p = Some s1" "classes_wf shl s1" "class_list s1 = ps"
    using class_delete_law[OF Cons.prems(1) p] Cons.prems(2) d by auto
  have "class_heap s1 = (class_heap s)(p := None)"
    using s1(1) by (auto simp: class_delete_def bind_eq_Some_conv)
  then show ?case
    using Cons.IH[OF s1(2,3)] s1(1) by (auto simp: restrict_map_def fun_eq_iff)
qed

lemma class_shutdown_correct:
  assumes "classes_wf shl s"
  shows "\<exists>s'. class_shutdown s = Some s' \<and> class_list s' = [] \<and>
    class_heap s' = (class_heap s) |` (- set (class_list s))"
  unfolding class_shutdown_def by (rule class_delete_all_correct[OF assms refl])

lemma class_add_witness:
  "\<exists>s'. class_add (\<lambda>v. v) class_init 7 ''default'' (360, 1000, 1, 0, 0, 0, 0, 0, 0) = Some (s', 7) \<and>
    class_find_name (\<lambda>v. v) s' ''default'' = Some (Some 7)"
proof -
  have wf: "classes_wf (\<lambda>v. v) class_init" by (simp add: classes_wf_def class_init_def)
  have "class_heap class_init 7 = None" "class_find_name (\<lambda>v. v) class_init ''default'' = Some None"
    "length (cstr ''default'') \<le> 32"
    by (simp_all add: class_init_def class_find_name_def Let_def)
  then show ?thesis using class_add_lookup[OF wf, of 7 "''default''"] by blast
qed

lemma class_refcounts_witness:
  "\<exists>s'. class_push (class_init\<lparr>class_heap := [7 \<mapsto> class_zero\<lparr>cl_refcount := 2\<rparr>]\<rparr>) (Some 7) =
     Some (s', None)"
proof -
  have "class_heap (class_init\<lparr>class_heap := [7 \<mapsto> class_zero\<lparr>cl_refcount := 2\<rparr>]\<rparr>) 7 =
      Some (class_zero\<lparr>cl_refcount := 2\<rparr>)" by simp
  from class_refcounts[OF this] show ?thesis by (auto simp: class_zero_def)
qed

end
