(* ===== verification/Support.thy ===== *)
theory Support
  imports Registry Format
begin

text \<open>
  The ISUPPORT entries of src/ircd.c: a list of names with values that the modules set and
  unset, and the loop that packs them into lines of less than 96 characters for a client. The
  loop returns to the entry that did not fit, so that an entry too long for a line of its own
  keeps it busy for ever: not returning is the value \<open>None\<close> of \<open>support_lines\<close>, and it is
  shown when that is the case.
\<close>

section \<open>State and operations\<close>

record support =
  sup_name :: string
  sup_value :: string

fun ircd_support_find :: "support list \<Rightarrow> string \<Rightarrow> nat option" where
  "ircd_support_find [] name = None"
| "ircd_support_find (x # xs) name =
     (if str_icmp (sup_name x) name = 0 then Some 0 else map_option Suc (ircd_support_find xs name))"

definition ircd_support_new :: "support list \<Rightarrow> support list \<times> nat" where
  "ircd_support_new su = (su @ [\<lparr>sup_name = [], sup_value = []\<rparr>], length su)"

definition ircd_support_unset :: "support list \<Rightarrow> string \<Rightarrow> support list" where
  "ircd_support_unset su name = (case ircd_support_find su name of None \<Rightarrow> su
     | Some i \<Rightarrow> take i su @ drop (Suc i) su)"

text \<open>The arrays \<open>name[64]\<close> and \<open>value[128]\<close>.\<close>

definition ircd_support_set ::
  "format_table \<Rightarrow> support list \<Rightarrow> string \<Rightarrow> string option \<Rightarrow> farg list \<Rightarrow> support list option" where
  "ircd_support_set tab su name val args = do {
     let (su, i) = (case ircd_support_find su name of
       None \<Rightarrow> (let (su, i) = ircd_support_new su in (su[i := (su ! i)\<lparr>sup_name := field 64 name\<rparr>], i))
     | Some i \<Rightarrow> (su, i));
     v \<leftarrow> (case val of
       Some format \<Rightarrow> do {
         (b, _) \<leftarrow> str_vsnprintf tab (replicate 128 NUL) 128 format args; Some (cstr b) }
     | None \<Rightarrow> Some []);
     Some (su[i := (su ! i)\<lparr>sup_value := v\<rparr>]) }"

text \<open>One line: entries are added while \<open>len + 2 \<le> n - i\<close>; the result holds the
  entries that are left. The copies get \<open>n - i + 1\<close> as their limit.\<close>

definition entry_len :: "support \<Rightarrow> nat" where
  "entry_len x = length (cstr (sup_name x)) + 1 +
     (if cur (sup_value x) \<noteq> NUL then length (cstr (sup_value x)) + 1 else 0)"

fun support_loop :: "string \<Rightarrow> nat \<Rightarrow> nat \<Rightarrow> support list \<Rightarrow> (string \<times> nat \<times> support list) option" where
  "support_loop b i n [] = Some (b, i, [])"
| "support_loop b i n (x # xs) =
     (if entry_len x + 2 > n - i then Some (b, i, x # xs)
      else do {
        (b, i) \<leftarrow> (if i \<noteq> 0 then do { b \<leftarrow> wr b i (CHR '' ''); Some (b, Suc i) } else Some (b, i));
        (b, k) \<leftarrow> strlcpy_at b i (sup_name x) (n - i + 1);
        let i = i + k;
        (b, i) \<leftarrow> (if cur (sup_value x) \<noteq> NUL then do {
            b \<leftarrow> wr b i (CHR ''='');
            let i = Suc i;
            (b, k) \<leftarrow> strlcpy_at b i (sup_value x) (n - i + 1);
            Some (b, i + k) }
          else Some (b, i));
        support_loop b i n xs })"

definition ircd_support_assemble ::
  "string \<Rightarrow> support list \<Rightarrow> nat \<Rightarrow> (string \<times> support list) option" where
  "ircd_support_assemble b xs n =
     (if xs = [] then Some (b, [])
      else do {
        (b, i, rest) \<leftarrow> support_loop b 0 n xs;
        b \<leftarrow> wr b i NUL;
        Some (b, rest) })"

text \<open>The lines of \<open>ircd_support_show\<close>, in the order they are sent.\<close>

partial_function (option) support_lines :: "string \<Rightarrow> support list \<Rightarrow> string list option" where
  "support_lines b xs =
     (if xs = [] then Some []
      else do {
        (b, rest) \<leftarrow> ircd_support_assemble b xs 96;
        ls \<leftarrow> support_lines b rest;
        Some (cstr b # ls) })"

definition ircd_support_show :: "support list \<Rightarrow> string list option" where
  "ircd_support_show su = support_lines (replicate 96 NUL) su"

declare support_loop.simps [simp del]

section \<open>Setting a value\<close>

definition support_value :: "support list \<Rightarrow> string \<Rightarrow> string option" where
  "support_value su name = map_option (\<lambda>i. sup_value (su ! i)) (ircd_support_find su name)"

lemma support_find_Some:
  "ircd_support_find su name = Some i \<Longrightarrow> i < length su \<and> same_name (sup_name (su ! i)) name \<and>
     (\<forall>j < i. \<not> same_name (sup_name (su ! j)) name)"
  by (induction su name arbitrary: i rule: ircd_support_find.induct)
    (auto simp: str_icmp_same_name nth_Cons' less_Suc_eq_0_disj split: if_splits)

lemma support_find_map:
  "map sup_name su = map sup_name su' \<Longrightarrow> ircd_support_find su name = ircd_support_find su' name"
proof (induction su name arbitrary: su' rule: ircd_support_find.induct)
  case (2 x xs name)
  then show ?case by (cases su') auto
qed simp

lemma support_find_append:
  "ircd_support_find (su @ [x]) name = (case ircd_support_find su name of
     None \<Rightarrow> if same_name (sup_name x) name then Some (length su) else None | r \<Rightarrow> r)"
  by (induction su name rule: ircd_support_find.induct)
    (auto simp: str_icmp_same_name split: option.splits)

lemma support_set_result:
  assumes len: "length (cstr name) < 64"
    and v: "str_vsnprintf tab (replicate 128 NUL) 128 fmt args = Some (b, k)"
  obtains su' where "ircd_support_set tab su name (Some fmt) args = Some su'"
    "support_value su' name = Some (cstr b)"
    "\<And>n. \<not> same_name name n \<Longrightarrow> support_value su' n = support_value su n"
proof (cases "ircd_support_find su name")
  case None
  let ?x = "\<lparr>sup_name = field 64 name, sup_value = cstr b\<rparr>"
  have "ircd_support_set tab su name (Some fmt) args = Some (su @ [?x])"
    by (simp add: ircd_support_set_def None ircd_support_new_def v Let_def)
  moreover have same: "same_name (field 64 name) n \<longleftrightarrow> same_name name n" for n
    using len by (simp add: field_def same_name_def no_nul_take)
  moreover have "support_value (su @ [?x]) name = Some (cstr b)"
    using None by (simp add: support_value_def support_find_append same)
  moreover have "support_value (su @ [?x]) n = support_value su n" if "\<not> same_name name n" for n
    using that by (auto simp: support_value_def support_find_append same nth_append
        dest: support_find_Some split: option.splits)
  ultimately show ?thesis using that by blast
next
  case (Some i)
  define su' where "su' = su[i := (su ! i)\<lparr>sup_value := cstr b\<rparr>]"
  have i: "i < length su" "same_name (sup_name (su ! i)) name" using support_find_Some[OF Some] by auto
  have "map sup_name su' = map sup_name su"
    unfolding su'_def map_update by (metis i(1) list_update_id nth_map support.select_convs(1)
        support.simps(1) support.surjective support.update_convs(2))
  then have find: "ircd_support_find su' n = ircd_support_find su n" for n
    by (rule support_find_map)
  have "ircd_support_set tab su name (Some fmt) args = Some su'"
    by (simp add: ircd_support_set_def Some v Let_def su'_def)
  moreover have "support_value su' name = Some (cstr b)"
    unfolding support_value_def find Some using i by (simp add: su'_def)
  moreover have "support_value su' n = support_value su n" if "\<not> same_name name n" for n
  proof -
    have "j \<noteq> i" if "ircd_support_find su n = Some j" for j
      using support_find_Some[OF that] i \<open>\<not> same_name name n\<close> same_name_sym same_name_trans by blast
    then show ?thesis
      unfolding support_value_def find
      by (cases "ircd_support_find su n") (simp_all add: su'_def)
  qed
  ultimately show ?thesis using that by blast
qed

section \<open>What a line holds\<close>

definition entry_text :: "support \<Rightarrow> string" where
  "entry_text x = sup_name x @ (if sup_value x \<noteq> [] then CHR ''='' # sup_value x else [])"

definition entry_ok :: "support \<Rightarrow> bool" where
  "entry_ok x \<longleftrightarrow> sup_name x \<noteq> [] \<and> no_nul (sup_name x) \<and> no_nul (sup_value x)"

lemma entry_lenE:
  assumes "entry_ok x"
  shows "entry_len x = length (entry_text x) + 1" "no_nul (entry_text x)" "entry_text x \<noteq> []"
  using assms by (auto simp: entry_ok_def entry_len_def entry_text_def no_nul_cur)

text \<open>One entry behind the text \<open>w\<close>.\<close>

lemma write_entry:
  assumes x: "entry_ok x" and w: "holds b w" "length w + length (entry_text x) < n" "length b = n"
  shows "\<exists>b'. do {
        (b, k) \<leftarrow> strlcpy_at b (length w) (sup_name x) (n - length w + 1);
        let i = length w + k;
        (b, i) \<leftarrow> (if cur (sup_value x) \<noteq> NUL then do {
            b \<leftarrow> wr b i (CHR ''='');
            let i = Suc i;
            (b, k) \<leftarrow> strlcpy_at b i (sup_value x) (n - i + 1);
            Some (b, i + k) }
          else Some (b, i));
        support_loop b i n xs } = support_loop b' (length (w @ entry_text x)) n xs \<and>
      holds b' (w @ entry_text x) \<and> length b' = n"
proof -
  let ?m = "sup_name x"
  have m: "cstr ?m = ?m" "length ?m \<le> length (entry_text x)"
    using x by (simp_all add: entry_ok_def entry_text_def)
  obtain b1 where b1: "strlcpy_at b (length w) ?m (n - length w + 1) = Some (b1, length ?m)"
    "holds b1 (w @ ?m)" "length b1 = n"
  proof (rule strlcpy_at_fits[OF w(1), of ?m "n - length w + 1"])
    show "length w + length (cstr ?m) < length b" "length (cstr ?m) + 1 < n - length w + 1"
      using w(2,3) m by simp_all
  qed (use m w(3) in auto)
  show ?thesis
  proof (cases "sup_value x = []")
    case True
    then show ?thesis using b1 by (intro exI[of _ b1]) (simp add: entry_text_def)
  next
    case False
    let ?v = "sup_value x" and ?u = "w @ ?m @ ''=''"
    have v: "cstr ?v = ?v" "cur ?v \<noteq> NUL"
      using x False by (auto simp: entry_ok_def no_nul_cur)
    have len: "length ?u + length ?v < n" using w(2) False by (simp add: entry_text_def)
    then have "length (w @ ?m) < length b1" using b1(3) by simp
    from holds_wr[OF b1(2) this, of "CHR ''=''"] obtain b2 where
      b2: "wr b1 (length w + length ?m) (CHR ''='') = Some b2" "holds b2 ?u" "length b2 = n"
      using b1(3) by auto
    obtain b3 where "strlcpy_at b2 (length ?u) ?v (n - length ?u + 1) = Some (b3, length ?v)"
      "holds b3 (?u @ ?v)" "length b3 = n"
    proof (rule strlcpy_at_fits[OF b2(2), of ?v "n - length ?u + 1"])
      show "length ?u + length (cstr ?v) < length b2" "length (cstr ?v) + 1 < n - length ?u + 1"
        using b2(3) len v(1) by simp_all
    qed (use v b2(3) in auto)
    then show ?thesis
      using b1 b2 v False by (intro exI[of _ b3]) (simp add: entry_text_def Let_def add.assoc)
  qed
qed

lemma support_loop_text:
  assumes "\<forall>x \<in> set xs. entry_ok x" "holds b (join (CHR '' '') ws)" "[] \<notin> set ws"
    "length (join (CHR '' '') ws) < n" "length b = n"
  shows "\<exists>b' g rest. support_loop b (length (join (CHR '' '') ws)) n xs =
      Some (b', length (join (CHR '' '') (ws @ map entry_text g)), rest) \<and>
    xs = g @ rest \<and> (\<forall>x \<in> set g. entry_len x + 2 \<le> n) \<and>
    holds b' (join (CHR '' '') (ws @ map entry_text g)) \<and> length b' = n \<and>
    length (join (CHR '' '') (ws @ map entry_text g)) < n \<and>
    (ws = [] \<longrightarrow> rest \<noteq> [] \<longrightarrow> g = [] \<longrightarrow> entry_len (hd xs) + 2 > n)"
  using assms
proof (induction xs arbitrary: b ws)
  case Nil
  then show ?case by (intro exI[of _ b] exI[of _ "[]"]) (simp add: support_loop.simps)
next
  case (Cons x xs)
  let ?j = "join (CHR '' '')"
  note x = entry_lenE[of x]
  have ok: "entry_ok x" using Cons.prems(1) by simp
  show ?case
  proof (cases "entry_len x + 2 > n - length (?j ws)")
    case True
    show ?thesis
      by (rule exI[of _ b], rule exI[of _ "[]"], rule exI[of _ "x # xs"])
        (use True Cons.prems in \<open>auto simp: support_loop.simps\<close>)
  next
    case False
    let ?w = "if ws = [] then [] else ?j ws @ '' ''"
    have len: "entry_len x + 2 \<le> n - length (?j ws)" using False by simp
    have empty: "length (?j ws) = 0 \<longleftrightarrow> ws = []" using join_Nil_iff[OF Cons.prems(3)] by simp
    have join: "?w @ entry_text x = ?j (ws @ [entry_text x])"
      by (cases "ws = []") (simp_all add: join_snoc)
    obtain b1 where b1: "(if length (?j ws) \<noteq> 0 then do { b \<leftarrow> wr b (length (?j ws)) (CHR '' '');
        Some (b, Suc (length (?j ws))) } else Some (b, length (?j ws))) = Some (b1, length ?w)"
      "holds b1 ?w" "length b1 = n"
    proof (cases "ws = []")
      case True
      then show ?thesis using that[of b] Cons.prems(5) by simp
    next
      case F: False
      then show ?thesis
        using that[of "b[length (?j ws) := CHR '' '']"] holds_wr[OF Cons.prems(2), of "CHR '' ''"]
          Cons.prems(4,5) empty by simp
    qed
    have room: "length ?w + length (entry_text x) < n"
      using len x(1)[OF ok] by (cases "ws = []") auto
    from write_entry[OF ok b1(2) room b1(3), of xs] obtain b2 where
      b2: "support_loop b (length (?j ws)) n (x # xs) =
          support_loop b2 (length (?j (ws @ [entry_text x]))) n xs"
        "holds b2 (?j (ws @ [entry_text x]))" "length b2 = n"
      using len b1(1) by (auto simp: support_loop.simps[of b] join)
    have "[] \<notin> set (ws @ [entry_text x])" using Cons.prems(3) x(3)[OF ok] by simp
    moreover have "length (?j (ws @ [entry_text x])) < n" using room join by (metis length_append)
    ultimately obtain b' g rest where
      r: "support_loop b2 (length (?j (ws @ [entry_text x]))) n xs =
        Some (b', length (?j ((ws @ [entry_text x]) @ map entry_text g)), rest)"
        "xs = g @ rest" "\<forall>x \<in> set g. entry_len x + 2 \<le> n"
        "holds b' (?j ((ws @ [entry_text x]) @ map entry_text g))" "length b' = n"
        "length (?j ((ws @ [entry_text x]) @ map entry_text g)) < n"
      using Cons.IH[OF _ b2(2) _ _ b2(3)] Cons.prems(1) by auto
    show ?thesis
      using b2(1) r len by (intro exI[of _ b'] exI[of _ "x # g"] exI[of _ rest]) auto
  qed
qed

text \<open>A line: it takes the entries in front, at least one unless the first is too long for
  any line, and never faults.\<close>

lemma support_assemble_text:
  assumes "\<forall>x \<in> set xs. entry_ok x" "xs \<noteq> []" "length b = n" "0 < n"
  obtains b' g rest where "ircd_support_assemble b xs n = Some (b', rest)" "xs = g @ rest"
    "\<forall>x \<in> set g. entry_len x + 2 \<le> n" "cstr b' = join (CHR '' '') (map entry_text g)"
    "length b' = n" "length (cstr b') < n" "g = [] \<longrightarrow> entry_len (hd xs) + 2 > n"
proof -
  have "\<exists>b' g rest. support_loop b 0 n xs =
      Some (b', length (join (CHR '' '') (map entry_text g)), rest) \<and> xs = g @ rest \<and>
      (\<forall>x \<in> set g. entry_len x + 2 \<le> n) \<and> holds b' (join (CHR '' '') (map entry_text g)) \<and>
      length b' = n \<and> length (join (CHR '' '') (map entry_text g)) < n \<and>
      (rest \<noteq> [] \<longrightarrow> g = [] \<longrightarrow> entry_len (hd xs) + 2 > n)"
    using support_loop_text[OF assms(1), of b "[]" n] assms(3,4) by simp
  then obtain b' g rest where r: "support_loop b 0 n xs =
      Some (b', length (join (CHR '' '') (map entry_text g)), rest)" "xs = g @ rest"
    "\<forall>x \<in> set g. entry_len x + 2 \<le> n" "holds b' (join (CHR '' '') (map entry_text g))"
    "length b' = n" "length (join (CHR '' '') (map entry_text g)) < n"
    "rest \<noteq> [] \<longrightarrow> g = [] \<longrightarrow> entry_len (hd xs) + 2 > n"
    by blast
  have nn: "no_nul (join (CHR '' '') (map entry_text g))"
    using assms(1) r(2) entry_lenE(2) by (intro no_nul_join) auto
  obtain t where t: "b' = join (CHR '' '') (map entry_text g) @ t" using r(4) by (rule holdsE)
  moreover from t r(5,6) obtain y t' where "t = y # t'" by (cases t) auto
  ultimately have "wr b' (length (join (CHR '' '') (map entry_text g))) NUL =
      Some (join (CHR '' '') (map entry_text g) @ NUL # t')" "n = length (join (CHR '' '') (map entry_text g) @ NUL # t')"
    using r(5) by auto
  then show ?thesis
    using that[of "join (CHR '' '') (map entry_text g) @ NUL # t'" rest g] r nn assms(2)
    by (auto simp: ircd_support_assemble_def)
qed

text \<open>If the lines end, every entry was on one of them.\<close>

lemma support_lines_fit:
  assumes "support_lines b xs = Some ls"
  shows "length b = 96 \<longrightarrow> (\<forall>x \<in> set xs. entry_ok x) \<longrightarrow> (\<forall>x \<in> set xs. entry_len x + 2 \<le> 96)"
proof (rule support_lines.raw_induct[OF _ assms])
  fix lines :: "string \<Rightarrow> support list \<Rightarrow> string list option" and b xs ls
  assume IH: "\<And>b xs ls. lines b xs = Some ls \<Longrightarrow>
      length b = 96 \<longrightarrow> (\<forall>x \<in> set xs. entry_ok x) \<longrightarrow> (\<forall>x \<in> set xs. entry_len x + 2 \<le> 96)"
    and step: "(if xs = [] then Some []
      else do { (b, rest) \<leftarrow> ircd_support_assemble b xs 96; ls \<leftarrow> lines b rest; Some (cstr b # ls) }) = Some ls"
  show "length b = 96 \<longrightarrow> (\<forall>x \<in> set xs. entry_ok x) \<longrightarrow> (\<forall>x \<in> set xs. entry_len x + 2 \<le> 96)"
  proof (intro impI)
    assume b: "length b = 96" and ok: "\<forall>x \<in> set xs. entry_ok x"
    show "\<forall>x \<in> set xs. entry_len x + 2 \<le> 96"
    proof (cases "xs = []")
      case False
      obtain b' g rest where a: "ircd_support_assemble b xs 96 = Some (b', rest)" "xs = g @ rest"
        "\<forall>x \<in> set g. entry_len x + 2 \<le> 96" "length b' = 96"
        using support_assemble_text[OF ok False b] by (metis zero_less_numeral)
      then obtain ls' where "lines b' rest = Some ls'"
        using step False by (auto simp: bind_eq_Some_conv)
      from IH[OF this] have "\<forall>x \<in> set rest. entry_len x + 2 \<le> 96" using a(2,4) ok by simp
      then show ?thesis using a(2,3) by auto
    qed simp
  qed
qed

lemma support_lines_text:
  "\<forall>x \<in> set xs. entry_ok x \<Longrightarrow> \<forall>x \<in> set xs. entry_len x + 2 \<le> 96 \<Longrightarrow> length b = 96 \<Longrightarrow>
   \<exists>gs. support_lines b xs = Some (map (\<lambda>g. join (CHR '' '') (map entry_text g)) gs) \<and> concat gs = xs \<and>
     (\<forall>g \<in> set gs. g \<noteq> [] \<and> length (join (CHR '' '') (map entry_text g)) < 96)"
proof (induction "length xs" arbitrary: b xs rule: less_induct)
  case less
  show ?case
  proof (cases "xs = []")
    case True
    then show ?thesis by (intro exI[of _ "[]"]) (simp add: support_lines.simps)
  next
    case False
    obtain b' g rest where a: "ircd_support_assemble b xs 96 = Some (b', rest)" "xs = g @ rest"
      "cstr b' = join (CHR '' '') (map entry_text g)" "length b' = 96" "length (cstr b') < 96" "g \<noteq> []"
      using support_assemble_text[OF less.prems(1) False less.prems(3)] less.prems(2) False
      by (metis hd_in_set not_less zero_less_numeral)
    then obtain gs where "support_lines b' rest = Some (map (\<lambda>g. join (CHR '' '') (map entry_text g)) gs)"
      "concat gs = rest" "\<forall>g \<in> set gs. g \<noteq> [] \<and> length (join (CHR '' '') (map entry_text g)) < 96"
      using less.hyps[of rest b'] less.prems by auto
    then show ?thesis
      using a False by (intro exI[of _ "g # gs"]) (simp add: support_lines.simps)
  qed
qed

section \<open>The properties\<close>

text \<open>C38. Showing the ISUPPORT entries: no write leaves the 96-byte buffer, and the loop ends
  exactly if every entry, with its value and the equals sign, has at most 93 characters; then the
  lines spell the entries in order, each line at least one, each shorter than the buffer. One
  longer entry, which the 128-byte values allow, makes it send lines for ever.\<close>

theorem support_show_ends:
  assumes "\<forall>x \<in> set su. sup_name x \<noteq> [] \<and> no_nul (sup_name x) \<and> no_nul (sup_value x)"
  shows "(ircd_support_show su \<noteq> None \<longleftrightarrow> (\<forall>x \<in> set su. length (entry_text x) \<le> 93)) \<and>
    (\<forall>ls. ircd_support_show su = Some ls \<longrightarrow> (\<exists>gs. concat gs = su \<and>
      ls = map (\<lambda>g. join (CHR '' '') (map entry_text g)) gs \<and> (\<forall>g \<in> set gs. g \<noteq> []) \<and>
      (\<forall>l \<in> set ls. length l < 96)))"
proof -
  have ok: "\<forall>x \<in> set su. entry_ok x" using assms by (auto simp: entry_ok_def)
  have len: "(\<forall>x \<in> set su. entry_len x + 2 \<le> 96) \<longleftrightarrow> (\<forall>x \<in> set su. length (entry_text x) \<le> 93)"
    using ok entry_lenE(1) by (auto 4 3)
  show ?thesis
    unfolding ircd_support_show_def len[symmetric]
    using support_lines_fit[of "replicate 96 NUL" su] support_lines_text[OF ok, of "replicate 96 NUL"] ok
    by (auto 4 4)
qed

text \<open>The value of \<open>CHANMODES\<close> with forty list modes.\<close>

lemma support_show_witness:
  "ircd_support_show [\<lparr>sup_name = ''MODES'', sup_value = ''4''\<rparr>,
     \<lparr>sup_name = ''CHANMODES'', sup_value = replicate 100 (CHR '','')\<rparr>] = None"
proof -
  have "\<not> length (entry_text \<lparr>sup_name = ''CHANMODES'', sup_value = replicate 100 (CHR '','')\<rparr>) \<le> 93"
    by (simp add: entry_text_def)
  moreover have "no_nul (replicate 100 (CHR '',''))" by (simp add: no_nul_def)
  ultimately show ?thesis
    using support_show_ends[of "[\<lparr>sup_name = ''MODES'', sup_value = ''4''\<rparr>,
     \<lparr>sup_name = ''CHANMODES'', sup_value = replicate 100 (CHR '','')\<rparr>]"] by auto
qed

end
