(* ===== verification/Chanmode.thy ===== *)
theory Chanmode
  imports Support Chars
begin

text \<open>
  The table of channel modes of src/chanmode.c: 64 entries indexed by the letter, filled by the
  mode modules, and the routines that walk it: the ISUPPORT values, the flag strings, and the
  conversion between the privileges of a member and the prefixes shown in front of the nick.
  An access outside the table is \<open>None\<close>.
\<close>

section \<open>State\<close>

text \<open>The callbacks that change a mode: those of src/chanmode.c and src/chanuser.c and those
  of the modules under modules/chanmode.\<close>

datatype chanmode_cb = Bounce_simple | Bounce_ban | Bounce_mask | Chanuser_bounce
  | Key_bounce | Limit_bounce | Invite_bounce | Alarm_bounce

record chanmode =
  m_letter :: char
  m_prefix :: char
  m_type :: "32 word"
  m_need :: "64 word"
  m_order :: "32 word"
  m_cb :: chanmode_cb
  m_flag :: "64 word"

record chanmodes =
  cm_table :: "chanmode list"
  cm_support :: "support list"

definition CHANMODE_TYPE_SINGLE :: "32 word" where "CHANMODE_TYPE_SINGLE = 0x01"
definition CHANMODE_TYPE_LIMIT :: "32 word" where "CHANMODE_TYPE_LIMIT = 0x02"
definition CHANMODE_TYPE_KEY :: "32 word" where "CHANMODE_TYPE_KEY = 0x04"
definition CHANMODE_TYPE_LIST :: "32 word" where "CHANMODE_TYPE_LIST = 0x08"
definition CHANMODE_TYPE_PRIVILEGE :: "32 word" where "CHANMODE_TYPE_PRIVILEGE = 0x10"
definition CHANMODE_TYPE_ALL :: "32 word" where "CHANMODE_TYPE_ALL = 0x1f"
definition CHANMODE_TYPE_NONPRIV :: "32 word" where "CHANMODE_TYPE_NONPRIV = 0x0f"
definition CHANMODE_FLAG_ALL :: "64 word" where "CHANMODE_FLAG_ALL = 0x07fffffe07fffffe"

lemmas chanmode_types = CHANMODE_TYPE_SINGLE_def CHANMODE_TYPE_LIMIT_def CHANMODE_TYPE_KEY_def
  CHANMODE_TYPE_LIST_def CHANMODE_TYPE_PRIVILEGE_def CHANMODE_TYPE_ALL_def CHANMODE_TYPE_NONPRIV_def

text \<open>\<open>(uint32_t)c - 0x40\<close> with a signed \<open>char\<close>, and \<open>CHFLG\<close> of a letter.\<close>

definition chanmode_index :: "char \<Rightarrow> nat" where
  "chanmode_index c = unat (word_of_int (signed_char c) - 0x40 :: 32 word)"

definition chflg :: "char \<Rightarrow> 64 word" where
  "chflg c = push_bit (ord c - 0x40) 1"

text \<open>A zeroed entry, and \<open>chanmode_init\<close>.\<close>

definition chanmode_zero :: chanmode where
  "chanmode_zero = \<lparr>m_letter = NUL, m_prefix = NUL, m_type = 0, m_need = 0, m_order = 0,
     m_cb = Bounce_simple, m_flag = 0\<rparr>"

definition chanmode_init :: "format_table \<Rightarrow> support list \<Rightarrow> chanmodes option" where
  "chanmode_init tab su = do {
     su \<leftarrow> ircd_support_set tab su ''MAXBANS'' (Some ''%u'') [Arg32 64];
     su \<leftarrow> ircd_support_set tab su ''MODES'' (Some ''%u'') [Arg32 4];
     Some \<lparr>cm_table = replicate 64 chanmode_zero, cm_support = su\<rparr> }"

definition chanmode_shutdown :: "chanmodes \<Rightarrow> chanmodes" where
  "chanmode_shutdown s = s\<lparr>cm_support :=
     ircd_support_unset (ircd_support_unset (cm_support s) ''MODES'') ''MAXBANS''\<rparr>"

section \<open>Walks over the table\<close>

text \<open>The best privilege below \<open>top\<close>: the inner loop of \<open>chanmode_prefix_make\<close> and
  \<open>chanmode_changes_make\<close>.\<close>

fun privilege_step :: "64 word \<Rightarrow> 32 word \<Rightarrow> chanmode \<Rightarrow> 32 word \<times> chanmode option \<Rightarrow> 32 word \<times> chanmode option" where
  "privilege_step fl tp m (current, best) =
     (if m_type m \<noteq> CHANMODE_TYPE_PRIVILEGE then (current, best)
      else if m_order m < tp \<and> m_order m > current \<and> m_flag m AND fl \<noteq> 0
      then (m_order m, Some m) else (current, best))"

definition next_privilege :: "chanmode list \<Rightarrow> 64 word \<Rightarrow> 32 word \<Rightarrow> 32 word \<times> chanmode option" where
  "next_privilege tab fl tp = fold (privilege_step fl tp) tab (0, None)"

lemma next_privilege_below:
  "next_privilege tab fl tp = (current, Some m) \<Longrightarrow> current < tp"
proof -
  have "snd (fold (privilege_step fl tp) tab (c, b)) \<noteq> None \<Longrightarrow> (b \<noteq> None \<longrightarrow> c < tp) \<Longrightarrow>
      fst (fold (privilege_step fl tp) tab (c, b)) < tp" for c b
    by (induction tab arbitrary: c b) auto
  from this[of 0 None] show "next_privilege tab fl tp = (current, Some m) \<Longrightarrow> current < tp"
    by (simp add: next_privilege_def)
qed

text \<open>The outer loop, up to \<open>mode == NULL\<close>: the modes in the order they are written.\<close>

function privileges :: "chanmode list \<Rightarrow> 64 word \<Rightarrow> 32 word \<Rightarrow> chanmode list" where
  "privileges tab fl tp = (case next_privilege tab fl tp of
     (_, None) \<Rightarrow> []
   | (current, Some m) \<Rightarrow> m # privileges tab fl current)"
  by pat_completeness auto
termination
  by (relation "measure (\<lambda>(tab, fl, tp). unat tp)")
    (auto dest!: next_privilege_below[OF sym] simp: word_less_nat_alt)

declare privileges.simps [simp del]

definition chanmode_prefix_make :: "chanmode list \<Rightarrow> string \<Rightarrow> 64 word \<Rightarrow> string option" where
  "chanmode_prefix_make tab pfx fl = do {
     (pfx, di) \<leftarrow> store_all pfx 0 (map m_prefix (privileges tab fl (- 1)));
     wr pfx di NUL }"

text \<open>The flag a prefix stands for, and the loop over the prefixes.\<close>

fun prefix_flag :: "chanmode list \<Rightarrow> char \<Rightarrow> 64 word option" where
  "prefix_flag [] c = None"
| "prefix_flag (m # tab) c =
     (if m_type m = CHANMODE_TYPE_PRIVILEGE \<and> m_prefix m = c then Some (m_flag m)
      else prefix_flag tab c)"

fun chanmode_prefix_parse :: "chanmode list \<Rightarrow> string \<Rightarrow> 64 word \<Rightarrow> 64 word" where
  "chanmode_prefix_parse tab [] ret = ret"
| "chanmode_prefix_parse tab (c # pfx) ret =
     (if c = NUL \<or> c = CHR '':'' then ret
      else case prefix_flag tab c of None \<Rightarrow> ret
        | Some fl \<Rightarrow> chanmode_prefix_parse tab pfx (ret OR fl))"

text \<open>The letters of the modes of the given types that are set.\<close>

definition flag_letters :: "chanmode list \<Rightarrow> 32 word \<Rightarrow> 64 word \<Rightarrow> string" where
  "flag_letters tab types fl =
     map m_letter (filter (\<lambda>m. types AND m_type m \<noteq> 0 \<and> fl AND m_flag m \<noteq> 0) tab)"

definition chanmode_flags_build ::
  "chanmode list \<Rightarrow> string \<Rightarrow> 32 word \<Rightarrow> 64 word \<Rightarrow> (string \<times> nat) option" where
  "chanmode_flags_build tab dst types fl = do {
     (dst, di) \<leftarrow> store_all dst 0 (flag_letters tab types fl);
     dst \<leftarrow> wr dst di NUL;
     Some (dst, di) }"

text \<open>The bytes \<open>chanmode_support\<close> puts into \<open>modes[129]\<close>.\<close>

fun support_letters :: "chanmode list \<Rightarrow> string" where
  "support_letters [] = []"
| "support_letters (m # tab) =
     (if m_type m AND CHANMODE_TYPE_NONPRIV \<noteq> 0
      then m_letter m # (if m_type m AND CHANMODE_TYPE_SINGLE = 0 then '','' else []) @ support_letters tab
      else support_letters tab)"

definition chanmode_support :: "format_table \<Rightarrow> chanmodes \<Rightarrow> chanmodes option" where
  "chanmode_support ft s = do {
     (modes, di) \<leftarrow> store_all (replicate 129 NUL) 0 (support_letters (cm_table s));
     modes \<leftarrow> wr modes di NUL;
     su \<leftarrow> ircd_support_set ft (cm_support s) ''CHANMODES'' (Some ''%s'') [ArgStr (Some modes)];
     Some (s\<lparr>cm_support := su\<rparr>) }"

definition chanuser_support :: "format_table \<Rightarrow> chanmodes \<Rightarrow> chanmodes option" where
  "chanuser_support ft s = do {
     prefixes \<leftarrow> chanmode_prefix_make (cm_table s) (replicate 65 NUL) CHANMODE_FLAG_ALL;
     (modes, _) \<leftarrow> chanmode_flags_build (cm_table s) (replicate 65 NUL) CHANMODE_TYPE_ALL CHANMODE_FLAG_ALL;
     su \<leftarrow> ircd_support_set ft (cm_support s) ''PREFIX'' (Some ''(%s)%s'')
       [ArgStr (Some modes), ArgStr (Some prefixes)];
     Some (s\<lparr>cm_support := su\<rparr>) }"

section \<open>Registration\<close>

text \<open>The result is the new state and whether an entry was returned.\<close>

definition chanmode_register :: "format_table \<Rightarrow> chanmodes \<Rightarrow> chanmode \<Rightarrow> (chanmodes \<times> bool) option" where
  "chanmode_register ft s c =
     (if \<not> chars_isalpha (m_letter c) then Some (s, False)
      else do {
        let i = chanmode_index (m_letter c);
        mode \<leftarrow> rd (cm_table s) i;
        if m_type mode \<noteq> 0 then Some (s, False)
        else do {
          let mode = mode\<lparr>m_flag := chflg (m_letter c), m_type := m_type c, m_prefix := m_prefix c,
            m_cb := m_cb c, m_need := m_need c, m_letter := m_letter c, m_order := m_order c\<rparr>;
          let s = s\<lparr>cm_table := (cm_table s)[i := mode]\<rparr>;
          s \<leftarrow> (if m_type c AND CHANMODE_TYPE_PRIVILEGE \<noteq> 0 then chanuser_support ft s
            else chanmode_support ft s);
          Some (s, True) } })"

definition chanmode_unregister :: "format_table \<Rightarrow> chanmodes \<Rightarrow> chanmode \<Rightarrow> (chanmodes \<times> int) option" where
  "chanmode_unregister ft s c =
     (if \<not> chars_isalpha (m_letter c) then Some (s, - 1)
      else do {
        let i = chanmode_index (m_letter c);
        mode \<leftarrow> rd (cm_table s) i;
        if m_type mode = 0 then Some (s, - 1)
        else do {
          s \<leftarrow> (if m_type mode AND CHANMODE_TYPE_PRIVILEGE \<noteq> 0 then chanuser_support ft s
            else chanmode_support ft s);
          Some (s\<lparr>cm_table := (cm_table s)[i := mode\<lparr>m_flag := 0, m_type := 0, m_prefix := NUL\<rparr>]\<rparr>, 0) } })"

section \<open>Indexes and flags\<close>

lemma unat_word32_of_int: "unat (word_of_int k :: 32 word) = nat (k mod 2 ^ 32)"
  by (simp add: unat_eq_nat_uint uint_word_of_int_eq take_bit_eq_mod)

lemma chanmode_index_eq: "chanmode_index c = nat ((signed_char c - 64) mod 2 ^ 32)"
proof -
  have w: "word_of_int (signed_char c) - 0x40 = (word_of_int (signed_char c - 64) :: 32 word)"
    by (simp only: wi_hom_sub[symmetric] word_of_int_numeral)
  show ?thesis
    unfolding chanmode_index_def w by (rule unat_word32_of_int)
qed

lemma chanmode_index_letter: "64 \<le> ord c \<Longrightarrow> ord c < 128 \<Longrightarrow> chanmode_index c = ord c - 64"
  by (simp add: chanmode_index_eq signed_char_def nat_diff_distrib')

lemma chanmode_index_outside:
  assumes "\<not> (64 \<le> ord c \<and> ord c < 128)"
  shows "64 \<le> chanmode_index c"
proof -
  have c: "ord c < 256" by simp
  have k: "signed_char c - 64 < 0" "- (2 ^ 32) \<le> signed_char c - 64 - 64"
    using assms c by (auto simp: signed_char_def simp del: ord_less_256)
  have "(signed_char c - 64) mod 2 ^ 32 = (signed_char c - 64 + 2 ^ 32) mod 2 ^ 32"
    by (rule mod_add_self2[symmetric])
  also have "\<dots> = signed_char c - 64 + 2 ^ 32" by (rule mod_pos_pos_trivial) (use k in auto)
  finally show ?thesis using k by (simp add: chanmode_index_eq)
qed

lemma chanmode_index_less: "chanmode_index c < 64 \<longleftrightarrow> 64 \<le> ord c \<and> ord c < 128"
  using chanmode_index_letter chanmode_index_outside by (metis add_diff_cancel_left'
      le_add_diff_inverse less_diff_conv2 not_less numeral_Bit0)

lemma bit_chflg: "64 \<le> ord c \<Longrightarrow> ord c < 128 \<Longrightarrow> bit (chflg c) i \<longleftrightarrow> i = ord c - 64"
  by (auto simp: chflg_def bit_exp_iff)

lemma and_bit_iff:
  assumes "j < 64"
  shows "(push_bit j 1 :: 64 word) AND fl \<noteq> 0 \<longleftrightarrow> bit fl j"
proof
  assume "(push_bit j 1 :: 64 word) AND fl \<noteq> 0"
  moreover have "(push_bit j 1 :: 64 word) AND fl = 0" if "\<And>i. \<not> bit ((push_bit j 1 :: 64 word) AND fl) i"
    by (rule bit_eqI) (use that in simp)
  ultimately obtain i where "bit ((push_bit j 1 :: 64 word) AND fl) i" by blast
  then show "bit fl j" by (auto simp: bit_and_iff bit_exp_iff)
next
  assume "bit fl j"
  then have "bit ((push_bit j 1 :: 64 word) AND fl) j" using assms by (simp add: bit_and_iff bit_exp_iff)
  then show "(push_bit j 1 :: 64 word) AND fl \<noteq> 0" by auto
qed

section \<open>The order of the privileges\<close>

definition eligible :: "64 word \<Rightarrow> 32 word \<Rightarrow> chanmode \<Rightarrow> bool" where
  "eligible fl tp m \<longleftrightarrow> m_type m = CHANMODE_TYPE_PRIVILEGE \<and> 0 < m_order m \<and> m_order m < tp \<and>
     m_flag m AND fl \<noteq> 0"

lemma privilege_fold:
  assumes "fold (privilege_step fl tp) tab (c, b) = (c', b')"
  shows "c \<le> c' \<and> (\<forall>m \<in> set tab. eligible fl tp m \<longrightarrow> m_order m \<le> c') \<and>
    (c' = c \<and> b' = b \<or> (\<exists>m \<in> set tab. b' = Some m \<and> c' = m_order m \<and> eligible fl tp m \<and> c < c'))"
  using assms
proof (induction tab arbitrary: c b)
  case (Cons m tab)
  show ?case
  proof (cases "eligible fl tp m \<and> c < m_order m")
    case True
    then have "fold (privilege_step fl tp) tab (m_order m, Some m) = (c', b')"
      using Cons.prems by (simp add: eligible_def)
    from Cons.IH[OF this] show ?thesis using True by (auto simp: eligible_def)
  next
    case False
    then have "fold (privilege_step fl tp) tab (c, b) = (c', b')"
      using Cons.prems by (auto simp: eligible_def word_gt_0 split: if_splits)
    from Cons.IH[OF this] show ?thesis using False by auto
  qed
qed simp

lemma privileges_None:
  assumes "next_privilege tab fl tp = (c, None)"
  shows "\<forall>m \<in> set tab. \<not> eligible fl tp m"
  using privilege_fold[OF assms[unfolded next_privilege_def]] by (auto simp: eligible_def)

lemma privileges_Some:
  assumes "next_privilege tab fl tp = (c, Some m)"
  shows "m \<in> set tab \<and> eligible fl tp m \<and> c = m_order m \<and> (\<forall>m' \<in> set tab. eligible fl tp m' \<longrightarrow> m_order m' \<le> c)"
  using privilege_fold[OF assms[unfolded next_privilege_def]] by auto

text \<open>The modes come in strictly descending order, all of them held, and one of every order
  that is held.\<close>

lemma privileges_sorted:
  "sorted_wrt (\<lambda>a b. m_order b < m_order a) (privileges tab fl tp) \<and>
   (\<forall>m \<in> set (privileges tab fl tp). m \<in> set tab \<and> eligible fl tp m) \<and>
   (\<forall>m \<in> set tab. eligible fl tp m \<longrightarrow> (\<exists>m' \<in> set (privileges tab fl tp). m_order m' = m_order m))"
proof (induction tab fl tp rule: privileges.induct)
  case (1 tab fl tp)
  obtain c b where n: "next_privilege tab fl tp = (c, b)" by (cases "next_privilege tab fl tp")
  show ?case
  proof (cases b)
    case None
    then show ?thesis using privileges_None n by (subst (1 2 3) privileges.simps) auto
  next
    case (Some m)
    note m = privileges_Some[OF n[unfolded Some]]
    have p: "privileges tab fl tp = m # privileges tab fl c"
      by (subst privileges.simps) (simp add: n Some)
    note IH = "1"[OF n[symmetric, unfolded Some] refl]
    have below: "eligible fl tp x \<and> m_order x < m_order m" if "x \<in> set (privileges tab fl c)" for x
      using IH that m by (force simp: eligible_def)
    have "\<exists>m' \<in> set (privileges tab fl tp). m_order m' = m_order x"
      if "x \<in> set tab" "eligible fl tp x" for x
    proof (cases "m_order x = c")
      case False
      then have "eligible fl c x" using m that by (force simp: eligible_def)
      then show ?thesis using IH that(1) unfolding p by auto
    qed (use m p in auto)
    then show ?thesis using IH below m unfolding p by auto
  qed
qed

section \<open>Well-formed tables\<close>

text \<open>A registered entry stands at the index of its letter and owns that bit.\<close>

definition table_ok :: "chanmode list \<Rightarrow> bool" where
  "table_ok tab \<longleftrightarrow> length tab = 64 \<and> (\<forall>i < 64. m_type (tab ! i) \<noteq> 0 \<longrightarrow>
     chars_isalpha (m_letter (tab ! i)) \<and> m_letter (tab ! i) = char_of (64 + i) \<and>
     m_flag (tab ! i) = push_bit i 1)"

definition is_privilege :: "chanmode \<Rightarrow> bool" where
  "is_privilege m \<longleftrightarrow> m_type m = CHANMODE_TYPE_PRIVILEGE"

text \<open>What the privilege modules have to respect: distinct positive orders and distinct
  prefixes.\<close>

definition privileges_ok :: "chanmode list \<Rightarrow> bool" where
  "privileges_ok tab \<longleftrightarrow> table_ok tab \<and>
     (\<forall>i < 64. is_privilege (tab ! i) \<longrightarrow> 0 < m_order (tab ! i) \<and> m_order (tab ! i) \<noteq> - 1 \<and>
        m_prefix (tab ! i) \<noteq> NUL \<and> m_prefix (tab ! i) \<noteq> CHR '':'') \<and>
     (\<forall>i < 64. \<forall>j < 64. is_privilege (tab ! i) \<longrightarrow> is_privilege (tab ! j) \<longrightarrow>
        m_order (tab ! i) = m_order (tab ! j) \<or> m_prefix (tab ! i) = m_prefix (tab ! j) \<longrightarrow> i = j)"

lemma privilege_registered: "is_privilege m \<Longrightarrow> m_type m \<noteq> 0"
  by (auto simp: is_privilege_def chanmode_types)

lemma table_ok_flag: "table_ok tab \<Longrightarrow> i < 64 \<Longrightarrow> is_privilege (tab ! i) \<Longrightarrow> m_flag (tab ! i) = push_bit i 1"
  using privilege_registered by (auto simp: table_ok_def)

lemma in_table: "length tab = 64 \<Longrightarrow> m \<in> set tab \<longleftrightarrow> (\<exists>i < 64. m = tab ! i)"
  by (metis in_set_conv_nth)

lemma eligible_all:
  assumes "privileges_ok tab" "i < 64"
  shows "eligible fl (- 1) (tab ! i) \<longleftrightarrow> is_privilege (tab ! i) \<and> bit fl i"
proof (cases "is_privilege (tab ! i)")
  case True
  have "m_flag (tab ! i) = push_bit i 1"
    using table_ok_flag[of tab i] assms True by (simp add: privileges_ok_def)
  moreover have "0 < m_order (tab ! i)" "m_order (tab ! i) < - 1"
    using assms True word_order.not_eq_extremum[of "m_order (tab ! i)"] by (auto simp: privileges_ok_def)
  ultimately show ?thesis
    using True and_bit_iff[OF assms(2), of fl] by (simp add: eligible_def is_privilege_def)
qed (simp add: eligible_def is_privilege_def)

lemma privileges_set:
  assumes "privileges_ok tab"
  shows "set (privileges tab fl (- 1)) = {tab ! i |i. i < 64 \<and> is_privilege (tab ! i) \<and> bit fl i}"
proof -
  have len: "length tab = 64" using assms by (simp add: privileges_ok_def table_ok_def)
  note sorted = privileges_sorted[of tab fl "- 1"]
  show ?thesis
  proof (intro set_eqI iffI)
    fix m assume "m \<in> set (privileges tab fl (- 1))"
    then have "m \<in> set tab" "eligible fl (- 1) m" using sorted by auto
    then show "m \<in> {tab ! i |i. i < 64 \<and> is_privilege (tab ! i) \<and> bit fl i}"
      using eligible_all[OF assms] by (auto simp: in_table[OF len])
  next
    fix m assume "m \<in> {tab ! i |i. i < 64 \<and> is_privilege (tab ! i) \<and> bit fl i}"
    then obtain i where i: "m = tab ! i" "i < 64" "is_privilege (tab ! i)" "bit fl i" by blast
    then have "m \<in> set tab" "eligible fl (- 1) m"
      using eligible_all[OF assms] by (auto simp: in_table[OF len])
    then obtain m' where m': "m' \<in> set (privileges tab fl (- 1))" "m_order m' = m_order m"
      using sorted by blast
    then have "m' \<in> set tab" "eligible fl (- 1) m'" using sorted by auto
    then obtain j where j: "m' = tab ! j" "j < 64" "is_privilege (tab ! j)"
      using eligible_all[OF assms] by (auto simp: in_table[OF len])
    have "m_order (tab ! j) = m_order (tab ! i)" using m'(2) i(1) j(1) by simp
    then have "j = i" using assms i j unfolding privileges_ok_def by blast
    then show "m \<in> set (privileges tab fl (- 1))" using m'(1) i(1) j(1) by simp
  qed
qed

lemma distinct_descending: "sorted_wrt (\<lambda>a b. f b < (f a :: 'a :: order)) xs \<Longrightarrow> distinct (map f xs)"
  by (induction xs) auto

lemma privileges_length:
  assumes "length tab = 64"
  shows "length (privileges tab fl (- 1)) \<le> 64"
proof -
  have "distinct (map m_order (privileges tab fl (- 1)))"
    using privileges_sorted[of tab fl "- 1"] by (blast intro: distinct_descending)
  then have "length (privileges tab fl (- 1)) = card (set (privileges tab fl (- 1)))"
    by (simp add: distinct_card distinct_map)
  also have "\<dots> \<le> card (set tab)"
    using privileges_sorted[of tab fl "- 1"] by (intro card_mono) auto
  also have "\<dots> \<le> 64" using assms card_length[of tab] by simp
  finally show ?thesis .
qed

lemma prefix_make_result:
  assumes "privileges_ok tab" "length pfx = 65"
  obtains pfx' where "chanmode_prefix_make tab pfx fl = Some pfx'" "length pfx' = 65"
    "cstr pfx' = map m_prefix (privileges tab fl (- 1))"
proof -
  let ?p = "map m_prefix (privileges tab fl (- 1))"
  have len: "length ?p < length pfx" using privileges_length[of tab fl] assms by (simp add: privileges_ok_def table_ok_def)
  have "no_nul ?p"
    using privileges_set[OF assms(1)] assms(1) by (auto simp: no_nul_def privileges_ok_def)
  then have "cstr (?p @ NUL # drop (Suc (length ?p)) pfx) = ?p" by (rule cstr_append_NUL)
  then show ?thesis
    using that[of "?p @ NUL # drop (Suc (length ?p)) pfx"] store_all_correct[of 0 ?p pfx] len assms(2)
    by (simp add: chanmode_prefix_make_def Cons_nth_drop_Suc[symmetric] list_update_append)
qed

lemma prefix_flag_at:
  assumes "privileges_ok tab" "i < 64" "is_privilege (tab ! i)"
  shows "prefix_flag tab (m_prefix (tab ! i)) = Some (push_bit i 1)"
proof -
  have "prefix_flag ms c = Some f"
    if "k < length ms" "is_privilege (ms ! k)" "m_prefix (ms ! k) = c" "m_flag (ms ! k) = f"
      "\<forall>j < k. is_privilege (ms ! j) \<longrightarrow> m_prefix (ms ! j) \<noteq> c" for ms k c f
    using that
  proof (induction ms arbitrary: k)
    case (Cons m ms)
    show ?case
    proof (cases k)
      case (Suc l)
      have "\<forall>j < l. is_privilege (ms ! j) \<longrightarrow> m_prefix (ms ! j) \<noteq> c"
        using Cons.prems(5) Suc by (metis Suc_less_eq nth_Cons_Suc)
      moreover have "\<not> (is_privilege m \<and> m_prefix m = c)"
        using Cons.prems(5) Suc by (metis nth_Cons_0 zero_less_Suc)
      ultimately show ?thesis
        using Cons.IH[of l] Cons.prems Suc by (auto simp: is_privilege_def)
    qed (use Cons.prems in \<open>simp add: is_privilege_def\<close>)
  qed simp
  note scan = this
  have first: "\<forall>j < i. is_privilege (tab ! j) \<longrightarrow> m_prefix (tab ! j) \<noteq> m_prefix (tab ! i)"
  proof (intro allI impI notI)
    fix j assume j: "j < i" "is_privilege (tab ! j)" "m_prefix (tab ! j) = m_prefix (tab ! i)"
    have "j < 64" using j(1) assms(2) by simp
    then have "j = i" using assms j(2,3) unfolding privileges_ok_def by blast
    then show False using j(1) by simp
  qed
  have tab: "table_ok tab" using assms(1) by (simp add: privileges_ok_def)
  show ?thesis
    by (rule scan[OF _ assms(3) refl table_ok_flag[OF tab assms(2,3)] first])
      (use tab assms(2) in \<open>simp add: table_ok_def\<close>)
qed

definition stops_prefix :: "chanmode list \<Rightarrow> string \<Rightarrow> bool" where
  "stops_prefix tab r \<longleftrightarrow> r = [] \<or> hd r = NUL \<or> hd r = CHR '':'' \<or> prefix_flag tab (hd r) = None"

lemma prefix_parse_list:
  assumes "privileges_ok tab" "\<forall>m \<in> set ms. \<exists>i < 64. m = tab ! i \<and> is_privilege (tab ! i)"
    "stops_prefix tab r"
  shows "bit (chanmode_prefix_parse tab (map m_prefix ms @ r) ret) k \<longleftrightarrow>
    bit ret k \<or> (\<exists>m \<in> set ms. bit (m_flag m) k)"
  using assms(2)
proof (induction ms arbitrary: ret)
  case Nil
  then show ?case using assms(3) by (cases r) (auto simp: stops_prefix_def)
next
  case (Cons m ms)
  then obtain i where i: "i < 64" "m = tab ! i" "is_privilege (tab ! i)" by auto
  have "m_prefix m \<noteq> NUL" "m_prefix m \<noteq> CHR '':''" using assms(1) i by (auto simp: privileges_ok_def)
  then have "chanmode_prefix_parse tab (map m_prefix (m # ms) @ r) ret =
      chanmode_prefix_parse tab (map m_prefix ms @ r) (ret OR m_flag m)"
    using prefix_flag_at[OF assms(1) i(1,3)] table_ok_flag[of tab i] assms(1) i
    by (simp add: privileges_ok_def)
  then show ?case using Cons.IH[of "ret OR m_flag m"] Cons.prems by (auto simp: bit_or_iff)
qed

lemma prefix_parse_bits:
  assumes "privileges_ok tab" "stops_prefix tab r"
  shows "bit (chanmode_prefix_parse tab (map m_prefix (privileges tab fl (- 1)) @ r) 0) k \<longleftrightarrow>
    k < 64 \<and> bit fl k \<and> is_privilege (tab ! k)"
proof -
  have flag: "m_flag (tab ! i) = push_bit i 1" if "i < 64" "is_privilege (tab ! i)" for i
    using table_ok_flag[of tab i] that assms(1) by (simp add: privileges_ok_def)
  have "bit (chanmode_prefix_parse tab (map m_prefix (privileges tab fl (- 1)) @ r) 0) k \<longleftrightarrow>
      (\<exists>m \<in> set (privileges tab fl (- 1)). bit (m_flag m) k)"
    by (subst prefix_parse_list[OF assms(1) _ assms(2)]) (auto simp: privileges_set[OF assms(1)])
  also have "\<dots> \<longleftrightarrow> k < 64 \<and> bit fl k \<and> is_privilege (tab ! k)"
    unfolding privileges_set[OF assms(1)] using flag by (auto simp: bit_exp_iff)
  finally show ?thesis .
qed

section \<open>The properties\<close>

text \<open>The walks stay in their buffers and the ISUPPORT values are set, whatever the modes.\<close>

lemma store_string:
  assumes "length t < length b"
  obtains b' where "store_all b 0 t = Some (t @ drop (length t) b, length t)"
    "wr (t @ drop (length t) b) (length t) NUL = Some b'" "length b' = length b" "cstr b' = cstr t"
proof -
  let ?b = "t @ NUL # drop (Suc (length t)) b"
  have "wr (t @ drop (length t) b) (length t) NUL = Some ?b"
    using assms by (simp add: Cons_nth_drop_Suc[symmetric] list_update_append)
  moreover have "cstr (t @ NUL # r) = cstr t" for r by (induction t) auto
  ultimately show ?thesis using that assms store_all_correct[of 0 t b] by simp
qed

lemma length_support_letters: "length (support_letters tab) \<le> 2 * length tab"
  by (induction tab) auto

lemma length_flag_letters: "length (flag_letters tab t fl) \<le> length tab"
  by (simp add: flag_letters_def)

lemma chanmode_support_result:
  assumes "length (cm_table s) = 64"
  obtains s' where "chanmode_support ft s = Some s'" "cm_table s' = cm_table s"
    "support_value (cm_support s') ''CHANMODES'' = Some (take 127 (cstr (support_letters (cm_table s))))"
proof -
  let ?t = "support_letters (cm_table s)"
  have len: "length ?t < length (replicate 129 NUL)"
    using length_support_letters[of "cm_table s"] assms by simp
  obtain b' where b': "store_all (replicate 129 NUL) 0 ?t = Some (?t @ drop (length ?t) (replicate 129 NUL), length ?t)"
    "wr (?t @ drop (length ?t) (replicate 129 NUL)) (length ?t) NUL = Some b'" "cstr b' = cstr ?t"
    using store_string[OF len] by metis
  let ?q = "[PStr False False 0 (Some b')]" and ?r = "take 127 (cstr ?t)"
  have "concat (map render ?q) = ''%s''" "concat (map piece_arg ?q) = [ArgStr (Some b')]"
    "concat (map meaning ?q) = cstr ?t"
    by (simp_all add: flags_def aligned_def b'(3))
  then have "str_vsnprintf ft (replicate 128 NUL) 128 ''%s'' [ArgStr (Some b')] =
      Some (?r @ NUL # drop (Suc (length ?r)) (replicate 128 NUL), length ?r)"
    using vsnprintf_text[of ?q 128 "replicate 128 NUL" ft] by (simp add: Let_def)
  from support_set_result[OF _ this, of "''CHANMODES''" "cm_support s"] obtain su' where
    "ircd_support_set ft (cm_support s) ''CHANMODES'' (Some ''%s'') [ArgStr (Some b')] = Some su'"
    "support_value su' ''CHANMODES'' = Some ?r"
    by (auto simp: no_nul_take)
  then show ?thesis
    using that[of "s\<lparr>cm_support := su'\<rparr>"] b' by (simp add: chanmode_support_def)
qed

lemma chanuser_support_result:
  assumes "length (cm_table s) = 64"
  obtains s' where "chanuser_support ft s = Some s'" "cm_table s' = cm_table s"
proof -
  let ?p = "map m_prefix (privileges (cm_table s) CHANMODE_FLAG_ALL (- 1))"
  let ?m = "flag_letters (cm_table s) CHANMODE_TYPE_ALL CHANMODE_FLAG_ALL"
  have "length ?p < length (replicate 65 NUL)" "length ?m < length (replicate 65 NUL)"
    using privileges_length[OF assms, of CHANMODE_FLAG_ALL] assms
      length_flag_letters[of "cm_table s" CHANMODE_TYPE_ALL CHANMODE_FLAG_ALL] by simp_all
  note p = this(1) and m = this(2)
  obtain p where p: "chanmode_prefix_make (cm_table s) (replicate 65 NUL) CHANMODE_FLAG_ALL = Some p"
    by (rule store_string[OF p]) (simp add: chanmode_prefix_make_def that)
  obtain m where m: "chanmode_flags_build (cm_table s) (replicate 65 NUL) CHANMODE_TYPE_ALL
      CHANMODE_FLAG_ALL = Some (m, length ?m)"
    by (rule store_string[OF m]) (simp add: chanmode_flags_build_def that)
  let ?q = "[PLit (CHR ''(''), PStr False False 0 (Some m), PLit (CHR '')''), PStr False False 0 (Some p)]"
  have q: "concat (map render ?q) = ''(%s)%s''"
    "concat (map piece_arg ?q) = [ArgStr (Some m), ArgStr (Some p)]" "\<forall>q \<in> set ?q. piece_ok q"
    by (simp_all add: flags_def)
  have "(0::nat) < 128" "128 \<le> length (replicate 128 NUL)" by simp_all
  from vsnprintf_text[OF q(3) this, of ft] obtain v k where
    "str_vsnprintf ft (replicate 128 NUL) 128 ''(%s)%s'' [ArgStr (Some m), ArgStr (Some p)] = Some (v, k)"
    unfolding q(1,2) Let_def by blast
  from support_set_result[OF _ this, of "''PREFIX''" "cm_support s"] obtain su' where
    "ircd_support_set ft (cm_support s) ''PREFIX'' (Some ''(%s)%s'') [ArgStr (Some m), ArgStr (Some p)] = Some su'"
    by auto
  then show ?thesis
    using that[of "s\<lparr>cm_support := su'\<rparr>"] p m by (simp add: chanuser_support_def)
qed

text \<open>The slot of a letter.\<close>

lemma alpha_index:
  assumes "chars_isalpha c"
  shows "ord c < 128 \<Longrightarrow> chanmode_index c = ord c - 64 \<and> 64 \<le> ord c"
    "128 \<le> ord c \<Longrightarrow> 64 \<le> chanmode_index c"
proof -
  have "64 \<le> ord c" using assms by (auto simp: class_tests alpha_byte_def)
  then show "ord c < 128 \<Longrightarrow> chanmode_index c = ord c - 64 \<and> 64 \<le> ord c"
    by (simp add: chanmode_index_letter)
  show "128 \<le> ord c \<Longrightarrow> 64 \<le> chanmode_index c" by (rule chanmode_index_outside) simp
qed

lemma table_ok_register:
  assumes "table_ok tab" "chars_isalpha (m_letter m)" "ord (m_letter m) < 128"
    "m_flag m = chflg (m_letter m)"
  shows "table_ok (tab[chanmode_index (m_letter m) := m])"
proof -
  note i = alpha_index(1)[OF assms(2,3)]
  have "m_letter m = char_of (64 + (ord (m_letter m) - 64))" using i by simp
  then show ?thesis
    using assms i unfolding table_ok_def by (auto simp: nth_list_update chflg_def)
qed

lemma table_ok_clear: "table_ok tab \<Longrightarrow> m_type m = 0 \<Longrightarrow> i < length tab \<Longrightarrow> table_ok (tab[i := m])"
  by (auto simp: table_ok_def nth_list_update)

text \<open>C39. Round trip of the member prefixes: over a table whose privileges have distinct positive
  orders and distinct prefixes, \<open>chanmode_prefix_make\<close> on any set of flags returns and stays
  in the 65 bytes of \<open>chanuser.prefix\<close>; it writes the prefixes of the privileges held, highest
  order first; and \<open>chanmode_prefix_parse\<close> of them, also when a nick follows directly as in
  NJOIN, gives back exactly the privileges among the flags.\<close>

theorem prefix_roundtrip:
  assumes "privileges_ok tab" "length pfx = 65" "stops_prefix tab r"
  shows "\<exists>pfx'. chanmode_prefix_make tab pfx fl = Some pfx' \<and> length pfx' = 65 \<and>
    cstr pfx' = map m_prefix (privileges tab fl (- 1)) \<and>
    sorted_wrt (\<lambda>a b. m_order b < m_order a) (privileges tab fl (- 1)) \<and>
    (\<forall>k. bit (chanmode_prefix_parse tab (cstr pfx' @ r) 0) k \<longleftrightarrow>
       k < 64 \<and> bit fl k \<and> is_privilege (tab ! k))"
proof -
  obtain pfx' where p: "chanmode_prefix_make tab pfx fl = Some pfx'" "length pfx' = 65"
    "cstr pfx' = map m_prefix (privileges tab fl (- 1))"
    using prefix_make_result[OF assms(1,2)] by metis
  then have "bit (chanmode_prefix_parse tab (cstr pfx' @ r) 0) k \<longleftrightarrow> k < 64 \<and> bit fl k \<and> is_privilege (tab ! k)" for k
    using prefix_parse_bits[OF assms(1,3)] by simp
  then show ?thesis using p privileges_sorted[of tab fl "- 1"] by blast
qed

text \<open>The table of the modules cm_op, cm_halfop and cm_voice.\<close>

definition privilege_mode :: "char \<Rightarrow> char \<Rightarrow> 32 word \<Rightarrow> chanmode" where
  "privilege_mode c p n = \<lparr>m_letter = c, m_prefix = p, m_type = CHANMODE_TYPE_PRIVILEGE, m_need = 0,
     m_order = n, m_cb = Chanuser_bounce, m_flag = chflg c\<rparr>"

definition ohv_table :: "chanmode list" where
  "ohv_table = (replicate 64 chanmode_zero)[47 := privilege_mode (CHR ''o'') (CHR ''@'') 100,
     40 := privilege_mode (CHR ''h'') (CHR ''%'') 50, 54 := privilege_mode (CHR ''v'') (CHR ''+'') 20]"

lemma ohv_table_nth:
  "i < 64 \<Longrightarrow> ohv_table ! i = (if i = 54 then privilege_mode (CHR ''v'') (CHR ''+'') 20
     else if i = 40 then privilege_mode (CHR ''h'') (CHR ''%'') 50
     else if i = 47 then privilege_mode (CHR ''o'') (CHR ''@'') 100 else chanmode_zero)"
  by (simp add: ohv_table_def nth_list_update)

lemma ohv_privileges_ok: "privileges_ok ohv_table"
proof -
  have alpha: "chars_isalpha (CHR ''o'')" "chars_isalpha (CHR ''h'')" "chars_isalpha (CHR ''v'')"
    by (simp_all add: class_tests alpha_byte_def)
  have chr: "CHR ''v'' = (char_of (118::nat) :: char)" "CHR ''h'' = (char_of (104::nat) :: char)"
    "CHR ''o'' = (char_of (111::nat) :: char)" by code_simp+
  have "table_ok ohv_table"
    unfolding table_ok_def
  proof (intro conjI allI impI)
    show "length ohv_table = 64" by (simp add: ohv_table_def)
    fix i :: nat assume i: "i < 64" "m_type (ohv_table ! i) \<noteq> 0"
    then have "i = 54 \<or> i = 40 \<or> i = 47"
      by (auto simp: ohv_table_nth chanmode_zero_def split: if_splits)
    then show "chars_isalpha (m_letter (ohv_table ! i))" "m_letter (ohv_table ! i) = char_of (64 + i)"
      "m_flag (ohv_table ! i) = push_bit i 1"
      using alpha chr by (auto simp: ohv_table_nth privilege_mode_def chflg_def)
  qed
  then show ?thesis
    by (auto simp: privileges_ok_def ohv_table_nth privilege_mode_def chanmode_zero_def
        chanmode_types is_privilege_def)
qed

lemma prefix_roundtrip_witness:
  "\<exists>pfx'. chanmode_prefix_make ohv_table (replicate 65 NUL) (chflg (CHR ''v'') OR chflg (CHR ''o'')) =
     Some pfx' \<and> bit (chanmode_prefix_parse ohv_table (cstr pfx' @ ''nick'') 0) 54"
proof -
  have stop: "stops_prefix ohv_table ''nick''"
    unfolding stops_prefix_def ohv_table_def by code_simp
  have "bit (chflg (CHR ''v'') OR chflg (CHR ''o'')) 54" "is_privilege (ohv_table ! 54)"
    by (simp_all add: bit_or_iff bit_chflg ohv_table_nth is_privilege_def privilege_mode_def)
  then show ?thesis
    using prefix_roundtrip[OF ohv_privileges_ok, of "replicate 65 NUL", OF _ stop] by force
qed

lemma register_free:
  assumes "table_ok (cm_table s)" "chars_isalpha (m_letter c)" "ord (m_letter c) < 128"
    "m_type (cm_table s ! chanmode_index (m_letter c)) = 0"
  obtains s' where "chanmode_register ft s c = Some (s', True)"
    "cm_table s' = (cm_table s)[chanmode_index (m_letter c) :=
      c\<lparr>m_flag := push_bit (chanmode_index (m_letter c)) 1\<rparr>]"
proof -
  let ?t = "cm_table s" and ?i = "chanmode_index (m_letter c)"
  define m where "m = (?t ! ?i)\<lparr>m_flag := chflg (m_letter c), m_type := m_type c,
    m_prefix := m_prefix c, m_cb := m_cb c, m_need := m_need c, m_letter := m_letter c,
    m_order := m_order c\<rparr>"
  define s1 where "s1 = s\<lparr>cm_table := ?t[?i := m]\<rparr>"
  have len: "length ?t = 64" using assms(1) by (simp add: table_ok_def)
  then have l1: "length (cm_table s1) = 64" by (simp add: s1_def)
  note i = alpha_index(1)[OF assms(2,3)]
  obtain s' where s': "(if m_type c AND CHANMODE_TYPE_PRIVILEGE \<noteq> 0 then chanuser_support ft s1
      else chanmode_support ft s1) = Some s'" "cm_table s' = cm_table s1"
    using chanuser_support_result[OF l1, of ft] chanmode_support_result[OF l1, of ft] by metis
  have "chanmode_register ft s c = do {
      s \<leftarrow> (if m_type c AND CHANMODE_TYPE_PRIVILEGE \<noteq> 0 then chanuser_support ft s1
        else chanmode_support ft s1);
      Some (s, True) }"
    using assms i len by (simp add: chanmode_register_def Let_def m_def s1_def)
  then have "chanmode_register ft s c = Some (s', True)" using s'(1) by simp
  moreover have "m = c\<lparr>m_flag := push_bit ?i 1\<rparr>" by (simp add: m_def chflg_def i)
  ultimately show ?thesis using that s'(2) by (simp add: s1_def)
qed

text \<open>C40. The table keeps its type: each registered entry stands at the index of its letter and
  owns exactly that bit. Registering a letter of the alphabet below 128 returns and fills a free
  slot, changing nothing else of the table, or reports a taken one; unregistering empties the slot
  or reports it empty. Neither touches the table for a character that is no letter, and both
  access memory outside the table for the letters from 192 up, which the character class admits.\<close>

theorem chanmode_table_typed:
  assumes "table_ok (cm_table s)"
  shows "let i = chanmode_index (m_letter c); r = chanmode_register ft s c; u = chanmode_unregister ft s c in
    (if \<not> chars_isalpha (m_letter c) then r = Some (s, False) \<and> u = Some (s, - 1)
     else if ord (m_letter c) \<ge> 128 then r = None \<and> u = None
     else if m_type (cm_table s ! i) \<noteq> 0 then r = Some (s, False) \<and>
       (\<exists>s'. u = Some (s', 0) \<and> table_ok (cm_table s') \<and> m_type (cm_table s' ! i) = 0 \<and>
         (\<forall>j < 64. j \<noteq> i \<longrightarrow> cm_table s' ! j = cm_table s ! j))
     else u = Some (s, - 1) \<and>
       (\<exists>s'. r = Some (s', True) \<and> table_ok (cm_table s') \<and>
         cm_table s' ! i = c\<lparr>m_flag := push_bit i 1\<rparr> \<and>
         (\<forall>j < 64. j \<noteq> i \<longrightarrow> cm_table s' ! j = cm_table s ! j)))"
proof -
  let ?c = "m_letter c" and ?t = "cm_table s"
  let ?i = "chanmode_index ?c"
  have len: "length ?t = 64" using assms by (simp add: table_ok_def)
  show ?thesis
  proof (cases "chars_isalpha ?c")
    case False
    then show ?thesis by (simp add: chanmode_register_def chanmode_unregister_def Let_def)
  next
    case alpha: True
    show ?thesis
    proof (cases "ord ?c < 128")
      case False
      then have "\<not> ?i < length ?t" using alpha_index(2)[OF alpha] len by simp
      then show ?thesis
        using alpha False by (simp add: chanmode_register_def chanmode_unregister_def Let_def)
    next
      case low: True
      note i = alpha_index(1)[OF alpha low]
      then have il: "?i < length ?t" using len low by simp
      show ?thesis
      proof (cases "m_type (?t ! ?i) = 0")
        case True
        obtain s' where "chanmode_register ft s c = Some (s', True)"
          "cm_table s' = ?t[?i := c\<lparr>m_flag := push_bit ?i 1\<rparr>]"
          using register_free[OF assms alpha low True] by metis
        moreover have "table_ok (?t[?i := c\<lparr>m_flag := push_bit ?i 1\<rparr>])"
          using table_ok_register[OF assms, of "c\<lparr>m_flag := push_bit ?i 1\<rparr>"] alpha low i
          by (simp add: chflg_def)
        ultimately show ?thesis
          using alpha low il True by (simp add: chanmode_unregister_def Let_def)
      next
        case False
        obtain s' where s': "(if m_type (?t ! ?i) AND CHANMODE_TYPE_PRIVILEGE \<noteq> 0 then chanuser_support ft s
            else chanmode_support ft s) = Some s'" "cm_table s' = cm_table s"
          using chanuser_support_result[OF len, of ft] chanmode_support_result[OF len, of ft] by metis
        then show ?thesis
          using alpha low il False table_ok_clear[OF assms]
          by (simp add: chanmode_register_def chanmode_unregister_def Let_def)
      qed
    qed
  qed
qed

text \<open>The advertised modes: registering a flag, key, limit or list mode sets the ISUPPORT value
  CHANMODES to the letters of the table afterwards, cut to 127 bytes; unregistering sets it to the
  letters of the table before, so that the removed mode goes on being advertised.\<close>

theorem chanmode_support_stale:
  assumes "table_ok (cm_table s)"
  shows "(\<forall>s'. chanmode_register ft s c = Some (s', True) \<and> m_type c AND CHANMODE_TYPE_PRIVILEGE = 0 \<longrightarrow>
      support_value (cm_support s') ''CHANMODES'' = Some (take 127 (cstr (support_letters (cm_table s'))))) \<and>
    (\<forall>s'. chanmode_unregister ft s c = Some (s', 0) \<and>
      m_type (cm_table s ! chanmode_index (m_letter c)) AND CHANMODE_TYPE_PRIVILEGE = 0 \<longrightarrow>
      support_value (cm_support s') ''CHANMODES'' = Some (take 127 (cstr (support_letters (cm_table s)))))"
proof (intro conjI allI impI; elim conjE)
  have len: "length (cm_table s) = 64" using assms by (simp add: table_ok_def)
  fix s' assume r: "chanmode_register ft s c = Some (s', True)" "m_type c AND CHANMODE_TYPE_PRIVILEGE = 0"
  have "\<exists>s1. chanmode_support ft s1 = Some s' \<and> length (cm_table s1) = 64"
  proof (cases "chars_isalpha (m_letter c) \<and> chanmode_index (m_letter c) < 64 \<and>
      m_type (cm_table s ! chanmode_index (m_letter c)) = 0")
    case True
    define s1 where "s1 = s\<lparr>cm_table := (cm_table s)[chanmode_index (m_letter c) :=
      (cm_table s ! chanmode_index (m_letter c))\<lparr>m_flag := chflg (m_letter c), m_type := m_type c,
        m_prefix := m_prefix c, m_cb := m_cb c, m_need := m_need c, m_letter := m_letter c,
        m_order := m_order c\<rparr>]\<rparr>"
    have "chanmode_register ft s c = do { s \<leftarrow> chanmode_support ft s1; Some (s, True) }"
      using True r(2) len by (simp add: chanmode_register_def Let_def s1_def)
    then have "chanmode_support ft s1 = Some s'" using r(1) by (cases "chanmode_support ft s1") auto
    moreover have "length (cm_table s1) = 64" by (simp add: s1_def len)
    ultimately show ?thesis by blast
  next
    case False
    then consider "\<not> chars_isalpha (m_letter c)"
      | "chars_isalpha (m_letter c)" "\<not> chanmode_index (m_letter c) < 64"
      | "chars_isalpha (m_letter c)" "chanmode_index (m_letter c) < 64"
        "m_type (cm_table s ! chanmode_index (m_letter c)) \<noteq> 0" by blast
    then have "chanmode_register ft s c \<noteq> Some (s', True)"
      by cases (simp_all add: chanmode_register_def Let_def len)
    then show ?thesis using r by simp
  qed
  then obtain s1 where s1: "chanmode_support ft s1 = Some s'" "length (cm_table s1) = 64" by blast
  obtain s2 where "chanmode_support ft s1 = Some s2" "cm_table s2 = cm_table s1"
    "support_value (cm_support s2) ''CHANMODES'' = Some (take 127 (cstr (support_letters (cm_table s1))))"
    using chanmode_support_result[OF s1(2), of ft] by metis
  then show "support_value (cm_support s') ''CHANMODES'' = Some (take 127 (cstr (support_letters (cm_table s'))))"
    using s1(1) by simp
next
  have len: "length (cm_table s) = 64" using assms by (simp add: table_ok_def)
  fix s' assume u: "chanmode_unregister ft s c = Some (s', 0)"
    "m_type (cm_table s ! chanmode_index (m_letter c)) AND CHANMODE_TYPE_PRIVILEGE = 0"
  have "\<exists>s1. chanmode_support ft s = Some s1 \<and> cm_support s' = cm_support s1"
  proof (cases "chars_isalpha (m_letter c) \<and> chanmode_index (m_letter c) < 64 \<and>
      m_type (cm_table s ! chanmode_index (m_letter c)) \<noteq> 0")
    case True
    then have "chanmode_unregister ft s c = do {
        s1 \<leftarrow> chanmode_support ft s;
        Some (s1\<lparr>cm_table := (cm_table s1)[chanmode_index (m_letter c) :=
          (cm_table s ! chanmode_index (m_letter c))\<lparr>m_flag := 0, m_type := 0, m_prefix := NUL\<rparr>]\<rparr>, 0) }"
      using u(2) len by (simp add: chanmode_unregister_def Let_def)
    then show ?thesis using u(1) by (cases "chanmode_support ft s") auto
  next
    case False
    then consider "\<not> chars_isalpha (m_letter c)"
      | "chars_isalpha (m_letter c)" "\<not> chanmode_index (m_letter c) < 64"
      | "chars_isalpha (m_letter c)" "chanmode_index (m_letter c) < 64"
        "m_type (cm_table s ! chanmode_index (m_letter c)) = 0" by blast
    then have "chanmode_unregister ft s c \<noteq> Some (s', 0)"
      by cases (simp_all add: chanmode_unregister_def Let_def len)
    then show ?thesis using u by simp
  qed
  then obtain s1 where s1: "chanmode_support ft s = Some s1" "cm_support s' = cm_support s1" by blast
  obtain s2 where "chanmode_support ft s = Some s2"
    "support_value (cm_support s2) ''CHANMODES'' = Some (take 127 (cstr (support_letters (cm_table s))))"
    using chanmode_support_result[OF len, of ft] by metis
  then show "support_value (cm_support s') ''CHANMODES'' = Some (take 127 (cstr (support_letters (cm_table s))))"
    using s1 by simp
qed

definition topic_mode :: chanmode where
  "topic_mode = \<lparr>m_letter = CHR ''t'', m_prefix = NUL, m_type = CHANMODE_TYPE_SINGLE,
     m_need = chflg (CHR ''o''), m_order = 0, m_cb = Bounce_simple, m_flag = 0\<rparr>"

definition ohv_modes :: chanmodes where
  "ohv_modes = \<lparr>cm_table = ohv_table, cm_support = []\<rparr>"

lemma topic_facts: "chars_isalpha (m_letter topic_mode)" "chanmode_index (m_letter topic_mode) = 52"
  "ord (m_letter topic_mode) = 116" "table_ok (cm_table ohv_modes)"
  "m_type (cm_table ohv_modes ! 52) = 0" "m_type topic_mode AND CHANMODE_TYPE_PRIVILEGE = 0"
  using ohv_privileges_ok
  by (simp_all add: topic_mode_def class_tests alpha_byte_def chanmode_index_letter ohv_modes_def
      privileges_ok_def ohv_table_nth chanmode_zero_def chanmode_types)

lemma chanmode_table_witness:
  "\<exists>s'. chanmode_register str_init ohv_modes topic_mode = Some (s', True) \<and>
     cm_table s' ! 52 = topic_mode\<lparr>m_flag := push_bit 52 1\<rparr>"
  using chanmode_table_typed[OF topic_facts(4), of topic_mode str_init]
  unfolding Let_def topic_facts(2) by (auto simp: topic_facts)

lemma chanmode_support_witness:
  "\<exists>s'. chanmode_register str_init ohv_modes topic_mode = Some (s', True) \<and>
     support_value (cm_support s') ''CHANMODES'' = Some (take 127 (cstr (support_letters (cm_table s'))))"
proof -
  obtain s' where "chanmode_register str_init ohv_modes topic_mode = Some (s', True)"
    using register_free[of ohv_modes topic_mode str_init] topic_facts by auto
  then show ?thesis
    using chanmode_support_stale[OF topic_facts(4), of str_init topic_mode] topic_facts(6) by blast
qed

end
