(* ===== verification/State.thy ===== *)
theory State
  imports Chanmode
begin

text \<open>
  The shared state of the channel subsystem: clients, users, channels, the membership blocks
  that link them, and invitations, each a map from block addresses to records, with the counters
  of the modules. Member lists hold the addresses of membership blocks. Lines and numerics that
  are sent are appended to \<open>sent\<close> in order, with the format and arguments of the call.
\<close>

section \<open>Blocks\<close>

datatype client_type = CLIENT_USER | CLIENT_SERVER | CLIENT_SERVICE
datatype client_location = CLIENT_LOCAL | CLIENT_REMOTE

text \<open>\<open>struct client\<close> (include/ircd/client.h).\<close>

record client =
  c_id :: "32 word"
  c_refcount :: "32 word"
  c_hash :: "64 word"
  c_type :: client_type
  c_location :: client_location
  c_lclient :: "ptr option"
  c_source :: "ptr option"
  c_origin :: "ptr option"
  c_user :: "ptr option"
  c_serial :: "32 word"
  c_hops :: "32 word"
  c_created :: "64 word"
  c_lastmsg :: "64 word"
  c_lastread :: "64 word"
  c_ts :: "64 word"
  c_name :: string
  c_host :: string
  c_hostreal :: string
  c_hostip :: string
  c_info :: string

text \<open>\<open>struct lclient\<close> (include/ircd/lclient.h) and \<open>struct history\<close>, a nick that a client had.\<close>

datatype lclient_type = LCLIENT_UNKNOWN | LCLIENT_USER | LCLIENT_SERVER | LCLIENT_OPER

record lclient =
  l_type :: lclient_type
  l_hash :: "64 word"
  l_caps :: "64 word"
  l_name :: string

record history =
  h_hash :: "64 word"
  h_client :: ptr
  h_nick :: string

text \<open>\<open>struct user\<close> (include/ircd/user.h).\<close>

record user =
  u_client :: "ptr option"
  u_channels :: "ptr list"
  u_invites :: "ptr list"
  u_name :: string
  u_uid :: string
  u_uhash :: "64 word"

text \<open>\<open>struct chanuser\<close> (include/ircd/chanuser.h).\<close>

record chanuser =
  cu_local :: bool
  cu_serial :: "32 word"
  cu_channel :: ptr
  cu_client :: ptr
  cu_flags :: "64 word"
  cu_prefix :: string

text \<open>\<open>struct chanmodeitem\<close> (include/ircd/chanmode.h), an entry of a mode list.\<close>

record chanmodeitem =
  i_mask :: string
  i_nmask :: string
  i_umask :: string
  i_hmask :: string
  i_info :: string
  i_ts :: "64 word"
  i_ihash :: "64 word"

record logentry =
  le_ts :: "64 word"
  le_from :: string
  le_cmd :: string
  le_text :: "string option"

text \<open>\<open>struct channel\<close> and \<open>struct invite\<close> (include/ircd/channel.h).\<close>

record channel =
  ch_id :: "32 word"
  ch_refcount :: "32 word"
  ch_hash :: "64 word"
  ch_ts :: "64 word"
  ch_topic_ts :: "64 word"
  ch_chanusers :: "ptr list"
  ch_lchanusers :: "ptr list"
  ch_rchanusers :: "ptr list"
  ch_invites :: "ptr list"
  ch_modelists :: "chanmodeitem list list"
  ch_modes :: "64 word"
  ch_serial :: "32 word"
  ch_limit :: "64 word"
  ch_name :: string
  ch_topic :: string
  ch_topic_info :: string
  ch_key :: string
  ch_server :: "ptr option"
  ch_backlog :: "ptr list"

record invite =
  iv_channel :: ptr
  iv_user :: ptr

text \<open>What is sent: \<open>numeric_send\<close>, \<open>channel_send\<close>, \<open>server_send\<close> with the required and
  the refused capability, \<open>client_send\<close>, the same with \<open>numeric_format\<close> and the two names in front,
  and \<open>lclient_send\<close>. \<open>Server\<close> stands for the name of a server block.\<close>

datatype sarg = Str string | Num nat | Chr char | Client ptr | Server "ptr option"

datatype cap = CAP_NONE | CAP_UID

datatype outmsg =
    Numeric ptr nat "sarg list"
  | Channel_line "ptr option" ptr string "sarg list"
  | Server_line "ptr option" "ptr option" cap cap string "sarg list"
  | Client_line ptr string "sarg list"
  | Numeric_line ptr nat "sarg list"
  | Lclient_line ptr string "sarg list"

record ircd =
  clients :: "ptr \<rightharpoonup> client"
  users :: "ptr \<rightharpoonup> user"
  chanusers :: "ptr \<rightharpoonup> chanuser"
  channels :: "ptr \<rightharpoonup> channel"
  invites :: "ptr \<rightharpoonup> invite"
  logentries :: "ptr \<rightharpoonup> logentry"
  lclients :: "ptr \<rightharpoonup> lclient"
  histories :: "ptr \<rightharpoonup> history"
  client_list :: "ptr list"
  client_listsn :: "ptr list list"
  client_history :: "ptr list list"
  user_lists :: "ptr list list"
  channel_list :: "ptr list"
  channel_lists :: "ptr list list"
  channel_id :: "32 word"
  channel_serial :: "32 word"
  chanuser_serial :: "32 word"
  client_serial :: "32 word"
  client_me :: ptr
  server_me :: "ptr option"
  timer_systime :: "64 word"
  modes_table :: "chanmode list"
  sent :: "outmsg list"

section \<open>Constants\<close>

definition CHANNEL_HASH_SIZE :: nat where "CHANNEL_HASH_SIZE = 16"
definition CLIENT_HASH_SIZE :: nat where "CLIENT_HASH_SIZE = 32"
definition CLIENT_HISTORY_SIZE :: nat where "CLIENT_HISTORY_SIZE = 64"
definition USER_HASH_SIZE :: nat where "USER_HASH_SIZE = 16"
definition IRCD_CHANNELLEN :: nat where "IRCD_CHANNELLEN = 128"
definition IRCD_TOPICLEN :: nat where "IRCD_TOPICLEN = 384"
definition IRCD_NICKLEN :: nat where "IRCD_NICKLEN = 32"
definition IRCD_USERLEN :: nat where "IRCD_USERLEN = 16"
definition IRCD_HOSTLEN :: nat where "IRCD_HOSTLEN = 64"
definition IRCD_KEYLEN :: nat where "IRCD_KEYLEN = 24"
definition IRCD_PREFIXLEN :: nat where
  "IRCD_PREFIXLEN = IRCD_NICKLEN + 1 + IRCD_USERLEN + 1 + IRCD_HOSTLEN"
definition IRCD_MODESPERLINE :: nat where "IRCD_MODESPERLINE = 4"
definition IRCD_MAXBANS :: nat where "IRCD_MAXBANS = 64"
definition CHANMODE_PER_LINE :: nat where "CHANMODE_PER_LINE = 16"
definition CHANUSER_PER_LINE :: nat where "CHANUSER_PER_LINE = 32"

lemmas ircd_sizes = CHANNEL_HASH_SIZE_def IRCD_CHANNELLEN_def IRCD_TOPICLEN_def IRCD_NICKLEN_def
  IRCD_USERLEN_def IRCD_HOSTLEN_def IRCD_KEYLEN_def IRCD_PREFIXLEN_def IRCD_MODESPERLINE_def
  IRCD_MAXBANS_def CHANMODE_PER_LINE_def CHANUSER_PER_LINE_def

definition client_is_local :: "client \<Rightarrow> bool" where
  "client_is_local c \<longleftrightarrow> c_location c = CLIENT_LOCAL"

definition client_is_user :: "client \<Rightarrow> bool" where
  "client_is_user c \<longleftrightarrow> c_type c = CLIENT_USER"

definition client_is_service :: "client \<Rightarrow> bool" where
  "client_is_service c \<longleftrightarrow> c_type c = CLIENT_SERVICE"

section \<open>Access\<close>

definition put_client :: "ptr \<Rightarrow> client \<Rightarrow> ircd \<Rightarrow> ircd" where
  "put_client p c s = s\<lparr>clients := (clients s)(p \<mapsto> c)\<rparr>"

definition put_user :: "ptr \<Rightarrow> user \<Rightarrow> ircd \<Rightarrow> ircd" where
  "put_user p u s = s\<lparr>users := (users s)(p \<mapsto> u)\<rparr>"

definition put_chanuser :: "ptr \<Rightarrow> chanuser \<Rightarrow> ircd \<Rightarrow> ircd" where
  "put_chanuser p cu s = s\<lparr>chanusers := (chanusers s)(p \<mapsto> cu)\<rparr>"

definition put_channel :: "ptr \<Rightarrow> channel \<Rightarrow> ircd \<Rightarrow> ircd" where
  "put_channel p ch s = s\<lparr>channels := (channels s)(p \<mapsto> ch)\<rparr>"

definition send :: "outmsg \<Rightarrow> ircd \<Rightarrow> ircd" where
  "send x s = s\<lparr>sent := sent s @ [x]\<rparr>"

named_theorems put_simps \<open>what a store changes\<close>

lemma put_client_simps [simp, put_simps]:
  "clients (put_client p c s) = (clients s)(p \<mapsto> c)" "users (put_client p c s) = users s"
  "chanusers (put_client p c s) = chanusers s" "channels (put_client p c s) = channels s"
  "invites (put_client p c s) = invites s" "logentries (put_client p c s) = logentries s" "channel_list (put_client p c s) = channel_list s"
  "channel_lists (put_client p c s) = channel_lists s" "sent (put_client p c s) = sent s"
  "modes_table (put_client p c s) = modes_table s"
  "channel_id (put_client p c s) = channel_id s" "channel_serial (put_client p c s) = channel_serial s"
  "chanuser_serial (put_client p c s) = chanuser_serial s" "client_serial (put_client p c s) = client_serial s"
  "client_me (put_client p c s) = client_me s" "server_me (put_client p c s) = server_me s"
  "timer_systime (put_client p c s) = timer_systime s"
  "lclients (put_client p c s) = lclients s"
  "histories (put_client p c s) = histories s"
  "client_list (put_client p c s) = client_list s"
  "client_listsn (put_client p c s) = client_listsn s"
  "client_history (put_client p c s) = client_history s"
  "user_lists (put_client p c s) = user_lists s"
  by (simp_all add: put_client_def)

lemma put_user_simps [simp, put_simps]:
  "clients (put_user p u s) = clients s" "users (put_user p u s) = (users s)(p \<mapsto> u)"
  "chanusers (put_user p u s) = chanusers s" "channels (put_user p u s) = channels s"
  "invites (put_user p u s) = invites s" "logentries (put_user p u s) = logentries s" "channel_list (put_user p u s) = channel_list s"
  "channel_lists (put_user p u s) = channel_lists s" "sent (put_user p u s) = sent s"
  "modes_table (put_user p u s) = modes_table s"
  "channel_id (put_user p u s) = channel_id s" "channel_serial (put_user p u s) = channel_serial s"
  "chanuser_serial (put_user p u s) = chanuser_serial s" "client_serial (put_user p u s) = client_serial s"
  "client_me (put_user p u s) = client_me s" "server_me (put_user p u s) = server_me s"
  "timer_systime (put_user p u s) = timer_systime s"
  "lclients (put_user p u s) = lclients s"
  "histories (put_user p u s) = histories s"
  "client_list (put_user p u s) = client_list s"
  "client_listsn (put_user p u s) = client_listsn s"
  "client_history (put_user p u s) = client_history s"
  "user_lists (put_user p u s) = user_lists s"
  by (simp_all add: put_user_def)

lemma put_chanuser_simps [simp, put_simps]:
  "clients (put_chanuser p cu s) = clients s" "users (put_chanuser p cu s) = users s"
  "chanusers (put_chanuser p cu s) = (chanusers s)(p \<mapsto> cu)"
  "channels (put_chanuser p cu s) = channels s" "invites (put_chanuser p cu s) = invites s" "logentries (put_chanuser p cu s) = logentries s"
  "channel_list (put_chanuser p cu s) = channel_list s"
  "channel_lists (put_chanuser p cu s) = channel_lists s" "sent (put_chanuser p cu s) = sent s"
  "modes_table (put_chanuser p cu s) = modes_table s"
  "channel_id (put_chanuser p cu s) = channel_id s" "channel_serial (put_chanuser p cu s) = channel_serial s"
  "chanuser_serial (put_chanuser p cu s) = chanuser_serial s" "client_serial (put_chanuser p cu s) = client_serial s"
  "client_me (put_chanuser p cu s) = client_me s" "server_me (put_chanuser p cu s) = server_me s"
  "timer_systime (put_chanuser p cu s) = timer_systime s"
  "lclients (put_chanuser p cu s) = lclients s"
  "histories (put_chanuser p cu s) = histories s"
  "client_list (put_chanuser p cu s) = client_list s"
  "client_listsn (put_chanuser p cu s) = client_listsn s"
  "client_history (put_chanuser p cu s) = client_history s"
  "user_lists (put_chanuser p cu s) = user_lists s"
  by (simp_all add: put_chanuser_def)

lemma put_channel_simps [simp, put_simps]:
  "clients (put_channel p ch s) = clients s" "users (put_channel p ch s) = users s"
  "chanusers (put_channel p ch s) = chanusers s"
  "channels (put_channel p ch s) = (channels s)(p \<mapsto> ch)" "invites (put_channel p ch s) = invites s" "logentries (put_channel p ch s) = logentries s"
  "channel_list (put_channel p ch s) = channel_list s"
  "channel_lists (put_channel p ch s) = channel_lists s" "sent (put_channel p ch s) = sent s"
  "modes_table (put_channel p ch s) = modes_table s"
  "channel_id (put_channel p ch s) = channel_id s" "channel_serial (put_channel p ch s) = channel_serial s"
  "chanuser_serial (put_channel p ch s) = chanuser_serial s" "client_serial (put_channel p ch s) = client_serial s"
  "client_me (put_channel p ch s) = client_me s" "server_me (put_channel p ch s) = server_me s"
  "timer_systime (put_channel p ch s) = timer_systime s"
  "lclients (put_channel p ch s) = lclients s"
  "histories (put_channel p ch s) = histories s"
  "client_list (put_channel p ch s) = client_list s"
  "client_listsn (put_channel p ch s) = client_listsn s"
  "client_history (put_channel p ch s) = client_history s"
  "user_lists (put_channel p ch s) = user_lists s"
  by (simp_all add: put_channel_def)

lemma send_simps [simp, put_simps]:
  "clients (send x s) = clients s" "users (send x s) = users s" "chanusers (send x s) = chanusers s"
  "channels (send x s) = channels s" "invites (send x s) = invites s" "logentries (send x s) = logentries s"
  "channel_list (send x s) = channel_list s" "channel_lists (send x s) = channel_lists s"
  "sent (send x s) = sent s @ [x]" "modes_table (send x s) = modes_table s"
  "channel_id (send x s) = channel_id s" "channel_serial (send x s) = channel_serial s"
  "chanuser_serial (send x s) = chanuser_serial s" "client_serial (send x s) = client_serial s"
  "client_me (send x s) = client_me s" "server_me (send x s) = server_me s"
  "timer_systime (send x s) = timer_systime s"
  "lclients (send x s) = lclients s"
  "histories (send x s) = histories s"
  "client_list (send x s) = client_list s"
  "client_listsn (send x s) = client_listsn s"
  "client_history (send x s) = client_history s"
  "user_lists (send x s) = user_lists s"
  by (simp_all add: send_def)

end
