(* ===== verification/Channel.thy ===== *)
theory Channel
  imports State
begin

text \<open>
  Channels and memberships: src/channel.c and the membership blocks of src/chanuser.c. A channel
  is found through a hash table; a membership block is linked into the member lists of its channel
  and the channel list of its user. The invariant says that these links agree, and the operations
  are shown to implement insertion into and removal from the relation of channels and members.
  Freed blocks leave the maps, so that a read after a free is \<open>None\<close>.
\<close>

unbundle bit_operations_syntax

section \<open>References\<close>

definition channel_pop :: "ircd \<Rightarrow> ptr option \<Rightarrow> (ircd \<times> ptr option) option" where
  "channel_pop s chptr = (case chptr of None \<Rightarrow> Some (s, None) | Some p \<Rightarrow> do {
     ch \<leftarrow> channels s p;
     Some (put_channel p (ch\<lparr>ch_refcount := ch_refcount ch + 1\<rparr>) s, Some p) })"

definition client_pop :: "ircd \<Rightarrow> ptr option \<Rightarrow> (ircd \<times> ptr option) option" where
  "client_pop s cptr = (case cptr of None \<Rightarrow> Some (s, None) | Some p \<Rightarrow> do {
     c \<leftarrow> clients s p;
     Some (put_client p (c\<lparr>c_refcount := c_refcount c + 1\<rparr>) s, Some p) })"

section \<open>Membership blocks\<close>

text \<open>The user block of a client, which the code dereferences without a check.\<close>

definition user_of :: "ircd \<Rightarrow> ptr \<Rightarrow> ptr option" where
  "user_of s cptr = do { c \<leftarrow> clients s cptr; c_user c }"

text \<open>\<open>a\<close> is the block that \<open>mem_static_alloc\<close> returns.\<close>

definition chanuser_new :: "ircd \<Rightarrow> ptr \<Rightarrow> ptr \<Rightarrow> ptr \<Rightarrow> ircd option" where
  "chanuser_new s a chptr cptr = do {
     (s, _) \<leftarrow> channel_pop s (Some chptr);
     (s, _) \<leftarrow> client_pop s (Some cptr);
     Some (put_chanuser a \<lparr>cu_local = False, cu_serial = chanuser_serial s, cu_channel = chptr,
       cu_client = cptr, cu_flags = 0, cu_prefix = []\<rparr> s) }"

definition chanuser_add :: "ircd \<Rightarrow> ptr \<Rightarrow> ptr \<Rightarrow> ptr \<Rightarrow> (ircd \<times> ptr option) option" where
  "chanuser_add s a chptr cptr = do {
     c \<leftarrow> clients s cptr;
     if client_is_user c \<or> client_is_service c then do {
       s \<leftarrow> chanuser_new s a chptr cptr;
       cu \<leftarrow> chanusers s a;
       let loc = client_is_local c;
       let s = put_chanuser a (cu\<lparr>cu_local := loc\<rparr>) s;
       ch \<leftarrow> channels s chptr;
       let ch = ch\<lparr>ch_chanusers := ch_chanusers ch @ [a]\<rparr>;
       let ch = (if loc then ch\<lparr>ch_lchanusers := ch_lchanusers ch @ [a]\<rparr>
         else ch\<lparr>ch_rchanusers := ch_rchanusers ch @ [a]\<rparr>);
       let s = put_channel chptr ch s;
       up \<leftarrow> user_of s cptr;
       u \<leftarrow> users s up;
       Some (put_user up (u\<lparr>u_channels := u_channels u @ [a]\<rparr>) s, Some a) }
     else Some (s, None) }"

definition chanuser_find :: "ircd \<Rightarrow> ptr \<Rightarrow> ptr \<Rightarrow> ptr option option" where
  "chanuser_find s chptr cptr = do {
     c \<leftarrow> clients s cptr;
     if client_is_user c \<or> client_is_service c then do {
       up \<leftarrow> c_user c;
       u \<leftarrow> users s up;
       search (\<lambda>p. do { cu \<leftarrow> chanusers s p; Some (cu_channel cu = chptr) }) (u_channels u) }
     else Some None }"

definition chanuser_find_warn :: "ircd \<Rightarrow> ptr \<Rightarrow> ptr \<Rightarrow> ptr \<Rightarrow> (ircd \<times> ptr option) option" where
  "chanuser_find_warn s cptr chptr acptr = do {
     r \<leftarrow> chanuser_find s chptr acptr;
     case r of Some cu \<Rightarrow> Some (s, Some cu)
     | None \<Rightarrow> do {
         c \<leftarrow> clients s cptr;
         ch \<leftarrow> channels s chptr;
         ac \<leftarrow> clients s acptr;
         if client_is_user c then
           Some (send (if acptr = cptr then Numeric cptr 442 [Str (ch_name ch)]
             else Numeric cptr 441 [Str (ch_name ch), Str (c_name ac)]) s, None)
         else Some (s, None) } }"

definition chanuser_delete :: "ircd \<Rightarrow> ptr \<Rightarrow> ircd option" where
  "chanuser_delete s p = do {
     cu \<leftarrow> chanusers s p;
     up \<leftarrow> user_of s (cu_client cu);
     u \<leftarrow> users s up;
     ps \<leftarrow> unlink p (u_channels u);
     let s = put_user up (u\<lparr>u_channels := ps\<rparr>) s;
     ch \<leftarrow> channels s (cu_channel cu);
     gs \<leftarrow> unlink p (ch_chanusers ch);
     let ch = ch\<lparr>ch_chanusers := gs\<rparr>;
     ch \<leftarrow> (if cu_local cu
       then do { ls \<leftarrow> unlink p (ch_lchanusers ch); Some (ch\<lparr>ch_lchanusers := ls\<rparr>) }
       else do { rs \<leftarrow> unlink p (ch_rchanusers ch); Some (ch\<lparr>ch_rchanusers := rs\<rparr>) });
     let s = put_channel (cu_channel cu) ch s;
     Some (s\<lparr>chanusers := (chanusers s)(p := None)\<rparr>) }"

section \<open>Invitations\<close>

definition user_invite :: "ircd \<Rightarrow> ptr \<Rightarrow> ptr \<Rightarrow> ptr \<Rightarrow> ircd option" where
  "user_invite s a uptr chptr = do {
     u \<leftarrow> users s uptr;
     found \<leftarrow> search (\<lambda>p. do { iv \<leftarrow> invites s p; Some (iv_channel iv = chptr) }) (u_invites u);
     if found \<noteq> None then Some s
     else do {
       ch \<leftarrow> channels s chptr;
       let s = s\<lparr>invites := (invites s)(a \<mapsto> \<lparr>iv_channel = chptr, iv_user = uptr\<rparr>)\<rparr>;
       let s = put_channel chptr (ch\<lparr>ch_invites := a # ch_invites ch\<rparr>) s;
       Some (put_user uptr (u\<lparr>u_invites := u_invites u @ [a]\<rparr>) s) } }"

definition user_uninvite :: "ircd \<Rightarrow> ptr \<Rightarrow> ircd option" where
  "user_uninvite s p = do {
     iv \<leftarrow> invites s p;
     ch \<leftarrow> channels s (iv_channel iv);
     cs \<leftarrow> unlink p (ch_invites ch);
     let s = put_channel (iv_channel iv) (ch\<lparr>ch_invites := cs\<rparr>) s;
     u \<leftarrow> users s (iv_user iv);
     us \<leftarrow> unlink p (u_invites u);
     let s = put_user (iv_user iv) (u\<lparr>u_invites := us\<rparr>) s;
     Some (s\<lparr>invites := (invites s)(p := None)\<rparr>) }"

section \<open>Channels\<close>

text \<open>\<open>dlink_foreach_safe\<close> takes the next node before the body, and the bodies unlink only the
  node they are at: the loop visits the list as it was.\<close>

fun for_each :: "('s \<Rightarrow> ptr \<Rightarrow> 's option) \<Rightarrow> 's \<Rightarrow> ptr list \<Rightarrow> 's option" where
  "for_each f s [] = Some s"
| "for_each f s (p # ps) = do { s \<leftarrow> f s p; for_each f s ps }"

definition free_logentry :: "ircd \<Rightarrow> ptr \<Rightarrow> ircd option" where
  "free_logentry s p = do {
     _ \<leftarrow> logentries s p;
     Some (s\<lparr>logentries := (logentries s)(p := None)\<rparr>) }"

text \<open>The backlog entries are freed and stay in the list; the list of remote members is left as
  the deletions leave it.\<close>

definition channel_release :: "ircd \<Rightarrow> ptr \<Rightarrow> ircd option" where
  "channel_release s chptr = do {
     ch \<leftarrow> channels s chptr;
     s \<leftarrow> for_each chanuser_delete s (ch_chanusers ch);
     ch \<leftarrow> channels s chptr;
     s \<leftarrow> for_each user_uninvite s (ch_invites ch);
     ch \<leftarrow> channels s chptr;
     s \<leftarrow> for_each free_logentry s (ch_backlog ch);
     ch \<leftarrow> channels s chptr;
     Some (put_channel chptr (ch\<lparr>ch_lchanusers := [], ch_chanusers := []\<rparr>) s) }"

definition channel_zero :: channel where
  "channel_zero = \<lparr>ch_id = 0, ch_refcount = 0, ch_hash = 0, ch_ts = 0, ch_topic_ts = 0,
     ch_chanusers = [], ch_lchanusers = [], ch_rchanusers = [], ch_invites = [],
     ch_modelists = replicate 64 [], ch_modes = 0, ch_serial = 0, ch_limit = 0, ch_name = [],
     ch_topic = [], ch_topic_info = [], ch_key = [], ch_server = None, ch_backlog = []\<rparr>"

definition channel_link :: "ircd \<Rightarrow> ptr \<Rightarrow> ircd option" where
  "channel_link s p = do {
     ch \<leftarrow> channels s p;
     let i = hash_index (ch_hash ch) CHANNEL_HASH_SIZE;
     Some (s\<lparr>channel_list := channel_list s @ [p],
       channel_lists := (channel_lists s)[i := channel_lists s ! i @ [p]]\<rparr>) }"

definition channel_new :: "(64 word \<Rightarrow> 64 word) \<Rightarrow> ircd \<Rightarrow> ptr \<Rightarrow> string \<Rightarrow> (ircd \<times> ptr) option" where
  "channel_new shl s p name = (
     let name' = field (IRCD_CHANNELLEN + 1) name;
       ch = channel_zero\<lparr>ch_name := name', ch_ts := timer_systime s,
         ch_hash := str_ihash shl (Some name'), ch_refcount := 1, ch_id := channel_id s,
         ch_serial := channel_serial s\<rparr>
     in do {
       s \<leftarrow> channel_link (put_channel p ch (s\<lparr>channel_id := channel_id s + 1\<rparr>)) p;
       Some (s, p) })"

definition channel_unlink :: "ircd \<Rightarrow> ptr \<Rightarrow> ircd option" where
  "channel_unlink s p = do {
     ch \<leftarrow> channels s p;
     ls \<leftarrow> unlink p (channel_list s);
     let i = hash_index (ch_hash ch) CHANNEL_HASH_SIZE;
     bs \<leftarrow> unlink p (channel_lists s ! i);
     Some (s\<lparr>channel_list := ls, channel_lists := (channel_lists s)[i := bs]\<rparr>) }"

definition channel_delete :: "ircd \<Rightarrow> ptr \<Rightarrow> ircd option" where
  "channel_delete s p = do {
     s \<leftarrow> channel_unlink s p;
     s \<leftarrow> channel_release s p;
     Some (s\<lparr>channels := (channels s)(p := None)\<rparr>) }"

definition channel_push :: "ircd \<Rightarrow> ptr option \<Rightarrow> (ircd \<times> ptr option) option" where
  "channel_push s chptr = (case chptr of None \<Rightarrow> Some (s, None) | Some p \<Rightarrow> do {
     ch \<leftarrow> channels s p;
     if ch_refcount ch = 0 then Some (s, Some p)
     else do {
       let ch = ch\<lparr>ch_refcount := ch_refcount ch - 1\<rparr>;
       let s = put_channel p ch s;
       s \<leftarrow> (if ch_refcount ch = 0 then channel_release s p else Some s);
       Some (s, None) } })"

definition channel_find_name :: "(64 word \<Rightarrow> 64 word) \<Rightarrow> ircd \<Rightarrow> string \<Rightarrow> ptr option option" where
  "channel_find_name shl s name = (let hash = str_ihash shl (Some name) in
     search (\<lambda>p. do {
       ch \<leftarrow> channels s p;
       Some (hash = ch_hash ch \<and> str_icmp (ch_name ch) name = 0) })
     (channel_lists s ! hash_index hash CHANNEL_HASH_SIZE))"

definition channel_find_id :: "ircd \<Rightarrow> 32 word \<Rightarrow> ptr option option" where
  "channel_find_id s n = search (\<lambda>p. do { ch \<leftarrow> channels s p; Some (ch_id ch = n) }) (channel_list s)"

definition channel_find_warn ::
  "(64 word \<Rightarrow> 64 word) \<Rightarrow> ircd \<Rightarrow> ptr \<Rightarrow> string \<Rightarrow> (ircd \<times> ptr option) option" where
  "channel_find_warn shl s cptr name = do {
     r \<leftarrow> channel_find_name shl s name;
     case r of Some p \<Rightarrow> Some (s, Some p)
     | None \<Rightarrow> do {
         c \<leftarrow> clients s cptr;
         Some (if client_is_user c then send (Numeric cptr 403 [Str name]) s else s, None) } }"

text \<open>The loops over the channels of a user that quits (src/client.c) and of a user behind a
  server that splits (src/server.c): the block is freed before its channel is read.\<close>

definition quit_channel :: "ircd \<Rightarrow> ptr \<Rightarrow> ircd option" where
  "quit_channel s p = do {
     s \<leftarrow> chanuser_delete s p;
     cu \<leftarrow> chanusers s p;
     ch \<leftarrow> channels s (cu_channel cu);
     if ch_chanusers ch = [] \<and> ch_modes ch AND chflg (CHR ''P'') = 0
     then channel_delete s (cu_channel cu) else Some s }"

definition quit_channels :: "ircd \<Rightarrow> ptr \<Rightarrow> ircd option" where
  "quit_channels s uptr = do { u \<leftarrow> users s uptr; for_each quit_channel s (u_channels u) }"

definition split_channel :: "ircd \<Rightarrow> ptr \<Rightarrow> ircd option" where
  "split_channel s p = do {
     s \<leftarrow> chanuser_delete s p;
     cu \<leftarrow> chanusers s p;
     ch \<leftarrow> channels s (cu_channel cu);
     if ch_chanusers ch = [] then channel_delete s (cu_channel cu) else Some s }"

definition split_channels :: "ircd \<Rightarrow> ptr \<Rightarrow> ircd option" where
  "split_channels s uptr = do { u \<leftarrow> users s uptr; for_each split_channel s (u_channels u) }"

section \<open>The backlog\<close>

text \<open>Cutting the real name at the last \<open>" ("\<close> behind the first two characters.\<close>

fun cut_info :: "string \<Rightarrow> nat \<Rightarrow> string" where
  "cut_info info n = (if n < 2 then info
     else if str_ncmp (drop n info) '' ('' 2 = 0 then take n info else cut_info info (n - 1))"

text \<open>The sizes of the arrays \<open>info\<close>, \<open>from\<close> and \<open>cmd\<close>; a block in the
  name is replaced by the byte \<open>0x7f\<close>. An empty text is stored as no text.\<close>

definition backlog_entry :: "64 word \<Rightarrow> client \<Rightarrow> string \<Rightarrow> string option \<Rightarrow> logentry" where
  "backlog_entry now c cmd text = (
     let info = (if cur (c_info c) \<noteq> NUL
         then (let info = field 513 (c_info c) in cut_info info (length info - 2))
         else field 513 (c_name c))
     in \<lparr>le_ts = now, le_from = map (\<lambda>x. if x = CHR '' '' then CHR 0x7f else x) (field 513 info),
       le_cmd = field 32 cmd,
       le_text = (case text of None \<Rightarrow> None | Some t \<Rightarrow> if cur t = NUL then None else Some (cstr t))\<rparr>)"

definition channel_backlog :: "ircd \<Rightarrow> ptr \<Rightarrow> ptr \<Rightarrow> ptr \<Rightarrow> string \<Rightarrow> string option \<Rightarrow> ircd option" where
  "channel_backlog s a chptr cptr cmd text = do {
     c \<leftarrow> clients s cptr;
     if \<not> client_is_user c then Some s
     else do {
       ch \<leftarrow> channels s chptr;
       Some (put_channel chptr (ch\<lparr>ch_backlog := ch_backlog ch @ [a]\<rparr>)
         (s\<lparr>logentries := (logentries s)(a \<mapsto> backlog_entry (timer_systime s) c cmd text)\<rparr>)) } }"

section \<open>The membership invariant\<close>

definition is_local :: "ircd \<Rightarrow> ptr \<Rightarrow> bool" where
  "is_local s p \<longleftrightarrow> (case chanusers s p of None \<Rightarrow> False | Some cu \<Rightarrow> cu_local cu)"

definition member_block :: "ircd \<Rightarrow> ptr \<Rightarrow> chanuser \<Rightarrow> bool" where
  "member_block s p cu \<longleftrightarrow> chanusers s p = Some cu \<and>
     (\<exists>ch. channels s (cu_channel cu) = Some ch \<and> p \<in> set (ch_chanusers ch))"

text \<open>The relation the blocks represent.\<close>

definition members :: "ircd \<Rightarrow> (ptr \<times> ptr) set" where
  "members s = {(cu_channel cu, cu_client cu) |p cu. member_block s p cu}"

text \<open>The block \<open>p\<close> belongs to the channel \<open>k\<close> and stands in the list of its user.\<close>

definition block_ok :: "ircd \<Rightarrow> ptr \<Rightarrow> ptr \<Rightarrow> bool" where
  "block_ok s k p \<longleftrightarrow> (\<exists>cu u us. chanusers s p = Some cu \<and> cu_channel cu = k \<and>
     user_of s (cu_client cu) = Some u \<and> users s u = Some us \<and> p \<in> set (u_channels us))"

definition channel_lists_ok :: "ircd \<Rightarrow> bool" where
  "channel_lists_ok s \<longleftrightarrow> (\<forall>k ch. channels s k = Some ch \<longrightarrow> distinct (ch_chanusers ch) \<and>
     ch_lchanusers ch = filter (is_local s) (ch_chanusers ch) \<and>
     ch_rchanusers ch = filter (\<lambda>p. \<not> is_local s p) (ch_chanusers ch) \<and>
     (\<forall>p \<in> set (ch_chanusers ch). block_ok s k p))"

definition owned :: "ircd \<Rightarrow> ptr \<Rightarrow> ptr \<Rightarrow> bool" where
  "owned s u p \<longleftrightarrow> (\<exists>cu. member_block s p cu \<and> user_of s (cu_client cu) = Some u)"

definition user_lists_ok :: "ircd \<Rightarrow> bool" where
  "user_lists_ok s \<longleftrightarrow> (\<forall>u us. users s u = Some us \<longrightarrow> distinct (u_channels us) \<and>
     (\<forall>p \<in> set (u_channels us). owned s u p))"

text \<open>Users and services have a user block of their own.\<close>

definition clients_ok :: "ircd \<Rightarrow> bool" where
  "clients_ok s \<longleftrightarrow>
     (\<forall>c cl. clients s c = Some cl \<longrightarrow> client_is_user cl \<or> client_is_service cl \<longrightarrow>
        (\<exists>u us. c_user cl = Some u \<and> users s u = Some us)) \<and>
     (\<forall>c d u. user_of s c = Some u \<longrightarrow> user_of s d = Some u \<longrightarrow> c = d)"

definition members_unique :: "ircd \<Rightarrow> bool" where
  "members_unique s \<longleftrightarrow> (\<forall>p q cu du. member_block s p cu \<longrightarrow> member_block s q du \<longrightarrow>
     cu_channel cu = cu_channel du \<longrightarrow> cu_client cu = cu_client du \<longrightarrow> p = q)"

definition members_wf :: "ircd \<Rightarrow> bool" where
  "members_wf s \<longleftrightarrow> channel_lists_ok s \<and> user_lists_ok s \<and> clients_ok s \<and> members_unique s"

lemma members_wfD:
  assumes "members_wf s"
  shows "channel_lists_ok s" "user_lists_ok s" "clients_ok s" "members_unique s"
  using assms by (simp_all add: members_wf_def)

lemma channel_listsD:
  assumes "channel_lists_ok s" "channels s k = Some ch"
  shows "distinct (ch_chanusers ch)" "ch_lchanusers ch = filter (is_local s) (ch_chanusers ch)"
    "ch_rchanusers ch = filter (\<lambda>p. \<not> is_local s p) (ch_chanusers ch)"
    "p \<in> set (ch_chanusers ch) \<Longrightarrow> block_ok s k p"
  using assms unfolding channel_lists_ok_def by blast+

lemma user_listsD:
  assumes "user_lists_ok s" "users s u = Some us"
  shows "distinct (u_channels us)"
    "p \<in> set (u_channels us) \<Longrightarrow> owned s u p"
  using assms unfolding user_lists_ok_def by blast+

text \<open>A linked block stands in exactly the lists of its channel and its user.\<close>

lemma linked_block:
  assumes "members_wf s" "channels s k = Some ch" "p \<in> set (ch_chanusers ch)"
  obtains cu where "member_block s p cu" "cu_channel cu = k"
  using channel_listsD(4)[OF members_wfD(1)[OF assms(1)] assms(2,3)] assms(2,3) that
  by (auto simp: member_block_def block_ok_def)

lemma member_block_lists:
  assumes "members_wf s" "member_block s p cu"
  obtains ch u us where "channels s (cu_channel cu) = Some ch" "p \<in> set (ch_chanusers ch)"
    "user_of s (cu_client cu) = Some u" "users s u = Some us" "p \<in> set (u_channels us)"
proof -
  obtain ch where ch: "channels s (cu_channel cu) = Some ch" "p \<in> set (ch_chanusers ch)"
    "chanusers s p = Some cu" using assms(2) by (auto simp: member_block_def)
  have "block_ok s (cu_channel cu) p" by (rule channel_listsD(4)[OF members_wfD(1)[OF assms(1)] ch(1,2)])
  then obtain u us where "user_of s (cu_client cu) = Some u" "users s u = Some us" "p \<in> set (u_channels us)"
    using ch(3) unfolding block_ok_def by auto
  with ch show ?thesis using that by blast
qed

lemma block_in_lists:
  assumes "members_wf s" "chanusers s p = Some cu"
  shows "channels s k = Some ch \<Longrightarrow> p \<in> set (ch_chanusers ch) \<Longrightarrow> k = cu_channel cu"
    "users s u = Some us \<Longrightarrow> p \<in> set (u_channels us) \<Longrightarrow> user_of s (cu_client cu) = Some u"
  using channel_listsD(4)[OF members_wfD(1)[OF assms(1)], of k ch p]
    user_listsD(2)[OF members_wfD(2)[OF assms(1)], of u us p] assms(2)
  by (auto simp: member_block_def block_ok_def owned_def)

section \<open>Finding\<close>

lemma chanuser_find_correct:
  assumes wf: "members_wf s" and c: "clients s c = Some cl" "client_is_user cl \<or> client_is_service cl"
  obtains r where "chanuser_find s k c = Some r"
    "r = None \<longleftrightarrow> (k, c) \<notin> members s"
    "\<And>p. r = Some p \<Longrightarrow> \<exists>cu. member_block s p cu \<and> cu_channel cu = k \<and> cu_client cu = c"
proof -
  obtain u us where u: "c_user cl = Some u" "users s u = Some us"
    using members_wfD(3)[OF wf] c unfolding clients_ok_def by blast
  have uo: "user_of s c = Some u" using c u by (simp add: user_of_def)
  let ?P = "\<lambda>p. (case chanusers s p of None \<Rightarrow> False | Some cu \<Rightarrow> cu_channel cu = k)"
  have blk: "\<exists>cu. member_block s p cu \<and> cu_client cu = c" if p: "p \<in> set (u_channels us)" for p
  proof -
    obtain cu where "member_block s p cu" "user_of s (cu_client cu) = Some u"
      using user_listsD(2)[OF members_wfD(2)[OF wf] u(2) p] unfolding owned_def by blast
    then show ?thesis using members_wfD(3)[OF wf] uo unfolding clients_ok_def by blast
  qed
  have f: "chanuser_find s k c = Some (List.find ?P (u_channels us))"
    unfolding chanuser_find_def using c u
    by (simp, intro search_find) (use blk in \<open>force simp: member_block_def\<close>)
  show ?thesis
  proof (rule that[OF f])
    have "(k, c) \<in> members s \<longleftrightarrow> (\<exists>p \<in> set (u_channels us). ?P p)"
    proof
      assume "(k, c) \<in> members s"
      then obtain p cu where p: "member_block s p cu" "cu_channel cu = k" "cu_client cu = c"
        by (auto simp: members_def)
      then obtain us' where "users s u = Some us'" "p \<in> set (u_channels us')"
        using member_block_lists[OF wf p(1)] uo by (metis option.inject)
      then show "\<exists>p \<in> set (u_channels us). ?P p"
        using p u(2) by (auto simp: member_block_def intro!: bexI[of _ p])
    next
      assume "\<exists>p \<in> set (u_channels us). ?P p"
      then obtain p where p: "p \<in> set (u_channels us)" "?P p" by blast
      obtain cu where cu: "member_block s p cu" "cu_client cu = c" using blk[OF p(1)] by blast
      with p(2) have "cu_channel cu = k" by (simp add: member_block_def)
      with cu show "(k, c) \<in> members s" unfolding members_def by blast
    qed
    then show "List.find ?P (u_channels us) = None \<longleftrightarrow> (k, c) \<notin> members s"
      by (simp add: find_None)
    fix p assume "List.find ?P (u_channels us) = Some p"
    then have "p \<in> set (u_channels us)" "?P p" using find_SomeD by fastforce+
    then show "\<exists>cu. member_block s p cu \<and> cu_channel cu = k \<and> cu_client cu = c"
      using blk by (force simp: member_block_def)
  qed
qed

section \<open>Adding and removing a block\<close>

text \<open>What the invariant reads of a client.\<close>

definition client_key :: "ircd \<Rightarrow> ptr \<Rightarrow> (client_type \<times> ptr option) option" where
  "client_key s c = map_option (\<lambda>cl. (c_type cl, c_user cl)) (clients s c)"

lemma client_key_user_of: "client_key s' = client_key s \<Longrightarrow> user_of s' = user_of s"
  unfolding client_key_def user_of_def fun_eq_iff
  by (metis (no_types, lifting) bind_map_option comp_apply old.prod.case option.map_comp snd_conv bind_option_cong)

lemma clients_ok_cong:
  assumes "clients_ok s" "client_key s' = client_key s" "dom (users s) \<subseteq> dom (users s')"
  shows "clients_ok s'"
proof -
  have *: "\<exists>u us. c_user cl = Some u \<and> users s' u = Some us"
    if cl: "clients s' c = Some cl" "client_is_user cl \<or> client_is_service cl" for c cl
  proof -
    have "client_key s c = Some (c_type cl, c_user cl)"
      using assms(2) cl(1) by (metis client_key_def option.simps(9))
    then obtain cl' where "clients s c = Some cl'" "c_type cl' = c_type cl" "c_user cl' = c_user cl"
      by (auto simp: client_key_def)
    moreover from this obtain u us where "c_user cl' = Some u" "users s u = Some us"
      using assms(1) cl(2) unfolding clients_ok_def client_is_user_def client_is_service_def by metis
    ultimately show ?thesis using assms(3) by (metis domD domI subsetD)
  qed
  then show ?thesis
    using assms(1) client_key_user_of[OF assms(2)] unfolding clients_ok_def by simp
qed

text \<open>The state after the block \<open>a\<close> was linked at the end of its lists, and the state
  before \<open>a\<close> was taken out of them.\<close>

definition linked_after :: "ircd \<Rightarrow> ptr \<Rightarrow> chanuser \<Rightarrow> ircd \<Rightarrow> bool" where
  "linked_after s a cu s' \<longleftrightarrow> chanusers s' = (chanusers s)(a \<mapsto> cu) \<and> client_key s' = client_key s \<and>
     (\<exists>ch ch' u us us'. channels s (cu_channel cu) = Some ch \<and>
        channels s' = (channels s)(cu_channel cu \<mapsto> ch') \<and>
        ch_chanusers ch' = ch_chanusers ch @ [a] \<and>
        ch_lchanusers ch' = ch_lchanusers ch @ (if cu_local cu then [a] else []) \<and>
        ch_rchanusers ch' = ch_rchanusers ch @ (if cu_local cu then [] else [a]) \<and>
        user_of s (cu_client cu) = Some u \<and> users s u = Some us \<and>
        users s' = (users s)(u \<mapsto> us') \<and> u_channels us' = u_channels us @ [a])"

definition unlinked_after :: "ircd \<Rightarrow> ptr \<Rightarrow> chanuser \<Rightarrow> ircd \<Rightarrow> bool" where
  "unlinked_after s a cu s' \<longleftrightarrow> chanusers s' = (chanusers s)(a := None) \<and> client_key s' = client_key s \<and>
     (\<exists>ch ch' u us us'. channels s (cu_channel cu) = Some ch \<and>
        channels s' = (channels s)(cu_channel cu \<mapsto> ch') \<and>
        ch_chanusers ch' = removeAll a (ch_chanusers ch) \<and>
        ch_lchanusers ch' = removeAll a (ch_lchanusers ch) \<and>
        ch_rchanusers ch' = removeAll a (ch_rchanusers ch) \<and>
        user_of s (cu_client cu) = Some u \<and> users s u = Some us \<and>
        users s' = (users s)(u \<mapsto> us') \<and> u_channels us' = removeAll a (u_channels us))"

lemma fresh_block:
  assumes "members_wf s" "chanusers s a = None"
  shows "channels s k = Some ch \<Longrightarrow> a \<notin> set (ch_chanusers ch)"
    "users s u = Some us \<Longrightarrow> a \<notin> set (u_channels us)" "\<not> member_block s a cu"
  using channel_listsD(4)[OF members_wfD(1)[OF assms(1)], of k ch a]
    channel_listsD(4)[OF members_wfD(1)[OF assms(1)], of "cu_channel cu" _ a]
    user_listsD(2)[OF members_wfD(2)[OF assms(1)], of u us a] assms(2)
  by (auto simp: member_block_def block_ok_def owned_def)

lemma linked_member_block:
  assumes wf: "members_wf s" and fresh: "chanusers s a = None" and l: "linked_after s a cu s'"
  shows "member_block s' p cu' \<longleftrightarrow> (p = a \<and> cu' = cu) \<or> member_block s p cu'"
proof -
  obtain ch ch' where ch: "channels s (cu_channel cu) = Some ch"
    "channels s' = (channels s)(cu_channel cu \<mapsto> ch')" "ch_chanusers ch' = ch_chanusers ch @ [a]"
    "chanusers s' = (chanusers s)(a \<mapsto> cu)" using l unfolding linked_after_def by blast
  show ?thesis
  proof (cases "p = a")
    case True
    then show ?thesis using ch fresh_block(3)[OF wf fresh] by (auto simp: member_block_def)
  next
    case False
    then show ?thesis using ch by (auto simp: member_block_def)
  qed
qed

lemma unlinked_member_block:
  assumes "unlinked_after s a cu s'"
  shows "member_block s' p cu' \<longleftrightarrow> p \<noteq> a \<and> member_block s p cu'"
  using assms unfolding unlinked_after_def member_block_def by (auto split: if_splits)

lemma linked_wf:
  assumes wf: "members_wf s" and fresh: "chanusers s a = None" and l: "linked_after s a cu s'"
    and new: "(cu_channel cu, cu_client cu) \<notin> members s"
  shows "members_wf s'" "members s' = insert (cu_channel cu, cu_client cu) (members s)"
proof -
  obtain ch ch' u us us' where a: "chanusers s' = (chanusers s)(a \<mapsto> cu)" "client_key s' = client_key s"
    and ch: "channels s (cu_channel cu) = Some ch" "channels s' = (channels s)(cu_channel cu \<mapsto> ch')"
      "ch_chanusers ch' = ch_chanusers ch @ [a]"
      "ch_lchanusers ch' = ch_lchanusers ch @ (if cu_local cu then [a] else [])"
      "ch_rchanusers ch' = ch_rchanusers ch @ (if cu_local cu then [] else [a])"
    and u: "user_of s (cu_client cu) = Some u" "users s u = Some us"
      "users s' = (users s)(u \<mapsto> us')" "u_channels us' = u_channels us @ [a]"
    using l unfolding linked_after_def by blast
  note blk = linked_member_block[OF wf fresh l]
  note fb = fresh_block[OF wf fresh]
  note uo = client_key_user_of[OF a(2)]
  have loc: "is_local s' p = is_local s p" if "p \<noteq> a" for p
    using that by (simp add: is_local_def a)
  have loca: "is_local s' a = cu_local cu" by (simp add: is_local_def a)
  have filt: "filter (is_local s') ps = filter (is_local s) ps"
    "filter (\<lambda>p. \<not> is_local s' p) ps = filter (\<lambda>p. \<not> is_local s p) ps" if "a \<notin> set ps" for ps
    using that loc by (metis (no_types, lifting) filter_cong)+
  have ok: "block_ok s' k p" if b: "block_ok s k p" for k p
  proof -
    obtain d v vs where d: "chanusers s p = Some d" "cu_channel d = k"
      "user_of s (cu_client d) = Some v" "users s v = Some vs" "p \<in> set (u_channels vs)"
      using b unfolding block_ok_def by blast
    have "p \<noteq> a" using d(1) fresh by auto
    moreover have "\<exists>vs. users s' v = Some vs \<and> p \<in> set (u_channels vs)" using d u by auto
    ultimately show ?thesis using d a uo unfolding block_ok_def by (metis fun_upd_other)
  qed
  have ok_a: "block_ok s' (cu_channel cu) a"
    unfolding block_ok_def using a u uo by simp
  have cl: "channel_lists_ok s'"
    unfolding channel_lists_ok_def
  proof (intro allI impI)
    fix k c assume c: "channels s' k = Some c"
    show "distinct (ch_chanusers c) \<and> ch_lchanusers c = filter (is_local s') (ch_chanusers c) \<and>
     ch_rchanusers c = filter (\<lambda>p. \<not> is_local s' p) (ch_chanusers c) \<and>
     (\<forall>p \<in> set (ch_chanusers c). block_ok s' k p)"
    proof (cases "k = cu_channel cu")
      case True
      then show ?thesis
        using c ch channel_listsD[OF members_wfD(1)[OF wf] ch(1)] fb(1)[OF ch(1)] filt[OF fb(1)[OF ch(1)]] loca
          ok ok_a
        by (auto split: if_splits)
    next
      case False
      then have k: "channels s k = Some c" using c ch(2) by simp
      show ?thesis
        using channel_listsD[OF members_wfD(1)[OF wf] k] filt[OF fb(1)[OF k]] ok by simp
    qed
  qed
  have own: "owned s' v p" if "owned s v p" for v p
    using that unfolding owned_def blk uo by blast
  have own_a: "owned s' u a" unfolding owned_def blk uo using u(1) by blast
  have ul: "user_lists_ok s'"
    unfolding user_lists_ok_def
  proof (intro allI impI)
    fix v vs assume v: "users s' v = Some vs"
    show "distinct (u_channels vs) \<and>
      (\<forall>p \<in> set (u_channels vs). owned s' v p)"
    proof (cases "v = u")
      case True
      then show ?thesis
        using v u own own_a user_listsD[OF members_wfD(2)[OF wf] u(2)] fb(2)[OF u(2)] by auto
    next
      case False
      then have "users s v = Some vs" using v u by simp
      then show ?thesis
        using own user_listsD[OF members_wfD(2)[OF wf], of v vs] by auto
    qed
  qed
  have "clients_ok s'"
    by (rule clients_ok_cong[OF members_wfD(3)[OF wf] a(2)]) (use u in auto)
  moreover have "members_unique s'"
  proof -
    have "cu_channel d = cu_channel cu \<longrightarrow> cu_client d \<noteq> cu_client cu" if "member_block s q d" for q d
      using new that unfolding members_def by (metis (mono_tags, lifting) mem_Collect_eq)
    then show ?thesis
      using members_wfD(4)[OF wf] unfolding members_unique_def blk by metis
  qed
  ultimately show "members_wf s'" using cl ul by (simp add: members_wf_def)
  show "members s' = insert (cu_channel cu, cu_client cu) (members s)"
    unfolding members_def blk by auto
qed

lemma unlinked_wf:
  assumes wf: "members_wf s" and m: "member_block s a cu" and l: "unlinked_after s a cu s'"
  shows "members_wf s'" "members s' = members s - {(cu_channel cu, cu_client cu)}"
proof -
  obtain ch ch' u us us' where a: "chanusers s' = (chanusers s)(a := None)" "client_key s' = client_key s"
    and ch: "channels s (cu_channel cu) = Some ch" "channels s' = (channels s)(cu_channel cu \<mapsto> ch')"
      "ch_chanusers ch' = removeAll a (ch_chanusers ch)"
      "ch_lchanusers ch' = removeAll a (ch_lchanusers ch)"
      "ch_rchanusers ch' = removeAll a (ch_rchanusers ch)"
    and u: "user_of s (cu_client cu) = Some u" "users s u = Some us"
      "users s' = (users s)(u \<mapsto> us')" "u_channels us' = removeAll a (u_channels us)"
    using l unfolding unlinked_after_def by blast
  note blk = unlinked_member_block[OF l]
  note uo = client_key_user_of[OF a(2)]
  have am: "chanusers s a = Some cu" using m by (simp add: member_block_def)
  have notin: "k = cu_channel cu" if "channels s k = Some c" "a \<in> set (ch_chanusers c)" for k c
    using block_in_lists(1)[OF wf am that] .
  have notin_u: "v = u" if "users s v = Some vs" "a \<in> set (u_channels vs)" for v vs
    using block_in_lists(2)[OF wf am that] u(1) by simp
  have loc: "is_local s' p = is_local s p" if "p \<noteq> a" for p
    using that by (simp add: is_local_def a)
  have filt: "filter (is_local s') ps = filter (is_local s) ps"
    "filter (\<lambda>p. \<not> is_local s' p) ps = filter (\<lambda>p. \<not> is_local s p) ps" if "a \<notin> set ps" for ps
    using that loc by (metis (no_types, lifting) filter_cong)+
  have ok: "block_ok s' k p" if b: "block_ok s k p" "p \<noteq> a" for k p
  proof -
    obtain d v vs where d: "chanusers s p = Some d" "cu_channel d = k"
      "user_of s (cu_client d) = Some v" "users s v = Some vs" "p \<in> set (u_channels vs)"
      using b unfolding block_ok_def by blast
    have "\<exists>vs. users s' v = Some vs \<and> p \<in> set (u_channels vs)" using d u b(2) by auto
    then show ?thesis using d a uo b(2) unfolding block_ok_def by (metis fun_upd_other)
  qed
  have cl: "channel_lists_ok s'"
    unfolding channel_lists_ok_def
  proof (intro allI impI)
    fix k c assume c: "channels s' k = Some c"
    show "distinct (ch_chanusers c) \<and> ch_lchanusers c = filter (is_local s') (ch_chanusers c) \<and>
     ch_rchanusers c = filter (\<lambda>p. \<not> is_local s' p) (ch_chanusers c) \<and>
     (\<forall>p \<in> set (ch_chanusers c). block_ok s' k p)"
    proof (cases "k = cu_channel cu")
      case True
      have "a \<notin> set (removeAll a (ch_chanusers ch))" by simp
      then show ?thesis
        using c ch channel_listsD[OF members_wfD(1)[OF wf] ch(1)] filt[of "removeAll a (ch_chanusers ch)"] True ok
        by (auto simp: removeAll_filter_not_eq distinct_removeAll conj_commute)
    next
      case False
      then have k: "channels s k = Some c" using c ch(2) by simp
      then have "a \<notin> set (ch_chanusers c)" using notin False by blast
      then show ?thesis
        using channel_listsD[OF members_wfD(1)[OF wf] k] filt[of "ch_chanusers c"] ok by metis
    qed
  qed
  have own: "owned s' v p" if "owned s v p" "p \<noteq> a" for v p
    using that unfolding owned_def blk uo by blast
  have ul: "user_lists_ok s'"
    unfolding user_lists_ok_def
  proof (intro allI impI)
    fix v vs assume v: "users s' v = Some vs"
    show "distinct (u_channels vs) \<and> (\<forall>p \<in> set (u_channels vs). owned s' v p)"
    proof (cases "v = u")
      case True
      then show ?thesis
        using v u own user_listsD[OF members_wfD(2)[OF wf] u(2)] by (auto simp: distinct_removeAll)
    next
      case False
      then have v': "users s v = Some vs" using v u by simp
      then have "a \<notin> set (u_channels vs)" using notin_u False by blast
      then show ?thesis
        using own user_listsD[OF members_wfD(2)[OF wf] v'] by metis
    qed
  qed
  have "clients_ok s'"
    by (rule clients_ok_cong[OF members_wfD(3)[OF wf] a(2)]) (use u in auto)
  moreover have "members_unique s'"
    using members_wfD(4)[OF wf] unfolding members_unique_def blk by blast
  ultimately show "members_wf s'" using cl ul by (simp add: members_wf_def)
  have key: "p = a \<longleftrightarrow> (cu_channel d, cu_client d) = (cu_channel cu, cu_client cu)" if "member_block s p d" for p d
  proof
    assume "p = a"
    then have "d = cu" using that am by (simp add: member_block_def)
    then show "(cu_channel d, cu_client d) = (cu_channel cu, cu_client cu)" by simp
  next
    assume "(cu_channel d, cu_client d) = (cu_channel cu, cu_client cu)"
    then show "p = a" using members_wfD(4)[OF wf] that m unfolding members_unique_def by blast
  qed
  show "members s' = members s - {(cu_channel cu, cu_client cu)}"
  proof (rule set_eqI)
    show "x \<in> members s' \<longleftrightarrow> x \<in> members s - {(cu_channel cu, cu_client cu)}" for x
      unfolding members_def blk mem_Collect_eq Diff_iff singleton_iff using key by metis
  qed
qed

section \<open>The operations on members\<close>

text \<open>What the hash table and the list of channels read of a channel.\<close>

definition channel_key :: "ircd \<Rightarrow> ptr \<Rightarrow> (string \<times> 64 word \<times> 32 word) option" where
  "channel_key s k = map_option (\<lambda>ch. (ch_name ch, ch_hash ch, ch_id ch)) (channels s k)"

definition same_index :: "ircd \<Rightarrow> ircd \<Rightarrow> bool" where
  "same_index s s' \<longleftrightarrow> channel_list s' = channel_list s \<and> channel_lists s' = channel_lists s \<and>
     channel_key s' = channel_key s"

lemma same_index_trans: "same_index s t \<Longrightarrow> same_index t u \<Longrightarrow> same_index s u"
  by (simp add: same_index_def)

lemma same_index_refl [simp]: "same_index s s"
  by (simp add: same_index_def)

lemma channel_key_upd:
  "channels s k = Some ch \<Longrightarrow> channels s' = (channels s)(k \<mapsto> ch') \<Longrightarrow>
   ch_name ch' = ch_name ch \<Longrightarrow> ch_hash ch' = ch_hash ch \<Longrightarrow> ch_id ch' = ch_id ch \<Longrightarrow>
   channel_key s' = channel_key s"
  by (auto simp: channel_key_def fun_eq_iff)

lemma client_key_upd:
  "clients s c = Some cl \<Longrightarrow> clients s' = (clients s)(c \<mapsto> cl') \<Longrightarrow> c_type cl' = c_type cl \<Longrightarrow>
   c_user cl' = c_user cl \<Longrightarrow> client_key s' = client_key s"
  by (auto simp: client_key_def fun_eq_iff)

lemma chanuser_add_spec:
  assumes c: "clients s c = Some cl" "client_is_user cl \<or> client_is_service cl"
    and u: "c_user cl = Some u" "users s u = Some us" and k: "channels s k = Some ch"
    and cu: "cu = \<lparr>cu_local = client_is_local cl, cu_serial = chanuser_serial s, cu_channel = k,
      cu_client = c, cu_flags = 0, cu_prefix = []\<rparr>"
  obtains s' where "chanuser_add s a k c = Some (s', Some a)" "linked_after s a cu s'" "same_index s s'"
    "clients s' = (clients s)(c \<mapsto> cl\<lparr>c_refcount := c_refcount cl + 1\<rparr>)"
    "map_option ch_refcount (channels s' k) = Some (ch_refcount ch + 1)"
    "invites s' = invites s" "logentries s' = logentries s"
    "\<And>k. map_option (\<lambda>ch. (ch_invites ch, ch_backlog ch)) (channels s' k) =
      map_option (\<lambda>ch. (ch_invites ch, ch_backlog ch)) (channels s k)"
    "\<And>u. map_option u_invites (users s' u) = map_option u_invites (users s u)"
proof -
  have uo: "user_of s c = Some u" using c(1) u(1) by (simp add: user_of_def)
  have "\<exists>s' ch'. chanuser_add s a k c = Some (s', Some a) \<and> chanusers s' = (chanusers s)(a \<mapsto> cu) \<and>
    clients s' = (clients s)(c \<mapsto> cl\<lparr>c_refcount := c_refcount cl + 1\<rparr>) \<and>
    channels s' = (channels s)(k \<mapsto> ch') \<and> 
    ch' = ch\<lparr>ch_refcount := ch_refcount ch + 1, ch_chanusers := ch_chanusers ch @ [a],
      ch_lchanusers := ch_lchanusers ch @ (if client_is_local cl then [a] else []),
      ch_rchanusers := ch_rchanusers ch @ (if client_is_local cl then [] else [a])\<rparr> \<and>
    users s' = (users s)(u \<mapsto> us\<lparr>u_channels := u_channels us @ [a]\<rparr>) \<and>
    invites s' = invites s \<and> logentries s' = logentries s \<and> channel_list s' = channel_list s \<and>
    channel_lists s' = channel_lists s"
    using c u k unfolding cu
    by (simp add: chanuser_add_def chanuser_new_def channel_pop_def client_pop_def user_of_def Let_def)
  then obtain s' ch' where s': "chanuser_add s a k c = Some (s', Some a)"
    "chanusers s' = (chanusers s)(a \<mapsto> cu)"
    "clients s' = (clients s)(c \<mapsto> cl\<lparr>c_refcount := c_refcount cl + 1\<rparr>)"
    "channels s' = (channels s)(k \<mapsto> ch')"
    "ch' = ch\<lparr>ch_refcount := ch_refcount ch + 1, ch_chanusers := ch_chanusers ch @ [a],
      ch_lchanusers := ch_lchanusers ch @ (if client_is_local cl then [a] else []),
      ch_rchanusers := ch_rchanusers ch @ (if client_is_local cl then [] else [a])\<rparr>"
    "users s' = (users s)(u \<mapsto> us\<lparr>u_channels := u_channels us @ [a]\<rparr>)"
    "invites s' = invites s" "logentries s' = logentries s" "channel_list s' = channel_list s"
    "channel_lists s' = channel_lists s" by blast
  have ck: "client_key s' = client_key s" by (rule client_key_upd[OF c(1) s'(3)]) simp_all
  have "linked_after s a cu s'"
    unfolding linked_after_def
    by (rule conjI[OF s'(2)], rule conjI[OF ck], rule exI[of _ ch], rule exI[of _ ch'], rule exI[of _ u],
      rule exI[of _ us], rule exI[of _ "us\<lparr>u_channels := u_channels us @ [a]\<rparr>"])
      (use s' k u uo cu in simp)
  moreover have "channel_key s' = channel_key s"
    by (rule channel_key_upd[OF k s'(4)]) (simp_all add: s'(5))
  ultimately show ?thesis
    using that[OF s'(1) _ _ s'(3)] s' k u by (auto simp: same_index_def)
qed

lemma chanuser_delete_spec:
  assumes wf: "members_wf s" and m: "member_block s a cu"
  obtains s' where "chanuser_delete s a = Some s'" "unlinked_after s a cu s'" "same_index s s'"
    "clients s' = clients s" "invites s' = invites s" "logentries s' = logentries s"
    "\<And>k. map_option (\<lambda>ch. (ch_refcount ch, ch_invites ch, ch_backlog ch)) (channels s' k) =
      map_option (\<lambda>ch. (ch_refcount ch, ch_invites ch, ch_backlog ch)) (channels s k)"
    "\<And>u. map_option u_invites (users s' u) = map_option u_invites (users s u)"
proof -
  have cu: "chanusers s a = Some cu" using m by (simp add: member_block_def)
  obtain ch u us where ch: "channels s (cu_channel cu) = Some ch" "a \<in> set (ch_chanusers ch)"
    and u: "user_of s (cu_client cu) = Some u" "users s u = Some us" "a \<in> set (u_channels us)"
    using member_block_lists[OF wf m] .
  note cl = channel_listsD[OF members_wfD(1)[OF wf] ch(1)]
  have d: "distinct (ch_chanusers ch)" "distinct (u_channels us)"
    "distinct (ch_lchanusers ch)" "distinct (ch_rchanusers ch)"
    using cl user_listsD(1)[OF members_wfD(2)[OF wf] u(2)] by simp_all
  have loc: "is_local s a = cu_local cu" by (simp add: is_local_def cu)
  have un: "unlink a (u_channels us) = Some (removeAll a (u_channels us))"
    "unlink a (ch_chanusers ch) = Some (removeAll a (ch_chanusers ch))"
    "cu_local cu \<Longrightarrow> unlink a (ch_lchanusers ch) = Some (removeAll a (ch_lchanusers ch))"
    "\<not> cu_local cu \<Longrightarrow> unlink a (ch_rchanusers ch) = Some (removeAll a (ch_rchanusers ch))"
    using d u(3) ch(2) cl(2,3) loc by (simp_all add: unlink_distinct)
  have other: "cu_local cu \<Longrightarrow> removeAll a (ch_rchanusers ch) = ch_rchanusers ch"
    "\<not> cu_local cu \<Longrightarrow> removeAll a (ch_lchanusers ch) = ch_lchanusers ch"
    using cl(2,3) loc by (simp_all add: removeAll_id)
  obtain cl where c: "clients s (cu_client cu) = Some cl" "c_user cl = Some u"
    using u(1) by (auto simp: user_of_def elim: bind_SomeE)
  have "\<exists>s' ch'. chanuser_delete s a = Some s' \<and> chanusers s' = (chanusers s)(a := None) \<and>
    clients s' = clients s \<and> channels s' = (channels s)(cu_channel cu \<mapsto> ch') \<and>
    ch' = ch\<lparr>ch_chanusers := removeAll a (ch_chanusers ch),
      ch_lchanusers := removeAll a (ch_lchanusers ch), ch_rchanusers := removeAll a (ch_rchanusers ch)\<rparr> \<and>
    users s' = (users s)(u \<mapsto> us\<lparr>u_channels := removeAll a (u_channels us)\<rparr>) \<and>
    invites s' = invites s \<and> logentries s' = logentries s \<and> channel_list s' = channel_list s \<and>
    channel_lists s' = channel_lists s"
    using cu u un other ch c by (simp add: chanuser_delete_def Let_def)
  then obtain s' ch' where s': "chanuser_delete s a = Some s'" "chanusers s' = (chanusers s)(a := None)"
    "clients s' = clients s" "channels s' = (channels s)(cu_channel cu \<mapsto> ch')"
    "ch' = ch\<lparr>ch_chanusers := removeAll a (ch_chanusers ch),
      ch_lchanusers := removeAll a (ch_lchanusers ch), ch_rchanusers := removeAll a (ch_rchanusers ch)\<rparr>"
    "users s' = (users s)(u \<mapsto> us\<lparr>u_channels := removeAll a (u_channels us)\<rparr>)"
    "invites s' = invites s" "logentries s' = logentries s" "channel_list s' = channel_list s"
    "channel_lists s' = channel_lists s" by blast
  have ck: "client_key s' = client_key s" using s'(3) by (simp add: client_key_def fun_eq_iff)
  have "unlinked_after s a cu s'"
    unfolding unlinked_after_def
    by (rule conjI[OF s'(2)], rule conjI[OF ck], rule exI[of _ ch], rule exI[of _ ch'], rule exI[of _ u],
      rule exI[of _ us], rule exI[of _ "us\<lparr>u_channels := removeAll a (u_channels us)\<rparr>"])
      (use s' ch u in simp)
  moreover have "channel_key s' = channel_key s"
    by (rule channel_key_upd[OF ch(1) s'(4)]) (simp_all add: s'(5))
  ultimately show ?thesis
    using that[OF s'(1) _ _ s'(3)] s' ch u by (auto simp: same_index_def)
qed

section \<open>What the invariant reads\<close>

text \<open>A channel that is not there has no members, so that creating and freeing an empty channel
  does not change the view.\<close>

definition member_lists :: "ircd \<Rightarrow> ptr \<Rightarrow> ptr list \<times> ptr list \<times> ptr list" where
  "member_lists s k = (case channels s k of None \<Rightarrow> ([], [], [])
     | Some ch \<Rightarrow> (ch_chanusers ch, ch_lchanusers ch, ch_rchanusers ch))"

definition same_members :: "ircd \<Rightarrow> ircd \<Rightarrow> bool" where
  "same_members s s' \<longleftrightarrow> chanusers s' = chanusers s \<and> client_key s' = client_key s \<and>
     member_lists s' = member_lists s \<and>
     (\<forall>u. map_option u_channels (users s' u) = map_option u_channels (users s u))"

lemma member_block_lists_iff:
  "member_block s p cu \<longleftrightarrow> chanusers s p = Some cu \<and> p \<in> set (fst (member_lists s (cu_channel cu)))"
  by (auto simp: member_block_def member_lists_def split: option.split)

lemma channel_lists_ok_iff:
  "channel_lists_ok s \<longleftrightarrow> (\<forall>k g l r. member_lists s k = (g, l, r) \<longrightarrow> distinct g \<and>
     l = filter (is_local s) g \<and> r = filter (\<lambda>p. \<not> is_local s p) g \<and> (\<forall>p \<in> set g. block_ok s k p))"
  (is "_ \<longleftrightarrow> (\<forall>k. ?R k)")
proof -
  have "?R k \<longleftrightarrow> (\<forall>ch. channels s k = Some ch \<longrightarrow> distinct (ch_chanusers ch) \<and>
     ch_lchanusers ch = filter (is_local s) (ch_chanusers ch) \<and>
     ch_rchanusers ch = filter (\<lambda>p. \<not> is_local s p) (ch_chanusers ch) \<and>
     (\<forall>p \<in> set (ch_chanusers ch). block_ok s k p))" for k
    by (cases "channels s k") (auto simp: member_lists_def)
  then show ?thesis unfolding channel_lists_ok_def by blast
qed

lemma same_members_block: "same_members s s' \<Longrightarrow> member_block s' = member_block s"
  by (simp add: fun_eq_iff member_block_lists_iff same_members_def)

lemma same_members_members: "same_members s s' \<Longrightarrow> members s' = members s"
  by (simp add: members_def same_members_block)

lemma members_wf_cong:
  assumes same: "same_members s s'" and wf: "members_wf s"
  shows "members_wf s'"
proof -
  have cu: "chanusers s' = chanusers s" "member_lists s' = member_lists s"
    and uo: "user_of s' = user_of s"
    and us: "\<And>u. map_option u_channels (users s' u) = map_option u_channels (users s u)"
    using same client_key_user_of[of s' s] by (auto simp: same_members_def)
  note mb = same_members_block[OF same]
  have loc: "is_local s' = is_local s" by (simp add: fun_eq_iff is_local_def cu)
  have ulist: "(\<exists>ps. users s' u = Some ps \<and> Q (u_channels ps)) \<longleftrightarrow> (\<exists>ps. users s u = Some ps \<and> Q (u_channels ps))" for u Q
    using us[of u] by (cases "users s u"; cases "users s' u") auto
  have blk: "block_ok s' = block_ok s"
  proof (intro ext)
    fix k p
    show "block_ok s' k p = block_ok s k p"
      unfolding block_ok_def cu uo using ulist[of _ "\<lambda>l. p \<in> set l"] by blast
  qed
  have own: "owned s' = owned s" by (simp add: fun_eq_iff owned_def mb uo)
  have "channel_lists_ok s'"
    using members_wfD(1)[OF wf] unfolding channel_lists_ok_iff cu loc blk .
  moreover have "user_lists_ok s'"
    unfolding user_lists_ok_def
  proof (intro allI impI)
    fix u ps assume "users s' u = Some ps"
    then obtain ps' where "users s u = Some ps'" "u_channels ps' = u_channels ps"
      using us[of u] by (cases "users s u") auto
    then show "distinct (u_channels ps) \<and> (\<forall>p \<in> set (u_channels ps). owned s' u p)"
      using user_listsD[OF members_wfD(2)[OF wf]] own by metis
  qed
  moreover have "clients_ok s'"
  proof (rule clients_ok_cong[OF members_wfD(3)[OF wf]])
    show "dom (users s) \<subseteq> dom (users s')" using us by (metis (no_types, lifting) domIff option.map_disc_iff subsetI)
  qed (use same in \<open>simp add: same_members_def\<close>)
  moreover have "members_unique s'" using members_wfD(4)[OF wf] by (simp add: members_unique_def mb)
  ultimately show ?thesis by (simp add: members_wf_def)
qed

section \<open>Deleting all blocks of a channel\<close>

lemma delete_blocks:
  assumes "members_wf s" "distinct ps" "\<forall>p \<in> set ps. \<exists>cu. member_block s p cu"
  obtains s' where "for_each chanuser_delete s ps = Some s'" "members_wf s'" "same_index s s'"
    "\<And>p cu. member_block s' p cu \<longleftrightarrow> p \<notin> set ps \<and> member_block s p cu"
    "clients s' = clients s" "invites s' = invites s" "logentries s' = logentries s"
    "\<And>k. map_option (\<lambda>ch. (ch_refcount ch, ch_invites ch, ch_backlog ch)) (channels s' k) =
      map_option (\<lambda>ch. (ch_refcount ch, ch_invites ch, ch_backlog ch)) (channels s k)"
    "\<And>u. map_option u_invites (users s' u) = map_option u_invites (users s u)"
proof -
  have "\<exists>s'. for_each chanuser_delete s ps = Some s' \<and> members_wf s' \<and> same_index s s' \<and>
    (\<forall>p cu. member_block s' p cu \<longleftrightarrow> p \<notin> set ps \<and> member_block s p cu) \<and>
    clients s' = clients s \<and> invites s' = invites s \<and> logentries s' = logentries s \<and>
    (\<forall>k. map_option (\<lambda>ch. (ch_refcount ch, ch_invites ch, ch_backlog ch)) (channels s' k) =
      map_option (\<lambda>ch. (ch_refcount ch, ch_invites ch, ch_backlog ch)) (channels s k)) \<and>
    (\<forall>u. map_option u_invites (users s' u) = map_option u_invites (users s u))"
    using assms
  proof (induction ps arbitrary: s)
    case (Cons a ps)
    obtain cu where cu: "member_block s a cu" using Cons.prems(3) by auto
    obtain t where t: "chanuser_delete s a = Some t" "unlinked_after s a cu t" "same_index s t"
      "clients t = clients s" "invites t = invites s" "logentries t = logentries s"
      "\<And>k. map_option (\<lambda>ch. (ch_refcount ch, ch_invites ch, ch_backlog ch)) (channels t k) =
        map_option (\<lambda>ch. (ch_refcount ch, ch_invites ch, ch_backlog ch)) (channels s k)"
      "\<And>u. map_option u_invites (users t u) = map_option u_invites (users s u)"
      using chanuser_delete_spec[OF Cons.prems(1) cu] by blast
    note blk = unlinked_member_block[OF t(2)]
    have "\<forall>p \<in> set ps. \<exists>cu. member_block t p cu" using Cons.prems(2,3) blk by auto
    from Cons.IH[OF unlinked_wf(1)[OF Cons.prems(1) cu t(2)] _ this] Cons.prems(2)
    obtain s' where "for_each chanuser_delete t ps = Some s'" "members_wf s'" "same_index t s'"
      "\<forall>p cu. member_block s' p cu \<longleftrightarrow> p \<notin> set ps \<and> member_block t p cu"
      "clients s' = clients t" "invites s' = invites t" "logentries s' = logentries t"
      "\<forall>k. map_option (\<lambda>ch. (ch_refcount ch, ch_invites ch, ch_backlog ch)) (channels s' k) =
        map_option (\<lambda>ch. (ch_refcount ch, ch_invites ch, ch_backlog ch)) (channels t k)"
      "\<forall>u. map_option u_invites (users s' u) = map_option u_invites (users t u)"
      by auto
    then show ?case
      using t blk same_index_trans[OF t(3)] by (intro exI[of _ s']) auto
  qed simp
  then show ?thesis using that by blast
qed

lemma emptied_channel:
  assumes wf: "members_wf s" and wf': "members_wf s'"
    and blk: "\<And>p cu. member_block s' p cu \<longleftrightarrow> p \<notin> set (fst (member_lists s k)) \<and> member_block s p cu"
  shows "member_lists s' k = ([], [], [])" "members s' = {m \<in> members s. fst m \<noteq> k}"
proof -
  have out: "cu_channel cu \<noteq> k" if "member_block s' p cu" for p cu
    using that blk[of p cu] by (auto simp: member_block_lists_iff)
  obtain g l r where m: "member_lists s' k = (g, l, r)" by (metis prod_cases3)
  then have g: "l = filter (is_local s') g" "r = filter (\<lambda>p. \<not> is_local s' p) g" "\<forall>p \<in> set g. block_ok s' k p"
    using members_wfD(1)[OF wf'] unfolding channel_lists_ok_iff by blast+
  have "g = []"
  proof (rule ccontr)
    assume "g \<noteq> []"
    then obtain p cu where "p \<in> set g" "chanusers s' p = Some cu" "cu_channel cu = k"
      using g(3) unfolding block_ok_def by (metis last_in_set)
    then show False using out[of p cu] m by (simp add: member_block_lists_iff)
  qed
  then show "member_lists s' k = ([], [], [])" using m g by simp
  have stay: "member_block s' p cu" if "member_block s p cu" "cu_channel cu \<noteq> k" for p cu
  proof -
    have "p \<notin> set (fst (member_lists s k))"
    proof
      assume p: "p \<in> set (fst (member_lists s k))"
      obtain g l r where m: "member_lists s k = (g, l, r)" by (metis prod_cases3)
      then have "block_ok s k p"
        using members_wfD(1)[OF wf] p unfolding channel_lists_ok_iff by (metis fst_conv)
      then show False using that by (auto simp: block_ok_def member_block_def)
    qed
    then show ?thesis using that blk by blast
  qed
  show "members s' = {m \<in> members s. fst m \<noteq> k}"
    unfolding members_def using out stay blk by fastforce
qed

end
