(* ===== verification/Chandir.thy ===== *)
theory Chandir
  imports Channel
begin

text \<open>
  The directory of channels: the hash table and the list of src/channel.c, interpreted as a
  registry of names, and the lifetime of a channel. Deleting a channel takes it out of the
  directory, and its members and invitations out of the relations, and keeps the links of all
  others.
\<close>

section \<open>The directory\<close>

abbreviation channel_entries :: "ircd \<Rightarrow> ptr list" where
  "channel_entries s \<equiv> concat (channel_lists s)"

definition channel_name :: "ircd \<Rightarrow> ptr \<Rightarrow> string" where
  "channel_name s p = (case channels s p of None \<Rightarrow> [] | Some ch \<Rightarrow> ch_name ch)"

definition channel_hash :: "ircd \<Rightarrow> ptr \<Rightarrow> 64 word" where
  "channel_hash s p = (case channels s p of None \<Rightarrow> 0 | Some ch \<Rightarrow> ch_hash ch)"

definition channel_ok :: "(64 word \<Rightarrow> 64 word) \<Rightarrow> ircd \<Rightarrow> ptr \<Rightarrow> bool" where
  "channel_ok shl s p \<longleftrightarrow> (\<exists>ch. channels s p = Some ch \<and> ch_hash ch = str_ihash shl (Some (ch_name ch)))"

definition channels_wf :: "(64 word \<Rightarrow> 64 word) \<Rightarrow> ircd \<Rightarrow> bool" where
  "channels_wf shl s \<longleftrightarrow> length (channel_lists s) = CHANNEL_HASH_SIZE \<and>
     hashed_table (channel_hash s) (channel_lists s) \<and> distinct (channel_list s) \<and>
     set (channel_list s) = set (channel_entries s) \<and> (\<forall>p \<in> set (channel_entries s). channel_ok shl s p)"

definition channel_linkable :: "(64 word \<Rightarrow> 64 word) \<Rightarrow> ircd \<Rightarrow> ptr \<Rightarrow> bool" where
  "channel_linkable shl s p \<longleftrightarrow> channel_ok shl s p \<and> p \<notin> set (channel_entries s)"

lemma CHANNEL_HASH_SIZE_pos [simp]: "0 < CHANNEL_HASH_SIZE"
  by (simp add: CHANNEL_HASH_SIZE_def)

lemma channels_wfD:
  assumes "channels_wf shl s"
  shows "length (channel_lists s) = CHANNEL_HASH_SIZE" "hashed_table (channel_hash s) (channel_lists s)"
    "distinct (channel_entries s)" "distinct (channel_list s)"
    "set (channel_list s) = set (channel_entries s)"
    "p \<in> set (channel_entries s) \<Longrightarrow> channel_ok shl s p"
  using assms by (auto simp: channels_wf_def hashed_table_def)

lemma channel_ok_hash:
  "channel_ok shl s p \<Longrightarrow> channel_hash s p = str_ihash shl (Some (channel_name s p))"
  by (auto simp: channel_ok_def channel_hash_def channel_name_def)

lemma channel_find_law:
  assumes wf: "channels_wf shl s"
  shows "channel_find_name shl s n = Some (List.find (\<lambda>p. same_name (channel_name s p) n) (channel_entries s))"
proof -
  define i where "i = hash_index (str_ihash shl (Some n)) CHANNEL_HASH_SIZE"
  have i: "i < length (channel_lists s)" using channels_wfD(1)[OF wf] by (simp add: i_def)
  have "channel_find_name shl s n = Some (List.find
      (\<lambda>p. channel_hash s p = str_ihash shl (Some n) \<and> str_icmp (channel_name s p) n = 0) (channel_lists s ! i))"
    unfolding channel_find_name_def Let_def i_def[symmetric]
  proof (rule search_find)
    fix p assume "p \<in> set (channel_lists s ! i)"
    then have "channel_ok shl s p" using channels_wfD(6)[OF wf in_bucket_concat[OF i]] by blast
    then obtain ch where "channels s p = Some ch" by (auto simp: channel_ok_def)
    then show "do { ch \<leftarrow> channels s p; Some (str_ihash shl (Some n) = ch_hash ch \<and> str_icmp (ch_name ch) n = 0) } =
        Some (channel_hash s p = str_ihash shl (Some n) \<and> str_icmp (channel_name s p) n = 0)"
      by (auto simp: channel_hash_def channel_name_def)
  qed
  also have "List.find (\<lambda>p. channel_hash s p = str_ihash shl (Some n) \<and> str_icmp (channel_name s p) n = 0)
      (channel_lists s ! i) = List.find (\<lambda>p. same_name (channel_name s p) n) (channel_entries s)"
    using hashed_search[OF channels_wfD(2)[OF wf], of i shl n] channels_wfD[OF wf] channel_ok_hash
    by (simp add: i_def)
  finally show ?thesis .
qed

lemma channel_names_cong:
  "channels s' = channels s \<Longrightarrow> channel_name s' = channel_name s"
  "channels s' = channels s \<Longrightarrow> channel_hash s' = channel_hash s"
  "channels s' = channels s \<Longrightarrow> channel_ok shl s' = channel_ok shl s"
  by (simp_all add: channel_name_def channel_hash_def channel_ok_def fun_eq_iff)

lemma channel_link_law:
  assumes wf: "channels_wf shl s" and p: "channel_linkable shl s p"
  shows "\<exists>s'. channel_link s p = Some s' \<and> channels_wf shl s' \<and> p \<in> set (channel_entries s') \<and>
    removeAll p (channel_entries s') = channel_entries s \<and> channel_name s' = channel_name s"
proof -
  from p obtain ch where ch: "channels s p = Some ch" and new: "p \<notin> set (channel_entries s)"
    by (auto simp: channel_linkable_def channel_ok_def)
  define i where "i = hash_index (ch_hash ch) CHANNEL_HASH_SIZE"
  have i: "i < length (channel_lists s)" and len: "length (channel_lists s) = CHANNEL_HASH_SIZE"
    using channels_wfD(1)[OF wf] by (simp_all add: i_def)
  define s' where "s' = s\<lparr>channel_list := channel_list s @ [p],
       channel_lists := (channel_lists s)[i := channel_lists s ! i @ [p]]\<rparr>"
  have s': "channel_link s p = Some s'" "channels s' = channels s"
    by (simp_all add: channel_link_def ch s'_def i_def Let_def)
  note same = channel_names_cong[OF s'(2)]
  note app = bucket_append[OF i new channels_wfD(3)[OF wf]]
  have t: "channel_lists s' = (channel_lists s)[i := channel_lists s ! i @ [p]]" "channel_list s' = channel_list s @ [p]"
    by (simp_all add: s'_def)
  have ent: "set (channel_entries s') = insert p (set (channel_entries s))"
    unfolding t using app(2,3) by (metis insert_Diff set_removeAll)
  have "channels_wf shl s'"
    unfolding channels_wf_def
  proof (intro conjI)
    show "hashed_table (channel_hash s') (channel_lists s')"
      unfolding t same
      by (rule hashed_table_append[OF channels_wfD(2)[OF wf] new refl _ i])
        (simp add: channel_hash_def ch i_def len)
    show "\<forall>q \<in> set (channel_entries s'). channel_ok shl s' q"
      using ent same p channels_wfD(6)[OF wf] by (auto simp: channel_linkable_def)
    show "set (channel_list s') = set (channel_entries s')" using ent channels_wfD(5)[OF wf] by (simp add: t(2))
    show "distinct (channel_list s')" using channels_wfD(4,5)[OF wf] new by (simp add: t(2))
  qed (simp add: t(1) len)
  then show ?thesis using s' same app by (auto simp: t)
qed

lemma channel_unlink_law:
  assumes wf: "channels_wf shl s" and p: "p \<in> set (channel_entries s)"
  shows "\<exists>s'. channel_unlink s p = Some s' \<and> channels_wf shl s' \<and>
    channel_entries s' = removeAll p (channel_entries s) \<and>
    (\<forall>q \<in> set (channel_entries s'). channel_name s' q = channel_name s q)"
proof -
  obtain ch where ch: "channels s p = Some ch" using channels_wfD(6)[OF wf p] by (auto simp: channel_ok_def)
  define i where "i = hash_index (ch_hash ch) CHANNEL_HASH_SIZE"
  have i: "i < length (channel_lists s)" "p \<in> set (channel_lists s ! i)"
    using hashed_table_bucket[OF channels_wfD(2)[OF wf] p] channels_wfD(1)[OF wf]
    by (simp_all add: i_def channel_hash_def ch)
  define s' where "s' = s\<lparr>channel_list := removeAll p (channel_list s),
    channel_lists := (channel_lists s)[i := removeAll p (channel_lists s ! i)]\<rparr>"
  note unl = bucket_unlink[OF i channels_wfD(3)[OF wf]]
  have l: "unlink p (channel_list s) = Some (removeAll p (channel_list s))"
    using p channels_wfD(4,5)[OF wf] by (simp add: unlink_distinct)
  have s': "channel_unlink s p = Some s'" "channels s' = channels s"
    using unl(1) l by (simp_all add: channel_unlink_def ch s'_def i_def Let_def)
  note same = channel_names_cong[OF s'(2)]
  have e: "channel_entries s' = removeAll p (channel_entries s)"
    using unl(2) by (simp add: s'_def)
  moreover have "channels_wf shl s'"
    unfolding channels_wf_def e same
  proof (intro conjI)
    show "hashed_table (channel_hash s) (channel_lists s')"
      using hashed_table_unlink[OF channels_wfD(2)[OF wf] i] by (simp add: s'_def)
    show "distinct (channel_list s')"
      using channels_wfD(4)[OF wf] by (simp add: s'_def distinct_removeAll)
    show "set (channel_list s') = set (removeAll p (channel_entries s))"
      using channels_wfD(5)[OF wf] by (simp add: s'_def)
  qed (use channels_wfD(1,6)[OF wf] in \<open>auto simp: s'_def\<close>)
  ultimately show ?thesis using s'(1) same by (intro exI[of _ s']) simp
qed

interpretation directory: dynamic_registry "channels_wf shl" channel_entries channel_name
  "channel_find_name shl" "channel_linkable shl" channel_link channel_unlink for shl
  by unfold_locales (rule channel_find_law channel_link_law channel_unlink_law, assumption+)+

text \<open>The directory depends on the names, the hashes and the identifiers of the channels.\<close>

lemma channel_key_cases:
  "channel_name s p = (case channel_key s p of None \<Rightarrow> [] | Some (n, h, i) \<Rightarrow> n)"
  "channel_hash s p = (case channel_key s p of None \<Rightarrow> 0 | Some (n, h, i) \<Rightarrow> h)"
  "channel_ok shl s p \<longleftrightarrow> (\<exists>n h i. channel_key s p = Some (n, h, i) \<and> h = str_ihash shl (Some n))"
  by (auto simp: channel_name_def channel_hash_def channel_ok_def channel_key_def split: option.split)

lemma same_index_key:
  assumes "same_index s s'"
  shows "channel_name s' = channel_name s" "channel_hash s' = channel_hash s" "channel_ok shl s' = channel_ok shl s"
  using assms unfolding same_index_def fun_eq_iff channel_key_cases by simp_all

lemma channels_wf_cong: "same_index s s' \<Longrightarrow> channels_wf shl s' = channels_wf shl s"
  by (simp add: channels_wf_def same_index_key) (simp add: same_index_def)

section \<open>Invitations\<close>

definition chan_invites :: "ircd \<Rightarrow> ptr \<Rightarrow> ptr list" where
  "chan_invites s k = (case channels s k of None \<Rightarrow> [] | Some ch \<Rightarrow> ch_invites ch)"

definition user_invites :: "ircd \<Rightarrow> ptr \<Rightarrow> ptr list option" where
  "user_invites s u = map_option u_invites (users s u)"

definition chan_invite_ok :: "ircd \<Rightarrow> ptr \<Rightarrow> ptr \<Rightarrow> bool" where
  "chan_invite_ok s k p \<longleftrightarrow> (\<exists>iv qs. invites s p = Some iv \<and> iv_channel iv = k \<and>
     user_invites s (iv_user iv) = Some qs \<and> p \<in> set qs)"

definition user_invite_ok :: "ircd \<Rightarrow> ptr \<Rightarrow> ptr \<Rightarrow> bool" where
  "user_invite_ok s u p \<longleftrightarrow> (\<exists>iv. invites s p = Some iv \<and> iv_user iv = u \<and>
     p \<in> set (chan_invites s (iv_channel iv)))"

definition invite_block :: "ircd \<Rightarrow> ptr \<Rightarrow> invite \<Rightarrow> bool" where
  "invite_block s p iv \<longleftrightarrow> invites s p = Some iv \<and> p \<in> set (chan_invites s (iv_channel iv))"

definition invites_unique :: "ircd \<Rightarrow> bool" where
  "invites_unique s \<longleftrightarrow> (\<forall>p q iv iw. invite_block s p iv \<longrightarrow> invite_block s q iw \<longrightarrow>
     iv_channel iv = iv_channel iw \<longrightarrow> iv_user iv = iv_user iw \<longrightarrow> p = q)"

definition invites_wf :: "ircd \<Rightarrow> bool" where
  "invites_wf s \<longleftrightarrow>
     (\<forall>k. distinct (chan_invites s k) \<and> (\<forall>p \<in> set (chan_invites s k). chan_invite_ok s k p)) \<and>
     (\<forall>u ps. user_invites s u = Some ps \<longrightarrow> distinct ps \<and> (\<forall>p \<in> set ps. user_invite_ok s u p)) \<and>
     invites_unique s"

text \<open>Who is invited where.\<close>

definition invited :: "ircd \<Rightarrow> (ptr \<times> ptr) set" where
  "invited s = {(iv_channel iv, iv_user iv) |p iv. invite_block s p iv}"

definition same_invites :: "ircd \<Rightarrow> ircd \<Rightarrow> bool" where
  "same_invites s s' \<longleftrightarrow> invites s' = invites s \<and> chan_invites s' = chan_invites s \<and>
     user_invites s' = user_invites s"

lemma same_invites_cong:
  assumes "same_invites s s'"
  shows "invites_wf s' = invites_wf s" "invited s' = invited s"
  using assms unfolding same_invites_def invites_wf_def invited_def chan_invite_ok_def user_invite_ok_def
    invites_unique_def invite_block_def
  by simp_all

text \<open>The parts of a channel and of the state that neither members nor invitations are.\<close>

definition other_fields :: "ircd \<Rightarrow> ptr \<Rightarrow> (32 word \<times> ptr list) option" where
  "other_fields s k = map_option (\<lambda>ch. (ch_refcount ch, ch_backlog ch)) (channels s k)"

definition same_rest :: "ircd \<Rightarrow> ircd \<Rightarrow> bool" where
  "same_rest s s' \<longleftrightarrow> same_index s s' \<and> clients s' = clients s \<and> logentries s' = logentries s \<and>
     other_fields s' = other_fields s"

lemma same_rest_trans: "same_rest s t \<Longrightarrow> same_rest t u \<Longrightarrow> same_rest s u"
  by (auto simp: same_rest_def intro: same_index_trans)

lemma user_uninvite_spec:
  assumes wf: "invites_wf s" and p: "p \<in> set (chan_invites s k)"
  obtains s' iv where "user_uninvite s p = Some s'" "invites s p = Some iv" "iv_channel iv = k"
    "invites s' = (invites s)(p := None)" "chan_invites s' = (chan_invites s)(k := removeAll p (chan_invites s k))"
    "invites_wf s'" "same_rest s s'" "same_members s s'"
proof -
  have ok: "chan_invite_ok s k p" and d: "distinct (chan_invites s k)"
    using wf p unfolding invites_wf_def by blast+
  obtain iv us where iv: "invites s p = Some iv" "iv_channel iv = k" "users s (iv_user iv) = Some us"
    "p \<in> set (u_invites us)"
    using ok unfolding chan_invite_ok_def user_invites_def by auto
  obtain ch where ch: "channels s k = Some ch" "p \<in> set (ch_invites ch)"
    using p by (cases "channels s k") (auto simp: chan_invites_def)
  have "user_invites s (iv_user iv) = Some (u_invites us)" by (simp add: user_invites_def iv(3))
  then have du: "distinct (u_invites us)" "distinct (ch_invites ch)"
    using wf d ch(1) unfolding invites_wf_def by (blast, simp add: chan_invites_def)
  define s' where "s' = (put_user (iv_user iv) (us\<lparr>u_invites := removeAll p (u_invites us)\<rparr>)
    (put_channel k (ch\<lparr>ch_invites := removeAll p (ch_invites ch)\<rparr>) s))\<lparr>invites := (invites s)(p := None)\<rparr>"
  have s': "user_uninvite s p = Some s'"
    using iv ch du by (simp add: user_uninvite_def s'_def unlink_distinct)
  have i: "invites s' = (invites s)(p := None)" by (simp add: s'_def)
  have c: "chan_invites s' = (chan_invites s)(k := removeAll p (chan_invites s k))"
    by (simp add: chan_invites_def fun_eq_iff s'_def ch(1))
  have u: "user_invites s' = (user_invites s)(iv_user iv := Some (removeAll p (u_invites us)))"
    by (simp add: user_invites_def fun_eq_iff s'_def)
  have "invites_wf s'"
    unfolding invites_wf_def
  proof (intro conjI allI impI)
    fix j
    show "distinct (chan_invites s' j)" using wf by (simp add: c invites_wf_def distinct_removeAll)
    show "\<forall>q \<in> set (chan_invites s' j). chan_invite_ok s' j q"
    proof
      fix q assume q: "q \<in> set (chan_invites s' j)"
      then have q': "q \<in> set (chan_invites s j)" by (auto simp: c split: if_splits)
      then obtain iw qs where iw: "invites s q = Some iw" "iv_channel iw = j"
        "user_invites s (iv_user iw) = Some qs" "q \<in> set qs"
        using wf unfolding invites_wf_def chan_invite_ok_def by blast
      have ne: "q \<noteq> p" using q iw iv by (auto simp: c split: if_splits)
      have "\<exists>qs. user_invites s' (iv_user iw) = Some qs \<and> q \<in> set qs"
        using iw ne iv(3) by (auto simp: u user_invites_def)
      then show "chan_invite_ok s' j q" unfolding chan_invite_ok_def using iw ne by (auto simp: i)
    qed
  next
    fix v ps assume v: "user_invites s' v = Some ps"
    have old: "\<exists>qs. user_invites s v = Some qs \<and> ps = (if v = iv_user iv then removeAll p qs else qs)"
      using v iv(3) by (auto simp: u user_invites_def split: if_splits)
    then show "distinct ps" using wf unfolding invites_wf_def by (auto simp: distinct_removeAll)
    show "\<forall>q \<in> set ps. user_invite_ok s' v q"
    proof
      fix q assume q: "q \<in> set ps"
      obtain qs where qs: "user_invites s v = Some qs" "q \<in> set qs" using old q by (auto split: if_splits)
      then obtain iw where iw: "invites s q = Some iw" "iv_user iw = v" "q \<in> set (chan_invites s (iv_channel iw))"
        using wf unfolding invites_wf_def user_invite_ok_def by blast
      have "q \<noteq> p" using q iw iv(1) old by auto
      then show "user_invite_ok s' v q" unfolding user_invite_ok_def using iw by (auto simp: i c)
    qed
  next
    have "invite_block s q iw" if "invite_block s' q iw" for q iw
      using that by (auto simp: invite_block_def i c split: if_splits)
    then show "invites_unique s'" using wf unfolding invites_wf_def invites_unique_def by blast
  qed
  moreover have "same_rest s s'"
    using ch(1) by (auto simp: same_rest_def same_index_def channel_key_def other_fields_def fun_eq_iff s'_def)
  moreover have "same_members s s'"
    using ch(1) iv(3) by (auto simp: same_members_def client_key_def member_lists_def fun_eq_iff s'_def)
  ultimately show ?thesis using that[OF s' iv(1,2) i c] by blast
qed

lemma uninvite_blocks:
  assumes "invites_wf s" "distinct ps" "set ps \<subseteq> set (chan_invites s k)"
  obtains s' where "for_each user_uninvite s ps = Some s'" "invites_wf s'" "same_rest s s'" "same_members s s'"
    "chan_invites s' = (chan_invites s)(k := filter (\<lambda>p. p \<notin> set ps) (chan_invites s k))"
    "invites s' = invites s |` (- set ps)"
proof -
  have "\<exists>s'. for_each user_uninvite s ps = Some s' \<and> invites_wf s' \<and> same_rest s s' \<and> same_members s s' \<and>
    chan_invites s' = (chan_invites s)(k := filter (\<lambda>p. p \<notin> set ps) (chan_invites s k)) \<and>
    invites s' = invites s |` (- set ps)"
    using assms
  proof (induction ps arbitrary: s)
    case Nil
    then show ?case by (simp add: same_rest_def same_members_def restrict_map_def)
  next
    case (Cons a ps)
    have a: "a \<in> set (chan_invites s k)" using Cons.prems by simp
    obtain t iv where t: "user_uninvite s a = Some t" "invites t = (invites s)(a := None)"
      "chan_invites t = (chan_invites s)(k := removeAll a (chan_invites s k))"
      "invites_wf t" "same_rest s t" "same_members s t"
      using user_uninvite_spec[OF Cons.prems(1) a] by metis
    have "set ps \<subseteq> set (chan_invites t k)" using Cons.prems t(3) by auto
    with Cons.IH[OF t(4)] Cons.prems(2)
    obtain s' where s': "for_each user_uninvite t ps = Some s'" "invites_wf s'" "same_rest t s'" "same_members t s'"
      "chan_invites s' = (chan_invites t)(k := filter (\<lambda>p. p \<notin> set ps) (chan_invites t k))"
      "invites s' = invites t |` (- set ps)" by (metis distinct.simps(2))
    have "filter (\<lambda>p. p \<notin> set ps) (removeAll a (chan_invites s k)) = filter (\<lambda>p. p \<notin> set (a # ps)) (chan_invites s k)"
      by (simp add: removeAll_filter_not_eq conj_commute) (metis (mono_tags))
    moreover have "(invites s)(a := None) |` (- set ps) = invites s |` (- set (a # ps))"
      by (auto simp: restrict_map_def fun_eq_iff)
    moreover have "same_members s s'" using t(6) s'(4) by (simp add: same_members_def)
    ultimately show ?case
      using t s' same_rest_trans[OF t(5) s'(3)] by (intro exI[of _ s']) simp
  qed
  then show ?thesis using that by blast
qed

section \<open>Releasing a channel\<close>

definition backlog :: "ircd \<Rightarrow> ptr \<Rightarrow> ptr list" where
  "backlog s k = (case channels s k of None \<Rightarrow> [] | Some ch \<Rightarrow> ch_backlog ch)"

definition backlog_wf :: "ircd \<Rightarrow> bool" where
  "backlog_wf s \<longleftrightarrow> (\<forall>k. distinct (backlog s k) \<and> (\<forall>e \<in> set (backlog s k).
     logentries s e \<noteq> None \<and> (\<forall>j. e \<in> set (backlog s j) \<longrightarrow> j = k)))"

lemma backlog_other_fields:
  "backlog s k = (case other_fields s k of None \<Rightarrow> [] | Some (r, es) \<Rightarrow> es)"
  by (simp add: backlog_def other_fields_def split: option.split)

lemma free_entries:
  "distinct es \<Longrightarrow> \<forall>e \<in> set es. logentries s e \<noteq> None \<Longrightarrow>
   for_each free_logentry s es = Some (s\<lparr>logentries := logentries s |` (- set es)\<rparr>)"
proof (induction es arbitrary: s)
  case (Cons e es)
  let ?t = "s\<lparr>logentries := (logentries s)(e := None)\<rparr>"
  have "(logentries s)(e := None) |` (- set es) = logentries s |` (- set (e # es))"
    by (auto simp: restrict_map_def fun_eq_iff)
  moreover have "free_logentry s e = Some ?t"
    using Cons.prems(2) by (auto simp: free_logentry_def)
  moreover have "for_each free_logentry ?t es = Some (?t\<lparr>logentries := logentries ?t |` (- set es)\<rparr>)"
    using Cons.prems by (intro Cons.IH) auto
  ultimately show ?case by simp
qed (simp add: restrict_map_def)

lemma channel_release_spec:
  assumes mwf: "members_wf s" and iwf: "invites_wf s" and k: "channels s k = Some ch"
    and b: "distinct (ch_backlog ch)" "\<forall>e \<in> set (ch_backlog ch). logentries s e \<noteq> None"
  obtains s' where "channel_release s k = Some s'" "members_wf s'" "members s' = {m \<in> members s. fst m \<noteq> k}"
    "invites_wf s'" "invited s' = {i \<in> invited s. fst i \<noteq> k}" "same_index s s'" "clients s' = clients s"
    "other_fields s' = other_fields s" "logentries s' = logentries s |` (- set (ch_backlog ch))"
    "member_lists s' k = ([], [], [])" "chan_invites s' k = []"
proof -
  have ml: "fst (member_lists s k) = ch_chanusers ch" by (simp add: member_lists_def k)
  have blocks: "\<forall>p \<in> set (ch_chanusers ch). \<exists>cu. member_block s p cu"
    using linked_block[OF mwf k] by metis
  obtain s1 where s1: "for_each chanuser_delete s (ch_chanusers ch) = Some s1" "members_wf s1" "same_index s s1"
    "\<And>p cu. member_block s1 p cu \<longleftrightarrow> p \<notin> set (ch_chanusers ch) \<and> member_block s p cu"
    "clients s1 = clients s" "invites s1 = invites s" "logentries s1 = logentries s"
    "\<And>j. map_option (\<lambda>ch. (ch_refcount ch, ch_invites ch, ch_backlog ch)) (channels s1 j) =
      map_option (\<lambda>ch. (ch_refcount ch, ch_invites ch, ch_backlog ch)) (channels s j)"
    "\<And>u. map_option u_invites (users s1 u) = map_option u_invites (users s u)"
    by (rule delete_blocks[OF mwf channel_listsD(1)[OF members_wfD(1)[OF mwf] k] blocks], rule that)
  obtain c1 where c1: "channels s1 k = Some c1" "ch_refcount c1 = ch_refcount ch"
    "ch_invites c1 = ch_invites ch" "ch_backlog c1 = ch_backlog ch"
    using s1(8)[of k] k by (cases "channels s1 k") auto
  have blk: "member_block s1 p cu \<longleftrightarrow> p \<notin> set (fst (member_lists s k)) \<and> member_block s p cu" for p cu
    unfolding ml by (rule s1(4))
  note emp = emptied_channel[OF mwf s1(2) blk]
  have rest1: "chan_invites s1 j = chan_invites s j \<and> other_fields s1 j = other_fields s j" for j
    using s1(8)[of j] by (cases "channels s1 j"; cases "channels s j") (auto simp: chan_invites_def other_fields_def)
  then have rest1: "chan_invites s1 = chan_invites s" "other_fields s1 = other_fields s" by (auto simp: fun_eq_iff)
  have "same_invites s s1"
    using s1(6,9) rest1 by (simp add: same_invites_def user_invites_def fun_eq_iff)
  note inv1 = same_invites_cong[OF this]
  have i1: "chan_invites s1 k = ch_invites ch" by (simp add: chan_invites_def c1)
  have di: "distinct (ch_invites ch)" using iwf k unfolding invites_wf_def by (auto simp: chan_invites_def split: option.splits)
  obtain s2 where s2: "for_each user_uninvite s1 (ch_invites ch) = Some s2" "invites_wf s2" "same_rest s1 s2"
    "same_members s1 s2" "chan_invites s2 = (chan_invites s1)(k := filter (\<lambda>p. p \<notin> set (ch_invites ch)) (chan_invites s1 k))"
    "invites s2 = invites s1 |` (- set (ch_invites ch))"
    using uninvite_blocks[OF _ di, of s1 k] inv1 iwf i1 by (metis subset_refl)
  have i2: "chan_invites s2 = (chan_invites s)(k := [])" using s2(5) i1 rest1 by simp
  obtain c2 where c2: "channels s2 k = Some c2" "ch_backlog c2 = ch_backlog ch"
    using s2(3) c1 by (cases "channels s2 k") (auto simp: same_rest_def other_fields_def fun_eq_iff dest: spec[of _ k])
  let ?t = "s2\<lparr>logentries := logentries s2 |` (- set (ch_backlog ch))\<rparr>"
  have logs: "logentries s2 = logentries s" using s2(3) s1(7) by (simp add: same_rest_def)
  have s3: "for_each free_logentry s2 (ch_backlog ch) = Some ?t"
    using b logs by (intro free_entries) auto
  let ?u = "put_channel k (c2\<lparr>ch_lchanusers := [], ch_chanusers := []\<rparr>) ?t"
  have rel: "channel_release s k = Some ?u"
    using k s1(1) c1 s2(1) c2 s3 by (simp add: channel_release_def)
  have ml2: "member_lists s2 k = ([], [], [])" using s2(4) emp(1) by (simp add: same_members_def)
  have mlu: "member_lists ?u = member_lists s2"
    using ml2 c2(1) by (auto simp: member_lists_def fun_eq_iff)
  have "same_members s2 ?u" using mlu by (simp add: same_members_def client_key_def fun_eq_iff)
  then have su: "same_members s1 ?u" using s2(4) by (simp add: same_members_def)
  have iu: "same_invites s2 ?u"
    using c2(1) by (auto simp: same_invites_def chan_invites_def user_invites_def fun_eq_iff)
  have ru: "same_index s2 ?u" "other_fields ?u = other_fields s2"
    using c2(1) by (auto simp: same_index_def channel_key_def other_fields_def fun_eq_iff)
  show ?thesis
  proof (rule that[OF rel])
    show "members_wf ?u" by (rule members_wf_cong[OF su s1(2)])
    show "members ?u = {m \<in> members s. fst m \<noteq> k}" using same_members_members[OF su] emp(2) by simp
    show "invites_wf ?u" using same_invites_cong(1)[OF iu] s2(2) by simp
    show "same_index s ?u" using same_index_trans[OF same_index_trans[OF s1(3), of s2] ru(1)] s2(3) by (simp add: same_rest_def)
    show "clients ?u = clients s" using s1(5) s2(3) by (simp add: same_rest_def)
    show "other_fields ?u = other_fields s" using ru(2) s2(3) rest1(2) by (simp add: same_rest_def)
    show "logentries ?u = logentries s |` (- set (ch_backlog ch))" by (simp add: logs)
    show "member_lists ?u k = ([], [], [])" using mlu ml2 by simp
    show "chan_invites ?u k = []" using iu i2 by (simp add: same_invites_def)
    have own: "iv_channel iv = k" if "p \<in> set (ch_invites ch)" "invites s p = Some iv" for p iv
      using iwf that i1 rest1 unfolding invites_wf_def chan_invite_ok_def by (metis option.inject)
    have "(invites ?u p = Some iv \<and> p \<in> set (chan_invites ?u (iv_channel iv))) \<longleftrightarrow>
      invites s p = Some iv \<and> p \<in> set (chan_invites s (iv_channel iv)) \<and> iv_channel iv \<noteq> k" for p iv
      using iu i2 s2(6) s1(6) own[of p iv] by (auto simp: same_invites_def restrict_map_def)
    then show "invited ?u = {i \<in> invited s. fst i \<noteq> k}"
      unfolding invited_def invite_block_def by fastforce
  qed
qed

section \<open>Well-formed states\<close>

definition state_wf :: "(64 word \<Rightarrow> 64 word) \<Rightarrow> ircd \<Rightarrow> bool" where
  "state_wf shl s \<longleftrightarrow> channels_wf shl s \<and> members_wf s \<and> invites_wf s \<and> backlog_wf s"

lemma state_wfD:
  assumes "state_wf shl s"
  shows "channels_wf shl s" "members_wf s" "invites_wf s" "backlog_wf s"
  using assms by (simp_all add: state_wf_def)

lemma backlog_wfD:
  assumes "backlog_wf s" "channels s k = Some ch"
  shows "distinct (ch_backlog ch)" "\<forall>e \<in> set (ch_backlog ch). logentries s e \<noteq> None"
proof -
  have "backlog s k = ch_backlog ch" by (simp add: backlog_def assms(2))
  then show "distinct (ch_backlog ch)" "\<forall>e \<in> set (ch_backlog ch). logentries s e \<noteq> None"
    using assms(1) unfolding backlog_wf_def by metis+
qed

lemma same_channels_cong:
  assumes "channels s' = channels s"
  shows "chan_invites s' = chan_invites s" "other_fields s' = other_fields s" "member_lists s' = member_lists s"
  using assms by (simp_all add: chan_invites_def other_fields_def member_lists_def fun_eq_iff)

subsection \<open>Deleting a channel\<close>

lemma channel_delete_spec:
  assumes wf: "state_wf shl s" and k: "k \<in> set (channel_entries s)"
  obtains s' where "channel_delete s k = Some s'" "state_wf shl s'"
    "channel_entries s' = removeAll k (channel_entries s)" "channels s' k = None"
    "members s' = {m \<in> members s. fst m \<noteq> k}" "invited s' = {i \<in> invited s. fst i \<noteq> k}"
    "\<And>j. j \<noteq> k \<Longrightarrow> channel_key s' j = channel_key s j" "clients s' = clients s"
proof -
  note w = state_wfD[OF wf]
  obtain ch where ch: "channels s k = Some ch" using channels_wfD(6)[OF w(1) k] by (auto simp: channel_ok_def)
  obtain t where t: "channel_unlink s k = Some t" "channels_wf shl t" "channel_entries t = removeAll k (channel_entries s)"
    using channel_unlink_law[OF w(1) k] by blast
  then have t': "channels t = channels s" "users t = users s" "clients t = clients s" "chanusers t = chanusers s"
    "invites t = invites s" "logentries t = logentries s"
    using ch by (auto simp: channel_unlink_def bind_eq_Some_conv Let_def)
  note tc = same_channels_cong[OF t'(1)]
  have sm: "same_members s t" using tc t' by (simp add: same_members_def client_key_def fun_eq_iff)
  have si: "same_invites s t" using tc t' by (simp add: same_invites_def user_invites_def fun_eq_iff)
  have tw: "members_wf t" "invites_wf t" "members t = members s" "invited t = invited s"
    using members_wf_cong[OF sm w(2)] same_invites_cong[OF si] w(3) same_members_members[OF sm] by auto
  have tb: "distinct (ch_backlog ch)" "\<forall>e \<in> set (ch_backlog ch). logentries t e \<noteq> None"
    using backlog_wfD[OF w(4) ch] t'(6) by auto
  have chk: "channels t k = Some ch" using ch t' by simp
  obtain u where u: "channel_release t k = Some u" "members_wf u" "members u = {m \<in> members t. fst m \<noteq> k}"
    "invites_wf u" "invited u = {i \<in> invited t. fst i \<noteq> k}" "same_index t u" "clients u = clients t"
    "other_fields u = other_fields t" "logentries u = logentries t |` (- set (ch_backlog ch))"
    "member_lists u k = ([], [], [])" "chan_invites u k = []"
    by (rule channel_release_spec[OF tw(1,2) chk tb], rule that)
  let ?v = "u\<lparr>channels := (channels u)(k := None)\<rparr>"
  have sm': "same_members u ?v"
    using u(10) by (auto simp: same_members_def client_key_def member_lists_def fun_eq_iff)
  have si': "same_invites u ?v"
    using u(11) by (auto simp: same_invites_def user_invites_def chan_invites_def fun_eq_iff)
  have idx: "channel_key ?v j = channel_key s j" if "j \<noteq> k" for j
    using that u(6) t'(1) by (simp add: channel_key_def same_index_def fun_eq_iff)
  have lists: "channel_lists ?v = channel_lists t" "channel_list ?v = channel_list t"
    using u(6) by (simp_all add: same_index_def)
  have keep: "channel_ok shl ?v q = channel_ok shl t q" "channel_hash ?v q = channel_hash t q" if "q \<noteq> k" for q
    using idx[OF that] t'(1) by (simp_all add: channel_key_cases channel_key_def)
  show ?thesis
  proof (rule that)
    show "channel_delete s k = Some ?v" by (simp add: channel_delete_def t(1) u(1))
    show "channel_entries ?v = removeAll k (channel_entries s)" using t(3) lists by simp
    show "members ?v = {m \<in> members s. fst m \<noteq> k}" using same_members_members[OF sm'] u(3) tw(3) by simp
    show "invited ?v = {i \<in> invited s. fst i \<noteq> k}" using same_invites_cong(2)[OF si'] u(5) tw(4) by simp
    show "clients ?v = clients s" using u(7) t'(3) by simp
    show "state_wf shl ?v" unfolding state_wf_def
    proof (intro conjI)
      show "members_wf ?v" by (rule members_wf_cong[OF sm' u(2)])
      show "invites_wf ?v" using same_invites_cong(1)[OF si'] u(4) by simp
      have nk: "k \<notin> set (channel_entries t)" using t(3) by simp
      have "hashed_table (channel_hash ?v) (channel_lists t)"
        using channels_wfD(2)[OF t(2)] keep(2) nk in_bucket_concat[of _ "channel_lists t"]
        unfolding hashed_table_def by metis
      moreover have "\<forall>q \<in> set (channel_entries t). channel_ok shl ?v q"
        using keep(1) channels_wfD(6)[OF t(2)] nk by metis
      ultimately show "channels_wf shl ?v"
        unfolding channels_wf_def lists using channels_wfD(1,4,5)[OF t(2)] by blast
      have of: "other_fields ?v = (other_fields s)(k := None)"
        using u(8) tc(2) by (auto simp: other_fields_def fun_eq_iff)
      have bl: "backlog ?v = (backlog s)(k := [])"
        by (simp add: fun_eq_iff backlog_other_fields of)
      have bk: "backlog s k = ch_backlog ch" by (simp add: backlog_def ch)
      have "logentries ?v e = logentries s e" if "e \<in> set (backlog s j)" "j \<noteq> k" for e j
      proof -
        have "e \<notin> set (ch_backlog ch)" using w(4) that bk unfolding backlog_wf_def by metis
        then show ?thesis using u(9) t'(6) by simp
      qed
      then show "backlog_wf ?v"
        using w(4) unfolding backlog_wf_def bl by auto
    qed
  qed (use idx in auto)
qed

subsection \<open>Creating a channel\<close>

lemma fresh_channel:
  assumes "state_wf shl s" "channels s k = None"
  shows "k \<notin> set (channel_entries s)" "member_lists s k = ([], [], [])" "chan_invites s k = []" "backlog s k = []"
  using channels_wfD(6)[OF state_wfD(1)[OF assms(1)], of k] assms(2)
  by (auto simp: channel_ok_def member_lists_def chan_invites_def backlog_def)

lemma channel_new_spec:
  assumes wf: "state_wf shl s" and k: "channels s k = None"
  obtains s' where "channel_new shl s k name = Some (s', k)" "state_wf shl s'"
    "k \<in> set (channel_entries s')" "removeAll k (channel_entries s') = channel_entries s"
    "members s' = members s" "invited s' = invited s"
    "channel_name s' k = field (IRCD_CHANNELLEN + 1) name" "\<And>j. j \<noteq> k \<Longrightarrow> channel_name s' j = channel_name s j"
    "clients s' = clients s" "map_option ch_refcount (channels s' k) = Some 1"
proof -
  note w = state_wfD[OF wf]
  note fr = fresh_channel[OF wf k]
  define ch where "ch = channel_zero\<lparr>ch_name := field (IRCD_CHANNELLEN + 1) name, ch_ts := timer_systime s,
         ch_hash := str_ihash shl (Some (field (IRCD_CHANNELLEN + 1) name)), ch_refcount := 1, ch_id := channel_id s,
         ch_serial := channel_serial s\<rparr>"
  have ch: "ch_name ch = field (IRCD_CHANNELLEN + 1) name" "ch_hash ch = str_ihash shl (Some (ch_name ch))"
    "ch_chanusers ch = []" "ch_lchanusers ch = []" "ch_rchanusers ch = []" "ch_invites ch = []" "ch_backlog ch = []"
    "ch_refcount ch = 1"
    by (simp_all add: ch_def channel_zero_def)
  define t where "t = put_channel k ch (s\<lparr>channel_id := channel_id s + 1\<rparr>)"
  have t: "channels t = (channels s)(k \<mapsto> ch)" "users t = users s" "clients t = clients s" "chanusers t = chanusers s"
    "invites t = invites s" "logentries t = logentries s" "channel_list t = channel_list s" "channel_lists t = channel_lists s"
    by (simp_all add: t_def)
  have sm: "same_members s t" using fr ch t
    by (auto simp: same_members_def client_key_def member_lists_def fun_eq_iff)
  have si: "same_invites s t" using fr ch t
    by (auto simp: same_invites_def user_invites_def chan_invites_def fun_eq_iff)
  have bl: "backlog t = backlog s" using fr ch t by (auto simp: backlog_def fun_eq_iff)
  have keep: "channel_ok shl t q = channel_ok shl s q" "channel_hash t q = channel_hash s q"
    "channel_name t q = channel_name s q" if "q \<noteq> k" for q
    using that t(1) by (simp_all add: channel_ok_def channel_hash_def channel_name_def)
  have "channels_wf shl t"
    unfolding channels_wf_def t(7,8)
  proof (intro conjI)
    show "hashed_table (channel_hash t) (channel_lists s)"
      using channels_wfD(2)[OF w(1)] keep(2) fr(1) in_bucket_concat[of _ "channel_lists s"]
      unfolding hashed_table_def by metis
    show "\<forall>q \<in> set (channel_entries s). channel_ok shl t q"
      using keep(1) channels_wfD(6)[OF w(1)] fr(1) by metis
  qed (use channels_wfD[OF w(1)] in auto)
  moreover have "channel_linkable shl t k"
    using fr(1) ch(2) by (simp add: channel_linkable_def channel_ok_def t)
  ultimately obtain s' where s': "channel_link t k = Some s'" "channels_wf shl s'" "k \<in> set (channel_entries s')"
    "removeAll k (channel_entries s') = channel_entries t" "channel_name s' = channel_name t"
    using channel_link_law by blast
  then have c': "channels s' = channels t" "users s' = users t" "clients s' = clients t" "chanusers s' = chanusers t"
    "invites s' = invites t" "logentries s' = logentries t"
    by (auto simp: channel_link_def t(1) Let_def)
  note tc = same_channels_cong[OF c'(1)]
  have sm': "same_members s s'"
    using sm tc c' by (simp add: same_members_def client_key_def fun_eq_iff)
  have si': "same_invites s s'" using si tc c' by (simp add: same_invites_def user_invites_def fun_eq_iff)
  have "backlog s' = backlog s" using bl c'(1) by (simp add: backlog_def fun_eq_iff)
  then have bw: "backlog_wf s'" using w(4) c'(6) t(6) by (simp add: backlog_wf_def)
  have new: "channel_new shl s k name = Some (s', k)"
    using s'(1) by (simp add: channel_new_def Let_def t_def ch_def)
  show ?thesis
  proof (rule that[OF new])
    show "state_wf shl s'"
      using s'(2) members_wf_cong[OF sm' w(2)] same_invites_cong(1)[OF si'] w(3) bw by (simp add: state_wf_def)
    show "k \<in> set (channel_entries s')" "removeAll k (channel_entries s') = channel_entries s"
      using s'(3,4) t(8) by auto
    show "members s' = members s" "invited s' = invited s"
      using same_members_members[OF sm'] same_invites_cong(2)[OF si'] by auto
    show "channel_name s' k = field (IRCD_CHANNELLEN + 1) name" using s'(5) t(1) ch(1) by (simp add: channel_name_def)
    show "channel_name s' j = channel_name s j" if "j \<noteq> k" for j using s'(5) keep(3)[OF that] by simp
    show "clients s' = clients s" using c'(3) t(3) by simp
    show "map_option ch_refcount (channels s' k) = Some 1" using c'(1) t(1) ch(8) by simp
  qed
qed

subsection \<open>Members, invitations and the backlog\<close>

lemma state_wf_rest:
  assumes "state_wf shl s" "same_rest s s'" "members_wf s'" "invites_wf s'"
  shows "state_wf shl s'"
proof -
  have "backlog s' = backlog s" "logentries s' = logentries s"
    using assms(2) by (auto simp: same_rest_def backlog_other_fields fun_eq_iff)
  then have "backlog_wf s'" using state_wfD(4)[OF assms(1)] by (simp add: backlog_wf_def)
  then show ?thesis
    using assms channels_wf_cong[of s s' shl] by (simp add: state_wf_def same_rest_def)
qed

lemma enter_wf:
  assumes wf: "state_wf shl s" and a: "chanusers s a = None"
    and c: "clients s c = Some cl" "client_is_user cl \<or> client_is_service cl"
    and k: "channels s k = Some ch" and new: "(k, c) \<notin> members s"
  obtains s' where "chanuser_add s a k c = Some (s', Some a)" "state_wf shl s'" "members s' = insert (k, c) (members s)"
    "invited s' = invited s" "same_index s s'"
    "clients s' = (clients s)(c \<mapsto> cl\<lparr>c_refcount := c_refcount cl + 1\<rparr>)"
    "map_option ch_refcount (channels s' k) = Some (ch_refcount ch + 1)"
    "\<exists>cu. member_block s' a cu \<and> cu_channel cu = k \<and> cu_client cu = c"
proof -
  note w = state_wfD[OF wf]
  obtain u us where u: "c_user cl = Some u" "users s u = Some us"
    using members_wfD(3)[OF w(2)] c unfolding clients_ok_def by blast
  define cu where "cu = \<lparr>cu_local = client_is_local cl, cu_serial = chanuser_serial s, cu_channel = k,
      cu_client = c, cu_flags = 0, cu_prefix = []\<rparr>"
  obtain s' where s': "chanuser_add s a k c = Some (s', Some a)" "linked_after s a cu s'" "same_index s s'"
    "clients s' = (clients s)(c \<mapsto> cl\<lparr>c_refcount := c_refcount cl + 1\<rparr>)"
    "map_option ch_refcount (channels s' k) = Some (ch_refcount ch + 1)"
    "invites s' = invites s" "logentries s' = logentries s"
    "\<And>k. map_option (\<lambda>ch. (ch_invites ch, ch_backlog ch)) (channels s' k) =
      map_option (\<lambda>ch. (ch_invites ch, ch_backlog ch)) (channels s k)"
    "\<And>u. map_option u_invites (users s' u) = map_option u_invites (users s u)"
    by (rule chanuser_add_spec[OF c u k cu_def], rule that)
  have cu: "cu_channel cu = k" "cu_client cu = c" by (simp_all add: cu_def)
  note lw = linked_wf[OF w(2) a s'(2), unfolded cu, OF new]
  have v: "chan_invites s' j = chan_invites s j \<and> backlog s' j = backlog s j" for j
    using s'(8)[of j] by (cases "channels s' j"; cases "channels s j") (auto simp: chan_invites_def backlog_def)
  have si: "same_invites s s'"
    using s'(6,9) v by (simp add: same_invites_def user_invites_def fun_eq_iff)
  have bl: "backlog_wf s'" using w(4) v s'(7) by (simp add: backlog_wf_def)
  show ?thesis
  proof (rule that[OF s'(1) _ lw(2) _ s'(3-5)])
    show "state_wf shl s'"
      using lw(1) same_invites_cong(1)[OF si] w(3) bl channels_wf_cong[OF s'(3)] w(1) by (simp add: state_wf_def)
    show "invited s' = invited s" by (rule same_invites_cong(2)[OF si])
    show "\<exists>d. member_block s' a d \<and> cu_channel d = k \<and> cu_client d = c"
      using linked_member_block[OF w(2) a s'(2), of a cu] cu by blast
  qed
qed

lemma leave_wf:
  assumes wf: "state_wf shl s" and m: "member_block s a cu"
  obtains s' where "chanuser_delete s a = Some s'" "state_wf shl s'"
    "members s' = members s - {(cu_channel cu, cu_client cu)}" "invited s' = invited s" "same_rest s s'"
proof -
  note w = state_wfD[OF wf]
  obtain s' where s': "chanuser_delete s a = Some s'" "unlinked_after s a cu s'" "same_index s s'"
    "clients s' = clients s" "invites s' = invites s" "logentries s' = logentries s"
    "\<And>k. map_option (\<lambda>ch. (ch_refcount ch, ch_invites ch, ch_backlog ch)) (channels s' k) =
      map_option (\<lambda>ch. (ch_refcount ch, ch_invites ch, ch_backlog ch)) (channels s k)"
    "\<And>u. map_option u_invites (users s' u) = map_option u_invites (users s u)"
    by (rule chanuser_delete_spec[OF w(2) m], rule that)
  note uw = unlinked_wf[OF w(2) m s'(2)]
  have v: "chan_invites s' j = chan_invites s j \<and> other_fields s' j = other_fields s j" for j
    using s'(7)[of j] by (cases "channels s' j"; cases "channels s j") (auto simp: chan_invites_def other_fields_def)
  have sr: "same_rest s s'" using v s'(3,4,6) by (simp add: same_rest_def fun_eq_iff)
  have si: "same_invites s s'" using v s'(5,8) by (simp add: same_invites_def user_invites_def fun_eq_iff)
  note inv = same_invites_cong[OF si]
  show ?thesis
    using that[OF s'(1) state_wf_rest[OF wf sr uw(1)] uw(2) inv(2) sr] inv(1) w(3) by simp
qed

lemma invite_wf:
  assumes wf: "state_wf shl s" and a: "invites s a = None" and u: "users s u = Some us"
    and k: "channels s k = Some ch"
  obtains s' where "user_invite s a u k = Some s'" "state_wf shl s'" "members s' = members s"
    "invited s' = insert (k, u) (invited s)" "same_rest s s'"
proof -
  note w = state_wfD[OF wf]
  let ?P = "\<lambda>p. (case invites s p of None \<Rightarrow> False | Some iv \<Rightarrow> iv_channel iv = k)"
  have ui: "user_invites s u = Some (u_invites us)" by (simp add: user_invites_def u)
  have uok: "user_invite_ok s u p" if "p \<in> set (u_invites us)" for p
    using w(3) ui that unfolding invites_wf_def by blast
  have found: "search (\<lambda>p. do { iv \<leftarrow> invites s p; Some (iv_channel iv = k) }) (u_invites us) =
    Some (List.find ?P (u_invites us))"
    by (rule search_find) (use uok in \<open>force simp: user_invite_ok_def\<close>)
  have inv: "List.find ?P (u_invites us) \<noteq> None \<longleftrightarrow> (k, u) \<in> invited s"
  proof
    assume "List.find ?P (u_invites us) \<noteq> None"
    then obtain p where p: "p \<in> set (u_invites us)" "?P p" using find_SomeD by fastforce
    then obtain iv where iv: "invites s p = Some iv" "iv_user iv = u" "p \<in> set (chan_invites s (iv_channel iv))"
      using uok unfolding user_invite_ok_def by blast
    then have "iv_channel iv = k" using p(2) by simp
    then show "(k, u) \<in> invited s" unfolding invited_def invite_block_def using iv by blast
  next
    assume "(k, u) \<in> invited s"
    then obtain p iv where iv: "invites s p = Some iv" "iv_channel iv = k" "iv_user iv = u" "p \<in> set (chan_invites s k)"
      unfolding invited_def invite_block_def by auto
    then have "chan_invite_ok s k p" using w(3) unfolding invites_wf_def by blast
    then have "p \<in> set (u_invites us)" using iv ui by (auto simp: chan_invite_ok_def)
    moreover have "?P p" using iv by simp
    ultimately show "List.find ?P (u_invites us) \<noteq> None" unfolding find_None by blast
  qed
  show ?thesis
  proof (cases "(k, u) \<in> invited s")
    case True
    then obtain p where "List.find ?P (u_invites us) = Some p" using inv by auto
    then have "user_invite s a u k = Some s" using found by (simp add: user_invite_def u)
    then show ?thesis using that[of s] wf True by (auto simp: same_rest_def insert_absorb)
  next
    case False
    then have none: "List.find ?P (u_invites us) = None" using inv by auto
    have ci: "chan_invites s k = ch_invites ch" by (simp add: chan_invites_def k)
    have fresh: "a \<notin> set (chan_invites s j)" "user_invites s v = Some ps \<Longrightarrow> a \<notin> set ps" for j v ps
      using w(3) a unfolding invites_wf_def chan_invite_ok_def user_invite_ok_def by (metis option.distinct(1))+
    let ?iv = "\<lparr>iv_channel = k, iv_user = u\<rparr>"
    define s' where "s' = put_user u (us\<lparr>u_invites := u_invites us @ [a]\<rparr>)
      (put_channel k (ch\<lparr>ch_invites := a # ch_invites ch\<rparr>) (s\<lparr>invites := (invites s)(a \<mapsto> ?iv)\<rparr>))"
    have s': "user_invite s a u k = Some s'"
      using found none k by (simp add: user_invite_def u s'_def)
    have i: "invites s' = (invites s)(a \<mapsto> ?iv)" by (simp add: s'_def)
    have c: "chan_invites s' = (chan_invites s)(k := a # chan_invites s k)"
      by (simp add: chan_invites_def fun_eq_iff s'_def k)
    have ui': "user_invites s' = (user_invites s)(u := Some (u_invites us @ [a]))"
      by (simp add: user_invites_def fun_eq_iff s'_def)
    have sr: "same_rest s s'"
      using k by (auto simp: same_rest_def same_index_def channel_key_def other_fields_def fun_eq_iff s'_def)
    have sm: "same_members s s'"
      using k u by (auto simp: same_members_def client_key_def member_lists_def fun_eq_iff s'_def)
    have cok: "chan_invite_ok s' j p" if "chan_invite_ok s j p" for j p
    proof -
      obtain iv qs where iv: "invites s p = Some iv" "iv_channel iv = j" "user_invites s (iv_user iv) = Some qs"
        "p \<in> set qs" using \<open>chan_invite_ok s j p\<close> unfolding chan_invite_ok_def by blast
      have "p \<noteq> a" using iv a by auto
      moreover have "\<exists>qs. user_invites s' (iv_user iv) = Some qs \<and> p \<in> set qs" using iv ui by (auto simp: ui')
      ultimately show ?thesis unfolding chan_invite_ok_def using iv by (auto simp: i)
    qed
    have uok': "user_invite_ok s' v p" if "user_invite_ok s v p" for v p
      using that a unfolding user_invite_ok_def by (auto simp: i c)
    have new: "chan_invite_ok s' k a" "user_invite_ok s' u a"
      by (simp_all add: chan_invite_ok_def user_invite_ok_def i c ui')
    have blk: "invite_block s' p iv \<longleftrightarrow> (p = a \<and> iv = ?iv) \<or> invite_block s p iv" for p iv
      using a fresh(1) by (auto simp: invite_block_def i c)
    have "iv_channel iv = k \<longrightarrow> iv_user iv \<noteq> u" if "invite_block s p iv" for p iv
      using False that unfolding invited_def by blast
    then have uniq: "invites_unique s'"
      using w(3) unfolding invites_wf_def invites_unique_def blk by (metis invite.select_convs(1) invite.select_convs(2))
    have "invites_wf s'"
      unfolding invites_wf_def
    proof (intro conjI allI impI)
      fix j
      show "distinct (chan_invites s' j)" using w(3) fresh(1) by (simp add: c invites_wf_def)
      show "\<forall>p \<in> set (chan_invites s' j). chan_invite_ok s' j p"
        using w(3) cok new unfolding invites_wf_def c by auto
    next
      fix v ps assume v: "user_invites s' v = Some ps"
      show "distinct ps"
        using v w(3) ui fresh(2) unfolding invites_wf_def ui' by (auto split: if_splits)
      show "\<forall>p \<in> set ps. user_invite_ok s' v p"
        using v w(3) ui uok' new unfolding invites_wf_def ui' by (auto split: if_splits)
    qed (rule uniq)
    moreover have "invited s' = insert (k, u) (invited s)"
    proof -
      show ?thesis unfolding invited_def blk by (auto, rule exI[of _ a], rule exI[of _ ?iv], simp)
    qed
    moreover have "members_wf s'" "members s' = members s"
      using members_wf_cong[OF sm w(2)] same_members_members[OF sm] by auto
    ultimately show ?thesis using that[OF s' state_wf_rest[OF wf sr]] sr by simp
  qed
qed

lemma revoke_wf:
  assumes wf: "state_wf shl s" and p: "p \<in> set (chan_invites s k)"
  obtains s' iv where "user_uninvite s p = Some s'" "invites s p = Some iv" "state_wf shl s'"
    "members s' = members s" "invites s' = (invites s)(p := None)"
    "chan_invites s' = (chan_invites s)(k := removeAll p (chan_invites s k))" "same_rest s s'"
proof -
  note w = state_wfD[OF wf]
  obtain s' iv where s': "user_uninvite s p = Some s'" "invites s p = Some iv" "iv_channel iv = k"
    "invites s' = (invites s)(p := None)" "chan_invites s' = (chan_invites s)(k := removeAll p (chan_invites s k))"
    "invites_wf s'" "same_rest s s'" "same_members s s'"
    by (rule user_uninvite_spec[OF w(3) p], rule that)
  show ?thesis
    by (rule that[OF s'(1,2) state_wf_rest[OF wf s'(7) members_wf_cong[OF s'(8) w(2)] s'(6)]
        same_members_members[OF s'(8)] s'(4,5,7)])
qed

lemma backlog_add_wf:
  assumes wf: "state_wf shl s" and a: "logentries s a = None" and k: "channels s k = Some ch"
    and c: "clients s c = Some cl"
  obtains s' where "channel_backlog s a k c cmd text = Some s'" "state_wf shl s'" "members s' = members s"
    "invited s' = invited s" "same_index s s'"
proof (cases "client_is_user cl")
  case False
  then have "channel_backlog s a k c cmd text = Some s" using c by (simp add: channel_backlog_def)
  then show ?thesis using that wf by simp
next
  case True
  note w = state_wfD[OF wf]
  define e where "e = backlog_entry (timer_systime s) cl cmd text"
  have s': "channel_backlog s a k c cmd text =
    Some (put_channel k (ch\<lparr>ch_backlog := ch_backlog ch @ [a]\<rparr>) (s\<lparr>logentries := (logentries s)(a \<mapsto> e)\<rparr>))"
    using True c k by (simp add: channel_backlog_def e_def)
  let ?s = "put_channel k (ch\<lparr>ch_backlog := ch_backlog ch @ [a]\<rparr>) (s\<lparr>logentries := (logentries s)(a \<mapsto> e)\<rparr>)"
  have sm: "same_members s ?s"
    using k by (auto simp: same_members_def client_key_def member_lists_def fun_eq_iff)
  have si: "same_invites s ?s"
    using k by (auto simp: same_invites_def user_invites_def chan_invites_def fun_eq_iff)
  have ix: "same_index s ?s"
    using k by (auto simp: same_index_def channel_key_def fun_eq_iff)
  have bl: "backlog ?s = (backlog s)(k := backlog s k @ [a])"
    using k by (simp add: backlog_def fun_eq_iff)
  have fresh: "a \<notin> set (backlog s j)" for j using w(4) a unfolding backlog_wf_def by metis
  have bw: "backlog_wf ?s"
    using w(4) fresh unfolding backlog_wf_def bl by (auto split: if_splits)
  show ?thesis
  proof (rule that[OF s'])
    show "state_wf shl ?s"
      using members_wf_cong[OF sm w(2)] same_invites_cong(1)[OF si] channels_wf_cong[OF ix] w(1,3) bw
      unfolding state_wf_def by metis
    show "members ?s = members s" by (rule same_members_members[OF sm])
    show "invited ?s = invited s" by (rule same_invites_cong(2)[OF si])
  qed (rule ix)
qed

section \<open>Refinement of the relations\<close>

text \<open>The operations as the handlers call them: a user enters a channel after the lookup for its
  block found none and leaves by the block that the lookup found, and an invitation is revoked by
  the block that the list of the user holds for the channel. The blocks \<open>a\<close> are what the
  allocator returns: not in use.\<close>

datatype chan_op = Create ptr string | Destroy ptr | Enter ptr ptr ptr | Leave ptr ptr
  | Invite ptr ptr ptr | Revoke ptr ptr | Log ptr ptr ptr string "string option"

definition find_invite :: "ircd \<Rightarrow> ptr \<Rightarrow> ptr \<Rightarrow> ptr option option" where
  "find_invite s u k = do { us \<leftarrow> users s u;
     search (\<lambda>p. do { iv \<leftarrow> invites s p; Some (iv_channel iv = k) }) (u_invites us) }"

fun chan_run :: "(64 word \<Rightarrow> 64 word) \<Rightarrow> chan_op \<Rightarrow> ircd \<Rightarrow> ircd option" where
  "chan_run shl (Create a name) s = map_option fst (channel_new shl s a name)"
| "chan_run shl (Destroy k) s = channel_delete s k"
| "chan_run shl (Enter a k c) s = do { r \<leftarrow> chanuser_find s k c;
     (case r of Some _ \<Rightarrow> Some s | None \<Rightarrow> map_option fst (chanuser_add s a k c)) }"
| "chan_run shl (Leave k c) s = do { r \<leftarrow> chanuser_find s k c;
     (case r of Some p \<Rightarrow> chanuser_delete s p | None \<Rightarrow> Some s) }"
| "chan_run shl (Invite a u k) s = user_invite s a u k"
| "chan_run shl (Revoke u k) s = do { r \<leftarrow> find_invite s u k;
     (case r of Some p \<Rightarrow> user_uninvite s p | None \<Rightarrow> Some s) }"
| "chan_run shl (Log a k c cmd text) s = channel_backlog s a k c cmd text"

fun chan_permitted :: "chan_op \<Rightarrow> ircd \<Rightarrow> bool" where
  "chan_permitted (Create a name) s \<longleftrightarrow> channels s a = None"
| "chan_permitted (Destroy k) s \<longleftrightarrow> k \<in> set (channel_list s)"
| "chan_permitted (Enter a k c) s \<longleftrightarrow> chanusers s a = None \<and> channels s k \<noteq> None \<and>
     (\<exists>cl. clients s c = Some cl \<and> (client_is_user cl \<or> client_is_service cl))"
| "chan_permitted (Leave k c) s \<longleftrightarrow> (\<exists>cl. clients s c = Some cl \<and> (client_is_user cl \<or> client_is_service cl))"
| "chan_permitted (Invite a u k) s \<longleftrightarrow> invites s a = None \<and> users s u \<noteq> None \<and> channels s k \<noteq> None"
| "chan_permitted (Revoke u k) s \<longleftrightarrow> users s u \<noteq> None"
| "chan_permitted (Log a k c cmd text) s \<longleftrightarrow> logentries s a = None \<and> channels s k \<noteq> None \<and> clients s c \<noteq> None"

text \<open>The abstract state: the channels, who is on which channel, and who is invited where.\<close>

type_synonym chan_rel = "ptr set \<times> (ptr \<times> ptr) set \<times> (ptr \<times> ptr) set"

definition chan_abs :: "ircd \<Rightarrow> chan_rel" where
  "chan_abs s = (set (channel_list s), members s, invited s)"

fun chan_spec :: "chan_op \<Rightarrow> chan_rel \<Rightarrow> chan_rel" where
  "chan_spec (Create a name) (K, M, I) = (insert a K, M, I)"
| "chan_spec (Destroy k) (K, M, I) = (K - {k}, {m \<in> M. fst m \<noteq> k}, {i \<in> I. fst i \<noteq> k})"
| "chan_spec (Enter a k c) (K, M, I) = (K, insert (k, c) M, I)"
| "chan_spec (Leave k c) (K, M, I) = (K, M - {(k, c)}, I)"
| "chan_spec (Invite a u k) (K, M, I) = (K, M, insert (k, u) I)"
| "chan_spec (Revoke u k) (K, M, I) = (K, M, I - {(k, u)})"
| "chan_spec (Log a k c cmd text) (K, M, I) = (K, M, I)"

fun chan_runs :: "(64 word \<Rightarrow> 64 word) \<Rightarrow> chan_op list \<Rightarrow> ircd \<Rightarrow> ircd option" where
  "chan_runs shl [] s = Some s"
| "chan_runs shl (o1 # os) s = do { s \<leftarrow> chan_run shl o1 s; chan_runs shl os s }"

fun chan_all_permitted :: "(64 word \<Rightarrow> 64 word) \<Rightarrow> chan_op list \<Rightarrow> ircd \<Rightarrow> bool" where
  "chan_all_permitted shl [] s \<longleftrightarrow> True"
| "chan_all_permitted shl (o1 # os) s \<longleftrightarrow> chan_permitted o1 s \<and>
     (case chan_run shl o1 s of None \<Rightarrow> True | Some t \<Rightarrow> chan_all_permitted shl os t)"

lemma channel_list_entries: "state_wf shl s \<Longrightarrow> set (channel_list s) = set (channel_entries s)"
  using channels_wfD(5) state_wfD(1) by blast

lemma find_invite_correct:
  assumes wf: "state_wf shl s" and u: "users s u = Some us"
  obtains r where "find_invite s u k = Some r" "r = None \<longleftrightarrow> (k, u) \<notin> invited s"
    "\<And>p. r = Some p \<Longrightarrow> p \<in> set (chan_invites s k) \<and> (\<exists>iv. invites s p = Some iv \<and> iv_user iv = u)"
proof -
  note w = state_wfD[OF wf]
  let ?P = "\<lambda>p. (case invites s p of None \<Rightarrow> False | Some iv \<Rightarrow> iv_channel iv = k)"
  have ui: "user_invites s u = Some (u_invites us)" by (simp add: user_invites_def u)
  have uok: "user_invite_ok s u p" if "p \<in> set (u_invites us)" for p
    using w(3) ui that unfolding invites_wf_def by blast
  have found: "find_invite s u k = Some (List.find ?P (u_invites us))"
    unfolding find_invite_def u bind.bind_lunit
    by (rule search_find) (use uok in \<open>force simp: user_invite_ok_def\<close>)
  have hit: "p \<in> set (chan_invites s k) \<and> (\<exists>iv. invites s p = Some iv \<and> iv_user iv = u)"
    if "p \<in> set (u_invites us)" "?P p" for p
    using uok[OF that(1)] that(2) unfolding user_invite_ok_def by auto
  show ?thesis
  proof (rule that[OF found])
    show "List.find ?P (u_invites us) = None \<longleftrightarrow> (k, u) \<notin> invited s"
    proof
      assume none: "List.find ?P (u_invites us) = None"
      show "(k, u) \<notin> invited s"
      proof
        assume "(k, u) \<in> invited s"
        then obtain p iv where iv: "invites s p = Some iv" "iv_channel iv = k" "iv_user iv = u" "p \<in> set (chan_invites s k)"
          unfolding invited_def invite_block_def by auto
        then have "chan_invite_ok s k p" using w(3) unfolding invites_wf_def by blast
        then have "p \<in> set (u_invites us)" using iv ui by (auto simp: chan_invite_ok_def)
        moreover have "?P p" using iv by simp
        ultimately show False using none unfolding find_None by blast
      qed
    next
      assume no: "(k, u) \<notin> invited s"
      show "List.find ?P (u_invites us) = None"
      proof (rule ccontr)
        assume "List.find ?P (u_invites us) \<noteq> None"
        then obtain p where p: "p \<in> set (u_invites us)" "?P p" using find_SomeD by fastforce
        obtain iv where "invites s p = Some iv" "iv_user iv = u" "p \<in> set (chan_invites s k)"
          using hit[OF p] by blast
        moreover from this have "iv_channel iv = k" using p(2) by simp
        ultimately show False using no unfolding invited_def invite_block_def by blast
      qed
    qed
    fix p assume "List.find ?P (u_invites us) = Some p"
    then have "p \<in> set (u_invites us)" "?P p" using find_SomeD by fastforce+
    then show "p \<in> set (chan_invites s k) \<and> (\<exists>iv. invites s p = Some iv \<and> iv_user iv = u)" by (rule hit)
  qed
qed

lemma revoked_relation:
  assumes wf: "invites_wf s" and p: "p \<in> set (chan_invites s k)" "invites s p = Some iv"
    and s': "invites s' = (invites s)(p := None)" "chan_invites s' = (chan_invites s)(k := removeAll p (chan_invites s k))"
  shows "invited s' = invited s - {(k, iv_user iv)}"
proof -
  have k: "iv_channel iv = k"
    using wf p unfolding invites_wf_def chan_invite_ok_def by (metis option.inject)
  have b: "invite_block s p iv" using p k by (simp add: invite_block_def)
  have blk: "invite_block s' q iw \<longleftrightarrow> invite_block s q iw \<and> q \<noteq> p" for q iw
    using s' by (auto simp: invite_block_def)
  have key: "q \<noteq> p \<longleftrightarrow> (iv_channel iw, iv_user iw) \<noteq> (k, iv_user iv)" if q: "invite_block s q iw" for q iw
  proof
    assume "q \<noteq> p"
    then show "(iv_channel iw, iv_user iw) \<noteq> (k, iv_user iv)"
      using wf b k q unfolding invites_wf_def invites_unique_def by (metis prod.inject)
  next
    assume "(iv_channel iw, iv_user iw) \<noteq> (k, iv_user iv)"
    then show "q \<noteq> p" using q p(2) k by (auto simp: invite_block_def)
  qed
  show ?thesis
  proof (rule set_eqI)
    show "x \<in> invited s' \<longleftrightarrow> x \<in> invited s - {(k, iv_user iv)}" for x
      unfolding invited_def blk mem_Collect_eq Diff_iff singleton_iff using key by metis
  qed
qed

lemma chan_run_correct:
  assumes wf: "state_wf shl s" and ok: "chan_permitted oper s"
  obtains s' where "chan_run shl oper s = Some s'" "state_wf shl s'" "chan_abs s' = chan_spec oper (chan_abs s)"
proof (cases oper)
  case (Create a name)
  then have a: "channels s a = None" using ok by simp
  obtain s' where s': "channel_new shl s a name = Some (s', a)" "state_wf shl s'"
    "a \<in> set (channel_entries s')" "removeAll a (channel_entries s') = channel_entries s"
    "members s' = members s" "invited s' = invited s"
    by (rule channel_new_spec[OF wf a], rule that)
  have "set (channel_list s') = insert a (set (channel_list s))"
    using channel_list_entries[OF wf] channel_list_entries[OF s'(2)] s'(3,4) by (metis insert_Diff set_removeAll)
  then show ?thesis using that s' Create by (simp add: chan_abs_def)
next
  case (Destroy k)
  then have k: "k \<in> set (channel_entries s)" using ok channel_list_entries[OF wf] by simp
  obtain s' where s': "channel_delete s k = Some s'" "state_wf shl s'"
    "channel_entries s' = removeAll k (channel_entries s)"
    "members s' = {m \<in> members s. fst m \<noteq> k}" "invited s' = {i \<in> invited s. fst i \<noteq> k}"
    by (rule channel_delete_spec[OF wf k], rule that)
  have "set (channel_list s') = set (channel_list s) - {k}"
    using channel_list_entries[OF wf] channel_list_entries[OF s'(2)] s'(3) by simp
  then have "chan_abs s' = chan_spec oper (chan_abs s)" using Destroy s'(4,5) by (simp add: chan_abs_def)
  then show ?thesis using that[OF _ s'(2)] Destroy s'(1) by simp
next
  case (Enter a k c)
  then obtain cl ch where c: "clients s c = Some cl" "client_is_user cl \<or> client_is_service cl"
    and k: "channels s k = Some ch" and a: "chanusers s a = None" using ok by auto
  obtain r where r: "chanuser_find s k c = Some r" "r = None \<longleftrightarrow> (k, c) \<notin> members s"
    using chanuser_find_correct[OF state_wfD(2)[OF wf] c, of k] by blast
  show ?thesis
  proof (cases r)
    case None
    then obtain s' where s': "chanuser_add s a k c = Some (s', Some a)" "state_wf shl s'"
      "members s' = insert (k, c) (members s)" "invited s' = invited s" "same_index s s'"
      using enter_wf[OF wf a c k] r(2) by metis
    show ?thesis
      by (rule that[of s']) (use Enter r None s' in \<open>auto simp: chan_abs_def same_index_def\<close>)
  next
    case (Some p)
    show ?thesis
      by (rule that[of s]) (use Enter r Some wf in \<open>auto simp: chan_abs_def\<close>)
  qed
next
  case (Leave k c)
  then obtain cl where c: "clients s c = Some cl" "client_is_user cl \<or> client_is_service cl" using ok by auto
  obtain r where r: "chanuser_find s k c = Some r" "r = None \<longleftrightarrow> (k, c) \<notin> members s"
    "\<And>p. r = Some p \<Longrightarrow> \<exists>cu. member_block s p cu \<and> cu_channel cu = k \<and> cu_client cu = c"
    using chanuser_find_correct[OF state_wfD(2)[OF wf] c, of k] by blast
  show ?thesis
  proof (cases r)
    case None
    show ?thesis
      by (rule that[of s]) (use Leave r None wf in \<open>auto simp: chan_abs_def\<close>)
  next
    case (Some p)
    then obtain cu where cu: "member_block s p cu" "cu_channel cu = k" "cu_client cu = c" using r(3) by blast
    obtain s' where s': "chanuser_delete s p = Some s'" "state_wf shl s'"
      "members s' = members s - {(cu_channel cu, cu_client cu)}" "invited s' = invited s" "same_rest s s'"
      using leave_wf[OF wf cu(1)] by blast
    show ?thesis
      by (rule that[of s']) (use Leave r Some s' cu in \<open>auto simp: chan_abs_def same_rest_def same_index_def\<close>)
  qed
next
  case (Invite a u k)
  then obtain us ch where p: "users s u = Some us" "channels s k = Some ch" "invites s a = None" using ok by auto
  obtain s' where s': "user_invite s a u k = Some s'" "state_wf shl s'" "members s' = members s"
    "invited s' = insert (k, u) (invited s)" "same_rest s s'"
    using invite_wf[OF wf p(3,1,2)] by blast
  show ?thesis
    by (rule that[of s']) (use Invite s' in \<open>auto simp: chan_abs_def same_rest_def same_index_def\<close>)
next
  case (Revoke u k)
  then obtain us where u: "users s u = Some us" using ok by auto
  obtain r where r: "find_invite s u k = Some r" "r = None \<longleftrightarrow> (k, u) \<notin> invited s"
    "\<And>p. r = Some p \<Longrightarrow> p \<in> set (chan_invites s k) \<and> (\<exists>iv. invites s p = Some iv \<and> iv_user iv = u)"
    using find_invite_correct[OF wf u, of k] by blast
  show ?thesis
  proof (cases r)
    case None
    show ?thesis
      by (rule that[of s]) (use Revoke r None wf in \<open>auto simp: chan_abs_def\<close>)
  next
    case (Some p)
    then obtain iv where p: "p \<in> set (chan_invites s k)" "invites s p = Some iv" "iv_user iv = u" using r(3) by blast
    obtain s' where s': "user_uninvite s p = Some s'" "state_wf shl s'" "members s' = members s"
      "invites s' = (invites s)(p := None)" "chan_invites s' = (chan_invites s)(k := removeAll p (chan_invites s k))"
      "same_rest s s'"
      by (rule revoke_wf[OF wf p(1)], rule that)
    show ?thesis
      by (rule that[of s'])
        (use Revoke r Some s' p revoked_relation[OF state_wfD(3)[OF wf] p(1,2) s'(4,5)] in
          \<open>auto simp: chan_abs_def same_rest_def same_index_def\<close>)
  qed
next
  case (Log a k c w t)
  then obtain ch cl where p: "channels s k = Some ch" "clients s c = Some cl" "logentries s a = None" using ok by auto
  obtain s' where s': "channel_backlog s a k c w t = Some s'" "state_wf shl s'" "members s' = members s"
    "invited s' = invited s" "same_index s s'"
    using backlog_add_wf[OF wf p(3,1,2)] by blast
  show ?thesis
    by (rule that[of s']) (use Log s' in \<open>auto simp: chan_abs_def same_index_def\<close>)
qed

lemma chan_runs_correct:
  "state_wf shl s \<Longrightarrow> chan_all_permitted shl os s \<Longrightarrow>
   \<exists>s'. chan_runs shl os s = Some s' \<and> state_wf shl s' \<and> chan_abs s' = fold chan_spec os (chan_abs s)"
proof (induction os arbitrary: s)
  case (Cons oper os)
  obtain t where t: "chan_run shl oper s = Some t" "state_wf shl t" "chan_abs t = chan_spec oper (chan_abs s)"
    using chan_run_correct[OF Cons.prems(1)] Cons.prems(2) by (metis chan_all_permitted.simps(2))
  then have "chan_all_permitted shl os t" using Cons.prems(2) by simp
  from Cons.IH[OF t(2) this] show ?case using t by auto
qed simp

section \<open>A state to start from\<close>

definition boot_state :: "(ptr \<rightharpoonup> client) \<Rightarrow> (ptr \<rightharpoonup> user) \<Rightarrow> 64 word \<Rightarrow> ircd" where
  "boot_state cs us now = \<lparr>clients = cs, users = us, chanusers = Map.empty, channels = Map.empty,
     invites = Map.empty, logentries = Map.empty, lclients = Map.empty, histories = Map.empty,
     client_list = [], client_listsn = replicate CLIENT_HASH_SIZE [], client_history = replicate CLIENT_HASH_SIZE [],
     user_lists = replicate USER_HASH_SIZE [], channel_list = [],
     channel_lists = replicate CHANNEL_HASH_SIZE [], channel_id = 0, channel_serial = 0,
     chanuser_serial = 0, client_serial = 0, client_me = 0, server_me = None, timer_systime = now,
     modes_table = [], sent = []\<rparr>"

lemma boot_wf:
  assumes "clients_ok (boot_state cs us now)" "\<forall>u v. us u = Some v \<longrightarrow> u_channels v = [] \<and> u_invites v = []"
  shows "state_wf shl (boot_state cs us now)"
proof -
  let ?s = "boot_state cs us now"
  have "channels_wf shl ?s" by (simp add: channels_wf_def boot_state_def hashed_table_empty)
  moreover have "members_wf ?s"
    using assms
    by (auto simp: members_wf_def channel_lists_ok_def user_lists_ok_def members_unique_def member_block_def boot_state_def)
  moreover have "invites_wf ?s"
    using assms(2)
    by (auto simp: invites_wf_def invites_unique_def invite_block_def chan_invites_def user_invites_def boot_state_def)
  moreover have "backlog_wf ?s" by (simp add: backlog_wf_def backlog_def boot_state_def)
  ultimately show ?thesis by (simp add: state_wf_def)
qed

definition a_client :: "client_location \<Rightarrow> ptr \<Rightarrow> string \<Rightarrow> client" where
  "a_client loc u name = \<lparr>c_id = 0, c_refcount = 1, c_hash = 0, c_type = CLIENT_USER, c_location = loc, c_lclient = None,
     c_source = None, c_origin = None, c_user = Some u, c_serial = 0, c_hops = 0, c_created = 0, c_lastmsg = 0, c_lastread = 0, c_ts = 0, c_name = name, c_host = ''host'',
     c_hostreal = ''host'', c_hostip = ''127.0.0.1'', c_info = ''Real Name''\<rparr>"

definition a_user :: "ptr \<Rightarrow> string \<Rightarrow> user" where
  "a_user c name = \<lparr>u_client = Some c, u_channels = [], u_invites = [], u_name = name, u_uid = ''AAAAAAAA'', u_uhash = 0\<rparr>"

definition two_clients :: ircd where
  "two_clients = boot_state [10 \<mapsto> a_client CLIENT_LOCAL 20 ''alice'', 11 \<mapsto> a_client CLIENT_REMOTE 21 ''bob'']
     [20 \<mapsto> a_user 10 ''al'', 21 \<mapsto> a_user 11 ''bo''] 1000"

lemma two_clients_wf: "state_wf shl two_clients"
  unfolding two_clients_def
proof (rule boot_wf)
  show "clients_ok (boot_state [10 \<mapsto> a_client CLIENT_LOCAL 20 ''alice'', 11 \<mapsto> a_client CLIENT_REMOTE 21 ''bob'']
     [20 \<mapsto> a_user 10 ''al'', 21 \<mapsto> a_user 11 ''bo''] 1000)"
    by (auto simp: clients_ok_def boot_state_def a_client_def user_of_def split: if_splits)
qed (auto simp: a_user_def split: if_splits)

text \<open>A channel with and without a member.\<close>

definition room :: ircd where
  "room = fst (the (channel_new (\<lambda>_. 0) two_clients 1 ''#a''))"

definition joined :: ircd where
  "joined = fst (the (chanuser_add room 2 1 10))"

lemma room_facts:
  "state_wf (\<lambda>_. 0) room" "chanusers room 2 = None" "members room = {}" "clients room = clients two_clients"
  "\<exists>ch. channels room 1 = Some ch \<and> ch_refcount ch = 1"
proof -
  have k: "channels two_clients 1 = None" by (simp add: two_clients_def boot_state_def)
  obtain s' where s': "channel_new (\<lambda>_. 0) two_clients 1 ''#a'' = Some (s', 1)" "state_wf (\<lambda>_. 0) s'"
    "members s' = members two_clients" "clients s' = clients two_clients" "map_option ch_refcount (channels s' 1) = Some 1"
    by (rule channel_new_spec[OF two_clients_wf k, of "\<lambda>_. 0" "''#a''"], rule that)
  have r: "room = s'" by (simp only: room_def s'(1) option.sel fst_conv)
  show "state_wf (\<lambda>_. 0) room" "clients room = clients two_clients" using s' r by auto
  show "\<exists>ch. channels room 1 = Some ch \<and> ch_refcount ch = 1" using s'(5) r by auto
  show "members room = {}"
    unfolding r s'(3) by (simp add: members_def member_block_def two_clients_def boot_state_def)
  show "chanusers room 2 = None"
    by (simp add: room_def channel_new_def channel_link_def Let_def two_clients_def boot_state_def)
qed

lemma alice: "clients two_clients 10 = Some (a_client CLIENT_LOCAL 20 ''alice'')" "client_is_user (a_client CLIENT_LOCAL 20 ''alice'')"
  by (simp_all add: two_clients_def boot_state_def a_client_def client_is_user_def)

lemma joined_facts:
  "state_wf (\<lambda>_. 0) joined" "members joined = {(1, 10)}" "\<exists>us. users joined 20 = Some us \<and> u_channels us \<noteq> []"
proof -
  obtain ch where ch: "channels room 1 = Some ch" using room_facts(5) by blast
  have c: "clients room 10 = Some (a_client CLIENT_LOCAL 20 ''alice'')" using room_facts(4) alice(1) by simp
  obtain s' cu where s': "chanuser_add room 2 1 10 = Some (s', Some 2)" "state_wf (\<lambda>_. 0) s'" "members s' = {(1, 10)}"
    "clients s' = (clients room)(10 \<mapsto> (a_client CLIENT_LOCAL 20 ''alice'')\<lparr>c_refcount := c_refcount (a_client CLIENT_LOCAL 20 ''alice'') + 1\<rparr>)"
    "member_block s' 2 cu" "cu_client cu = 10"
    using enter_wf[OF room_facts(1,2) c _ ch] alice(2) room_facts(3) by (metis empty_iff)
  have j: "joined = s'" by (simp only: joined_def s'(1) option.sel fst_conv)
  show "state_wf (\<lambda>_. 0) joined" "members joined = {(1, 10)}" using s' j by auto
  have "user_of s' 10 = Some 20" by (simp add: user_of_def s'(4) a_client_def)
  then show "\<exists>us. users joined 20 = Some us \<and> u_channels us \<noteq> []"
    using member_block_lists[OF state_wfD(2)[OF s'(2)] s'(5)] s'(6) j by (metis empty_iff empty_set option.inject)
qed

lemma joined_index: "channel_list joined = [1] \<and> channel_name joined 1 = ''#a''"
proof -
  have r: "channel_list room = [1]"
    by (simp add: room_def channel_new_def channel_link_def Let_def two_clients_def boot_state_def)
  have "channel_name room 1 = field (IRCD_CHANNELLEN + 1) ''#a''"
    by (simp add: room_def channel_new_def channel_link_def Let_def two_clients_def boot_state_def channel_name_def)
  then have n: "channel_name room 1 = ''#a''" by (simp add: field_def IRCD_CHANNELLEN_def)
  obtain ch where ch: "channels room 1 = Some ch" using room_facts(5) by blast
  have c: "clients room 10 = Some (a_client CLIENT_LOCAL 20 ''alice'')" using room_facts(4) alice(1) by simp
  obtain s' where s': "chanuser_add room 2 1 10 = Some (s', Some 2)" "same_index room s'"
    using enter_wf[OF room_facts(1,2) c _ ch] alice(2) room_facts(3) by (metis empty_iff)
  have "joined = s'" by (simp only: joined_def s'(1) option.sel fst_conv)
  then show ?thesis using s'(2) r n same_index_key(1)[OF s'(2)] by (simp add: same_index_def)
qed

section \<open>The properties\<close>

text \<open>C2. Every sequence of permitted operations on a well-formed state returns (no dereference
  of a freed block, no unlinking of a node that is not linked), keeps the state well formed, and
  implements the operations on the set of channels, the relation of channels and members and the
  relation of channels and invited users: creating and destroying a channel (which takes its
  members and invitations along), entering, leaving, inviting and revoking are insertions and
  removals, and logging a message changes none of them.\<close>

theorem channels_refine_relations:
  assumes "state_wf shl s" "chan_all_permitted shl os s"
  shows "\<exists>s'. chan_runs shl os s = Some s' \<and> state_wf shl s' \<and> chan_abs s' = fold chan_spec os (chan_abs s)"
  by (rule chan_runs_correct[OF assms])

theorem channels_refine_witness:
  "\<exists>s'. chan_runs (\<lambda>_. 0) [Create 1 ''#a'', Enter 2 1 10, Invite 3 21 1] two_clients = Some s' \<and>
    state_wf (\<lambda>_. 0) s' \<and> chan_abs s' = ({1}, {(1, 10)}, {(1, 21)})"
proof -
  have p: "chan_all_permitted (\<lambda>_. 0) [Create 1 ''#a'', Enter 2 1 10, Invite 3 21 1] two_clients"
    by (simp add: two_clients_def boot_state_def channel_new_def channel_link_def Let_def chanuser_find_def
      a_client_def a_user_def client_is_user_def chanuser_add_def chanuser_new_def channel_pop_def client_pop_def
      client_is_local_def user_of_def split: option.split)
  have abs: "chan_abs two_clients = ({}, {}, {})"
    by (auto simp: chan_abs_def two_clients_def boot_state_def members_def member_block_def invited_def invite_block_def)
  show ?thesis
    using channels_refine_relations[OF two_clients_wf p] unfolding abs by simp
qed

text \<open>C19. Creating a channel in a well-formed directory: the names that differ from the stored
  name are looked up as before, and a stored name that was free finds the new channel, in any
  case. The name is stored cut to 128 characters: a longer name does not find the channel that was
  created for it, so that the next join of the same name creates another one.\<close>

theorem channel_new_lookup:
  assumes "state_wf shl s" "channels s k = None"
  shows "\<exists>s'. channel_new shl s k name = Some (s', k) \<and> state_wf shl s' \<and>
    (\<forall>n. \<not> same_name (field 129 name) n \<longrightarrow> channel_find_name shl s' n = channel_find_name shl s n) \<and>
    (channel_find_name shl s (field 129 name) = Some None \<longrightarrow>
      (\<forall>n. same_name (field 129 name) n \<longrightarrow> channel_find_name shl s' n = Some (Some k))) \<and>
    (128 < length (cstr name) \<longrightarrow> channel_find_name shl s' name = channel_find_name shl s name)"
proof -
  let ?n = "field 129 name"
  obtain s' where s': "channel_new shl s k name = Some (s', k)" "state_wf shl s'"
    "k \<in> set (channel_entries s')" "removeAll k (channel_entries s') = channel_entries s"
    "channel_name s' k = field (IRCD_CHANNELLEN + 1) name" "\<And>j. j \<noteq> k \<Longrightarrow> channel_name s' j = channel_name s j"
    by (rule channel_new_spec[OF assms, of name], rule that)
  have len: "field (IRCD_CHANNELLEN + 1) name = ?n" by (simp add: IRCD_CHANNELLEN_def)
  note w = state_wfD(1)[OF assms(1)] state_wfD(1)[OF s'(2)]
  have names: "List.find (\<lambda>p. same_name (channel_name s' p) n) (channel_entries s) =
    List.find (\<lambda>p. same_name (channel_name s p) n) (channel_entries s)" for n
    by (rule find_cong') (metis fresh_channel(1)[OF assms] s'(6))
  have other: "channel_find_name shl s' n = channel_find_name shl s n" if "\<not> same_name ?n n" for n
    unfolding channel_find_law[OF w(1)] channel_find_law[OF w(2)]
    using find_removeAll[of "\<lambda>p. same_name (channel_name s' p) n" k "channel_entries s'"] that names s'(4,5) len by simp
  have hit: "channel_find_name shl s' n = Some (Some k)"
    if free: "channel_find_name shl s ?n = Some None" and n: "same_name ?n n" for n
  proof -
    have none: "\<not> same_name (channel_name s q) n" if "q \<in> set (channel_entries s)" for q
      using free that n same_name_trans2[of _ n ?n] unfolding channel_find_law[OF w(1)] by (auto simp: find_None)
    have "q = k" if "q \<in> set (channel_entries s')" "same_name (channel_name s' q) n" for q
      using none[of q] that s'(4,6) by (metis DiffI empty_iff insert_iff set_removeAll)
    moreover have "same_name (channel_name s' k) n" unfolding s'(5) len by (rule n)
    ultimately have "List.find (\<lambda>p. same_name (channel_name s' p) n) (channel_entries s') = Some k"
      using s'(3) by (intro find_only)
    then show ?thesis unfolding channel_find_law[OF w(2)] by simp
  qed
  have "channel_find_name shl s' name = channel_find_name shl s name" if "128 < length (cstr name)"
    using other[of name] that same_name_field[of 129 name] by simp
  then show ?thesis using s'(1,2) other hit by blast
qed

theorem channel_new_witness:
  "\<exists>s'. channel_new (\<lambda>_. 0) two_clients 1 ''#C'' = Some (s', 1) \<and>
    channel_find_name (\<lambda>_. 0) s' ''#c'' = Some (Some 1)"
proof -
  have n: "channels two_clients 1 = None" by (simp add: two_clients_def boot_state_def)
  have f: "channel_find_name (\<lambda>_. 0) two_clients n = Some None" for n
    by (simp add: channel_find_law[OF state_wfD(1)[OF two_clients_wf]])
      (simp add: two_clients_def boot_state_def)
  have sn: "same_name (field 129 ''#C'') ''#c''" by (simp add: field_def same_name_def) code_simp
  show ?thesis
    using channel_new_lookup[OF two_clients_wf n, of "\<lambda>_. 0" "''#C''"] f sn by blast
qed

text \<open>C20. Deleting a channel whose name is unique in the directory: it returns, the block is
  freed, the name finds nothing any more and every other name what it found before; nobody is on
  the channel or invited to it, and all other memberships and invitations stay.\<close>

theorem channel_delete_correct:
  assumes "state_wf shl s" "k \<in> set (channel_list s)"
    "\<forall>j \<in> set (channel_list s). same_name (channel_name s j) (channel_name s k) \<longrightarrow> j = k"
  shows "\<exists>s'. channel_delete s k = Some s' \<and> state_wf shl s' \<and> channels s' k = None \<and>
    (\<forall>n. channel_find_name shl s' n = (if same_name (channel_name s k) n then Some None else channel_find_name shl s n)) \<and>
    members s' = {m \<in> members s. fst m \<noteq> k} \<and> invited s' = {i \<in> invited s. fst i \<noteq> k}"
proof -
  have k: "k \<in> set (channel_entries s)" using assms(1,2) channel_list_entries by blast
  obtain s' where s': "channel_delete s k = Some s'" "state_wf shl s'"
    "channel_entries s' = removeAll k (channel_entries s)" "channels s' k = None"
    "members s' = {m \<in> members s. fst m \<noteq> k}" "invited s' = {i \<in> invited s. fst i \<noteq> k}"
    "\<And>j. j \<noteq> k \<Longrightarrow> channel_key s' j = channel_key s j" "clients s' = clients s"
    by (rule channel_delete_spec[OF assms(1) k], rule that)
  note w = state_wfD(1)[OF assms(1)] state_wfD(1)[OF s'(2)]
  have names: "channel_name s' q = channel_name s q" if "q \<noteq> k" for q
    using s'(7)[OF that] by (simp add: channel_key_cases)
  have new: "channel_find_name shl s' n =
    Some (List.find (\<lambda>q. same_name (channel_name s q) n) (removeAll k (channel_entries s)))" for n
    unfolding channel_find_law[OF w(2)] s'(3) option.inject by (rule find_cong') (simp add: names)
  have "channel_find_name shl s' n = (if same_name (channel_name s k) n then Some None else channel_find_name shl s n)" for n
  proof (cases "same_name (channel_name s k) n")
    case True
    have "\<not> same_name (channel_name s q) n" if "q \<in> set (channel_entries s)" "q \<noteq> k" for q
      using assms(1,3) that True same_name_trans2 channel_list_entries by metis
    then show ?thesis using True by (auto simp: new find_None)
  next
    case False
    then show ?thesis
      unfolding new channel_find_law[OF w(1)]
      using find_removeAll[of "\<lambda>q. same_name (channel_name s q) n" k "channel_entries s"] by simp
  qed
  then show ?thesis using s' by blast
qed

theorem channel_delete_witness:
  "\<exists>s'. channel_delete joined 1 = Some s' \<and> members s' = {} \<and> channel_find_name (\<lambda>_. 0) s' ''#A'' = Some None"
proof -
  have l: "channel_list joined = [1]" "channel_name joined 1 = ''#a''"
    using joined_index by auto
  have "same_name (channel_name joined 1) ''#A''" unfolding l by (simp add: same_name_def) code_simp
  then show ?thesis
    using channel_delete_correct[OF joined_facts(1), of 1] l joined_facts(2) by auto
qed

text \<open>Entering a channel takes a reference to the channel and one to the client, and leaving
  it gives none back: after both, the memberships are what they were, and the two counts are one
  higher.\<close>

theorem membership_leaks_references:
  assumes "state_wf shl s" "chanusers s a = None" "channels s k = Some ch" "clients s c = Some cl"
    "client_is_user cl" "(k, c) \<notin> members s"
  shows "\<exists>s1 s2. chanuser_add s a k c = Some (s1, Some a) \<and> chanuser_delete s1 a = Some s2 \<and>
    state_wf shl s2 \<and> members s2 = members s \<and>
    map_option ch_refcount (channels s2 k) = Some (ch_refcount ch + 1) \<and>
    map_option c_refcount (clients s2 c) = Some (c_refcount cl + 1)"
proof -
  obtain s1 cu where s1: "chanuser_add s a k c = Some (s1, Some a)" "state_wf shl s1"
    "members s1 = insert (k, c) (members s)"
    "clients s1 = (clients s)(c \<mapsto> cl\<lparr>c_refcount := c_refcount cl + 1\<rparr>)"
    "map_option ch_refcount (channels s1 k) = Some (ch_refcount ch + 1)"
    "member_block s1 a cu" "cu_channel cu = k" "cu_client cu = c"
    using enter_wf[OF assms(1,2,4) _ assms(3,6)] assms(5) by metis
  obtain s2 where s2: "chanuser_delete s1 a = Some s2" "state_wf shl s2"
    "members s2 = members s1 - {(k, c)}" "same_rest s1 s2"
    using leave_wf[OF s1(2,6)] s1(7,8) by metis
  have "map_option ch_refcount (channels s2 k) = map_option ch_refcount (channels s1 k)"
    using s2(4) by (cases "channels s1 k"; cases "channels s2 k")
      (auto simp: same_rest_def other_fields_def fun_eq_iff dest!: spec[of _ k])
  then show ?thesis
    using s1 s2 assms(6) by (auto simp: same_rest_def)
qed

theorem membership_leaks_witness:
  "\<exists>s1 s2. chanuser_add room 2 1 10 = Some (s1, Some 2) \<and> chanuser_delete s1 2 = Some s2 \<and>
    map_option c_refcount (clients room 10) = Some 1 \<and> map_option c_refcount (clients s2 10) = Some 2"
proof -
  obtain ch where ch: "channels room 1 = Some ch" using room_facts(5) by blast
  have c: "clients room 10 = Some (a_client CLIENT_LOCAL 20 ''alice'')" using room_facts(4) alice(1) by simp
  have no: "(1, 10) \<notin> members room" using room_facts(3) by simp
  show ?thesis
    using membership_leaks_references[OF room_facts(1,2) ch c alice(2) no] c by (auto simp: a_client_def)
qed

text \<open>C26. A user that quits, or is behind a server that splits, while on at least one channel: the
  loop deletes the first block and then reads the channel out of the freed block. The state is
  any well-formed one.\<close>

theorem quit_reads_freed_block:
  assumes "state_wf shl s" "users s u = Some us" "u_channels us \<noteq> []"
  shows "quit_channels s u = None \<and> split_channels s u = None"
proof -
  obtain p ps where ps: "u_channels us = p # ps" using assms(3) by (cases "u_channels us") auto
  then have "owned s u p" using user_listsD(2)[OF members_wfD(2)[OF state_wfD(2)[OF assms(1)]] assms(2)] by simp
  then obtain cu where cu: "member_block s p cu" unfolding owned_def by blast
  obtain s' where s': "chanuser_delete s p = Some s'" "unlinked_after s p cu s'"
    using chanuser_delete_spec[OF state_wfD(2)[OF assms(1)] cu] by metis
  then have "chanusers s' p = None" by (auto simp: unlinked_after_def)
  then show ?thesis
    using s'(1) ps assms(2) by (simp add: quit_channels_def split_channels_def quit_channel_def split_channel_def)
qed

theorem quit_reads_freed_witness: "quit_channels joined 20 = None"
  using quit_reads_freed_block[OF joined_facts(1)] joined_facts(3) by blast

end
