(* ===== verification/Chanmask.thy ===== *)
theory Chanmask
  imports State Glob "HOL-Library.Multiset"
begin

text \<open>
  Masks of the list modes (bans, exceptions, invitation exceptions, automatic modes): the
  normalisation of a ban to \<open>nick!user@host\<close>, the list of masks of a channel with the place
  where a new one goes, and the tests of a client against a list, after src/chanmode.c.
\<close>

unbundle bit_operations_syntax

section \<open>Normalising a ban\<close>

text \<open>\<open>strchr\<close> as an offset, and the string cut at the first occurrence.\<close>

fun strchr_at :: "string \<Rightarrow> char \<Rightarrow> nat option" where
  "strchr_at [] c = None"
| "strchr_at (x # s) c = (if x = c then Some 0 else map_option Suc (strchr_at s c))"

definition cut_at :: "char \<Rightarrow> string \<Rightarrow> string" where
  "cut_at c s = (case strchr_at s c of None \<Rightarrow> s | Some i \<Rightarrow> take i s)"

text \<open>\<open>sep2 < sep1\<close> on pointers into one string, where \<open>NULL\<close> is below all.\<close>

fun ptr_less :: "nat option \<Rightarrow> nat option \<Rightarrow> bool" where
  "ptr_less _ None \<longleftrightarrow> False"
| "ptr_less None (Some j) \<longleftrightarrow> True"
| "ptr_less (Some i) (Some j) \<longleftrightarrow> i < j"

text \<open>An array of \<open>n\<close> bytes that holds \<open>"*"\<close> unless the part is there.\<close>

definition part_field :: "nat \<Rightarrow> string \<Rightarrow> string" where
  "part_field n s = (if s \<noteq> [] then field n s else ''*'')"

definition split_mask :: "string \<Rightarrow> string \<times> string \<times> string" where
  "split_mask arg = (
     let sep1 = strchr_at arg (CHR ''!''); sep2 = strchr_at arg (CHR ''@'');
       (arg, sep1) = (if ptr_less sep2 sep1 then (take (the sep1) arg, None) else (arg, sep1))
     in case (sep1, sep2) of
       (None, None) \<Rightarrow> (part_field 33 arg, ''*'', ''*'')
     | (None, Some j) \<Rightarrow> (''*'', part_field 17 (take j arg), part_field 65 (drop (j + 1) arg))
     | (Some i, None) \<Rightarrow>
         (part_field 33 (take i arg), part_field 17 (drop (i + 1) arg), ''*'')
     | (Some i, Some j) \<Rightarrow>
         (part_field 33 (take i arg), part_field 17 (cut_at (CHR ''!'') (take (j - (i + 1)) (drop (i + 1) arg))),
          part_field 65 (cut_at (CHR ''!'') (cut_at (CHR ''@'') (drop (j + 1) arg)))))"

text \<open>The three loops that cut a part before its first character that is not allowed.\<close>

fun clean_loop :: "(char \<Rightarrow> bool) \<Rightarrow> string \<Rightarrow> string \<Rightarrow> string" where
  "clean_loop ok pre [] = pre"
| "clean_loop ok pre (c # s) =
     (if \<not> ok c \<and> \<not> chars_iskwildchar c then (if pre = [] then ''*'' else pre)
      else clean_loop ok (pre @ [c]) s)"

definition ban_parts :: "string \<Rightarrow> string \<times> string \<times> string" where
  "ban_parts arg = (let (nick, user, host) = split_mask (cstr arg) in
     (clean_loop chars_isnickchar [] nick, clean_loop chars_isuserchar [] user, clean_loop chars_ishostchar [] host))"

definition ban_format :: "format_table \<Rightarrow> string \<times> string \<times> string \<Rightarrow> string option" where
  "ban_format tab = (\<lambda>(nick, user, host). map_option (\<lambda>(b, n). cstr b)
     (str_snprintf tab (replicate 115 NUL) 115 ''%s!%s@%s'' [ArgStr (Some nick), ArgStr (Some user), ArgStr (Some host)]))"

definition nick_mask_char :: "char \<Rightarrow> bool" where
  "nick_mask_char c \<longleftrightarrow> chars_isnickchar c \<or> chars_iskwildchar c"

definition user_mask_char :: "char \<Rightarrow> bool" where
  "user_mask_char c \<longleftrightarrow> chars_isuserchar c \<or> chars_iskwildchar c"

definition host_mask_char :: "char \<Rightarrow> bool" where
  "host_mask_char c \<longleftrightarrow> chars_ishostchar c \<or> chars_iskwildchar c"

lemma mask_chars:
  "nick_mask_char c \<Longrightarrow> c \<noteq> NUL" "user_mask_char c \<Longrightarrow> c \<noteq> NUL" "host_mask_char c \<Longrightarrow> c \<noteq> NUL"
  "nick_mask_char (CHR ''*'')" "user_mask_char (CHR ''*'')" "host_mask_char (CHR ''*'')"
proof -
  have "\<not> nick_mask_char NUL" "\<not> user_mask_char NUL" "\<not> host_mask_char NUL" by code_simp+
  then show "nick_mask_char c \<Longrightarrow> c \<noteq> NUL" "user_mask_char c \<Longrightarrow> c \<noteq> NUL" "host_mask_char c \<Longrightarrow> c \<noteq> NUL"
    by auto
  show "nick_mask_char (CHR ''*'')" "user_mask_char (CHR ''*'')" "host_mask_char (CHR ''*'')"
    by code_simp+
qed

lemma clean_loop_takeWhile:
  "clean_loop ok pre s = (let t = pre @ takeWhile (\<lambda>c. ok c \<or> chars_iskwildchar c) s in
     if t = [] \<and> s \<noteq> [] then ''*'' else t)"
  by (induction ok pre s rule: clean_loop.induct) (auto simp: Let_def)

lemma clean_loop_all:
  "(\<forall>c \<in> set s. ok c \<or> chars_iskwildchar c) \<Longrightarrow> clean_loop ok [] s = s"
  by (simp add: clean_loop_takeWhile takeWhile_eq_all_conv[THEN iffD2])

lemma clean_loop_result:
  assumes "s \<noteq> []"
  shows "clean_loop ok [] s \<noteq> []" "c \<in> set (clean_loop ok [] s) \<Longrightarrow> ok c \<or> c = CHR ''*'' \<or> chars_iskwildchar c"
    "length (clean_loop ok [] s) \<le> length s" "set (clean_loop ok [] s) \<subseteq> insert (CHR ''*'') (set s)"
proof -
  let ?t = "takeWhile (\<lambda>c. ok c \<or> chars_iskwildchar c) s"
  have c: "clean_loop ok [] s = (if ?t = [] then ''*'' else ?t)"
    using assms by (simp add: clean_loop_takeWhile Let_def)
  show "clean_loop ok [] s \<noteq> []" by (simp add: c)
  show "c \<in> set (clean_loop ok [] s) \<Longrightarrow> ok c \<or> c = CHR ''*'' \<or> chars_iskwildchar c"
    unfolding c by (auto dest: set_takeWhileD split: if_splits)
  show "length (clean_loop ok [] s) \<le> length s"
    unfolding c using length_takeWhile_le[of "\<lambda>c. ok c \<or> chars_iskwildchar c" s] assms
    by (simp add: Suc_le_eq)
  show "set (clean_loop ok [] s) \<subseteq> insert (CHR ''*'') (set s)"
    unfolding c by (auto dest: set_takeWhileD)
qed

text \<open>A part: not empty, fits the array of \<open>n\<close> bytes, and made of \<open>"*"\<close> and
  characters of \<open>s\<close>.\<close>

lemma part_field_result:
  assumes "no_nul s" "1 < n"
  shows "part_field n s \<noteq> []" "length (part_field n s) \<le> n - 1" "set (part_field n s) \<subseteq> insert (CHR ''*'') (set s)"
  using assms length_field[of n s] by (auto simp: part_field_def field_def dest: in_set_takeD)

lemma strchr_at_append: "c \<notin> set s \<Longrightarrow> strchr_at (s @ c # t) c = Some (length s)"
  by (induction s) auto

lemma strchr_at_None: "strchr_at s c = None \<longleftrightarrow> c \<notin> set s"
  by (induction s) auto

lemma strchr_at_Some: "strchr_at s c = Some i \<Longrightarrow> c \<notin> set (take i s) \<and> i < length s"
  by (induction s arbitrary: i) (auto split: if_splits)

lemma cut_at_id: "c \<notin> set s \<Longrightarrow> cut_at c s = s"
  using strchr_at_None[of s c] by (simp add: cut_at_def)

lemma cut_at_result: "c \<notin> set (cut_at c s)" "set (cut_at c s) \<subseteq> set s"
  using strchr_at_None[of s c] strchr_at_Some[of s c]
  by (auto simp: cut_at_def dest: in_set_takeD split: option.split)

lemma no_nul_cut_at [simp]: "no_nul s \<Longrightarrow> no_nul (cut_at c s)"
  using cut_at_result(2)[of c s] by (auto simp: no_nul_def)

lemma no_nul_drop [simp]: "no_nul s \<Longrightarrow> no_nul (drop n s)"
  by (auto simp: no_nul_def dest: in_set_dropD)

text \<open>The result of the splitting. The separators stay out of the parts, except that the host
  of a mask without a nick keeps a second \<open>'@'\<close>.\<close>

definition part_ok :: "nat \<Rightarrow> char set \<Rightarrow> string \<Rightarrow> bool" where
  "part_ok n bad s \<longleftrightarrow> s \<noteq> [] \<and> length s \<le> n \<and> set s \<inter> bad = {}"

lemma part_field_ok:
  "no_nul s \<Longrightarrow> 0 < n \<Longrightarrow> CHR ''*'' \<notin> bad \<Longrightarrow> set s \<inter> bad = {} \<Longrightarrow> part_ok n bad (part_field (Suc n) s)"
  using part_field_result[of s "Suc n"] by (auto simp: part_ok_def)

lemma part_star: "0 < n \<Longrightarrow> CHR ''*'' \<notin> bad \<Longrightarrow> part_ok n bad ''*''"
  by (simp add: part_ok_def)

lemma split_mask_cases:
  "strchr_at a (CHR ''!'') = None \<Longrightarrow> strchr_at a (CHR ''@'') = None \<Longrightarrow>
     split_mask a = (part_field 33 a, ''*'', ''*'')"
  "strchr_at a (CHR ''!'') = None \<Longrightarrow> strchr_at a (CHR ''@'') = Some j \<Longrightarrow>
     split_mask a = (''*'', part_field 17 (take j a), part_field 65 (drop (j + 1) a))"
  "strchr_at a (CHR ''!'') = Some i \<Longrightarrow> strchr_at a (CHR ''@'') = None \<Longrightarrow>
     split_mask a = (part_field 33 (take i a), ''*'', ''*'')"
  "strchr_at a (CHR ''!'') = Some i \<Longrightarrow> strchr_at a (CHR ''@'') = Some j \<Longrightarrow> j < i \<Longrightarrow>
     split_mask a = (''*'', part_field 17 (take j (take i a)), part_field 65 (drop (j + 1) (take i a)))"
  "strchr_at a (CHR ''!'') = Some i \<Longrightarrow> strchr_at a (CHR ''@'') = Some j \<Longrightarrow> \<not> j < i \<Longrightarrow>
     split_mask a = (part_field 33 (take i a),
       part_field 17 (cut_at (CHR ''!'') (take (j - (i + 1)) (drop (i + 1) a))),
       part_field 65 (cut_at (CHR ''!'') (cut_at (CHR ''@'') (drop (j + 1) a))))"
  by (simp_all add: split_mask_def Let_def)

lemma split_mask_result:
  assumes arg: "no_nul a" and s: "split_mask a = (n, u, h)"
  shows "part_ok 32 {CHR ''!'', CHR ''@''} n \<and> part_ok 16 {CHR ''!'', CHR ''@''} u \<and> part_ok 64 {CHR ''!''} h"
proof -
  let ?B = "{CHR ''!'', CHR ''@''}"
  have n: "part_ok 32 ?B (part_field 33 s)" if "no_nul s" "set s \<inter> ?B = {}" for s
    using part_field_ok[of s 32 ?B] that by simp
  have u: "part_ok 16 ?B (part_field 17 s)" if "no_nul s" "set s \<inter> ?B = {}" for s
    using part_field_ok[of s 16 ?B] that by simp
  have h: "part_ok 64 {CHR ''!''} (part_field 65 s)" if "no_nul s" "CHR ''!'' \<notin> set s" for s
    using part_field_ok[of s 64 "{CHR ''!''}"] that by simp
  have st: "part_ok 32 ?B ''*''" "part_ok 16 ?B ''*''" "part_ok 64 {CHR ''!''} ''*''"
    by (simp_all add: part_ok_def)
  note nn = no_nul_take[OF arg]
  show ?thesis
  proof (cases "strchr_at a (CHR ''!'')")
    case None
    then have no: "CHR ''!'' \<notin> set a" by (simp add: strchr_at_None)
    show ?thesis
    proof (cases "strchr_at a (CHR ''@'')")
      case None2: None
      then show ?thesis
        using s split_mask_cases(1)[OF None None2] n[of a] arg no st by (auto simp: strchr_at_None)
    next
      case (Some j)
      then have "CHR ''@'' \<notin> set (take j a)" by (simp add: strchr_at_Some)
      moreover have "CHR ''!'' \<notin> set (take j a)" "CHR ''!'' \<notin> set (drop (j + 1) a)"
        using no by (auto dest: in_set_takeD in_set_dropD)
      ultimately show ?thesis
        using s split_mask_cases(2)[OF None Some] u[of "take j a"] h[of "drop (j + 1) a"] arg nn st by auto
    qed
  next
    case (Some i)
    then have no: "CHR ''!'' \<notin> set (take i a)" by (simp add: strchr_at_Some)
    show ?thesis
    proof (cases "strchr_at a (CHR ''@'')")
      case None
      then have "CHR ''@'' \<notin> set (take i a)" by (auto simp: strchr_at_None dest: in_set_takeD)
      then show ?thesis
        using s split_mask_cases(3)[OF Some None] n[of "take i a"] nn no st by auto
    next
      case Some2: (Some j)
      then have at: "CHR ''@'' \<notin> set (take j a)" by (simp add: strchr_at_Some)
      show ?thesis
      proof (cases "j < i")
        case True
        have "CHR ''@'' \<notin> set (take j (take i a))" using at True by (simp add: min_def)
        moreover have "CHR ''!'' \<notin> set (take j (take i a))" "CHR ''!'' \<notin> set (drop (j + 1) (take i a))"
          using no by (meson in_set_takeD in_set_dropD)+
        moreover have "no_nul (take j (take i a))" "no_nul (drop (j + 1) (take i a))"
          using nn no_nul_take no_nul_drop by blast+
        ultimately show ?thesis
          using s split_mask_cases(4)[OF Some Some2 True] u[of "take j (take i a)"] h[of "drop (j + 1) (take i a)"] st
          by auto
      next
        case False
        let ?m = "take (j - (i + 1)) (drop (i + 1) a)"
        have ij: "set (take i a) \<subseteq> set (take j a)" using False by (intro set_take_subset_set_take) simp
        have m: "CHR ''@'' \<notin> set ?m"
        proof (cases "i = j")
          case False2: False
          then have "?m = drop (i + 1) (take j a)" using False by (simp add: take_drop)
          then show ?thesis using at by (metis in_set_dropD)
        qed simp
        let ?h = "cut_at (CHR ''!'') (cut_at (CHR ''@'') (drop (j + 1) a))"
        have nm: "no_nul (cut_at (CHR ''!'') ?m)" "no_nul ?h"
          using arg no_nul_take[OF no_nul_drop[OF arg]] by simp_all
        have sm: "set (cut_at (CHR ''!'') ?m) \<inter> ?B = {}"
          using m cut_at_result[of "CHR ''!''" ?m] by blast
        have si: "set (take i a) \<inter> ?B = {}" using no at ij by blast
        show ?thesis
          using s split_mask_cases(5)[OF Some Some2 False] n[OF nn si] u[OF nm(1) sm]
            h[OF nm(2) cut_at_result(1)] by simp
      qed
    qed
  qed
qed

text \<open>What a normalised ban is.\<close>

definition ban_normal :: "string \<Rightarrow> string \<Rightarrow> string \<Rightarrow> bool" where
  "ban_normal n u h \<longleftrightarrow> part_ok 32 {CHR ''!'', CHR ''@''} n \<and> part_ok 16 {CHR ''!'', CHR ''@''} u \<and>
     part_ok 64 {CHR ''!''} h \<and>
     (\<forall>c \<in> set n. nick_mask_char c) \<and> (\<forall>c \<in> set u. user_mask_char c) \<and> (\<forall>c \<in> set h. host_mask_char c)"

lemma clean_loop_ok:
  assumes "part_ok k bad s" "CHR ''*'' \<notin> bad" "0 < k"
  shows "part_ok k bad (clean_loop ok [] s)"
proof -
  have "s \<noteq> []" using assms(1) by (simp add: part_ok_def)
  note r = clean_loop_result[OF this]
  have "set (clean_loop ok [] s) \<inter> bad = {}" using r(4)[of ok] assms unfolding part_ok_def by blast
  then show ?thesis using r(1)[of ok] r(3)[of ok] assms(1) by (simp add: part_ok_def)
qed

lemma clean_loop_chars:
  assumes "part_ok k bad s" "c \<in> set (clean_loop ok [] s)"
  shows "ok c \<or> c = CHR ''*'' \<or> chars_iskwildchar c"
  using clean_loop_result(2)[OF _ assms(2)] assms(1) by (simp add: part_ok_def)

lemma ban_parts_normal:
  assumes "ban_parts arg = (n, u, h)"
  shows "ban_normal n u h"
proof -
  obtain n0 u0 h0 where s: "split_mask (cstr arg) = (n0, u0, h0)" by (metis prod_cases3)
  then have p: "n = clean_loop chars_isnickchar [] n0" "u = clean_loop chars_isuserchar [] u0"
    "h = clean_loop chars_ishostchar [] h0" using assms by (simp_all add: ban_parts_def)
  have r: "part_ok 32 {CHR ''!'', CHR ''@''} n0" "part_ok 16 {CHR ''!'', CHR ''@''} u0" "part_ok 64 {CHR ''!''} h0"
    using split_mask_result[OF _ s] by simp_all
  have "\<forall>c \<in> set n. nick_mask_char c" "\<forall>c \<in> set u. user_mask_char c" "\<forall>c \<in> set h. host_mask_char c"
    unfolding p using clean_loop_chars[OF r(1)] clean_loop_chars[OF r(2)] clean_loop_chars[OF r(3)] mask_chars(4-6)
    unfolding nick_mask_char_def user_mask_char_def host_mask_char_def by metis+
  then show ?thesis
    unfolding ban_normal_def using clean_loop_ok[OF r(1)] clean_loop_ok[OF r(2)] clean_loop_ok[OF r(3)] p by simp
qed

lemma ban_normal_no_nul: "ban_normal n u h \<Longrightarrow> no_nul n \<and> no_nul u \<and> no_nul h"
  using mask_chars(1-3) unfolding ban_normal_def no_nul_def by blast

definition ban_text :: "string \<Rightarrow> string \<Rightarrow> string \<Rightarrow> string" where
  "ban_text n u h = n @ CHR ''!'' # u @ CHR ''@'' # h"

lemma ban_parts_fixed:
  assumes b: "ban_normal n u h" and at: "CHR ''@'' \<notin> set h"
  shows "ban_parts (ban_text n u h) = (n, u, h)"
proof -
  let ?a = "ban_text n u h"
  note nn = ban_normal_no_nul[OF b]
  have ch: "CHR ''!'' \<notin> set n" "CHR ''@'' \<notin> set n" "CHR ''!'' \<notin> set u" "CHR ''@'' \<notin> set u" "CHR ''!'' \<notin> set h"
    and len: "n \<noteq> []" "u \<noteq> []" "h \<noteq> []" "length n \<le> 32" "length u \<le> 16" "length h \<le> 64"
    using b by (auto simp: ban_normal_def part_ok_def)
  have sep1: "strchr_at ?a (CHR ''!'') = Some (length n)"
    unfolding ban_text_def using ch by (intro strchr_at_append)
  have sep2: "strchr_at ?a (CHR ''@'') = Some (length n + 1 + length u)"
    using strchr_at_append[of "CHR ''@''" "n @ CHR ''!'' # u" h] ch by (simp add: ban_text_def)
  have s: "split_mask ?a = (n, u, h)"
    using split_mask_cases(5)[OF sep1 sep2] nn ch at len
    by (simp add: ban_text_def part_field_def field_id cut_at_id)
  have "cstr ?a = ?a" using nn by (simp add: ban_text_def)
  then show ?thesis
    using b s clean_loop_all[of n chars_isnickchar] clean_loop_all[of u chars_isuserchar]
      clean_loop_all[of h chars_ishostchar]
    by (simp add: ban_parts_def ban_normal_def nick_mask_char_def user_mask_char_def host_mask_char_def)
qed

lemma ban_format_text:
  assumes b: "ban_normal n u h"
  shows "ban_format tab (n, u, h) = Some (ban_text n u h)"
proof -
  note nn = ban_normal_no_nul[OF b]
  have len: "length n \<le> 32" "length u \<le> 16" "length h \<le> 64"
    using b by (auto simp: ban_normal_def part_ok_def)
  let ?qs = "[PStr False False 0 (Some n), PLit (CHR ''!''), PStr False False 0 (Some u), PLit (CHR ''@''),
    PStr False False 0 (Some h)]"
  have t: "ban_text n u h = take (115 - 1) (concat (map meaning ?qs))"
    using nn len by (simp add: ban_text_def aligned_def)
  have "str_snprintf tab (replicate 115 NUL) 115 ''%s!%s@%s'' [ArgStr (Some n), ArgStr (Some u), ArgStr (Some h)] =
    Some (ban_text n u h @ NUL # drop (Suc (length (ban_text n u h))) (replicate 115 NUL), length (ban_text n u h))"
    by (rule snprintf_text[of _ ?qs, OF _ _ _ _ _ t]) (simp_all add: flags_def)
  moreover have "no_nul (ban_text n u h)" using nn by (simp add: ban_text_def)
  ultimately show ?thesis by (simp add: ban_format_def)
qed

text \<open>C25. Normalising a ban: the result is always \<open>nick!user@host\<close> with parts that are
  not empty, fit their arrays and hold only characters allowed there or wildcards; neither
  separator is in the nick or the user. The text is written without being cut, and unless the host
  kept an \<open>'@'\<close>, normalising it again changes nothing, so that the servers it is sent to store
  the same mask.\<close>

theorem ban_normalised:
  assumes "ban_parts arg = (n, u, h)"
  shows "ban_normal n u h \<and> ban_format tab (n, u, h) = Some (ban_text n u h) \<and>
    (CHR ''@'' \<notin> set h \<longrightarrow> ban_parts (ban_text n u h) = (n, u, h))"
  using ban_parts_normal[OF assms] ban_format_text ban_parts_fixed by blast

theorem ban_normalised_witness:
  "ban_parts ''bob!b*@*.example.org'' = (''bob'', ''b*'', ''*.example.org'') \<and>
   ban_parts (ban_text ''bob'' ''b*'' ''*.example.org'') = (''bob'', ''b*'', ''*.example.org'')"
proof -
  have p: "ban_parts ''bob!b*@*.example.org'' = (''bob'', ''b*'', ''*.example.org'')" by code_simp
  show ?thesis using ban_normalised[OF p] p by simp
qed

text \<open>Two masks that the normalisation does not treat as meant. Without an \<open>'@'\<close> the comparison
  of the separators takes the missing one for the smaller, and the user is dropped. Without a nick
  the routine looks for a second \<open>'@'\<close> in the user instead of the host: the host keeps it, and
  another server that normalises the text it is sent stores a different mask.\<close>

theorem ban_normalisation_misreads:
  "ban_parts ''bob!ident'' = (''bob'', ''*'', ''*'') \<and>
   ban_parts ''a@b@c'' = (''*'', ''a'', ''b@c'') \<and>
   ban_parts (ban_text ''*'' ''a'' ''b@c'') = (''*'', ''a'', ''b'')"
  by code_simp

section \<open>The list of masks\<close>

text \<open>\<open>str_match\<close> as a truth value; reading before an empty mask is \<open>None\<close>.\<close>

definition matches :: "string \<Rightarrow> string \<Rightarrow> bool option" where
  "matches s m = map_option (\<lambda>v. v \<noteq> 0) (str_match (Some s) (Some m))"

lemma matches_total: "no_nul s \<Longrightarrow> no_nul m \<Longrightarrow> m \<noteq> [] \<Longrightarrow> matches s m \<noteq> None"
  using str_match_total by (simp add: matches_def)

lemma matches_glob: "no_nul s \<Longrightarrow> no_nul m \<Longrightarrow> m \<noteq> [] \<Longrightarrow> matches s m = Some True \<Longrightarrow> glob_exact m s"
  using str_match_result by (auto simp: matches_def)

lemma matches_exact:
  "no_nul s \<Longrightarrow> no_nul m \<Longrightarrow> m \<noteq> [] \<Longrightarrow> Suc (length s) * Suc (length m) \<le> MATCH_MAX_CALLS \<Longrightarrow>
   matches s m = Some (glob_exact m s)"
  using exact.loop_exact[of s m] by (simp add: matches_def str_match_def)

text \<open>A new item goes behind the last of the first run of items with its hash.\<close>

fun mask_place :: "chanmodeitem list \<Rightarrow> chanmodeitem \<Rightarrow> chanmodeitem list" where
  "mask_place [] x = [x]"
| "mask_place (y # ys) x =
     (if i_ihash y = i_ihash x \<and> (case ys of [] \<Rightarrow> True | z # _ \<Rightarrow> i_ihash z \<noteq> i_ihash x)
      then y # x # ys else y # mask_place ys x)"

lemma mask_place_mset: "mset (mask_place ys x) = add_mset x (mset ys)"
  by (induction ys x rule: mask_place.induct) auto

lemma set_mask_place [simp]: "set (mask_place ys x) = insert x (set ys)"
  using mask_place_mset[of ys x] by (metis set_mset_add_mset_insert set_mset_mset)

lemma length_mask_place [simp]: "length (mask_place ys x) = Suc (length ys)"
  using mask_place_mset[of ys x] by (metis size_add_mset size_mset)

section \<open>Testing a client\<close>

text \<open>\<open>chanmode_match_ban\<close>, \<open>chanmode_match_amode\<close> and \<open>chanmode_match_deny\<close>; \<open>u\<close> is the user
  block of the client, if it has one.\<close>

fun match_ban :: "client \<Rightarrow> user option \<Rightarrow> chanmodeitem list \<Rightarrow> bool option" where
  "match_ban c u [] = Some False"
| "match_ban c u (x # xs) = do {
     b \<leftarrow> matches (c_name c) (i_nmask x);
     if \<not> b then match_ban c u xs
     else do {
       b \<leftarrow> (case u of None \<Rightarrow> Some True | Some u \<Rightarrow> matches (u_name u) (i_umask x));
       if \<not> b then match_ban c u xs
       else do {
         b1 \<leftarrow> matches (c_host c) (i_hmask x);
         if b1 then Some True
         else do {
           b2 \<leftarrow> matches (c_hostreal c) (i_hmask x);
           if b2 then Some True
           else do {
             b3 \<leftarrow> matches (c_hostip c) (i_hmask x);
             if b3 then Some True else match_ban c u xs } } } } }"

fun match_amode :: "client \<Rightarrow> user option \<Rightarrow> chanmodeitem list \<Rightarrow> bool option" where
  "match_amode c u [] = Some False"
| "match_amode c u (x # xs) = do {
     b \<leftarrow> matches (c_name c) (i_nmask x);
     if \<not> b then match_amode c u xs
     else do {
       b \<leftarrow> (case u of None \<Rightarrow> Some True | Some u \<Rightarrow> matches (u_name u) (i_umask x));
       if \<not> b then match_amode c u xs
       else do {
         b2 \<leftarrow> matches (c_hostreal c) (i_hmask x);
         if b2 then Some True
         else do {
           b3 \<leftarrow> matches (c_hostip c) (i_hmask x);
           if b3 then Some True else match_amode c u xs } } } }"

fun match_deny :: "client \<Rightarrow> chanmodeitem list \<Rightarrow> bool option" where
  "match_deny c [] = Some False"
| "match_deny c (x # xs) = do {
     b \<leftarrow> matches (c_info c) (i_mask x);
     if b then Some True else match_deny c xs }"

text \<open>What it means that a mask covers a client.\<close>

definition covers :: "chanmodeitem \<Rightarrow> client \<Rightarrow> user option \<Rightarrow> bool" where
  "covers x c u \<longleftrightarrow> glob_exact (i_nmask x) (c_name c) \<and>
     (case u of None \<Rightarrow> True | Some u \<Rightarrow> glob_exact (i_umask x) (u_name u)) \<and>
     (\<exists>h \<in> {c_host c, c_hostreal c, c_hostip c}. glob_exact (i_hmask x) h)"

definition client_texts :: "client \<Rightarrow> user option \<Rightarrow> string set" where
  "client_texts c u = {c_name c, c_host c, c_hostreal c, c_hostip c} \<union> (case u of None \<Rightarrow> {} | Some u \<Rightarrow> {u_name u})"

definition item_texts :: "chanmodeitem \<Rightarrow> string set" where
  "item_texts x = {i_nmask x, i_umask x, i_hmask x}"

lemma match_ban_item:
  assumes c: "\<forall>s \<in> client_texts c u. no_nul s" and x: "\<forall>m \<in> item_texts x. no_nul m \<and> m \<noteq> []"
  obtains "match_ban c u (x # xs) = Some True" "covers x c u"
  | "match_ban c u (x # xs) = match_ban c u xs"
    "(\<forall>s \<in> client_texts c u. \<forall>m \<in> item_texts x. Suc (length s) * Suc (length m) \<le> MATCH_MAX_CALLS) \<longrightarrow> \<not> covers x c u"
proof -
  have t: "\<exists>b. matches s m = Some b \<and> (b \<longrightarrow> glob_exact m s) \<and>
    (Suc (length s) * Suc (length m) \<le> MATCH_MAX_CALLS \<longrightarrow> b = glob_exact m s)"
    if "s \<in> client_texts c u" "m \<in> item_texts x" for s m
    using that c x matches_total[of s m] matches_glob[of s m] matches_exact[of s m] by (cases "matches s m") auto
  have "\<exists>b1. matches (c_name c) (i_nmask x) = Some b1 \<and> (b1 \<longrightarrow> glob_exact (i_nmask x) (c_name c)) \<and>
    (Suc (length (c_name c)) * Suc (length (i_nmask x)) \<le> MATCH_MAX_CALLS \<longrightarrow> b1 = glob_exact (i_nmask x) (c_name c))"
    by (rule t) (simp_all add: client_texts_def item_texts_def)
  then obtain b1 where b1: "matches (c_name c) (i_nmask x) = Some b1" "b1 \<longrightarrow> glob_exact (i_nmask x) (c_name c)"
    "Suc (length (c_name c)) * Suc (length (i_nmask x)) \<le> MATCH_MAX_CALLS \<longrightarrow> b1 = glob_exact (i_nmask x) (c_name c)"
    by blast
  define bu where "bu = (case u of None \<Rightarrow> True | Some u \<Rightarrow> the (matches (u_name u) (i_umask x)))"
  have bu: "(case u of None \<Rightarrow> Some True | Some u \<Rightarrow> matches (u_name u) (i_umask x)) = Some bu"
    "bu \<longrightarrow> (case u of None \<Rightarrow> True | Some u \<Rightarrow> glob_exact (i_umask x) (u_name u))"
    "(\<forall>s \<in> client_texts c u. \<forall>m \<in> item_texts x. Suc (length s) * Suc (length m) \<le> MATCH_MAX_CALLS) \<longrightarrow>
      bu = (case u of None \<Rightarrow> True | Some u \<Rightarrow> glob_exact (i_umask x) (u_name u))"
    using t[of _ "i_umask x"] by (cases u; force simp: bu_def client_texts_def item_texts_def)+
  define h where "h s = the (matches s (i_hmask x))" for s
  have h: "matches s (i_hmask x) = Some (h s)" "h s \<longrightarrow> glob_exact (i_hmask x) s"
    "Suc (length s) * Suc (length (i_hmask x)) \<le> MATCH_MAX_CALLS \<longrightarrow> h s = glob_exact (i_hmask x) s"
    if "s \<in> {c_host c, c_hostreal c, c_hostip c}" for s
    using t[of s "i_hmask x"] that by (auto simp: h_def client_texts_def item_texts_def)
  have step: "match_ban c u (x # xs) =
    (if b1 \<and> bu \<and> (h (c_host c) \<or> h (c_hostreal c) \<or> h (c_hostip c)) then Some True else match_ban c u xs)"
    using b1(1) bu(1) h(1) by simp
  show ?thesis
  proof (cases "b1 \<and> bu \<and> (h (c_host c) \<or> h (c_hostreal c) \<or> h (c_hostip c))")
    case True
    then have "covers x c u" using b1(2) bu(2) h(2) unfolding covers_def by auto
    then show ?thesis using that(1) step True by simp
  next
    case False
    have "\<not> covers x c u"
      if "\<forall>s \<in> client_texts c u. \<forall>m \<in> item_texts x. Suc (length s) * Suc (length m) \<le> MATCH_MAX_CALLS"
    proof -
      have "b1 = glob_exact (i_nmask x) (c_name c)"
        using b1(3) that by (simp add: client_texts_def item_texts_def)
      moreover have "h s = glob_exact (i_hmask x) s" if "s \<in> {c_host c, c_hostreal c, c_hostip c}" for s
        using h(3)[OF that] that \<open>\<forall>s \<in> client_texts c u. \<forall>m \<in> item_texts x. Suc (length s) * Suc (length m) \<le> MATCH_MAX_CALLS\<close>
        by (auto simp: client_texts_def item_texts_def)
      ultimately show ?thesis using False bu(3) that unfolding covers_def by auto
    qed
    then show ?thesis using that(2) step False by simp
  qed
qed

text \<open>C24. A client is banned by a list of masks only if one of them covers its name, user and one of
  its three host texts; and it is banned whenever one of them covers it, provided that the lengths
  stay under the call limit of the matcher. The test always returns.\<close>

theorem match_ban_covers:
  assumes "\<forall>s \<in> client_texts c u. no_nul s" "\<forall>x \<in> set xs. \<forall>m \<in> item_texts x. no_nul m \<and> m \<noteq> []"
  shows "\<exists>b. match_ban c u xs = Some b \<and> (b \<longrightarrow> (\<exists>x \<in> set xs. covers x c u)) \<and>
    ((\<forall>x \<in> set xs. \<forall>s \<in> client_texts c u. \<forall>m \<in> item_texts x. Suc (length s) * Suc (length m) \<le> MATCH_MAX_CALLS) \<longrightarrow>
      b = (\<exists>x \<in> set xs. covers x c u))"
  using assms
proof (induction xs)
  case (Cons x xs)
  from Cons.IH Cons.prems obtain b where b: "match_ban c u xs = Some b" "b \<longrightarrow> (\<exists>x \<in> set xs. covers x c u)"
    "(\<forall>x \<in> set xs. \<forall>s \<in> client_texts c u. \<forall>m \<in> item_texts x. Suc (length s) * Suc (length m) \<le> MATCH_MAX_CALLS) \<longrightarrow>
      b = (\<exists>x \<in> set xs. covers x c u)" by auto
  have x: "\<forall>m \<in> item_texts x. no_nul m \<and> m \<noteq> []" using Cons.prems(2) by simp
  from match_ban_item[OF Cons.prems(1) x, of xs] show ?case
  proof cases
    case 1
    then show ?thesis by auto
  next
    case 2
    then show ?thesis using b by auto
  qed
qed (rule exI[of _ False], simp)

theorem match_ban_covers_witness:
  "match_ban (\<lparr>c_id = 0, c_refcount = 1, c_hash = 0, c_type = CLIENT_USER, c_location = CLIENT_LOCAL, c_lclient = None, c_source = None, c_origin = None,
      c_user = None, c_serial = 0, c_hops = 0, c_created = 0, c_lastmsg = 0, c_lastread = 0, c_ts = 0, c_name = ''bob'', c_host = ''x.example.org'',
      c_hostreal = ''x.example.org'', c_hostip = ''10.0.0.1'', c_info = []\<rparr>) None
    [\<lparr>i_mask = ''b*!*@10.0.*'', i_nmask = ''b*'', i_umask = ''*'', i_hmask = ''10.0.*'', i_info = [], i_ts = 0, i_ihash = 0\<rparr>]
   \<noteq> None"
proof -
  let ?c = "\<lparr>c_id = 0, c_refcount = 1, c_hash = 0, c_type = CLIENT_USER, c_location = CLIENT_LOCAL, c_lclient = None, c_source = None, c_origin = None,
      c_user = None, c_serial = 0, c_hops = 0, c_created = 0, c_lastmsg = 0, c_lastread = 0, c_ts = 0, c_name = ''bob'', c_host = ''x.example.org'',
      c_hostreal = ''x.example.org'', c_hostip = ''10.0.0.1'', c_info = []\<rparr> :: client"
  let ?x = "\<lparr>i_mask = ''b*!*@10.0.*'', i_nmask = ''b*'', i_umask = ''*'', i_hmask = ''10.0.*'', i_info = [], i_ts = 0, i_ihash = 0\<rparr> :: chanmodeitem"
  show ?thesis
    using match_ban_covers[of ?c None "[?x]"] by (auto simp: client_texts_def item_texts_def)
qed

end
