(* ===== verification/Chanchange.thy ===== *)
theory Chanchange
  imports Chandir Chanmask
begin

text \<open>
  Channel mode changes (src/chanmode.c, chanuser_mode_bounce of src/chanuser.c and the callbacks
  of modules/chanmode): a line of changes is a list of blocks, and applying it runs the callback of
  every change on the channel, which may refuse the change, or insert further changes in front of
  it. The changes that were not refused are what is sent to the members and the other servers.
\<close>

unbundle bit_operations_syntax

section \<open>Changes\<close>

datatype what = CHANMODE_ADD | CHANMODE_DEL | CHANMODE_QUERY

text \<open>\<open>struct chanmodechange\<close>.\<close>

record chanmodechange =
  g_mode :: chanmode
  g_what :: what
  g_acptr :: "ptr option"
  g_target :: "ptr option"
  g_bounced :: nat
  g_ts :: "64 word"
  g_nmask :: "string option"
  g_umask :: "string option"
  g_hmask :: "string option"
  g_ihash :: "64 word"
  g_info :: string
  g_arg :: string

definition PREFIX_SIZE :: nat where "PREFIX_SIZE = IRCD_PREFIXLEN + 1"

definition change_zero :: "chanmode \<Rightarrow> what \<Rightarrow> chanmodechange" where
  "change_zero m what = \<lparr>g_mode = m, g_what = what, g_acptr = None, g_target = None, g_bounced = 0, g_ts = 0,
     g_nmask = None, g_umask = None, g_hmask = None, g_ihash = 0, g_info = [], g_arg = []\<rparr>"

text \<open>The result is the list and the change, if the letter is a registered mode; an access outside
  the table is \<open>None\<close>.\<close>

definition chanmode_change_add ::
  "ircd \<Rightarrow> chanmodechange list \<Rightarrow> what \<Rightarrow> char \<Rightarrow> string option \<Rightarrow> ptr option \<Rightarrow>
   (chanmodechange list \<times> chanmodechange option) option" where
  "chanmode_change_add s list what letter arg acuptr = do {
     m \<leftarrow> rd (modes_table s) (chanmode_index letter);
     if m_type m = 0 then Some (list, None)
     else do {
       ac \<leftarrow> (case acuptr of None \<Rightarrow> Some None | Some p \<Rightarrow> do { cu \<leftarrow> chanusers s p; Some (Some (cu_client cu)) });
       let c = (change_zero m what)\<lparr>g_acptr := ac, g_target := acuptr,
         g_arg := (case arg of None \<Rightarrow> [] | Some a \<Rightarrow> field PREFIX_SIZE a)\<rparr>;
       Some (list @ [c], Some c) } }"

text \<open>\<open>chanmode_change_insert\<close>: \<open>pre\<close> is the list in front of the change the caller is at. The
  field \<open>ihash\<close> of the new block is not set and not read.\<close>

definition chanmode_change_insert ::
  "ircd \<Rightarrow> chanmodechange list \<Rightarrow> what \<Rightarrow> char \<Rightarrow> string option \<Rightarrow> chanmodechange list option" where
  "chanmode_change_insert s pre what letter arg = do {
     m \<leftarrow> rd (modes_table s) (chanmode_index letter);
     if m_type m = 0 then Some pre
     else Some (pre @ [(change_zero m what)\<lparr>g_arg := (case arg of None \<Rightarrow> [] | Some a \<Rightarrow> field PREFIX_SIZE a)\<rparr>]) }"

section \<open>The callbacks\<close>

text \<open>A callback returns the state, the changes in front of its own, its own change and the code:
  0 for done, 1 for bounced, -2 for a full list.\<close>

type_synonym bounced = "(ircd \<times> chanmodechange list \<times> chanmodechange \<times> int) option"

definition chanmode_bounce_simple :: "ircd \<Rightarrow> ptr \<Rightarrow> chanmodechange list \<Rightarrow> chanmodechange \<Rightarrow> bounced" where
  "chanmode_bounce_simple s k pre c = do {
     ch \<leftarrow> channels s k;
     let f = m_flag (g_mode c);
     (case g_what c of
       CHANMODE_DEL \<Rightarrow>
         if ch_modes ch AND f = 0 then Some (s, pre, c, 1)
         else Some (put_channel k (ch\<lparr>ch_modes := ch_modes ch AND NOT f\<rparr>) s, pre, c, 0)
     | CHANMODE_ADD \<Rightarrow>
         if ch_modes ch AND f \<noteq> 0 then Some (s, pre, c, 1)
         else Some (put_channel k (ch\<lparr>ch_modes := ch_modes ch OR f\<rparr>) s, pre, c, 0)
     | CHANMODE_QUERY \<Rightarrow> Some (s, pre, c, 0)) }"

text \<open>The array \<open>prefix\<close> has 65 bytes; what it held before is overwritten up to the terminator.\<close>

definition chanuser_mode_set :: "ircd \<Rightarrow> ptr \<Rightarrow> 64 word \<Rightarrow> ircd option" where
  "chanuser_mode_set s p fl = do {
     cu \<leftarrow> chanusers s p;
     pfx \<leftarrow> chanmode_prefix_make (modes_table s) (replicate 65 NUL) fl;
     Some (put_chanuser p (cu\<lparr>cu_flags := fl, cu_prefix := cstr pfx\<rparr>) s) }"

definition chanuser_mode_bounce :: "ircd \<Rightarrow> chanmodechange list \<Rightarrow> chanmodechange \<Rightarrow> bounced" where
  "chanuser_mode_bounce s pre c = (let f = m_flag (g_mode c) in
     case g_what c of
       CHANMODE_DEL \<Rightarrow> do {
         p \<leftarrow> g_target c;
         cu \<leftarrow> chanusers s p;
         if cu_flags cu AND f = 0 then Some (s, pre, c, 1)
         else do { s \<leftarrow> chanuser_mode_set s p (cu_flags cu AND NOT f); Some (s, pre, c, 0) } }
     | CHANMODE_ADD \<Rightarrow> do {
         p \<leftarrow> g_target c;
         cu \<leftarrow> chanusers s p;
         if cu_flags cu AND f \<noteq> 0 then Some (s, pre, c, 1)
         else do { s \<leftarrow> chanuser_mode_set s p (cu_flags cu OR f); Some (s, pre, c, 0) } }
     | CHANMODE_QUERY \<Rightarrow> Some (s, pre, c, 0))"

text \<open>\<open>chanmode_mask_add\<close>: the list and the code. \<open>ft\<close> are the registered conversions of the
  formatter, which the format does not use.\<close>

definition mask_item ::
  "format_table \<Rightarrow> (64 word \<Rightarrow> 64 word) \<Rightarrow> ircd \<Rightarrow> ptr \<Rightarrow> chanmodechange \<Rightarrow> chanmodeitem option" where
  "mask_item ft shl s cptr c = do {
     cl \<leftarrow> clients s cptr;
     (info, ts) \<leftarrow> (case c_user cl of
       Some u \<Rightarrow> do {
         us \<leftarrow> users s u;
         (b, _) \<leftarrow> str_snprintf ft (replicate PREFIX_SIZE NUL) PREFIX_SIZE ''%s!%s@%s''
           [ArgStr (Some (c_name cl)), ArgStr (Some (u_name us)), ArgStr (Some (c_host cl))];
         Some (cstr b, timer_systime s) }
     | None \<Rightarrow> if cur (g_info c) \<noteq> NUL then Some (field PREFIX_SIZE (g_info c), g_ts c)
         else Some (field PREFIX_SIZE (c_name cl), timer_systime s));
     Some \<lparr>i_mask = field PREFIX_SIZE (g_arg c),
       i_nmask = (case g_nmask c of Some m \<Rightarrow> field (IRCD_NICKLEN + 1) m | None \<Rightarrow> []),
       i_umask = (case g_umask c of Some m \<Rightarrow> field (IRCD_USERLEN + 1) m | None \<Rightarrow> []),
       i_hmask = (case g_hmask c of Some m \<Rightarrow> field (IRCD_HOSTLEN + 1) m | None \<Rightarrow> []),
       i_info = info, i_ts = ts, i_ihash = str_hash shl (Some info)\<rparr> }"

definition chanmode_mask_add ::
  "format_table \<Rightarrow> (64 word \<Rightarrow> 64 word) \<Rightarrow> ircd \<Rightarrow> ptr \<Rightarrow> chanmodeitem list \<Rightarrow> chanmodechange \<Rightarrow>
   (chanmodeitem list \<times> int) option" where
  "chanmode_mask_add ft shl s cptr xs c =
     (if length xs = IRCD_MAXBANS then Some (xs, - 2)
      else do { x \<leftarrow> mask_item ft shl s cptr c; Some (mask_place xs x, 0) })"

text \<open>The loops over the list of masks: \<open>kept\<close> are the items passed that stay in the list. The
  first also tells whether the new mask is covered by an item.\<close>

fun add_sweep :: "ircd \<Rightarrow> chanmodechange \<Rightarrow> chanmodechange list \<Rightarrow> chanmodeitem list \<Rightarrow> chanmodeitem list \<Rightarrow>
    (chanmodechange list \<times> chanmodeitem list \<times> bool) option" where
  "add_sweep s c pre kept [] = Some (pre, kept, False)"
| "add_sweep s c pre kept (x # xs) = do {
     covered \<leftarrow> matches (g_arg c) (i_mask x);
     if covered then Some (pre, kept @ x # xs, True)
     else do {
       covers \<leftarrow> matches (i_mask x) (g_arg c);
       if covers then do {
         pre \<leftarrow> chanmode_change_insert s pre CHANMODE_DEL (m_letter (g_mode c)) (Some (i_mask x));
         add_sweep s c pre kept xs }
       else add_sweep s c pre (kept @ [x]) xs } }"

fun del_sweep :: "ircd \<Rightarrow> chanmodechange \<Rightarrow> chanmodechange list \<Rightarrow> chanmodeitem list \<Rightarrow> chanmodeitem list \<Rightarrow>
    (chanmodechange list \<times> chanmodeitem list) option" where
  "del_sweep s c pre kept [] = Some (pre, kept)"
| "del_sweep s c pre kept (x # xs) = do {
     covered \<leftarrow> matches (g_arg c) (i_mask x);
     hit \<leftarrow> (if covered then Some True else matches (i_mask x) (g_arg c));
     if hit then do {
       pre \<leftarrow> chanmode_change_insert s pre CHANMODE_DEL (m_letter (g_mode c)) (Some (i_mask x));
       del_sweep s c pre kept xs }
     else del_sweep s c pre (kept @ [x]) xs }"

definition chanmode_bounce_mask ::
  "format_table \<Rightarrow> (64 word \<Rightarrow> 64 word) \<Rightarrow> ircd \<Rightarrow> ptr \<Rightarrow> ptr \<Rightarrow> chanmodechange list \<Rightarrow> chanmodechange \<Rightarrow> bounced" where
  "chanmode_bounce_mask ft shl s cptr k pre c = do {
     ch \<leftarrow> channels s k;
     let i = chanmode_index (m_letter (g_mode c));
     (case g_what c of
       CHANMODE_ADD \<Rightarrow> do {
         xs \<leftarrow> rd (ch_modelists ch) i;
         (pre, xs, covered) \<leftarrow> add_sweep s c pre [] xs;
         (xs, rc) \<leftarrow> (if covered then Some (xs, 1) else chanmode_mask_add ft shl s cptr xs c);
         Some (put_channel k (ch\<lparr>ch_modelists := (ch_modelists ch)[i := xs]\<rparr>) s, pre, c, rc) }
     | CHANMODE_DEL \<Rightarrow> do {
         xs \<leftarrow> rd (ch_modelists ch) i;
         (pre, xs) \<leftarrow> del_sweep s c pre [] xs;
         Some (put_channel k (ch\<lparr>ch_modelists := (ch_modelists ch)[i := xs]\<rparr>) s, pre, c, 1) }
     | CHANMODE_QUERY \<Rightarrow> Some (s, pre, c, 0)) }"

definition chanmode_bounce_ban ::
  "format_table \<Rightarrow> (64 word \<Rightarrow> 64 word) \<Rightarrow> ircd \<Rightarrow> ptr \<Rightarrow> ptr \<Rightarrow> chanmodechange list \<Rightarrow> chanmodechange \<Rightarrow> bounced" where
  "chanmode_bounce_ban ft shl s cptr k pre c = do {
     c \<leftarrow> (if g_what c = CHANMODE_ADD then do {
         let (nick, user, host) = ban_parts (g_arg c);
         arg \<leftarrow> ban_format ft (nick, user, host);
         Some (c\<lparr>g_arg := arg, g_nmask := Some nick, g_umask := Some user, g_hmask := Some host\<rparr>) }
       else Some c);
     chanmode_bounce_mask ft shl s cptr k pre c }"

text \<open>The modules' callbacks: the key is kept in 24 characters, the limit is read by
  \<open>str_toul\<close>.\<close>

definition cm_key_bounce :: "ircd \<Rightarrow> ptr \<Rightarrow> chanmodechange list \<Rightarrow> chanmodechange \<Rightarrow> bounced" where
  "cm_key_bounce s k pre c = do {
     ch \<leftarrow> channels s k;
     let f = m_flag (g_mode c);
     (case g_what c of
       CHANMODE_DEL \<Rightarrow>
         if ch_modes ch AND f = 0 then Some (s, pre, c, 1)
         else chanmode_bounce_simple (put_channel k (ch\<lparr>ch_key := []\<rparr>) s) k pre c
     | CHANMODE_ADD \<Rightarrow>
         if cur (g_arg c) = NUL then Some (s, pre, c, 1)
         else do {
           let c = c\<lparr>g_arg := field (IRCD_KEYLEN + 1) (g_arg c)\<rparr>;
           let ch = (if ch_modes ch AND f \<noteq> 0 \<and> str_cmp (ch_key ch) (g_arg c) = 0
             then ch\<lparr>ch_modes := ch_modes ch AND NOT f\<rparr> else ch);
           chanmode_bounce_simple (put_channel k (ch\<lparr>ch_key := field (IRCD_KEYLEN + 1) (g_arg c)\<rparr>) s) k pre c }
     | CHANMODE_QUERY \<Rightarrow> chanmode_bounce_simple s k pre c) }"

definition cm_limit_bounce :: "ircd \<Rightarrow> ptr \<Rightarrow> chanmodechange list \<Rightarrow> chanmodechange \<Rightarrow> bounced" where
  "cm_limit_bounce s k pre c = do {
     ch \<leftarrow> channels s k;
     let f = m_flag (g_mode c);
     (case g_what c of
       CHANMODE_DEL \<Rightarrow>
         if ch_modes ch AND f = 0 then Some (s, pre, c, 1)
         else chanmode_bounce_simple (put_channel k (ch\<lparr>ch_limit := - 1\<rparr>) s) k pre c
     | CHANMODE_ADD \<Rightarrow>
         let limit = conv_val (str_toul (g_arg c) 0 False 10)
         in if limit = - 1 \<or> limit = 0 then Some (s, pre, c, 1)
            else let ch = (if ch_modes ch AND f \<noteq> 0 \<and> ch_limit ch \<noteq> limit
                   then ch\<lparr>ch_modes := ch_modes ch AND NOT f\<rparr> else ch)
              in chanmode_bounce_simple (put_channel k (ch\<lparr>ch_limit := limit\<rparr>) s) k pre c
     | CHANMODE_QUERY \<Rightarrow> chanmode_bounce_simple s k pre c) }"

definition cm_invite_clean :: "ircd \<Rightarrow> ptr \<Rightarrow> ircd option" where
  "cm_invite_clean s k = do { ch \<leftarrow> channels s k; for_each user_uninvite s (ch_invites ch) }"

definition cm_invite_bounce :: "ircd \<Rightarrow> ptr \<Rightarrow> chanmodechange list \<Rightarrow> chanmodechange \<Rightarrow> bounced" where
  "cm_invite_bounce s k pre c = do {
     ch \<leftarrow> channels s k;
     if g_what c = CHANMODE_DEL then
       if ch_modes ch AND m_flag (g_mode c) = 0 then Some (s, pre, c, 1)
       else do { s \<leftarrow> cm_invite_clean s k; chanmode_bounce_simple s k pre c }
     else chanmode_bounce_simple s k pre c }"

definition run_cb ::
  "format_table \<Rightarrow> (64 word \<Rightarrow> 64 word) \<Rightarrow> ircd \<Rightarrow> ptr \<Rightarrow> ptr \<Rightarrow> chanmodechange list \<Rightarrow> chanmodechange \<Rightarrow> bounced" where
  "run_cb ft shl s cptr k pre c = (case m_cb (g_mode c) of
     Bounce_simple \<Rightarrow> chanmode_bounce_simple s k pre c
   | Bounce_ban \<Rightarrow> chanmode_bounce_ban ft shl s cptr k pre c
   | Bounce_mask \<Rightarrow> chanmode_bounce_mask ft shl s cptr k pre c
   | Chanuser_bounce \<Rightarrow> chanuser_mode_bounce s pre c
   | Key_bounce \<Rightarrow> cm_key_bounce s k pre c
   | Limit_bounce \<Rightarrow> cm_limit_bounce s k pre c
   | Invite_bounce \<Rightarrow> cm_invite_bounce s k pre c
   | Alarm_bounce \<Rightarrow> chanmode_bounce_simple s k pre c)"

section \<open>Applying a list of changes\<close>

text \<open>\<open>chanmode_list\<close>: the numerics of a list mode start at its \<open>order\<close>.\<close>

definition chanmode_list :: "ircd \<Rightarrow> ptr \<Rightarrow> ptr \<Rightarrow> char \<Rightarrow> ircd option" where
  "chanmode_list s cptr k letter = do {
     m \<leftarrow> rd (modes_table s) (chanmode_index letter);
     ch \<leftarrow> channels s k;
     xs \<leftarrow> rd (ch_modelists ch) (chanmode_index letter);
     let n = unat (m_order m);
     Some (send (Numeric cptr (n + 1) [Str (ch_name ch)])
       (fold (\<lambda>x. send (Numeric cptr n [Str (ch_name ch), Str (i_mask x), Str (i_info x), Num (unat (i_ts x))])) xs s)) }"

text \<open>A local user whose flags lack what the mode needs.\<close>

definition lacks_privilege :: "ircd \<Rightarrow> ptr \<Rightarrow> ptr option \<Rightarrow> chanmodechange \<Rightarrow> bool option" where
  "lacks_privilege s cptr cuptr c = (case cuptr of None \<Rightarrow> Some False | Some p \<Rightarrow> do {
     cu \<leftarrow> chanusers s p;
     cl \<leftarrow> clients s cptr;
     Some (g_what c \<noteq> CHANMODE_QUERY \<and> cu_flags cu AND m_need (g_mode c) = 0 \<and>
       client_is_user cl \<and> client_is_local cl) })"

abbreviation bounce :: "chanmodechange \<Rightarrow> chanmodechange" where
  "bounce c \<equiv> c\<lparr>g_bounced := g_bounced c + 1\<rparr>"

definition tell_local_user :: "ircd \<Rightarrow> ptr \<Rightarrow> outmsg \<Rightarrow> ircd option" where
  "tell_local_user s cptr x = do {
     cl \<leftarrow> clients s cptr;
     Some (if client_is_user cl \<and> client_is_local cl then send x s else s) }"

text \<open>The loop: \<open>pre\<close> are the changes passed, \<open>denied\<close> and \<open>full\<close> whether the errors were
  sent, and \<open>n\<close> counts the changes that got through.\<close>

fun apply_loop ::
  "format_table \<Rightarrow> (64 word \<Rightarrow> 64 word) \<Rightarrow> ircd \<Rightarrow> ptr \<Rightarrow> ptr \<Rightarrow> ptr option \<Rightarrow> chanmodechange list \<Rightarrow>
   chanmodechange list \<Rightarrow> bool \<Rightarrow> bool \<Rightarrow> nat \<Rightarrow> (ircd \<times> chanmodechange list \<times> nat) option" where
  "apply_loop ft shl s cptr k cuptr pre [] denied full n = Some (s, pre, n)"
| "apply_loop ft shl s cptr k cuptr pre (c # cs) denied full n = do {
     lacks \<leftarrow> lacks_privilege s cptr cuptr c;
     ch \<leftarrow> channels s k;
     if lacks then
       apply_loop ft shl (if denied then s else send (Numeric cptr 482 [Str (ch_name ch)]) s) cptr k cuptr
         (pre @ [bounce c]) cs True full n
     else do {
       (s, pre, c, rc) \<leftarrow> run_cb ft shl s cptr k pre c;
       if rc = - 2 then do {
         s \<leftarrow> (if full then Some s else tell_local_user s cptr (Numeric cptr 478 [Str (ch_name ch), Str (g_arg c)]));
         apply_loop ft shl s cptr k cuptr (pre @ [bounce c]) cs denied True n }
       else if rc = - 1 then do {
         s \<leftarrow> (if denied then Some s else tell_local_user s cptr (Numeric cptr 482 [Str (ch_name ch)]));
         apply_loop ft shl s cptr k cuptr (pre @ [bounce c]) cs True full n }
       else if rc = 1 then apply_loop ft shl s cptr k cuptr (pre @ [bounce c]) cs denied full n
       else if g_what c = CHANMODE_QUERY \<and> g_bounced c = 0 then do {
         s \<leftarrow> (if m_type (g_mode c) = CHANMODE_TYPE_LIST then chanmode_list s cptr k (m_letter (g_mode c)) else Some s);
         apply_loop ft shl s cptr k cuptr (pre @ [bounce c]) cs denied full n }
       else apply_loop ft shl s cptr k cuptr (pre @ [c]) cs denied full (n + 1) } }"

definition chanmode_apply ::
  "format_table \<Rightarrow> (64 word \<Rightarrow> 64 word) \<Rightarrow> ircd \<Rightarrow> ptr \<Rightarrow> ptr \<Rightarrow> ptr option \<Rightarrow> chanmodechange list \<Rightarrow>
   (ircd \<times> chanmodechange list \<times> nat) option" where
  "chanmode_apply ft shl s cptr k cuptr cs = do {
     (cptr, k) \<leftarrow> (case cuptr of None \<Rightarrow> Some (cptr, k)
       | Some p \<Rightarrow> do { cu \<leftarrow> chanusers s p; Some (cu_client cu, cu_channel cu) });
     apply_loop ft shl s cptr k cuptr [] cs False False 0 }"

end
