(* ===== verification/Chanapply.thy ===== *)
theory Chanapply
  imports Chanchange "HOL-Library.Sublist"
begin

text \<open>
  What applying a line of channel mode changes promises: the changes that were not bounced, applied
  one after the other to what another server or client knows of the channel, give the channel as
  it is afterwards; a local user without the privileges changes nothing; and the masks of a list
  never cover each other.
\<close>

unbundle bit_operations_syntax

section \<open>What others know of a channel\<close>

record mode_view =
  v_modes :: "64 word"
  v_limit :: "64 word"
  v_masks :: "nat \<Rightarrow> string multiset"
  v_flags :: "ptr \<Rightarrow> 64 word option"

definition masks_of :: "chanmodeitem list list \<Rightarrow> nat \<Rightarrow> string multiset" where
  "masks_of ls i = (if i < length ls then mset (map i_mask (ls ! i)) else {#})"

definition view :: "ircd \<Rightarrow> ptr \<Rightarrow> mode_view option" where
  "view s k = map_option (\<lambda>ch. \<lparr>v_modes = ch_modes ch, v_limit = ch_limit ch,
     v_masks = masks_of (ch_modelists ch), v_flags = (\<lambda>p. map_option cu_flags (chanusers s p))\<rparr>) (channels s k)"

text \<open>The effect of a change as it is announced.\<close>

definition switch :: "what \<Rightarrow> 64 word \<Rightarrow> 64 word \<Rightarrow> 64 word" where
  "switch w f x = (case w of CHANMODE_ADD \<Rightarrow> x OR f | CHANMODE_DEL \<Rightarrow> x AND NOT f | CHANMODE_QUERY \<Rightarrow> x)"

lemma switch_simps [simp]:
  "switch CHANMODE_ADD f x = x OR f" "switch CHANMODE_DEL f x = x AND NOT f" "switch CHANMODE_QUERY f x = x"
  by (simp_all add: switch_def)

definition replay_list :: "chanmodechange \<Rightarrow> mode_view \<Rightarrow> mode_view" where
  "replay_list c v = (let i = chanmode_index (m_letter (g_mode c)); ms = v_masks v i in
     case g_what c of
       CHANMODE_ADD \<Rightarrow> v\<lparr>v_masks := (v_masks v)(i := add_mset (g_arg c) ms)\<rparr>
     | CHANMODE_DEL \<Rightarrow> v\<lparr>v_masks := (v_masks v)(i := ms - {#g_arg c#})\<rparr>
     | CHANMODE_QUERY \<Rightarrow> v)"

definition replay_member :: "chanmodechange \<Rightarrow> mode_view \<Rightarrow> mode_view" where
  "replay_member c v = v\<lparr>v_flags := (\<lambda>p. if g_target c = Some p
     then map_option (switch (g_what c) (m_flag (g_mode c))) (v_flags v p) else v_flags v p)\<rparr>"

definition replay_limit :: "chanmodechange \<Rightarrow> mode_view \<Rightarrow> mode_view" where
  "replay_limit c v = (case g_what c of
       CHANMODE_ADD \<Rightarrow> v\<lparr>v_limit := conv_val (str_toul (g_arg c) 0 False 10)\<rparr>
     | CHANMODE_DEL \<Rightarrow> v\<lparr>v_limit := - 1\<rparr>
     | CHANMODE_QUERY \<Rightarrow> v)"

definition replay_flag :: "chanmodechange \<Rightarrow> mode_view \<Rightarrow> mode_view" where
  "replay_flag c v = v\<lparr>v_modes := switch (g_what c) (m_flag (g_mode c)) (v_modes v)\<rparr>"

definition replay :: "chanmodechange \<Rightarrow> mode_view \<Rightarrow> mode_view" where
  "replay c v =
     (if m_type (g_mode c) = CHANMODE_TYPE_LIST then replay_list c v
      else if m_type (g_mode c) = CHANMODE_TYPE_PRIVILEGE then replay_member c v
      else replay_flag c (if m_cb (g_mode c) = Limit_bounce then replay_limit c v else v))"

definition announced :: "chanmodechange list \<Rightarrow> chanmodechange list" where
  "announced cs = filter (\<lambda>c. g_bounced c = 0) cs"

lemma announced_simps [simp]:
  "announced [] = []" "announced (cs @ ds) = announced cs @ announced ds"
  "announced (c # cs) = (if g_bounced c = 0 then c # announced cs else announced cs)"
  by (simp_all add: announced_def)

section \<open>Well-formed states and changes\<close>

definition mask_ok :: "string \<Rightarrow> bool" where
  "mask_ok m \<longleftrightarrow> no_nul m \<and> m \<noteq> [] \<and> length m < PREFIX_SIZE"

text \<open>The two directions of the comparison of masks, and a list of masks: no longer than allowed,
  and no mask matches another.\<close>

definition clash :: "string \<Rightarrow> string \<Rightarrow> bool" where
  "clash a b \<longleftrightarrow> matches a b \<noteq> Some False \<or> matches b a \<noteq> Some False"

definition list_wf :: "chanmodeitem list \<Rightarrow> bool" where
  "list_wf xs \<longleftrightarrow> (\<forall>x \<in> set xs. mask_ok (i_mask x)) \<and> length xs \<le> IRCD_MAXBANS \<and>
     sorted_wrt (\<lambda>x y. \<not> clash (i_mask x) (i_mask y)) xs"

definition masks_ok :: "chanmodeitem list list \<Rightarrow> bool" where
  "masks_ok ls \<longleftrightarrow> (\<forall>xs \<in> set ls. list_wf xs)"

text \<open>The source of the changes: its texts are strings, and its user block is there.\<close>

definition source_ok :: "ircd \<Rightarrow> ptr \<Rightarrow> bool" where
  "source_ok s p \<longleftrightarrow> (\<exists>cl. clients s p = Some cl \<and> no_nul (c_name cl) \<and> no_nul (c_host cl) \<and>
     (\<forall>u. c_user cl = Some u \<longrightarrow> (\<exists>us. users s u = Some us \<and> no_nul (u_name us))))"

definition apply_ok :: "ircd \<Rightarrow> ptr \<Rightarrow> ptr \<Rightarrow> bool" where
  "apply_ok s cptr k \<longleftrightarrow> invites_wf s \<and> privileges_ok (modes_table s) \<and> source_ok s cptr \<and>
     (\<exists>ch. channels s k = Some ch \<and> length (ch_modelists ch) = 64 \<and> masks_ok (ch_modelists ch))"

text \<open>The callback belongs to the kind of the mode, as in all modules.\<close>

definition cb_fits :: "chanmode \<Rightarrow> bool" where
  "cb_fits m \<longleftrightarrow> (m_type m = CHANMODE_TYPE_LIST \<longleftrightarrow> m_cb m \<in> {Bounce_ban, Bounce_mask}) \<and>
     (m_type m = CHANMODE_TYPE_PRIVILEGE \<longleftrightarrow> m_cb m = Chanuser_bounce) \<and> m_type m \<noteq> 0"

definition change_ok :: "chanmode list \<Rightarrow> ptr set \<Rightarrow> chanmodechange \<Rightarrow> bool" where
  "change_ok tab ps c \<longleftrightarrow> chanmode_index (m_letter (g_mode c)) < 64 \<and>
     tab ! chanmode_index (m_letter (g_mode c)) = g_mode c \<and> cb_fits (g_mode c) \<and> g_bounced c = 0 \<and>
     no_nul (g_arg c) \<and> length (g_arg c) < PREFIX_SIZE \<and>
     (m_type (g_mode c) = CHANMODE_TYPE_LIST \<longrightarrow> g_what c \<noteq> CHANMODE_QUERY \<longrightarrow> g_arg c \<noteq> []) \<and>
     (m_type (g_mode c) = CHANMODE_TYPE_PRIVILEGE \<longrightarrow> g_what c \<noteq> CHANMODE_QUERY \<longrightarrow>
        (\<exists>p \<in> ps. g_target c = Some p))"

text \<open>What a step keeps.\<close>

definition kept :: "ircd \<Rightarrow> ircd \<Rightarrow> ptr \<Rightarrow> ptr \<Rightarrow> bool" where
  "kept s s' cptr k \<longleftrightarrow> apply_ok s' cptr k \<and> modes_table s' = modes_table s \<and>
     dom (chanusers s') = dom (chanusers s) \<and> clients s' = clients s"

lemma apply_okD:
  assumes "apply_ok s cptr k"
  obtains ch where "channels s k = Some ch" "length (ch_modelists ch) = 64" "masks_ok (ch_modelists ch)"
    "invites_wf s" "privileges_ok (modes_table s)" "source_ok s cptr"
  using assms unfolding apply_ok_def by blast

text \<open>Storing a channel that differs in modes, limit, key and masks.\<close>

definition only_modes :: "channel \<Rightarrow> channel \<Rightarrow> bool" where
  "only_modes ch ch' \<longleftrightarrow> ch_invites ch' = ch_invites ch \<and> length (ch_modelists ch') = 64 \<and> masks_ok (ch_modelists ch')"

lemma kept_channel:
  assumes ok: "apply_ok s cptr k" and k: "channels s k = Some ch" and o: "only_modes ch ch'"
  shows "kept s (put_channel k ch' s) cptr k"
proof -
  let ?s = "put_channel k ch' s"
  have "same_invites s ?s"
    using k o by (auto simp: same_invites_def chan_invites_def user_invites_def only_modes_def fun_eq_iff)
  then have "invites_wf ?s" using same_invites_cong(1) ok by (auto simp: apply_ok_def)
  then show ?thesis using ok o by (auto simp: kept_def apply_ok_def source_ok_def only_modes_def)
qed

lemma kept_trans: "kept s t cptr k \<Longrightarrow> kept t u cptr k \<Longrightarrow> kept s u cptr k"
  by (simp add: kept_def)

lemma kept_refl: "apply_ok s cptr k \<Longrightarrow> kept s s cptr k"
  by (simp add: kept_def)

lemma kept_send: "apply_ok s cptr k \<Longrightarrow> kept s (send x s) cptr k"
proof -
  assume ok: "apply_ok s cptr k"
  have "same_invites s (send x s)"
    by (simp add: same_invites_def chan_invites_def user_invites_def fun_eq_iff)
  then have "invites_wf (send x s)" using same_invites_cong(1) ok by (auto simp: apply_ok_def)
  then show ?thesis using ok by (auto simp: kept_def apply_ok_def source_ok_def)
qed

lemma view_send [simp]: "view (send x s) k = view s k"
  by (simp add: view_def)

lemma view_channel: "channels s k = Some ch \<Longrightarrow> view s k = Some \<lparr>v_modes = ch_modes ch, v_limit = ch_limit ch,
     v_masks = masks_of (ch_modelists ch), v_flags = (\<lambda>p. map_option cu_flags (chanusers s p))\<rparr>"
  by (simp add: view_def)

text \<open>What a callback promises: the changes in front and its own, unless it was bounced, are
  what happened.\<close>

definition faithful :: "ircd \<Rightarrow> ptr \<Rightarrow> ptr \<Rightarrow> chanmodechange list \<Rightarrow> chanmodechange \<Rightarrow> bounced \<Rightarrow> bool" where
  "faithful s cptr k pre c r \<longleftrightarrow> (\<exists>s' ins c' rc. r = Some (s', pre @ ins, c', rc) \<and> rc \<in> {0, 1, - 2} \<and>
     kept s s' cptr k \<and> g_mode c' = g_mode c \<and> g_what c' = g_what c \<and> g_bounced c' = 0 \<and>
     (\<forall>d \<in> set ins. g_bounced d = 0) \<and>
     view s' k = map_option (fold replay (ins @ (if rc = 0 then [c'] else []))) (view s k))"

lemma faithfulI:
  "r = Some (s', pre @ ins, c', rc) \<Longrightarrow> rc \<in> {0, 1, - 2} \<Longrightarrow> kept s s' cptr k \<Longrightarrow> g_mode c' = g_mode c \<Longrightarrow>
   g_what c' = g_what c \<Longrightarrow> g_bounced c' = 0 \<Longrightarrow> \<forall>d \<in> set ins. g_bounced d = 0 \<Longrightarrow>
   view s' k = map_option (fold replay (ins @ (if rc = 0 then [c'] else []))) (view s k) \<Longrightarrow>
   faithful s cptr k pre c r"
  unfolding faithful_def by blast

text \<open>A callback that inserts nothing.\<close>

lemma faithful_done:
  "r = Some (s', pre, c', 0) \<Longrightarrow> kept s s' cptr k \<Longrightarrow> g_mode c' = g_mode c \<Longrightarrow> g_what c' = g_what c \<Longrightarrow>
   g_bounced c' = 0 \<Longrightarrow> view s' k = map_option (replay c') (view s k) \<Longrightarrow> faithful s cptr k pre c r"
  by (rule faithfulI[where ins = "[]" and rc = 0 and s' = s' and c' = c']) simp_all

lemma faithful_bounced:
  "r = Some (s', pre, c', 1) \<Longrightarrow> kept s s' cptr k \<Longrightarrow> g_mode c' = g_mode c \<Longrightarrow> g_what c' = g_what c \<Longrightarrow>
   g_bounced c' = 0 \<Longrightarrow> view s' k = view s k \<Longrightarrow> faithful s cptr k pre c r"
  by (rule faithfulI[where ins = "[]" and rc = 1 and s' = s' and c' = c']) (simp_all add: option.map_id)

section \<open>Flags\<close>

definition flag_change :: "chanmodechange \<Rightarrow> bool" where
  "flag_change c \<longleftrightarrow> m_type (g_mode c) \<noteq> CHANMODE_TYPE_LIST \<and> m_type (g_mode c) \<noteq> CHANMODE_TYPE_PRIVILEGE \<and>
     g_bounced c = 0"

lemma only_modes_same:
  "length (ch_modelists ch) = 64 \<Longrightarrow> masks_ok (ch_modelists ch) \<Longrightarrow>
   ch_invites ch' = ch_invites ch \<Longrightarrow> ch_modelists ch' = ch_modelists ch \<Longrightarrow> only_modes ch ch'"
  by (simp add: only_modes_def)

lemma put_channel_same: "channels s k = Some ch \<Longrightarrow> put_channel k ch s = s"
  by (simp add: put_channel_def map_upd_triv)

lemma put_channel_twice [simp]: "put_channel k b (put_channel k a s) = put_channel k b s"
  by (simp add: put_channel_def)

text \<open>A callback that only changes flags, limit and key: it bounced the change and left what the
  others know, or did what the change says.\<close>

definition flag_done :: "channel \<Rightarrow> channel \<Rightarrow> chanmodechange \<Rightarrow> int \<Rightarrow> bool" where
  "flag_done ch ch' c rc \<longleftrightarrow> ch_invites ch' = ch_invites ch \<and> ch_modelists ch' = ch_modelists ch \<and>
     (rc = 1 \<and> ch_modes ch' = ch_modes ch \<and> ch_limit ch' = ch_limit ch \<or>
      rc = 0 \<and> ch_modes ch' = switch (g_what c) (m_flag (g_mode c)) (ch_modes ch) \<and>
        ch_limit ch' = (if m_cb (g_mode c) = Limit_bounce then case g_what c of
          CHANMODE_ADD \<Rightarrow> conv_val (str_toul (g_arg c) 0 False 10) | CHANMODE_DEL \<Rightarrow> - 1
          | CHANMODE_QUERY \<Rightarrow> ch_limit ch else ch_limit ch))"

lemma flag_faithful:
  assumes ok: "apply_ok s cptr k" and k: "channels s k = Some ch" and c: "flag_change c"
    and c': "g_mode c' = g_mode c" "g_what c' = g_what c" "g_bounced c' = 0"
    and r: "r = Some (put_channel k ch' s, pre, c', rc)" and d: "flag_done ch ch' c' rc"
  shows "faithful s cptr k pre c r"
proof -
  obtain ch0 where ch: "channels s k = Some ch0" "length (ch_modelists ch0) = 64" "masks_ok (ch_modelists ch0)"
    by (rule apply_okD[OF ok]) (rule that)
  have kept: "kept s (put_channel k ch' s) cptr k"
    by (rule kept_channel[OF ok k only_modes_same]) (use ch k d in \<open>auto simp: flag_done_def\<close>)
  consider "rc = 1" | "rc = 0" using d by (auto simp: flag_done_def)
  then show ?thesis
  proof cases
    case 1
    then show ?thesis
      using d by (intro faithful_bounced[OF _ kept c']) (auto simp: r flag_done_def view_def k)
  next
    case 2
    have "view (put_channel k ch' s) k = map_option (replay c') (view s k)"
      using d 2 c by (auto simp: flag_done_def view_def k flag_change_def replay_def replay_flag_def
        replay_limit_def c' split: what.split)
    then show ?thesis using 2 by (intro faithful_done[OF _ kept c']) (simp_all add: r)
  qed
qed

text \<open>Evaluating such a callback: all its results store the channel.\<close>

lemmas flag_callbacks = chanmode_bounce_simple_def cm_key_bounce_def cm_limit_bounce_def

lemma bounce_simple_result:
  assumes k: "channels s k = Some ch"
  shows "chanmode_bounce_simple s k pre c = (case g_what c of
       CHANMODE_DEL \<Rightarrow> if ch_modes ch AND m_flag (g_mode c) = 0 then Some (s, pre, c, 1)
         else Some (put_channel k (ch\<lparr>ch_modes := switch CHANMODE_DEL (m_flag (g_mode c)) (ch_modes ch)\<rparr>) s, pre, c, 0)
     | CHANMODE_ADD \<Rightarrow> if ch_modes ch AND m_flag (g_mode c) \<noteq> 0 then Some (s, pre, c, 1)
         else Some (put_channel k (ch\<lparr>ch_modes := switch CHANMODE_ADD (m_flag (g_mode c)) (ch_modes ch)\<rparr>) s, pre, c, 0)
     | CHANMODE_QUERY \<Rightarrow> Some (s, pre, c, 0))"
  by (cases "g_what c") (simp_all add: chanmode_bounce_simple_def k Let_def)

lemma bounce_simple_faithful:
  assumes ok: "apply_ok s cptr k" and c: "flag_change c" "m_cb (g_mode c) \<noteq> Limit_bounce"
  shows "faithful s cptr k pre c (chanmode_bounce_simple s k pre c)"
proof -
  obtain ch where k: "channels s k = Some ch" by (rule apply_okD[OF ok])
  note ff = flag_faithful[OF ok k c(1), where c' = c]
  have same: "faithful s cptr k pre c (Some (s, pre, c, rc))" if "flag_done ch ch c rc" for rc
    using ff[where ch' = ch and rc = rc, OF refl refl] that c by (simp add: put_channel_same[OF k] flag_change_def)
  have put: "faithful s cptr k pre c (Some (put_channel k ch' s, pre, c, 0))" if "flag_done ch ch' c 0" for ch'
    using ff[where ch' = ch' and rc = 0, OF refl refl] that c by (simp add: flag_change_def)
  show ?thesis
    using c by (cases "g_what c") (auto simp: bounce_simple_result[OF k] flag_done_def intro!: same put)
qed

text \<open>Clearing the flag first and setting it afterwards is setting it.\<close>

lemma flag_cleared [simp]: "(x AND NOT f) AND f = 0" "(x AND NOT f) OR f = x OR f" for x f :: "64 word"
  by (auto intro!: bit_eqI simp: bit_simps)

lemma cm_key_faithful:
  assumes ok: "apply_ok s cptr k" and c: "flag_change c" "m_cb (g_mode c) = Key_bounce"
  shows "faithful s cptr k pre c (cm_key_bounce s k pre c)"
proof -
  obtain ch where k: "channels s k = Some ch" by (rule apply_okD[OF ok])
  have put: "faithful s cptr k pre c (Some (put_channel k ch' s, pre, c', rc))"
    if "flag_done ch ch' c' rc" "g_mode c' = g_mode c" "g_what c' = g_what c" "g_bounced c' = 0" for ch' c' rc
    by (rule flag_faithful[OF ok k c(1) that(2-4) refl that(1)])
  note same = put[where ch' = ch, unfolded put_channel_same[OF k]]
  have kp: "channels (put_channel k x s) k = Some x" for x by simp
  show ?thesis
    using c by (cases "g_what c")
      (auto simp: cm_key_bounce_def k bounce_simple_result[OF k] bounce_simple_result[OF kp] flag_done_def
        flag_change_def Let_def intro!: same put)
qed

lemma cm_limit_faithful:
  assumes ok: "apply_ok s cptr k" and c: "flag_change c" "m_cb (g_mode c) = Limit_bounce"
  shows "faithful s cptr k pre c (cm_limit_bounce s k pre c)"
proof -
  obtain ch where k: "channels s k = Some ch" by (rule apply_okD[OF ok])
  have put: "faithful s cptr k pre c (Some (put_channel k ch' s, pre, c, rc))"
    if "flag_done ch ch' c rc" for ch' rc
    by (rule flag_faithful[OF ok k c(1) refl refl _ refl that]) (use c in \<open>simp add: flag_change_def\<close>)
  note same = put[where ch' = ch, unfolded put_channel_same[OF k]]
  have kp: "channels (put_channel k x s) k = Some x" for x by simp
  show ?thesis
    using c by (cases "g_what c")
      (auto simp: cm_limit_bounce_def k bounce_simple_result[OF k] bounce_simple_result[OF kp] flag_done_def
        flag_change_def Let_def intro!: same put)
qed

text \<open>Removing the invitations changes neither modes nor masks.\<close>

definition mode_frame :: "ircd \<Rightarrow> ircd \<Rightarrow> bool" where
  "mode_frame s s' \<longleftrightarrow> modes_table s' = modes_table s \<and> clients s' = clients s \<and> chanusers s' = chanusers s \<and>
     (\<forall>u. map_option u_name (users s' u) = map_option u_name (users s u)) \<and>
     (\<forall>k. view s' k = view s k \<and> map_option ch_modelists (channels s' k) = map_option ch_modelists (channels s k))"

lemma user_uninvite_frame: "user_uninvite s p = Some s' \<Longrightarrow> mode_frame s s'"
  by (auto simp: user_uninvite_def view_def mode_frame_def split: bind_splits if_splits)

lemma uninvites_frame: "for_each user_uninvite s ps = Some s' \<Longrightarrow> mode_frame s s'"
proof (induction ps arbitrary: s)
  case (Cons p ps)
  then obtain t where t: "user_uninvite s p = Some t" "for_each user_uninvite t ps = Some s'"
    by (auto split: bind_splits)
  show ?case using user_uninvite_frame[OF t(1)] Cons.IH[OF t(2)] by (simp add: mode_frame_def)
qed (simp add: mode_frame_def)

lemma mode_frame_ok:
  assumes f: "mode_frame s s'" and ok: "apply_ok s cptr k" and i: "invites_wf s'"
  shows "kept s s' cptr k"
proof -
  obtain ch where k: "channels s k = Some ch" "length (ch_modelists ch) = 64" "masks_ok (ch_modelists ch)"
    "privileges_ok (modes_table s)" "source_ok s cptr" by (rule apply_okD[OF ok]) (rule that)
  obtain cl where cl: "clients s cptr = Some cl" "no_nul (c_name cl)" "no_nul (c_host cl)"
    "\<forall>u. c_user cl = Some u \<longrightarrow> (\<exists>us. users s u = Some us \<and> no_nul (u_name us))"
    using k(5) unfolding source_ok_def by blast
  have u: "map_option u_name (users s' u) = map_option u_name (users s u)" for u
    using f by (simp add: mode_frame_def)
  have "\<exists>us. users s' u = Some us \<and> no_nul (u_name us)" if "c_user cl = Some u" for u
    using cl(4) that u[of u] by auto
  then have "source_ok s' cptr" using cl f by (auto simp: source_ok_def mode_frame_def)
  moreover have "map_option ch_modelists (channels s' k) = Some (ch_modelists ch)"
    using f k(1) by (simp add: mode_frame_def)
  ultimately show ?thesis using i k f by (auto simp: kept_def apply_ok_def mode_frame_def)
qed

lemma cm_invite_faithful:
  assumes ok: "apply_ok s cptr k" and c: "flag_change c" "m_cb (g_mode c) = Invite_bounce"
  shows "faithful s cptr k pre c (cm_invite_bounce s k pre c)"
proof -
  obtain ch where k: "channels s k = Some ch" "invites_wf s" by (rule apply_okD[OF ok])
  have simple: "faithful t cptr k pre c (chanmode_bounce_simple t k pre c)" if "apply_ok t cptr k" for t
    by (rule bounce_simple_faithful[OF that c(1)]) (simp add: c(2))
  show ?thesis
  proof (cases "g_what c = CHANMODE_DEL \<and> ch_modes ch AND m_flag (g_mode c) \<noteq> 0")
    case False
    then show ?thesis
      using simple[OF ok] by (cases "g_what c") (auto simp: cm_invite_bounce_def k bounce_simple_result[OF k(1)])
  next
    case True
    have d: "distinct (ch_invites ch)" using k unfolding invites_wf_def chan_invites_def by (metis option.simps(5))
    obtain t where t: "for_each user_uninvite s (ch_invites ch) = Some t" "invites_wf t"
      by (rule uninvite_blocks[OF k(2) d, of k]) (simp_all add: chan_invites_def k)
    have f: "mode_frame s t" by (rule uninvites_frame[OF t(1)])
    have kept: "kept s t cptr k" by (rule mode_frame_ok[OF f ok t(2)])
    have r: "cm_invite_bounce s k pre c = chanmode_bounce_simple t k pre c"
      using True by (simp add: cm_invite_bounce_def cm_invite_clean_def k t)
    show ?thesis
      using simple[of t] kept f unfolding r faithful_def mode_frame_def kept_def by auto
  qed
qed

section \<open>Members\<close>

lemma member_faithful:
  assumes ok: "apply_ok s cptr k" and c: "g_bounced c = 0" "m_type (g_mode c) = CHANMODE_TYPE_PRIVILEGE"
    and p: "g_what c \<noteq> CHANMODE_QUERY \<longrightarrow> (\<exists>p \<in> dom (chanusers s). g_target c = Some p)"
  shows "faithful s cptr k pre c (chanuser_mode_bounce s pre c)"
proof -
  obtain ch where k: "channels s k = Some ch" "invites_wf s" "privileges_ok (modes_table s)"
    by (rule apply_okD[OF ok])
  have set: "\<exists>pfx. chanuser_mode_set s p fl = Some (put_chanuser p (cu\<lparr>cu_flags := fl, cu_prefix := pfx\<rparr>) s)"
    if "chanusers s p = Some cu" for p cu fl
  proof -
    obtain pfx where "chanmode_prefix_make (modes_table s) (replicate 65 NUL) fl = Some pfx"
      by (rule prefix_make_result[OF k(3), of "replicate 65 NUL" fl]) simp_all
    then show ?thesis using that by (auto simp: chanuser_mode_set_def)
  qed
  have kept: "kept s (put_chanuser p (cu\<lparr>cu_flags := fl, cu_prefix := pfx\<rparr>) s) cptr k"
    if "chanusers s p = Some cu" for p cu fl pfx
  proof -
    let ?t = "put_chanuser p (cu\<lparr>cu_flags := fl, cu_prefix := pfx\<rparr>) s"
    have "same_invites s ?t" by (simp add: same_invites_def chan_invites_def user_invites_def fun_eq_iff)
    then have "invites_wf ?t" using same_invites_cong(1) k(2) by blast
    then show ?thesis using ok that by (auto simp: kept_def apply_ok_def source_ok_def)
  qed
  have bounced: "faithful s cptr k pre c (Some (s, pre, c, 1))"
    by (rule faithful_bounced[OF refl]) (use c kept_refl[OF ok] in simp_all)
  have notlist: "m_type (g_mode c) \<noteq> CHANMODE_TYPE_LIST" using c by (simp add: chanmode_types)
  have doneI: "faithful s cptr k pre c (Some (put_chanuser p (cu\<lparr>cu_flags := fl, cu_prefix := pfx\<rparr>) s, pre, c, 0))"
    if "chanusers s p = Some cu" "g_target c = Some p" "fl = switch (g_what c) (m_flag (g_mode c)) (cu_flags cu)" for p cu fl pfx
    by (rule faithful_done[OF refl kept[OF that(1)]])
      (use c notlist that in \<open>auto simp: view_def k replay_def replay_member_def fun_eq_iff\<close>)
  show ?thesis
  proof (cases "g_what c = CHANMODE_QUERY")
    case True
    have "faithful s cptr k pre c (Some (s, pre, c, 0))"
      by (rule faithful_done[OF refl kept_refl[OF ok]])
        (use c notlist True in \<open>auto simp: view_def k replay_def replay_member_def fun_eq_iff option.map_comp comp_def switch_def\<close>)
    then show ?thesis using True by (simp add: chanuser_mode_bounce_def)
  next
    case False
    then obtain p cu where p: "g_target c = Some p" "chanusers s p = Some cu" using p by blast
    obtain g where g: "chanuser_mode_set s p fl = Some (put_chanuser p (cu\<lparr>cu_flags := fl, cu_prefix := g fl\<rparr>) s)" for fl
      using set[OF p(2)] by metis
    show ?thesis
      using False bounced doneI[OF p(2,1) refl]
      by (cases "g_what c") (auto simp: chanuser_mode_bounce_def Let_def p g)
  qed
qed

section \<open>Masks\<close>

text \<open>The change a sweep inserts for a mask it takes out.\<close>

definition removal :: "chanmode \<Rightarrow> string \<Rightarrow> chanmodechange" where
  "removal m a = (change_zero m CHANMODE_DEL)\<lparr>g_arg := a\<rparr>"

lemma removal_sel [simp]:
  "g_mode (removal m a) = m" "g_what (removal m a) = CHANMODE_DEL" "g_arg (removal m a) = a" "g_bounced (removal m a) = 0"
  by (simp_all add: removal_def change_zero_def)

lemma insert_removal:
  assumes "chanmode_index (m_letter m) < 64" "length (modes_table s) = 64"
    "modes_table s ! chanmode_index (m_letter m) = m" "m_type m \<noteq> 0" "mask_ok a"
  shows "chanmode_change_insert s pre CHANMODE_DEL (m_letter m) (Some a) = Some (pre @ [removal m a])"
  using assms by (simp add: chanmode_change_insert_def removal_def mask_ok_def field_id PREFIX_SIZE_def)

lemma matches_Some:
  assumes "mask_ok b" "no_nul a"
  obtains v where "matches a b = Some v"
  using matches_total[of a b] assms by (auto simp: mask_ok_def)

lemma add_sweep_result:
  assumes m: "chanmode_index (m_letter (g_mode c)) < 64" "length (modes_table s) = 64"
    "modes_table s ! chanmode_index (m_letter (g_mode c)) = g_mode c" "m_type (g_mode c) \<noteq> 0"
    and a: "mask_ok (g_arg c)" and xs: "\<forall>x \<in> set xs. mask_ok (i_mask x)"
  shows "\<exists>ys ds cov. add_sweep s c pre held xs = Some (pre @ map (removal (g_mode c)) ds, held @ ys, cov) \<and>
    mset (map i_mask xs) = mset (map i_mask ys) + mset ds \<and> subseq ys xs \<and>
    (\<not> cov \<longrightarrow> (\<forall>y \<in> set ys. \<not> clash (g_arg c) (i_mask y)))"
  using xs
proof (induction xs arbitrary: pre held)
  case (Cons x xs)
  have x: "mask_ok (i_mask x)" "no_nul (i_mask x)" "no_nul (g_arg c)"
    using Cons.prems a by (simp_all add: mask_ok_def)
  obtain v where v: "matches (g_arg c) (i_mask x) = Some v" by (rule matches_Some[OF x(1,3)])
  obtain w where w: "matches (i_mask x) (g_arg c) = Some w" by (rule matches_Some[OF a x(2)])
  have IH: "\<exists>ys ds cov. add_sweep s c pre held xs = Some (pre @ map (removal (g_mode c)) ds, held @ ys, cov) \<and>
    mset (map i_mask xs) = mset (map i_mask ys) + mset ds \<and> subseq ys xs \<and>
    (\<not> cov \<longrightarrow> (\<forall>y \<in> set ys. \<not> clash (g_arg c) (i_mask y)))" for pre held
    using Cons by simp
  show ?case
  proof (cases v)
    case True
    then show ?thesis using v by (intro exI[of _ "x # xs"] exI[of _ "[]"] exI[of _ True]) simp
  next
    case False
    show ?thesis
    proof (cases w)
      case True
      obtain ys ds cov where r: "add_sweep s c (pre @ [removal (g_mode c) (i_mask x)]) held xs =
          Some ((pre @ [removal (g_mode c) (i_mask x)]) @ map (removal (g_mode c)) ds, held @ ys, cov)"
        "mset (map i_mask xs) = mset (map i_mask ys) + mset ds" "subseq ys xs"
        "\<not> cov \<longrightarrow> (\<forall>y \<in> set ys. \<not> clash (g_arg c) (i_mask y))" using IH by metis
      then show ?thesis
        using v w True False insert_removal[OF m x(1)]
        by (intro exI[of _ ys] exI[of _ "i_mask x # ds"] exI[of _ cov]) (auto intro: list_emb_Cons)
    next
      case False2: False
      obtain ys ds cov where r: "add_sweep s c pre (held @ [x]) xs =
          Some (pre @ map (removal (g_mode c)) ds, (held @ [x]) @ ys, cov)"
        "mset (map i_mask xs) = mset (map i_mask ys) + mset ds" "subseq ys xs"
        "\<not> cov \<longrightarrow> (\<forall>y \<in> set ys. \<not> clash (g_arg c) (i_mask y))" using IH by metis
      then show ?thesis
        using v w False False2 by (intro exI[of _ "x # ys"] exI[of _ ds] exI[of _ cov]) (auto simp: clash_def)
    qed
  qed
qed (intro exI[of _ "[]"] exI[of _ False], simp)

lemma del_sweep_result:
  assumes m: "chanmode_index (m_letter (g_mode c)) < 64" "length (modes_table s) = 64"
    "modes_table s ! chanmode_index (m_letter (g_mode c)) = g_mode c" "m_type (g_mode c) \<noteq> 0"
    and a: "mask_ok (g_arg c)" and xs: "\<forall>x \<in> set xs. mask_ok (i_mask x)"
  shows "\<exists>ys ds. del_sweep s c pre held xs = Some (pre @ map (removal (g_mode c)) ds, held @ ys) \<and>
    mset (map i_mask xs) = mset (map i_mask ys) + mset ds \<and> subseq ys xs"
  using xs
proof (induction xs arbitrary: pre held)
  case (Cons x xs)
  have x: "mask_ok (i_mask x)" "no_nul (i_mask x)" "no_nul (g_arg c)"
    using Cons.prems a by (simp_all add: mask_ok_def)
  obtain v where v: "matches (g_arg c) (i_mask x) = Some v" by (rule matches_Some[OF x(1,3)])
  obtain w where w: "matches (i_mask x) (g_arg c) = Some w" by (rule matches_Some[OF a x(2)])
  have IH: "\<exists>ys ds. del_sweep s c pre held xs = Some (pre @ map (removal (g_mode c)) ds, held @ ys) \<and>
    mset (map i_mask xs) = mset (map i_mask ys) + mset ds \<and> subseq ys xs" for pre held
    using Cons by simp
  show ?case
  proof (cases "v \<or> w")
    case True
    obtain ys ds where r: "del_sweep s c (pre @ [removal (g_mode c) (i_mask x)]) held xs =
        Some ((pre @ [removal (g_mode c) (i_mask x)]) @ map (removal (g_mode c)) ds, held @ ys)"
      "mset (map i_mask xs) = mset (map i_mask ys) + mset ds" "subseq ys xs" using IH by metis
    then show ?thesis
      using v w True insert_removal[OF m x(1)]
      by (intro exI[of _ ys] exI[of _ "i_mask x # ds"]) (auto intro: list_emb_Cons)
  next
    case False
    obtain ys ds where r: "del_sweep s c pre (held @ [x]) xs =
        Some (pre @ map (removal (g_mode c)) ds, (held @ [x]) @ ys)"
      "mset (map i_mask xs) = mset (map i_mask ys) + mset ds" "subseq ys xs" using IH by metis
    then show ?thesis using v w False by (intro exI[of _ "x # ys"] exI[of _ ds]) auto
  qed
qed (intro exI[of _ "[]"], simp)

lemma replay_removals:
  assumes "m_type m = CHANMODE_TYPE_LIST"
  shows "fold replay (map (removal m) ds) v = v\<lparr>v_masks := (v_masks v)(chanmode_index (m_letter m) :=
    v_masks v (chanmode_index (m_letter m)) - mset ds)\<rparr>"
  by (induction ds arbitrary: v) (simp_all add: assms replay_def replay_list_def Let_def)

lemma mask_item_result:
  assumes "source_ok s cptr" "no_nul (g_arg c)" "length (g_arg c) < PREFIX_SIZE"
  obtains x where "mask_item ft shl s cptr c = Some x" "i_mask x = g_arg c"
proof -
  obtain cl where cl: "clients s cptr = Some cl" "no_nul (c_name cl)" "no_nul (c_host cl)"
    "\<forall>u. c_user cl = Some u \<longrightarrow> (\<exists>us. users s u = Some us \<and> no_nul (u_name us))"
    using assms(1) unfolding source_ok_def by blast
  have f: "field PREFIX_SIZE (g_arg c) = g_arg c" using assms(2,3) by (simp add: field_id)
  show ?thesis
  proof (cases "c_user cl")
    case None
    then show ?thesis using that cl(1) f by (cases "cur (g_info c) = NUL") (simp_all add: mask_item_def)
  next
    case (Some u)
    then obtain us where us: "users s u = Some us" "no_nul (u_name us)" using cl(4) by blast
    let ?qs = "[PStr False False 0 (Some (c_name cl)), PLit (CHR ''!''), PStr False False 0 (Some (u_name us)),
      PLit (CHR ''@''), PStr False False 0 (Some (c_host cl))]"
    have "\<exists>r. str_snprintf ft (replicate PREFIX_SIZE NUL) PREFIX_SIZE ''%s!%s@%s''
        [ArgStr (Some (c_name cl)), ArgStr (Some (u_name us)), ArgStr (Some (c_host cl))] = Some r"
      by (rule exI, rule snprintf_text[of _ ?qs, OF _ _ _ _ _ refl])
        (use cl us in \<open>simp_all add: PREFIX_SIZE_def flags_def\<close>)
    then obtain b n where "str_snprintf ft (replicate PREFIX_SIZE NUL) PREFIX_SIZE ''%s!%s@%s''
        [ArgStr (Some (c_name cl)), ArgStr (Some (u_name us)), ArgStr (Some (c_host cl))] = Some (b, n)" by auto
    then show ?thesis using that cl(1) Some us(1) f by (simp add: mask_item_def)
  qed
qed

lemma masks_of_update:
  "i < length ls \<Longrightarrow> masks_of (ls[i := xs]) = (masks_of ls)(i := mset (map i_mask xs))"
  by (auto simp: masks_of_def fun_eq_iff nth_list_update)

lemma masks_ok_update:
  assumes "masks_ok ls" "list_wf xs"
  shows "masks_ok (ls[i := xs])"
  using assms set_update_subset_insert[of ls i xs] by (auto simp: masks_ok_def)

lemma subseq_set: "subseq ys xs \<Longrightarrow> set ys \<subseteq> set xs"
  by (induction rule: list_emb.induct) auto

lemma subseq_sorted_wrt: "subseq ys xs \<Longrightarrow> sorted_wrt P xs \<Longrightarrow> sorted_wrt P ys"
proof (induction rule: list_emb.induct)
  case (list_emb_Cons2 x y xs ys)
  then show ?case using subseq_set[of xs ys] by auto
qed auto

lemma list_wf_subseq: "subseq ys xs \<Longrightarrow> list_wf xs \<Longrightarrow> list_wf ys"
  using subseq_set[of ys xs] subseq_sorted_wrt[of ys xs] list_emb_length[of "(=)" ys xs] by (auto simp: list_wf_def)

lemma clash_sym: "clash a b = clash b a"
  by (auto simp: clash_def)

lemma mask_place_split: "\<exists>i. mask_place ys x = take i ys @ x # drop i ys"
proof (induction ys x rule: mask_place.induct)
  case (2 y ys x)
  show ?case
  proof (cases "i_ihash y = i_ihash x \<and> (case ys of [] \<Rightarrow> True | z # _ \<Rightarrow> i_ihash z \<noteq> i_ihash x)")
    case True
    then show ?thesis by (intro exI[of _ 1]) simp
  next
    case False
    then obtain i where "mask_place ys x = take i ys @ x # drop i ys" using 2 by blast
    moreover have "mask_place (y # ys) x = y # mask_place ys x" using False by (simp only: mask_place.simps if_False)
    ultimately show ?thesis by (intro exI[of _ "Suc i"]) simp
  qed
qed simp

lemma list_wf_place:
  assumes "list_wf ys" "length ys < IRCD_MAXBANS" "mask_ok (i_mask x)" "\<forall>y \<in> set ys. \<not> clash (i_mask x) (i_mask y)"
  shows "list_wf (mask_place ys x)"
proof -
  obtain i where i: "mask_place ys x = take i ys @ x # drop i ys" using mask_place_split by blast
  have "sorted_wrt (\<lambda>x y. \<not> clash (i_mask x) (i_mask y)) (take i ys @ drop i ys)"
    using assms(1) by (simp add: list_wf_def)
  then have "sorted_wrt (\<lambda>x y. \<not> clash (i_mask x) (i_mask y)) (mask_place ys x)"
    using assms(4) unfolding i sorted_wrt_append
    by (auto dest: in_set_takeD in_set_dropD simp: clash_sym)
  then show ?thesis using assms(1-3) by (auto simp: list_wf_def)
qed

text \<open>The conditions the sweeps need, from a change of a list mode.\<close>

lemma list_change:
  assumes "change_ok tab ps c" "privileges_ok tab"
  shows "chanmode_index (m_letter (g_mode c)) < 64" "length tab = 64"
    "tab ! chanmode_index (m_letter (g_mode c)) = g_mode c" "m_type (g_mode c) \<noteq> 0"
    "no_nul (g_arg c)" "length (g_arg c) < PREFIX_SIZE" "g_bounced c = 0"
    "m_type (g_mode c) = CHANMODE_TYPE_LIST \<Longrightarrow> g_what c \<noteq> CHANMODE_QUERY \<Longrightarrow> mask_ok (g_arg c)"
  using assms by (auto simp: change_ok_def privileges_ok_def table_ok_def cb_fits_def mask_ok_def)

lemma mask_faithful:
  assumes ok: "apply_ok s cptr k" and c: "change_ok (modes_table s) ps c" and l: "m_type (g_mode c) = CHANMODE_TYPE_LIST"
  shows "faithful s cptr k pre c (chanmode_bounce_mask ft shl s cptr k pre c)"
proof -
  obtain ch where k: "channels s k = Some ch" "length (ch_modelists ch) = 64" "masks_ok (ch_modelists ch)"
    "privileges_ok (modes_table s)" "source_ok s cptr" by (rule apply_okD[OF ok]) (rule that)
  note m = list_change[OF c k(4)]
  let ?i = "chanmode_index (m_letter (g_mode c))" and ?xs = "ch_modelists ch ! chanmode_index (m_letter (g_mode c))"
  let ?put = "\<lambda>ys. put_channel k (ch\<lparr>ch_modelists := (ch_modelists ch)[?i := ys]\<rparr>) s"
  have xs: "rd (ch_modelists ch) ?i = Some ?xs" "list_wf ?xs" "\<forall>x \<in> set ?xs. mask_ok (i_mask x)"
    using m(1) k by (auto simp: rd_def masks_ok_def list_wf_def)
  have kept: "kept s (?put ys) cptr k" if "list_wf ys" for ys
    by (rule kept_channel[OF ok k(1)]) (use k that masks_ok_update in \<open>simp add: only_modes_def\<close>)
  have view: "view (?put ys) k = map_option (\<lambda>v. v\<lparr>v_masks := (v_masks v)(?i := mset (map i_mask ys))\<rparr>) (view s k)" for ys
    using m(1) k by (simp add: view_def masks_of_update)
  have old: "v_masks v ?i = mset (map i_mask ?xs)" if "view s k = Some v" for v
    using m(1) k that by (auto simp: view_def masks_of_def)
  obtain v where v: "view s k = Some v" by (simp add: view_def k)
  show ?thesis
  proof (cases "g_what c")
    case CHANMODE_QUERY
    have "faithful s cptr k pre c (Some (s, pre, c, 0))"
      by (rule faithful_done[OF refl kept_refl[OF ok]])
        (use m(7) CHANMODE_QUERY in \<open>simp_all add: v replay_def replay_list_def l Let_def\<close>)
    then show ?thesis using CHANMODE_QUERY by (simp add: chanmode_bounce_mask_def k)
  next
    case CHANMODE_DEL
    obtain ys ds where r: "del_sweep s c pre [] ?xs = Some (pre @ map (removal (g_mode c)) ds, ys)"
      "mset (map i_mask ?xs) = mset (map i_mask ys) + mset ds" "subseq ys ?xs"
      using del_sweep_result[OF m(1-4) _ xs(3), of pre "[]"] m(8)[OF l] CHANMODE_DEL by auto
    have e: "chanmode_bounce_mask ft shl s cptr k pre c = Some (?put ys, pre @ map (removal (g_mode c)) ds, c, 1)"
      using CHANMODE_DEL xs(1) r(1) k(1) by (simp add: chanmode_bounce_mask_def Let_def)
    show ?thesis
      by (rule faithfulI[OF e _ kept[OF list_wf_subseq[OF r(3) xs(2)]]])
        (use m(7) old[OF v] r(2) in \<open>simp_all add: view v replay_removals[OF l]\<close>)
  next
    case CHANMODE_ADD
    obtain ys ds cov where r: "add_sweep s c pre [] ?xs = Some (pre @ map (removal (g_mode c)) ds, ys, cov)"
      "mset (map i_mask ?xs) = mset (map i_mask ys) + mset ds" "subseq ys ?xs"
      "\<not> cov \<longrightarrow> (\<forall>y \<in> set ys. \<not> clash (g_arg c) (i_mask y))"
      using add_sweep_result[OF m(1-4) _ xs(3), of pre "[]"] m(8)[OF l] CHANMODE_ADD by auto
    obtain zs rc where z: "(if cov then Some (ys, 1) else chanmode_mask_add ft shl s cptr ys c) = Some (zs, rc)"
      "rc = 1 \<and> zs = ys \<or> rc = - 2 \<and> zs = ys \<or> rc = 0 \<and> \<not> cov \<and> length ys < IRCD_MAXBANS \<and> (\<exists>x. i_mask x = g_arg c \<and> zs = mask_place ys x)"
    proof (cases "cov \<or> length ys = IRCD_MAXBANS")
      case True
      then show ?thesis using that by (cases cov) (auto simp: chanmode_mask_add_def)
    next
      case False
      obtain x where x: "mask_item ft shl s cptr c = Some x" "i_mask x = g_arg c"
        by (rule mask_item_result[OF k(5) m(5,6)])
      have "length ys < IRCD_MAXBANS" using False list_wf_subseq[OF r(3) xs(2)] by (simp add: list_wf_def)
      then show ?thesis using that[of "mask_place ys x" 0] False x by (auto simp: chanmode_mask_add_def)
    qed
    have e: "chanmode_bounce_mask ft shl s cptr k pre c = Some (?put zs, pre @ map (removal (g_mode c)) ds, c, rc)"
      using CHANMODE_ADD xs(1) r(1) k(1) z(1) by (simp add: chanmode_bounce_mask_def Let_def)
    have zok: "list_wf zs"
      using z(2) list_wf_subseq[OF r(3) xs(2)] list_wf_place[of ys] m(8)[OF l] r(4) CHANMODE_ADD by auto
    have "mset (map i_mask (mask_place ys x)) = add_mset (i_mask x) (mset (map i_mask ys))" for x
      by (simp add: mask_place_mset)
    then have "view (?put zs) k = map_option (fold replay (map (removal (g_mode c)) ds @ (if rc = 0 then [c] else []))) (view s k)"
      using z(2) r(2) old[OF v]
      by (auto simp: replay_removals[OF l] view v replay_def replay_list_def l CHANMODE_ADD Let_def)
    then show ?thesis
      by (intro faithfulI[OF e _ kept[OF zok]]) (use m(7) z(2) in auto)
  qed
qed

text \<open>A ban is normalised first; the change that is announced holds the normalised text.\<close>

lemma faithful_same: "g_mode c' = g_mode c \<Longrightarrow> g_what c' = g_what c \<Longrightarrow> faithful s cptr k pre c' r \<Longrightarrow> faithful s cptr k pre c r"
  by (simp add: faithful_def)

lemma ban_faithful:
  assumes ok: "apply_ok s cptr k" and c: "change_ok (modes_table s) ps c" and l: "m_type (g_mode c) = CHANMODE_TYPE_LIST"
  shows "faithful s cptr k pre c (chanmode_bounce_ban ft shl s cptr k pre c)"
proof (cases "g_what c = CHANMODE_ADD")
  case False
  then show ?thesis using mask_faithful[OF ok c l] by (simp add: chanmode_bounce_ban_def)
next
  case True
  obtain n u h where p: "ban_parts (g_arg c) = (n, u, h)" by (metis prod_cases3)
  note b = ban_parts_normal[OF p]
  let ?c = "c\<lparr>g_arg := ban_text n u h, g_nmask := Some n, g_umask := Some u, g_hmask := Some h\<rparr>"
  have "no_nul (ban_text n u h)" using ban_normal_no_nul[OF b] by (simp add: ban_text_def)
  moreover have "length (ban_text n u h) < PREFIX_SIZE" "ban_text n u h \<noteq> []"
    using b by (simp_all add: ban_text_def ban_normal_def part_ok_def PREFIX_SIZE_def ircd_sizes)
  ultimately have "change_ok (modes_table s) ps ?c" using c l by (simp add: change_ok_def chanmode_types)
  from mask_faithful[OF ok this] have f: "faithful s cptr k pre ?c (chanmode_bounce_mask ft shl s cptr k pre ?c)"
    using l by simp
  have r: "chanmode_bounce_ban ft shl s cptr k pre c = chanmode_bounce_mask ft shl s cptr k pre ?c"
    using True by (simp add: chanmode_bounce_ban_def p ban_format_text[OF b])
  show ?thesis unfolding r by (rule faithful_same[OF _ _ f]) simp_all
qed

lemma run_cb_faithful:
  assumes ok: "apply_ok s cptr k" and c: "change_ok (modes_table s) (dom (chanusers s)) c"
  shows "faithful s cptr k pre c (run_cb ft shl s cptr k pre c)"
proof -
  have fits: "m_cb (g_mode c) \<in> {Bounce_ban, Bounce_mask} \<longleftrightarrow> m_type (g_mode c) = CHANMODE_TYPE_LIST"
    "m_cb (g_mode c) = Chanuser_bounce \<longleftrightarrow> m_type (g_mode c) = CHANMODE_TYPE_PRIVILEGE" and b: "g_bounced c = 0"
    using c by (auto simp: change_ok_def cb_fits_def)
  have flag: "flag_change c" if "m_cb (g_mode c) \<notin> {Bounce_ban, Bounce_mask, Chanuser_bounce}"
    using that fits b by (auto simp: flag_change_def)
  have list: "m_type (g_mode c) = CHANMODE_TYPE_LIST" if "m_cb (g_mode c) \<in> {Bounce_ban, Bounce_mask}"
    using that fits by blast
  show ?thesis
  proof (cases "m_cb (g_mode c)")
    case Chanuser_bounce
    then show ?thesis using member_faithful[OF ok b] fits c by (simp add: run_cb_def change_ok_def)
  next
    case Bounce_ban
    then show ?thesis using ban_faithful[OF ok c list] by (simp add: run_cb_def)
  next
    case Bounce_mask
    then show ?thesis using mask_faithful[OF ok c list] by (simp add: run_cb_def)
  next
    case Bounce_simple
    then show ?thesis using bounce_simple_faithful[OF ok flag] by (simp add: run_cb_def)
  next
    case Alarm_bounce
    then show ?thesis using bounce_simple_faithful[OF ok flag] by (simp add: run_cb_def)
  next
    case Key_bounce
    then show ?thesis using cm_key_faithful[OF ok flag] by (simp add: run_cb_def)
  next
    case Limit_bounce
    then show ?thesis using cm_limit_faithful[OF ok flag] by (simp add: run_cb_def)
  next
    case Invite_bounce
    then show ?thesis using cm_invite_faithful[OF ok flag] by (simp add: run_cb_def)
  qed
qed

section \<open>The loop\<close>

lemma replay_query: "g_what c = CHANMODE_QUERY \<Longrightarrow> replay c v = v"
proof -
  assume q: "g_what c = CHANMODE_QUERY"
  have "map_option (switch CHANMODE_QUERY f) x = x" for f x by (cases x) simp_all
  then have "replay_member c v = v" using q by (simp add: replay_member_def cong: if_cong)
  then show ?thesis using q by (simp add: replay_def replay_list_def replay_flag_def replay_limit_def Let_def)
qed

text \<open>Sending numerics.\<close>

lemma sends_kept:
  assumes "apply_ok s cptr k"
  shows "kept s (fold (\<lambda>x. send (f x)) xs s) cptr k \<and> view (fold (\<lambda>x. send (f x)) xs s) k = view s k"
  using assms
proof (induction xs arbitrary: s)
  case (Cons x xs)
  have "kept s (send (f x) s) cptr k" by (rule kept_send[OF Cons.prems])
  then show ?case using Cons.IH[of "send (f x) s"] by (auto simp: kept_def)
qed (simp add: kept_refl)

lemma chanmode_list_kept:
  assumes ok: "apply_ok s cptr k" and i: "chanmode_index l < 64"
  obtains s' where "chanmode_list s cptr k l = Some s'" "kept s s' cptr k" "view s' k = view s k"
proof -
  obtain ch where k: "channels s k = Some ch" "length (ch_modelists ch) = 64" "privileges_ok (modes_table s)"
    by (rule apply_okD[OF ok]) (rule that)
  let ?m = "modes_table s ! chanmode_index l" and ?xs = "ch_modelists ch ! chanmode_index l"
  let ?t = "fold (\<lambda>x. send (Numeric cptr (unat (m_order ?m)) [Str (ch_name ch), Str (i_mask x), Str (i_info x), Num (unat (i_ts x))])) ?xs s"
  have t: "kept s ?t cptr k" "view ?t k = view s k"
    by (rule sends_kept[OF ok, THEN conjunct1], rule sends_kept[OF ok, THEN conjunct2])
  then have "kept ?t (send x ?t) cptr k" for x by (intro kept_send) (simp add: kept_def)
  then have "kept s (send x ?t) cptr k" for x using kept_trans[OF t(1)] by blast
  moreover have "length (modes_table s) = 64" using k(3) by (simp add: privileges_ok_def table_ok_def)
  ultimately show ?thesis
    using that t(2) k i by (simp add: chanmode_list_def rd_def Let_def)
qed

lemma tell_kept:
  assumes ok: "apply_ok s cptr k"
  obtains s' where "tell_local_user s cptr x = Some s'" "kept s s' cptr k" "view s' k = view s k"
proof -
  obtain cl where "clients s cptr = Some cl" using ok by (auto simp: apply_ok_def source_ok_def)
  then have "tell_local_user s cptr x = Some (send x s) \<or> tell_local_user s cptr x = Some s"
    by (simp add: tell_local_user_def)
  then show ?thesis
    using that[OF _ kept_send[OF ok, of x] view_send] that[OF _ kept_refl[OF ok] refl] by blast
qed

lemma change_ok_kept: "kept s t cptr k \<Longrightarrow> change_ok (modes_table s) (dom (chanusers s)) c \<Longrightarrow>
    change_ok (modes_table t) (dom (chanusers t)) c"
  by (simp add: kept_def)

text \<open>One change of the loop: what is appended to the changes passed, and the state.\<close>

definition loop_done :: "ircd \<Rightarrow> ptr \<Rightarrow> ptr \<Rightarrow> chanmodechange list \<Rightarrow> (ircd \<times> chanmodechange list \<times> nat) option \<Rightarrow> bool" where
  "loop_done s cptr k pre r \<longleftrightarrow> (\<exists>s' cs n. r = Some (s', pre @ cs, n) \<and> kept s s' cptr k \<and>
     view s' k = map_option (fold replay (announced cs)) (view s k))"

lemma loop_done_step:
  assumes "kept s t cptr k" "view t k = map_option (fold replay (announced ds)) (view s k)"
    "loop_done t cptr k (pre @ ds) r"
  shows "loop_done s cptr k pre r"
proof -
  obtain s' cs n where r: "r = Some (s', (pre @ ds) @ cs, n)" "kept t s' cptr k"
    "view s' k = map_option (fold replay (announced cs)) (view t k)"
    using assms(3) unfolding loop_done_def by blast
  have "view s' k = map_option (fold replay (announced (ds @ cs))) (view s k)"
    using r(3) assms(2) by (simp add: option.map_comp)
  then show ?thesis using r(1) kept_trans[OF assms(1) r(2)] unfolding loop_done_def by auto
qed

lemma apply_loop_done:
  assumes "apply_ok s cptr k" "\<forall>c \<in> set cs. change_ok (modes_table s) (dom (chanusers s)) c"
    "\<forall>p. cuptr = Some p \<longrightarrow> p \<in> dom (chanusers s)"
  shows "loop_done s cptr k pre (apply_loop ft shl s cptr k cuptr pre cs denied full n)"
  using assms
proof (induction cs arbitrary: s pre denied full n)
  case Nil
  then show ?case by (simp add: loop_done_def kept_refl option.map_id)
next
  case (Cons c cs)
  note ok = Cons.prems(1)
  obtain ch where ch: "channels s k = Some ch" by (rule apply_okD[OF ok])
  have c: "change_ok (modes_table s) (dom (chanusers s)) c" using Cons.prems(2) by simp
  obtain cl where cl: "clients s cptr = Some cl" using ok by (auto simp: apply_ok_def source_ok_def)
  obtain lacks where lacks: "lacks_privilege s cptr cuptr c = Some lacks"
    using Cons.prems(3) cl by (cases cuptr) (auto simp: lacks_privilege_def)
  have nxt: "loop_done s cptr k pre (apply_loop ft shl t cptr k cuptr (pre @ ds) cs d f m)"
    if "kept s t cptr k" "view t k = map_option (fold replay (announced ds)) (view s k)" for t ds d f m
  proof (rule loop_done_step[OF that])
    show "loop_done t cptr k (pre @ ds) (apply_loop ft shl t cptr k cuptr (pre @ ds) cs d f m)"
      using that(1) Cons.prems by (intro Cons.IH) (auto simp: kept_def)
  qed
  show ?case
  proof (cases lacks)
    case True
    let ?t = "if denied then s else send (Numeric cptr 482 [Str (ch_name ch)]) s"
    have "kept s ?t cptr k" "view ?t k = map_option (fold replay (announced [bounce c])) (view s k)"
      using kept_send[OF ok] kept_refl[OF ok] by (simp_all add: option.map_id)
    from nxt[OF this] show ?thesis using lacks True ch by simp
  next
    case False
    obtain t ins c' rc where r: "run_cb ft shl s cptr k pre c = Some (t, pre @ ins, c', rc)" "rc \<in> {0, 1, - 2}"
      "kept s t cptr k" "g_mode c' = g_mode c" "g_what c' = g_what c" "g_bounced c' = 0" "\<forall>d \<in> set ins. g_bounced d = 0"
      "view t k = map_option (fold replay (ins @ (if rc = 0 then [c'] else []))) (view s k)"
      using run_cb_faithful[OF ok c, of pre ft shl] unfolding faithful_def by blast
    have ins: "announced ins = ins" using r(7) by (simp add: announced_def filter_id_conv)
    have okt: "apply_ok t cptr k" using r(3) by (simp add: kept_def)
    note step = lacks False ch r(1)
    have bounced: "loop_done s cptr k pre (apply_loop ft shl u cptr k cuptr (pre @ ins @ [bounce c']) cs d f m)"
      if "kept t u cptr k" "view u k = view t k" "rc \<noteq> 0 \<or> g_what c' = CHANMODE_QUERY" for u d f m
    proof (rule nxt[OF kept_trans[OF r(3) that(1)]])
      show "view u k = map_option (fold replay (announced (ins @ [bounce c']))) (view s k)"
        using that(2,3) r(8) ins by (auto simp: replay_query comp_def)
    qed
    consider (is_full) "rc = - 2" | (bounced) "rc = 1" | (query) "rc = 0" "g_what c' = CHANMODE_QUERY"
      | (through) "rc = 0" "g_what c' \<noteq> CHANMODE_QUERY" using r(2) by auto
    then show ?thesis
    proof cases
      case is_full
      obtain u where u: "(if full then Some t else tell_local_user t cptr (Numeric cptr 478 [Str (ch_name ch), Str (g_arg c')])) = Some u"
        "kept t u cptr k" "view u k = view t k"
        by (cases "full") (use that[of t] that tell_kept[OF okt] kept_refl[OF okt] in auto)
      show ?thesis using bounced[OF u(2,3)] is_full step u(1) by simp
    next
      case bounced2: bounced
      show ?thesis using bounced[OF kept_refl[OF okt] refl] bounced2 step by simp
    next
      case query
      obtain u where u: "(if m_type (g_mode c') = CHANMODE_TYPE_LIST then chanmode_list t cptr k (m_letter (g_mode c')) else Some t) = Some u"
        "kept t u cptr k" "view u k = view t k"
      proof -
        have "chanmode_index (m_letter (g_mode c')) < 64" using c r(4) by (simp add: change_ok_def)
        then show ?thesis
          by (cases "m_type (g_mode c') = CHANMODE_TYPE_LIST")
            (use that[of t] that chanmode_list_kept[OF okt] kept_refl[OF okt] in auto)
      qed
      show ?thesis using bounced[OF u(2,3)] query step u(1) r(6) by simp
    next
      case through
      have "view t k = map_option (fold replay (announced (ins @ [c']))) (view s k)"
        using r(6,8) ins through by simp
      from nxt[OF r(3) this] show ?thesis using through step by simp
    qed
  qed
qed

section \<open>A state to start from\<close>

definition ban_mode :: chanmode where
  "ban_mode = \<lparr>m_letter = CHR ''b'', m_prefix = NUL, m_type = CHANMODE_TYPE_LIST,
     m_need = chflg (CHR ''o''), m_order = 367, m_cb = Bounce_ban, m_flag = chflg (CHR ''b'')\<rparr>"

definition ban_table :: "chanmode list" where
  "ban_table = ohv_table[34 := ban_mode]"

lemma ban_table_ok: "privileges_ok ban_table" "ban_table ! 34 = ban_mode" "ban_table ! 54 = privilege_mode (CHR ''v'') (CHR ''+'') 20"
proof -
  have a: "chars_isalpha (CHR ''b'')" by (simp add: class_tests alpha_byte_def)
  have c: "CHR ''b'' = (char_of (98::nat) :: char)" by code_simp
  have n: "ban_table ! i = (if i = 34 then ban_mode else ohv_table ! i)" if "i < 64" for i
    using that by (simp add: ban_table_def nth_list_update ohv_table_def)
  have np: "\<not> is_privilege ban_mode" by (simp add: is_privilege_def ban_mode_def chanmode_types)
  have p: "is_privilege (ban_table ! i) \<longleftrightarrow> i \<noteq> 34 \<and> is_privilege (ohv_table ! i)" if "i < 64" for i
    using that by (auto simp: n is_privilege_def ban_mode_def chanmode_types)
  have "table_ok ban_table"
    using ohv_privileges_ok a c unfolding privileges_ok_def table_ok_def
    by (auto simp: n ban_mode_def chflg_def) (simp add: ban_table_def)
  then show "privileges_ok ban_table"
    using ohv_privileges_ok np unfolding privileges_ok_def by (simp add: n p)
  show "ban_table ! 34 = ban_mode" "ban_table ! 54 = privilege_mode (CHR ''v'') (CHR ''+'') 20"
    by (simp_all add: n ohv_table_nth)
qed

text \<open>A channel with an operator and a member, and one ban.\<close>

definition a_member :: "ptr \<Rightarrow> bool \<Rightarrow> 64 word \<Rightarrow> chanuser" where
  "a_member c loc fl = \<lparr>cu_local = loc, cu_serial = 0, cu_channel = 1, cu_client = c, cu_flags = fl, cu_prefix = []\<rparr>"

definition a_ban :: "string \<Rightarrow> chanmodeitem" where
  "a_ban m = \<lparr>i_mask = m, i_nmask = ''*'', i_umask = ''*'', i_hmask = ''*'', i_info = [], i_ts = 0, i_ihash = 0\<rparr>"

definition op_channel :: channel where
  "op_channel = channel_zero\<lparr>ch_name := ''#a'', ch_chanusers := [2, 3], ch_lchanusers := [2], ch_rchanusers := [3],
     ch_modelists := (replicate 64 [])[34 := [a_ban ''*!*@evil'']]\<rparr>"

definition op_room :: ircd where
  "op_room = two_clients\<lparr>chanusers := [2 \<mapsto> a_member 10 True (chflg (CHR ''o'')), 3 \<mapsto> a_member 11 False 0],
     channels := [1 \<mapsto> op_channel], modes_table := ban_table\<rparr>"

lemma op_room_ok: "apply_ok op_room 10 1"
proof -
  have b: "mask_ok ''*!*@evil''" by (simp add: mask_ok_def PREFIX_SIZE_def ircd_sizes)
  have "invites_wf op_room"
    by (auto simp: op_room_def two_clients_def boot_state_def invites_wf_def invites_unique_def invite_block_def
      chan_invites_def user_invites_def a_user_def op_channel_def channel_zero_def split: if_splits)
  moreover have "source_ok op_room 10"
    by (simp add: source_ok_def op_room_def two_clients_def boot_state_def a_client_def a_user_def)
  moreover have "masks_ok (ch_modelists op_channel)"
  proof -
    have "list_wf [a_ban ''*!*@evil'']" "list_wf []" using b by (simp_all add: list_wf_def a_ban_def IRCD_MAXBANS_def)
    moreover have "set (ch_modelists op_channel) \<subseteq> {[], [a_ban ''*!*@evil'']}"
      using set_update_subset_insert[of "replicate 64 []" 34 "[a_ban ''*!*@evil'']"] by (auto simp: op_channel_def)
    ultimately show ?thesis unfolding masks_ok_def by blast
  qed
  moreover have "channels op_room 1 = Some op_channel" "length (ch_modelists op_channel) = 64" "modes_table op_room = ban_table"
    by (simp_all add: op_room_def op_channel_def)
  ultimately show ?thesis using ban_table_ok(1) by (simp add: apply_ok_def)
qed

definition ban_change :: "what \<Rightarrow> string \<Rightarrow> chanmodechange" where
  "ban_change w m = (change_zero ban_mode w)\<lparr>g_arg := m\<rparr>"

definition voice_change :: "what \<Rightarrow> chanmodechange" where
  "voice_change w = (change_zero (privilege_mode (CHR ''v'') (CHR ''+'') 20) w)\<lparr>g_acptr := Some 11, g_target := Some 3\<rparr>"

lemma example_changes_ok:
  "mask_ok m \<Longrightarrow> change_ok (modes_table op_room) (dom (chanusers op_room)) (ban_change w m)"
  "change_ok (modes_table op_room) (dom (chanusers op_room)) (voice_change w)"
proof -
  have i: "chanmode_index (CHR ''b'') = 34" "chanmode_index (CHR ''v'') = 54" by (simp_all add: chanmode_index_letter)
  have t: "modes_table op_room = ban_table" "dom (chanusers op_room) = {2, 3}" by (auto simp: op_room_def)
  have l: "m_letter ban_mode = CHR ''b''" by (simp add: ban_mode_def)
  show "mask_ok m \<Longrightarrow> change_ok (modes_table op_room) (dom (chanusers op_room)) (ban_change w m)"
    by (simp add: change_ok_def t ban_change_def change_zero_def l i ban_table_ok mask_ok_def)
      (simp add: cb_fits_def ban_mode_def chanmode_types)
  show "change_ok (modes_table op_room) (dom (chanusers op_room)) (voice_change w)"
    by (simp add: change_ok_def t voice_change_def change_zero_def privilege_mode_def i ban_table_ok cb_fits_def
        PREFIX_SIZE_def ircd_sizes chanmode_types)
qed

section \<open>The properties\<close>

text \<open>C3. Applying a line of changes returns, keeps the state well formed, and what it leaves
  unbounced is the whole truth: whoever applies the changes that are not bounced, in their order,
  to what was known of the flags, the limit, the masks and the privileges of the channel, knows
  what the channel is now. This covers the changes the sweeps insert for the masks they remove,
  the changes denied, refused or found without effect, and the queries.\<close>

theorem chanmode_apply_announces:
  assumes "apply_ok s cptr k" "\<forall>c \<in> set cs. change_ok (modes_table s) (dom (chanusers s)) c"
    "\<forall>p. cuptr = Some p \<longrightarrow> (\<exists>cu. chanusers s p = Some cu \<and> cu_client cu = cptr \<and> cu_channel cu = k)"
  shows "\<exists>s' cs' n. chanmode_apply ft shl s cptr k cuptr cs = Some (s', cs', n) \<and> apply_ok s' cptr k \<and>
    view s' k = map_option (fold replay (announced cs')) (view s k)"
proof -
  have e: "chanmode_apply ft shl s cptr k cuptr cs = apply_loop ft shl s cptr k cuptr [] cs False False 0"
    using assms(3) by (cases cuptr) (auto simp: chanmode_apply_def)
  have "loop_done s cptr k [] (apply_loop ft shl s cptr k cuptr [] cs False False 0)"
    using assms by (intro apply_loop_done) auto
  then show ?thesis unfolding e loop_done_def kept_def by auto
qed

theorem chanmode_apply_announces_witness:
  "\<exists>s' cs' n. chanmode_apply str_init (\<lambda>_. 0) op_room 10 1 (Some 2)
      [voice_change CHANMODE_ADD, ban_change CHANMODE_ADD ''*!*@*''] = Some (s', cs', n) \<and> apply_ok s' 10 1 \<and>
    view s' 1 = map_option (fold replay (announced cs')) (view op_room 1)"
  by (rule chanmode_apply_announces[OF op_room_ok])
    (use example_changes_ok in \<open>auto simp: mask_ok_def PREFIX_SIZE_def ircd_sizes op_room_def a_member_def\<close>)

text \<open>C5. A local user without the privileges the modes need changes nothing: all changes are
  bounced, and one numeric is sent.\<close>

theorem unprivileged_changes_nothing:
  assumes "chanusers s p = Some cu" "clients s (cu_client cu) = Some cl" "client_is_user cl" "client_is_local cl"
    "channels s (cu_channel cu) = Some ch"
    "\<forall>c \<in> set cs. g_what c \<noteq> CHANMODE_QUERY \<and> cu_flags cu AND m_need (g_mode c) = 0"
  shows "chanmode_apply ft shl s cptr k (Some p) cs =
    Some (if cs = [] then s else send (Numeric (cu_client cu) 482 [Str (ch_name ch)]) s, map bounce cs, 0)"
proof -
  let ?t = "send (Numeric (cu_client cu) 482 [Str (ch_name ch)])"
  have "apply_loop ft shl s (cu_client cu) (cu_channel cu) (Some p) pre cs d f 0 =
      Some (if cs = [] \<or> d then s else ?t s, pre @ map bounce cs, 0)"
    if "chanusers s p = Some cu" "clients s (cu_client cu) = Some cl" "channels s (cu_channel cu) = Some ch" for s pre d f
    using assms(6) that
  proof (induction cs arbitrary: s pre d)
    case (Cons c cs)
    have "lacks_privilege s (cu_client cu) (Some p) c = Some True"
      using Cons.prems assms(3,4) by (simp add: lacks_privilege_def)
    moreover have "apply_loop ft shl u (cu_client cu) (cu_channel cu) (Some p) (pre @ [bounce c]) cs True f 0 =
        Some (u, (pre @ [bounce c]) @ map bounce cs, 0)" if "u = s \<or> u = ?t s" for u
      using Cons.IH[of u "pre @ [bounce c]" True] Cons.prems that by auto
    ultimately show ?case using Cons.prems by simp
  qed simp
  from this[of s "[]" False False] show ?thesis using assms(1,2,5) by (simp add: chanmode_apply_def)
qed

theorem unprivileged_changes_nothing_witness:
  "chanmode_apply str_init (\<lambda>_. 0) (op_room\<lparr>chanusers := (chanusers op_room)(2 \<mapsto> a_member 10 True 0)\<rparr>) 10 1 (Some 2)
     [ban_change CHANMODE_ADD ''*!*@*''] =
   Some (send (Numeric 10 482 [Str ''#a'']) (op_room\<lparr>chanusers := (chanusers op_room)(2 \<mapsto> a_member 10 True 0)\<rparr>),
     [bounce (ban_change CHANMODE_ADD ''*!*@*'')], 0)"
proof -
  let ?s = "op_room\<lparr>chanusers := (chanusers op_room)(2 \<mapsto> a_member 10 True 0)\<rparr>"
  have "chanmode_apply str_init (\<lambda>_. 0) ?s 10 1 (Some 2) [ban_change CHANMODE_ADD ''*!*@*''] =
      Some (if [ban_change CHANMODE_ADD ''*!*@*''] = [] then ?s
        else send (Numeric (cu_client (a_member 10 True 0)) 482 [Str (ch_name op_channel)]) ?s,
        map bounce [ban_change CHANMODE_ADD ''*!*@*''], 0)"
    by (rule unprivileged_changes_nothing[where cl = "a_client CLIENT_LOCAL 20 ''alice''"])
      (simp_all add: op_room_def two_clients_def boot_state_def a_member_def a_client_def client_is_user_def
        client_is_local_def ban_change_def change_zero_def)
  then show ?thesis by (simp add: a_member_def op_channel_def)
qed

lemma replay_origin:
  assumes "a \<in># v_masks (fold replay cs v) i"
  shows "a \<in># v_masks v i \<or> (\<exists>c \<in> set cs. m_type (g_mode c) = CHANMODE_TYPE_LIST \<and> g_what c = CHANMODE_ADD \<and>
    chanmode_index (m_letter (g_mode c)) = i \<and> g_arg c = a)"
  using assms
proof (induction cs arbitrary: v)
  case (Cons c cs)
  have "a \<in># v_masks v i \<or> m_type (g_mode c) = CHANMODE_TYPE_LIST \<and> g_what c = CHANMODE_ADD \<and>
      chanmode_index (m_letter (g_mode c)) = i \<and> g_arg c = a" if "a \<in># v_masks (replay c v) i"
    using that by (auto simp: replay_def replay_list_def replay_member_def replay_limit_def replay_flag_def Let_def
      split: if_splits what.splits dest: in_diffD)
  then show ?case using Cons by fastforce
qed simp

text \<open>C4. The mask lists of a channel are kept in order by every line of changes, whether it comes from a
  member, with its block \<open>cuptr\<close>, or from a server or an outsider, without one: if in each list at most
  \<open>IRCD_MAXBANS\<close> masks stood and none matched another (\<open>masks_ok\<close> in \<open>apply_ok\<close>), the call returns
  and this holds again, in both directions for any two masks; and every mask in a list stood in
  that list before or was put there by a change to the mode of that list that is announced.\<close>

theorem mask_lists_stay_antichains:
  assumes "apply_ok s cptr k" "channels s k = Some ch" "\<forall>c \<in> set cs. change_ok (modes_table s) (dom (chanusers s)) c"
    and member: "\<forall>p. cuptr = Some p \<longrightarrow> (\<exists>cu. chanusers s p = Some cu \<and> cu_client cu = cptr \<and> cu_channel cu = k)"
  shows "\<exists>s' ch' cs' n. chanmode_apply ft shl s cptr k cuptr cs = Some (s', cs', n) \<and> channels s' k = Some ch' \<and>
    (\<forall>xs \<in> set (ch_modelists ch'). length xs \<le> IRCD_MAXBANS \<and>
      (\<forall>i < length xs. \<forall>j < length xs. i \<noteq> j \<longrightarrow> matches (i_mask (xs ! i)) (i_mask (xs ! j)) = Some False)) \<and>
    (\<forall>i < 64. \<forall>x \<in> set (ch_modelists ch' ! i). (\<exists>y \<in> set (ch_modelists ch ! i). i_mask y = i_mask x) \<or>
      (\<exists>c \<in> set cs'. g_bounced c = 0 \<and> m_type (g_mode c) = CHANMODE_TYPE_LIST \<and> g_what c = CHANMODE_ADD \<and>
        chanmode_index (m_letter (g_mode c)) = i \<and> g_arg c = i_mask x))"
proof -
  have e: "chanmode_apply ft shl s cptr k cuptr cs = apply_loop ft shl s cptr k cuptr [] cs False False 0"
    using member by (cases cuptr) (auto simp: chanmode_apply_def)
  have "loop_done s cptr k [] (apply_loop ft shl s cptr k cuptr [] cs False False 0)"
    using assms by (intro apply_loop_done) auto
  then obtain s' cs' n where r: "chanmode_apply ft shl s cptr k cuptr cs = Some (s', cs', n)" "apply_ok s' cptr k"
    "view s' k = map_option (fold replay (announced cs')) (view s k)"
    unfolding e loop_done_def kept_def by auto
  obtain ch' where ch': "channels s' k = Some ch'" "length (ch_modelists ch') = 64" "masks_ok (ch_modelists ch')"
    by (rule apply_okD[OF r(2)]) (rule that)
  have len: "length (ch_modelists ch) = 64" using assms(1,2) by (simp add: apply_ok_def)
  have "matches (i_mask (xs ! i)) (i_mask (xs ! j)) = Some False"
    if "xs \<in> set (ch_modelists ch')" "i < length xs" "j < length xs" "i \<noteq> j" for xs i j
  proof -
    have "\<not> clash (i_mask (xs ! a)) (i_mask (xs ! b))" if "a < b" "b < length xs" for a b
      using ch'(3) \<open>xs \<in> _\<close> that by (auto simp: masks_ok_def list_wf_def sorted_wrt_iff_nth_less)
    then have "\<not> clash (i_mask (xs ! i)) (i_mask (xs ! j))"
      using that clash_sym by (metis nat_neq_iff)
    then show ?thesis by (simp add: clash_def)
  qed
  moreover have "length xs \<le> IRCD_MAXBANS" if "xs \<in> set (ch_modelists ch')" for xs
    using ch'(3) that by (simp add: masks_ok_def list_wf_def)
  moreover have "(\<exists>y \<in> set (ch_modelists ch ! i). i_mask y = i_mask x) \<or>
      (\<exists>c \<in> set cs'. g_bounced c = 0 \<and> m_type (g_mode c) = CHANMODE_TYPE_LIST \<and> g_what c = CHANMODE_ADD \<and>
        chanmode_index (m_letter (g_mode c)) = i \<and> g_arg c = i_mask x)"
    if x: "i < 64" "x \<in> set (ch_modelists ch' ! i)" for i x
  proof -
    obtain v where v: "view s k = Some v" "v_masks v = masks_of (ch_modelists ch)" using assms(2) by (simp add: view_def)
    have "fold replay (announced cs') v = the (view s' k)" using r(3) v(1) by simp
    then have "v_masks (fold replay (announced cs') v) i = masks_of (ch_modelists ch') i"
      by (simp add: view_def ch'(1))
    then have "i_mask x \<in># v_masks (fold replay (announced cs') v) i" using x ch'(2) by (auto simp: masks_of_def)
    from replay_origin[OF this] show ?thesis
      using v(2) x(1) len by (auto simp: masks_of_def announced_def)
  qed
  ultimately show ?thesis using r(1) ch'(1) by blast
qed

theorem mask_lists_stay_antichains_witness:
  "\<exists>s' ch' cs' n. chanmode_apply str_init (\<lambda>_. 0) op_room 10 1 (Some 2)
      [ban_change CHANMODE_ADD ''*!*@*'', ban_change CHANMODE_ADD ''bob''] = Some (s', cs', n) \<and> channels s' 1 = Some ch' \<and>
    (\<forall>xs \<in> set (ch_modelists ch'). length xs \<le> IRCD_MAXBANS \<and>
      (\<forall>i < length xs. \<forall>j < length xs. i \<noteq> j \<longrightarrow> matches (i_mask (xs ! i)) (i_mask (xs ! j)) = Some False)) \<and>
    (\<forall>i < 64. \<forall>x \<in> set (ch_modelists ch' ! i). (\<exists>y \<in> set (ch_modelists op_channel ! i). i_mask y = i_mask x) \<or>
      (\<exists>c \<in> set cs'. g_bounced c = 0 \<and> m_type (g_mode c) = CHANMODE_TYPE_LIST \<and> g_what c = CHANMODE_ADD \<and>
        chanmode_index (m_letter (g_mode c)) = i \<and> g_arg c = i_mask x))"
  by (rule mask_lists_stay_antichains[OF op_room_ok])
    (use example_changes_ok in \<open>auto simp: mask_ok_def PREFIX_SIZE_def ircd_sizes op_room_def a_member_def\<close>)

text \<open>C21. A key given to a channel that has another key replaces it, and the change is bounced: it is
  sent to nobody, so that members and servers keep the old key. Only giving the same key again
  is announced.\<close>

theorem cm_key_replaced_silently:
  assumes "channels s k = Some ch" "g_what c = CHANMODE_ADD" "ch_modes ch AND m_flag (g_mode c) \<noteq> 0"
    "no_nul (ch_key ch)" "no_nul (g_arg c)" "0 < length (g_arg c)" "length (g_arg c) \<le> IRCD_KEYLEN"
  shows "cm_key_bounce s k pre c =
    (if g_arg c = ch_key ch
     then Some (put_channel k (ch\<lparr>ch_modes := ch_modes ch OR m_flag (g_mode c), ch_key := g_arg c\<rparr>) s, pre, c, 0)
     else Some (put_channel k (ch\<lparr>ch_key := g_arg c\<rparr>) s, pre, c, 1))"
proof -
  have f: "field (Suc IRCD_KEYLEN) (g_arg c) = g_arg c" using assms(5,7) by (simp add: field_id)
  have n: "cur (g_arg c) \<noteq> NUL" using assms(5,6) by (cases "g_arg c") (auto simp: no_nul_def)
  have cmp: "str_cmp (ch_key ch) (g_arg c) = 0 \<longleftrightarrow> g_arg c = ch_key ch"
    using assms(4,5) by (auto simp: str_cmp_0)
  have kp: "channels (put_channel k x s) k = Some x" for x by simp
  show ?thesis
  proof (cases "g_arg c = ch_key ch")
    case True
    then have "field (Suc IRCD_KEYLEN) (ch_key ch) = ch_key ch" using f by simp
    then show ?thesis
      using n assms(1-3) True by (simp add: cm_key_bounce_def bounce_simple_result[OF kp] str_cmp_0 Let_def)
  next
    case False
    then show ?thesis
      using n assms(1-3) by (simp add: cm_key_bounce_def bounce_simple_result[OF kp] f cmp Let_def)
  qed
qed

definition key_mode :: chanmode where
  "key_mode = \<lparr>m_letter = CHR ''k'', m_prefix = NUL, m_type = CHANMODE_TYPE_KEY,
     m_need = chflg (CHR ''o''), m_order = 0, m_cb = Key_bounce, m_flag = chflg (CHR ''k'')\<rparr>"

theorem cm_key_replaced_silently_witness:
  "cm_key_bounce (put_channel 1 (op_channel\<lparr>ch_modes := chflg (CHR ''k''), ch_key := ''old''\<rparr>) op_room) 1 []
     ((change_zero key_mode CHANMODE_ADD)\<lparr>g_arg := ''new''\<rparr>) =
   Some (put_channel 1 (op_channel\<lparr>ch_modes := chflg (CHR ''k''), ch_key := ''new''\<rparr>) op_room, [],
     (change_zero key_mode CHANMODE_ADD)\<lparr>g_arg := ''new''\<rparr>, 1)"
proof -
  have "m_flag key_mode \<noteq> 0" by (simp add: key_mode_def chflg_def)
  then show ?thesis
    by (subst cm_key_replaced_silently[where ch = "op_channel\<lparr>ch_modes := chflg (CHR ''k''), ch_key := ''old''\<rparr>"])
      (simp_all add: change_zero_def IRCD_KEYLEN_def key_mode_def)
qed

end
