(* ===== verification/Chansend.thy ===== *)
theory Chansend
  imports Chanapply
begin

text \<open>
  Announcing mode changes (src/chanmode.c): the changes that were not bounced are written into
  lines of flags and arguments, which go to the local members of the channel and, with the names
  or the user ids of the targets, to the servers.
\<close>

section \<open>Assembling a line\<close>

definition IRCD_LINELEN :: nat where "IRCD_LINELEN = 2048"

definition IRCD_IDLEN :: nat where "IRCD_IDLEN = 8"

text \<open>The argument of a change: the name or the id of the target, or the text.\<close>

definition change_arg :: "ircd \<Rightarrow> bool \<Rightarrow> chanmodechange \<Rightarrow> string option" where
  "change_arg s uid c = (case g_acptr c of
     None \<Rightarrow> Some (g_arg c)
   | Some a \<Rightarrow> do {
       cl \<leftarrow> clients s a;
       if uid then do { u \<leftarrow> c_user cl; us \<leftarrow> users s u; Some (u_uid us) } else Some (c_name cl) })"

text \<open>The buffers with their positions, the number of changes written and the direction last
  written.\<close>

record assembly =
  a_modebuf :: string
  a_mi :: nat
  a_parabuf :: string
  a_pi :: nat
  a_i :: nat
  a_what :: "what option"

definition put_mode :: "char \<Rightarrow> assembly \<Rightarrow> assembly option" where
  "put_mode c a = do {
     b \<leftarrow> wr (a_modebuf a) (a_mi a) c;
     Some (a\<lparr>a_modebuf := b, a_mi := a_mi a + 1\<rparr>) }"

text \<open>The argument behind a blank, if there is one before; \<open>strcpy\<close> writes the terminator.\<close>

definition put_arg :: "string \<Rightarrow> assembly \<Rightarrow> assembly option" where
  "put_arg arg a = do {
     (b, p) \<leftarrow> (if a_pi a \<noteq> 0 then do { b \<leftarrow> wr (a_parabuf a) (a_pi a) (CHR '' ''); Some (b, a_pi a + 1) }
       else Some (a_parabuf a, a_pi a));
     (b, p) \<leftarrow> store_all b p (cstr arg);
     b \<leftarrow> wr b p NUL;
     Some (a\<lparr>a_parabuf := b, a_pi := p\<rparr>) }"

definition what_char :: "what \<Rightarrow> char" where
  "what_char w = (if w = CHANMODE_ADD then CHR ''+'' else CHR ''-'')"

text \<open>The body of the loop; \<open>True\<close> is the \<open>break\<close> for an argument that does not fit.\<close>

definition assemble_one :: "ircd \<Rightarrow> bool \<Rightarrow> nat \<Rightarrow> chanmodechange \<Rightarrow> assembly \<Rightarrow> (bool \<times> assembly) option" where
  "assemble_one s uid n c a =
     (if g_bounced c \<noteq> 0 then Some (False, a)
      else do {
        arg \<leftarrow> change_arg s uid c;
        if m_type (g_mode c) \<noteq> CHANMODE_TYPE_SINGLE \<and> a_pi a + length (cstr arg) + 2 > n then Some (True, a)
        else do {
          a \<leftarrow> (if m_type (g_mode c) \<noteq> CHANMODE_TYPE_SINGLE then put_arg arg a else Some a);
          a \<leftarrow> (if a_what a \<noteq> Some (g_what c)
            then map_option (\<lambda>a. a\<lparr>a_what := Some (g_what c)\<rparr>) (put_mode (what_char (g_what c)) a) else Some a);
          a \<leftarrow> put_mode (m_letter (g_mode c)) a;
          Some (False, a\<lparr>a_i := a_i a + 1\<rparr>) } })"

fun assemble_loop :: "ircd \<Rightarrow> bool \<Rightarrow> nat \<Rightarrow> nat \<Rightarrow> chanmodechange list \<Rightarrow> assembly \<Rightarrow>
    (assembly \<times> chanmodechange list) option" where
  "assemble_loop s uid n cnt [] a = Some (a, [])"
| "assemble_loop s uid n cnt (c # cs) a = do {
     (stop, a) \<leftarrow> assemble_one s uid n c a;
     if stop then Some (a, c # cs)
     else if a_i a < cnt \<and> a_i a < CHANMODE_PER_LINE then assemble_loop s uid n cnt cs a
     else Some (a, cs) }"

text \<open>The result: the two buffers and the changes that are left.\<close>

definition chanmode_assemble :: "ircd \<Rightarrow> string \<Rightarrow> string \<Rightarrow> chanmodechange list \<Rightarrow> nat \<Rightarrow> nat \<Rightarrow> bool \<Rightarrow>
    (string \<times> string \<times> chanmodechange list) option" where
  "chanmode_assemble s modebuf parabuf cs n cnt uid =
     (if cs = [] then Some (modebuf, parabuf, [])
      else do {
        (a, rest) \<leftarrow> assemble_loop s uid n cnt cs
          \<lparr>a_modebuf = modebuf, a_mi = 0, a_parabuf = parabuf, a_pi = 0, a_i = 0, a_what = None\<rparr>;
        m \<leftarrow> wr (a_modebuf a) (a_mi a) NUL;
        p \<leftarrow> wr (a_parabuf a) (a_pi a) NUL;
        Some (m, p, rest) })"

section \<open>Sending\<close>

text \<open>\<open>for(node = nptr; node;)\<close> over the lines: \<open>mk\<close> builds the message from the flags and the
  arguments. A line that takes no change makes the loop run forever, which is \<open>None\<close>.\<close>

partial_function (option) send_lines ::
  "(string \<Rightarrow> string \<Rightarrow> outmsg) \<Rightarrow> ircd \<Rightarrow> string \<Rightarrow> string \<Rightarrow> chanmodechange list \<Rightarrow> nat \<Rightarrow> nat \<Rightarrow> bool \<Rightarrow> ircd option" where
  "send_lines mk s mb pb cs n cnt uid =
     (if cs = [] then Some s
      else Option.bind (chanmode_assemble s mb pb cs n cnt uid) (\<lambda>(mb, pb, rest).
        send_lines mk (if cur mb \<noteq> NUL then send (mk (cstr mb) (cstr pb)) s else s) mb pb rest n cnt uid))"

definition line_format :: "string \<Rightarrow> string" where
  "line_format args = (if args = [] then ''%s %s'' else ''%s %s %s'')"

definition line_args :: "string \<Rightarrow> string \<Rightarrow> string \<Rightarrow> sarg list" where
  "line_args cmd fl args = Str cmd # Str fl # (if args = [] then [] else [Str args])"

text \<open>\<open>(IRCD_LINELEN - 2) - len - ((CHANMODE_PER_LINE * 2) + 1) - 3\<close> on \<open>size_t\<close>.\<close>

definition args_room :: "nat \<Rightarrow> nat" where
  "args_room len = unat (of_nat (IRCD_LINELEN - 2) - of_nat len - of_nat (CHANMODE_PER_LINE * 2 + 1) - 3 :: 64 word)"

definition mode_command :: "format_table \<Rightarrow> string \<Rightarrow> string option list \<Rightarrow> (string \<times> nat) option" where
  "mode_command ft fmt args = map_option (\<lambda>(b, n). (cstr b, n))
     (str_snprintf ft (replicate (IRCD_LINELEN - 1) NUL) (IRCD_LINELEN - 1) fmt (map ArgStr args))"

definition modebuf0 :: string where "modebuf0 = replicate (CHANMODE_PER_LINE * 2 + 1) NUL"
definition parabuf0 :: string where "parabuf0 = replicate (IRCD_LINELEN - 1) NUL"

definition chanmode_send_local :: "format_table \<Rightarrow> ircd \<Rightarrow> ptr \<Rightarrow> ptr \<Rightarrow> chanmodechange list \<Rightarrow> nat \<Rightarrow> ircd option" where
  "chanmode_send_local ft s cptr k cs cnt = do {
     cl \<leftarrow> clients s cptr;
     ch \<leftarrow> channels s k;
     (cmd, len) \<leftarrow> (if client_is_user cl
       then do {
         u \<leftarrow> c_user cl; us \<leftarrow> users s u;
         mode_command ft '':%s!%s@%s MODE %s'' [Some (c_name cl), Some (u_name us), Some (c_host cl), Some (ch_name ch)] }
       else mode_command ft '':%s MODE %s'' [Some (c_name cl), Some (ch_name ch)]);
     send_lines (\<lambda>fl args. Channel_line None k (line_format args) (line_args cmd fl args)) s
       modebuf0 parabuf0 cs (args_room len) cnt False }"

text \<open>To the servers that know user ids, and to the others; \<open>lcptr\<close> is the link the changes came
  from.\<close>

definition chanmode_send_remote :: "format_table \<Rightarrow> ircd \<Rightarrow> ptr option \<Rightarrow> ptr \<Rightarrow> ptr \<Rightarrow> chanmodechange list \<Rightarrow> ircd option" where
  "chanmode_send_remote ft s lcptr cptr k cs = do {
     cl \<leftarrow> clients s cptr;
     ch \<leftarrow> channels s k;
     (cmd, len) \<leftarrow> (if client_is_user cl
       then do { u \<leftarrow> c_user cl; us \<leftarrow> users s u; mode_command ft '':%s MODE %s'' [Some (u_uid us), Some (ch_name ch)] }
       else mode_command ft '':%s MODE %s'' [Some (c_name cl), Some (ch_name ch)]);
     s \<leftarrow> send_lines (\<lambda>fl args. Server_line lcptr None CAP_UID CAP_NONE (line_format args) (line_args cmd fl args)) s
       modebuf0 parabuf0 cs (args_room len) CHANMODE_PER_LINE True;
     (cmd, len) \<leftarrow> (if client_is_user cl
       then mode_command ft '':%s MODE %s'' [Some (c_name cl), Some (ch_name ch)] else Some (cmd, len));
     send_lines (\<lambda>fl args. Server_line lcptr None CAP_NONE CAP_UID (line_format args) (line_args cmd fl args)) s
       modebuf0 parabuf0 cs (args_room len) CHANMODE_PER_LINE False }"

text \<open>What \<open>channel_vsend\<close> makes of its format and arguments, and \<open>server_vsend\<close> in the same way: the text,
  cut by \<open>str_vsnprintf\<close> to what fits into \<open>sizeof(buf) - 2\<close>, and the line separator.\<close>

definition line_bytes :: "format_table \<Rightarrow> string \<Rightarrow> farg list \<Rightarrow> string option" where
  "line_bytes ft fmt args = do {
     (b, n) \<leftarrow> str_vsnprintf ft (replicate (IRCD_LINELEN + 1) NUL) (IRCD_LINELEN + 1 - 2) fmt args;
     b \<leftarrow> wr b n (CHR 0x0D);
     b \<leftarrow> wr b (n + 1) (CHR 0x0A);
     Some (take (n + 2) b) }"

text \<open>The bytes of a message whose arguments are all strings.\<close>

fun string_args :: "sarg list \<Rightarrow> farg list option" where
  "string_args [] = Some []"
| "string_args (Str t # as) = map_option (\<lambda>fs. ArgStr (Some t) # fs) (string_args as)"
| "string_args (_ # as) = None"

fun wire :: "format_table \<Rightarrow> outmsg \<Rightarrow> string option" where
  "wire ft (Channel_line one k fmt args) = Option.bind (string_args args) (line_bytes ft fmt)"
| "wire ft (Server_line one k caps nocaps fmt args) = Option.bind (string_args args) (line_bytes ft fmt)"
| "wire ft _ = None"

section \<open>The text of a line\<close>

fun flag_text :: "what option \<Rightarrow> chanmodechange list \<Rightarrow> string" where
  "flag_text w [] = []"
| "flag_text w (c # cs) = (if w \<noteq> Some (g_what c) then [what_char (g_what c)] else []) @
     m_letter (g_mode c) # flag_text (Some (g_what c)) cs"

definition takes_arg :: "chanmodechange \<Rightarrow> bool" where
  "takes_arg c \<longleftrightarrow> m_type (g_mode c) \<noteq> CHANMODE_TYPE_SINGLE"

definition arg_of :: "ircd \<Rightarrow> bool \<Rightarrow> chanmodechange \<Rightarrow> string" where
  "arg_of s uid c = the (change_arg s uid c)"

text \<open>A blank goes in front of an argument unless nothing was written before.\<close>

fun args_text :: "ircd \<Rightarrow> bool \<Rightarrow> string \<Rightarrow> chanmodechange list \<Rightarrow> string" where
  "args_text s uid t [] = t"
| "args_text s uid t (c # cs) = args_text s uid
     (if takes_arg c then (if t = [] then arg_of s uid c else t @ CHR '' '' # arg_of s uid c) else t) cs"

lemma flag_text_append:
  "flag_text w (cs @ [c]) = flag_text w cs @ (if (if cs = [] then w else Some (g_what (last cs))) \<noteq> Some (g_what c)
     then [what_char (g_what c)] else []) @ [m_letter (g_mode c)]"
  by (induction w cs rule: flag_text.induct) auto

lemma args_text_append [simp]: "args_text s uid t (cs @ ds) = args_text s uid (args_text s uid t cs) ds"
  by (induction s uid t cs rule: args_text.induct) auto

lemma flag_text_length: "length (flag_text w cs) \<le> 2 * length cs"
  by (induction w cs rule: flag_text.induct) auto

text \<open>The changes written so far are \<open>xs\<close>.\<close>

definition flags_done :: "chanmodechange list \<Rightarrow> assembly \<Rightarrow> bool" where
  "flags_done xs a \<longleftrightarrow> length (a_modebuf a) = 33 \<and> a_mi a = length (flag_text None xs) \<and>
     take (length (flag_text None xs)) (a_modebuf a) = flag_text None xs \<and> a_what a = (if xs = [] then None else Some (g_what (last xs)))"

definition args_done :: "nat \<Rightarrow> string \<Rightarrow> assembly \<Rightarrow> bool" where
  "args_done n t a \<longleftrightarrow> length (a_parabuf a) = 2047 \<and> a_pi a = length t \<and> take (length t) (a_parabuf a) = t \<and> a_pi a < max n 1"

definition assembled :: "ircd \<Rightarrow> bool \<Rightarrow> nat \<Rightarrow> chanmodechange list \<Rightarrow> assembly \<Rightarrow> bool" where
  "assembled s uid n xs a \<longleftrightarrow> flags_done xs a \<and> args_done n (args_text s uid [] xs) a \<and> a_i a = length xs"

definition sendable :: "ircd \<Rightarrow> bool \<Rightarrow> nat \<Rightarrow> chanmodechange \<Rightarrow> bool" where
  "sendable s uid n c \<longleftrightarrow> m_letter (g_mode c) \<noteq> NUL \<and>
     (\<exists>arg. change_arg s uid c = Some arg \<and> no_nul arg \<and> length arg + 2 \<le> n)"

lemma put_mode_ok:
  assumes "a_mi a < length (a_modebuf a)"
  shows "put_mode c a = Some (a\<lparr>a_modebuf := (a_modebuf a)[a_mi a := c], a_mi := a_mi a + 1\<rparr>)"
  using assms by (simp add: put_mode_def)

lemma put_arg_ok:
  assumes "no_nul arg" "a_pi a + length arg + 2 \<le> length (a_parabuf a)" "take (a_pi a) (a_parabuf a) = t" "a_pi a = length t"
  obtains b where "put_arg arg a = Some (a\<lparr>a_parabuf := b, a_pi := length (if t = [] then arg else t @ CHR '' '' # arg)\<rparr>)"
    "length b = length (a_parabuf a)" "take (length (if t = [] then arg else t @ CHR '' '' # arg)) b = (if t = [] then arg else t @ CHR '' '' # arg)"
proof -
  define u where "u = (if t = [] then [] else t @ '' '')"
  define b where "b = (if t = [] then a_parabuf a else (a_parabuf a)[a_pi a := CHR '' ''])"
  have b: "(if a_pi a \<noteq> 0 then do { b \<leftarrow> wr (a_parabuf a) (a_pi a) (CHR '' ''); Some (b, a_pi a + 1) }
      else Some (a_parabuf a, a_pi a)) = Some (b, length u)" "take (length u) b = u" "length b = length (a_parabuf a)"
    using assms by (auto simp: take_Suc_conv_app_nth u_def b_def)
  have len: "length u + length arg < length b" using assms by (auto simp: u_def b_def)
  have st: "store_all b (length u) (cstr arg) = Some (u @ arg @ drop (length u + length arg) b, length u + length arg)"
    using store_all_correct[of "length u" arg b] len b(2) assms(1) by simp
  let ?c = "(u @ arg @ drop (length u + length arg) b)[length u + length arg := NUL]"
  have "put_arg arg a = Some (a\<lparr>a_parabuf := ?c, a_pi := length u + length arg\<rparr>)"
    unfolding put_arg_def b(1) using st len by simp
  moreover have u: "(if t = [] then arg else t @ CHR '' '' # arg) = u @ arg" by (simp add: u_def)
  moreover have "take (length u + length arg) ?c = u @ arg" by (simp add: list_update_append)
  moreover have "length ?c = length (a_parabuf a)" using len b(3) by simp
  ultimately show ?thesis using that[of ?c] unfolding u by simp
qed

definition put_flags :: "chanmodechange \<Rightarrow> assembly \<Rightarrow> assembly option" where
  "put_flags c a = do {
     a \<leftarrow> (if a_what a \<noteq> Some (g_what c)
       then map_option (\<lambda>a. a\<lparr>a_what := Some (g_what c)\<rparr>) (put_mode (what_char (g_what c)) a) else Some a);
     put_mode (m_letter (g_mode c)) a }"

lemma put_flags_ok:
  assumes w: "flags_done xs a" and x: "length xs < 16"
  obtains a' where "put_flags c a = Some a'" "flags_done (xs @ [c]) a'" "a_parabuf a' = a_parabuf a" "a_pi a' = a_pi a"
    "a_i a' = a_i a"
proof -
  have len: "length (flag_text None xs) + 1 < 32"
    using flag_text_length[of None xs] x by simp
  have m: "a_mi a = length (flag_text None xs)" "length (a_modebuf a) = 33"
    "take (length (flag_text None xs)) (a_modebuf a) = flag_text None xs"
    and what: "a_what a = (if xs = [] then None else Some (g_what (last xs)))"
    using w by (simp_all add: flags_done_def)
  let ?l = "m_letter (g_mode c)"
  show ?thesis
  proof (cases "a_what a = Some (g_what c)")
    case True
    then have f: "flag_text None (xs @ [c]) = flag_text None xs @ [?l]"
      using what by (simp add: flag_text_append)
    have "put_flags c a = Some (a\<lparr>a_modebuf := (a_modebuf a)[a_mi a := ?l], a_mi := a_mi a + 1\<rparr>)"
      using True len m by (simp add: put_flags_def put_mode_ok)
    then show ?thesis
      by (rule that) (use True len m in \<open>simp_all add: flags_done_def f take_Suc_conv_app_nth\<close>)
  next
    case False
    then have f: "flag_text None (xs @ [c]) = flag_text None xs @ [what_char (g_what c), ?l]"
      using what by (simp add: flag_text_append)
    have "put_flags c a = Some (a\<lparr>a_modebuf := (a_modebuf a)[a_mi a := what_char (g_what c), Suc (a_mi a) := ?l],
        a_mi := a_mi a + 2, a_what := Some (g_what c)\<rparr>)"
      using False len m by (simp add: put_flags_def put_mode_ok)
    then show ?thesis
      by (rule that) (use len m in \<open>simp_all add: flags_done_def f take_Suc_conv_app_nth\<close>)
  qed
qed

lemma assemble_one_flags:
  "assemble_one s uid n c a =
     (if g_bounced c \<noteq> 0 then Some (False, a)
      else Option.bind (change_arg s uid c) (\<lambda>arg.
        if takes_arg c \<and> a_pi a + length (cstr arg) + 2 > n then Some (True, a)
        else Option.bind (if takes_arg c then put_arg arg a else Some a) (\<lambda>a.
          Option.bind (put_flags c a) (\<lambda>a. Some (False, a\<lparr>a_i := a_i a + 1\<rparr>)))))"
  by (simp add: assemble_one_def put_flags_def takes_arg_def cong: if_cong)

lemma assemble_one_ok:
  assumes w: "assembled s uid n xs a" and c: "sendable s uid n c" "g_bounced c = 0" and x: "length xs < 16" and n: "n \<le> 2046"
  shows "assemble_one s uid n c a = Some (True, a) \<and> xs \<noteq> [] \<or>
    (\<exists>a'. assemble_one s uid n c a = Some (False, a') \<and> assembled s uid n (xs @ [c]) a')"
proof -
  obtain arg where arg: "change_arg s uid c = Some arg" "no_nul arg" "length arg + 2 \<le> n"
    using c(1) unfolding sendable_def by blast
  have ao: "arg_of s uid c = arg" by (simp add: arg_of_def arg(1))
  let ?t = "args_text s uid [] xs" and ?u = "args_text s uid [] (xs @ [c])"
  have f: "flags_done xs a" and t: "args_done n ?t a" and i: "a_i a = length xs"
    using w by (simp_all add: assembled_def)
  note p = t[unfolded args_done_def]
  show ?thesis
  proof (cases "takes_arg c \<and> a_pi a + length arg + 2 > n")
    case True
    then have "xs \<noteq> []" using arg(3) p by auto
    then show ?thesis using True c(2) arg by (simp add: assemble_one_flags)
  next
    case False
    obtain b where b: "(if takes_arg c then put_arg arg a else Some a) = Some b" "args_done n ?u b" "flags_done xs b" "a_i b = a_i a"
    proof (cases "takes_arg c")
      case takes: True
      let ?v = "if ?t = [] then arg else ?t @ CHR '' '' # arg"
      have l: "a_pi a + length arg + 2 \<le> n" using False takes by simp
      then have l': "a_pi a + length arg + 2 \<le> length (a_parabuf a)" using n p by simp
      obtain pb where pb: "put_arg arg a = Some (a\<lparr>a_parabuf := pb, a_pi := length ?v\<rparr>)"
        "length pb = length (a_parabuf a)" "take (length ?v) pb = ?v"
        by (rule put_arg_ok[OF arg(2) l', of ?t]) (use p in auto)
      have u: "?u = ?v" using takes by (simp add: ao)
      have "args_done n ?u (a\<lparr>a_parabuf := pb, a_pi := length ?v\<rparr>)"
        unfolding u using pb(2,3) p l by (auto simp: args_done_def)
      then show ?thesis
        by (rule that[rotated]) (use takes pb(1) f in \<open>simp_all add: flags_done_def\<close>)
    qed (use that f t in auto)
    obtain a' where a': "put_flags c b = Some a'" "flags_done (xs @ [c]) a'" "a_parabuf a' = a_parabuf b" "a_pi a' = a_pi b"
      "a_i a' = a_i b" by (rule put_flags_ok[OF b(3) x, of c])
    have "assemble_one s uid n c a = Some (False, a'\<lparr>a_i := a_i a' + 1\<rparr>)"
      using False c(2) arg b(1) a'(1) by (simp add: assemble_one_flags)
    moreover have "assembled s uid n (xs @ [c]) (a'\<lparr>a_i := a_i a' + 1\<rparr>)"
      using a' b i unfolding assembled_def args_done_def flags_done_def by simp
    ultimately show ?thesis by blast
  qed
qed

definition line_max :: "nat \<Rightarrow> nat" where
  "line_max cnt = min cnt CHANMODE_PER_LINE"

lemma assemble_loop_ok:
  assumes "assembled s uid n xs a" "\<forall>c \<in> set (announced cs). sendable s uid n c" "length xs < line_max cnt" "n \<le> 2046"
  shows "\<exists>a' pre rest. assemble_loop s uid n cnt cs a = Some (a', rest) \<and> cs = pre @ rest \<and>
    assembled s uid n (xs @ announced pre) a' \<and> length (xs @ announced pre) \<le> line_max cnt \<and>
    (xs = [] \<and> cs \<noteq> [] \<longrightarrow> pre \<noteq> [])"
  using assms
proof (induction cs arbitrary: xs a)
  case Nil
  then show ?case by (intro exI[of _ a] exI[of _ "[]"]) simp
next
  case (Cons c cs)
  have x16: "length xs < 16" using Cons.prems(3) by (simp add: line_max_def CHANMODE_PER_LINE_def)
  have step: ?case if one: "assemble_one s uid n c a = Some (False, b)" "assembled s uid n (xs @ announced [c]) b" for b
  proof (cases "length (xs @ announced [c]) < line_max cnt")
    case True
    have "\<exists>a' pre rest. assemble_loop s uid n cnt cs b = Some (a', rest) \<and> cs = pre @ rest \<and>
        assembled s uid n ((xs @ announced [c]) @ announced pre) a' \<and>
        length ((xs @ announced [c]) @ announced pre) \<le> line_max cnt \<and>
        (xs @ announced [c] = [] \<and> cs \<noteq> [] \<longrightarrow> pre \<noteq> [])"
      using Cons.prems(2,4) by (intro Cons.IH one(2) True) (auto split: if_splits)
    then obtain a' pre rest where r: "assemble_loop s uid n cnt cs b = Some (a', rest)" "cs = pre @ rest"
      "assembled s uid n ((xs @ announced [c]) @ announced pre) a'"
      "length ((xs @ announced [c]) @ announced pre) \<le> line_max cnt" by blast
    have "a_i b = length (xs @ announced [c])" using one(2) by (simp only: assembled_def)
    then have "assemble_loop s uid n cnt (c # cs) a = Some (a', rest)"
      using one(1) r(1) True by (simp add: line_max_def)
    then show ?thesis
      using r(2-4) by (intro exI[of _ a'] exI[of _ "c # pre"] exI[of _ rest]) auto
  next
    case False
    have "a_i b = length (xs @ announced [c])" using one(2) by (simp only: assembled_def)
    then have "assemble_loop s uid n cnt (c # cs) a = Some (b, cs)"
      using one(1) False by (auto simp: line_max_def)
    moreover have "length (xs @ announced [c]) \<le> line_max cnt" using Cons.prems(3) by simp
    ultimately show ?thesis
      using one(2) by (intro exI[of _ b] exI[of _ "[c]"] exI[of _ cs]) auto
  qed
  show ?case
  proof (cases "g_bounced c = 0")
    case False
    then have "assemble_one s uid n c a = Some (False, a)" by (simp add: assemble_one_flags)
    from step[OF this] Cons.prems(1) False show ?thesis by simp
  next
    case True
    have "sendable s uid n c" using Cons.prems(2) True by simp
    from assemble_one_ok[OF Cons.prems(1) this True x16 Cons.prems(4)] show ?thesis
    proof (elim disjE exE conjE)
      assume "assemble_one s uid n c a = Some (True, a)" "xs \<noteq> []"
      then show ?thesis
        using Cons.prems(1,3) by (intro exI[of _ a] exI[of _ "[]"] exI[of _ "c # cs"]) simp
    next
      fix a' assume "assemble_one s uid n c a = Some (False, a')" "assembled s uid n (xs @ [c]) a'"
      with step[of a'] True show ?thesis by simp
    qed
  qed
qed

lemma no_nul_flag_text: "\<forall>c \<in> set cs. m_letter (g_mode c) \<noteq> NUL \<Longrightarrow> no_nul (flag_text w cs)"
  by (induction w cs rule: flag_text.induct) (auto simp: what_char_def)

lemma no_nul_args_text: "no_nul t \<Longrightarrow> \<forall>c \<in> set cs. no_nul (arg_of s uid c) \<Longrightarrow> no_nul (args_text s uid t cs)"
  by (induction s uid t cs rule: args_text.induct) auto

lemma flag_text_Nil: "flag_text w cs = [] \<longleftrightarrow> cs = []"
  by (cases cs) auto

lemma terminate_buffer:
  assumes "take (length t) b = t" "length t < length b" "no_nul t"
  shows "wr b (length t) NUL = Some (b[length t := NUL])" "cstr (b[length t := NUL]) = t" "length (b[length t := NUL]) = length b"
proof -
  have "b = t @ drop (length t) b" using assms(1) by (metis append_take_drop_id)
  then have "b[length t := NUL] = t @ NUL # drop (Suc (length t)) b"
    using assms(2) by (metis Cons_nth_drop_Suc list_update_length)
  then show "cstr (b[length t := NUL]) = t" using assms(3) by (simp add: cstr_append_NUL)
qed (use assms in simp_all)

lemma chanmode_assemble_ok:
  assumes cs: "cs \<noteq> []" "\<forall>c \<in> set (announced cs). sendable s uid n c" and n: "n \<le> 2046" and cnt: "0 < cnt"
    and b: "length mb = 33" "length pb = 2047"
  obtains mb' pb' pre rest where "chanmode_assemble s mb pb cs n cnt uid = Some (mb', pb', rest)" "cs = pre @ rest"
    "pre \<noteq> []" "length (announced pre) \<le> line_max cnt" "cstr mb' = flag_text None (announced pre)"
    "cstr pb' = args_text s uid [] (announced pre)" "length mb' = 33" "length pb' = 2047"
    "length (args_text s uid [] (announced pre)) < max n 1"
proof -
  let ?a = "\<lparr>a_modebuf = mb, a_mi = 0, a_parabuf = pb, a_pi = 0, a_i = 0, a_what = None\<rparr>"
  have "assembled s uid n [] ?a" using b by (simp add: assembled_def flags_done_def args_done_def)
  from assemble_loop_ok[OF this cs(2) _ n, of cnt] cnt
  obtain a pre rest where r: "assemble_loop s uid n cnt cs ?a = Some (a, rest)" "cs = pre @ rest"
    "assembled s uid n (announced pre) a" "length (announced pre) \<le> line_max cnt" "pre \<noteq> []"
    using cs(1) by (auto simp: line_max_def CHANMODE_PER_LINE_def)
  let ?x = "announced pre"
  have c: "\<forall>c \<in> set ?x. sendable s uid n c" using cs(2) r(2) by auto
  have nn: "no_nul (flag_text None ?x)" "no_nul (args_text s uid [] ?x)"
    using c by (auto intro!: no_nul_flag_text no_nul_args_text simp: sendable_def arg_of_def)
  have m: "a_mi a = length (flag_text None ?x)" "length (a_modebuf a) = 33" "take (length (flag_text None ?x)) (a_modebuf a) = flag_text None ?x"
    and p: "length (a_parabuf a) = 2047" "a_pi a = length (args_text s uid [] ?x)"
      "take (length (args_text s uid [] ?x)) (a_parabuf a) = args_text s uid [] ?x" "a_pi a < max n 1"
    using r(3) unfolding assembled_def flags_done_def args_done_def by simp_all
  have room: "length (args_text s uid [] ?x) < max n 1" using p(2,4) by simp
  have l: "length (flag_text None ?x) < length (a_modebuf a)" "length (args_text s uid [] ?x) < length (a_parabuf a)"
    using flag_text_length[of None ?x] r(4) m(2) p n by (simp_all add: line_max_def CHANMODE_PER_LINE_def)
  note tm = terminate_buffer[OF m(3) l(1) nn(1)] and tp = terminate_buffer[OF p(3) l(2) nn(2)]
  show ?thesis
    by (rule that[OF _ r(2,5,4) tm(2) tp(2) _ _ room])
      (use cs(1) r(1) m p tm tp in \<open>simp_all add: chanmode_assemble_def\<close>)
qed

lemma change_arg_send [simp]: "change_arg (send x s) uid c = change_arg s uid c"
  by (cases "g_acptr c") (simp_all add: change_arg_def cong: if_cong)

lemma arg_of_send [simp]: "arg_of (send x s) uid = arg_of s uid"
  by (simp add: arg_of_def fun_eq_iff)

lemma args_text_cong: "arg_of s' uid = arg_of s uid \<Longrightarrow> args_text s' uid t cs = args_text s uid t cs"
  by (induction cs arbitrary: t) simp_all

lemma sendable_send [simp]: "sendable (send x s) uid n c = sendable s uid n c"
  by (simp add: sendable_def)

text \<open>The lines of the chunks, as messages.\<close>

definition send_chunks :: "(string \<Rightarrow> string \<Rightarrow> outmsg) \<Rightarrow> bool \<Rightarrow> chanmodechange list list \<Rightarrow> ircd \<Rightarrow> ircd" where
  "send_chunks mk uid xss s = fold (\<lambda>xs. send (mk (flag_text None xs) (args_text s uid [] xs))) xss s"

definition chunks_of :: "nat \<Rightarrow> 'a list \<Rightarrow> 'a list list \<Rightarrow> bool" where
  "chunks_of n cs xss \<longleftrightarrow> concat xss = cs \<and> (\<forall>xs \<in> set xss. xs \<noteq> [] \<and> length xs \<le> n)"

lemma send_chunks_Cons:
  "send_chunks mk uid (xs # xss) s = send_chunks mk uid xss (send (mk (flag_text None xs) (args_text s uid [] xs)) s)"
proof -
  have "args_text (send x s) uid [] ys = args_text s uid [] ys" for x ys by (rule args_text_cong) simp
  then show ?thesis by (simp add: send_chunks_def)
qed

lemma send_lines_ok:
  assumes "\<forall>c \<in> set (announced cs). sendable s uid n c" "n \<le> 2046" "0 < cnt" "length mb = 33" "length pb = 2047"
  shows "\<exists>xss. send_lines mk s mb pb cs n cnt uid = Some (send_chunks mk uid xss s) \<and>
    chunks_of (line_max cnt) (announced cs) xss \<and> (\<forall>xs \<in> set xss. length (args_text s uid [] xs) < max n 1)"
  using assms
proof (induction "length cs" arbitrary: cs s mb pb rule: less_induct)
  case less
  show ?case
  proof (cases "cs = []")
    case True
    then show ?thesis
      by (intro exI[of _ "[]"]) (simp add: send_lines.simps send_chunks_def chunks_of_def)
  next
    case False
    obtain mb' pb' pre rest where r: "chanmode_assemble s mb pb cs n cnt uid = Some (mb', pb', rest)" "cs = pre @ rest"
      "pre \<noteq> []" "length (announced pre) \<le> line_max cnt" "cstr mb' = flag_text None (announced pre)"
      "cstr pb' = args_text s uid [] (announced pre)" "length mb' = 33" "length pb' = 2047"
      "length (args_text s uid [] (announced pre)) < max n 1"
      by (rule chanmode_assemble_ok[OF False less.prems]) (rule that)
    let ?m = "mk (flag_text None (announced pre)) (args_text s uid [] (announced pre))"
    have cur: "cur mb' \<noteq> NUL \<longleftrightarrow> announced pre \<noteq> []"
      using r(5,7) flag_text_Nil[of None "announced pre"] by (cases mb') (auto split: if_splits)
    let ?t = "if cur mb' \<noteq> NUL then send (mk (cstr mb') (cstr pb')) s else s"
    have "\<exists>xss. send_lines mk ?t mb' pb' rest n cnt uid = Some (send_chunks mk uid xss ?t) \<and>
        chunks_of (line_max cnt) (announced rest) xss \<and> (\<forall>xs \<in> set xss. length (args_text ?t uid [] xs) < max n 1)"
      using less.prems r(2,3) by (intro less.hyps r(7,8)) auto
    then obtain xss where x: "send_lines mk ?t mb' pb' rest n cnt uid = Some (send_chunks mk uid xss ?t)"
      "chunks_of (line_max cnt) (announced rest) xss" "\<forall>xs \<in> set xss. length (args_text ?t uid [] xs) < max n 1" by blast
    have room: "\<forall>xs \<in> set xss. length (args_text s uid [] xs) < max n 1"
      using x(3) args_text_cong[of ?t uid s] by simp
    have e: "send_lines mk s mb pb cs n cnt uid = Some (send_chunks mk uid xss ?t)"
      by (subst send_lines.simps) (simp add: False r(1) x(1))
    show ?thesis
    proof (cases "announced pre = []")
      case True
      then show ?thesis using e cur x(2) r(2) room by (intro exI[of _ xss]) simp
    next
      case False
      have "?t = send ?m s" using False cur r(5,6) by simp
      then have "send_chunks mk uid xss ?t = send_chunks mk uid (announced pre # xss) s"
        by (simp only: send_chunks_Cons)
      moreover have "chunks_of (line_max cnt) (announced cs) (announced pre # xss)"
        using x(2) r(2,4) False by (simp add: chunks_of_def)
      moreover have "\<forall>xs \<in> set (announced pre # xss). length (args_text s uid [] xs) < max n 1"
        using room r(9) by simp
      ultimately show ?thesis using e by metis
    qed
  qed
qed

section \<open>All lines fit\<close>

definition text_ok :: "nat \<Rightarrow> string \<Rightarrow> bool" where
  "text_ok n t \<longleftrightarrow> no_nul t \<and> length t \<le> n"

text \<open>The texts of a user's client, as its arrays allow.\<close>

definition names_ok :: "ircd \<Rightarrow> ptr \<Rightarrow> bool" where
  "names_ok s p \<longleftrightarrow> (\<exists>cl. clients s p = Some cl \<and> text_ok IRCD_HOSTLEN (c_name cl) \<and> text_ok IRCD_HOSTLEN (c_host cl) \<and>
     (\<forall>u. c_user cl = Some u \<longrightarrow> (\<exists>us. users s u = Some us \<and> text_ok IRCD_USERLEN (u_name us) \<and> text_ok IRCD_IDLEN (u_uid us))) \<and>
     (client_is_user cl \<longrightarrow> c_user cl \<noteq> None))"

definition change_sends :: "ircd \<Rightarrow> chanmodechange \<Rightarrow> bool" where
  "change_sends s c \<longleftrightarrow> m_letter (g_mode c) \<notin> {NUL, CHR ''+'', CHR ''-''} \<and> g_what c \<noteq> CHANMODE_QUERY \<and> (case g_acptr c of
     None \<Rightarrow> text_ok IRCD_PREFIXLEN (g_arg c)
   | Some a \<Rightarrow> names_ok s a \<and> map_option client_is_user (clients s a) = Some True)"

lemma change_sends_sendable:
  assumes "change_sends s c" "IRCD_PREFIXLEN + 2 \<le> n"
  shows "sendable s uid n c"
proof (cases "g_acptr c")
  case None
  then show ?thesis using assms by (auto simp: change_sends_def sendable_def change_arg_def text_ok_def)
next
  case (Some a)
  then obtain cl u us where cl: "clients s a = Some cl" "text_ok IRCD_HOSTLEN (c_name cl)" "c_user cl = Some u"
    "users s u = Some us" "text_ok IRCD_IDLEN (u_uid us)"
    using assms(1) by (auto simp: change_sends_def names_ok_def)
  then show ?thesis
    using assms Some by (cases uid) (auto simp: change_sends_def sendable_def change_arg_def text_ok_def ircd_sizes IRCD_IDLEN_def)
qed

lemma args_room_eq: "len \<le> 1000 \<Longrightarrow> args_room len = 2010 - len"
proof -
  assume len: "len \<le> 1000"
  have w: "of_nat (IRCD_LINELEN - 2) - of_nat len - of_nat (CHANMODE_PER_LINE * 2 + 1) - 3 = (of_nat (2010 - len) :: 64 word)"
    using len by (simp add: IRCD_LINELEN_def CHANMODE_PER_LINE_def)
  have "unat (of_nat k :: 64 word) = k" if "k \<le> 2010" for k using that by (simp add: unat_of_nat)
  from this[of "2010 - len"] have "unat (of_nat (2010 - len) :: 64 word) = 2010 - len" by (simp del: of_nat_diff)
  then show ?thesis by (simp only: args_room_def w)
qed

text \<open>The commands in front of the flags, with their lengths.\<close>

abbreviation pstr :: "string \<Rightarrow> piece" where
  "pstr t \<equiv> PStr False False 0 (Some t)"

lemma mode_command_user:
  assumes "text_ok a n" "text_ok b u" "text_ok c h" "text_ok d ch" "a + b + c + d \<le> 900"
  shows "mode_command ft '':%s!%s@%s MODE %s'' [Some n, Some u, Some h, Some ch] =
    Some ('':'' @ n @ ''!'' @ u @ ''@'' @ h @ '' MODE '' @ ch, length n + length u + length h + length ch + 9)"
proof -
  let ?t = "'':'' @ n @ ''!'' @ u @ ''@'' @ h @ '' MODE '' @ ch"
  let ?qs = "[PLit (CHR '':''), pstr n, PLit (CHR ''!''), pstr u, PLit (CHR ''@''), pstr h, PLit (CHR '' ''), PLit (CHR ''M''),
    PLit (CHR ''O''), PLit (CHR ''D''), PLit (CHR ''E''), PLit (CHR '' ''), pstr ch]"
  have m: "concat (map meaning ?qs) = ?t" using assms by (simp add: text_ok_def aligned_def)
  have l: "length ?t \<le> 2047 - 1" using assms by (simp add: text_ok_def)
  have t: "?t = take (2047 - 1) (concat (map meaning ?qs))" unfolding m by (rule take_all[OF l, symmetric])
  have "str_snprintf ft (replicate 2047 NUL) 2047 '':%s!%s@%s MODE %s''
      [ArgStr (Some n), ArgStr (Some u), ArgStr (Some h), ArgStr (Some ch)] =
    Some (?t @ NUL # drop (Suc (length ?t)) (replicate 2047 NUL), length ?t)"
    by (rule snprintf_text[of _ ?qs, OF _ _ _ _ _ t]) (simp_all add: flags_def)
  moreover have "cstr (?t @ NUL # r) = ?t" for r using assms by (intro cstr_append_NUL) (simp add: text_ok_def)
  moreover have "IRCD_LINELEN - 1 = 2047" by (simp add: IRCD_LINELEN_def)
  ultimately show ?thesis unfolding mode_command_def by (simp only: list.map) simp
qed

lemma mode_command_server:
  assumes "text_ok a n" "text_ok d ch" "a + d \<le> 900"
  shows "mode_command ft '':%s MODE %s'' [Some n, Some ch] = Some ('':'' @ n @ '' MODE '' @ ch, length n + length ch + 7)"
proof -
  let ?t = "'':'' @ n @ '' MODE '' @ ch"
  let ?qs = "[PLit (CHR '':''), pstr n, PLit (CHR '' ''), PLit (CHR ''M''),
    PLit (CHR ''O''), PLit (CHR ''D''), PLit (CHR ''E''), PLit (CHR '' ''), pstr ch]"
  have m: "concat (map meaning ?qs) = ?t" using assms by (simp add: text_ok_def aligned_def)
  have l: "length ?t \<le> 2047 - 1" using assms by (simp add: text_ok_def)
  have t: "?t = take (2047 - 1) (concat (map meaning ?qs))" unfolding m by (rule take_all[OF l, symmetric])
  have "str_snprintf ft (replicate 2047 NUL) 2047 '':%s MODE %s'' [ArgStr (Some n), ArgStr (Some ch)] =
    Some (?t @ NUL # drop (Suc (length ?t)) (replicate 2047 NUL), length ?t)"
    by (rule snprintf_text[of _ ?qs, OF _ _ _ _ _ t]) (simp_all add: flags_def)
  moreover have "cstr (?t @ NUL # r) = ?t" for r using assms by (intro cstr_append_NUL) (simp add: text_ok_def)
  moreover have "IRCD_LINELEN - 1 = 2047" by (simp add: IRCD_LINELEN_def)
  ultimately show ?thesis unfolding mode_command_def by (simp only: list.map) simp
qed

text \<open>What stands in front of the flags of a line to the members and to the servers.\<close>

definition local_command :: "ircd \<Rightarrow> ptr \<Rightarrow> string \<Rightarrow> string" where
  "local_command s p name = (case clients s p of None \<Rightarrow> [] | Some cl \<Rightarrow>
     if client_is_user cl
     then '':'' @ c_name cl @ ''!'' @ (case Option.bind (c_user cl) (users s) of None \<Rightarrow> [] | Some u \<Rightarrow> u_name u) @
       ''@'' @ c_host cl @ '' MODE '' @ name
     else '':'' @ c_name cl @ '' MODE '' @ name)"

definition remote_command :: "ircd \<Rightarrow> bool \<Rightarrow> ptr \<Rightarrow> string \<Rightarrow> string" where
  "remote_command s uid p name = (case clients s p of None \<Rightarrow> [] | Some cl \<Rightarrow>
     '':'' @ (if client_is_user cl \<and> uid then (case Option.bind (c_user cl) (users s) of None \<Rightarrow> [] | Some u \<Rightarrow> u_uid u)
       else c_name cl) @ '' MODE '' @ name)"

text \<open>Reading the flags of a line.\<close>

fun read_flags :: "what \<Rightarrow> string \<Rightarrow> (what \<times> char) list" where
  "read_flags w [] = []"
| "read_flags w (c # t) =
     (if c = CHR ''+'' then read_flags CHANMODE_ADD t
      else if c = CHR ''-'' then read_flags CHANMODE_DEL t
      else (w, c) # read_flags w t)"

definition change_key :: "chanmodechange \<Rightarrow> what \<times> char" where
  "change_key c = (g_what c, m_letter (g_mode c))"

lemma read_flag_text:
  assumes "\<forall>c \<in> set cs. change_sends s c" "w' \<noteq> None \<Longrightarrow> w' = Some w"
  shows "read_flags w (flag_text w' cs) = map change_key cs"
  using assms
proof (induction cs arbitrary: w w')
  case (Cons c cs)
  have c: "m_letter (g_mode c) \<noteq> CHR ''+''" "m_letter (g_mode c) \<noteq> CHR ''-''" "g_what c \<noteq> CHANMODE_QUERY"
    using Cons.prems(1) by (auto simp: change_sends_def)
  have IH: "read_flags (g_what c) (flag_text (Some (g_what c)) cs) = map change_key cs"
    using Cons by simp
  show ?case
    using c IH Cons.prems(2) by (cases "g_what c") (auto simp: what_char_def change_key_def)
qed simp

definition local_line :: "ptr \<Rightarrow> string \<Rightarrow> string \<Rightarrow> string \<Rightarrow> outmsg" where
  "local_line k cmd fl args = Channel_line None k (line_format args) (line_args cmd fl args)"

definition remote_line :: "ptr option \<Rightarrow> bool \<Rightarrow> string \<Rightarrow> string \<Rightarrow> string \<Rightarrow> outmsg" where
  "remote_line lcptr uid cmd fl args = Server_line lcptr None (if uid then CAP_UID else CAP_NONE)
     (if uid then CAP_NONE else CAP_UID) (line_format args) (line_args cmd fl args)"

definition can_announce :: "ircd \<Rightarrow> ptr \<Rightarrow> ptr \<Rightarrow> chanmodechange list \<Rightarrow> bool" where
  "can_announce s cptr k cs \<longleftrightarrow> names_ok s cptr \<and>
     (\<exists>ch. channels s k = Some ch \<and> text_ok IRCD_CHANNELLEN (ch_name ch)) \<and> (\<forall>c \<in> set (announced cs). change_sends s c)"

lemma can_announceE:
  assumes "can_announce s cptr k cs"
  obtains cl ch where "clients s cptr = Some cl" "channels s k = Some ch" "text_ok IRCD_CHANNELLEN (ch_name ch)"
    "text_ok IRCD_HOSTLEN (c_name cl)" "text_ok IRCD_HOSTLEN (c_host cl)"
    "client_is_user cl \<Longrightarrow> \<exists>u us. c_user cl = Some u \<and> users s u = Some us \<and> text_ok IRCD_USERLEN (u_name us) \<and> text_ok IRCD_IDLEN (u_uid us)"
    "\<forall>c \<in> set (announced cs). change_sends s c"
  using assms unfolding can_announce_def names_ok_def by blast

lemma vsend_text:
  assumes "fmt = concat (map render qs)" "args = concat (map piece_arg qs)" "\<forall>q \<in> set qs. piece_ok q"
    "concat (map meaning qs) = t" "length t \<le> 2046"
  shows "line_bytes ft fmt args = Some (t @ [CHR 0x0D, CHR 0x0A])"
proof -
  have "str_vsnprintf ft (replicate 2049 NUL) 2047 fmt args = (let u = take (2047 - 1) (concat (map meaning qs)) in
      Some (u @ NUL # drop (Suc (length u)) (replicate 2049 NUL), length u))"
    unfolding assms(1,2) by (rule vsnprintf_text[OF assms(3)]) simp_all
  then have v: "str_vsnprintf ft (replicate 2049 NUL) 2047 fmt args = Some (t @ NUL # replicate (2048 - length t) NUL, length t)"
    using assms(5) unfolding assms(4) by (simp add: Let_def)
  obtain m where m: "2048 - length t = Suc m" using assms(5) by (cases "2048 - length t") auto
  show ?thesis
    using v by (simp add: line_bytes_def IRCD_LINELEN_def m list_update_append)
qed

text \<open>The text of a line; the lines of the chunks are put on the wire whole, each with its separator
  at most \<open>IRCD_LINELEN\<close> bytes long.\<close>

definition line_text :: "string \<Rightarrow> string \<Rightarrow> string \<Rightarrow> string" where
  "line_text cmd fl args = cmd @ '' '' @ fl @ (if args = [] then [] else '' '' @ args)"

definition whole_line :: "format_table \<Rightarrow> (string \<Rightarrow> string \<Rightarrow> outmsg) \<Rightarrow> string \<Rightarrow> string \<Rightarrow> string \<Rightarrow> bool" where
  "whole_line ft mk cmd fl args \<longleftrightarrow> wire ft (mk fl args) = Some (line_text cmd fl args @ [CHR 0x0D, CHR 0x0A]) \<and>
     length (line_text cmd fl args @ [CHR 0x0D, CHR 0x0A]) \<le> IRCD_LINELEN"

definition whole_lines :: "format_table \<Rightarrow> (string \<Rightarrow> string \<Rightarrow> outmsg) \<Rightarrow> string \<Rightarrow> ircd \<Rightarrow> bool \<Rightarrow> chanmodechange list list \<Rightarrow> bool" where
  "whole_lines ft mk cmd s uid xss \<longleftrightarrow> (\<forall>xs \<in> set xss. whole_line ft mk cmd (flag_text None xs) (args_text s uid [] xs))"

lemma line_wired:
  assumes "no_nul cmd" "no_nul fl" "no_nul args" "length (line_text cmd fl args) \<le> 2046"
    "\<And>fl args. wire ft (mk fl args) = Option.bind (string_args (line_args cmd fl args)) (line_bytes ft (line_format args))"
  shows "whole_line ft mk cmd fl args"
proof -
  let ?qs = "[pstr cmd, PLit (CHR '' ''), pstr fl] @ (if args = [] then [] else [PLit (CHR '' ''), pstr args])"
  have "line_bytes ft (line_format args) (the (string_args (line_args cmd fl args))) =
      Some (line_text cmd fl args @ [CHR 0x0D, CHR 0x0A])"
    by (rule vsend_text[of _ ?qs])
      (use assms(1-4) in \<open>simp_all add: line_format_def line_args_def line_text_def aligned_def flags_def\<close>)
  moreover have "string_args (line_args cmd fl args) \<noteq> None" by (simp add: line_args_def)
  ultimately show ?thesis using assms(4,5) by (auto simp: whole_line_def IRCD_LINELEN_def)
qed

lemma send_lines_room:
  assumes "\<forall>c \<in> set (announced cs). change_sends s c" "length cmd \<le> 1000" "0 < cnt" "no_nul cmd"
    "\<And>fl args. wire ft (mk fl args) = Option.bind (string_args (line_args cmd fl args)) (line_bytes ft (line_format args))"
  shows "\<exists>xss. send_lines mk s modebuf0 parabuf0 cs (args_room (length cmd)) cnt uid = Some (send_chunks mk uid xss s) \<and>
    chunks_of (line_max cnt) (announced cs) xss \<and> whole_lines ft mk cmd s uid xss"
proof -
  let ?n = "args_room (length cmd)"
  have r: "?n = 2010 - length cmd" by (rule args_room_eq[OF assms(2)])
  have c: "\<forall>c \<in> set (announced cs). sendable s uid ?n c"
    using assms(1,2) by (auto intro!: change_sends_sendable simp: r ircd_sizes)
  have "?n \<le> 2046" by (simp add: r)
  from send_lines_ok[OF c this assms(3), of modebuf0 parabuf0 mk]
  obtain xss where x: "send_lines mk s modebuf0 parabuf0 cs ?n cnt uid = Some (send_chunks mk uid xss s)"
    "chunks_of (line_max cnt) (announced cs) xss" "\<forall>xs \<in> set xss. length (args_text s uid [] xs) < max ?n 1"
    by (auto simp: modebuf0_def parabuf0_def CHANMODE_PER_LINE_def IRCD_LINELEN_def)
  have "whole_line ft mk cmd (flag_text None xs) (args_text s uid [] xs)" if xs: "xs \<in> set xss" for xs
  proof (rule line_wired[OF assms(4)])
    have "\<forall>c \<in> set xs. sendable s uid ?n c"
      using c x(2) xs unfolding chunks_of_def by (metis UN_I set_concat)
    then show "no_nul (flag_text None xs)" "no_nul (args_text s uid [] xs)"
      by (auto intro!: no_nul_flag_text no_nul_args_text simp: sendable_def arg_of_def)
    have "length (flag_text None xs) \<le> 32"
      using flag_text_length[of None xs] x(2) xs by (fastforce simp: chunks_of_def line_max_def CHANMODE_PER_LINE_def)
    then show "length (line_text cmd (flag_text None xs) (args_text s uid [] xs)) \<le> 2046"
      using x(3) xs assms(2) by (auto simp: line_text_def r)
  qed (rule assms(5))
  then show ?thesis using x(1,2) by (auto simp: whole_lines_def)
qed

lemma line_wire [simp]:
  "wire ft (local_line k cmd fl args) = Option.bind (string_args (line_args cmd fl args)) (line_bytes ft (line_format args))"
  "wire ft (remote_line one uid cmd fl args) = Option.bind (string_args (line_args cmd fl args)) (line_bytes ft (line_format args))"
  by (simp_all add: local_line_def remote_line_def)

lemma local_command_ok:
  assumes "can_announce s cptr k cs" "channels s k = Some ch" "clients s cptr = Some cl"
  obtains "length (local_command s cptr (ch_name ch)) \<le> 1000" "no_nul (local_command s cptr (ch_name ch))" "(if client_is_user cl
       then do {
         u \<leftarrow> c_user cl; us \<leftarrow> users s u;
         mode_command ft '':%s!%s@%s MODE %s'' [Some (c_name cl), Some (u_name us), Some (c_host cl), Some (ch_name ch)] }
       else mode_command ft '':%s MODE %s'' [Some (c_name cl), Some (ch_name ch)]) =
    Some (local_command s cptr (ch_name ch), length (local_command s cptr (ch_name ch)))"
proof (rule can_announceE[OF assms(1)])
  fix cl' ch' assume "clients s cptr = Some cl'" "channels s k = Some ch'" and t: "text_ok IRCD_CHANNELLEN (ch_name ch')"
    "text_ok IRCD_HOSTLEN (c_name cl')" "text_ok IRCD_HOSTLEN (c_host cl')"
    and u: "client_is_user cl' \<Longrightarrow> \<exists>u us. c_user cl' = Some u \<and> users s u = Some us \<and> text_ok IRCD_USERLEN (u_name us) \<and> text_ok IRCD_IDLEN (u_uid us)"
  then have e: "cl' = cl" "ch' = ch" using assms by simp_all
  show thesis
  proof (cases "client_is_user cl")
    case True
    then obtain v us where v: "c_user cl = Some v" "users s v = Some us" "text_ok IRCD_USERLEN (u_name us)"
      using u e by blast
    note m = mode_command_user[OF t(2)[unfolded e] v(3) t(3)[unfolded e] t(1)[unfolded e], of ft]
    show thesis
      by (rule that)
        (use True v t m in \<open>simp_all add: local_command_def assms(3) ircd_sizes text_ok_def e\<close>)
  next
    case False
    note m = mode_command_server[OF t(2)[unfolded e] t(1)[unfolded e], of ft]
    show thesis
      by (rule that)
        (use False t m in \<open>simp_all add: local_command_def assms(3) ircd_sizes text_ok_def e\<close>)
  qed
qed

lemma change_sends_cong:
  "clients t = clients s \<Longrightarrow> users t = users s \<Longrightarrow> change_sends t c = change_sends s c"
  by (simp add: change_sends_def names_ok_def split: option.split)

lemma send_chunks_simps [simp]:
  "clients (send_chunks mk uid xss s) = clients s" "users (send_chunks mk uid xss s) = users s"
proof -
  have "clients (fold (\<lambda>xs. send (f xs)) xss s) = clients s \<and> users (fold (\<lambda>xs. send (f xs)) xss s) = users s" for f
    by (induction xss arbitrary: s) simp_all
  then show "clients (send_chunks mk uid xss s) = clients s" "users (send_chunks mk uid xss s) = users s"
    by (simp_all add: send_chunks_def)
qed

lemma remote_command_ok:
  assumes "can_announce s cptr k cs" "channels s k = Some ch" "clients s cptr = Some cl"
  obtains "length (remote_command s True cptr (ch_name ch)) \<le> 1000" "no_nul (remote_command s True cptr (ch_name ch))" "(if client_is_user cl
       then do { u \<leftarrow> c_user cl; us \<leftarrow> users s u; mode_command ft '':%s MODE %s'' [Some (u_uid us), Some (ch_name ch)] }
       else mode_command ft '':%s MODE %s'' [Some (c_name cl), Some (ch_name ch)]) =
    Some (remote_command s True cptr (ch_name ch), length (remote_command s True cptr (ch_name ch)))"
proof (rule can_announceE[OF assms(1)])
  fix cl' ch' assume "clients s cptr = Some cl'" "channels s k = Some ch'" and t: "text_ok IRCD_CHANNELLEN (ch_name ch')"
    "text_ok IRCD_HOSTLEN (c_name cl')"
    and u: "client_is_user cl' \<Longrightarrow> \<exists>u us. c_user cl' = Some u \<and> users s u = Some us \<and> text_ok IRCD_USERLEN (u_name us) \<and> text_ok IRCD_IDLEN (u_uid us)"
  then have e: "cl' = cl" "ch' = ch" using assms by simp_all
  show thesis
  proof (cases "client_is_user cl")
    case True
    then obtain v us where v: "c_user cl = Some v" "users s v = Some us" "text_ok IRCD_IDLEN (u_uid us)"
      using u e by blast
    note m = mode_command_server[OF v(3) t(1)[unfolded e], of ft]
    show thesis
      by (rule that)
        (use True v t m in \<open>simp_all add: remote_command_def assms(3) ircd_sizes IRCD_IDLEN_def text_ok_def e\<close>)
  next
    case False
    note m = mode_command_server[OF t(2)[unfolded e] t(1)[unfolded e], of ft]
    show thesis
      by (rule that)
        (use False t m in \<open>simp_all add: remote_command_def assms(3) ircd_sizes text_ok_def e\<close>)
  qed
qed

lemma remote_command_name:
  assumes "can_announce s cptr k cs" "channels s k = Some ch" "clients s cptr = Some cl"
  obtains "length (remote_command s False cptr (ch_name ch)) \<le> 1000" "no_nul (remote_command s False cptr (ch_name ch))"
    "mode_command ft '':%s MODE %s'' [Some (c_name cl), Some (ch_name ch)] =
      Some (remote_command s False cptr (ch_name ch), length (remote_command s False cptr (ch_name ch)))"
    "\<not> client_is_user cl \<Longrightarrow> remote_command s True cptr (ch_name ch) = remote_command s False cptr (ch_name ch)"
proof (rule can_announceE[OF assms(1)])
  fix cl' ch' assume "clients s cptr = Some cl'" "channels s k = Some ch'" and t: "text_ok IRCD_CHANNELLEN (ch_name ch')"
    "text_ok IRCD_HOSTLEN (c_name cl')"
  then have e: "cl' = cl" "ch' = ch" using assms by simp_all
  note m = mode_command_server[OF t(2)[unfolded e] t(1)[unfolded e], of ft]
  show thesis
    by (rule that)
      (use t m in \<open>simp_all add: remote_command_def assms(3) ircd_sizes text_ok_def e\<close>)
qed

lemma whole_lines_sent [simp]: "whole_lines ft mk cmd (send_chunks mk' uid' yss s) uid xss = whole_lines ft mk cmd s uid xss"
proof -
  have "arg_of (send_chunks mk' uid' yss s) uid = arg_of s uid"
    by (rule ext) (simp add: arg_of_def change_arg_def cong: if_cong option.case_cong)
  from args_text_cong[OF this] show ?thesis by (simp add: whole_lines_def)
qed

lemma send_local_lines:
  assumes "can_announce s cptr k cs" "channels s k = Some ch" "0 < cnt"
  shows "\<exists>xss. chanmode_send_local ft s cptr k cs cnt =
      Some (send_chunks (local_line k (local_command s cptr (ch_name ch))) False xss s) \<and>
    chunks_of (line_max cnt) (announced cs) xss \<and>
    concat (map (\<lambda>xs. read_flags CHANMODE_ADD (flag_text None xs)) xss) = map change_key (announced cs) \<and>
    whole_lines ft (local_line k (local_command s cptr (ch_name ch))) (local_command s cptr (ch_name ch)) s False xss"
proof -
  obtain cl where cl: "clients s cptr = Some cl" by (rule can_announceE[OF assms(1)])
  have c: "\<forall>c \<in> set (announced cs). change_sends s c" using assms(1) by (simp add: can_announce_def)
  let ?c = "local_command s cptr (ch_name ch)"
  have len: "length ?c \<le> 1000" "no_nul ?c" "(if client_is_user cl
       then do {
         u \<leftarrow> c_user cl; us \<leftarrow> users s u;
         mode_command ft '':%s!%s@%s MODE %s'' [Some (c_name cl), Some (u_name us), Some (c_host cl), Some (ch_name ch)] }
       else mode_command ft '':%s MODE %s'' [Some (c_name cl), Some (ch_name ch)]) =
    Some (?c, length ?c)" by (rule local_command_ok[OF assms(1,2) cl]; assumption)+
  obtain xss where x: "send_lines (local_line k ?c) s modebuf0 parabuf0 cs (args_room (length ?c)) cnt False =
      Some (send_chunks (local_line k ?c) False xss s)"
    "chunks_of (line_max cnt) (announced cs) xss" "whole_lines ft (local_line k ?c) ?c s False xss"
    using send_lines_room[OF c len(1) assms(3) len(2), of ft "local_line k ?c" False] by auto
  have "chanmode_send_local ft s cptr k cs cnt =
      send_lines (local_line k ?c) s modebuf0 parabuf0 cs (args_room (length ?c)) cnt False"
    unfolding chanmode_send_local_def cl assms(2) by (simp only: bind.simps len(3) prod.case local_line_def[abs_def])
  moreover have "read_flags CHANMODE_ADD (flag_text None xs) = map change_key xs" if "xs \<in> set xss" for xs
  proof (rule read_flag_text[where s = s])
    have "set xs \<subseteq> set (announced cs)" using x(2) that unfolding chunks_of_def by (metis UN_upper set_concat)
    then show "\<forall>c \<in> set xs. change_sends s c" using c by blast
  qed simp
  then have "concat (map (\<lambda>xs. read_flags CHANMODE_ADD (flag_text None xs)) xss) = concat (map (map change_key) xss)"
    by (simp cong: map_cong)
  moreover have "concat (map (map change_key) xss) = map change_key (announced cs)"
    using x(2) by (simp add: chunks_of_def map_concat[symmetric])
  ultimately show ?thesis using x by auto
qed

text \<open>C14. The members of the channel are sent every change that was not bounced, once and in order, in
  lines that fit: the call returns, and the lines are those of consecutive chunks of the changes,
  each with at most 16 and at most \<open>cnt\<close> changes, so that reading the flags of all lines gives the
  changes back. Formatted by \<open>channel_vsend\<close>, every line is the command, the flags and the
  arguments of its chunk with nothing cut off, and with CR and LF at most \<open>IRCD_LINELEN\<close> bytes.\<close>

theorem send_local_complete:
  assumes "can_announce s cptr k cs" "channels s k = Some ch" "0 < cnt"
  shows "\<exists>xss. chanmode_send_local ft s cptr k cs cnt =
      Some (send_chunks (local_line k (local_command s cptr (ch_name ch))) False xss s) \<and>
    chunks_of (line_max cnt) (announced cs) xss \<and>
    concat (map (\<lambda>xs. read_flags CHANMODE_ADD (flag_text None xs)) xss) = map change_key (announced cs) \<and>
    (\<forall>xs \<in> set xss. let line = line_text (local_command s cptr (ch_name ch)) (flag_text None xs) (args_text s False [] xs) @ [CHR 0x0D, CHR 0x0A]
      in wire ft (local_line k (local_command s cptr (ch_name ch)) (flag_text None xs) (args_text s False [] xs)) = Some line \<and>
         length line \<le> IRCD_LINELEN)"
  using send_local_lines[OF assms, of ft] unfolding whole_lines_def whole_line_def Let_def .

lemma send_remote_lines:
  assumes "can_announce s cptr k cs" "channels s k = Some ch"
  shows "\<exists>xss yss. chanmode_send_remote ft s lcptr cptr k cs =
      Some (send_chunks (remote_line lcptr False (remote_command s False cptr (ch_name ch))) False yss
        (send_chunks (remote_line lcptr True (remote_command s True cptr (ch_name ch))) True xss s)) \<and>
    chunks_of CHANMODE_PER_LINE (announced cs) xss \<and> chunks_of CHANMODE_PER_LINE (announced cs) yss \<and>
    whole_lines ft (remote_line lcptr True (remote_command s True cptr (ch_name ch))) (remote_command s True cptr (ch_name ch)) s True xss \<and>
    whole_lines ft (remote_line lcptr False (remote_command s False cptr (ch_name ch))) (remote_command s False cptr (ch_name ch)) s False yss"
proof -
  obtain cl where cl: "clients s cptr = Some cl" by (rule can_announceE[OF assms(1)])
  have c: "\<forall>c \<in> set (announced cs). change_sends s c" using assms(1) by (simp add: can_announce_def)
  let ?c1 = "remote_command s True cptr (ch_name ch)" and ?c2 = "remote_command s False cptr (ch_name ch)"
  let ?m1 = "remote_line lcptr True ?c1" and ?m2 = "remote_line lcptr False ?c2"
  have l1: "length ?c1 \<le> 1000" "no_nul ?c1" "(if client_is_user cl
       then do { u \<leftarrow> c_user cl; us \<leftarrow> users s u; mode_command ft '':%s MODE %s'' [Some (u_uid us), Some (ch_name ch)] }
       else mode_command ft '':%s MODE %s'' [Some (c_name cl), Some (ch_name ch)]) =
    Some (?c1, length ?c1)" by (rule remote_command_ok[OF assms cl]; assumption)+
  have l2: "length ?c2 \<le> 1000" "no_nul ?c2"
    "mode_command ft '':%s MODE %s'' [Some (c_name cl), Some (ch_name ch)] = Some (?c2, length ?c2)"
    "\<not> client_is_user cl \<Longrightarrow> ?c1 = ?c2"
    by (rule remote_command_name[OF assms cl, where ft = ft]; blast)+
  have l3: "(if client_is_user cl
       then mode_command ft '':%s MODE %s'' [Some (c_name cl), Some (ch_name ch)]
       else Some (?c1, length ?c1)) = Some (?c2, length ?c2)"
    using l2 by (cases "client_is_user cl") auto
  have p: "line_max CHANMODE_PER_LINE = CHANMODE_PER_LINE" "0 < CHANMODE_PER_LINE"
    by (simp_all add: line_max_def CHANMODE_PER_LINE_def)
  obtain xss where x: "send_lines ?m1 s modebuf0 parabuf0 cs (args_room (length ?c1)) CHANMODE_PER_LINE True = Some (send_chunks ?m1 True xss s)"
    "chunks_of CHANMODE_PER_LINE (announced cs) xss" "whole_lines ft ?m1 ?c1 s True xss"
    using send_lines_room[OF c l1(1) p(2) l1(2), of ft ?m1 True] p(1) by auto
  let ?t = "send_chunks ?m1 True xss s"
  have c': "\<forall>c \<in> set (announced cs). change_sends ?t c" using c change_sends_cong[of ?t s] by simp
  obtain yss where y: "send_lines ?m2 ?t modebuf0 parabuf0 cs (args_room (length ?c2)) CHANMODE_PER_LINE False = Some (send_chunks ?m2 False yss ?t)"
    "chunks_of CHANMODE_PER_LINE (announced cs) yss" "whole_lines ft ?m2 ?c2 s False yss"
    using send_lines_room[OF c' l2(1) p(2) l2(2), of ft ?m2 False] p(1) by auto
  have m: "(\<lambda>fl args. Server_line lcptr None CAP_UID CAP_NONE (line_format args) (line_args cmd fl args)) = remote_line lcptr True cmd"
    "(\<lambda>fl args. Server_line lcptr None CAP_NONE CAP_UID (line_format args) (line_args cmd fl args)) = remote_line lcptr False cmd" for cmd
    by (simp_all add: remote_line_def fun_eq_iff)
  have "chanmode_send_remote ft s lcptr cptr k cs = Some (send_chunks ?m2 False yss ?t)"
    unfolding chanmode_send_remote_def cl assms(2) m by (simp only: bind.simps l1(3) prod.case x(1) l3 y(1))
  then show ?thesis using x(2,3) y(2,3) by blast
qed

text \<open>C27. The servers are sent the same changes, also complete and in order, once with user ids to
  those that know them and once with names to the others, never to the link \<open>lcptr\<close>; these lines
  fit, too.\<close>

theorem send_remote_complete:
  assumes "can_announce s cptr k cs" "channels s k = Some ch"
  shows "\<exists>xss yss. chanmode_send_remote ft s lcptr cptr k cs =
      Some (send_chunks (remote_line lcptr False (remote_command s False cptr (ch_name ch))) False yss
        (send_chunks (remote_line lcptr True (remote_command s True cptr (ch_name ch))) True xss s)) \<and>
    chunks_of CHANMODE_PER_LINE (announced cs) xss \<and> chunks_of CHANMODE_PER_LINE (announced cs) yss \<and>
    whole_lines ft (remote_line lcptr True (remote_command s True cptr (ch_name ch))) (remote_command s True cptr (ch_name ch)) s True xss \<and>
    whole_lines ft (remote_line lcptr False (remote_command s False cptr (ch_name ch))) (remote_command s False cptr (ch_name ch)) s False yss"
  by (rule send_remote_lines[OF assms])

lemma op_room_announces: "can_announce op_room 10 1 [voice_change CHANMODE_ADD, ban_change CHANMODE_ADD ''*!*@*'']"
proof -
  have n: "names_ok op_room 10" "names_ok op_room 11"
    by (simp_all add: names_ok_def op_room_def two_clients_def boot_state_def a_client_def a_user_def text_ok_def ircd_sizes
        IRCD_IDLEN_def client_is_user_def)
  have "map_option client_is_user (clients op_room 11) = Some True"
    by (simp add: op_room_def two_clients_def boot_state_def a_client_def client_is_user_def)
  then show ?thesis
    using n by (simp add: can_announce_def change_sends_def voice_change_def ban_change_def change_zero_def privilege_mode_def
        ban_mode_def text_ok_def ircd_sizes) (simp add: op_room_def op_channel_def)
qed

lemma op_room_channel: "channels op_room 1 = Some op_channel" "ch_name op_channel = ''#a''"
  by (simp_all add: op_room_def op_channel_def)

theorem send_local_complete_witness:
  "\<exists>xss. chanmode_send_local str_init op_room 10 1 [voice_change CHANMODE_ADD, ban_change CHANMODE_ADD ''*!*@*''] 4 =
      Some (send_chunks (local_line 1 (local_command op_room 10 ''#a'')) False xss op_room) \<and>
    chunks_of (line_max 4) (announced [voice_change CHANMODE_ADD, ban_change CHANMODE_ADD ''*!*@*'']) xss \<and>
    concat (map (\<lambda>xs. read_flags CHANMODE_ADD (flag_text None xs)) xss) =
      map change_key (announced [voice_change CHANMODE_ADD, ban_change CHANMODE_ADD ''*!*@*'']) \<and>
    (\<forall>xs \<in> set xss. let line = line_text (local_command op_room 10 ''#a'') (flag_text None xs) (args_text op_room False [] xs) @ [CHR 0x0D, CHR 0x0A]
      in wire str_init (local_line 1 (local_command op_room 10 ''#a'') (flag_text None xs) (args_text op_room False [] xs)) = Some line \<and>
         length line \<le> IRCD_LINELEN)"
  using send_local_complete[OF op_room_announces op_room_channel(1), of 4 str_init] unfolding op_room_channel(2) by simp

theorem send_remote_complete_witness:
  "\<exists>xss yss. chanmode_send_remote str_init op_room None 10 1 [voice_change CHANMODE_ADD, ban_change CHANMODE_ADD ''*!*@*''] =
      Some (send_chunks (remote_line None False (remote_command op_room False 10 ''#a'')) False yss
        (send_chunks (remote_line None True (remote_command op_room True 10 ''#a'')) True xss op_room)) \<and>
    chunks_of CHANMODE_PER_LINE (announced [voice_change CHANMODE_ADD, ban_change CHANMODE_ADD ''*!*@*'']) xss \<and>
    chunks_of CHANMODE_PER_LINE (announced [voice_change CHANMODE_ADD, ban_change CHANMODE_ADD ''*!*@*'']) yss \<and>
    whole_lines str_init (remote_line None True (remote_command op_room True 10 ''#a'')) (remote_command op_room True 10 ''#a'') op_room True xss \<and>
    whole_lines str_init (remote_line None False (remote_command op_room False 10 ''#a'')) (remote_command op_room False 10 ''#a'') op_room False yss"
  using send_remote_complete[OF op_room_announces op_room_channel(1), of str_init None] unfolding op_room_channel(2) .

end
