(* ===== verification/Nicks.thy ===== *)
theory Nicks
  imports Chandir
begin

text \<open>
  Nicknames (src/client.c, user_find_uid of src/user.c, lclient_set_name of src/lclient.c): the
  hash table of the users by nick, the table of the nicks clients had before, with at most 64
  entries per bucket, the lookups in both, and the change of a nick, which keeps both up to date.
\<close>

section \<open>Lookups\<close>

definition put_history :: "ptr \<Rightarrow> history \<Rightarrow> ircd \<Rightarrow> ircd" where
  "put_history p h s = s\<lparr>histories := (histories s)(p \<mapsto> h)\<rparr>"

definition client_find_id :: "ircd \<Rightarrow> 32 word \<Rightarrow> ptr option option" where
  "client_find_id s n = search (\<lambda>p. do { c \<leftarrow> clients s p; Some (c_id c = n) }) (client_list s)"

definition client_find_name :: "(64 word \<Rightarrow> 64 word) \<Rightarrow> ircd \<Rightarrow> string \<Rightarrow> ptr option option" where
  "client_find_name shl s name = (let hash = str_ihash shl (Some name) in
     search (\<lambda>p. do { c \<leftarrow> clients s p; Some (c_hash c = hash \<and> str_icmp (c_name c) name = 0) }) (client_list s))"

definition client_find_nick :: "(64 word \<Rightarrow> 64 word) \<Rightarrow> ircd \<Rightarrow> string \<Rightarrow> ptr option option" where
  "client_find_nick shl s nick = (let hash = str_ihash shl (Some nick) in
     search (\<lambda>p. do {
       c \<leftarrow> clients s p;
       Some (cur (c_name c) \<noteq> NUL \<and> hash = c_hash c \<and> str_icmp (c_name c) nick = 0) })
     (client_listsn s ! hash_index hash CLIENT_HASH_SIZE))"

definition client_history_find :: "(64 word \<Rightarrow> 64 word) \<Rightarrow> ircd \<Rightarrow> string \<Rightarrow> ptr option option" where
  "client_history_find shl s nick = (let hash = str_ihash shl (Some nick) in
     search (\<lambda>p. do {
       h \<leftarrow> histories s p;
       Some (cur (h_nick h) \<noteq> NUL \<and> hash = h_hash h \<and> str_icmp (h_nick h) nick = 0) })
     (client_history s ! hash_index hash CLIENT_HASH_SIZE))"

definition user_find_uid :: "(64 word \<Rightarrow> 64 word) \<Rightarrow> ircd \<Rightarrow> string \<Rightarrow> ptr option option" where
  "user_find_uid shl s uid = (let uidbuf = field 9 uid; hash = str_hash shl (Some uidbuf) in
     search (\<lambda>p. do {
       u \<leftarrow> users s p;
       Some (u_uhash u = hash \<and> str_cmp (u_uid u) uidbuf = 0) })
     (user_lists s ! hash_index hash USER_HASH_SIZE))"

definition client_find_uid :: "(64 word \<Rightarrow> 64 word) \<Rightarrow> ircd \<Rightarrow> string \<Rightarrow> ptr option option" where
  "client_find_uid shl s uid = do {
     r \<leftarrow> user_find_uid shl s uid;
     (case r of None \<Rightarrow> Some None | Some p \<Rightarrow> do { u \<leftarrow> users s p; Some (u_client u) }) }"

text \<open>\<open>ERR_NOSUCHNICK\<close> to a user.\<close>

definition no_such_nick :: "ircd \<Rightarrow> ptr \<Rightarrow> string \<Rightarrow> ircd option" where
  "no_such_nick s cptr nick = do {
     c \<leftarrow> clients s cptr;
     Some (if client_is_user c then send (Numeric cptr 401 [Str nick]) s else s) }"

definition client_find_nickw :: "(64 word \<Rightarrow> 64 word) \<Rightarrow> ircd \<Rightarrow> ptr \<Rightarrow> string \<Rightarrow> (ircd \<times> ptr option) option" where
  "client_find_nickw shl s cptr nick = do {
     r \<leftarrow> client_find_nick shl s nick;
     (case r of Some p \<Rightarrow> Some (s, Some p)
      | None \<Rightarrow> do { s \<leftarrow> no_such_nick s cptr nick; Some (s, None) }) }"

definition client_find_nickh :: "(64 word \<Rightarrow> 64 word) \<Rightarrow> ircd \<Rightarrow> string \<Rightarrow> ptr option option" where
  "client_find_nickh shl s nick = do {
     r \<leftarrow> client_find_nick shl s nick;
     (case r of Some p \<Rightarrow> Some (Some p)
      | None \<Rightarrow> do {
          h \<leftarrow> client_history_find shl s nick;
          (case h of None \<Rightarrow> Some None | Some q \<Rightarrow> do { h \<leftarrow> histories s q; Some (Some (h_client h)) }) }) }"

definition client_find_nickhw :: "(64 word \<Rightarrow> 64 word) \<Rightarrow> ircd \<Rightarrow> ptr \<Rightarrow> string \<Rightarrow> (ircd \<times> ptr option) option" where
  "client_find_nickhw shl s cptr nick = do {
     r \<leftarrow> client_find_nick shl s nick;
     (case r of Some p \<Rightarrow> Some (s, Some p)
      | None \<Rightarrow> do {
          h \<leftarrow> client_history_find shl s nick;
          (case h of
            Some q \<Rightarrow> do { h \<leftarrow> histories s q; Some (s, Some (h_client h)) }
          | None \<Rightarrow> do { s \<leftarrow> no_such_nick s cptr nick; Some (s, None) }) }) }"

section \<open>The history\<close>

definition client_history_delete :: "ircd \<Rightarrow> ptr \<Rightarrow> ircd option" where
  "client_history_delete s p = do {
     h \<leftarrow> histories s p;
     let i = hash_index (h_hash h) CLIENT_HASH_SIZE;
     ps \<leftarrow> unlink p (client_history s ! i);
     Some (s\<lparr>client_history := (client_history s)[i := ps], histories := (histories s)(p := None)\<rparr>) }"

text \<open>\<open>a\<close> is the block the allocator returns for a new entry.\<close>

definition client_history_add ::
  "(64 word \<Rightarrow> 64 word) \<Rightarrow> ircd \<Rightarrow> ptr \<Rightarrow> ptr \<Rightarrow> string \<Rightarrow> (ircd \<times> ptr) option" where
  "client_history_add shl s a cptr nick = do {
     r \<leftarrow> client_history_find shl s nick;
     (s, p, hash) \<leftarrow> (case r of
       Some p \<Rightarrow> do { h \<leftarrow> histories s p; Some (s, p, h_hash h) }
     | None \<Rightarrow> do {
         let hash = str_ihash shl (Some nick);
         let i = hash_index hash CLIENT_HASH_SIZE;
         s \<leftarrow> (if length (client_history s ! i) = CLIENT_HISTORY_SIZE
           then client_history_delete s (last (client_history s ! i)) else Some s);
         Some (s\<lparr>client_history := (client_history s)[i := a # client_history s ! i]\<rparr>, a, hash) });
     Some (put_history p \<lparr>h_hash = hash, h_client = cptr, h_nick = field (IRCD_NICKLEN + 1) nick\<rparr> s, p) }"

text \<open>The loop goes to the next node after an entry was freed in its body.\<close>

fun clean_bucket :: "ircd \<Rightarrow> ptr \<Rightarrow> ptr list \<Rightarrow> ircd option" where
  "clean_bucket s cptr [] = Some s"
| "clean_bucket s cptr (p # ps) = do {
     h \<leftarrow> histories s p;
     s \<leftarrow> (if h_client h = cptr then client_history_delete s p else Some s);
     _ \<leftarrow> histories s p;
     clean_bucket s cptr ps }"

fun clean_buckets :: "ircd \<Rightarrow> ptr \<Rightarrow> nat list \<Rightarrow> ircd option" where
  "clean_buckets s cptr [] = Some s"
| "clean_buckets s cptr (i # is) = do {
     s \<leftarrow> clean_bucket s cptr (client_history s ! i);
     clean_buckets s cptr is }"

definition client_history_clean :: "ircd \<Rightarrow> ptr \<Rightarrow> ircd option" where
  "client_history_clean s cptr = clean_buckets s cptr [0..<CLIENT_HASH_SIZE]"

section \<open>Changing a nick\<close>

definition nick_link :: "ircd \<Rightarrow> ptr \<Rightarrow> ircd option" where
  "nick_link s p = do {
     c \<leftarrow> clients s p;
     let i = hash_index (c_hash c) CLIENT_HASH_SIZE;
     Some (s\<lparr>client_listsn := (client_listsn s)[i := p # client_listsn s ! i]\<rparr>) }"

definition nick_unlink :: "ircd \<Rightarrow> ptr \<Rightarrow> ircd option" where
  "nick_unlink s p = do {
     c \<leftarrow> clients s p;
     let i = hash_index (c_hash c) CLIENT_HASH_SIZE;
     ps \<leftarrow> unlink p (client_listsn s ! i);
     Some (s\<lparr>client_listsn := (client_listsn s)[i := ps]\<rparr>) }"

definition lclient_set_name :: "(64 word \<Rightarrow> 64 word) \<Rightarrow> ircd \<Rightarrow> ptr \<Rightarrow> string \<Rightarrow> ircd option" where
  "lclient_set_name shl s p name = do {
     l \<leftarrow> lclients s p;
     let name' = field (IRCD_NICKLEN + 1) name;
     Some (s\<lparr>lclients := (lclients s)(p \<mapsto> l\<lparr>l_name := name', l_hash := str_ihash shl (Some name')\<rparr>)\<rparr>) }"

definition client_set_name :: "(64 word \<Rightarrow> 64 word) \<Rightarrow> ircd \<Rightarrow> ptr \<Rightarrow> ptr \<Rightarrow> string \<Rightarrow> ircd option" where
  "client_set_name shl s a cptr name = do {
     c \<leftarrow> clients s cptr;
     s \<leftarrow> (if client_is_user c then do {
         s \<leftarrow> nick_unlink s cptr;
         if cur (c_name c) \<noteq> NUL then do { (s, _) \<leftarrow> client_history_add shl s a cptr (c_name c); Some s }
         else Some s }
       else Some s);
     let name' = field (IRCD_HOSTLEN + 1) name;
     let s = put_client cptr (c\<lparr>c_name := name', c_hash := str_ihash shl (Some name'), c_ts := timer_systime s\<rparr>) s;
     s \<leftarrow> (case c_lclient c of None \<Rightarrow> Some s | Some l \<Rightarrow> lclient_set_name shl s l name);
     if client_is_user c then nick_link s cptr else Some s }"

section \<open>Tables with insertion at the head\<close>

lemma bucket_cons:
  assumes "i < length tab" "p \<notin> set (concat tab)" "distinct (concat tab)"
  shows "distinct (concat (tab[i := p # tab ! i]))" "removeAll p (concat (tab[i := p # tab ! i])) = concat tab"
    "p \<in> set (concat (tab[i := p # tab ! i]))"
proof -
  have "p \<notin> set (concat (take i tab)) \<union> set (tab ! i) \<union> set (concat (drop (Suc i) tab))"
    using assms(1,2) by (subst (asm) concat_split[of i]) auto
  moreover have "distinct (concat (take i tab) @ tab ! i @ concat (drop (Suc i) tab))"
    using assms(1,3) by (subst (asm) concat_split[of i]) auto
  ultimately show "distinct (concat (tab[i := p # tab ! i]))" "removeAll p (concat (tab[i := p # tab ! i])) = concat tab"
    "p \<in> set (concat (tab[i := p # tab ! i]))"
    unfolding concat_update[OF assms(1)] concat_split[OF assms(1)] by auto
qed

lemma hashed_table_cons:
  assumes t: "hashed_table hash tab" and p: "p \<notin> set (concat tab)"
    and i: "i = hash_index (hash p) (length tab)" "i < length tab"
  shows "hashed_table hash (tab[i := p # tab ! i])"
  unfolding hashed_table_def
proof (intro conjI allI impI ballI)
  show "distinct (concat (tab[i := p # tab ! i]))"
    using bucket_cons(1)[OF i(2) p] t by (simp add: hashed_table_def)
  fix j q assume "j < length (tab[i := p # tab ! i])" "q \<in> set (tab[i := p # tab ! i] ! j)"
  then show "j = hash_index (hash q) (length (tab[i := p # tab ! i]))"
    using t i by (cases "j = i") (auto simp: hashed_table_def)
qed

section \<open>The table of nicks\<close>

abbreviation nick_entries :: "ircd \<Rightarrow> ptr list" where
  "nick_entries s \<equiv> concat (client_listsn s)"

definition nick_of :: "ircd \<Rightarrow> ptr \<Rightarrow> string" where
  "nick_of s p = (case clients s p of None \<Rightarrow> [] | Some c \<Rightarrow> c_name c)"

definition nick_hash :: "ircd \<Rightarrow> ptr \<Rightarrow> 64 word" where
  "nick_hash s p = (case clients s p of None \<Rightarrow> 0 | Some c \<Rightarrow> c_hash c)"

definition nick_ok :: "(64 word \<Rightarrow> 64 word) \<Rightarrow> ircd \<Rightarrow> ptr \<Rightarrow> bool" where
  "nick_ok shl s p \<longleftrightarrow> (\<exists>c. clients s p = Some c \<and> c_hash c = str_ihash shl (Some (c_name c)) \<and>
     no_nul (c_name c) \<and> c_name c \<noteq> [])"

definition nicks_wf :: "(64 word \<Rightarrow> 64 word) \<Rightarrow> ircd \<Rightarrow> bool" where
  "nicks_wf shl s \<longleftrightarrow> length (client_listsn s) = CLIENT_HASH_SIZE \<and> hashed_table (nick_hash s) (client_listsn s) \<and>
     (\<forall>p \<in> set (nick_entries s). nick_ok shl s p)"

definition nick_linkable :: "(64 word \<Rightarrow> 64 word) \<Rightarrow> ircd \<Rightarrow> ptr \<Rightarrow> bool" where
  "nick_linkable shl s p \<longleftrightarrow> nick_ok shl s p \<and> p \<notin> set (nick_entries s)"

lemma CLIENT_HASH_SIZE_pos [simp]: "0 < CLIENT_HASH_SIZE"
  by (simp add: CLIENT_HASH_SIZE_def)

lemma nicks_wfD:
  assumes "nicks_wf shl s"
  shows "length (client_listsn s) = CLIENT_HASH_SIZE" "hashed_table (nick_hash s) (client_listsn s)"
    "distinct (nick_entries s)" "p \<in> set (nick_entries s) \<Longrightarrow> nick_ok shl s p"
  using assms by (auto simp: nicks_wf_def hashed_table_def)

lemma nick_ok_hash: "nick_ok shl s p \<Longrightarrow> nick_hash s p = str_ihash shl (Some (nick_of s p))"
  by (auto simp: nick_ok_def nick_hash_def nick_of_def)

lemma cur_not_NUL: "no_nul t \<Longrightarrow> t \<noteq> [] \<Longrightarrow> cur t \<noteq> NUL"
  by (cases t) (auto simp: no_nul_def)

lemma nick_find_law:
  assumes wf: "nicks_wf shl s"
  shows "client_find_nick shl s n = Some (List.find (\<lambda>p. same_name (nick_of s p) n) (nick_entries s))"
proof -
  define i where "i = hash_index (str_ihash shl (Some n)) CLIENT_HASH_SIZE"
  have i: "i < length (client_listsn s)" using nicks_wfD(1)[OF wf] by (simp add: i_def)
  have "client_find_nick shl s n = Some (List.find
      (\<lambda>p. nick_hash s p = str_ihash shl (Some n) \<and> str_icmp (nick_of s p) n = 0) (client_listsn s ! i))"
    unfolding client_find_nick_def Let_def i_def[symmetric]
  proof (rule search_find)
    fix p assume "p \<in> set (client_listsn s ! i)"
    then have "nick_ok shl s p" using nicks_wfD(4)[OF wf in_bucket_concat[OF i]] by blast
    then obtain c where "clients s p = Some c" "cur (c_name c) \<noteq> NUL" using cur_not_NUL by (auto simp: nick_ok_def)
    then show "do { c \<leftarrow> clients s p; Some (cur (c_name c) \<noteq> NUL \<and> str_ihash shl (Some n) = c_hash c \<and> str_icmp (c_name c) n = 0) } =
        Some (nick_hash s p = str_ihash shl (Some n) \<and> str_icmp (nick_of s p) n = 0)"
      by (auto simp: nick_hash_def nick_of_def)
  qed
  also have "List.find (\<lambda>p. nick_hash s p = str_ihash shl (Some n) \<and> str_icmp (nick_of s p) n = 0)
      (client_listsn s ! i) = List.find (\<lambda>p. same_name (nick_of s p) n) (nick_entries s)"
    using hashed_search[OF nicks_wfD(2)[OF wf], of i shl n] nicks_wfD[OF wf] nick_ok_hash
    by (simp add: i_def)
  finally show ?thesis .
qed

text \<open>The table depends on its buckets and the clients in it.\<close>

lemma nicks_cong:
  assumes "client_listsn t = client_listsn s" "\<And>p. p \<in> set (nick_entries s) \<Longrightarrow> clients t p = clients s p"
  shows "nicks_wf shl t = nicks_wf shl s" "p \<in> set (nick_entries s) \<Longrightarrow> nick_of t p = nick_of s p"
proof -
  have h: "nick_hash t p = nick_hash s p" "nick_ok shl t p = nick_ok shl s p" if "p \<in> set (nick_entries s)" for p
    using assms(2)[OF that] by (simp_all add: nick_hash_def nick_ok_def)
  have "hashed_table (nick_hash t) (client_listsn s) = hashed_table (nick_hash s) (client_listsn s)"
    unfolding hashed_table_def using h(1) in_bucket_concat by metis
  then show "nicks_wf shl t = nicks_wf shl s" using h(2) assms(1) by (auto simp: nicks_wf_def)
  show "p \<in> set (nick_entries s) \<Longrightarrow> nick_of t p = nick_of s p" using assms(2) by (simp add: nick_of_def)
qed

lemma nick_link_law:
  assumes wf: "nicks_wf shl s" and p: "nick_linkable shl s p"
  shows "\<exists>s'. nick_link s p = Some s' \<and> nicks_wf shl s' \<and> p \<in> set (nick_entries s') \<and>
    removeAll p (nick_entries s') = nick_entries s \<and> nick_of s' = nick_of s"
proof -
  from p obtain c where c: "clients s p = Some c" and new: "p \<notin> set (nick_entries s)"
    by (auto simp: nick_linkable_def nick_ok_def)
  define i where "i = hash_index (c_hash c) CLIENT_HASH_SIZE"
  have i: "i < length (client_listsn s)" "i = hash_index (nick_hash s p) (length (client_listsn s))"
    using nicks_wfD(1)[OF wf] by (simp_all add: i_def nick_hash_def c)
  define s' where "s' = s\<lparr>client_listsn := (client_listsn s)[i := p # client_listsn s ! i]\<rparr>"
  have s': "nick_link s p = Some s'" "clients s' = clients s" "client_listsn s' = (client_listsn s)[i := p # client_listsn s ! i]"
    by (simp_all add: nick_link_def c s'_def i_def Let_def)
  note b = bucket_cons[OF i(1) new nicks_wfD(3)[OF wf]]
  have same: "nick_hash s' = nick_hash s" "nick_ok shl s' = nick_ok shl s" "nick_of s' = nick_of s"
    by (simp_all add: nick_hash_def nick_ok_def nick_of_def s'(2) fun_eq_iff)
  have ent: "set (nick_entries s') = insert p (set (nick_entries s))"
    unfolding s'(3) using b(2,3) by (metis insert_Diff set_removeAll)
  have "nicks_wf shl s'"
    unfolding nicks_wf_def same s'(3)
    using hashed_table_cons[OF nicks_wfD(2)[OF wf] new i(2,1)] nicks_wfD(1,4)[OF wf] p ent
    by (auto simp: nick_linkable_def s'(3))
  then show ?thesis using s'(1) same b s'(3) by auto
qed

lemma nick_unlink_law:
  assumes wf: "nicks_wf shl s" and p: "p \<in> set (nick_entries s)"
  shows "\<exists>s'. nick_unlink s p = Some s' \<and> nicks_wf shl s' \<and> nick_entries s' = removeAll p (nick_entries s) \<and>
    (\<forall>q \<in> set (nick_entries s'). nick_of s' q = nick_of s q)"
proof -
  obtain c where c: "clients s p = Some c" using nicks_wfD(4)[OF wf p] by (auto simp: nick_ok_def)
  define i where "i = hash_index (c_hash c) CLIENT_HASH_SIZE"
  have i: "i < length (client_listsn s)" "p \<in> set (client_listsn s ! i)"
    using hashed_table_bucket[OF nicks_wfD(2)[OF wf] p] nicks_wfD(1)[OF wf]
    by (simp_all add: i_def nick_hash_def c)
  define s' where "s' = s\<lparr>client_listsn := (client_listsn s)[i := removeAll p (client_listsn s ! i)]\<rparr>"
  note unl = bucket_unlink[OF i nicks_wfD(3)[OF wf]]
  have s': "nick_unlink s p = Some s'" "clients s' = clients s"
    "client_listsn s' = (client_listsn s)[i := removeAll p (client_listsn s ! i)]"
    using unl(1) by (simp_all add: nick_unlink_def c s'_def i_def Let_def)
  have same: "nick_hash s' = nick_hash s" "nick_ok shl s' = nick_ok shl s" "nick_of s' = nick_of s"
    by (simp_all add: nick_hash_def nick_ok_def nick_of_def s'(2) fun_eq_iff)
  have e: "nick_entries s' = removeAll p (nick_entries s)" using unl(2) by (simp add: s'(3))
  have "nicks_wf shl s'"
    unfolding nicks_wf_def same e
    using hashed_table_unlink[OF nicks_wfD(2)[OF wf] i] nicks_wfD(1,4)[OF wf] by (simp add: s'(3))
  then show ?thesis using s'(1) same e by auto
qed

interpretation nicks: dynamic_registry "nicks_wf shl" nick_entries nick_of
  "client_find_nick shl" "nick_linkable shl" nick_link nick_unlink for shl
  by unfold_locales (rule nick_find_law nick_link_law nick_unlink_law, assumption+)+

section \<open>The table of former nicks\<close>

abbreviation history_entries :: "ircd \<Rightarrow> ptr list" where
  "history_entries s \<equiv> concat (client_history s)"

definition former_nick :: "ircd \<Rightarrow> ptr \<Rightarrow> string" where
  "former_nick s p = (case histories s p of None \<Rightarrow> [] | Some h \<Rightarrow> h_nick h)"

definition history_hash :: "ircd \<Rightarrow> ptr \<Rightarrow> 64 word" where
  "history_hash s p = (case histories s p of None \<Rightarrow> 0 | Some h \<Rightarrow> h_hash h)"

definition history_ok :: "(64 word \<Rightarrow> 64 word) \<Rightarrow> ircd \<Rightarrow> ptr \<Rightarrow> bool" where
  "history_ok shl s p \<longleftrightarrow> (\<exists>h. histories s p = Some h \<and> h_hash h = str_ihash shl (Some (h_nick h)) \<and>
     no_nul (h_nick h) \<and> h_nick h \<noteq> [])"

definition history_wf :: "(64 word \<Rightarrow> 64 word) \<Rightarrow> ircd \<Rightarrow> bool" where
  "history_wf shl s \<longleftrightarrow> length (client_history s) = CLIENT_HASH_SIZE \<and> hashed_table (history_hash s) (client_history s) \<and>
     (\<forall>p \<in> set (history_entries s). history_ok shl s p) \<and> (\<forall>b \<in> set (client_history s). length b \<le> CLIENT_HISTORY_SIZE)"

text \<open>Linking a new entry, when there is room for it.\<close>

definition history_link :: "ircd \<Rightarrow> ptr \<Rightarrow> ircd option" where
  "history_link s p = do {
     h \<leftarrow> histories s p;
     let i = hash_index (h_hash h) CLIENT_HASH_SIZE;
     Some (s\<lparr>client_history := (client_history s)[i := p # client_history s ! i]\<rparr>) }"

definition history_linkable :: "(64 word \<Rightarrow> 64 word) \<Rightarrow> ircd \<Rightarrow> ptr \<Rightarrow> bool" where
  "history_linkable shl s p \<longleftrightarrow> history_ok shl s p \<and> p \<notin> set (history_entries s) \<and>
     length (client_history s ! hash_index (history_hash s p) CLIENT_HASH_SIZE) < CLIENT_HISTORY_SIZE"

lemma history_wfD:
  assumes "history_wf shl s"
  shows "length (client_history s) = CLIENT_HASH_SIZE" "hashed_table (history_hash s) (client_history s)"
    "distinct (history_entries s)" "p \<in> set (history_entries s) \<Longrightarrow> history_ok shl s p"
    "b \<in> set (client_history s) \<Longrightarrow> length b \<le> CLIENT_HISTORY_SIZE"
  using assms by (auto simp: history_wf_def hashed_table_def)

lemma history_ok_hash: "history_ok shl s p \<Longrightarrow> history_hash s p = str_ihash shl (Some (former_nick s p))"
  by (auto simp: history_ok_def history_hash_def former_nick_def)

lemma history_find_law:
  assumes wf: "history_wf shl s"
  shows "client_history_find shl s n = Some (List.find (\<lambda>p. same_name (former_nick s p) n) (history_entries s))"
proof -
  define i where "i = hash_index (str_ihash shl (Some n)) CLIENT_HASH_SIZE"
  have i: "i < length (client_history s)" using history_wfD(1)[OF wf] by (simp add: i_def)
  have "client_history_find shl s n = Some (List.find
      (\<lambda>p. history_hash s p = str_ihash shl (Some n) \<and> str_icmp (former_nick s p) n = 0) (client_history s ! i))"
    unfolding client_history_find_def Let_def i_def[symmetric]
  proof (rule search_find)
    fix p assume "p \<in> set (client_history s ! i)"
    then have "history_ok shl s p" using history_wfD(4)[OF wf in_bucket_concat[OF i]] by blast
    then obtain h where "histories s p = Some h" "cur (h_nick h) \<noteq> NUL" using cur_not_NUL by (auto simp: history_ok_def)
    then show "do { h \<leftarrow> histories s p; Some (cur (h_nick h) \<noteq> NUL \<and> str_ihash shl (Some n) = h_hash h \<and> str_icmp (h_nick h) n = 0) } =
        Some (history_hash s p = str_ihash shl (Some n) \<and> str_icmp (former_nick s p) n = 0)"
      by (auto simp: history_hash_def former_nick_def)
  qed
  also have "List.find (\<lambda>p. history_hash s p = str_ihash shl (Some n) \<and> str_icmp (former_nick s p) n = 0)
      (client_history s ! i) = List.find (\<lambda>p. same_name (former_nick s p) n) (history_entries s)"
    using hashed_search[OF history_wfD(2)[OF wf], of i shl n] history_wfD[OF wf] history_ok_hash
    by (simp add: i_def)
  finally show ?thesis .
qed

lemma history_link_law:
  assumes wf: "history_wf shl s" and p: "history_linkable shl s p"
  shows "\<exists>s'. history_link s p = Some s' \<and> history_wf shl s' \<and> p \<in> set (history_entries s') \<and>
    removeAll p (history_entries s') = history_entries s \<and> former_nick s' = former_nick s"
proof -
  from p obtain h where h: "histories s p = Some h" and new: "p \<notin> set (history_entries s)"
    by (auto simp: history_linkable_def history_ok_def)
  define i where "i = hash_index (h_hash h) CLIENT_HASH_SIZE"
  have i: "i < length (client_history s)" "i = hash_index (history_hash s p) (length (client_history s))"
    and room: "length (client_history s ! i) < CLIENT_HISTORY_SIZE"
    using history_wfD(1)[OF wf] p by (simp_all add: i_def history_hash_def h history_linkable_def)
  define s' where "s' = s\<lparr>client_history := (client_history s)[i := p # client_history s ! i]\<rparr>"
  have s': "history_link s p = Some s'" "histories s' = histories s" "client_history s' = (client_history s)[i := p # client_history s ! i]"
    by (simp_all add: history_link_def h s'_def i_def Let_def)
  note b = bucket_cons[OF i(1) new history_wfD(3)[OF wf]]
  have same: "history_hash s' = history_hash s" "history_ok shl s' = history_ok shl s" "former_nick s' = former_nick s"
    by (simp_all add: history_hash_def history_ok_def former_nick_def s'(2) fun_eq_iff)
  have ent: "set (history_entries s') = insert p (set (history_entries s))"
    unfolding s'(3) using b(2,3) by (metis insert_Diff set_removeAll)
  have "\<forall>b \<in> set (client_history s'). length b \<le> CLIENT_HISTORY_SIZE"
    using set_update_subset_insert[of "client_history s" i "p # client_history s ! i"] room history_wfD(5)[OF wf]
    by (fastforce simp: s'(3))
  then have "history_wf shl s'"
    unfolding history_wf_def same
    using hashed_table_cons[OF history_wfD(2)[OF wf] new i(2,1)] history_wfD(1,4)[OF wf] p ent
    by (auto simp: history_linkable_def s'(3))
  then show ?thesis using s'(1) same b s'(3) by auto
qed

lemma history_delete_law:
  assumes wf: "history_wf shl s" and p: "p \<in> set (history_entries s)"
  shows "\<exists>s'. client_history_delete s p = Some s' \<and> history_wf shl s' \<and> history_entries s' = removeAll p (history_entries s) \<and>
    (\<forall>q \<in> set (history_entries s'). former_nick s' q = former_nick s q)"
proof -
  obtain h where h: "histories s p = Some h" using history_wfD(4)[OF wf p] by (auto simp: history_ok_def)
  define i where "i = hash_index (h_hash h) CLIENT_HASH_SIZE"
  have i: "i < length (client_history s)" "p \<in> set (client_history s ! i)"
    using hashed_table_bucket[OF history_wfD(2)[OF wf] p] history_wfD(1)[OF wf]
    by (simp_all add: i_def history_hash_def h)
  define s' where "s' = s\<lparr>client_history := (client_history s)[i := removeAll p (client_history s ! i)],
    histories := (histories s)(p := None)\<rparr>"
  note unl = bucket_unlink[OF i history_wfD(3)[OF wf]]
  have s': "client_history_delete s p = Some s'" "histories s' = (histories s)(p := None)"
    "client_history s' = (client_history s)[i := removeAll p (client_history s ! i)]"
    using unl(1) by (simp_all add: client_history_delete_def h s'_def i_def Let_def)
  have e: "history_entries s' = removeAll p (history_entries s)" using unl(2) by (simp add: s'(3))
  have same: "history_hash s' q = history_hash s q" "history_ok shl s' q = history_ok shl s q" "former_nick s' q = former_nick s q"
    if "q \<noteq> p" for q
    using that by (simp_all add: history_hash_def history_ok_def former_nick_def s'(2))
  have t: "hashed_table (history_hash s) (client_history s')"
    using hashed_table_unlink[OF history_wfD(2)[OF wf] i] by (simp add: s'(3))
  have "q \<noteq> p" if "j < length (client_history s')" "q \<in> set (client_history s' ! j)" for j q
    using in_bucket_concat[OF that] e by auto
  then have "hashed_table (history_hash s') (client_history s')"
    using t same(1) unfolding hashed_table_def by metis
  moreover have "\<forall>b \<in> set (client_history s'). length b \<le> CLIENT_HISTORY_SIZE"
  proof -
    have "length (removeAll p (client_history s ! i)) \<le> CLIENT_HISTORY_SIZE"
      using history_wfD(5)[OF wf nth_mem[OF i(1)]] by (rule order_trans[OF length_removeAll_less_eq])
    then show ?thesis
      using set_update_subset_insert[of "client_history s" i] history_wfD(5)[OF wf] unfolding s'(3) by blast
  qed
  ultimately have "history_wf shl s'"
    unfolding history_wf_def e using history_wfD(1,4)[OF wf] same(2) by (auto simp: s'(3))
  moreover have "\<forall>q \<in> set (history_entries s'). former_nick s' q = former_nick s q"
    unfolding e using same(3) by simp
  ultimately show ?thesis using s'(1) e by blast
qed

interpretation former: dynamic_registry "history_wf shl" history_entries former_nick
  "client_history_find shl" "history_linkable shl" history_link client_history_delete for shl
  by unfold_locales (rule history_find_law history_link_law history_delete_law, assumption+)+

lemma history_cong:
  assumes "client_history t = client_history s" "\<And>p. p \<in> set (history_entries s) \<Longrightarrow> histories t p = histories s p"
  shows "history_wf shl t = history_wf shl s" "former.unique t = former.unique s"
    "history_wf shl s \<Longrightarrow> client_history_find shl t n = client_history_find shl s n"
proof -
  have h: "history_hash t p = history_hash s p" "history_ok shl t p = history_ok shl s p" "former_nick t p = former_nick s p"
    if "p \<in> set (history_entries s)" for p
    using assms(2)[OF that] by (simp_all add: history_hash_def history_ok_def former_nick_def)
  have "hashed_table (history_hash t) (client_history s) = hashed_table (history_hash s) (client_history s)"
    unfolding hashed_table_def using h(1) in_bucket_concat by metis
  then show wf: "history_wf shl t = history_wf shl s" using h(2) assms(1) by (auto simp: history_wf_def)
  show "former.unique t = former.unique s" unfolding former.unique_def assms(1) using h(3) by auto
  assume s: "history_wf shl s"
  have "List.find (\<lambda>p. same_name (former_nick t p) n) (history_entries s) = List.find (\<lambda>p. same_name (former_nick s p) n) (history_entries s)"
    by (rule find_cong') (simp add: h(3))
  then show "client_history_find shl t n = client_history_find shl s n"
    using wf s by (simp add: history_find_law assms(1))
qed

lemma put_history_simps [simp]:
  "histories (put_history p h s) = (histories s)(p \<mapsto> h)" "client_history (put_history p h s) = client_history s"
  "clients (put_history p h s) = clients s" "client_listsn (put_history p h s) = client_listsn s"
  "lclients (put_history p h s) = lclients s" "users (put_history p h s) = users s"
  by (simp_all add: put_history_def)

text \<open>What adding a nick does: nothing is lost but the oldest entry of a full bucket.\<close>

lemma history_add_new:
  assumes wf: "history_wf shl s" and a: "a \<notin> set (history_entries s)"
    and n: "no_nul nick" "nick \<noteq> []" "length nick \<le> IRCD_NICKLEN" and u: "former.unique s"
    and none: "client_history_find shl s nick = Some None"
  obtains s' where "client_history_add shl s a c nick = Some (s', a)" "history_wf shl s'" "former.unique s'"
    "client_history_find shl s' nick = Some (Some a)"
    "histories s' a = Some \<lparr>h_hash = str_ihash shl (Some nick), h_client = c, h_nick = nick\<rparr>"
    "\<And>m. \<not> same_name nick m \<Longrightarrow> client_history_find shl s' m \<in> {client_history_find shl s m, Some None}"
    "clients s' = clients s" "client_listsn s' = client_listsn s" "lclients s' = lclients s"
proof -
  let ?hash = "str_ihash shl (Some nick)"
  define i where "i = hash_index ?hash CLIENT_HASH_SIZE"
  have i: "i < length (client_history s)" using history_wfD(1)[OF wf] by (simp add: i_def)
  let ?h = "\<lparr>h_hash = ?hash, h_client = c, h_nick = nick\<rparr>"
  have f: "field (Suc IRCD_NICKLEN) nick = nick" using n by (simp add: field_id)
  obtain t where t: "(if length (client_history s ! i) = CLIENT_HISTORY_SIZE
      then client_history_delete s (last (client_history s ! i)) else Some s) = Some t" "history_wf shl t" "former.unique t"
    "length (client_history t ! i) < CLIENT_HISTORY_SIZE" "set (history_entries t) \<subseteq> set (history_entries s)"
    "\<And>m. client_history_find shl t m \<in> {client_history_find shl s m, Some None}"
    "clients t = clients s" "client_listsn t = client_listsn s" "lclients t = lclients s"
  proof (cases "length (client_history s ! i) = CLIENT_HISTORY_SIZE")
    case False
    then show ?thesis
      using that[of s] wf u history_wfD(5)[OF wf nth_mem[OF i]] by auto
  next
    case True
    let ?p = "last (client_history s ! i)"
    have ne: "client_history s ! i \<noteq> []" using True by (auto simp: CLIENT_HISTORY_SIZE_def)
    then have "?p \<in> set (client_history s ! i)" by simp
    from in_bucket_concat[OF i this] have p: "?p \<in> set (history_entries s)" .
    have "\<exists>t. client_history_delete s ?p = Some t \<and> history_wf shl t \<and> former.unique t \<and>
        (\<forall>m. client_history_find shl t m \<in> {client_history_find shl s m, Some None})"
      by (rule former.drop_lookup[OF wf p u]) (metis insertCI)
    then obtain t where t: "client_history_delete s ?p = Some t" "history_wf shl t" "former.unique t"
      "\<And>m. client_history_find shl t m \<in> {client_history_find shl s m, Some None}" by blast
    obtain h where h: "histories s ?p = Some h" using history_wfD(4)[OF wf p] by (auto simp: history_ok_def)
    have "hash_index (history_hash s ?p) (length (client_history s)) = i"
      using history_wfD(2)[OF wf] i \<open>?p \<in> set (client_history s ! i)\<close> by (auto simp: hashed_table_def)
    then have hi: "hash_index (h_hash h) CLIENT_HASH_SIZE = i" using history_wfD(1)[OF wf] by (simp add: history_hash_def h)
    obtain ps where ps: "unlink ?p (client_history s ! i) = Some ps"
      "t = s\<lparr>client_history := (client_history s)[i := ps], histories := (histories s)(?p := None)\<rparr>"
      using t(1) by (auto simp: client_history_delete_def h hi Let_def split: bind_splits)
    have "length ps < CLIENT_HISTORY_SIZE" "set ps \<subseteq> set (client_history s ! i)"
      using ps(1) True ne
      by (auto simp: unlink_def length_remove1 CLIENT_HISTORY_SIZE_def dest: notin_set_remove1[THEN contrapos_pp]
        split: if_splits intro: set_remove1_subset[THEN subsetD])
    moreover have "set (history_entries t) \<subseteq> set (history_entries s)"
      using former.drop_law[OF wf p] t(1) by auto
    ultimately show ?thesis
      by (intro that[of t] t(2,3,4)) (use t(1) ps(2) True i in simp_all)
  qed
  let ?u = "put_history a ?h t"
  have au: "a \<notin> set (history_entries t)" using a t(5) by blast
  have same: "history_wf shl ?u" "former.unique ?u" "client_history_find shl ?u m = client_history_find shl t m" for m
    using history_cong[of ?u t] au t(2,3) by (simp_all add: put_history_def, (metis fun_upd_other)+)
  have hash: "history_hash ?u a = ?hash" "former_nick ?u a = nick" by (simp_all add: history_hash_def former_nick_def)
  have lk: "history_linkable shl ?u a"
    using au n(1,2) t(4) hash by (simp add: history_linkable_def history_ok_def i_def)
  have fresh: "client_history_find shl ?u nick = Some None" using none t(6)[of nick] same(3) by auto
  obtain s' where s': "history_link ?u a = Some s'" "history_wf shl s'"
    "\<And>m. \<not> same_name (former_nick ?u a) m \<Longrightarrow> client_history_find shl s' m = client_history_find shl ?u m"
    "\<And>m. same_name (former_nick ?u a) m \<Longrightarrow> client_history_find shl ?u m = Some None \<Longrightarrow> client_history_find shl s' m = Some (Some a)"
    by (rule former.link_lookup[OF same(1) lk], rule that)
  have uq: "former.unique s'" by (rule former.link_unique[OF same(1) lk same(2) _ s'(1)]) (simp add: hash fresh)
  have e: "s' = ?u\<lparr>client_history := (client_history t)[i := a # client_history t ! i]\<rparr>"
    using s'(1) by (simp add: history_link_def i_def Let_def)
  have "client_history_add shl s a c nick = Some (s', a)"
    using none t(1) by (auto split: if_splits simp: client_history_add_def Let_def i_def[symmetric] f e put_history_def)
  moreover have "client_history_find shl s' m \<in> {client_history_find shl s m, Some None}" if "\<not> same_name nick m" for m
    using s'(3)[of m] that hash t(6)[of m] same(3)[of m] by simp
  moreover have "client_history_find shl s' nick = Some (Some a)" using s'(4)[of nick] fresh hash by simp
  moreover have "histories s' a = Some ?h" by (simp add: e)
  ultimately show ?thesis
    using that[of s'] s'(2) uq t(7-9) by (simp add: e)
qed

lemma history_add_known:
  assumes wf: "history_wf shl s" and n: "no_nul nick" "nick \<noteq> []" "length nick \<le> IRCD_NICKLEN" and u: "former.unique s"
    and some: "client_history_find shl s nick = Some (Some p)"
  obtains s' where "client_history_add shl s a c nick = Some (s', p)" "history_wf shl s'" "former.unique s'"
    "\<And>m. client_history_find shl s' m = client_history_find shl s m"
    "histories s' p = Some \<lparr>h_hash = str_ihash shl (Some nick), h_client = c, h_nick = nick\<rparr>"
    "clients s' = clients s" "client_listsn s' = client_listsn s" "lclients s' = lclients s"
proof -
  have f: "field (Suc IRCD_NICKLEN) nick = nick" using n by (simp add: field_id)
  have p: "p \<in> set (history_entries s)" "same_name (former_nick s p) nick"
    using former.lookup_Some[OF wf some] by auto
  obtain h where h: "histories s p = Some h" "h_hash h = str_ihash shl (Some (h_nick h))"
    using history_wfD(4)[OF wf p(1)] by (auto simp: history_ok_def)
  have hash: "h_hash h = str_ihash shl (Some nick)"
    using h p(2) str_ihash_same_name[of "h_nick h" nick shl] by (simp add: former_nick_def)
  let ?s = "put_history p \<lparr>h_hash = h_hash h, h_client = c, h_nick = nick\<rparr> s"
  have e: "client_history_add shl s a c nick = Some (?s, p)"
    using some h(1) by (simp add: client_history_add_def f)
  have hh: "history_hash ?s = history_hash s" by (auto simp: history_hash_def h(1) fun_eq_iff)
  have ok: "history_ok shl ?s q" if "history_ok shl s q" for q
    using that n(1,2) hash by (auto simp: history_ok_def)
  have nm: "same_name (former_nick ?s q) m = same_name (former_nick s q) m" for q m
    using p(2) by (auto simp: former_nick_def h(1) same_name_def)
  have wf': "history_wf shl ?s" using wf ok by (simp add: history_wf_def hh)
  have "former.unique ?s"
    using u nm same_name_sym unfolding former.unique_def put_history_simps by metis
  moreover have "client_history_find shl ?s m = client_history_find shl s m" for m
    by (simp add: history_find_law[OF wf'] history_find_law[OF wf] nm)
  ultimately show ?thesis using that[of ?s] e wf' hash by simp
qed

text \<open>Both cases.\<close>

lemma history_add_spec:
  assumes wf: "history_wf shl s" and a: "a \<notin> set (history_entries s)"
    and n: "no_nul nick" "nick \<noteq> []" "length nick \<le> IRCD_NICKLEN" and u: "former.unique s"
  obtains s' p h where "client_history_add shl s a c nick = Some (s', p)" "history_wf shl s'" "former.unique s'"
    "client_history_find shl s' nick = Some (Some p)" "histories s' p = Some h" "h_client h = c"
    "\<forall>m. \<not> same_name nick m \<longrightarrow> client_history_find shl s' m \<in> {client_history_find shl s m, Some None}"
    "clients s' = clients s" "client_listsn s' = client_listsn s" "lclients s' = lclients s"
proof -
  obtain r where r: "client_history_find shl s nick = Some r" using former.lookup_total[OF wf] by blast
  show ?thesis
  proof (cases r)
    case None
    have "\<exists>s' p h. client_history_add shl s a c nick = Some (s', p) \<and> history_wf shl s' \<and> former.unique s' \<and>
      client_history_find shl s' nick = Some (Some p) \<and> histories s' p = Some h \<and> h_client h = c \<and>
      (\<forall>m. \<not> same_name nick m \<longrightarrow> client_history_find shl s' m \<in> {client_history_find shl s m, Some None}) \<and>
      clients s' = clients s \<and> client_listsn s' = client_listsn s \<and> lclients s' = lclients s"
      by (rule history_add_new[OF wf a n u r[unfolded None], of c]) fastforce
    then show ?thesis using that by blast
  next
    case (Some q)
    have "\<exists>s' h. client_history_add shl s a c nick = Some (s', q) \<and> history_wf shl s' \<and> former.unique s' \<and>
      client_history_find shl s' nick = Some (Some q) \<and> histories s' q = Some h \<and> h_client h = c \<and>
      (\<forall>m. client_history_find shl s' m = client_history_find shl s m) \<and>
      clients s' = clients s \<and> client_listsn s' = client_listsn s \<and> lclients s' = lclients s"
      by (rule history_add_known[OF wf n u r[unfolded Some], of a c]) (use r Some in fastforce)
    then show ?thesis using that by blast
  qed
qed


section \<open>The lookups after a change of a nick\<close>

lemma nick_table_cong:
  assumes "client_listsn t = client_listsn s" "\<And>p. p \<in> set (nick_entries s) \<Longrightarrow> clients t p = clients s p"
  shows "nicks_wf shl t = nicks_wf shl s" "nicks.unique t = nicks.unique s"
    "nicks_wf shl s \<Longrightarrow> client_find_nick shl t n = client_find_nick shl s n"
proof -
  note wf = nicks_cong(1)[OF assms] and h = nicks_cong(2)[OF assms]
  show "nicks_wf shl t = nicks_wf shl s" by (rule wf)
  show "nicks.unique t = nicks.unique s" unfolding nicks.unique_def assms(1) using h by auto
  assume s: "nicks_wf shl s"
  have "List.find (\<lambda>p. same_name (nick_of t p) n) (nick_entries s) = List.find (\<lambda>p. same_name (nick_of s p) n) (nick_entries s)"
    by (rule find_cong') (use h in presburger)
  then show "client_find_nick shl t n = client_find_nick shl s n"
    using s wf by (simp add: nick_find_law assms(1))
qed

text \<open>What a nick table and its history owe each other, kept by every change of a nick.\<close>

definition names_wf :: "(64 word \<Rightarrow> 64 word) \<Rightarrow> ircd \<Rightarrow> bool" where
  "names_wf shl s \<longleftrightarrow> nicks_wf shl s \<and> nicks.unique s \<and> history_wf shl s \<and> former.unique s"

lemma names_cong:
  assumes "client_listsn t = client_listsn s" "client_history t = client_history s" "histories t = histories s"
    "\<And>p. p \<in> set (nick_entries s) \<Longrightarrow> clients t p = clients s p"
  shows "names_wf shl t = names_wf shl s"
  using nick_table_cong(1,2)[OF assms(1,4)] history_cong(1,2)[OF assms(2)] assms(3) by (simp add: names_wf_def)

lemma nick_unlink_keeps:
  "nick_unlink s p = Some s' \<Longrightarrow> clients s' = clients s \<and> histories s' = histories s \<and>
     client_history s' = client_history s \<and> lclients s' = lclients s \<and> timer_systime s' = timer_systime s"
  by (auto simp: nick_unlink_def Let_def split: bind_splits)

lemma nick_link_keeps:
  "nick_link s p = Some s' \<Longrightarrow> clients s' = clients s \<and> histories s' = histories s \<and>
     client_history s' = client_history s \<and> lclients s' = lclients s"
  by (auto simp: nick_link_def Let_def split: bind_splits)

lemma lclient_set_name_keeps:
  "lclient_set_name shl s p n = Some s' \<Longrightarrow> clients s' = clients s \<and> histories s' = histories s \<and>
     client_history s' = client_history s \<and> client_listsn s' = client_listsn s"
  by (auto simp: lclient_set_name_def Let_def split: bind_splits)

text \<open>The first half: the user leaves the table and its nick goes to the history.\<close>

lemma nick_to_history:
  assumes wf: "names_wf shl s" and p: "p \<in> set (nick_entries s)" and c: "clients s p = Some c"
    and len: "length (c_name c) \<le> IRCD_NICKLEN" and a: "a \<notin> set (history_entries s)"
  obtains t u q h where "nick_unlink s p = Some t" "client_history_add shl t a p (c_name c) = Some (u, q)"
    "names_wf shl u" "p \<notin> set (nick_entries u)" "clients u = clients s" "lclients u = lclients s"
    "\<forall>m. client_find_nick shl u m = (if same_name (c_name c) m then Some None else client_find_nick shl s m)"
    "client_history_find shl u (c_name c) = Some (Some q)" "histories u q = Some h" "h_client h = p"
proof -
  note w = wf[unfolded names_wf_def]
  have ok: "no_nul (c_name c)" "c_name c \<noteq> []" and nm: "nick_of s p = c_name c"
    using nicks_wfD(4)[OF _ p, of shl] w c by (auto simp: nick_ok_def nick_of_def)
  have "\<exists>t. nick_unlink s p = Some t \<and> nicks_wf shl t \<and> nicks.unique t \<and>
      (\<forall>m. same_name (c_name c) m \<longrightarrow> client_find_nick shl t m = Some None) \<and>
      (\<forall>m. \<not> same_name (c_name c) m \<longrightarrow> client_find_nick shl t m = client_find_nick shl s m)"
    by (rule nicks.drop_lookup[of shl s p]) (use w p nm in simp_all)
  then obtain t where t: "nick_unlink s p = Some t" "nicks_wf shl t" "nicks.unique t"
    "\<And>m. same_name (c_name c) m \<Longrightarrow> client_find_nick shl t m = Some None"
    "\<And>m. \<not> same_name (c_name c) m \<Longrightarrow> client_find_nick shl t m = client_find_nick shl s m" by blast
  note k = nick_unlink_keeps[OF t(1)]
  have gone: "nick_entries t = removeAll p (nick_entries s)" using nick_unlink_law[of shl s p] w p t(1) by auto
  have wt: "history_wf shl t" "former.unique t" using w k history_cong[of t s] by auto
  have at: "a \<notin> set (history_entries t)" using a k by simp
  have "\<exists>u q h. client_history_add shl t a p (c_name c) = Some (u, q) \<and> history_wf shl u \<and> former.unique u \<and>
      client_history_find shl u (c_name c) = Some (Some q) \<and> histories u q = Some h \<and> h_client h = p \<and>
      clients u = clients t \<and> client_listsn u = client_listsn t \<and> lclients u = lclients t"
    by (rule history_add_spec[OF wt(1) at ok len wt(2), of p]) fastforce
  then obtain u q h where u: "client_history_add shl t a p (c_name c) = Some (u, q)" "history_wf shl u" "former.unique u"
      "client_history_find shl u (c_name c) = Some (Some q)" "histories u q = Some h" "h_client h = p"
      "clients u = clients t" "client_listsn u = client_listsn t" "lclients u = lclients t" by blast
  have n: "nicks_wf shl u = nicks_wf shl t" "nicks.unique u = nicks.unique t"
    "client_find_nick shl u m = client_find_nick shl t m" for m
    using nick_table_cong[of u t] u(7,8) t(2) by auto
  show ?thesis
  proof (rule that[OF t(1) u(1) _ _ _ _ _ u(4,5,6)])
    show "names_wf shl u" using n t(2,3) u(2,3) by (simp add: names_wf_def)
    show "p \<notin> set (nick_entries u)" by (simp add: u(8) gone)
    show "clients u = clients s" "lclients u = lclients s" using u(7,9) k by simp_all
    show "\<forall>m. client_find_nick shl u m = (if same_name (c_name c) m then Some None else client_find_nick shl s m)"
      using n(3) t(4,5) by simp
  qed
qed

text \<open>The second half: the new name, and back to the table.\<close>

lemma nick_back:
  assumes wf: "names_wf shl u" and p: "p \<notin> set (nick_entries u)" and c: "clients u p = Some c"
    and n: "no_nul n" "n \<noteq> []" "length n \<le> IRCD_HOSTLEN" and free: "client_find_nick shl u n = Some None"
    and l: "\<And>l. c_lclient c = Some l \<Longrightarrow> lclients u l \<noteq> None"
  defines "v \<equiv> put_client p (c\<lparr>c_name := n, c_hash := str_ihash shl (Some n), c_ts := timer_systime u\<rparr>) u"
  obtains w s' where "(case c_lclient c of None \<Rightarrow> Some v | Some l \<Rightarrow> lclient_set_name shl v l n) = Some w"
    "nick_link w p = Some s'" "names_wf shl s'" "nick_of s' p = n"
    "\<forall>m. client_find_nick shl s' m = (if same_name n m then Some (Some p) else client_find_nick shl u m)"
    "histories s' = histories u" "client_history s' = client_history u"
proof -
  have "\<exists>w. (case c_lclient c of None \<Rightarrow> Some v | Some l \<Rightarrow> lclient_set_name shl v l n) = Some w \<and>
     clients w = clients v \<and> histories w = histories u \<and> client_history w = client_history u \<and> client_listsn w = client_listsn u"
  proof (cases "c_lclient c")
    case None
    then show ?thesis by (simp add: v_def put_client_def)
  next
    case (Some x)
    then obtain lc where "lclients u x = Some lc" using l by blast
    then have "\<exists>w. lclient_set_name shl v x n = Some w" by (simp add: lclient_set_name_def v_def put_client_def Let_def)
    then show ?thesis using lclient_set_name_keeps[of shl v x n] Some by (auto simp: v_def put_client_def)
  qed
  then obtain w where w: "(case c_lclient c of None \<Rightarrow> Some v | Some l \<Rightarrow> lclient_set_name shl v l n) = Some w"
    "clients w = clients v" "histories w = histories u" "client_history w = client_history u" "client_listsn w = client_listsn u" by blast
  have same: "clients w q = clients u q" if "q \<in> set (nick_entries u)" for q
    using that p w(2) by (auto simp: v_def put_client_def)
  have nw: "names_wf shl w" using names_cong[OF w(5,4,3) same] wf by simp
  have find: "client_find_nick shl w m = client_find_nick shl u m" for m
    using nick_table_cong(3)[OF w(5) same] wf by (simp add: names_wf_def)
  have cw: "clients w p = Some (c\<lparr>c_name := n, c_hash := str_ihash shl (Some n), c_ts := timer_systime u\<rparr>)"
    by (simp add: w(2) v_def put_client_def)
  then have nm: "nick_of w p = n" by (simp add: nick_of_def)
  have lk: "nick_linkable shl w p" using cw n p w(5) by (simp add: nick_linkable_def nick_ok_def)
  note nw' = nw[unfolded names_wf_def]
  have "\<exists>s'. nick_link w p = Some s' \<and> nicks_wf shl s' \<and>
      (\<forall>m. \<not> same_name n m \<longrightarrow> client_find_nick shl s' m = client_find_nick shl w m) \<and>
      (\<forall>m. same_name n m \<longrightarrow> client_find_nick shl w m = Some None \<longrightarrow> client_find_nick shl s' m = Some (Some p))"
    by (rule nicks.link_lookup[OF nw'[THEN conjunct1] lk]) (use nm in metis)
  then obtain s' where s': "nick_link w p = Some s'" "nicks_wf shl s'"
    "\<And>m. \<not> same_name n m \<Longrightarrow> client_find_nick shl s' m = client_find_nick shl w m"
    "\<And>m. same_name n m \<Longrightarrow> client_find_nick shl w m = Some None \<Longrightarrow> client_find_nick shl s' m = Some (Some p)" by blast
  note k = nick_link_keeps[OF s'(1)]
  have "client_find_nick shl w m = Some None" if "same_name n m" for m
    using that free find nicks.lookup_case[of shl w n m] nw' by simp
  then have all: "\<forall>m. client_find_nick shl s' m = (if same_name n m then Some (Some p) else client_find_nick shl u m)"
    using s'(3,4) find by simp
  have "nicks.unique s'"
    by (rule nicks.link_unique[OF nw'[THEN conjunct1] lk _ _ s'(1)]) (use nw' nm find free in simp_all)
  then have "names_wf shl s'" using s'(2) nw' k history_cong[of s' w] by (simp add: names_wf_def)
  then show ?thesis using that[OF w(1) s'(1) _ _ all] k w(3,4) nm by (simp add: nick_of_def)
qed

text \<open>C15. Changing a user's nick (\<open>client_set_name\<close>) to a name nobody else has never fails: the
  tables stay well formed and free of duplicates, the new name (in any case) finds the client, the old
  one no longer does, every other name finds what it found before, and the old name still leads to the
  client through the history (\<open>client_find_nickh\<close>).\<close>

theorem client_set_name_lookup:
  assumes wf: "names_wf shl s" and p: "p \<in> set (nick_entries s)" and c: "clients s p = Some c" "client_is_user c"
    and old: "length (c_name c) \<le> IRCD_NICKLEN" and a: "a \<notin> set (history_entries s)"
    and n: "no_nul n" "n \<noteq> []" "length n \<le> IRCD_HOSTLEN"
    and free: "client_find_nick shl s n = Some None \<or> same_name (c_name c) n"
    and l: "\<And>l. c_lclient c = Some l \<Longrightarrow> lclients s l \<noteq> None"
  shows "\<exists>s'. client_set_name shl s a p n = Some s' \<and> names_wf shl s' \<and> nick_of s' p = n \<and>
    (\<forall>m. client_find_nick shl s' m =
       (if same_name n m then Some (Some p) else if same_name (c_name c) m then Some None else client_find_nick shl s m)) \<and>
    client_find_nickh shl s' (c_name c) = Some (Some p)"
proof -
  have ne: "cur (c_name c) \<noteq> NUL"
    using nicks_wfD(4)[OF _ p, of shl] wf c cur_not_NUL by (auto simp: nick_ok_def names_wf_def)
  have "\<exists>t u q h. nick_unlink s p = Some t \<and> client_history_add shl t a p (c_name c) = Some (u, q) \<and>
    names_wf shl u \<and> p \<notin> set (nick_entries u) \<and> clients u = clients s \<and> lclients u = lclients s \<and>
    (\<forall>m. client_find_nick shl u m = (if same_name (c_name c) m then Some None else client_find_nick shl s m)) \<and>
    client_history_find shl u (c_name c) = Some (Some q) \<and> histories u q = Some h \<and> h_client h = p"
    by (rule nick_to_history[OF wf p c(1) old a]) metis
  then obtain t u q h where u: "nick_unlink s p = Some t" "client_history_add shl t a p (c_name c) = Some (u, q)"
    "names_wf shl u" "p \<notin> set (nick_entries u)" "clients u = clients s" "lclients u = lclients s"
    "\<forall>m. client_find_nick shl u m = (if same_name (c_name c) m then Some None else client_find_nick shl s m)"
    "client_history_find shl u (c_name c) = Some (Some q)" "histories u q = Some h" "h_client h = p" by metis
  have fr: "client_find_nick shl u n = Some None" using u(7) free by auto
  let ?v = "put_client p (c\<lparr>c_name := n, c_hash := str_ihash shl (Some n), c_ts := timer_systime u\<rparr>) u"
  have "\<exists>w s'. (case c_lclient c of None \<Rightarrow> Some ?v | Some l \<Rightarrow> lclient_set_name shl ?v l n) = Some w \<and>
    nick_link w p = Some s' \<and> names_wf shl s' \<and> nick_of s' p = n \<and>
    (\<forall>m. client_find_nick shl s' m = (if same_name n m then Some (Some p) else client_find_nick shl u m)) \<and>
    histories s' = histories u \<and> client_history s' = client_history u"
    by (rule nick_back[OF u(3,4) _ n fr, of c]) (use u(5,6) c l in metis)+
  then obtain w s' where s': "(case c_lclient c of None \<Rightarrow> Some ?v | Some l \<Rightarrow> lclient_set_name shl ?v l n) = Some w"
    "nick_link w p = Some s'" "names_wf shl s'" "nick_of s' p = n"
    "\<forall>m. client_find_nick shl s' m = (if same_name n m then Some (Some p) else client_find_nick shl u m)"
    "histories s' = histories u" "client_history s' = client_history u" by blast
  have run: "client_set_name shl s a p n = Some s'"
    using c u(1,2) s'(1,2) ne n(1,3) by (simp add: client_set_name_def field_id Let_def)
  have former: "client_history_find shl s' (c_name c) = Some (Some q)"
    using history_cong(3)[OF s'(7)] s'(6) u(3,8) by (simp add: names_wf_def)
  have "client_find_nick shl s' (c_name c) = (if same_name n (c_name c) then Some (Some p) else Some None)"
    using s'(5) u(7) by simp
  then have "client_find_nickh shl s' (c_name c) = Some (Some p)"
    using former u(9,10) s'(6) by (simp add: client_find_nickh_def)
  then show ?thesis using run s'(3,4,5) u(7) by auto
qed


section \<open>Two users\<close>

definition nick_client :: "ptr \<Rightarrow> string \<Rightarrow> client" where
  "nick_client u n = (a_client CLIENT_LOCAL u n)\<lparr>c_hash := str_ihash (\<lambda>_. 0) (Some n)\<rparr>"

definition nick_pair :: ircd where
  "nick_pair = (let s = boot_state [10 \<mapsto> nick_client 20 ''alice'', 11 \<mapsto> nick_client 21 ''carol'']
     [20 \<mapsto> a_user 10 ''al'', 21 \<mapsto> a_user 11 ''ca''] 1000 in the (do { s \<leftarrow> nick_link s 10; nick_link s 11 }))"

lemma names_boot: "names_wf shl (boot_state cs us now)"
  by (simp add: names_wf_def nicks_wf_def history_wf_def nicks.unique_def former.unique_def boot_state_def
    hashed_table_empty)

lemma link_names:
  assumes wf: "names_wf shl s" and lk: "nick_linkable shl s p" and free: "client_find_nick shl s (nick_of s p) = Some None"
  shows "\<exists>s'. nick_link s p = Some s' \<and> names_wf shl s' \<and> p \<in> set (nick_entries s') \<and>
    removeAll p (nick_entries s') = nick_entries s \<and> nick_of s' = nick_of s \<and> clients s' = clients s \<and>
    histories s' = histories s \<and> client_history s' = client_history s"
proof -
  note w = wf[unfolded names_wf_def]
  obtain s' where s': "nick_link s p = Some s'" "nicks_wf shl s'" "p \<in> set (nick_entries s')"
    "removeAll p (nick_entries s') = nick_entries s" "nick_of s' = nick_of s"
    using nick_link_law[OF _ lk] w by blast
  have "nicks.unique s'" by (rule nicks.link_unique[OF w[THEN conjunct1] lk _ free s'(1)]) (use w in simp)
  then show ?thesis using s' w nick_link_keeps[OF s'(1)] history_cong[of s' s] by (auto simp: names_wf_def)
qed

lemma nick_client_simps [simp]:
  "c_name (nick_client u n) = n" "c_type (nick_client u n) = CLIENT_USER" "c_lclient (nick_client u n) = None"
  "c_hash (nick_client u n) = str_ihash (\<lambda>_. 0) (Some n)"
  by (simp_all add: nick_client_def a_client_def)

lemma nick_pair_facts:
  "names_wf (\<lambda>_. 0) nick_pair" "set (nick_entries nick_pair) = {10, 11}" "history_entries nick_pair = []"
  "clients nick_pair = [10 \<mapsto> nick_client 20 ''alice'', 11 \<mapsto> nick_client 21 ''carol'']"
proof -
  let ?b = "boot_state [10 \<mapsto> nick_client 20 ''alice'', 11 \<mapsto> nick_client 21 ''carol'']
     [20 \<mapsto> a_user 10 ''al'', 21 \<mapsto> a_user 11 ''ca''] 1000"
  have b: "clients ?b = [10 \<mapsto> nick_client 20 ''alice'', 11 \<mapsto> nick_client 21 ''carol'']" "nick_entries ?b = []"
    "histories ?b = Map.empty" "client_history ?b = replicate CLIENT_HASH_SIZE []"
    by (simp_all add: boot_state_def)
  have nm: "nick_of ?b 10 = ''alice''" "nick_of ?b 11 = ''carol''" by (simp_all only: nick_of_def b, simp_all)
  have ok: "nick_ok (\<lambda>_. 0) ?b 10" "nick_ok (\<lambda>_. 0) ?b 11"
    by (simp_all only: nick_ok_def b, simp_all add: no_nul_def)
  have l1: "nick_linkable (\<lambda>_. 0) ?b 10" by (simp add: nick_linkable_def ok b)
  have f1: "client_find_nick (\<lambda>_. 0) ?b m = Some None" for m
    using nick_find_law[of "\<lambda>_. 0" ?b m] names_boot b(2) by (simp add: names_wf_def)
  obtain s where s: "nick_link ?b 10 = Some s" "names_wf (\<lambda>_. 0) s" "10 \<in> set (nick_entries s)"
    "removeAll 10 (nick_entries s) = nick_entries ?b" "nick_of s = nick_of ?b" "clients s = clients ?b"
    "histories s = histories ?b" "client_history s = client_history ?b"
    using link_names[OF names_boot l1 f1] by blast
  have e: "set (nick_entries s) = {10}" using s(3) arg_cong[OF s(4), of set] b(2) by auto
  have l2: "nick_linkable (\<lambda>_. 0) s 11" using ok(2) e s(6) by (simp add: nick_linkable_def nick_ok_def)
  have "\<not> same_name ''alice'' ''carol''" by (simp add: same_name_def) code_simp
  then have f2: "client_find_nick (\<lambda>_. 0) s (nick_of s 11) = Some None"
    using nicks.lookup_None[of "\<lambda>_. 0" s] s(2) e s(5) nm by (simp add: names_wf_def del: set_concat)
  obtain t where t: "nick_link s 11 = Some t" "names_wf (\<lambda>_. 0) t" "11 \<in> set (nick_entries t)"
    "removeAll 11 (nick_entries t) = nick_entries s" "clients t = clients s" "client_history t = client_history s"
    using link_names[OF s(2) l2 f2] by blast
  have r: "nick_pair = t" using s(1) t(1) by (simp add: nick_pair_def Let_def)
  show "names_wf (\<lambda>_. 0) nick_pair" "history_entries nick_pair = []"
    "clients nick_pair = [10 \<mapsto> nick_client 20 ''alice'', 11 \<mapsto> nick_client 21 ''carol'']"
    using t s(6,8) b by (simp_all add: r)
  have "set (nick_entries t) - {11} = {10}" using arg_cong[OF t(4), of set] e by simp
  then show "set (nick_entries nick_pair) = {10, 11}" using t(3) unfolding r by blast
qed

theorem client_set_name_witness:
  "\<exists>s'. client_set_name (\<lambda>_. 0) nick_pair 50 10 ''bob'' = Some s' \<and> client_find_nick (\<lambda>_. 0) s' ''BOB'' = Some (Some 10) \<and>
    client_find_nick (\<lambda>_. 0) s' ''alice'' = Some None \<and> client_find_nickh (\<lambda>_. 0) s' ''alice'' = Some (Some 10)"
proof -
  have c: "clients nick_pair 10 = Some (nick_client 20 ''alice'')" by (simp add: nick_pair_facts(4))
  have d: "same_name ''bob'' ''BOB''" "\<not> same_name ''bob'' ''alice''" "\<not> same_name ''alice'' ''bob''" "\<not> same_name ''carol'' ''bob''"
    by (simp_all add: same_name_def, code_simp+)
  have nm: "nick_of nick_pair 10 = ''alice''" "nick_of nick_pair 11 = ''carol''"
    by (simp_all add: nick_of_def nick_pair_facts(4))
  have f: "client_find_nick (\<lambda>_. 0) nick_pair ''bob'' = Some None"
    using nicks.lookup_None[of "\<lambda>_. 0" nick_pair "''bob''"] nick_pair_facts(1,2) d nm
    by (simp add: names_wf_def del: set_concat)
  have "\<exists>s'. client_set_name (\<lambda>_. 0) nick_pair 50 10 ''bob'' = Some s' \<and> names_wf (\<lambda>_. 0) s' \<and> nick_of s' 10 = ''bob'' \<and>
    (\<forall>m. client_find_nick (\<lambda>_. 0) s' m = (if same_name ''bob'' m then Some (Some 10)
       else if same_name (c_name (nick_client 20 ''alice'')) m then Some None else client_find_nick (\<lambda>_. 0) nick_pair m)) \<and>
    client_find_nickh (\<lambda>_. 0) s' (c_name (nick_client 20 ''alice'')) = Some (Some 10)"
    by (rule client_set_name_lookup[OF nick_pair_facts(1) _ c])
      (use f in \<open>simp_all add: nick_pair_facts(2,3) client_is_user_def no_nul_def IRCD_NICKLEN_def IRCD_HOSTLEN_def del: set_concat\<close>)
  then show ?thesis using d by (auto simp: same_name_def)
qed

section \<open>A client that leaves\<close>

lemma set_concat_nth: "set (concat xs) = (\<Union>i \<in> {0..<length xs}. set (xs ! i))"
  by (induction xs rule: rev_induct) (simp_all add: atLeast0_lessThan_Suc nth_append Un_commute)

lemma history_delete_gone:
  "client_history_delete s p = Some t \<Longrightarrow> histories t p = None"
  by (auto simp: client_history_delete_def Let_def split: bind_splits)

definition left_by :: "ircd \<Rightarrow> ptr \<Rightarrow> ptr \<Rightarrow> bool" where
  "left_by s c p \<longleftrightarrow> (\<exists>h. histories s p = Some h \<and> h_client h = c)"

lemma clean_bucket_exact:
  "(\<And>p. p \<in> set ps \<Longrightarrow> histories s p \<noteq> None) \<Longrightarrow>
    clean_bucket s c ps = (if \<exists>p \<in> set ps. left_by s c p then None else Some s)"
proof (induction ps)
  case (Cons p ps)
  obtain h where h: "histories s p = Some h" using Cons.prems[of p] by auto
  show ?case
  proof (cases "h_client h = c")
    case True
    then show ?thesis
      using h by (cases "client_history_delete s p") (auto simp: left_by_def dest: history_delete_gone)
  next
    case False
    then show ?thesis using h Cons by (auto simp: left_by_def)
  qed
qed simp

lemma clean_buckets_exact:
  "(\<And>i p. i \<in> set is \<Longrightarrow> p \<in> set (client_history s ! i) \<Longrightarrow> histories s p \<noteq> None) \<Longrightarrow>
    clean_buckets s c is = (if \<exists>i \<in> set is. \<exists>p \<in> set (client_history s ! i). left_by s c p then None else Some s)"
proof (induction "is")
  case (Cons i "is")
  have "clean_bucket s c (client_history s ! i) = (if \<exists>p \<in> set (client_history s ! i). left_by s c p then None else Some s)"
    by (rule clean_bucket_exact) (meson Cons.prems list.set_intros(1))
  moreover have "clean_buckets s c is = (if \<exists>i \<in> set is. \<exists>p \<in> set (client_history s ! i). left_by s c p then None else Some s)"
    by (rule Cons.IH) (meson Cons.prems list.set_intros(2))
  ultimately show ?case by simp
qed simp

text \<open>When a client quits, \<open>client_history_clean\<close> does its work in exactly one case, that there is
  none: as soon as the history holds a nick of that client, the loop goes on from an entry it has just
  freed (\<open>dlink_foreach\<close>, not the safe variant, around \<open>client_history_delete\<close>).\<close>

theorem client_history_clean_reads_freed:
  assumes "history_wf shl s"
  shows "client_history_clean s c = (if \<exists>p \<in> set (history_entries s). left_by s c p then None else Some s)"
proof -
  note len = history_wfD(1)[OF assms]
  have "histories s p \<noteq> None" if "i \<in> set [0..<CLIENT_HASH_SIZE]" "p \<in> set (client_history s ! i)" for i p
    using history_wfD(4)[OF assms in_bucket_concat[OF _ that(2)]] that(1) len by (auto simp: history_ok_def)
  moreover have "set (history_entries s) = (\<Union>i \<in> set [0..<CLIENT_HASH_SIZE]. set (client_history s ! i))"
    using set_concat_nth[of "client_history s"] len by simp
  ultimately show ?thesis by (simp add: client_history_clean_def clean_buckets_exact del: set_concat set_upt)
qed

theorem client_history_clean_witness:
  "\<exists>s'. client_history_add (\<lambda>_. 0) nick_pair 50 10 ''old'' = Some (s', 50) \<and> client_history_clean s' 10 = None \<and>
    client_history_clean s' 11 = Some s'"
proof -
  let ?h = "\<lparr>h_hash = str_ihash (\<lambda>_. 0) (Some ''old''), h_client = 10, h_nick = ''old''\<rparr>"
  have w: "history_wf (\<lambda>_. 0) nick_pair" "former.unique nick_pair" using nick_pair_facts(1) by (simp_all add: names_wf_def)
  have none: "client_history_find (\<lambda>_. 0) nick_pair m = Some None" for m
    using history_find_law[OF w(1), of m] nick_pair_facts(3) by simp
  have "\<exists>s'. client_history_add (\<lambda>_. 0) nick_pair 50 10 ''old'' = Some (s', 50) \<and> history_wf (\<lambda>_. 0) s' \<and> former.unique s' \<and>
     client_history_find (\<lambda>_. 0) s' ''old'' = Some (Some 50) \<and> histories s' 50 = Some ?h \<and>
     (\<forall>m. \<not> same_name ''old'' m \<longrightarrow> client_history_find (\<lambda>_. 0) s' m = Some None)"
    by (rule history_add_new[OF w(1) _ _ _ _ w(2) none, of 50 "''old''" 10])
      (use none in \<open>auto simp: nick_pair_facts(3) no_nul_def IRCD_NICKLEN_def simp del: set_concat\<close>)
  then obtain s' where s': "client_history_add (\<lambda>_. 0) nick_pair 50 10 ''old'' = Some (s', 50)" "history_wf (\<lambda>_. 0) s'" "former.unique s'"
    "client_history_find (\<lambda>_. 0) s' ''old'' = Some (Some 50)" "histories s' 50 = Some ?h"
    "\<forall>m. \<not> same_name ''old'' m \<longrightarrow> client_history_find (\<lambda>_. 0) s' m = Some None" by blast
  note find = former.lookup_Some[OF s'(2,4)]
  have only: "p = 50" if p: "p \<in> set (history_entries s')" for p
  proof (cases "same_name ''old'' (former_nick s' p)")
    case True
    moreover have "former_nick s' 50 = ''old''" by (simp add: former_nick_def s'(5))
    ultimately show ?thesis using s'(3) p find unfolding former.unique_def by metis
  next
    case False
    then have "\<not> same_name (former_nick s' p) (former_nick s' p)"
      using s'(6) former.lookup_None[OF s'(2)] p by blast
    then show ?thesis by (simp add: same_name_def)
  qed
  have "(\<exists>p \<in> set (history_entries s'). left_by s' c p) \<longleftrightarrow> c = 10" for c
    using find only s'(5) unfolding left_by_def by (metis history.select_convs(2) option.inject)
  then show ?thesis using s'(1) client_history_clean_reads_freed[OF s'(2)] by simp
qed

end
