(* ===== verification/Chanparse.thy ===== *)
theory Chanparse
  imports Chansend Nicks Tokenize Chars
begin

text \<open>
  Parsing of channel mode lines (\<open>chanmode_prepare\<close> and \<open>chanmode_parse\<close> of src/chanmode.c): the
  flags are walked with the current sign, every letter is looked up in the table of modes, and the
  modes that want one take the next argument.
\<close>

unbundle bit_operations_syntax

section \<open>One change\<close>

definition CAP_UID_BIT :: "64 word" where "CAP_UID_BIT = 0x8"

text \<open>The block on the stack: the fields \<open>ts\<close>, \<open>ihash\<close> and \<open>info\<close> are not set; \<open>junk\<close> is what the
  stack held.\<close>

definition change_start :: "chanmodechange \<Rightarrow> chanmode \<Rightarrow> what \<Rightarrow> chanmodechange" where
  "change_start junk m what = junk\<lparr>g_mode := m, g_what := what, g_acptr := None, g_target := None, g_bounced := 0,
     g_nmask := None, g_umask := None, g_hmask := None, g_arg := []\<rparr>"

text \<open>The client a privilege is for: servers name it by user id or nick, users by nick or former nick.\<close>

definition prepare_client ::
  "(64 word \<Rightarrow> 64 word) \<Rightarrow> ircd \<Rightarrow> ptr \<Rightarrow> ptr \<Rightarrow> string \<Rightarrow> (ircd \<times> ptr option) option" where
  "prepare_client shl s lcptr cptr arg = do {
     l \<leftarrow> lclients s lcptr;
     if l_type l = LCLIENT_SERVER then do {
       a \<leftarrow> (if l_caps l AND CAP_UID_BIT \<noteq> 0 then client_find_uid shl s arg else client_find_nick shl s arg);
       Some (s, a) }
     else client_find_nickhw shl s cptr arg }"

text \<open>The result is the change, if there is one, and the index of the next argument.\<close>

definition chanmode_prepare ::
  "(64 word \<Rightarrow> 64 word) \<Rightarrow> chanmodechange \<Rightarrow> ircd \<Rightarrow> ptr \<Rightarrow> ptr \<Rightarrow> ptr \<Rightarrow> what \<Rightarrow> chanmode \<Rightarrow> string option \<Rightarrow> nat \<Rightarrow>
   (ircd \<times> chanmodechange option \<times> nat) option" where
  "chanmode_prepare shl junk s lcptr cptr chptr what m arg ai = (let c = change_start junk m what in
     if m_type m = CHANMODE_TYPE_LIMIT \<or> m_type m = CHANMODE_TYPE_KEY then
       (if what = CHANMODE_ADD then
         (case arg of None \<Rightarrow> Some (s, None, ai)
          | Some a \<Rightarrow> Some (s, Some (c\<lparr>g_arg := field PREFIX_SIZE a\<rparr>), ai + 1))
        else Some (s, Some c, ai))
     else if m_type m = CHANMODE_TYPE_LIST then
       (if what \<noteq> CHANMODE_QUERY then
         (case arg of None \<Rightarrow> Some (s, Some (c\<lparr>g_what := CHANMODE_QUERY\<rparr>), ai)
          | Some a \<Rightarrow> Some (s, Some (c\<lparr>g_arg := field PREFIX_SIZE a\<rparr>), ai + 1))
        else Some (s, Some c, ai))
     else if m_type m = CHANMODE_TYPE_PRIVILEGE then
       (if what \<noteq> CHANMODE_QUERY then
         (case arg of None \<Rightarrow> Some (s, None, ai)
          | Some a \<Rightarrow> do {
              let c = c\<lparr>g_arg := field PREFIX_SIZE a\<rparr>;
              (s, acptr) \<leftarrow> prepare_client shl s lcptr cptr (g_arg c);
              (case acptr of
                None \<Rightarrow> Some (send (Numeric cptr 401 [Str (g_arg c)]) s, None, ai)
              | Some p \<Rightarrow> do {
                  target \<leftarrow> chanuser_find s chptr p;
                  (case target of None \<Rightarrow> Some (s, None, ai)
                   | Some t \<Rightarrow> Some (s, Some (c\<lparr>g_acptr := Some p, g_target := Some t\<rparr>), ai + 1)) }) })
        else Some (s, Some c, ai))
     else Some (s, Some c, ai))"

section \<open>A line\<close>

text \<open>The argument at an index of \<open>argp\<close>: the vector and the buffer its pointers lead into.\<close>

definition arg_at :: "string \<Rightarrow> pvec \<Rightarrow> nat \<Rightarrow> string option option" where
  "arg_at b v ai = (case rd v ai of None \<Rightarrow> None | Some None \<Rightarrow> Some None | Some (Some p) \<Rightarrow> Some (Some (cstr (drop p b))))"

text \<open>\<open>argp\<close> has 17 entries; \<open>v\<close> is what the stack held.\<close>

definition split_args :: "pvec \<Rightarrow> string option \<Rightarrow> (string \<times> pvec) option" where
  "split_args v args = (case args of
     Some (a # as) \<Rightarrow> do {
       (b, v, _) \<leftarrow> str_tokenize ((a # as) @ [NUL]) v CHANMODE_PER_LINE;
       v \<leftarrow> wr v CHANMODE_PER_LINE None;
       Some (b, v) }
   | _ \<Rightarrow> do { v \<leftarrow> wr v 0 None; Some ([], v) })"

text \<open>A letter; the last component tells whether the line is full and the function returns.\<close>

definition parse_flag ::
  "(64 word \<Rightarrow> 64 word) \<Rightarrow> chanmodechange \<Rightarrow> (nat \<Rightarrow> string option option) \<Rightarrow> ircd \<Rightarrow> ptr \<Rightarrow> ptr \<Rightarrow> ptr \<Rightarrow>
   what \<Rightarrow> char \<Rightarrow> chanmodechange list \<Rightarrow> nat \<Rightarrow> (ircd \<times> chanmodechange list \<times> nat \<times> bool) option" where
  "parse_flag shl junk argp s lcptr cptr chptr what c list ai =
     (if \<not> chars_isalpha c then Some (send (Numeric cptr 472 [Chr c]) s, list, ai, False)
      else do {
        m \<leftarrow> rd (modes_table s) (chanmode_index c);
        if m_type m = 0 then Some (send (Numeric cptr 472 [Chr c]) s, list, ai, False)
        else do {
          arg \<leftarrow> argp ai;
          (s, change, ai) \<leftarrow> chanmode_prepare shl junk s lcptr cptr chptr what m arg ai;
          let list = (case change of None \<Rightarrow> list | Some x \<Rightarrow> list @ [x]);
          Some (s, list, ai, length list = IRCD_MODESPERLINE) } })"

text \<open>The walk over the flags. The counter \<open>ci\<close> of changes is never advanced, so that the test at the
  end of the loop is one of 0 against \<open>pc\<close>. The block of every change may hold other junk.\<close>

fun parse_loop ::
  "(64 word \<Rightarrow> 64 word) \<Rightarrow> (nat \<Rightarrow> chanmodechange) \<Rightarrow> (nat \<Rightarrow> string option option) \<Rightarrow> ptr \<Rightarrow> ptr \<Rightarrow> ptr \<Rightarrow> nat \<Rightarrow>
   ircd \<Rightarrow> what \<Rightarrow> string \<Rightarrow> chanmodechange list \<Rightarrow> nat \<Rightarrow> (ircd \<times> chanmodechange list) option" where
  "parse_loop shl junk argp lcptr cptr chptr pc s what [] list ai = Some (s, list)"
| "parse_loop shl junk argp lcptr cptr chptr pc s what (c # cs) list ai = do {
     (s, what, list, ai, done) \<leftarrow>
       (if c = CHR ''='' then Some (s, CHANMODE_QUERY, list, ai, False)
        else if c = CHR ''+'' then Some (s, CHANMODE_ADD, list, ai, False)
        else if c = CHR ''-'' then Some (s, CHANMODE_DEL, list, ai, False)
        else do {
          (s, list, ai, done) \<leftarrow> parse_flag shl (junk (length cs)) argp s lcptr cptr chptr what c list ai;
          Some (s, what, list, ai, done) });
     if done then Some (s, list)
     else let ci = 0 in if ci = CHANMODE_PER_LINE \<or> ci = pc then Some (s, list)
       else parse_loop shl junk argp lcptr cptr chptr pc s what cs list ai }"

definition chanmode_parse ::
  "(64 word \<Rightarrow> 64 word) \<Rightarrow> (nat \<Rightarrow> chanmodechange) \<Rightarrow> pvec \<Rightarrow> ircd \<Rightarrow> ptr \<Rightarrow> ptr \<Rightarrow> ptr \<Rightarrow> ptr option \<Rightarrow>
   string \<Rightarrow> string option \<Rightarrow> nat \<Rightarrow> (ircd \<times> chanmodechange list) option" where
  "chanmode_parse shl junk v s lcptr cptr chptr cuptr modes args pc = do {
     (cptr, chptr) \<leftarrow> (case cuptr of None \<Rightarrow> Some (cptr, chptr)
       | Some p \<Rightarrow> do { cu \<leftarrow> chanusers s p; Some (cu_client cu, cu_channel cu) });
     (b, v) \<leftarrow> split_args v args;
     parse_loop shl junk (arg_at b v) lcptr cptr chptr pc s CHANMODE_QUERY modes [] 0 }"

section \<open>The arguments\<close>

lemma words_of_skip: "words_of True is_ws is_eol is_blank k (dropWhile is_ws t) = words_of True is_ws is_eol is_blank k t"
  by (cases k) simp_all

definition plain_word :: "string \<Rightarrow> bool" where
  "plain_word w \<longleftrightarrow> (w \<noteq> [] \<longrightarrow> hd w \<noteq> CHR '':'') \<and> (\<forall>c \<in> set w. \<not> is_ws c)"

lemma last_word_plain:
  assumes "w \<noteq> []" "\<forall>c \<in> set w. \<not> is_ws c" "\<forall>c \<in> set b. c = CHR '' ''"
  shows "last_word is_eol is_blank (w @ b) = w"
proof -
  have "\<forall>c \<in> set w. \<not> is_eol c" using assms(2) unfolding is_ws_def is_eol_def by blast
  moreover have "\<not> is_eol c" if "c \<in> set b" for c using bspec[OF assms(3) that] by (simp add: is_eol_def)
  ultimately have "\<forall>c \<in> set (w @ b). \<not> is_eol c" by (simp add: ball_Un)
  then have "takeWhile (\<lambda>c. \<not> is_eol c) (w @ b) = w @ b" by (simp only: takeWhile_eq_all_conv)
  moreover have "dropWhile is_blank (rev b @ rev w) = rev w"
  proof -
    have "dropWhile is_blank (rev b @ rev w) = dropWhile is_blank (rev w)"
      using assms(3) by (intro dropWhile_append2) (simp add: is_blank_def)
    moreover have "\<not> is_blank (last w)" using assms(1,2) last_in_set[of w] unfolding is_ws_def is_blank_def by blast
    then have "dropWhile is_blank (rev w) = rev w" using assms(1) by (cases "rev w") (auto simp: hd_rev dropWhile_eq_self_iff)
    ultimately show ?thesis by simp
  qed
  ultimately show ?thesis by (simp only: last_word_def rev_append rev_rev_ident)
qed

abbreviation blanked :: "string list \<Rightarrow> string" where
  "blanked ws \<equiv> concat (map (\<lambda>w. CHR '' '' # w) ws)"

lemma blanked_blank: "\<forall>w \<in> set ws. w = [] \<Longrightarrow> \<forall>c \<in> set (blanked ws). c = CHR '' ''"
  by auto

lemma words_of_blanked:
  assumes "\<forall>w \<in> set ws. plain_word w" "length (filter (\<lambda>w. w \<noteq> []) ws) \<le> k"
  shows "words_of True is_ws is_eol is_blank k (blanked ws) = filter (\<lambda>w. w \<noteq> []) ws"
  using assms
proof (induction ws arbitrary: k)
  case Nil
  then show ?case by (cases k) simp_all
next
  case (Cons w ws)
  have blank: "is_ws (CHR '' '')" by (simp add: is_ws_def)
  show ?case
  proof (cases "w = []")
    case True
    have "words_of True is_ws is_eol is_blank k (blanked (w # ws)) =
        words_of True is_ws is_eol is_blank k (dropWhile is_ws (blanked ws))"
      using words_of_skip[of k "blanked (w # ws)"] True blank by simp
    then show ?thesis using Cons True by (simp add: words_of_skip)
  next
    case False
    then obtain j where k: "k = Suc j" using Cons.prems(2) by (cases k) auto
    have w: "hd w \<noteq> CHR '':''" "\<forall>c \<in> set w. \<not> is_ws c" using Cons.prems(1) False by (auto simp: plain_word_def)
    obtain c t where ct: "w = c # t" using False by (cases w) auto
    have d: "dropWhile is_ws (blanked (w # ws)) = c # t @ blanked ws" using blank w ct by simp
    show ?thesis
    proof (cases "j = 0")
      case True
      have "\<forall>w \<in> set ws. w = []" using Cons.prems(2) False k True by (auto simp: filter_empty_conv)
      then have "last_word is_eol is_blank (w @ blanked ws) = w" "filter (\<lambda>w. w \<noteq> []) ws = []"
        using last_word_plain[OF False w(2) blanked_blank] by (auto simp: filter_empty_conv)
      then show ?thesis using d w ct k True False by simp
    next
      case j: False
      have tw: "takeWhile (\<lambda>c. \<not> is_ws c) (c # t @ blanked ws) = w" "dropWhile (\<lambda>c. \<not> is_ws c) (c # t @ blanked ws) = blanked ws"
        using w(2) ct blank by (cases ws; auto simp: takeWhile_append dropWhile_append)+
      have "words_of True is_ws is_eol is_blank k (blanked (w # ws)) = w # words_of True is_ws is_eol is_blank j (blanked ws)"
        unfolding k words_of.simps d list.case tw using w(1) ct j by simp
      then show ?thesis using Cons False k by simp
    qed
  qed
qed

lemma args_text_blanked:
  "dropWhile is_ws (args_text s uid t xs) = dropWhile is_ws (t @ blanked (map (arg_of s uid) (filter takes_arg xs)))"
proof (induction xs arbitrary: t)
  case (Cons c cs)
  show ?case
  proof (cases "takes_arg c \<and> t = []")
    case True
    then show ?thesis by (simp add: Cons.IH) (simp add: is_ws_def)
  next
    case False
    then show ?thesis by (auto simp: Cons.IH)
  qed
qed simp

text \<open>The words of the argument text of a line, as \<open>argp\<close> has them.\<close>

definition args_ready :: "(nat \<Rightarrow> string option option) \<Rightarrow> string list \<Rightarrow> bool" where
  "args_ready argp ws \<longleftrightarrow> (\<forall>i < length ws. argp i = Some (Some (ws ! i))) \<and> argp (length ws) = Some None"

lemma split_args_ready:
  assumes "no_nul a" "a \<noteq> []" "length v = 17"
  shows "\<exists>b v'. split_args v (Some a) = Some (b, v') \<and> args_ready (arg_at b v') (irc_words 16 a)"
proof -
  have "0 < (16::nat)" "16 < length v" using assms(3) by simp_all
  from irc.all_correct[OF assms(1) this, of "[]" "[]"]
  obtain b v' where r: "str_tokenize (a @ [NUL]) v 16 = Some (b, v', length (irc_words 16 a))"
    "length v' = 17" "words_at b v' 0 (irc_words 16 a)" "v' ! length (irc_words 16 a) = None"
    using assms(3) by (auto simp: irc.outcome_def Let_def str_tokenize_all irc_words_def)
  let ?n = "length (irc_words 16 a)"
  have n: "?n \<le> 16" unfolding irc_words_def by (rule words_of_length)
  have e: "arg_at b (v'[16 := None]) j = Some (Some (irc_words 16 a ! j))" if "j < ?n" for j
    using r(2,3) n that by (auto simp: words_at_def arg_at_def)
  have "arg_at b (v'[16 := None]) ?n = Some None"
    using r(2,4) n by (cases "?n = 16") (auto simp: arg_at_def)
  moreover have "split_args v (Some a) = Some (b, v'[16 := None])"
    using r(1,2) assms(2) by (cases a) (simp_all add: split_args_def CHANMODE_PER_LINE_def wr_def)
  ultimately show ?thesis using e by (auto simp: args_ready_def)
qed

lemma split_no_args:
  "0 < length v \<Longrightarrow> args = None \<or> args = Some [] \<Longrightarrow> \<exists>b v'. split_args v args = Some (b, v') \<and> args_ready (arg_at b v') []"
  by (auto simp: split_args_def args_ready_def arg_at_def wr_def)


section \<open>Reading a line that another server assembled\<close>

text \<open>What the reading server needs of a change \<open>c\<close> whose argument was written as \<open>w\<close>: a mode of the
  same type under the letter, an argument where the type takes one, and for a privilege a member of
  the channel.\<close>

definition readable ::
  "(64 word \<Rightarrow> 64 word) \<Rightarrow> ircd \<Rightarrow> ptr \<Rightarrow> ptr \<Rightarrow> ptr \<Rightarrow> string \<Rightarrow> chanmodechange \<Rightarrow> bool" where
  "readable shl s lcptr cptr k w c \<longleftrightarrow> (let m = modes_table s ! chanmode_index (m_letter (g_mode c)); t = m_type (g_mode c) in
     chars_isalpha (m_letter (g_mode c)) \<and> chanmode_index (m_letter (g_mode c)) < length (modes_table s) \<and>
     m_type m = t \<and> g_what c \<noteq> CHANMODE_QUERY \<and> plain_word w \<and>
     (t = CHANMODE_TYPE_SINGLE \<or>
      (t = CHANMODE_TYPE_KEY \<or> t = CHANMODE_TYPE_LIMIT) \<and> (g_what c = CHANMODE_ADD \<longleftrightarrow> w \<noteq> []) \<or>
      t = CHANMODE_TYPE_LIST \<and> w \<noteq> [] \<or>
      t = CHANMODE_TYPE_PRIVILEGE \<and> w \<noteq> [] \<and> (\<exists>p q. prepare_client shl s lcptr cptr (field PREFIX_SIZE w) = Some (s, Some p) \<and>
        chanuser_find s k p = Some (Some q))))"

text \<open>The change that was read for it.\<close>

definition delivered ::
  "(64 word \<Rightarrow> 64 word) \<Rightarrow> ircd \<Rightarrow> ptr \<Rightarrow> ptr \<Rightarrow> ptr \<Rightarrow> (chanmodechange \<Rightarrow> string) \<Rightarrow> chanmodechange \<Rightarrow> chanmodechange \<Rightarrow> bool" where
  "delivered shl s lcptr cptr k arg y c \<longleftrightarrow>
     g_mode y = modes_table s ! chanmode_index (m_letter (g_mode c)) \<and> g_what y = g_what c \<and> g_bounced y = 0 \<and>
     g_arg y = (if takes_arg c then field PREFIX_SIZE (arg c) else []) \<and>
     (m_type (g_mode c) = CHANMODE_TYPE_PRIVILEGE \<longrightarrow> (\<exists>p q. g_acptr y = Some p \<and> g_target y = Some q \<and>
        prepare_client shl s lcptr cptr (g_arg y) = Some (s, Some p) \<and> chanuser_find s k p = Some (Some q)))"

lemmas chanmode_types = CHANMODE_TYPE_SINGLE_def CHANMODE_TYPE_LIMIT_def CHANMODE_TYPE_KEY_def
  CHANMODE_TYPE_LIST_def CHANMODE_TYPE_PRIVILEGE_def

lemma field_Nil [simp]: "field n [] = []"
  by (simp add: field_def)

lemma args_ready_at:
  "args_ready argp ws \<Longrightarrow> ai \<le> length ws \<Longrightarrow> argp ai = Some (case drop ai ws of [] \<Rightarrow> None | w # _ \<Rightarrow> Some w)"
  by (cases "ai = length ws") (auto simp: args_ready_def Cons_nth_drop_Suc[symmetric])

text \<open>One change. Its argument is consumed when it is not empty.\<close>

lemma prepare_readable:
  assumes r: "readable shl s lcptr cptr k (arg c) c"
    and a: "arg' = (if takes_arg c \<and> arg c \<noteq> [] then Some (arg c) else arg')"
  defines "m \<equiv> modes_table s ! chanmode_index (m_letter (g_mode c))"
  shows "\<exists>y. chanmode_prepare shl junk s lcptr cptr k (g_what c) m arg' ai =
      Some (s, Some y, ai + (if takes_arg c \<and> arg c \<noteq> [] then 1 else 0)) \<and> delivered shl s lcptr cptr k arg y c"
proof -
  let ?t = "m_type (g_mode c)"
  have m: "m_type m = ?t" "g_what c \<noteq> CHANMODE_QUERY" using r by (simp_all add: readable_def Let_def m_def)
  consider "?t = CHANMODE_TYPE_SINGLE"
    | "?t = CHANMODE_TYPE_KEY \<or> ?t = CHANMODE_TYPE_LIMIT" "g_what c = CHANMODE_ADD \<longleftrightarrow> arg c \<noteq> []"
    | "?t = CHANMODE_TYPE_LIST" "arg c \<noteq> []"
    | "?t = CHANMODE_TYPE_PRIVILEGE" "arg c \<noteq> []" "\<exists>p q. prepare_client shl s lcptr cptr (field PREFIX_SIZE (arg c)) = Some (s, Some p) \<and>
        chanuser_find s k p = Some (Some q)"
    using r by (auto simp: readable_def Let_def)
  then show ?thesis
  proof cases
    case 1
    then show ?thesis using m by (auto simp: chanmode_prepare_def delivered_def change_start_def takes_arg_def m_def chanmode_types Let_def)
  next
    case 2
    then show ?thesis using m a
      by (cases "g_what c = CHANMODE_ADD")
        (auto simp: chanmode_prepare_def delivered_def change_start_def takes_arg_def m_def chanmode_types Let_def)
  next
    case 3
    then show ?thesis using m a
      by (auto simp: chanmode_prepare_def delivered_def change_start_def takes_arg_def m_def chanmode_types Let_def)
  next
    case 4
    then obtain p q where pq: "prepare_client shl s lcptr cptr (field PREFIX_SIZE (arg c)) = Some (s, Some p)"
      "chanuser_find s k p = Some (Some q)" by blast
    have "arg' = Some (arg c)" using 4 a by (simp add: takes_arg_def chanmode_types)
    then show ?thesis using m 4 pq
      by (auto simp: chanmode_prepare_def delivered_def change_start_def takes_arg_def m_def chanmode_types Let_def)
  qed
qed

lemma parse_flag_readable:
  assumes r: "readable shl s lcptr cptr k (arg c) c"
    and a: "args_ready argp ws" "ai \<le> length ws" "drop ai ws = (if takes_arg c \<and> arg c \<noteq> [] then [arg c] else []) @ rest"
  shows "\<exists>y. parse_flag shl junk argp s lcptr cptr k (g_what c) (m_letter (g_mode c)) list ai =
      Some (s, list @ [y], ai + (if takes_arg c \<and> arg c \<noteq> [] then 1 else 0), length list + 1 = IRCD_MODESPERLINE) \<and>
    delivered shl s lcptr cptr k arg y c"
proof -
  let ?l = "m_letter (g_mode c)"
  define m where "m = modes_table s ! chanmode_index ?l"
  have m: "rd (modes_table s) (chanmode_index ?l) = Some m" "m_type m \<noteq> 0" "chars_isalpha ?l"
    using r by (auto simp: readable_def Let_def m_def chanmode_types)
  define arg' where "arg' = (case drop ai ws of [] \<Rightarrow> None | w # _ \<Rightarrow> Some w)"
  have arg': "argp ai = Some arg'" "arg' = (if takes_arg c \<and> arg c \<noteq> [] then Some (arg c) else arg')"
    using args_ready_at[OF a(1,2)] a(3) by (auto simp: arg'_def)
  show ?thesis
    using prepare_readable[where arg = arg and c = c and arg' = arg', OF r arg'(2), of junk ai] m arg'(1) unfolding m_def[symmetric]
    by (fastforce simp: parse_flag_def)
qed

text \<open>The line.\<close>

lemma parse_loop_readable:
  assumes "\<forall>c \<in> set xs. readable shl s lcptr cptr k (arg c) c" "args_ready argp ws" "ai \<le> length ws"
    "drop ai ws = filter (\<lambda>w. w \<noteq> []) (map arg (filter takes_arg xs))" "w = None \<or> w = Some what"
    "length list < IRCD_MODESPERLINE" "0 < pc"
  shows "\<exists>ys. parse_loop shl junk argp lcptr cptr k pc s what (flag_text w xs) list ai = Some (s, list @ ys) \<and>
    list_all2 (delivered shl s lcptr cptr k arg) ys (take (IRCD_MODESPERLINE - length list) xs)"
  using assms
proof (induction xs arbitrary: list ai what w)
  case (Cons c cs)
  let ?l = "m_letter (g_mode c)"
  have r: "readable shl s lcptr cptr k (arg c) c" using Cons.prems(1) by simp
  have sign: "?l \<noteq> CHR ''=''" "?l \<noteq> CHR ''+''" "?l \<noteq> CHR ''-''" "g_what c \<noteq> CHANMODE_QUERY"
    using r by (auto simp: readable_def Let_def class_tests alpha_byte_def)
  have d: "drop ai ws = (if takes_arg c \<and> arg c \<noteq> [] then [arg c] else []) @
      filter (\<lambda>w. w \<noteq> []) (map arg (filter takes_arg cs))" using Cons.prems(4) by simp
  let ?ai = "ai + (if takes_arg c \<and> arg c \<noteq> [] then 1 else 0)"
  obtain y where y: "parse_flag shl (junk (length (flag_text (Some (g_what c)) cs))) argp s lcptr cptr k (g_what c) ?l list ai =
      Some (s, list @ [y], ?ai, length list + 1 = IRCD_MODESPERLINE)" "delivered shl s lcptr cptr k arg y c"
    using parse_flag_readable[where arg = arg and c = c, OF r Cons.prems(2,3) d] by blast
  have ci: "0 \<noteq> pc" "0 \<noteq> CHANMODE_PER_LINE" using Cons.prems(7) by (simp_all add: CHANMODE_PER_LINE_def)
  define flags' where "flags' = flag_text (Some (g_what c)) cs"
  have step: "parse_loop shl junk argp lcptr cptr k pc s (g_what c) (?l # flags') list ai =
      (if length list + 1 = IRCD_MODESPERLINE then Some (s, list @ [y])
       else parse_loop shl junk argp lcptr cptr k pc s (g_what c) flags' (list @ [y]) ?ai)"
    using sign y(1) ci by (simp add: flags'_def)
  have "parse_loop shl junk argp lcptr cptr k pc s what (flag_text w (c # cs)) list ai =
      parse_loop shl junk argp lcptr cptr k pc s (g_what c) (?l # flags') list ai"
    using Cons.prems(5) ci sign(4)
    by (cases "g_what c"; cases "w = Some (g_what c)") (auto simp: what_char_def flags'_def)
  note run = this[unfolded step]
  show ?case
  proof (cases "length list + 1 = IRCD_MODESPERLINE")
    case True
    then show ?thesis using run y(2) by (simp add: take_Suc_conv_app_nth IRCD_MODESPERLINE_def)
  next
    case False
    have le: "?ai \<le> length ws"
    proof (cases "takes_arg c \<and> arg c \<noteq> []")
      case True
      then have "drop ai ws \<noteq> []" using d by simp
      then show ?thesis by simp
    qed (use Cons.prems(3) in auto)
    have dr: "drop ?ai ws = filter (\<lambda>w. w \<noteq> []) (map arg (filter takes_arg cs))"
      using arg_cong[OF d, of "drop (?ai - ai)"] by (auto simp: drop_drop add.commute)
    obtain ys where ys: "parse_loop shl junk argp lcptr cptr k pc s (g_what c) flags' (list @ [y]) ?ai = Some (s, (list @ [y]) @ ys)"
      "list_all2 (delivered shl s lcptr cptr k arg) ys (take (IRCD_MODESPERLINE - length (list @ [y])) cs)"
      using Cons.IH[of ?ai "Some (g_what c)" "g_what c" "list @ [y]"] Cons.prems False le dr
      unfolding flags'_def by fastforce
    have "take (IRCD_MODESPERLINE - length list) (c # cs) = c # take (IRCD_MODESPERLINE - length (list @ [y])) cs"
      using Suc_diff_Suc[OF Cons.prems(6)] by (metis length_append_singleton take_Suc_Cons)
    then show ?thesis using run False ys y(2) by auto
  qed
qed simp


text \<open>C17. A line of changes as \<open>chanmode_assemble\<close> writes it for another server is read there as
  the changes it was made of, in order, with the same signs and letters, the arguments cut to the
  size of the field, and the members the names stand for, without any error, but only the first
  four of them: a line holds up to 16, and the others are lost.\<close>

theorem mode_line_roundtrip:
  assumes "\<forall>c \<in> set xs. readable shl s lcptr cptr k (arg_of s0 uid c) c" "length xs \<le> CHANMODE_PER_LINE"
    "no_nul (args_text s0 uid [] xs)" "length v = 17" "0 < pc"
  shows "\<exists>ys. chanmode_parse shl junk v s lcptr cptr k None (flag_text None xs)
      (if args_text s0 uid [] xs = [] then None else Some (args_text s0 uid [] xs)) pc = Some (s, ys) \<and>
    list_all2 (delivered shl s lcptr cptr k (arg_of s0 uid)) ys (take 4 xs)"
proof -
  let ?t = "args_text s0 uid [] xs" and ?args = "if args_text s0 uid [] xs = [] then None else Some (args_text s0 uid [] xs)"
  let ?as = "map (arg_of s0 uid) (filter takes_arg xs)"
  have plain: "\<forall>w \<in> set ?as. plain_word w" using assms(1) by (auto simp: readable_def Let_def)
  have len: "length (filter (\<lambda>w. w \<noteq> []) ?as) \<le> 16"
    using assms(2) length_filter_le[of "\<lambda>w. w \<noteq> []" ?as] length_filter_le[of takes_arg xs]
    by (simp add: CHANMODE_PER_LINE_def del: length_filter_le)
  have "irc_words 16 ?t = words_of True is_ws is_eol is_blank 16 (dropWhile is_ws ?t)"
    by (simp add: irc_words_def words_of_skip)
  also have "\<dots> = words_of True is_ws is_eol is_blank 16 (blanked ?as)"
    by (simp add: args_text_blanked words_of_skip)
  finally have ws: "irc_words 16 ?t = filter (\<lambda>w. w \<noteq> []) ?as" using words_of_blanked[OF plain len] by simp
  have "\<exists>b v'. split_args v ?args = Some (b, v') \<and> args_ready (arg_at b v') (filter (\<lambda>w. w \<noteq> []) ?as)"
  proof (cases "?t = []")
    case True
    then have "filter (\<lambda>w. w \<noteq> []) ?as = []" using ws by (simp add: irc_words_def numeral_eq_Suc)
    then show ?thesis using True split_no_args[of v None] assms(4) by simp
  next
    case False
    then show ?thesis using split_args_ready[OF assms(3) False assms(4)] ws by simp
  qed
  then obtain b v' where b: "split_args v ?args = Some (b, v')" "args_ready (arg_at b v') (filter (\<lambda>w. w \<noteq> []) ?as)"
    by blast
  have "0 < IRCD_MODESPERLINE" by (simp add: IRCD_MODESPERLINE_def)
  then show ?thesis
    using parse_loop_readable[OF assms(1) b(2), of 0 None CHANMODE_QUERY "[]" pc junk] b(1) assms(5)
    by (simp add: chanmode_parse_def IRCD_MODESPERLINE_def)
qed


lemma delivered_args:
  "list_all2 (delivered shl s lcptr cptr k arg) ys xs \<Longrightarrow>
    map g_arg ys = map (\<lambda>c. if takes_arg c then field PREFIX_SIZE (arg c) else []) xs"
  by (induction rule: list_all2_induct) (auto simp: delivered_def)

text \<open>Five bans in a line.\<close>

definition five_bans :: "chanmodechange list" where
  "five_bans = map (ban_change CHANMODE_ADD) [''a!*@*'', ''b!*@*'', ''c!*@*'', ''d!*@*'', ''e!*@*'']"

theorem mode_line_roundtrip_witness:
  "\<exists>ys. chanmode_parse (\<lambda>_. 0) (\<lambda>_. change_zero ban_mode CHANMODE_QUERY) (replicate 17 None) op_room 1 10 1 None ''+bbbbb''
      (Some ''a!*@* b!*@* c!*@* d!*@* e!*@*'') 16 = Some (op_room, ys) \<and>
    map g_arg ys = [''a!*@*'', ''b!*@*'', ''c!*@*'', ''d!*@*'']"
proof -
  have f: "flag_text None five_bans = ''+bbbbb''"
    by (simp add: five_bans_def ban_change_def change_zero_def ban_mode_def what_char_def)
  have t: "args_text op_room False [] five_bans = ''a!*@* b!*@* c!*@* d!*@* e!*@*''"
    by (simp add: five_bans_def ban_change_def change_zero_def ban_mode_def takes_arg_def arg_of_def change_arg_def chanmode_types)
  have l: "chars_isalpha (CHR ''b'')" "chanmode_index (CHR ''b'') = 34" by (simp add: class_tests alpha_byte_def, code_simp)
  have len: "length ban_table = 64" using ban_table_ok(1) by (simp add: privileges_ok_def table_ok_def)
  have "readable (\<lambda>_. 0) op_room 1 10 1 (arg_of op_room False c) c" if "c \<in> set five_bans" for c
    using that l len ban_table_ok(2)
    by (auto simp: readable_def five_bans_def ban_change_def change_zero_def ban_mode_def arg_of_def change_arg_def
      plain_word_def is_ws_def chanmode_types op_room_def Let_def)
  then have r: "\<forall>c \<in> set five_bans. readable (\<lambda>_. 0) op_room 1 10 1 (arg_of op_room False c) c" by blast
  obtain ys where ys: "chanmode_parse (\<lambda>_. 0) (\<lambda>_. change_zero ban_mode CHANMODE_QUERY) (replicate 17 None) op_room 1 10 1 None ''+bbbbb''
      (Some ''a!*@* b!*@* c!*@* d!*@* e!*@*'') 16 = Some (op_room, ys)"
    "list_all2 (delivered (\<lambda>_. 0) op_room 1 10 1 (arg_of op_room False)) ys (take 4 five_bans)"
    using mode_line_roundtrip[OF r, of "replicate 17 None" 16 "\<lambda>_. change_zero ban_mode CHANMODE_QUERY"]
    unfolding t f by (auto simp: five_bans_def CHANMODE_PER_LINE_def no_nul_def)
  have short: "field PREFIX_SIZE ''a!*@*'' = ''a!*@*''" "field PREFIX_SIZE ''b!*@*'' = ''b!*@*''"
    "field PREFIX_SIZE ''c!*@*'' = ''c!*@*''" "field PREFIX_SIZE ''d!*@*'' = ''d!*@*''"
    by (rule field_id; simp add: no_nul_def PREFIX_SIZE_def ircd_sizes)+
  have "map g_arg ys = map (\<lambda>c. if takes_arg c then field PREFIX_SIZE (arg_of op_room False c) else []) (take 4 five_bans)"
    by (rule delivered_args[OF ys(2)])
  also have "\<dots> = map (\<lambda>c. field PREFIX_SIZE (arg_of op_room False c)) (take 4 five_bans)"
    by (simp add: five_bans_def takes_arg_def ban_change_def change_zero_def ban_mode_def chanmode_types)
  also have "\<dots> = [''a!*@*'', ''b!*@*'', ''c!*@*'', ''d!*@*'']"
    by (simp add: five_bans_def arg_of_def change_arg_def ban_change_def change_zero_def short)
  finally show ?thesis by (intro exI[of _ ys] conjI ys(1))
qed


section \<open>Parsing never fails\<close>

text \<open>Only messages were sent.\<close>

definition talked :: "ircd \<Rightarrow> ircd \<Rightarrow> bool" where
  "talked s s' \<longleftrightarrow> (\<exists>ms. s' = s\<lparr>sent := sent s @ ms\<rparr>)"

lemma talked_refl [simp, intro]: "talked s s"
  unfolding talked_def by (rule exI[of _ "[]"]) simp

lemma talked_send [simp, intro]: "talked s t \<Longrightarrow> talked s (send x t)"
  by (auto simp: talked_def send_def)

lemma talked_trans: "talked s t \<Longrightarrow> talked t u \<Longrightarrow> talked s u"
  by (auto simp: talked_def)

lemma talked_same:
  assumes "talked s s'"
  shows "clients s' = clients s" "users s' = users s" "chanusers s' = chanusers s" "channels s' = channels s"
    "lclients s' = lclients s" "modes_table s' = modes_table s" "histories s' = histories s" "client_me s' = client_me s"
    "invites s' = invites s" "client_listsn s' = client_listsn s" "client_history s' = client_history s" "user_lists s' = user_lists s"
    "server_me s' = server_me s" "timer_systime s' = timer_systime s"
  using assms by (auto simp: talked_def)

text \<open>The tables of names lead to clients that are there.\<close>

definition uids_ok :: "ircd \<Rightarrow> bool" where
  "uids_ok s \<longleftrightarrow> length (user_lists s) = USER_HASH_SIZE \<and> (\<forall>b \<in> set (user_lists s). \<forall>p \<in> set b.
     \<exists>u. users s p = Some u \<and> (\<forall>c. u_client u = Some c \<longrightarrow> clients s c \<noteq> None))"

definition finds_ok :: "(64 word \<Rightarrow> 64 word) \<Rightarrow> ircd \<Rightarrow> bool" where
  "finds_ok shl s \<longleftrightarrow> names_wf shl s \<and> uids_ok s \<and>
     (\<forall>q \<in> set (history_entries s). \<forall>h. histories s q = Some h \<longrightarrow> clients s (h_client h) \<noteq> None)"

definition live :: "ircd \<Rightarrow> ptr option \<Rightarrow> bool" where
  "live s r \<longleftrightarrow> (\<forall>p. r = Some p \<longrightarrow> clients s p \<noteq> None)"

lemma find_nick_live: "names_wf shl s \<Longrightarrow> \<exists>r. client_find_nick shl s n = Some r \<and> live s r"
  using nicks.lookup_total[of shl s n] nicks.lookup_Some[of shl s n] nicks_wfD(4)[of shl s]
  unfolding names_wf_def live_def nick_ok_def by (metis option.discI option.exhaust)

lemma find_uid_live:
  assumes "uids_ok s"
  shows "\<exists>r. client_find_uid shl s n = Some r \<and> live s r"
proof -
  define h where "h = str_hash shl (Some (field 9 n))"
  define b where "b = user_lists s ! hash_index h USER_HASH_SIZE"
  have "hash_index h USER_HASH_SIZE < length (user_lists s)"
    using assms by (simp add: uids_ok_def USER_HASH_SIZE_def)
  then have b: "\<exists>u. users s p = Some u \<and> (\<forall>c. u_client u = Some c \<longrightarrow> clients s c \<noteq> None)" if "p \<in> set b" for p
    using assms that by (auto simp: uids_ok_def b_def)
  let ?t = "\<lambda>p. do { u \<leftarrow> users s p; Some (u_uhash u = h \<and> str_cmp (u_uid u) (field 9 n) = 0) }"
  have f: "search ?t b = Some (List.find (\<lambda>p. ?t p = Some True) b)"
    by (rule search_find) (use b in force)
  have e: "user_find_uid shl s n = search ?t b" by (simp add: user_find_uid_def h_def b_def Let_def)
  show ?thesis
  proof (cases "List.find (\<lambda>p. ?t p = Some True) b")
    case None
    then show ?thesis using e f by (simp add: client_find_uid_def live_def)
  next
    case (Some p)
    then have "p \<in> set b" by (auto dest: find_SomeD)
    then show ?thesis using b e f Some by (fastforce simp: client_find_uid_def live_def)
  qed
qed

lemma find_nickhw_live:
  assumes "finds_ok shl s" "clients s cptr \<noteq> None"
  shows "\<exists>s' r. client_find_nickhw shl s cptr n = Some (s', r) \<and> live s r \<and> talked s s'"
proof -
  have w: "names_wf shl s" "history_wf shl s" using assms(1) by (simp_all add: finds_ok_def names_wf_def)
  obtain r where r: "client_find_nick shl s n = Some r" "live s r" using find_nick_live[OF w(1)] by blast
  obtain q where q: "client_history_find shl s n = Some q" using former.lookup_total[OF w(2)] by blast
  have h: "\<exists>h. histories s p = Some h \<and> clients s (h_client h) \<noteq> None" if "q = Some p" for p
  proof -
    have p: "p \<in> set (history_entries s)" using former.lookup_Some[OF w(2)] q that by blast
    then obtain h where "histories s p = Some h" using history_wfD(4)[OF w(2)] by (auto simp: history_ok_def)
    then show ?thesis using assms(1) p unfolding finds_ok_def by blast
  qed
  show ?thesis
  proof (cases r)
    case (Some p)
    then show ?thesis using r by (simp add: client_find_nickhw_def)
  next
    case r': None
    show ?thesis
    proof (cases q)
      case None
      then show ?thesis using r r' q assms(2) by (auto simp: client_find_nickhw_def no_such_nick_def live_def)
    next
      case (Some p)
      then obtain h where "histories s p = Some h" "clients s (h_client h) \<noteq> None" using h by blast
      then show ?thesis using r r' q Some by (simp add: client_find_nickhw_def live_def)
    qed
  qed
qed

lemma prepare_client_live:
  assumes "finds_ok shl s" "clients s cptr \<noteq> None" "lclients s lcptr \<noteq> None"
  shows "\<exists>s' r. prepare_client shl s lcptr cptr n = Some (s', r) \<and> live s r \<and> talked s s'"
proof -
  obtain l where l: "lclients s lcptr = Some l" using assms(3) by blast
  show ?thesis
  proof (cases "l_type l = LCLIENT_SERVER")
    case True
    then show ?thesis
      using find_uid_live[of s shl n] find_nick_live[of shl s n] assms(1) l
      by (cases "l_caps l AND CAP_UID_BIT = 0") (auto simp: prepare_client_def finds_ok_def)
  next
    case False
    then show ?thesis using find_nickhw_live[OF assms(1,2)] l by (simp add: prepare_client_def)
  qed
qed

lemma chanuser_find_total:
  assumes "members_wf s" "clients s c \<noteq> None"
  shows "\<exists>r. chanuser_find s k c = Some r \<and> (\<forall>p. r = Some p \<longrightarrow> (\<exists>cu cl. chanusers s p = Some cu \<and> cu_channel cu = k \<and>
    cu_client cu = c \<and> clients s c = Some cl \<and> (client_is_user cl \<or> client_is_service cl)))"
proof -
  obtain cl where cl: "clients s c = Some cl" using assms(2) by blast
  show ?thesis
  proof (cases "client_is_user cl \<or> client_is_service cl")
    case True
    obtain r where "chanuser_find s k c = Some r"
      "\<And>p. r = Some p \<Longrightarrow> \<exists>cu. member_block s p cu \<and> cu_channel cu = k \<and> cu_client cu = c"
      using chanuser_find_correct[OF assms(1) cl True] by metis
    then show ?thesis using cl True by (auto simp: member_block_def)
  next
    case False
    then show ?thesis using cl by (simp add: chanuser_find_def)
  qed
qed

lemma talked_wf:
  assumes "talked s s'"
  shows "finds_ok shl s' = finds_ok shl s" "members_wf s' = members_wf s" "chanuser_find s' k c = chanuser_find s k c"
proof -
  note same = talked_same[OF assms]
  have "names_wf shl s' = names_wf shl s" by (rule names_cong) (simp_all add: same)
  then show "finds_ok shl s' = finds_ok shl s" by (simp add: finds_ok_def uids_ok_def same)
  have "is_local s' = is_local s" by (simp add: is_local_def same fun_eq_iff)
  then show "members_wf s' = members_wf s"
    by (simp add: members_wf_def channel_lists_ok_def user_lists_ok_def clients_ok_def members_unique_def
      member_block_def block_ok_def owned_def user_of_def same)
  show "chanuser_find s' k c = chanuser_find s k c" unfolding chanuser_find_def same ..
qed

text \<open>A parsed change.\<close>

definition parsed :: "ircd \<Rightarrow> ptr \<Rightarrow> chanmodechange \<Rightarrow> bool" where
  "parsed s k y \<longleftrightarrow> (let m = g_mode y; i = chanmode_index (m_letter m) in
     i < 64 \<and> modes_table s ! i = m \<and> m_type m \<noteq> 0 \<and> chars_isalpha (m_letter m) \<and> g_bounced y = 0 \<and>
     no_nul (g_arg y) \<and> length (g_arg y) < PREFIX_SIZE \<and>
     (m_type m = CHANMODE_TYPE_LIST \<longrightarrow> g_what y \<noteq> CHANMODE_QUERY \<longrightarrow> g_arg y \<noteq> []) \<and>
     (if m_type m = CHANMODE_TYPE_PRIVILEGE \<and> g_what y \<noteq> CHANMODE_QUERY
      then \<exists>p t cu cl. g_acptr y = Some p \<and> g_target y = Some t \<and> chanusers s t = Some cu \<and> cu_client cu = p \<and>
        cu_channel cu = k \<and> clients s p = Some cl \<and> (client_is_user cl \<or> client_is_service cl)
      else g_acptr y = None \<and> g_target y = None))"

text \<open>What parsing needs: lookups that work, a table of modes, and a source and a link that are there.\<close>

definition parse_ready :: "(64 word \<Rightarrow> 64 word) \<Rightarrow> ircd \<Rightarrow> ptr \<Rightarrow> ptr \<Rightarrow> bool" where
  "parse_ready shl s lcptr cptr \<longleftrightarrow> finds_ok shl s \<and> members_wf s \<and> clients s cptr \<noteq> None \<and> lclients s lcptr \<noteq> None \<and>
     table_ok (modes_table s)"

lemma talked_ready: "talked s s' \<Longrightarrow> parse_ready shl s' lcptr cptr = parse_ready shl s lcptr cptr"
  by (simp add: parse_ready_def talked_wf talked_same)

lemma talked_parsed: "talked s s' \<Longrightarrow> parsed s' k y = parsed s k y"
  by (simp add: parsed_def talked_same)

lemma prepare_parsed:
  assumes ok: "parse_ready shl s lcptr cptr" and i: "i < 64" "m = modes_table s ! i" "m_type m \<noteq> 0"
    and arg: "\<forall>a. arg = Some a \<longrightarrow> no_nul a \<and> a \<noteq> []"
  shows "\<exists>s' r ai'. chanmode_prepare shl junk s lcptr cptr k what m arg ai = Some (s', r, ai') \<and> talked s s' \<and>
    (\<forall>y. r = Some y \<longrightarrow> parsed s k y \<and> g_mode y = m) \<and> ai' \<in> {ai, ai + (if arg = None then 0 else 1)}"
proof -
  have m: "chanmode_index (m_letter m) = i" "chars_isalpha (m_letter m)"
  proof -
    have "chars_isalpha (m_letter m)" "m_letter m = char_of (64 + i)"
      using ok i unfolding parse_ready_def table_ok_def by blast+
    then show "chanmode_index (m_letter m) = i" "chars_isalpha (m_letter m)"
      using alpha_index(1)[of "m_letter m"] i(1) by simp_all
  qed
  have f: "field PREFIX_SIZE a \<noteq> [] \<and> length (field PREFIX_SIZE a) < PREFIX_SIZE" if "no_nul a" "a \<noteq> []" for a
    using that by (cases a) (auto simp: field_def PREFIX_SIZE_def ircd_sizes no_nul_def)
  have none: "0 < PREFIX_SIZE" by (simp add: PREFIX_SIZE_def)
  note mi = m i(1) i(2)[symmetric] i(3)
  show ?thesis
  proof (cases "m_type m = CHANMODE_TYPE_PRIVILEGE \<and> what \<noteq> CHANMODE_QUERY \<and> arg \<noteq> None")
    case False
    have plain: "parsed s k (change_start junk m w)" if "w = CHANMODE_QUERY \<or> m_type m \<noteq> CHANMODE_TYPE_PRIVILEGE \<and> m_type m \<noteq> CHANMODE_TYPE_LIST" for w
      using that mi none by (auto simp: parsed_def change_start_def Let_def)
    have taken: "parsed s k ((change_start junk m what)\<lparr>g_arg := field PREFIX_SIZE a\<rparr>)"
      if "arg = Some a" "m_type m \<noteq> CHANMODE_TYPE_PRIVILEGE \<or> what = CHANMODE_QUERY" for a
      using that mi f[of a] arg by (auto simp: parsed_def change_start_def Let_def)
    have query: "(change_start junk m what)\<lparr>g_what := CHANMODE_QUERY\<rparr> = change_start junk m CHANMODE_QUERY"
      by (simp add: change_start_def)
    have gm: "g_mode (change_start junk m w) = m" for w by (simp add: change_start_def)
    show ?thesis
      using False plain[of what] plain[of CHANMODE_QUERY] taken
      by (cases arg) (auto simp: chanmode_prepare_def Let_def query gm chanmode_types)
  next
    case True
    then obtain a where a: "arg = Some a" by blast
    let ?c = "(change_start junk m what)\<lparr>g_arg := field PREFIX_SIZE a\<rparr>"
    have "clients s cptr \<noteq> None" "lclients s lcptr \<noteq> None" "finds_ok shl s" "members_wf s"
      using ok by (simp_all add: parse_ready_def)
    then obtain t r where t: "prepare_client shl s lcptr cptr (field PREFIX_SIZE a) = Some (t, r)" "live s r" "talked s t"
      using prepare_client_live by blast
    have step: "chanmode_prepare shl junk s lcptr cptr k what m arg ai = (case r of
        None \<Rightarrow> Some (send (Numeric cptr 401 [Str (field PREFIX_SIZE a)]) t, None, ai)
      | Some p \<Rightarrow> do { target \<leftarrow> chanuser_find t k p;
          (case target of None \<Rightarrow> Some (t, None, ai)
           | Some q \<Rightarrow> Some (t, Some (?c\<lparr>g_acptr := Some p, g_target := Some q\<rparr>), Suc ai)) })"
      using True a t(1) by (simp add: chanmode_prepare_def Let_def chanmode_types split: option.split)
    show ?thesis
    proof (cases r)
      case None
      then show ?thesis using step t(3) by simp
    next
      case (Some p)
      then have "clients s p \<noteq> None" using t(2) by (simp add: live_def)
      then obtain q where q: "chanuser_find t k p = Some q"
        "\<And>x. q = Some x \<Longrightarrow> \<exists>cu cl. chanusers s x = Some cu \<and> cu_channel cu = k \<and>
          cu_client cu = p \<and> clients s p = Some cl \<and> (client_is_user cl \<or> client_is_service cl)"
        using chanuser_find_total[OF \<open>members_wf s\<close>] talked_wf(3)[OF t(3)] by metis
      have "parsed s k (?c\<lparr>g_acptr := Some p, g_target := Some x\<rparr>)" if "q = Some x" for x
        using q(2)[OF that] mi f[of a] arg a True by (auto simp: parsed_def change_start_def Let_def)
      then show ?thesis using step Some q(1) t(3) a
        by (cases q) (auto simp: change_start_def)
    qed
  qed
qed

text \<open>A letter, and the line.\<close>

lemma parse_flag_parsed:
  assumes ok: "parse_ready shl s lcptr cptr" and c: "ord c < 128"
    and a: "args_ready argp ws" "ai \<le> length ws" "\<forall>w \<in> set ws. no_nul w \<and> w \<noteq> []"
  shows "\<exists>s' ys ai' d. parse_flag shl junk argp s lcptr cptr k what c list ai = Some (s', list @ ys, ai', d) \<and> talked s s' \<and>
    (\<forall>y \<in> set ys. parsed s k y \<and> m_letter (g_mode y) = c) \<and> ai' \<le> length ws \<and> length ys \<le> 1 \<and>
    (length (list @ ys) = IRCD_MODESPERLINE \<longrightarrow> ys \<noteq> [] \<longrightarrow> d)"
proof (cases "chars_isalpha c")
  case False
  then show ?thesis using a(2) by (auto simp: parse_flag_def)
next
  case True
  note i = alpha_index(1)[OF True c]
  let ?i = "chanmode_index c"
  have tab: "table_ok (modes_table s)" using ok by (simp add: parse_ready_def)
  have lt: "?i < 64" "?i < length (modes_table s)" using i c tab by (auto simp: table_ok_def)
  show ?thesis
  proof (cases "m_type (modes_table s ! ?i) = 0")
    case True
    then show ?thesis using lt a(2) \<open>chars_isalpha c\<close> by (auto simp: parse_flag_def)
  next
    case False
    define arg where "arg = (case drop ai ws of [] \<Rightarrow> None | w # _ \<Rightarrow> Some w)"
    have arg: "argp ai = Some arg" "\<forall>a. arg = Some a \<longrightarrow> no_nul a \<and> a \<noteq> []" "arg \<noteq> None \<Longrightarrow> ai + 1 \<le> length ws"
      using args_ready_at[OF a(1,2)] a(2,3) set_drop_subset[of ai ws]
      by (auto simp: arg_def split: list.splits) (metis Suc_leI drop_all leI list.discI)+
    obtain s' r ai' where p: "chanmode_prepare shl junk s lcptr cptr k what (modes_table s ! ?i) arg ai = Some (s', r, ai')" "talked s s'"
      "\<forall>y. r = Some y \<longrightarrow> parsed s k y \<and> g_mode y = modes_table s ! ?i" "ai' \<in> {ai, ai + (if arg = None then 0 else 1)}"
      using prepare_parsed[OF ok lt(1) refl False arg(2)] by blast
    have l: "m_letter (modes_table s ! ?i) = c"
      using tab False lt(1) i by (auto simp: table_ok_def)
    have le: "ai' \<le> length ws" using p(4) a(2) arg(3) by (auto split: if_splits)
    have "parse_flag shl junk argp s lcptr cptr k what c list ai =
        Some (s', list @ (case r of None \<Rightarrow> [] | Some y \<Rightarrow> [y]), ai', length (list @ (case r of None \<Rightarrow> [] | Some y \<Rightarrow> [y])) = IRCD_MODESPERLINE)"
      using True False lt(2) arg(1) p(1) by (simp add: parse_flag_def Let_def split: option.split)
    then show ?thesis using p(2,3) l le by (auto split: option.split)
  qed
qed

lemma parse_loop_parsed:
  assumes "parse_ready shl s lcptr cptr" "\<forall>c \<in> set cs. ord c < 128" "args_ready argp ws" "ai \<le> length ws"
    "\<forall>w \<in> set ws. no_nul w \<and> w \<noteq> []" "length list < IRCD_MODESPERLINE"
  shows "\<exists>s' ys. parse_loop shl junk argp lcptr cptr k pc s what cs list ai = Some (s', list @ ys) \<and> talked s s' \<and>
    (\<forall>y \<in> set ys. parsed s k y \<and> m_letter (g_mode y) \<in> set cs) \<and> length (list @ ys) \<le> IRCD_MODESPERLINE"
  using assms
proof (induction cs arbitrary: s what list ai)
  case (Cons c cs)
  have IH: "\<exists>s' ys. parse_loop shl junk argp lcptr cptr k pc t w cs xs aj = Some (s', xs @ ys) \<and> talked t s' \<and>
    (\<forall>y \<in> set ys. parsed t k y \<and> m_letter (g_mode y) \<in> set cs) \<and> length (xs @ ys) \<le> IRCD_MODESPERLINE"
    if "parse_ready shl t lcptr cptr" "aj \<le> length ws" "length xs < IRCD_MODESPERLINE" for t w xs aj
    using Cons.IH[OF that(1) _ Cons.prems(3) that(2) Cons.prems(5) that(3), of w] Cons.prems(2) by simp
  consider "c = CHR ''='' \<or> c = CHR ''+'' \<or> c = CHR ''-''" | "c \<noteq> CHR ''=''" "c \<noteq> CHR ''+''" "c \<noteq> CHR ''-''" by blast
  then show ?case
  proof cases
    case 1
    let ?w = "if c = CHR ''='' then CHANMODE_QUERY else if c = CHR ''+'' then CHANMODE_ADD else CHANMODE_DEL"
    have "parse_loop shl junk argp lcptr cptr k pc s what (c # cs) list ai =
        (if pc = 0 then Some (s, list) else parse_loop shl junk argp lcptr cptr k pc s ?w cs list ai)"
      using 1 by (auto simp: CHANMODE_PER_LINE_def Let_def)
    moreover obtain s' ys where "parse_loop shl junk argp lcptr cptr k pc s ?w cs list ai = Some (s', list @ ys)" "talked s s'"
      "\<forall>y \<in> set ys. parsed s k y \<and> m_letter (g_mode y) \<in> set cs" "length (list @ ys) \<le> IRCD_MODESPERLINE"
      using IH[OF Cons.prems(1,4,6), of ?w] by blast
    ultimately show ?thesis using Cons.prems(6) by (cases "pc = 0") (auto simp del: parse_loop.simps)
  next
    case 2
    obtain t ys aj d where f: "parse_flag shl (junk (length cs)) argp s lcptr cptr k what c list ai = Some (t, list @ ys, aj, d)"
      "talked s t" "\<forall>y \<in> set ys. parsed s k y \<and> m_letter (g_mode y) = c" "aj \<le> length ws" "length ys \<le> 1"
      "length (list @ ys) = IRCD_MODESPERLINE \<Longrightarrow> ys \<noteq> [] \<Longrightarrow> d"
      using parse_flag_parsed[OF Cons.prems(1) _ Cons.prems(3,4,5)] Cons.prems(2) by (metis list.set_intros(1))
    have step: "parse_loop shl junk argp lcptr cptr k pc s what (c # cs) list ai =
        (if d \<or> pc = 0 then Some (t, list @ ys) else parse_loop shl junk argp lcptr cptr k pc t what cs (list @ ys) aj)"
      using 2 f(1) by (auto simp: CHANMODE_PER_LINE_def Let_def)
    show ?thesis
    proof (cases "d \<or> pc = 0")
      case True
      then show ?thesis using step f(2,3,5) Cons.prems(6) by auto
    next
      case False
      have lt: "length (list @ ys) < IRCD_MODESPERLINE" using f(5,6) False Cons.prems(6) by (cases ys) (auto intro: Suc_lessI)
      have ok: "parse_ready shl t lcptr cptr" using Cons.prems(1) talked_ready[OF f(2)] by simp
      obtain s' zs where "parse_loop shl junk argp lcptr cptr k pc t what cs (list @ ys) aj = Some (s', (list @ ys) @ zs)" "talked t s'"
        "\<forall>y \<in> set zs. parsed s k y \<and> m_letter (g_mode y) \<in> set cs" "length ((list @ ys) @ zs) \<le> IRCD_MODESPERLINE"
        using IH[OF ok f(4) lt, of what] talked_parsed[OF f(2)] by auto
      then show ?thesis
        by (intro exI[of _ s'] exI[of _ "ys @ zs"])
          (use step False f(3) talked_trans[OF f(2), of s'] in \<open>auto simp del: parse_loop.simps\<close>)
    qed
  qed
qed simp

end
