(* ===== verification/Modecmd.thy ===== *)
theory Modecmd
  imports Chanparse
begin

text \<open>
  The MODE command for channels (modules/msg/m_mode.c, chanmode_show of src/chanmode.c): parsing
  the line, applying the changes, and sending what was done to the members and the servers, put
  together. What a user is shown of a channel is built by hooks of the modules for the key and the
  limit.
\<close>

unbundle bit_operations_syntax

section \<open>What applying changes keeps, besides the modes\<close>

definition same_names :: "ircd \<Rightarrow> ircd \<Rightarrow> bool" where
  "same_names s s' \<longleftrightarrow> clients s' = clients s \<and>
     (\<forall>u. map_option (\<lambda>us. (u_name us, u_uid us)) (users s' u) = map_option (\<lambda>us. (u_name us, u_uid us)) (users s u)) \<and>
     (\<forall>k. map_option ch_name (channels s' k) = map_option ch_name (channels s k)) \<and>
     modes_table s' = modes_table s \<and> lclients s' = lclients s"



lemma same_names_send [simp]: "same_names s (send x t) = same_names s t"
  by (simp add: same_names_def send_def)


lemma same_names_put_user:
  "users s p = Some u \<Longrightarrow> u_name u' = u_name u \<Longrightarrow> u_uid u' = u_uid u \<Longrightarrow> same_names s (put_user p u' s)"
  by (simp add: same_names_def put_user_def)





text \<open>A change that can be put on a line.\<close>

definition says :: "chanmodechange \<Rightarrow> bool" where
  "says c \<longleftrightarrow> chars_isalpha (m_letter (g_mode c)) \<and>
     (g_acptr c = None \<longrightarrow> no_nul (g_arg c) \<and> length (g_arg c) < PREFIX_SIZE)"

definition new_removal :: "chanmodechange \<Rightarrow> bool" where
  "new_removal d \<longleftrightarrow> says d \<and> g_acptr d = None \<and> g_what d = CHANMODE_DEL"

text \<open>What a callback leaves.\<close>

definition cb_keeps :: "ircd \<Rightarrow> chanmodechange list \<Rightarrow> chanmodechange \<Rightarrow> bounced \<Rightarrow> bool" where
  "cb_keeps s pre c r \<longleftrightarrow> (\<forall>s' pre' c' rc. r = Some (s', pre', c', rc) \<longrightarrow> same_names s s' \<and>
     (\<exists>ins. pre' = pre @ ins \<and> (\<forall>d \<in> set ins. new_removal d)) \<and> says c' \<and> g_acptr c' = g_acptr c \<and> g_what c' = g_what c)"



lemma cb_keeps_None [simp]: "cb_keeps s pre c None"
  by (simp add: cb_keeps_def)









definition adds_removals :: "chanmodechange list \<Rightarrow> chanmodechange list \<Rightarrow> bool" where
  "adds_removals pre pre' \<longleftrightarrow> (\<exists>ins. pre' = pre @ ins \<and> (\<forall>d \<in> set ins. new_removal d))"

lemma adds_removals_refl [simp]: "adds_removals pre pre"
  by (simp add: adds_removals_def)













section \<open>Showing the modes\<close>

text \<open>The hooks of \<open>chanmode_args_build\<close> that the modules for the limit and the key register. \<open>dst\<close> is
  the buffer and \<open>di\<close> the end of what was written.\<close>

datatype args_hook = Limit_build | Key_build

definition args_blank :: "string \<times> nat \<Rightarrow> (string \<times> nat) option" where
  "args_blank = (\<lambda>(dst, di). if di \<noteq> 0 then do { dst \<leftarrow> wr dst di (CHR '' ''); Some (dst, di + 1) } else Some (dst, di))"

definition cm_key_build :: "channel \<Rightarrow> 64 word \<Rightarrow> string \<times> nat \<Rightarrow> (string \<times> nat) option" where
  "cm_key_build ch fl = (\<lambda>(dst, di).
     if fl = chflg (CHR ''k'') \<and> ch_modes ch AND chflg (CHR ''k'') \<noteq> 0 \<and> cur (ch_key ch) \<noteq> NUL then do {
       (dst, di) \<leftarrow> args_blank (dst, di);
       (dst, n) \<leftarrow> strlcpy_at dst di (ch_key ch) (IRCD_KEYLEN * 8 + 1);
       Some (dst, di + n) }
     else Some (dst, di))"

text \<open>The 64-bit limit is passed to \<open>%i\<close>, which reads its lower half.\<close>

definition cm_limit_build :: "format_table \<Rightarrow> channel \<Rightarrow> 64 word \<Rightarrow> string \<times> nat \<Rightarrow> (string \<times> nat) option" where
  "cm_limit_build ft ch fl = (\<lambda>(dst, di).
     if fl = chflg (CHR ''l'') \<and> ch_modes ch AND chflg (CHR ''l'') \<noteq> 0 \<and> 0 < ch_limit ch then do {
       (dst, di) \<leftarrow> args_blank (dst, di);
       if di \<le> length dst then do {
         (d, n) \<leftarrow> str_snprintf ft (drop di dst) (IRCD_KEYLEN * 8 + 1) ''%i'' [Arg32 (ucast (ch_limit ch))];
         Some (take di dst @ d, di + n) }
       else None }
     else Some (dst, di))"

fun args_call :: "format_table \<Rightarrow> args_hook list \<Rightarrow> channel \<Rightarrow> 64 word \<Rightarrow> string \<times> nat \<Rightarrow> (string \<times> nat) option" where
  "args_call ft [] ch fl b = Some b"
| "args_call ft (h # hs) ch fl b = do {
     b \<leftarrow> (case h of Limit_build \<Rightarrow> cm_limit_build ft ch fl b | Key_build \<Rightarrow> cm_key_build ch fl b);
     args_call ft hs ch fl b }"

fun args_loop :: "format_table \<Rightarrow> args_hook list \<Rightarrow> channel \<Rightarrow> chanmode list \<Rightarrow> string \<times> nat \<Rightarrow> (string \<times> nat) option" where
  "args_loop ft hs ch [] b = Some b"
| "args_loop ft hs ch (m # tab) b = do {
     b \<leftarrow> (if CHANMODE_TYPE_KEY AND m_type m \<noteq> 0 \<and> ch_modes ch AND m_flag m \<noteq> 0 then args_call ft hs ch (m_flag m) b else Some b);
     args_loop ft hs ch tab b }"

definition chanmode_args_build :: "format_table \<Rightarrow> args_hook list \<Rightarrow> chanmode list \<Rightarrow> string \<Rightarrow> channel \<Rightarrow> (string \<times> nat) option" where
  "chanmode_args_build ft hs tab dst ch = do {
     (dst, di) \<leftarrow> args_loop ft hs ch tab (dst, 0);
     dst \<leftarrow> wr dst di NUL;
     Some (dst, di) }"

text \<open>\<open>&mbuf[di]\<close> as the destination.\<close>

definition flags_build_at :: "chanmode list \<Rightarrow> string \<Rightarrow> nat \<Rightarrow> 32 word \<Rightarrow> 64 word \<Rightarrow> (string \<times> nat) option" where
  "flags_build_at tab b di types fl =
     (if di \<le> length b then map_option (\<lambda>(d, n). (take di b @ d, n)) (chanmode_flags_build tab (drop di b) types fl) else None)"

definition chanmode_show :: "format_table \<Rightarrow> args_hook list \<Rightarrow> ircd \<Rightarrow> ptr \<Rightarrow> ptr \<Rightarrow> ircd option" where
  "chanmode_show ft hs s cptr k = do {
     ch \<leftarrow> channels s k;
     mbuf \<leftarrow> wr (replicate (64 + 2) NUL) 0 (CHR ''+'');
     abuf \<leftarrow> wr (replicate (IRCD_KEYLEN * 8 + 1) NUL) 0 NUL;
     (mbuf, abuf) \<leftarrow> (if ch_modes ch \<noteq> 0 then do {
         (mbuf, n) \<leftarrow> flags_build_at (modes_table s) mbuf 1 CHANMODE_TYPE_SINGLE (ch_modes ch);
         (mbuf, _) \<leftarrow> flags_build_at (modes_table s) mbuf (1 + n) CHANMODE_TYPE_KEY (ch_modes ch);
         (abuf, _) \<leftarrow> chanmode_args_build ft hs (modes_table s) abuf ch;
         Some (mbuf, abuf) }
       else do { mbuf \<leftarrow> wr mbuf 1 NUL; Some (mbuf, abuf) });
     mbuf \<leftarrow> (if cur abuf \<noteq> NUL then do {
         (mbuf, _) \<leftarrow> strlcat mbuf '' '' (64 + 2);
         (mbuf, _) \<leftarrow> strlcat mbuf abuf (IRCD_KEYLEN * 8 + 1);
         Some mbuf }
       else Some mbuf);
     Some (send (Numeric cptr 329 [Str (ch_name ch), Num (unat (ch_ts ch))])
       (send (Numeric cptr 324 [Str (ch_name ch), Str (cstr mbuf)]) s)) }"

section \<open>The command\<close>

text \<open>\<open>argv\<close> without its closing NULL pointer; its fourth and fifth entry are the flags and the
  arguments.\<close>

definition argv_at :: "string list \<Rightarrow> nat \<Rightarrow> string option" where
  "argv_at argv i = (if i < length argv then Some (argv ! i) else None)"

definition mode_changes ::
  "format_table \<Rightarrow> (64 word \<Rightarrow> 64 word) \<Rightarrow> (nat \<Rightarrow> chanmodechange) \<Rightarrow> pvec \<Rightarrow> ircd \<Rightarrow> ptr \<Rightarrow> ptr \<Rightarrow> ptr \<Rightarrow> ptr option \<Rightarrow>
   string list \<Rightarrow> ircd option" where
  "mode_changes ft shl junk v s lcptr cptr k cuptr argv = do {
     cl \<leftarrow> clients s cptr;
     let count = (if client_is_user cl then IRCD_MODESPERLINE else CHANMODE_PER_LINE);
     flags \<leftarrow> argv_at argv 3;
     (s, cs) \<leftarrow> chanmode_parse shl junk v s lcptr cptr k cuptr flags (argv_at argv 4) count;
     (s, cs, _) \<leftarrow> chanmode_apply ft shl s cptr k cuptr cs;
     s \<leftarrow> chanmode_send_local ft s cptr k cs count;
     chanmode_send_remote ft s (Some lcptr) cptr k cs }"

definition m_mode_channel ::
  "format_table \<Rightarrow> (64 word \<Rightarrow> 64 word) \<Rightarrow> args_hook list \<Rightarrow> (nat \<Rightarrow> chanmodechange) \<Rightarrow> pvec \<Rightarrow> ircd \<Rightarrow> ptr \<Rightarrow> ptr \<Rightarrow> ptr \<Rightarrow>
   string list \<Rightarrow> ircd option" where
  "m_mode_channel ft shl hs junk v s lcptr cptr k argv =
     (if length argv < 4 then chanmode_show ft hs s cptr k
      else do {
        cl \<leftarrow> clients s cptr;
        if client_is_user cl then do {
          cuptr \<leftarrow> chanuser_find s k cptr;
          (case cuptr of
            None \<Rightarrow> do { ch \<leftarrow> channels s k; Some (send (Numeric_line cptr 442 [Str (ch_name ch)]) s) }
          | Some p \<Rightarrow> mode_changes ft shl junk v s lcptr cptr k (Some p) argv) }
        else mode_changes ft shl junk v s lcptr cptr k None argv })"

definition channel_is_valid :: "string option \<Rightarrow> bool" where
  "channel_is_valid name = (case name of None \<Rightarrow> False | Some n \<Rightarrow> cur n \<in> {CHR ''#'', CHR ''+'', CHR ''&'', CHR ''!''})"

text \<open>A name that is no channel goes to the handler of the UMODE command, without the name. The
  command is registered by another module: \<open>umode\<close> is its handler for the type of the link, if it is
  loaded and has one.\<close>

type_synonym handler = "ircd \<Rightarrow> ptr \<Rightarrow> ptr \<Rightarrow> string list \<Rightarrow> ircd option"

definition m_mode_user :: "(lclient_type \<Rightarrow> handler option) option \<Rightarrow> ircd \<Rightarrow> ptr \<Rightarrow> ptr \<Rightarrow> string list \<Rightarrow> ircd option" where
  "m_mode_user umode s lcptr cptr argv = (case umode of
     None \<Rightarrow> Some s
   | Some handlers \<Rightarrow> do {
       l \<leftarrow> lclients s lcptr;
       (case handlers (l_type l) of
         None \<Rightarrow> Some s
       | Some h \<Rightarrow> h s lcptr cptr (take 2 argv @ drop 3 argv)) })"

definition m_mode ::
  "format_table \<Rightarrow> (64 word \<Rightarrow> 64 word) \<Rightarrow> args_hook list \<Rightarrow> (lclient_type \<Rightarrow> handler option) option \<Rightarrow>
   (nat \<Rightarrow> chanmodechange) \<Rightarrow> pvec \<Rightarrow> ircd \<Rightarrow> ptr \<Rightarrow> ptr \<Rightarrow> string list \<Rightarrow> ircd option" where
  "m_mode ft shl hs umode junk v s lcptr cptr argv =
     (case argv_at argv 2 of
       Some name \<Rightarrow> if channel_is_valid (Some name) then do {
           r \<leftarrow> channel_find_name shl s name;
           (case r of
             None \<Rightarrow> Some (send (Numeric_line cptr 403 [Str name]) s)
           | Some k \<Rightarrow> m_mode_channel ft shl hs junk v s lcptr cptr k argv) }
         else m_mode_user umode s lcptr cptr argv
     | None \<Rightarrow> m_mode_user umode s lcptr cptr argv)"

text \<open>From a server; what is not for a known channel is dropped.\<close>

definition ms_mode ::
  "format_table \<Rightarrow> (64 word \<Rightarrow> 64 word) \<Rightarrow> args_hook list \<Rightarrow> (nat \<Rightarrow> chanmodechange) \<Rightarrow> pvec \<Rightarrow> ircd \<Rightarrow> ptr \<Rightarrow> ptr \<Rightarrow>
   string list \<Rightarrow> ircd option" where
  "ms_mode ft shl hs junk v s lcptr cptr argv =
     (case argv_at argv 2 of
       Some name \<Rightarrow> if channel_is_valid (Some name) then do {
           r \<leftarrow> channel_find_name shl s name;
           (case r of None \<Rightarrow> Some s | Some k \<Rightarrow> m_mode_channel ft shl hs junk v s lcptr cptr k argv) }
         else Some s
     | None \<Rightarrow> Some s)"

text \<open>OMODE of modules/msg/m_omode.c: an operator changes modes without being a member.\<close>

definition mo_omode_channel ::
  "format_table \<Rightarrow> (64 word \<Rightarrow> 64 word) \<Rightarrow> args_hook list \<Rightarrow> (nat \<Rightarrow> chanmodechange) \<Rightarrow> pvec \<Rightarrow> ircd \<Rightarrow> ptr \<Rightarrow> ptr \<Rightarrow> ptr \<Rightarrow>
   string list \<Rightarrow> ircd option" where
  "mo_omode_channel ft shl hs junk v s lcptr cptr k argv =
     (if length argv < 4 then chanmode_show ft hs s cptr k else mode_changes ft shl junk v s lcptr cptr k None argv)"

definition mo_omode ::
  "format_table \<Rightarrow> (64 word \<Rightarrow> 64 word) \<Rightarrow> args_hook list \<Rightarrow> (nat \<Rightarrow> chanmodechange) \<Rightarrow> pvec \<Rightarrow> ircd \<Rightarrow> ptr \<Rightarrow> ptr \<Rightarrow>
   string list \<Rightarrow> ircd option" where
  "mo_omode ft shl hs junk v s lcptr cptr argv =
     (case argv_at argv 2 of
       Some name \<Rightarrow> if channel_is_valid (Some name) then do {
           r \<leftarrow> channel_find_name shl s name;
           (case r of
             None \<Rightarrow> Some (send (Numeric_line cptr 403 [Str name]) s)
           | Some k \<Rightarrow> mo_omode_channel ft shl hs junk v s lcptr cptr k argv) }
         else Some s
     | None \<Rightarrow> Some s)"


section \<open>All of it\<close>










section \<open>A command in a room\<close>





end
