(* ===== verification/Numeric.thy ===== *)
theory Numeric
  imports Chanparse
begin

text \<open>
  The numeric replies (src/numeric.c): the table of their texts, and the routines that put the name
  of the server, the number and the name of the receiver in front of a text. Every text of the
  table is shown to be made of conversions that the formatter knows, so that a reply with fitting
  arguments always becomes one line.
\<close>

unbundle bit_operations_syntax

section \<open>The table\<close>

text \<open>The entries that are not NULL, by their index.\<close>

definition numeric_replies :: "(nat \<times> string) list" where
  "numeric_replies = [
    (1, '':welcome to the internet relay chat %s''),
    (2, '':%s running %s (%s)''),
    (3, '':server up since %s''),
    (4, ''%s %s %s %s''),
    (5, ''%s :are supported by this server''),
    (10, ''%s %d :please use this server/port instead''),
    (15, '':%s''),
    (17, '':end of /map''),
    (20, ''%s %s :your id and key is''),
    (200, ''link %s%s %s %s''),
    (201, ''try. %s %s''),
    (202, ''h.s. %s %s''),
    (203, ''???? %s %s (%s) %d''),
    (204, ''oper %s %s (%s) %lu %lu''),
    (205, ''user %s %s (%s) %lu %lu''),
    (206, ''serv %s %dS %dC %s %s!%s@%s %lu''),
    (208, ''<newtype> 0 %s''),
    (209, ''class %s %d''),
    (212, ''%s %u %u :%u''),
    (213, ''%c %s %s %s %d %s''),
    (214, ''%c %s * %s %d %s''),
    (215, ''%c %s * %s@%s %d %s''),
    (216, ''%c %s@%s %lu %s :%s''),
    (217, ''%c %s@%s %lu %s :%s''),
    (218, ''%c %s %d %d %d %lu''),
    (219, ''%c :end of /stats report''),
    (220, ''%c %d %s %d :%s''),
    (221, ''+%s''),
    (225, ''%c %s :%s''),
    (226, ''%s''),
    (241, ''%c %s * %s %d %s''),
    (242, '':server up %s''),
    (243, ''%c %s@%s * %s %s %s %s''),
    (244, ''%c %s * %s %d %s''),
    (245, ''%c %s %llu :%s''),
    (247, ''X %s %s * * 0 0''),
    (248, ''U %s %s''),
    (250, ''max. local/remote clients: %u/%u (%u connections received)''),
    (251, '':there are %u users and %u invisible on %u servers''),
    (252, ''%d :IRC operators online''),
    (253, ''%d :unknown connection(s)''),
    (254, ''%d :channels formed''),
    (255, '':i have %d clients and %d servers''),
    (256, '':administrative info about %s''),
    (257, '':%s''),
    (258, '':%s''),
    (259, '':%s''),
    (261, ''file %s %d''),
    (262, ''%s :end of /trace''),
    (263, '':server load is temporarily too heavy. please wait a while and try again.''),
    (265, '':current local users: %d max: %d''),
    (266, '':current global users: %d max: %d''),
    (267, '':current local SSL users: %d max: %d''),
    (268, '':current global SSL users: %d max: %d''),
    (275, ''%s :is paranoid (%s)''),
    (281, ''%s :''),
    (282, '':end of /accept list.''),
    (301, ''%s :%s''),
    (302, '':%s''),
    (303, '':%s''),
    (305, '':welcome back!''),
    (306, '':ok, you're /away now, hurry back!''),
    (310, ''%s :is the elite cyberforce''),
    (311, ''%s %s %s * :%s''),
    (312, ''%s %s :%s''),
    (313, ''%s :is an IRC operator''),
    (314, ''%s %s %s * :%s''),
    (315, ''%s :End of /WHO list.''),
    (317, ''%s %d %d :seconds idle, signon time''),
    (318, ''%s :end of /whois list.''),
    (319, ''%s :%s''),
    (321, ''channel :users  name''),
    (322, ''%s %d :%s''),
    (323, '':end of /list''),
    (324, ''%s %s''),
    (329, ''%s %lu''),
    (331, ''%s :no topic is set.''),
    (332, ''%s :%s''),
    (333, ''%s %s %lu''),
    (338, '':%s is actually %s@%s [%s]''),
    (341, ''%s %s''),
    (344, ''%s %s %s %lu''),
    (345, ''%s :end of channel deny list''),
    (346, ''%s %s %s %lu''),
    (347, ''%s :end of channel invite list''),
    (348, ''%s %s %s %lu''),
    (349, ''%s :end of channel exception list''),
    (351, ''%s-%s.%s %s :%s''),
    (352, ''%s %s %s %s %s %s :%d %s''),
    (353, ''%s %s :''),
    (354, ''%s %s %s %lu''),
    (355, ''%s :end of channel auto-op list''),
    (356, ''%s %s %s %lu''),
    (357, ''%s :end of channel auto-halfop list''),
    (358, ''%s %s %s %lu''),
    (359, ''%s :end of channel auto-voice list''),
    (362, ''%s :closed. status = %d''),
    (363, ''%d :connections closed''),
    (364, ''%s %s :%d %s''),
    (365, ''%s :end of /links list.''),
    (366, ''%s :end of /names list.''),
    (367, ''%s %s %s %lu''),
    (368, ''%s :end of channel ban list''),
    (369, ''%s :end of /whowas''),
    (371, '':%s''),
    (372, '':- %s''),
    (373, '':server info''),
    (374, '':end of /info list.''),
    (375, '':- %s message of the day - ''),
    (376, '':end of /motd command.''),
    (381, '':you're now an IRC operator. act responsible.''),
    (382, ''%s :rehashing''),
    (384, ''%d :port to local server is''),
    (385, '':you're no longer an IRC operator!''),
    (386, '':%s''),
    (391, ''%s :%s''),
    (401, ''%s :no such nick/channel''),
    (402, ''%s :no such server''),
    (403, ''%s :no such channel''),
    (404, ''%s :cannot send to channel''),
    (405, ''%s :you have joined too many channels''),
    (406, ''%s :there was no such nickname''),
    (407, ''%s :too many recipients.''),
    (409, '':no origin specified''),
    (411, '':no recipient given (%s)''),
    (412, '':no text to send''),
    (413, ''%s :no toplevel domain specified''),
    (414, ''%s :wildcard in toplevel domain''),
    (420, ''%s :server-only command''),
    (421, ''%s :unknown command''),
    (422, '':motd file is missing''),
    (423, ''%s :no administrative info available''),
    (424, '':file error doing %s on %s''),
    (431, '':no nickname given''),
    (432, ''%s :erroneous nickname''),
    (433, ''%s :nickname is already in use.''),
    (436, ''%s :nickname collision KILL''),
    (437, ''%s :nick/channel is temporarily unavailable''),
    (438, ''%s %s :nick change too fast. please wait %d seconds.''),
    (441, ''%s %s :they aren't on that channel''),
    (442, ''%s :you're not on that channel''),
    (443, ''%s %s :is already on channel''),
    (444, ''%s :user not logged in''),
    (445, '':summon has been removed''),
    (446, '':users has been removed''),
    (451, '':you have not registered''),
    (456, '':accept list is full''),
    (457, ''%s :is already on your accept list''),
    (458, ''%s :is not on your accept list''),
    (461, ''%s :not enough parameters''),
    (462, '':you may not reregister''),
    (463, '':your host isn't among the privileged''),
    (464, '':password incorrect''),
    (465, '':you are banned from this server- %s''),
    (467, ''%s :channel key already set''),
    (470, ''%s :cannot join channel (+d)''),
    (471, ''%s :cannot join channel (+l)''),
    (472, ''%c :is unknown mode char to me''),
    (473, ''%s :cannot join channel (+i)''),
    (474, ''%s :cannot join channel (+b)''),
    (475, ''%s :cannot join channel (+k)''),
    (476, ''%s :bad channel mask''),
    (477, ''%s :channel does not support modes''),
    (478, ''%s %s :channel ban list is full''),
    (479, ''%s :illegal channel name''),
    (480, ''%s :cannot join channel (+x)''),
    (481, '':you're not an IRC operator''),
    (482, ''%s :you're not channel operator''),
    (483, '':you can't kill a server!''),
    (484, '':you are restricted''),
    (485, '':can't change nick when banned or on a moderated channel (%s)''),
    (486, ''%s :there are non-ssl users in the channel''),
    (491, '':only few of mere mortals may try to enter the twilight zone''),
    (501, '':unknown mode flag''),
    (502, '':can't change mode for other users''),
    (503, '':message could not be delivered to %s''),
    (504, ''%s :user is not on this server''),
    (513, '':to connect type /quote pong %s''),
    (524, ''%s :help not found''),
    (702, ''%s 0x%x %s %s''),
    (703, '':end of /modlist.''),
    (704, ''%s :%s''),
    (705, ''%s :%s''),
    (706, ''%s :end of /help.''),
    (710, ''%s %s!%s@%s :has asked for an invite.''),
    (711, ''%s :your /knock has been delivered.''),
    (712, ''%s :too many /knocks (%s).''),
    (713, ''%s :channel is open.''),
    (714, ''%s :you are already on that channel.''),
    (715, '':/knocks are disabled.''),
    (999, '':last error message'')]"

definition numeric_text :: "nat \<Rightarrow> string option" where
  "numeric_text n = map_of numeric_replies n"

section \<open>Lines\<close>

definition numeric_digits :: "nat \<Rightarrow> string" where
  "numeric_digits n = [char_of (n div 100 + 48), char_of (n mod 100 div 10 + 48), char_of (n mod 10 + 48)]"

definition numeric_buffer :: string where
  "numeric_buffer = replicate (IRCD_LINELEN - 1) NUL"

text \<open>The format for \<open>client_send\<close>; the inner \<open>None\<close> is the NULL pointer for a number without text.\<close>

definition numeric_format :: "nat \<Rightarrow> string option option" where
  "numeric_format n = (case numeric_text n of None \<Rightarrow> Some None | Some t \<Rightarrow> do {
     (b, k) \<leftarrow> store_all numeric_buffer 0 ('':%s '' @ numeric_digits n @ '' %s '');
     (b, _) \<leftarrow> strlcpy_at b k t (IRCD_LINELEN - 1 - k);
     Some (Some (cstr b)) })"

text \<open>What both routines write: the name of the server, the number, the receiver, the text.\<close>

definition numeric_head :: "string \<Rightarrow> nat \<Rightarrow> string \<Rightarrow> (string \<times> nat) option" where
  "numeric_head me n who = do {
     (b, i) \<leftarrow> store_all numeric_buffer 0 '':'';
     (b, k) \<leftarrow> strlcpy_at b i me (IRCD_LINELEN - 1 - i);
     (b, i) \<leftarrow> store_all b (i + k) ('' '' @ numeric_digits n @ '' '');
     (b, k) \<leftarrow> strlcpy_at b i who (IRCD_LINELEN - 1 - i);
     store_all b (i + k) '' '' }"

definition numeric_build :: "format_table \<Rightarrow> string \<Rightarrow> nat \<Rightarrow> string \<Rightarrow> string \<Rightarrow> farg list \<Rightarrow> string option" where
  "numeric_build ft me n who t args = do {
     (b, i) \<leftarrow> numeric_head me n who;
     (d, _) \<leftarrow> str_vsnprintf ft (drop i b) (IRCD_LINELEN - 1 - i) t args;
     Some (cstr (take i b @ d)) }"

text \<open>The name that the link of a user knows it by.\<close>

definition receiver_name :: "ircd \<Rightarrow> client \<Rightarrow> string option" where
  "receiver_name s cl = do {
     src \<leftarrow> c_source cl;
     l \<leftarrow> lclients s src;
     if l_caps l AND CAP_UID_BIT \<noteq> 0 then do { u \<leftarrow> c_user cl; us \<leftarrow> users s u; Some (u_uid us) } else Some (c_name cl) }"

definition numeric_vsend :: "format_table \<Rightarrow> ircd \<Rightarrow> ptr \<Rightarrow> nat \<Rightarrow> farg list \<Rightarrow> ircd option" where
  "numeric_vsend ft s cptr n args = do {
     cl \<leftarrow> clients s cptr;
     if \<not> client_is_user cl then Some s
     else (case numeric_text n of None \<Rightarrow> Some s
       | Some t \<Rightarrow> do {
           me \<leftarrow> clients s (client_me s);
           who \<leftarrow> receiver_name s cl;
           line \<leftarrow> numeric_build ft (c_name me) n who t args;
           Some (send (Client_line cptr ''%s'' [Str line]) s) }) }"

text \<open>To a link that is no client yet; \<open>lme\<close> is \<open>lclient_me\<close>.\<close>

definition numeric_vlsend :: "format_table \<Rightarrow> ircd \<Rightarrow> ptr \<Rightarrow> ptr \<Rightarrow> nat \<Rightarrow> farg list \<Rightarrow> ircd option" where
  "numeric_vlsend ft s lme lcptr n args = (case numeric_text n of None \<Rightarrow> Some s
     | Some t \<Rightarrow> do {
         me \<leftarrow> lclients s lme;
         l \<leftarrow> lclients s lcptr;
         line \<leftarrow> numeric_build ft (l_name me) n (if cur (l_name l) \<noteq> NUL then l_name l else ''*'') t args;
         Some (send (Lclient_line lcptr ''%s'' [Str line]) s) })"

section \<open>Reading the formats\<close>

text \<open>The pieces of a text with its arguments, when they fit.\<close>

fun pieces_of :: "string \<Rightarrow> farg list \<Rightarrow> piece list option" where
  "pieces_of [] as = (if as = [] then Some [] else None)"
| "pieces_of (c # f) as =
     (if c = NUL then None
      else if c \<noteq> CHR ''%'' then map_option (\<lambda>qs. PLit c # qs) (pieces_of f as)
      else (case (f, as) of
        (d # f, ArgStr x # as) \<Rightarrow>
          if d = CHR ''s'' then map_option (\<lambda>qs. PStr False False 0 x # qs) (pieces_of f as) else None
      | (d # f, Arg32 x # as) \<Rightarrow>
          if d = CHR ''u'' then map_option (\<lambda>qs. PUns False False 0 x # qs) (pieces_of f as)
          else if d = CHR ''d'' then map_option (\<lambda>qs. PSig False False 0 x # qs) (pieces_of f as)
          else if d = CHR ''c'' then map_option (\<lambda>qs. PChr x # qs) (pieces_of f as)
          else if d = CHR ''l'' then (case f of
              e # f \<Rightarrow> if e = CHR ''u'' then map_option (\<lambda>qs. PLow False False 0 x # qs) (pieces_of f as) else None
            | [] \<Rightarrow> None)
          else None
      | (d # f, Arg64 x # as) \<Rightarrow>
          if d = CHR ''l'' then (case f of
              e # e' # f \<Rightarrow> if e = CHR ''l'' \<and> e' = CHR ''u''
                then map_option (\<lambda>qs. PUll False False 0 x # qs) (pieces_of f as) else None
            | _ \<Rightarrow> None)
          else None
      | (d # f, ArgPtr x # as) \<Rightarrow>
          if d = CHR ''x'' then map_option (\<lambda>qs. PHex False False 0 x # qs) (pieces_of f as) else None
      | _ \<Rightarrow> None))"

text \<open>The kinds of argument a text asks for.\<close>

datatype kind = Kstr | K32 | K64 | Kptr

fun kind_of :: "farg \<Rightarrow> kind" where
  "kind_of (ArgStr x) = Kstr"
| "kind_of (Arg32 x) = K32"
| "kind_of (Arg64 x) = K64"
| "kind_of (ArgPtr x) = Kptr"

fun kinds_of :: "string \<Rightarrow> kind list option" where
  "kinds_of [] = Some []"
| "kinds_of (c # f) =
     (if c = NUL then None
      else if c \<noteq> CHR ''%'' then kinds_of f
      else (case f of [] \<Rightarrow> None | d # f \<Rightarrow>
        if d = CHR ''s'' then map_option ((#) Kstr) (kinds_of f)
        else if d = CHR ''u'' \<or> d = CHR ''d'' \<or> d = CHR ''c'' then map_option ((#) K32) (kinds_of f)
        else if d = CHR ''x'' then map_option ((#) Kptr) (kinds_of f)
        else if d = CHR ''l'' then (case f of [] \<Rightarrow> None | e # f \<Rightarrow>
          if e = CHR ''u'' then map_option ((#) K32) (kinds_of f)
          else (case f of [] \<Rightarrow> None | e' # f \<Rightarrow>
            if e = CHR ''l'' \<and> e' = CHR ''u'' then map_option ((#) K64) (kinds_of f) else None))
        else None))"

lemma pieces_of_sound:
  "pieces_of t as = Some qs \<Longrightarrow> concat (map render qs) = t \<and> concat (map piece_arg qs) = as \<and> (\<forall>q \<in> set qs. piece_ok q)"
  by (induction t as arbitrary: qs rule: pieces_of.induct)
    (auto simp: flags_def split: if_splits list.splits farg.splits)

lemma pieces_of_kinds:
  "kinds_of t = Some (map kind_of as) \<Longrightarrow> \<exists>qs. pieces_of t as = Some qs"
proof (induction t as rule: pieces_of.induct)
  case (2 c f as)
  show ?case
  proof (cases "c = CHR ''%''")
    case False
    then show ?thesis using 2 by (auto split: if_splits)
  next
    case True
    then obtain d g where f: "f = d # g" using "2.prems" by (cases f) auto
    obtain a as' where as': "as = a # as'"
      using "2.prems" True f by (cases as) (auto split: if_splits list.splits)
    show ?thesis
      using "2.prems" "2.IH" True f as'
      by (cases a) (auto split: if_splits list.splits)
  qed
qed simp

text \<open>Every text of the table is made of such conversions.\<close>

lemma numeric_kinds: "\<forall>(n, t) \<in> set numeric_replies. n < 1000 \<and> kinds_of t \<noteq> None \<and> length t < 100"
  unfolding numeric_replies_def by code_simp

section \<open>What is written\<close>

lemma store_all_holds:
  assumes "holds b w" "length w + length t \<le> length b"
  obtains b' where "store_all b (length w) t = Some (b', length (w @ t))" "holds b' (w @ t)" "length b' = length b"
proof -
  obtain r where r: "b = w @ r" using assms(1) by (rule holdsE)
  show ?thesis
    by (rule that[of "w @ t @ drop (length w + length t) b"])
      (use store_all_correct[of "length w" t b] assms(2) r in \<open>simp_all add: holds_def\<close>)
qed

definition numeric_prefix :: "string \<Rightarrow> nat \<Rightarrow> string \<Rightarrow> string" where
  "numeric_prefix me n who = '':'' @ me @ '' '' @ numeric_digits n @ '' '' @ who @ '' ''"

lemma length_digits [simp]: "length (numeric_digits n) = 3"
  by (simp add: numeric_digits_def)

lemma cstr_upto: "cstr (t @ NUL # u) = cstr t"
  by (induction t) simp_all

lemma numeric_head_ok:
  assumes me: "text_ok IRCD_HOSTLEN me" and who: "text_ok IRCD_HOSTLEN who"
  obtains r where "numeric_head me n who = Some (numeric_prefix me n who @ r, length (numeric_prefix me n who))"
    "length r = 2047 - length (numeric_prefix me n who)" "length (numeric_prefix me n who) \<le> 135"
proof -
  have len: "length me \<le> 64" "length who \<le> 64" "cstr me = me" "cstr who = who"
    using me who by (simp_all add: text_ok_def ircd_sizes)
  have L: "IRCD_LINELEN - 1 = 2047" by (simp add: IRCD_LINELEN_def)
  have b0: "holds numeric_buffer []" "length numeric_buffer = 2047" by (simp_all add: numeric_buffer_def IRCD_LINELEN_def)
  obtain b1 where b1: "store_all numeric_buffer 0 '':'' = Some (b1, 1)" "holds b1 '':''" "length b1 = 2047"
    using store_all_holds[OF b0(1), of "'':''"] b0(2) by auto
  obtain b2 where b2: "strlcpy_at b1 1 me (2047 - 1) = Some (b2, length me)" "holds b2 ('':'' @ me)" "length b2 = 2047"
    using strlcpy_at_fits[OF b1(2), of me "2047 - 1"] b1(3) len by auto
  let ?w = "'':'' @ me @ '' '' @ numeric_digits n @ '' ''"
  obtain b3 where b3: "store_all b2 (1 + length me) ('' '' @ numeric_digits n @ '' '') = Some (b3, length ?w)" "holds b3 ?w" "length b3 = 2047"
    using store_all_holds[OF b2(2), of "'' '' @ numeric_digits n @ '' ''"] b2(3) len by auto
  obtain b4 where b4: "strlcpy_at b3 (length ?w) who (2047 - length ?w) = Some (b4, length who)" "holds b4 (?w @ who)" "length b4 = 2047"
  proof -
    have "length ?w + length (cstr who) < length b3" "length (cstr who) + 1 < 2047 - length ?w"
      using b3(3) len by simp_all
    then show thesis using strlcpy_at_fits[OF b3(2)] b3(3) len(4) that by metis
  qed
  let ?p = "numeric_prefix me n who"
  have p: "?p = (?w @ who) @ '' ''" by (simp add: numeric_prefix_def)
  have "length (?w @ who) + length '' '' \<le> length b4" using b4(3) len by simp
  from store_all_holds[OF b4(2) this]
  obtain b5 where "store_all b4 (length (?w @ who)) '' '' = Some (b5, length ?p)" "holds b5 ?p" "length b5 = length b4"
    unfolding p by metis
  then have b5: "store_all b4 (length ?w + length who) '' '' = Some (b5, length ?p)" "holds b5 ?p" "length b5 = 2047"
    using b4(3) by (simp_all only: length_append)
  obtain r where r: "b5 = ?p @ r" using b5(2) by (rule holdsE)
  have "numeric_head me n who = Some (?p @ r, length ?p)"
    unfolding numeric_head_def L using b1(1) b2(1) b3(1) b4(1) b5(1) r by (simp del: store_all.simps)
  then show ?thesis
    by (rule that) (use b5(3) r len in \<open>simp_all add: numeric_prefix_def\<close>)
qed

lemma numeric_build_ok:
  assumes "text_ok IRCD_HOSTLEN me" "text_ok IRCD_HOSTLEN who" "pieces_of t args = Some qs"
  shows "numeric_build ft me n who t args =
    Some (cstr (take 2046 (numeric_prefix me n who @ concat (map meaning qs))))"
proof -
  let ?p = "numeric_prefix me n who"
  obtain r where r: "numeric_head me n who = Some (?p @ r, length ?p)" "length r = 2047 - length ?p" "length ?p \<le> 135"
    by (rule numeric_head_ok[OF assms(1,2)])
  have L: "IRCD_LINELEN - 1 = 2047" by (simp add: IRCD_LINELEN_def)
  let ?m = "take (2047 - length ?p - 1) (concat (map meaning qs))"
  have v: "str_vsnprintf ft r (2047 - length ?p) t args = Some (?m @ NUL # drop (Suc (length ?m)) r, length ?m)"
    using vsnprintf_text[of qs "2047 - length ?p" r ft] pieces_of_sound[OF assms(3)] r by (simp add: Let_def)
  have "numeric_build ft me n who t args = Some (cstr (?p @ ?m @ NUL # drop (Suc (length ?m)) r))"
    unfolding numeric_build_def L using r v by simp
  also have "cstr (?p @ ?m @ NUL # drop (Suc (length ?m)) r) = cstr (?p @ ?m)"
    using cstr_upto[of "?p @ ?m"] by simp
  also have "?p @ ?m = take 2046 (?p @ concat (map meaning qs))" using r(3) by simp
  finally show ?thesis .
qed

lemma numeric_text_facts:
  assumes "numeric_text n = Some t"
  shows "n < 1000" "kinds_of t \<noteq> None" "length t < 100" "no_nul t"
proof -
  have "(n, t) \<in> set numeric_replies" using assms by (auto simp: numeric_text_def dest: map_of_SomeD)
  then show "n < 1000" "kinds_of t \<noteq> None" "length t < 100" using numeric_kinds by auto
  have "kinds_of u \<noteq> None \<Longrightarrow> no_nul u" for u
    by (induction u rule: kinds_of.induct) (auto split: if_splits list.splits)
  then show "no_nul t" using \<open>kinds_of t \<noteq> None\<close> by blast
qed

lemma no_nul_digits: "n < 1000 \<Longrightarrow> no_nul (numeric_digits n)"
proof -
  have "char_of k \<noteq> NUL" if "0 < k" "k < 256" for k :: nat
  proof
    assume "char_of k = NUL"
    then have "ord (char_of k) = 0" by simp
    then show False using that by (simp del: of_char_0)
  qed
  then show "n < 1000 \<Longrightarrow> no_nul (numeric_digits n)"
    by (simp add: numeric_digits_def no_nul_def eq_commute[of NUL])
qed

lemma numeric_format_text:
  assumes "numeric_text n = Some t"
  shows "numeric_format n = Some (Some ('':%s '' @ numeric_digits n @ '' %s '' @ t))"
proof -
  note t = numeric_text_facts[OF assms]
  let ?h = "'':%s '' @ numeric_digits n @ '' %s ''"
  have L: "IRCD_LINELEN = 2048" by (simp add: IRCD_LINELEN_def)
  have b0: "holds numeric_buffer []" "length numeric_buffer = 2047" by (simp_all add: numeric_buffer_def L)
  have h: "length ?h = 11" by simp
  obtain b1 where b1: "store_all numeric_buffer 0 ?h = Some (b1, 11)" "holds b1 ?h" "length b1 = 2047"
    using store_all_holds[OF b0(1), of ?h] b0(2) by auto
  have "strlcpy (drop 11 b1) t (2048 - 1 - 11) = Some (cstr t @ NUL # drop (Suc (length (cstr t))) (drop 11 b1), length (cstr t))"
    by (rule strlcpy_fits) (use t b1(3) in simp_all)
  moreover have "take 11 b1 = ?h" using b1(2) unfolding holds_def h .
  moreover have "no_nul (?h @ t)" using t(1,4) by (simp add: no_nul_digits)
  then have "cstr (?h @ t @ NUL # u) = ?h @ t" for u using cstr_append_NUL[of "?h @ t" u] by simp
  ultimately show ?thesis
    unfolding numeric_format_def assms L using b1(1) t(4) b1(3) by (simp add: strlcpy_at_def)
qed

section \<open>The properties\<close>

text \<open>C31. A numeric reply of the table goes to a user as one line. Whatever arguments have the kinds
  that the text asks for, the line is the name of the server, the number in three digits, the name the
  link knows the user by, and the text with the arguments put in, cut to the 2046 bytes of the buffer.
  No text of the table makes the formatter read beyond the text or the arguments.\<close>

theorem numeric_reply_sent:
  assumes "clients s cptr = Some cl" "client_is_user cl" "clients s (client_me s) = Some me"
    "text_ok IRCD_HOSTLEN (c_name me)" "receiver_name s cl = Some who" "text_ok IRCD_HOSTLEN who"
    "numeric_text n = Some t"
  shows "\<exists>ks. kinds_of t = Some ks \<and> (\<forall>args. map kind_of args = ks \<longrightarrow>
    (\<exists>qs. t = concat (map render qs) \<and> args = concat (map piece_arg qs) \<and>
      numeric_vsend ft s cptr n args = Some (send (Client_line cptr ''%s''
        [Str (cstr (take 2046 (numeric_prefix (c_name me) n who @ concat (map meaning qs))))]) s)))"
proof -
  obtain ks where ks: "kinds_of t = Some ks" using numeric_text_facts(2)[OF assms(7)] by blast
  have "\<exists>qs. t = concat (map render qs) \<and> args = concat (map piece_arg qs) \<and>
      numeric_vsend ft s cptr n args = Some (send (Client_line cptr ''%s''
        [Str (cstr (take 2046 (numeric_prefix (c_name me) n who @ concat (map meaning qs))))]) s)"
    if "map kind_of args = ks" for args
  proof -
    have "kinds_of t = Some (map kind_of args)" using ks that by simp
    then obtain qs where qs: "pieces_of t args = Some qs" using pieces_of_kinds by blast
    have "numeric_vsend ft s cptr n args = Some (send (Client_line cptr ''%s''
        [Str (cstr (take 2046 (numeric_prefix (c_name me) n who @ concat (map meaning qs))))]) s)"
      unfolding numeric_vsend_def using assms numeric_build_ok[OF assms(4,6) qs] by simp
    then show ?thesis using pieces_of_sound[OF qs] by metis
  qed
  then show ?thesis using ks by blast
qed

definition numeric_room :: ircd where
  "numeric_room = (boot_state [9 \<mapsto> (a_client CLIENT_LOCAL 20 ''irc.example.org'')\<lparr>c_type := CLIENT_SERVER\<rparr>,
     10 \<mapsto> (a_client CLIENT_LOCAL 20 ''alice'')\<lparr>c_source := Some 5\<rparr>] [20 \<mapsto> a_user 10 ''al''] 0)\<lparr>client_me := 9,
     lclients := [5 \<mapsto> \<lparr>l_type = LCLIENT_USER, l_hash = 0, l_caps = 0, l_name = ''alice''\<rparr>]\<rparr>"

theorem numeric_reply_sent_witness:
  "\<exists>qs. ''%s :no such nick/channel'' = concat (map render qs) \<and> [ArgStr (Some ''bob'')] = concat (map piece_arg qs) \<and>
    numeric_vsend str_init numeric_room 10 401 [ArgStr (Some ''bob'')] = Some (send (Client_line 10 ''%s''
      [Str (cstr (take 2046 (numeric_prefix ''irc.example.org'' 401 ''alice'' @ concat (map meaning qs))))]) numeric_room)"
proof -
  have f: "clients numeric_room 10 = Some ((a_client CLIENT_LOCAL 20 ''alice'')\<lparr>c_source := Some 5\<rparr>)"
    "clients numeric_room (client_me numeric_room) = Some ((a_client CLIENT_LOCAL 20 ''irc.example.org'')\<lparr>c_type := CLIENT_SERVER\<rparr>)"
    "lclients numeric_room 5 = Some \<lparr>l_type = LCLIENT_USER, l_hash = 0, l_caps = 0, l_name = ''alice''\<rparr>"
    by (simp_all add: numeric_room_def boot_state_def)
  have k: "numeric_text 401 = Some ''%s :no such nick/channel''"
    unfolding numeric_text_def numeric_replies_def by simp
  have "kinds_of ''%s :no such nick/channel'' = Some [Kstr]" by code_simp
  then show ?thesis
    using numeric_reply_sent[OF f(1) _ f(2) _ _ _ k, of "''alice''" str_init] f(3)
    by (simp add: a_client_def client_is_user_def text_ok_def receiver_name_def IRCD_HOSTLEN_def)
qed

text \<open>The reply 461 names a command, but src/usermode.c sends it without one: the formatter then reads
  an argument that was not passed.\<close>

lemma reply_without_argument:
  assumes "text_ok IRCD_HOSTLEN me" "text_ok IRCD_HOSTLEN who"
  shows "numeric_build ft me 461 who ''%s :not enough parameters'' [] = None"
proof -
  have "str_vsnprintf ft b n ''%s :not enough parameters'' [] = None" if "1 < n" for b n
  proof -
    have "vs_loop ft (n - 1) (''%s :not enough parameters'' @ [NUL]) [] 0 \<lparr>ostr = b, optr = 0, obytes = 0\<rparr> = None"
      using that by (subst vs_loop.simps) (simp add: parse_spec_plain parse_I_def vs_convert_def conv_s_def arg_str_def)
    then show ?thesis using that by (simp add: str_vsnprintf_def)
  qed
  then have v: "str_vsnprintf ft b (2047 - i) ''%s :not enough parameters'' [] = None" if "i \<le> 1000" for b i
    using that by simp
  obtain r where r: "numeric_head me 461 who = Some (numeric_prefix me 461 who @ r, length (numeric_prefix me 461 who))"
    "length (numeric_prefix me 461 who) \<le> 135"
    by (rule numeric_head_ok[OF assms])
  show ?thesis
    unfolding numeric_build_def using r v by (simp add: IRCD_LINELEN_def)
qed

end
