(* ===== verification/Names.thy ===== *)
theory Names
  imports Numeric
begin

text \<open>
  Lists of members as lines (src/chanuser.c): the reply to NAMES, the NJOIN lines that introduce
  members to other servers, the JOIN lines for the members, and the parser of NJOIN. A line takes
  members as long as they fit its buffer, at most \<open>CHANUSER_PER_LINE\<close>; the theorems show that the
  lines together name every member once and in order, and that a server which reads an NJOIN line gets
  the members and privileges it was written from.
\<close>

unbundle bit_operations_syntax

section \<open>Assembling a line\<close>

text \<open>\<open>strcpy(&b[i], t)\<close>.\<close>

definition strcpy_at :: "string \<Rightarrow> nat \<Rightarrow> string \<Rightarrow> string option" where
  "strcpy_at b i t = do { (b, j) \<leftarrow> store_all b i (cstr t); wr b j NUL }"

definition member_name :: "ircd \<Rightarrow> bool \<Rightarrow> chanuser \<Rightarrow> string option" where
  "member_name s uid cu = do {
     cl \<leftarrow> clients s (cu_client cu);
     if uid then do { u \<leftarrow> c_user cl; us \<leftarrow> users s u; Some (u_uid us) } else Some (c_name cl) }"

text \<open>One member, behind a blank when it is not the first. The line starts at \<open>q\<close>; \<open>plen\<close> is the
  length of the prefix to write.\<close>

definition put_member :: "chanuser \<Rightarrow> string \<Rightarrow> nat \<Rightarrow> nat \<Rightarrow> string \<Rightarrow> nat \<Rightarrow> (string \<times> nat) option" where
  "put_member cu name plen q b i = do {
     (b, i) \<leftarrow> (if i \<noteq> 0 then do { b \<leftarrow> wr b (q + i) (CHR '' ''); Some (b, i + 1) } else Some (b, i));
     (b, i) \<leftarrow> (if cu_flags cu \<noteq> 0 then
         (if plen = 1 then do {
            b \<leftarrow> wr b (q + i) (cur (cu_prefix cu));
            b \<leftarrow> strcpy_at b (q + (i + 1)) name;
            Some (b, i + 1) }
          else do {
            b \<leftarrow> strcpy_at b (q + i) (cu_prefix cu);
            b \<leftarrow> strcpy_at b (q + (i + plen)) name;
            Some (b, i + plen) })
       else do { b \<leftarrow> strcpy_at b (q + i) name; Some (b, i) });
     Some (b, i + length (cstr name)) }"

text \<open>The loop, with the members from the node on, the position and the count; it returns the buffer
  and the members that are left. \<open>fst_only\<close> is the flag \<open>of\<close>, which asks for one prefix character.\<close>

fun assemble_members :: "ircd \<Rightarrow> nat \<Rightarrow> bool \<Rightarrow> bool \<Rightarrow> nat \<Rightarrow> ptr list \<Rightarrow> string \<Rightarrow> nat \<Rightarrow> nat \<Rightarrow> (string \<times> ptr list) option" where
  "assemble_members s n fst_only uid q [] b i cnt = Some (b, [])"
| "assemble_members s n fst_only uid q (p # ps) b i cnt = do {
     cu \<leftarrow> chanusers s p;
     name \<leftarrow> member_name s uid cu;
     let plen = (if fst_only then 1 else length (cstr (cu_prefix cu)));
     let len = length (cstr name) + (if cu_flags cu \<noteq> 0 then plen else 0);
     if i + 2 + len > n then Some (b, p # ps)
     else do {
       (b, i) \<leftarrow> put_member cu name plen q b i;
       if cnt + 1 < CHANUSER_PER_LINE then assemble_members s n fst_only uid q ps b i (cnt + 1)
       else Some (b, ps) } }"

definition chanuser_assemble :: "ircd \<Rightarrow> string \<Rightarrow> nat \<Rightarrow> ptr list \<Rightarrow> nat \<Rightarrow> bool \<Rightarrow> bool \<Rightarrow> (string \<times> ptr list) option" where
  "chanuser_assemble s b q ps n fst_only uid = do {
     b \<leftarrow> wr b q NUL;
     if ps = [] then Some (b, []) else assemble_members s n fst_only uid q ps b 0 0 }"

section \<open>The lines of a list\<close>

text \<open>The loops that assemble and send until no member is left; a line that takes no member makes them
  run forever, which is \<open>None\<close>.\<close>

partial_function (option) member_lines ::
  "(string \<Rightarrow> outmsg) \<Rightarrow> ircd \<Rightarrow> nat \<Rightarrow> nat \<Rightarrow> bool \<Rightarrow> bool \<Rightarrow> string \<Rightarrow> ptr list \<Rightarrow> (ircd \<times> string) option" where
  "member_lines mk s q n fst_only uid b ps =
     (if ps = [] then Some (s, b)
      else Option.bind (chanuser_assemble s b q ps n fst_only uid) (\<lambda>(b, rest).
        member_lines mk (send (mk (cstr b)) s) q n fst_only uid b rest))"

definition line_buffer :: string where
  "line_buffer = replicate (IRCD_LINELEN - 1) NUL"

text \<open>\<open>eon\<close> tells whether the end of the names is announced: 1 always, 2 after names were sent.\<close>

definition chanuser_show :: "format_table \<Rightarrow> ircd \<Rightarrow> ptr \<Rightarrow> ptr \<Rightarrow> ptr option \<Rightarrow> nat \<Rightarrow> ircd option" where
  "chanuser_show ft s cptr k cuptr eon = do {
     (cptr, k) \<leftarrow> (case cuptr of None \<Rightarrow> Some (cptr, k)
       | Some p \<Rightarrow> do { cu \<leftarrow> chanusers s p; Some (cu_client cu, cu_channel cu) });
     ch \<leftarrow> channels s k;
     let secret = ch_modes ch AND chflg (CHR ''s'') \<noteq> 0;
     let list = (if \<not> (secret \<and> cuptr = None) then ch_chanusers ch else []);
     s \<leftarrow> (if list \<noteq> [] then do {
         f \<leftarrow> numeric_format 353;
         fmt \<leftarrow> f;
         me \<leftarrow> clients s (client_me s);
         cl \<leftarrow> clients s cptr;
         (b, len) \<leftarrow> str_snprintf ft line_buffer (IRCD_LINELEN - 1) fmt
           (map ArgStr [Some (c_name me), Some (c_name cl), Some (if secret then ''@'' else ''=''), Some (ch_name ch)]);
         (s, _) \<leftarrow> member_lines (\<lambda>line. Client_line cptr ''%s '' [Str line]) s len (IRCD_LINELEN - 1 - len) True False b list;
         Some s }
       else Some s);
     Some (if eon = 1 \<or> eon = 2 \<and> list \<noteq> [] then send (Numeric cptr 366 [Str (ch_name ch)]) s else s) }"

text \<open>NJOIN to all servers but \<open>lcptr\<close>; \<open>ps\<close> are the members from the node on.\<close>

definition chanuser_introduce :: "format_table \<Rightarrow> ircd \<Rightarrow> ptr option \<Rightarrow> ptr option \<Rightarrow> ptr list \<Rightarrow> ircd option" where
  "chanuser_introduce ft s lcptr cptr ps = (case ps of [] \<Rightarrow> Some s | p # _ \<Rightarrow> do {
     cu \<leftarrow> chanusers s p;
     ch \<leftarrow> channels s (cu_channel cu);
     (b, len) \<leftarrow> (if cptr = None \<or> cptr = Some (client_me s)
       then str_snprintf ft line_buffer (IRCD_LINELEN - 1) ''NJOIN %s %lu :'' [ArgStr (Some (ch_name ch)), Arg32 (ucast (ch_ts ch))]
       else do {
         cl \<leftarrow> clients s (the cptr);
         str_snprintf ft line_buffer (IRCD_LINELEN - 1) '':%s NJOIN %s %lu :''
           [ArgStr (Some (c_name cl)), ArgStr (Some (ch_name ch)), Arg32 (ucast (ch_ts ch))] });
     (s, b) \<leftarrow> member_lines (\<lambda>line. Server_line lcptr None CAP_UID CAP_NONE ''%s'' [Str line]) s
       len (IRCD_LINELEN - 1 - len - 1) False True b ps;
     (s, _) \<leftarrow> member_lines (\<lambda>line. Server_line lcptr None CAP_NONE CAP_UID ''%s'' [Str line]) s
       len (IRCD_LINELEN - 1 - len - 1) False False b ps;
     Some s })"

text \<open>NJOIN to one server. The result counts the prefix characters of the first member of each line.\<close>

partial_function (option) burst_lines ::
  "ircd \<Rightarrow> ptr \<Rightarrow> nat \<Rightarrow> nat \<Rightarrow> bool \<Rightarrow> string \<Rightarrow> ptr list \<Rightarrow> nat \<Rightarrow> (ircd \<times> nat) option" where
  "burst_lines s lcptr q n uid b ps ret =
     (case ps of [] \<Rightarrow> Some (s, ret)
      | p # _ \<Rightarrow> Option.bind (chanusers s p) (\<lambda>cu.
          Option.bind (chanuser_assemble s b q ps n False uid) (\<lambda>(b, rest).
            burst_lines (send (Lclient_line lcptr ''%s'' [Str (cstr b)]) s) lcptr q n uid b rest
              (ret + length (cstr (cu_prefix cu))))))"

definition chanuser_burst :: "format_table \<Rightarrow> ircd \<Rightarrow> ptr \<Rightarrow> ptr \<Rightarrow> (ircd \<times> nat) option" where
  "chanuser_burst ft s lcptr k = do {
     ch \<leftarrow> channels s k;
     l \<leftarrow> lclients s lcptr;
     (b, len) \<leftarrow> str_snprintf ft line_buffer (IRCD_LINELEN - 1) ''NJOIN %s %lu :'' [ArgStr (Some (ch_name ch)), Arg32 (ucast (ch_ts ch))];
     burst_lines s lcptr len (IRCD_LINELEN - 1 - len - 1) (l_caps l AND CAP_UID_BIT \<noteq> 0) b (ch_chanusers ch) 0 }"

text \<open>PART to all servers but \<open>lcptr\<close>.\<close>

definition chanuser_discharge :: "ircd \<Rightarrow> ptr option \<Rightarrow> ptr \<Rightarrow> string option \<Rightarrow> ircd option" where
  "chanuser_discharge s lcptr cuptr reason = do {
     cu \<leftarrow> chanusers s cuptr;
     cl \<leftarrow> clients s (cu_client cu);
     u \<leftarrow> c_user cl;
     us \<leftarrow> users s u;
     ch \<leftarrow> channels s (cu_channel cu);
     Some (case reason of
       Some r \<Rightarrow> send (Server_line lcptr None CAP_NONE CAP_UID '':%s PART %s :%s'' [Str (c_name cl), Str (ch_name ch), Str r])
         (send (Server_line lcptr None CAP_UID CAP_NONE '':%s PART %s :%s'' [Str (u_uid us), Str (ch_name ch), Str r]) s)
     | None \<Rightarrow> send (Server_line lcptr None CAP_NONE CAP_UID '':%s PART %s'' [Str (c_name cl), Str (ch_name ch)])
         (send (Server_line lcptr None CAP_UID CAP_NONE '':%s PART %s'' [Str (u_uid us), Str (ch_name ch)]) s)) }"

text \<open>JOIN to the members of the channel of the first block, for each member of the list.\<close>

definition chanuser_send_joins :: "ircd \<Rightarrow> ptr option \<Rightarrow> ptr list \<Rightarrow> ircd option" where
  "chanuser_send_joins s lcptr ps = (case ps of [] \<Rightarrow> Some s | p # _ \<Rightarrow> do {
     cu \<leftarrow> chanusers s p;
     let k = cu_channel cu;
     ch \<leftarrow> channels s k;
     for_each (\<lambda>s p. do {
       cu \<leftarrow> chanusers s p;
       let c = Client (cu_client cu);
       Some (send (Channel_line lcptr k '':%N!%U@%H JOIN %s'' [c, c, c, Str (ch_name ch)]) s) }) s ps })"

section \<open>Reading a line\<close>

text \<open>The name starts at the first character that a nick or a user id can hold; what stands in front is
  the prefix.\<close>

definition is_name_char :: "char \<Rightarrow> bool" where
  "is_name_char c \<longleftrightarrow> chars_isnickchar c \<or> chars_isuidchar c"

text \<open>A word of the line: the state, the new block if there is one, and the length of the prefix. \<open>a\<close>
  is the block that an allocation returns.\<close>

definition parse_member ::
  "(64 word \<Rightarrow> 64 word) \<Rightarrow> ircd \<Rightarrow> ptr \<Rightarrow> ptr \<Rightarrow> bool \<Rightarrow> ptr \<Rightarrow> string \<Rightarrow> (ircd \<times> ptr option \<times> nat) option" where
  "parse_member shl s lcptr k wp a w = (let
     usr = dropWhile (\<lambda>c. \<not> is_name_char c) w;
     pfx = (if usr = w then None else Some w);
     flags = (case pfx of Some t \<Rightarrow> if wp then chanmode_prefix_parse (modes_table s) t 0 else 0 | None \<Rightarrow> 0);
     m = (if pfx \<noteq> None then length w - length usr else 0) in do {
     l \<leftarrow> lclients s lcptr;
     found \<leftarrow> (if l_caps l AND CAP_UID_BIT \<noteq> 0 then client_find_uid shl s usr else client_find_nick shl s usr);
     (case found of
       None \<Rightarrow> Some (s, None, m)
     | Some acptr \<Rightarrow> do {
         cl \<leftarrow> clients s acptr;
         if client_is_local cl then Some (s, None, m)
         else do {
           member \<leftarrow> chanuser_find s k acptr;
           if member = None then do {
             s \<leftarrow> chanuser_new s a k acptr;
             cu \<leftarrow> chanusers s a;
             pfx \<leftarrow> (if flags \<noteq> 0 then map_option cstr (chanmode_prefix_make (modes_table s) (replicate 65 NUL) flags) else Some []);
             Some (put_chanuser a (cu\<lparr>cu_local := client_is_local cl, cu_flags := flags, cu_prefix := pfx\<rparr>) s, Some a, m) }
           else Some (s, None, m) } }) })"

fun parse_members ::
  "(64 word \<Rightarrow> 64 word) \<Rightarrow> (nat \<Rightarrow> ptr) \<Rightarrow> ptr \<Rightarrow> ptr \<Rightarrow> bool \<Rightarrow> ircd \<Rightarrow> string list \<Rightarrow> ptr list \<Rightarrow> nat \<Rightarrow> (ircd \<times> ptr list \<times> nat) option" where
  "parse_members shl fresh lcptr k wp s [] list modes = Some (s, list, modes)"
| "parse_members shl fresh lcptr k wp s (w # ws) list modes = do {
     (s, a, m) \<leftarrow> parse_member shl s lcptr k wp (fresh (length list)) w;
     parse_members shl fresh lcptr k wp s ws (case a of None \<Rightarrow> list | Some p \<Rightarrow> list @ [p]) (modes + m) }"

text \<open>\<open>v\<close> is what the stack held in \<open>uv\<close>.\<close>

definition chanuser_parse ::
  "(64 word \<Rightarrow> 64 word) \<Rightarrow> (nat \<Rightarrow> ptr) \<Rightarrow> pvec \<Rightarrow> ircd \<Rightarrow> ptr \<Rightarrow> ptr \<Rightarrow> string \<Rightarrow> bool \<Rightarrow> (ircd \<times> ptr list \<times> nat) option" where
  "chanuser_parse shl fresh v s lcptr k args wp = do {
     (b, v, n) \<leftarrow> str_tokenize (args @ [NUL]) v CHANUSER_PER_LINE;
     ws \<leftarrow> those (map (\<lambda>i. Option.bind (arg_at b v i) id) [0..<n]);
     parse_members shl fresh lcptr k wp s ws [] 0 }"

section \<open>Lines fit and hold all members\<close>

lemma strcpy_at_ok:
  assumes "holds b w" "no_nul t" "length w + length t < length b"
  shows "\<exists>b'. strcpy_at b (length w) t = Some b' \<and> holds b' (w @ t @ [NUL]) \<and> length b' = length b"
proof -
  obtain b1 where b1: "store_all b (length w) t = Some (b1, length (w @ t))" "holds b1 (w @ t)" "length b1 = length b"
    by (rule store_all_holds[OF assms(1)]) (use assms(3) in auto)
  have "wr b1 (length (w @ t)) NUL = Some (b1[length (w @ t) := NUL])" "holds (b1[length (w @ t) := NUL]) (w @ t @ [NUL])"
    using holds_wr[OF b1(2), of NUL] assms(3) b1(3) by simp_all
  then show ?thesis using b1 assms(2) by (simp add: strcpy_at_def)
qed

lemma holds_prefix: "holds b (w @ v) \<Longrightarrow> holds b w"
  unfolding holds_def by (metis append_eq_conv_conj length_append take_append take_take min.absorb1 le_add1)

text \<open>The text of a member, and when it can be written.\<close>

definition member_text :: "ircd \<Rightarrow> bool \<Rightarrow> bool \<Rightarrow> ptr \<Rightarrow> string" where
  "member_text s fst_only uid p = (case chanusers s p of None \<Rightarrow> [] | Some cu \<Rightarrow>
     (if cu_flags cu \<noteq> 0 then if fst_only then [cur (cu_prefix cu)] else cu_prefix cu else []) @ the (member_name s uid cu))"

definition showable :: "ircd \<Rightarrow> bool \<Rightarrow> bool \<Rightarrow> nat \<Rightarrow> ptr \<Rightarrow> bool" where
  "showable s fst_only uid n p \<longleftrightarrow> (\<exists>cu name. chanusers s p = Some cu \<and> member_name s uid cu = Some name \<and>
     no_nul name \<and> name \<noteq> [] \<and> no_nul (cu_prefix cu) \<and> (cu_flags cu \<noteq> 0 \<longrightarrow> cu_prefix cu \<noteq> []) \<and>
     length (member_text s fst_only uid p) + 2 \<le> n)"

lemma showable_text: "showable s f uid n p \<Longrightarrow> no_nul (member_text s f uid p) \<and> member_text s f uid p \<noteq> []"
  by (auto simp: showable_def member_text_def no_nul_def) (metis cur_simps(2) list.set_intros(1) neq_Nil_conv)

text \<open>The entry without the blank.\<close>

lemma put_entry_ok:
  assumes cu: "no_nul name" "no_nul (cu_prefix cu)" "cu_flags cu \<noteq> 0 \<longrightarrow> cu_prefix cu \<noteq> []"
    and plen: "plen = (if f then 1 else length (cu_prefix cu))"
    and m: "m = (if cu_flags cu \<noteq> 0 then if f then [cur (cu_prefix cu)] else cu_prefix cu else []) @ name"
    and b: "holds b w" "length w + length m < length b" and j: "q + i = length w"
  shows "\<exists>b'. (if cu_flags cu \<noteq> 0 then
         (if plen = 1 then do {
            b \<leftarrow> wr b (q + i) (cur (cu_prefix cu));
            b \<leftarrow> strcpy_at b (q + (i + 1)) name;
            Some (b, i + 1) }
          else do {
            b \<leftarrow> strcpy_at b (q + i) (cu_prefix cu);
            b \<leftarrow> strcpy_at b (q + (i + plen)) name;
            Some (b, i + plen) })
       else do { b \<leftarrow> strcpy_at b (q + i) name; Some (b, i) }) = Some (b', i + length m - length name) \<and>
     holds b' (w @ m @ [NUL]) \<and> length b' = length b"
proof (cases "cu_flags cu = 0")
  case True
  then have "m = name" using m by simp
  moreover obtain b' where "strcpy_at b (length w) name = Some b'" "holds b' (w @ name @ [NUL])" "length b' = length b"
    using strcpy_at_ok[OF b(1) cu(1)] b(2) calculation by blast
  ultimately show ?thesis unfolding j using True by (intro exI[of _ b']) simp
next
  case False
  note fl = this
  show ?thesis
  proof (cases "plen = 1")
    case True
    have p: "(if f then [cur (cu_prefix cu)] else cu_prefix cu) = [cur (cu_prefix cu)]"
    proof (cases f)
      case False
      then have "length (cu_prefix cu) = 1" using plen True by simp
      then show ?thesis using False by (cases "cu_prefix cu") simp_all
    qed simp
    have m': "m = [cur (cu_prefix cu)] @ name" using m[unfolded p] fl by simp
    have w: "wr b (length w) (cur (cu_prefix cu)) = Some (b[length w := cur (cu_prefix cu)])"
      "holds (b[length w := cur (cu_prefix cu)]) (w @ [cur (cu_prefix cu)])"
      using holds_wr[OF b(1)] b(2) by simp_all
    obtain b' where "strcpy_at (b[length w := cur (cu_prefix cu)]) (length (w @ [cur (cu_prefix cu)])) name = Some b'"
      "holds b' ((w @ [cur (cu_prefix cu)]) @ name @ [NUL])" "length b' = length b"
      using strcpy_at_ok[OF w(2) cu(1)] b(2) m' by auto
    moreover have "q + (i + 1) = length (w @ [cur (cu_prefix cu)])" using j by simp
    ultimately show ?thesis using fl True w(1) m' unfolding j by (intro exI[of _ b']) simp
  next
    case other: False
    have f: "\<not> f" using plen other by (cases f) simp_all
    then have pl: "plen = length (cu_prefix cu)" using plen by simp
    have m': "m = cu_prefix cu @ name" using m fl f by simp
    obtain b1 where b1: "strcpy_at b (length w) (cu_prefix cu) = Some b1" "holds b1 (w @ cu_prefix cu @ [NUL])" "length b1 = length b"
      using strcpy_at_ok[OF b(1) cu(2)] b(2) m' by auto
    have h: "holds b1 (w @ cu_prefix cu)" using b1(2) holds_prefix[of b1 "w @ cu_prefix cu" "[NUL]"] by simp
    obtain b' where "strcpy_at b1 (length (w @ cu_prefix cu)) name = Some b'"
      "holds b' ((w @ cu_prefix cu) @ name @ [NUL])" "length b' = length b1"
      using strcpy_at_ok[OF h cu(1)] b(2) m' b1(3) by auto
    moreover have e: "q + (i + plen) = length (w @ cu_prefix cu)" using j pl by simp
    moreover have "i + length m - length name = i + plen" using m' pl by simp
    ultimately show ?thesis using fl other b1(1,3) m' unfolding j e by (intro exI[of _ b']) (simp del: length_append)
  qed
qed

lemma put_member_ok:
  assumes ok: "showable s f uid n p" and cu: "chanusers s p = Some cu" "member_name s uid cu = Some name"
    and plen: "plen = (if f then 1 else length (cu_prefix cu))"
    and b: "holds b (h @ t)" "length (h @ t) + length (member_text s f uid p) + 1 < length b"
    and t': "t' = (if t = [] then member_text s f uid p else t @ CHR '' '' # member_text s f uid p)"
  shows "\<exists>b'. put_member cu name plen (length h) b (length t) = Some (b', length t') \<and>
    holds b' (h @ t' @ [NUL]) \<and> length b' = length b"
proof -
  let ?m = "member_text s f uid p"
  have c: "no_nul name" "no_nul (cu_prefix cu)" "cu_flags cu \<noteq> 0 \<longrightarrow> cu_prefix cu \<noteq> []"
    using ok cu by (auto simp: showable_def)
  have m: "?m = (if cu_flags cu \<noteq> 0 then if f then [cur (cu_prefix cu)] else cu_prefix cu else []) @ name"
    by (simp add: member_text_def cu)
  then have ml: "length ?m - length name + length name = length ?m" by simp
  let ?w = "if t = [] then [] else t @ '' ''"
  have tw: "t' = ?w @ ?m" using t' by simp
  obtain b1 where b1: "(if length t \<noteq> 0 then do { b \<leftarrow> wr b (length h + length t) (CHR '' ''); Some (b, length t + 1) }
      else Some (b, length t)) = Some (b1, length ?w)" "holds b1 (h @ ?w)" "length b1 = length b"
  proof (cases "t = []")
    case True
    then show thesis using that[of b] b(1) by simp
  next
    case False
    have "wr b (length (h @ t)) (CHR '' '') = Some (b[length (h @ t) := CHR '' ''])"
      "holds (b[length (h @ t) := CHR '' '']) ((h @ t) @ '' '')"
      using holds_wr[OF b(1), of "CHR '' ''"] b(2) by auto
    then show thesis using that[of "b[length (h @ t) := CHR '' '']"] False by simp
  qed
  have lb: "length (h @ ?w) + length ?m < length b1" using b(2) b1(3) by simp
  from put_entry_ok[OF c plen m b1(2) lb, of "length h" "length ?w"]
  obtain b' where b': "(if cu_flags cu \<noteq> 0 then
         (if plen = 1 then do {
            b \<leftarrow> wr b1 (length h + length ?w) (cur (cu_prefix cu));
            b \<leftarrow> strcpy_at b (length h + (length ?w + 1)) name;
            Some (b, length ?w + 1) }
          else do {
            b \<leftarrow> strcpy_at b1 (length h + length ?w) (cu_prefix cu);
            b \<leftarrow> strcpy_at b (length h + (length ?w + plen)) name;
            Some (b, length ?w + plen) })
       else do { b \<leftarrow> strcpy_at b1 (length h + length ?w) name; Some (b, length ?w) }) = Some (b', length ?w + length ?m - length name)"
    "holds b' ((h @ ?w) @ ?m @ [NUL])" "length b' = length b1"
    by auto
  have "put_member cu name plen (length h) b (length t) = Some (b', length ?w + length ?m - length name + length (cstr name))"
    unfolding put_member_def b1(1) by (simp only: bind.bind_lunit prod.case b'(1))
  moreover have "length ?w + length ?m - length name + length (cstr name) = length t'"
    using c(1) ml m by (simp add: tw)
  ultimately show ?thesis using b'(2,3) b1(3) by (simp add: tw)
qed

definition entries :: "ircd \<Rightarrow> bool \<Rightarrow> bool \<Rightarrow> ptr list \<Rightarrow> string" where
  "entries s f uid ps = join (CHR '' '') (map (member_text s f uid) ps)"

lemma entries_snoc:
  assumes "\<forall>p \<in> set xs. member_text s f uid p \<noteq> []"
  shows "entries s f uid (xs @ [p]) = (if entries s f uid xs = [] then member_text s f uid p
    else entries s f uid xs @ CHR '' '' # member_text s f uid p)"
proof (cases "xs = []")
  case True
  then show ?thesis by (simp add: entries_def)
next
  case False
  have "[] \<notin> set (map (member_text s f uid) xs)" using assms by auto
  then have "entries s f uid xs \<noteq> []" using False by (simp add: entries_def join_Nil_iff)
  then show ?thesis using False by (simp add: entries_def join_snoc)
qed

lemma no_nul_entries: "\<forall>p \<in> set xs. showable s f uid n p \<Longrightarrow> no_nul (entries s f uid xs)"
  unfolding entries_def by (intro no_nul_join) (auto dest: showable_text)

lemma assemble_members_step:
  assumes "chanusers s p = Some cu" "member_name s uid cu = Some name" "no_nul name" "no_nul (cu_prefix cu)"
  shows "assemble_members s n f uid q (p # ps) b i cnt = (if i + 2 + length (member_text s f uid p) > n then Some (b, p # ps)
    else Option.bind (put_member cu name (if f then 1 else length (cu_prefix cu)) q b i) (\<lambda>(b, i).
      if cnt + 1 < CHANUSER_PER_LINE then assemble_members s n f uid q ps b i (cnt + 1) else Some (b, ps)))"
proof -
  have "length (member_text s f uid p) = length name + (if cu_flags cu \<noteq> 0 then if f then 1 else length (cu_prefix cu) else 0)"
    using assms by (simp add: member_text_def)
  then show ?thesis using assms by (simp only: assemble_members.simps bind.bind_lunit Let_def cstr_no_nul)
qed

declare assemble_members.simps(2) [simp del]

lemma assemble_members_ok:
  assumes "holds b (h @ entries s f uid xs @ [NUL])" "\<forall>p \<in> set xs. showable s f uid n p" "\<forall>p \<in> set ps. showable s f uid n p"
    "length xs < CHANUSER_PER_LINE" "length h + n \<le> length b"
  shows "\<exists>pre rest b'. assemble_members s n f uid (length h) ps b (length (entries s f uid xs)) (length xs) = Some (b', rest) \<and>
    ps = pre @ rest \<and> holds b' (h @ entries s f uid (xs @ pre) @ [NUL]) \<and> length (xs @ pre) \<le> CHANUSER_PER_LINE \<and>
    length b' = length b \<and> (xs = [] \<and> ps \<noteq> [] \<longrightarrow> pre \<noteq> [])"
  using assms
proof (induction ps arbitrary: xs b)
  case Nil
  then show ?case by (intro exI[of _ "[]"] exI[of _ b]) simp
next
  case (Cons p ps)
  have p: "showable s f uid n p" using Cons.prems(3) by simp
  then obtain cu name where cu: "chanusers s p = Some cu" "member_name s uid cu = Some name" "no_nul name" "no_nul (cu_prefix cu)"
    and l: "length (member_text s f uid p) + 2 \<le> n" and pn: "cu_flags cu \<noteq> 0 \<longrightarrow> cu_prefix cu \<noteq> []"
    by (auto simp: showable_def)
  let ?t = "entries s f uid xs" and ?m = "member_text s f uid p"
  define plen where "plen = (if f then 1 else length (cu_prefix cu))"
  have b0: "holds b (h @ ?t)" using holds_prefix[of b "h @ ?t" "[NUL]"] Cons.prems(1) by simp
  show ?case
  proof (cases "length ?t + 2 + length ?m > n")
    case True
    then have "xs \<noteq> []" using l by (auto simp: entries_def)
    moreover have "assemble_members s n f uid (length h) (p # ps) b (length ?t) (length xs) = Some (b, p # ps)"
      using True by (simp only: assemble_members_step[OF cu] if_True)
    ultimately show ?thesis using Cons.prems
      by (intro exI[of _ "[]"] exI[of _ "p # ps"] exI[of _ b]) (simp del: assemble_members.simps)
  next
    case False
    have lb: "length (h @ ?t) + length ?m + 1 < length b" using False Cons.prems(5) by simp
    have snoc: "entries s f uid (xs @ [p]) = (if ?t = [] then ?m else ?t @ CHR '' '' # ?m)"
      by (rule entries_snoc) (use Cons.prems(2) showable_text in blast)
    from put_member_ok[OF p cu(1,2) plen_def b0 lb snoc] obtain b' where
      b': "put_member cu name plen (length h) b (length ?t) = Some (b', length (entries s f uid (xs @ [p])))"
      "holds b' (h @ entries s f uid (xs @ [p]) @ [NUL])" "length b' = length b" by blast
    have step: "assemble_members s n f uid (length h) (p # ps) b (length ?t) (length xs) =
      (if length (xs @ [p]) < CHANUSER_PER_LINE
       then assemble_members s n f uid (length h) ps b' (length (entries s f uid (xs @ [p]))) (length (xs @ [p])) else Some (b', ps))"
      using False b'(1) by (simp add: assemble_members_step[OF cu] plen_def)
    show ?thesis
    proof (cases "length (xs @ [p]) < CHANUSER_PER_LINE")
      case True
      have "\<exists>pre rest b''. assemble_members s n f uid (length h) ps b' (length (entries s f uid (xs @ [p]))) (length (xs @ [p])) = Some (b'', rest) \<and>
        ps = pre @ rest \<and> holds b'' (h @ entries s f uid ((xs @ [p]) @ pre) @ [NUL]) \<and> length ((xs @ [p]) @ pre) \<le> CHANUSER_PER_LINE \<and>
        length b'' = length b' \<and> (xs @ [p] = [] \<and> ps \<noteq> [] \<longrightarrow> pre \<noteq> [])"
        by (rule Cons.IH[OF b'(2)]) (use Cons.prems True b'(3) in auto)
      then obtain pre rest b'' where "assemble_members s n f uid (length h) ps b' (length (entries s f uid (xs @ [p]))) (length (xs @ [p])) = Some (b'', rest)"
        "ps = pre @ rest" "holds b'' (h @ entries s f uid ((xs @ [p]) @ pre) @ [NUL])" "length ((xs @ [p]) @ pre) \<le> CHANUSER_PER_LINE"
        "length b'' = length b'" by blast
      then show ?thesis using step True b'(3) by (intro exI[of _ "p # pre"] exI[of _ rest] exI[of _ b'']) simp
    next
      case False
      then show ?thesis using step b' Cons.prems(4) by (intro exI[of _ "[p]"] exI[of _ ps] exI[of _ b']) simp
    qed
  qed
qed

text \<open>A line, and the lines of a list.\<close>

lemma chanuser_assemble_ok:
  assumes "holds b h" "no_nul h" "\<forall>p \<in> set ps. showable s f uid n p" "length h + n \<le> length b" "ps \<noteq> []" "0 < n"
  shows "\<exists>pre rest b'. chanuser_assemble s b (length h) ps n f uid = Some (b', rest) \<and> ps = pre @ rest \<and> pre \<noteq> [] \<and>
    length pre \<le> CHANUSER_PER_LINE \<and> cstr b' = h @ entries s f uid pre \<and> holds b' h \<and> length b' = length b"
proof -
  have w: "wr b (length h) NUL = Some (b[length h := NUL])" "holds (b[length h := NUL]) (h @ [NUL])"
    using holds_wr[OF assms(1), of NUL] assms(4,6) by simp_all
  have "\<exists>pre rest b'. assemble_members s n f uid (length h) ps (b[length h := NUL]) (length (entries s f uid [])) (length ([] :: ptr list)) = Some (b', rest) \<and>
    ps = pre @ rest \<and> holds b' (h @ entries s f uid ([] @ pre) @ [NUL]) \<and> length ([] @ pre) \<le> CHANUSER_PER_LINE \<and>
    length b' = length (b[length h := NUL]) \<and> (([] :: ptr list) = [] \<and> ps \<noteq> [] \<longrightarrow> pre \<noteq> [])"
    by (rule assemble_members_ok) (use w assms in \<open>simp_all add: entries_def CHANUSER_PER_LINE_def\<close>)
  then obtain pre rest b' where r: "assemble_members s n f uid (length h) ps (b[length h := NUL]) 0 0 = Some (b', rest)"
    "ps = pre @ rest" "holds b' (h @ entries s f uid pre @ [NUL])" "length pre \<le> CHANUSER_PER_LINE" "length b' = length b" "pre \<noteq> []"
    using assms(5) by (auto simp: entries_def)
  obtain u where "b' = (h @ entries s f uid pre @ [NUL]) @ u" using r(3) by (rule holdsE)
  moreover have "no_nul (h @ entries s f uid pre)"
    using assms(2,3) r(2) by (auto intro!: no_nul_entries[where n = n])
  ultimately have "cstr b' = h @ entries s f uid pre" "holds b' h"
    using cstr_append_NUL[of "h @ entries s f uid pre" u] by simp_all
  then show ?thesis using w(1) r assms(5) by (auto simp: chanuser_assemble_def)
qed

lemma member_text_send [simp]: "member_text (send x s) = member_text s"
proof -
  have "member_name (send x s) = member_name s" by (simp add: member_name_def fun_eq_iff cong: if_cong)
  then show ?thesis by (simp add: member_text_def fun_eq_iff split: option.split)
qed

lemma showable_send [simp]: "showable (send x s) f uid n p = showable s f uid n p"
proof -
  have "member_name (send x s) = member_name s" by (simp add: member_name_def fun_eq_iff cong: if_cong)
  then show ?thesis by (simp add: showable_def)
qed

definition send_entries :: "(string \<Rightarrow> outmsg) \<Rightarrow> string \<Rightarrow> bool \<Rightarrow> bool \<Rightarrow> ptr list list \<Rightarrow> ircd \<Rightarrow> ircd" where
  "send_entries mk h f uid pss s = fold (\<lambda>ps. send (mk (h @ entries s f uid ps))) pss s"

lemma send_entries_Cons:
  "send_entries mk h f uid (ps # pss) s = send_entries mk h f uid pss (send (mk (h @ entries s f uid ps)) s)"
  by (simp add: send_entries_def entries_def)

lemma member_lines_ok:
  assumes "holds b h" "no_nul h" "\<forall>p \<in> set ps. showable s f uid n p" "length h + n \<le> length b" "0 < n"
  shows "\<exists>pss b'. member_lines mk s (length h) n f uid b ps = Some (send_entries mk h f uid pss s, b') \<and>
    chunks_of CHANUSER_PER_LINE ps pss \<and> holds b' h \<and> length b' = length b"
  using assms
proof (induction "length ps" arbitrary: ps s b rule: less_induct)
  case less
  show ?case
  proof (cases "ps = []")
    case True
    then show ?thesis using less.prems
      by (intro exI[of _ "[]"] exI[of _ b]) (simp add: member_lines.simps send_entries_def chunks_of_def)
  next
    case False
    obtain pre rest b' where r: "chanuser_assemble s b (length h) ps n f uid = Some (b', rest)" "ps = pre @ rest" "pre \<noteq> []"
      "length pre \<le> CHANUSER_PER_LINE" "cstr b' = h @ entries s f uid pre" "holds b' h" "length b' = length b"
      using chanuser_assemble_ok[OF less.prems(1-4) False less.prems(5)] by blast
    let ?t = "send (mk (h @ entries s f uid pre)) s"
    have "\<exists>pss b''. member_lines mk ?t (length h) n f uid b' rest = Some (send_entries mk h f uid pss ?t, b'') \<and>
        chunks_of CHANUSER_PER_LINE rest pss \<and> holds b'' h \<and> length b'' = length b'"
      using less.prems r by (intro less.hyps) auto
    then obtain pss b'' where x: "member_lines mk ?t (length h) n f uid b' rest = Some (send_entries mk h f uid pss ?t, b'')"
      "chunks_of CHANUSER_PER_LINE rest pss" "holds b'' h" "length b'' = length b'" by blast
    have "member_lines mk s (length h) n f uid b ps = Some (send_entries mk h f uid (pre # pss) s, b'')"
      by (subst member_lines.simps) (simp add: False r(1,5) x(1) send_entries_Cons)
    moreover have "chunks_of CHANUSER_PER_LINE ps (pre # pss)" using x(2) r(2-4) by (simp add: chunks_of_def)
    ultimately show ?thesis using x(3,4) r(7) by (intro exI[of _ "pre # pss"] exI[of _ b'']) simp
  qed
qed

section \<open>The reply to NAMES\<close>

lemma showable_mono: "showable s f uid n p \<Longrightarrow> n \<le> m \<Longrightarrow> showable s f uid m p"
  unfolding showable_def by fastforce

lemma line_buffer_length: "length line_buffer = 2047" "IRCD_LINELEN - 1 = 2047"
  by (simp_all add: line_buffer_def IRCD_LINELEN_def)

text \<open>A line head written by \<open>str_snprintf\<close>.\<close>

lemma head_ok:
  assumes "fmt = concat (map render qs)" "args = concat (map piece_arg qs)" "\<forall>q \<in> set qs. piece_ok q"
    "h = concat (map meaning qs)" "length h \<le> 1000"
  shows "\<exists>b. str_snprintf ft line_buffer (IRCD_LINELEN - 1) fmt args = Some (b, length h) \<and> holds b h \<and> length b = 2047"
proof -
  have "h = take (2047 - 1) (concat (map meaning qs))" using assms(4,5) by simp
  from snprintf_text[OF assms(1,2,3) _ _ this, of line_buffer ft]
  have "str_snprintf ft line_buffer 2047 fmt args = Some (h @ NUL # drop (Suc (length h)) line_buffer, length h)"
    by (simp add: line_buffer_length)
  then show ?thesis unfolding line_buffer_length(2) using assms(5) by (simp add: line_buffer_length(1) holds_def)
qed

definition names_head :: "string \<Rightarrow> string \<Rightarrow> bool \<Rightarrow> string \<Rightarrow> string" where
  "names_head me nick secret name = '':'' @ me @ '' 353 '' @ nick @ '' '' @ (if secret then ''@'' else ''='') @ '' '' @ name @ '' :''"

lemma names_head_ok:
  assumes "text_ok IRCD_HOSTLEN me" "text_ok IRCD_HOSTLEN nick" "text_ok IRCD_CHANNELLEN name"
  shows "\<exists>b. str_snprintf ft line_buffer (IRCD_LINELEN - 1) '':%s 353 %s %s %s :''
      (map ArgStr [Some me, Some nick, Some (if secret then ''@'' else ''=''), Some name]) = Some (b, length (names_head me nick secret name)) \<and>
    holds b (names_head me nick secret name) \<and> length b = 2047"
    and "no_nul (names_head me nick secret name)" "length (names_head me nick secret name) \<le> 300"
proof -
  let ?qs = "[PLit (CHR '':''), pstr me, PLit (CHR '' ''), PLit (CHR ''3''), PLit (CHR ''5''), PLit (CHR ''3''), PLit (CHR '' ''),
    pstr nick, PLit (CHR '' ''), pstr (if secret then ''@'' else ''=''), PLit (CHR '' ''), pstr name, PLit (CHR '' ''), PLit (CHR '':'')]"
  show l: "length (names_head me nick secret name) \<le> 300"
    using assms by (simp add: names_head_def text_ok_def ircd_sizes)
  show "no_nul (names_head me nick secret name)" using assms by (simp add: names_head_def text_ok_def)
  have m: "names_head me nick secret name = concat (map meaning ?qs)"
    using assms by (simp add: names_head_def text_ok_def aligned_def)
  show "\<exists>b. str_snprintf ft line_buffer (IRCD_LINELEN - 1) '':%s 353 %s %s %s :''
      (map ArgStr [Some me, Some nick, Some (if secret then ''@'' else ''=''), Some name]) = Some (b, length (names_head me nick secret name)) \<and>
    holds b (names_head me nick secret name) \<and> length b = 2047"
    by (rule head_ok[OF _ _ _ m]) (use l in \<open>simp_all add: flags_def\<close>)
qed

lemma namreply_format: "numeric_format 353 = Some (Some '':%s 353 %s %s %s :'')"
proof -
  have "numeric_text 353 = Some ''%s %s :''"
    unfolding numeric_text_def numeric_replies_def by simp
  moreover have "numeric_digits 353 = ''353''" by code_simp
  ultimately show ?thesis using numeric_format_text[of 353 "''%s %s :''"] by simp
qed

definition sees :: "channel \<Rightarrow> ptr option \<Rightarrow> ptr list" where
  "sees ch cuptr = (if ch_modes ch AND chflg (CHR ''s'') \<noteq> 0 \<and> cuptr = None then [] else ch_chanusers ch)"

lemma show_lines:
  assumes "channels s k = Some ch" "clients s cptr = Some cl" "clients s (client_me s) = Some me"
    "text_ok IRCD_HOSTLEN (c_name me)" "text_ok IRCD_HOSTLEN (c_name cl)" "text_ok IRCD_CHANNELLEN (ch_name ch)"
    "\<forall>p. cuptr = Some p \<longrightarrow> (\<exists>cu. chanusers s p = Some cu \<and> cu_client cu = cptr \<and> cu_channel cu = k)"
    "\<forall>p \<in> set (ch_chanusers ch). showable s True False 1000 p"
  shows "\<exists>pss. chunks_of CHANUSER_PER_LINE (sees ch cuptr) pss \<and>
    chanuser_show ft s cptr k cuptr eon = Some (
      (if eon = 1 \<or> eon = 2 \<and> sees ch cuptr \<noteq> [] then send (Numeric cptr 366 [Str (ch_name ch)]) else id)
        (send_entries (\<lambda>line. Client_line cptr ''%s '' [Str line])
          (names_head (c_name me) (c_name cl) (ch_modes ch AND chflg (CHR ''s'') \<noteq> 0) (ch_name ch)) True False pss s))"
proof -
  let ?secret = "ch_modes ch AND chflg (CHR ''s'') \<noteq> 0"
  let ?h = "names_head (c_name me) (c_name cl) ?secret (ch_name ch)"
  let ?mk = "\<lambda>line. Client_line cptr ''%s '' [Str line]"
  have who: "(case cuptr of None \<Rightarrow> Some (cptr, k)
       | Some p \<Rightarrow> do { cu \<leftarrow> chanusers s p; Some (cu_client cu, cu_channel cu) }) = Some (cptr, k)"
    using assms(7) by (auto split: option.split)
  have vis: "(if \<not> (?secret \<and> cuptr = None) then ch_chanusers ch else []) = sees ch cuptr"
    by (simp add: sees_def)
  show ?thesis
  proof (cases "sees ch cuptr = []")
    case True
    then have "chanuser_show ft s cptr k cuptr eon = Some (if eon = 1 then send (Numeric cptr 366 [Str (ch_name ch)]) s else s)"
      unfolding chanuser_show_def who bind.bind_lunit prod.case assms(1) Let_def vis by simp
    then show ?thesis using True
      by (intro exI[of _ "[]"]) (simp add: chunks_of_def send_entries_def)
  next
    case False
    obtain b where b: "str_snprintf ft line_buffer (IRCD_LINELEN - 1) '':%s 353 %s %s %s :''
        (map ArgStr [Some (c_name me), Some (c_name cl), Some (if ?secret then ''@'' else ''=''), Some (ch_name ch)]) = Some (b, length ?h)"
      "holds b ?h" "length b = 2047"
      using names_head_ok(1)[OF assms(4,5,6), of ft ?secret] by blast
    note nn = names_head_ok(2,3)[OF assms(4,5,6), of ?secret]
    have all: "\<forall>p \<in> set (sees ch cuptr). showable s True False (IRCD_LINELEN - 1 - length ?h) p"
    proof
      fix p assume "p \<in> set (sees ch cuptr)"
      then have "showable s True False 1000 p" using assms(8) by (auto simp: sees_def split: if_splits)
      moreover have "1000 \<le> IRCD_LINELEN - 1 - length ?h" using nn(2) unfolding line_buffer_length by linarith
      ultimately show "showable s True False (IRCD_LINELEN - 1 - length ?h) p" by (rule showable_mono)
    qed
    have room: "length ?h + (IRCD_LINELEN - 1 - length ?h) \<le> length b" "0 < IRCD_LINELEN - 1 - length ?h"
      using b(3) nn(2) unfolding line_buffer_length by linarith+
    from member_lines_ok[OF b(2) nn(1) all room, of ?mk] obtain pss b' where
      p: "member_lines ?mk s (length ?h) (IRCD_LINELEN - 1 - length ?h) True False b (sees ch cuptr) = Some (send_entries ?mk ?h True False pss s, b')"
      "chunks_of CHANUSER_PER_LINE (sees ch cuptr) pss" by blast
    have "chanuser_show ft s cptr k cuptr eon = Some ((if eon = 1 \<or> eon = 2 \<and> sees ch cuptr \<noteq> [] then send (Numeric cptr 366 [Str (ch_name ch)]) else id)
        (send_entries ?mk ?h True False pss s))"
      unfolding chanuser_show_def who bind.bind_lunit prod.case assms(1) Let_def vis
      using False namreply_format assms(2,3) b(1) p(1) by simp
    then show ?thesis using p(2) by blast
  qed
qed

text \<open>C23. The reply to NAMES ends, and names the members of the channel once each and in the order of
  the member list, in lines of at most 32 members that fit the buffer, with the first character of
  the prefix in front of every privileged member. Who is not a member of a secret channel is shown
  nobody. The end of the names is told when it is asked for, or when there were names.\<close>

theorem names_complete:
  assumes "channels s k = Some ch" "clients s cptr = Some cl" "clients s (client_me s) = Some me"
    "text_ok IRCD_HOSTLEN (c_name me)" "text_ok IRCD_HOSTLEN (c_name cl)" "text_ok IRCD_CHANNELLEN (ch_name ch)"
    "\<forall>p. cuptr = Some p \<longrightarrow> (\<exists>cu. chanusers s p = Some cu \<and> cu_client cu = cptr \<and> cu_channel cu = k)"
    "\<forall>p \<in> set (ch_chanusers ch). showable s True False 1000 p"
  shows "\<exists>pss. chunks_of CHANUSER_PER_LINE (sees ch cuptr) pss \<and>
    chanuser_show ft s cptr k cuptr eon = Some (
      (if eon = 1 \<or> eon = 2 \<and> sees ch cuptr \<noteq> [] then send (Numeric cptr 366 [Str (ch_name ch)]) else id)
        (send_entries (\<lambda>line. Client_line cptr ''%s '' [Str line])
          (names_head (c_name me) (c_name cl) (ch_modes ch AND chflg (CHR ''s'') \<noteq> 0) (ch_name ch)) True False pss s))"
  by (rule show_lines[OF assms])

text \<open>A room with an operator and a member, on a server with a name.\<close>

definition names_room :: ircd where
  "names_room = op_room\<lparr>clients := [9 \<mapsto> (a_client CLIENT_LOCAL 22 ''irc.example.org'')\<lparr>c_type := CLIENT_SERVER\<rparr>,
       10 \<mapsto> a_client CLIENT_LOCAL 20 ''alice'', 11 \<mapsto> a_client CLIENT_REMOTE 21 ''bob''],
     chanusers := [2 \<mapsto> (a_member 10 True (chflg (CHR ''o'')))\<lparr>cu_prefix := ''@''\<rparr>, 3 \<mapsto> a_member 11 False 0],
     modes_table := ohv_table, client_me := 9\<rparr>"

lemma names_room_facts:
  "clients names_room 9 = Some ((a_client CLIENT_LOCAL 22 ''irc.example.org'')\<lparr>c_type := CLIENT_SERVER\<rparr>)"
  "clients names_room 10 = Some (a_client CLIENT_LOCAL 20 ''alice'')"
  "clients names_room 11 = Some (a_client CLIENT_REMOTE 21 ''bob'')"
  "chanusers names_room 2 = Some ((a_member 10 True (chflg (CHR ''o'')))\<lparr>cu_prefix := ''@''\<rparr>)"
  "chanusers names_room 3 = Some (a_member 11 False 0)"
  "channels names_room 1 = Some op_channel" "client_me names_room = 9" "modes_table names_room = ohv_table"
  by (simp_all add: names_room_def op_room_def)

theorem names_complete_witness:
  "\<exists>pss. chunks_of CHANUSER_PER_LINE [2, 3] pss \<and>
    chanuser_show str_init names_room 10 1 (Some 2) 1 = Some (send (Numeric 10 366 [Str ''#a''])
        (send_entries (\<lambda>line. Client_line 10 ''%s '' [Str line]) (names_head ''irc.example.org'' ''alice'' False ''#a'') True False pss names_room))"
proof -
  note f = names_room_facts
  have sh: "\<forall>p \<in> set (ch_chanusers op_channel). showable names_room True False 1000 p"
    by (simp add: op_channel_def showable_def member_text_def member_name_def f a_member_def a_client_def no_nul_def chflg_def)
  have t: "text_ok IRCD_HOSTLEN (c_name ((a_client CLIENT_LOCAL 22 ''irc.example.org'')\<lparr>c_type := CLIENT_SERVER\<rparr>))"
    "text_ok IRCD_HOSTLEN (c_name (a_client CLIENT_LOCAL 20 ''alice''))" "text_ok IRCD_CHANNELLEN (ch_name op_channel)"
    by (simp_all add: text_ok_def a_client_def op_channel_def ircd_sizes)
  have see: "sees op_channel (Some 2) = [2, 3]" "ch_modes op_channel AND chflg (CHR ''s'') = 0"
    "ch_name op_channel = ''#a''"
    by (simp_all add: sees_def op_channel_def channel_zero_def)
  show ?thesis
    using names_complete[OF f(6) f(2) _ t _ sh, of "Some 2" str_init 1] f
    by (simp add: see a_member_def a_client_def)
qed

section \<open>Reading NJOIN\<close>

text \<open>What the reading server needs of the member that a word names: the word is the prefixes of
  privileges in front of a name, and the name finds a remote client that is not yet a member.\<close>

definition names_client :: "(64 word \<Rightarrow> 64 word) \<Rightarrow> ircd \<Rightarrow> ptr \<Rightarrow> ptr \<Rightarrow> string \<Rightarrow> ptr \<Rightarrow> bool" where
  "names_client shl t lcptr k name a \<longleftrightarrow> (\<exists>l cl. lclients t lcptr = Some l \<and>
     (if l_caps l AND CAP_UID_BIT \<noteq> 0 then client_find_uid shl t name else client_find_nick shl t name) = Some (Some a) \<and>
     clients t a = Some cl \<and> \<not> client_is_local cl \<and> chanuser_find t k a = Some None)"

definition prefix_of :: "chanmode list \<Rightarrow> 64 word \<Rightarrow> string" where
  "prefix_of tab fl = map m_prefix (privileges tab fl (- 1))"

text \<open>The prefixes of privileges can be told from names.\<close>

definition prefixes_apart :: "chanmode list \<Rightarrow> bool" where
  "prefixes_apart tab \<longleftrightarrow> privileges_ok tab \<and> (\<forall>m \<in> set tab. is_privilege m \<longrightarrow> \<not> is_name_char (m_prefix m) \<and> \<not> is_ws (m_prefix m))"

lemma prefix_of_chars:
  assumes "prefixes_apart tab" "c \<in> set (prefix_of tab fl)"
  shows "\<not> is_name_char c" "\<not> is_ws c" "c \<noteq> CHR '':''" "c \<noteq> NUL"
proof -
  have ok: "privileges_ok tab" using assms(1) by (simp add: prefixes_apart_def)
  then have len: "length tab = 64" by (simp add: privileges_ok_def table_ok_def)
  obtain i where i: "i < 64" "is_privilege (tab ! i)" "c = m_prefix (tab ! i)"
    using assms(2) unfolding prefix_of_def privileges_set[OF ok] set_map by blast
  then have "tab ! i \<in> set tab" using len by simp
  then show "\<not> is_name_char c" "\<not> is_ws c" using assms(1) i by (auto simp: prefixes_apart_def)
  have "\<forall>i < 64. is_privilege (tab ! i) \<longrightarrow> m_prefix (tab ! i) \<noteq> NUL \<and> m_prefix (tab ! i) \<noteq> CHR '':''"
    using ok unfolding privileges_ok_def by simp
  then show "c \<noteq> CHR '':''" "c \<noteq> NUL" using i by simp_all
qed

lemma stops_at_name:
  assumes "prefixes_apart tab" "name \<noteq> []" "is_name_char (hd name)"
  shows "stops_prefix tab name"
proof -
  have "prefix_flag ms c = None" if "\<forall>m \<in> set ms. is_privilege m \<longrightarrow> m_prefix m \<noteq> c" for ms c
    using that by (induction ms) (auto simp: is_privilege_def)
  moreover have "\<forall>m \<in> set tab. is_privilege m \<longrightarrow> m_prefix m \<noteq> hd name"
    using assms by (auto simp: prefixes_apart_def)
  ultimately show ?thesis by (simp add: stops_prefix_def)
qed

text \<open>The flags that a prefix gives back.\<close>

definition privileges_only :: "chanmode list \<Rightarrow> 64 word \<Rightarrow> bool" where
  "privileges_only tab fl \<longleftrightarrow> (\<forall>k. bit fl k \<longrightarrow> k < 64 \<and> is_privilege (tab ! k))"

lemma prefix_flags:
  assumes "prefixes_apart tab" "name \<noteq> []" "is_name_char (hd name)" "privileges_only tab fl"
  shows "chanmode_prefix_parse tab (prefix_of tab fl @ name) 0 = fl"
proof (rule bit_eqI)
  fix k
  show "bit (chanmode_prefix_parse tab (prefix_of tab fl @ name) 0) k \<longleftrightarrow> bit fl k"
    unfolding prefix_of_def using prefix_parse_bits[OF _ stops_at_name[OF assms(1-3)], of fl k] assms(1,4)
    by (auto simp: prefixes_apart_def privileges_only_def)
qed

lemma prefix_of_Nil:
  assumes "prefixes_apart tab" "privileges_only tab fl" "prefix_of tab fl = []"
  shows "fl = 0"
proof (rule bit_eqI)
  fix k
  have "privileges tab fl (- 1) = []" using assms(3) by (simp add: prefix_of_def)
  then have "\<not> bit fl k"
    using assms(1,2) privileges_set[of tab fl] unfolding prefixes_apart_def privileges_only_def by fastforce
  then show "bit fl k \<longleftrightarrow> bit 0 k" by simp
qed

text \<open>One word.\<close>

definition member_block_of :: "ircd \<Rightarrow> ptr \<Rightarrow> ptr \<Rightarrow> 64 word \<Rightarrow> chanuser" where
  "member_block_of t k a fl = \<lparr>cu_local = False, cu_serial = chanuser_serial t, cu_channel = k, cu_client = a,
     cu_flags = fl, cu_prefix = prefix_of (modes_table t) fl\<rparr>"

lemma parse_member_ok:
  assumes tab: "prefixes_apart (modes_table t)" and fl: "privileges_only (modes_table t) fl"
    and name: "name \<noteq> []" "is_name_char (hd name)" and a: "names_client shl t lcptr k name a" and k: "channels t k = Some ch"
    and cl: "clients t a = Some cl"
  shows "parse_member shl t lcptr k True p (prefix_of (modes_table t) fl @ name) =
    Some (put_chanuser p (member_block_of t k a fl) (put_client a (cl\<lparr>c_refcount := c_refcount cl + 1\<rparr>)
      (put_channel k (ch\<lparr>ch_refcount := ch_refcount ch + 1\<rparr>) t)), Some p, length (prefix_of (modes_table t) fl))"
proof -
  let ?tab = "modes_table t" and ?w = "prefix_of (modes_table t) fl @ name"
  have usr: "dropWhile (\<lambda>c. \<not> is_name_char c) ?w = name"
  proof -
    have "dropWhile (\<lambda>c. \<not> is_name_char c) name = name" using name by (cases name) simp_all
    moreover have "\<forall>c \<in> set (prefix_of ?tab fl). \<not> is_name_char c" using prefix_of_chars(1)[OF tab] by blast
    ultimately show ?thesis by (simp add: dropWhile_append)
  qed
  let ?pfx = "if name = ?w then None else Some ?w"
  have flags: "(case ?pfx of Some u \<Rightarrow> if True then chanmode_prefix_parse ?tab u 0 else 0 | None \<Rightarrow> 0) = fl"
    using prefix_flags[OF tab name fl] prefix_of_Nil[OF tab fl] by auto
  have m: "(if ?pfx \<noteq> None then length ?w - length name else 0) = length (prefix_of ?tab fl)"
    by auto
  obtain l where l: "lclients t lcptr = Some l" "(if l_caps l AND CAP_UID_BIT \<noteq> 0 then client_find_uid shl t name
      else client_find_nick shl t name) = Some (Some a)" "\<not> client_is_local cl" "chanuser_find t k a = Some None"
    using a cl by (auto simp: names_client_def)
  define t' where "t' = put_client a (cl\<lparr>c_refcount := c_refcount cl + 1\<rparr>) (put_channel k (ch\<lparr>ch_refcount := ch_refcount ch + 1\<rparr>) t)"
  let ?b = "\<lparr>cu_local = False, cu_serial = chanuser_serial t, cu_channel = k, cu_client = a, cu_flags = 0, cu_prefix = []\<rparr>"
  have new: "chanuser_new t p k a = Some (put_chanuser p ?b t')"
    using k cl by (simp add: chanuser_new_def channel_pop_def client_pop_def t'_def)
  have tt: "modes_table t' = ?tab" by (simp add: t'_def)
  have "privileges_ok ?tab" using tab by (simp add: prefixes_apart_def)
  then obtain pfx' where "chanmode_prefix_make ?tab (replicate 65 NUL) fl = Some pfx'" "cstr pfx' = prefix_of ?tab fl"
    by (rule prefix_make_result[where pfx = "replicate 65 NUL" and fl = fl]) (simp_all add: prefix_of_def)
  moreover have "prefix_of ?tab 0 = []"
  proof -
    have "privileges ?tab 0 (- 1) = []"
      using privileges_set[OF \<open>privileges_ok ?tab\<close>, of 0] by auto
    then show ?thesis by (simp add: prefix_of_def)
  qed
  ultimately have pf: "(if fl \<noteq> 0 then map_option cstr (chanmode_prefix_make ?tab (replicate 65 NUL) fl) else Some []) = Some (prefix_of ?tab fl)"
    by auto
  have "parse_member shl t lcptr k True p ?w = Some (put_chanuser p (?b\<lparr>cu_local := False, cu_flags := fl, cu_prefix := prefix_of ?tab fl\<rparr>)
      (put_chanuser p ?b t'), Some p, length (prefix_of ?tab fl))"
    unfolding parse_member_def Let_def usr flags m using l cl new pf tt by (cases "fl = 0") auto
  then show ?thesis by (simp add: member_block_of_def t'_def put_chanuser_def)
qed

text \<open>What a new block leaves of the lookups: only reference counts change, and blocks that were
  unused before.\<close>

definition same_finds :: "ptr set \<Rightarrow> ircd \<Rightarrow> ircd \<Rightarrow> bool" where
  "same_finds A t t' \<longleftrightarrow> lclients t' = lclients t \<and> users t' = users t \<and> user_lists t' = user_lists t \<and>
     client_listsn t' = client_listsn t \<and> modes_table t' = modes_table t \<and> chanuser_serial t' = chanuser_serial t \<and>
     (\<forall>a. map_option (\<lambda>c. c\<lparr>c_refcount := 0\<rparr>) (clients t' a) = map_option (\<lambda>c. c\<lparr>c_refcount := 0\<rparr>) (clients t a)) \<and>
     (\<forall>k. (channels t' k = None) = (channels t k = None)) \<and>
     (\<forall>p. p \<notin> A \<longrightarrow> chanusers t' p = chanusers t p)"

lemma same_finds_refl: "same_finds A t t"
  by (simp add: same_finds_def)

lemma same_finds_trans: "same_finds A t u \<Longrightarrow> same_finds A u v \<Longrightarrow> same_finds A t v"
  by (simp add: same_finds_def)

lemma same_finds_client:
  assumes "same_finds A t t'"
  shows "clients t a = Some c \<Longrightarrow> \<exists>r. clients t' a = Some (c\<lparr>c_refcount := r\<rparr>)" "clients t a = None \<Longrightarrow> clients t' a = None"
proof -
  have m: "map_option (\<lambda>c. c\<lparr>c_refcount := 0\<rparr>) (clients t' a) = map_option (\<lambda>c. c\<lparr>c_refcount := 0\<rparr>) (clients t a)"
    using assms by (simp add: same_finds_def)
  then show "clients t a = None \<Longrightarrow> clients t' a = None" by simp
  assume "clients t a = Some c"
  then obtain c' where c': "clients t' a = Some c'" "c'\<lparr>c_refcount := 0\<rparr> = c\<lparr>c_refcount := 0\<rparr>" using m by (cases "clients t' a") auto
  have "c' = c\<lparr>c_refcount := c_refcount c'\<rparr>"
  proof -
    have "c' = (c'\<lparr>c_refcount := 0\<rparr>)\<lparr>c_refcount := c_refcount c'\<rparr>" by simp
    also have "\<dots> = c\<lparr>c_refcount := c_refcount c'\<rparr>" unfolding c'(2) by simp
    finally show ?thesis .
  qed
  then show "\<exists>r. clients t' a = Some (c\<lparr>c_refcount := r\<rparr>)" using c'(1) by auto
qed

lemma search_cong: "(\<And>p. p \<in> set ps \<Longrightarrow> f p = g p) \<Longrightarrow> search f ps = search g ps"
proof (induction ps)
  case (Cons p ps)
  then have "search f ps = search g ps" "f p = g p" by simp_all
  then show ?case by (cases "g p") simp_all
qed simp

lemma same_finds_lookup:
  assumes "same_finds A t t'"
  shows "client_find_nick shl t' nick = client_find_nick shl t nick" "client_find_uid shl t' nick = client_find_uid shl t nick"
proof -
  note s = assms[unfolded same_finds_def]
  have "Option.bind (clients t' p) (\<lambda>c. Some (cur (c_name c) \<noteq> NUL \<and> h = c_hash c \<and> str_icmp (c_name c) nick = 0)) =
      Option.bind (clients t p) (\<lambda>c. Some (cur (c_name c) \<noteq> NUL \<and> h = c_hash c \<and> str_icmp (c_name c) nick = 0))" for p h
  proof (cases "clients t p")
    case (Some c)
    then obtain r where "clients t' p = Some (c\<lparr>c_refcount := r\<rparr>)" using same_finds_client(1)[OF assms] by blast
    then show ?thesis using Some by simp
  qed (simp add: same_finds_client(2)[OF assms])
  then show "client_find_nick shl t' nick = client_find_nick shl t nick"
    using s unfolding client_find_nick_def Let_def by simp
  show "client_find_uid shl t' nick = client_find_uid shl t nick"
  proof -
    have "users t' = users t" "user_lists t' = user_lists t" using s by simp_all
    then show ?thesis by (simp only: client_find_uid_def user_find_uid_def)
  qed
qed

lemma search_reads: "search f ps = Some None \<Longrightarrow> p \<in> set ps \<Longrightarrow> f p = Some False"
  by (induction ps) (auto split: bind_splits if_splits)

lemma same_finds_names_client:
  assumes st: "same_finds A t t'" and f: "\<forall>p \<in> A. chanusers t p = None" and n: "names_client shl t lcptr k name a"
  shows "names_client shl t' lcptr k name a"
proof -
  obtain l cl where l: "lclients t lcptr = Some l" "(if l_caps l AND CAP_UID_BIT \<noteq> 0 then client_find_uid shl t name
      else client_find_nick shl t name) = Some (Some a)" "clients t a = Some cl" "\<not> client_is_local cl" "chanuser_find t k a = Some None"
    using n by (auto simp: names_client_def)
  obtain r where r: "clients t' a = Some (cl\<lparr>c_refcount := r\<rparr>)" using same_finds_client(1)[OF st l(3)] by blast
  have same: "lclients t' = lclients t" "users t' = users t" "\<And>p. p \<notin> A \<Longrightarrow> chanusers t' p = chanusers t p"
    using st by (simp_all add: same_finds_def)
  have "chanuser_find t' k a = Some None"
  proof (cases "client_is_user cl \<or> client_is_service cl")
    case True
    then obtain u us where u: "c_user cl = Some u" "users t u = Some us"
      "search (\<lambda>p. do { cu \<leftarrow> chanusers t p; Some (cu_channel cu = k) }) (u_channels us) = Some None"
      using l(3,5) by (auto simp: chanuser_find_def split: bind_splits)
    have "search (\<lambda>p. do { cu \<leftarrow> chanusers t' p; Some (cu_channel cu = k) }) (u_channels us) =
        search (\<lambda>p. do { cu \<leftarrow> chanusers t p; Some (cu_channel cu = k) }) (u_channels us)"
    proof (rule search_cong)
      fix p assume "p \<in> set (u_channels us)"
      from search_reads[OF u(3) this] have "chanusers t p \<noteq> None" by (cases "chanusers t p") auto
      then have "p \<notin> A" using f by auto
      then show "do { cu \<leftarrow> chanusers t' p; Some (cu_channel cu = k) } = do { cu \<leftarrow> chanusers t p; Some (cu_channel cu = k) }"
        by (simp add: same(3))
    qed
    then show ?thesis using True r u same by (simp add: chanuser_find_def client_is_user_def client_is_service_def)
  next
    case False
    then show ?thesis using r by (simp add: chanuser_find_def client_is_user_def client_is_service_def)
  qed
  then show ?thesis
    using l r same(1) same_finds_lookup[OF st] by (auto simp: names_client_def client_is_local_def)
qed

lemma parse_member_finds:
  assumes "channels t k = Some ch" "clients t a = Some cl" "p \<in> A"
  shows "same_finds A t (put_chanuser p cu (put_client a (cl\<lparr>c_refcount := r\<rparr>) (put_channel k (ch\<lparr>ch_refcount := q\<rparr>) t)))"
  using assms by (auto simp: same_finds_def)

text \<open>The words of a line, as client, flags and name.\<close>

definition word_of :: "chanmode list \<Rightarrow> ptr \<times> 64 word \<times> string \<Rightarrow> string" where
  "word_of tab = (\<lambda>(a, fl, name). prefix_of tab fl @ name)"

definition word_ok :: "(64 word \<Rightarrow> 64 word) \<Rightarrow> ircd \<Rightarrow> ptr \<Rightarrow> ptr \<Rightarrow> ptr \<times> 64 word \<times> string \<Rightarrow> bool" where
  "word_ok shl t lcptr k = (\<lambda>(a, fl, name). privileges_only (modes_table t) fl \<and> name \<noteq> [] \<and> is_name_char (hd name) \<and>
     names_client shl t lcptr k name a)"

lemma parse_members_ok:
  assumes "prefixes_apart (modes_table t0)" "inj fresh" "\<forall>i. chanusers t0 (fresh i) = None" "channels t0 k \<noteq> None"
    "\<forall>e \<in> set es. word_ok shl t0 lcptr k e" "same_finds (range fresh) t0 t"
  shows "\<exists>t' m. parse_members shl fresh lcptr k True t (map (word_of (modes_table t0)) es) list modes =
      Some (t', list @ map fresh [length list..<length list + length es], m) \<and> same_finds (range fresh) t0 t' \<and>
    (\<forall>i < length list. chanusers t' (fresh i) = chanusers t (fresh i)) \<and>
    (\<forall>i < length es. chanusers t' (fresh (length list + i)) = Some (member_block_of t0 k (fst (es ! i)) (fst (snd (es ! i)))))"
  using assms(5,6)
proof (induction es arbitrary: t list modes)
  case Nil
  then show ?case by simp
next
  case (Cons e es)
  obtain a fl name where e: "e = (a, fl, name)" by (cases e)
  let ?p = "fresh (length list)"
  have same: "modes_table t = modes_table t0" "chanuser_serial t = chanuser_serial t0" "channels t k \<noteq> None"
    using Cons.prems(2) assms(4) by (simp_all add: same_finds_def)
  have w: "privileges_only (modes_table t0) fl" "name \<noteq> []" "is_name_char (hd name)" "names_client shl t0 lcptr k name a"
    using Cons.prems(1) e by (auto simp: word_ok_def)
  have nc: "names_client shl t lcptr k name a"
    by (rule same_finds_names_client[OF Cons.prems(2) _ w(4)]) (use assms(3) in auto)
  then obtain cl where cl: "clients t a = Some cl" by (auto simp: names_client_def)
  obtain ch where ch: "channels t k = Some ch" using same(3) by blast
  let ?t = "put_chanuser ?p (member_block_of t k a fl) (put_client a (cl\<lparr>c_refcount := c_refcount cl + 1\<rparr>)
      (put_channel k (ch\<lparr>ch_refcount := ch_refcount ch + 1\<rparr>) t))"
  have one: "parse_member shl t lcptr k True ?p (word_of (modes_table t0) e) = Some (?t, Some ?p, length (prefix_of (modes_table t) fl))"
    unfolding e word_of_def prod.case
    using parse_member_ok[of t fl name shl lcptr k a ch cl ?p] assms(1) w nc ch cl same(1) by simp
  have blk: "member_block_of t k a fl = member_block_of t0 k a fl" using same by (simp add: member_block_of_def)
  have st: "same_finds (range fresh) t0 ?t"
    by (rule same_finds_trans[OF Cons.prems(2) parse_member_finds[OF ch cl]]) simp
  from Cons.IH[OF _ st, of "list @ [?p]" "modes + length (prefix_of (modes_table t) fl)"] Cons.prems(1)
  obtain t' m where r: "parse_members shl fresh lcptr k True ?t (map (word_of (modes_table t0)) es) (list @ [?p])
      (modes + length (prefix_of (modes_table t) fl)) = Some (t', (list @ [?p]) @ map fresh [length (list @ [?p])..<length (list @ [?p]) + length es], m)"
    "same_finds (range fresh) t0 t'" "\<forall>i < length (list @ [?p]). chanusers t' (fresh i) = chanusers ?t (fresh i)"
    "\<forall>i < length es. chanusers t' (fresh (length (list @ [?p]) + i)) = Some (member_block_of t0 k (fst (es ! i)) (fst (snd (es ! i))))"
    by auto
  have other: "fresh i \<noteq> ?p" if "i < length list" for i using assms(2) that by (auto dest: injD)
  have l: "[length list..<length list + length (e # es)] = length list # [Suc (length list)..<Suc (length list) + length es]"
  proof -
    have "length list < length list + length (e # es)" by simp
    from upt_conv_Cons[OF this] show ?thesis by (simp only: list.size add_Suc_right add_Suc add_0_right One_nat_def)
  qed
  show ?case
  proof (intro exI[of _ t'] exI[of _ m] conjI)
    show "parse_members shl fresh lcptr k True t (map (word_of (modes_table t0)) (e # es)) list modes =
      Some (t', list @ map fresh [length list..<length list + length (e # es)], m)"
      unfolding l using one r(1) by simp
    show "\<forall>i < length list. chanusers t' (fresh i) = chanusers t (fresh i)" using r(3) other by simp
    show "\<forall>i < length (e # es). chanusers t' (fresh (length list + i)) =
        Some (member_block_of t0 k (fst ((e # es) ! i)) (fst (snd ((e # es) ! i))))"
    proof (intro allI impI)
      fix i assume i: "i < length (e # es)"
      show "chanusers t' (fresh (length list + i)) = Some (member_block_of t0 k (fst ((e # es) ! i)) (fst (snd ((e # es) ! i))))"
      proof (cases i)
        case 0
        then show ?thesis using r(3) blk e by simp
      next
        case (Suc j)
        then show ?thesis using r(4) i by simp
      qed
    qed
  qed (rule r(2))
qed

lemma words_of_join:
  assumes "\<forall>w \<in> set ws. plain_word w \<and> w \<noteq> []" "length ws \<le> n"
  shows "irc_words n (join (CHR '' '') ws) = ws"
proof (cases ws)
  case Nil
  then show ?thesis by (cases n) (simp_all add: irc_words_def)
next
  case (Cons w us)
  have b: "blanked ws = CHR '' '' # join (CHR '' '') ws" if "ws \<noteq> []" for ws
    using that by (induction "CHR '' ''" ws rule: join.induct) auto
  have "is_ws (CHR '' '')" by (simp add: is_ws_def)
  then have "dropWhile is_ws (blanked ws) = dropWhile is_ws (join (CHR '' '') ws)"
    using b[of ws] Cons by simp
  then have "words_of True is_ws is_eol is_blank n (join (CHR '' '') ws) = words_of True is_ws is_eol is_blank n (blanked ws)"
    using words_of_skip by metis
  also have "\<dots> = filter (\<lambda>w. w \<noteq> []) ws" by (rule words_of_blanked) (use assms in auto)
  also have "\<dots> = ws" using assms(1) by simp
  finally show ?thesis by (simp add: irc_words_def)
qed

lemma chanuser_parse_words:
  assumes "\<forall>w \<in> set ws. plain_word w \<and> w \<noteq> [] \<and> no_nul w" "length ws \<le> CHANUSER_PER_LINE" "length v = 33"
  shows "chanuser_parse shl fresh v t lcptr k (join (CHR '' '') ws) fl = parse_members shl fresh lcptr k fl t ws [] 0"
proof -
  let ?s = "join (CHR '' '') ws"
  have s: "no_nul ?s" using assms(1) by (intro no_nul_join) auto
  have iw: "irc_words 32 ?s = ws" using assms(1,2) by (intro words_of_join) (auto simp: CHANUSER_PER_LINE_def)
  have "0 < (32::nat)" "32 < length v" using assms(3) by simp_all
  from irc.all_correct[OF s this, of "[]" "[]"]
  obtain b v' where r: "str_tokenize (?s @ [NUL]) v 32 = Some (b, v', length ws)" "length v' = 33" "words_at b v' 0 ws"
    using assms(3) iw by (auto simp: irc.outcome_def Let_def str_tokenize_all irc_words_def)
  have at: "Option.bind (arg_at b v' i) id = Some (ws ! i)" if "i < length ws" for i
    using r(2,3) that assms(2) by (auto simp: words_at_def arg_at_def CHANUSER_PER_LINE_def)
  have "those (map (\<lambda>i. Option.bind (arg_at b v' i) id) [0..<length ws]) = Some ws"
  proof -
    have "map (\<lambda>i. Option.bind (arg_at b v' i) id) [0..<length ws] = map Some (map ((!) ws) [0..<length ws])"
      unfolding map_map by (rule map_cong) (simp_all add: at)
    moreover have "those (map Some xs) = Some xs" for xs :: "string list" by (induction xs) simp_all
    ultimately show ?thesis by (simp only: map_nth)
  qed
  then show ?thesis using r(1) by (simp add: chanuser_parse_def CHANUSER_PER_LINE_def)
qed

section \<open>A line of NJOIN arrives\<close>

text \<open>The member of a block as one server writes it, and the client \<open>a\<close> that the name finds at another.\<close>

definition introduced :: "(64 word \<Rightarrow> 64 word) \<Rightarrow> ircd \<Rightarrow> bool \<Rightarrow> ircd \<Rightarrow> ptr \<Rightarrow> ptr \<Rightarrow> ptr \<Rightarrow> ptr \<Rightarrow> bool" where
  "introduced shl s uid t lcptr k p a \<longleftrightarrow> (\<exists>cu name. chanusers s p = Some cu \<and> member_name s uid cu = Some name \<and>
     cu_prefix cu = prefix_of (modes_table s) (cu_flags cu) \<and> privileges_only (modes_table s) (cu_flags cu) \<and>
     plain_word name \<and> no_nul name \<and> name \<noteq> [] \<and> is_name_char (hd name) \<and> names_client shl t lcptr k name a)"

text \<open>C22. A line of NJOIN is read as it was written: the server that gets the entries of up to 32
  members makes for each of them, in order, a membership of the client that the name stands for, with
  the same privileges and the same prefix. Each entry is looked at alone, so that a line which names a
  client twice makes two memberships of it.\<close>

theorem njoin_roundtrip:
  assumes members: "\<forall>p \<in> set ps. introduced shl s uid t lcptr k p (who p)"
    and tab: "modes_table t = modes_table s" "prefixes_apart (modes_table s)"
    and len: "length ps \<le> CHANUSER_PER_LINE" "length v = 33"
    and fresh: "inj fresh" "\<forall>i. chanusers t (fresh i) = None" and k: "channels t k \<noteq> None"
  shows "\<exists>t' m. chanuser_parse shl fresh v t lcptr k (entries s False uid ps) True = Some (t', map fresh [0..<length ps], m) \<and>
    (\<forall>i < length ps. \<exists>cu cu'. chanusers s (ps ! i) = Some cu \<and> chanusers t' (fresh i) = Some cu' \<and>
      cu_client cu' = who (ps ! i) \<and> cu_channel cu' = k \<and> cu_flags cu' = cu_flags cu \<and> cu_prefix cu' = cu_prefix cu)"
proof -
  define cu where "cu = (\<lambda>p. the (chanusers s p))"
  define name where "name = (\<lambda>p. the (member_name s uid (the (chanusers s p))))"
  have m: "chanusers s p = Some (cu p)" "member_name s uid (cu p) = Some (name p)"
    "cu_prefix (cu p) = prefix_of (modes_table s) (cu_flags (cu p))" "privileges_only (modes_table s) (cu_flags (cu p))"
    "plain_word (name p)" "no_nul (name p)" "name p \<noteq> []" "is_name_char (hd (name p))" "names_client shl t lcptr k (name p) (who p)"
    if "p \<in> set ps" for p
    using bspec[OF members that] unfolding introduced_def by (auto simp: cu_def name_def)
  let ?es = "map (\<lambda>p. (who p, cu_flags (cu p), name p)) ps"
  have p0: "prefix_of (modes_table s) 0 = []"
    using privileges_set[of "modes_table s" 0] tab(2) by (auto simp: prefix_of_def prefixes_apart_def)
  have tx: "member_text s False uid p = word_of (modes_table s) (who p, cu_flags (cu p), name p)" if "p \<in> set ps" for p
    using m[OF that] p0 by (simp add: member_text_def word_of_def)
  then have e: "entries s False uid ps = join (CHR '' '') (map (word_of (modes_table s)) ?es)"
    unfolding entries_def map_map by (intro arg_cong[where f = "join (CHR '' '')"] map_cong) auto
  have plain: "plain_word (word_of (modes_table s) (who p, cu_flags (cu p), name p)) \<and>
      word_of (modes_table s) (who p, cu_flags (cu p), name p) \<noteq> [] \<and> no_nul (word_of (modes_table s) (who p, cu_flags (cu p), name p))"
    if p: "p \<in> set ps" for p
  proof -
    let ?x = "prefix_of (modes_table s) (cu_flags (cu p))"
    have x: "\<not> is_ws c \<and> c \<noteq> CHR '':'' \<and> c \<noteq> NUL" if "c \<in> set ?x" for c
      using prefix_of_chars[OF tab(2) that] by blast
    have "hd (?x @ name p) \<noteq> CHR '':''"
    proof (cases "?x = []")
      case True
      then show ?thesis using m(5,7)[OF p] by (simp add: plain_word_def)
    next
      case False
      then show ?thesis using x[of "hd ?x"] by simp
    qed
    moreover have "\<forall>c \<in> set (?x @ name p). \<not> is_ws c" using x m(5)[OF p] by (auto simp: plain_word_def)
    moreover have "no_nul ?x" using x by (auto simp: no_nul_def)
    ultimately show ?thesis using m(6,7)[OF p] by (simp add: word_of_def plain_word_def)
  qed
  have "\<forall>e \<in> set ?es. word_ok shl t lcptr k e" using m tab(1) by (auto simp: word_ok_def)
  from parse_members_ok[OF _ fresh k this same_finds_refl, of "[]" 0] tab
  obtain t' m where r: "parse_members shl fresh lcptr k True t (map (word_of (modes_table s)) ?es) [] 0 = Some (t', map fresh [0..<length ps], m)"
    "\<forall>i < length ps. chanusers t' (fresh i) = Some (member_block_of t k (who (ps ! i)) (cu_flags (cu (ps ! i))))"
    by auto
  have "chanuser_parse shl fresh v t lcptr k (entries s False uid ps) True = Some (t', map fresh [0..<length ps], m)"
    unfolding e by (subst chanuser_parse_words) (use plain len r(1) in auto)
  moreover have "\<exists>c c'. chanusers s (ps ! i) = Some c \<and> chanusers t' (fresh i) = Some c' \<and>
      cu_client c' = who (ps ! i) \<and> cu_channel c' = k \<and> cu_flags c' = cu_flags c \<and> cu_prefix c' = cu_prefix c" if "i < length ps" for i
    using r(2) m(1,3)[of "ps ! i"] that tab(1) by (intro exI[of _ "cu (ps ! i)"] exI[of _ "member_block_of t k (who (ps ! i)) (cu_flags (cu (ps ! i)))"])
      (auto simp: member_block_of_def)
  ultimately show ?thesis by blast
qed


text \<open>The line of the room above, at a server that knows alice.\<close>

definition njoin_reader :: ircd where
  "njoin_reader = (boot_state [10 \<mapsto> (nick_client 20 ''alice'')\<lparr>c_location := CLIENT_REMOTE\<rparr>] [20 \<mapsto> a_user 10 ''al''] 0)\<lparr>
     client_listsn := (replicate CLIENT_HASH_SIZE [])[hash_index (str_ihash (\<lambda>_. 0) (Some ''alice'')) CLIENT_HASH_SIZE := [10]],
     lclients := [5 \<mapsto> \<lparr>l_type = LCLIENT_SERVER, l_hash = 0, l_caps = 0, l_name = ''irc.example.org''\<rparr>],
     channels := [1 \<mapsto> channel_zero\<lparr>ch_name := ''#a''\<rparr>], modes_table := ohv_table\<rparr>"

lemma ohv_prefixes_apart: "prefixes_apart ohv_table"
proof -
  have "\<not> chars_isuidchar (CHR ''@'')" "\<not> chars_isuidchar (CHR ''%'')" "\<not> chars_isuidchar (CHR ''+'')"
    by code_simp+
  then have n: "\<not> is_name_char c \<and> \<not> is_ws c" if "c \<in> {CHR ''@'', CHR ''%'', CHR ''+''}" for c
    using that by (auto simp: is_name_char_def is_ws_def class_tests nick_byte_def alpha_byte_def)
  have "m_prefix m \<in> {CHR ''@'', CHR ''%'', CHR ''+''}" if m: "m \<in> set ohv_table" "is_privilege m" for m
  proof -
    have "length ohv_table = 64" by (simp add: ohv_table_def)
    then obtain i where i: "i < 64" "m = ohv_table ! i" using m(1) by (auto simp: in_set_conv_nth)
    show ?thesis using m(2) unfolding i(2) ohv_table_nth[OF i(1)]
      by (simp add: privilege_mode_def chanmode_zero_def is_privilege_def chanmode_types split: if_splits)
  qed
  then show ?thesis using n ohv_privileges_ok by (simp add: prefixes_apart_def)
qed

theorem njoin_roundtrip_witness:
  "\<exists>t' m. chanuser_parse (\<lambda>_. 0) (\<lambda>i. i + 50) (replicate 33 None) njoin_reader 5 1 (entries names_room False False [2]) True =
      Some (t', [50], m) \<and>
    (\<exists>cu'. chanusers t' 50 = Some cu' \<and> cu_client cu' = 10 \<and> cu_channel cu' = 1 \<and> cu_flags cu' = chflg (CHR ''o'') \<and> cu_prefix cu' = ''@'')"
proof -
  note f = names_room_facts
  have b: "bit (chflg (CHR ''o'')) i \<longleftrightarrow> i = 47" for i by (simp add: bit_chflg)
  have is47: "is_privilege (ohv_table ! 47)" by (simp add: ohv_table_nth is_privilege_def privilege_mode_def)
  have "set (privileges ohv_table (chflg (CHR ''o'')) (- 1)) = {ohv_table ! 47}"
    using is47 by (auto simp: privileges_set[OF ohv_privileges_ok] b)
  moreover have "distinct (map m_order (privileges ohv_table (chflg (CHR ''o'')) (- 1)))"
    using privileges_sorted[of ohv_table "chflg (CHR ''o'')" "- 1"] by (blast intro: distinct_descending)
  ultimately have "privileges ohv_table (chflg (CHR ''o'')) (- 1) = [ohv_table ! 47]"
    by (cases "privileges ohv_table (chflg (CHR ''o'')) (- 1)" rule: remdups_adj.cases) (auto simp: insert_eq_iff split: if_splits)
  then have pfx: "prefix_of ohv_table (chflg (CHR ''o'')) = ''@''"
    by (simp add: prefix_of_def ohv_table_nth privilege_mode_def)
  have apart: "prefixes_apart ohv_table" by (rule ohv_prefixes_apart)
  have only: "privileges_only ohv_table (chflg (CHR ''o''))" using b is47 by (simp add: privileges_only_def)
  have first: "is_name_char (CHR ''a'')" by (simp add: is_name_char_def class_tests nick_byte_def alpha_byte_def)
  have "client_find_nick (\<lambda>_. 0) njoin_reader ''alice'' = Some (Some 10)"
    by (simp add: client_find_nick_def Let_def njoin_reader_def boot_state_def str_icmp_same_name)
  then have n: "names_client (\<lambda>_. 0) njoin_reader 5 1 ''alice'' 10"
    by (simp add: names_client_def njoin_reader_def boot_state_def client_is_local_def chanuser_find_def client_is_user_def
      nick_client_def a_client_def a_user_def)
  have "introduced (\<lambda>_. 0) names_room False njoin_reader 5 1 2 10"
    unfolding introduced_def f using n only
    by (simp add: member_name_def f a_member_def a_client_def pfx first plain_word_def no_nul_def is_ws_def)
  then have i: "\<forall>p \<in> set [2]. introduced (\<lambda>_. 0) names_room False njoin_reader 5 1 p ((\<lambda>_. 10) p)" by simp
  have r: "modes_table njoin_reader = modes_table names_room" "\<forall>i. chanusers njoin_reader (i + 50) = None"
    "channels njoin_reader 1 \<noteq> None" "prefixes_apart (modes_table names_room)"
    using apart f by (simp_all add: njoin_reader_def boot_state_def)
  show ?thesis
    using njoin_roundtrip[OF i r(1,4) _ _ _ r(2,3), of "replicate 33 None"] f
    by (simp add: CHANUSER_PER_LINE_def a_member_def)
qed

end
