(* ===== verification/Hook.thy ===== *)
theory Hook
  imports Cstr
begin

text \<open>
  Hooks (src/hook.c of libchaos) and the hooks of the channel modes (modules/chanmode). A module
  hangs a callback on a function of the server by the address of the function and a stage; the
  function calls all callbacks of a stage in the order of their registration, with at most four
  arguments. The list of hooks is a list of records, and the addresses of functions are the
  constructors of two datatypes.
\<close>

section \<open>The list of hooks\<close>

text \<open>\<open>struct hook\<close>.\<close>

record ('f, 'cb) hook =
  hk_function :: 'f
  hk_type :: nat
  hk_callback :: 'cb

definition HOOK_1ST :: nat where "HOOK_1ST = 0"
definition HOOK_2ND :: nat where "HOOK_2ND = 1"
definition HOOK_3RD :: nat where "HOOK_3RD = 2"
definition HOOK_4TH :: nat where "HOOK_4TH = 3"
definition HOOK_DEFAULT :: nat where "HOOK_DEFAULT = HOOK_1ST"
definition HOOK_MAXARGS :: nat where "HOOK_MAXARGS = 4"

lemmas hook_stages = HOOK_1ST_def HOOK_2ND_def HOOK_3RD_def HOOK_4TH_def HOOK_DEFAULT_def

definition hook_of :: "'f \<Rightarrow> nat \<Rightarrow> 'cb \<Rightarrow> ('f, 'cb) hook" where
  "hook_of f t cb = \<lparr>hk_function = f, hk_type = t, hk_callback = cb\<rparr>"

definition hook_find :: "('f, 'cb) hook list \<Rightarrow> 'f \<Rightarrow> nat \<Rightarrow> 'cb \<Rightarrow> ('f, 'cb) hook option" where
  "hook_find hs f t cb = List.find (\<lambda>h. hk_function h = f \<and> hk_type h = t \<and> hk_callback h = cb) hs"

text \<open>The list and whether a hook was made; the list and the return code.\<close>

definition hook_register :: "('f, 'cb) hook list \<Rightarrow> 'f \<Rightarrow> nat \<Rightarrow> 'cb \<Rightarrow> ('f, 'cb) hook list \<times> bool" where
  "hook_register hs f t cb = (case hook_find hs f t cb of
     Some _ \<Rightarrow> (hs, False)
   | None \<Rightarrow> (hs @ [hook_of f t cb], True))"

definition hook_unregister :: "('f, 'cb) hook list \<Rightarrow> 'f \<Rightarrow> nat \<Rightarrow> 'cb \<Rightarrow> ('f, 'cb) hook list \<times> int" where
  "hook_unregister hs f t cb = (case hook_find hs f t cb of
     None \<Rightarrow> (hs, - 1)
   | Some h \<Rightarrow> (remove1 h hs, 0))"

text \<open>The callback gets the first four arguments, and the results are added up. \<open>run\<close> is the call
  through the address: it changes the state and gives the result.\<close>

fun hooks_call ::
  "('cb \<Rightarrow> 'a list \<Rightarrow> 's \<Rightarrow> ('s \<times> int) option) \<Rightarrow> ('f, 'cb) hook list \<Rightarrow> 'f \<Rightarrow> nat \<Rightarrow> 'a list \<Rightarrow> 's \<Rightarrow> ('s \<times> int) option" where
  "hooks_call run [] f t args s = Some (s, 0)"
| "hooks_call run (h # hs) f t args s =
     (if hk_function h = f \<and> hk_type h = t then do {
        (s, r) \<leftarrow> run (hk_callback h) (take HOOK_MAXARGS args) s;
        (s, ret) \<leftarrow> hooks_call run hs f t args s;
        Some (s, r + ret) }
      else hooks_call run hs f t args s)"

text \<open>The callbacks of a stage, in the order of the calls, and the calls one after the other.\<close>

definition callbacks :: "('f, 'cb) hook list \<Rightarrow> 'f \<Rightarrow> nat \<Rightarrow> 'cb list" where
  "callbacks hs f t = map hk_callback (filter (\<lambda>h. hk_function h = f \<and> hk_type h = t) hs)"

fun call_all :: "('cb \<Rightarrow> 's \<Rightarrow> ('s \<times> int) option) \<Rightarrow> 'cb list \<Rightarrow> 's \<Rightarrow> ('s \<times> int) option" where
  "call_all run [] s = Some (s, 0)"
| "call_all run (cb # cbs) s = do { (s, r) \<leftarrow> run cb s; (s, ret) \<leftarrow> call_all run cbs s; Some (s, r + ret) }"

lemma hooks_call_callbacks:
  "hooks_call run hs f t args s = call_all (\<lambda>cb. run cb (take HOOK_MAXARGS args)) (callbacks hs f t) s"
  by (induction run hs f t args s rule: hooks_call.induct) (auto simp: callbacks_def split: Option.bind_split)

section \<open>The hooks of the channel modes\<close>

datatype hook_function = Channel_join | Channel_message | Channel_topic | Chanuser_kick | Chanuser_whois
  | Chanmode_args_build

datatype callback = Cm_op_hook | Cm_op_kick | Cm_halfop_hook | Cm_halfop_kick | Cm_voice_hook | Cm_invite_hook
  | Cm_moderated_hook | Cm_noext_hook | Cm_secret_hook | Cm_topic_hook | Cm_aop_hook | Cm_ahalfop_hook
  | Cm_avoice_hook | Cm_ban_hook | Cm_deny_hook | Cm_except_hook | Cm_invex_hook | Cm_limit_hook
  | Cm_limit_build | Cm_key_hook | Cm_key_build | Cm_persistent_msg_hook | Cm_persistent_join_hook | Cm_alarm_msg_hook
  | Cm_alarm_join_hook

type_synonym chan_hook = "(hook_function, callback) hook"

text \<open>What a module registers when it is loaded, and what it takes back when it is unloaded.\<close>

type_synonym module_hooks = "chan_hook list \<times> chan_hook list"

definition cm_op_hooks :: module_hooks where
  "cm_op_hooks = ([hook_of Channel_join HOOK_2ND Cm_op_hook, hook_of Chanuser_kick HOOK_DEFAULT Cm_op_kick],
     [hook_of Chanuser_kick HOOK_DEFAULT Cm_op_kick, hook_of Channel_join HOOK_2ND Cm_op_hook])"

definition cm_halfop_hooks :: module_hooks where
  "cm_halfop_hooks = ([hook_of Channel_join HOOK_2ND Cm_halfop_hook, hook_of Chanuser_kick HOOK_DEFAULT Cm_halfop_kick],
     [hook_of Chanuser_kick HOOK_DEFAULT Cm_halfop_kick, hook_of Channel_join HOOK_DEFAULT Cm_halfop_hook])"

definition cm_voice_hooks :: module_hooks where
  "cm_voice_hooks = ([hook_of Channel_join HOOK_2ND Cm_voice_hook],
     [hook_of Channel_join HOOK_2ND Cm_voice_hook])"

definition cm_invite_hooks :: module_hooks where
  "cm_invite_hooks = ([hook_of Channel_join HOOK_1ST Cm_invite_hook],
     [hook_of Channel_join HOOK_1ST Cm_invite_hook])"

definition cm_moderated_hooks :: module_hooks where
  "cm_moderated_hooks = ([hook_of Channel_message HOOK_DEFAULT Cm_moderated_hook],
     [hook_of Channel_message HOOK_DEFAULT Cm_moderated_hook])"

definition cm_noext_hooks :: module_hooks where
  "cm_noext_hooks = ([hook_of Channel_message HOOK_DEFAULT Cm_noext_hook],
     [hook_of Channel_message HOOK_DEFAULT Cm_noext_hook])"

definition cm_secret_hooks :: module_hooks where
  "cm_secret_hooks = ([hook_of Chanuser_whois HOOK_DEFAULT Cm_secret_hook],
     [hook_of Chanuser_whois HOOK_DEFAULT Cm_secret_hook])"

definition cm_topic_hooks :: module_hooks where
  "cm_topic_hooks = ([hook_of Channel_topic HOOK_DEFAULT Cm_topic_hook],
     [hook_of Channel_topic HOOK_DEFAULT Cm_topic_hook])"

definition cm_aop_hooks :: module_hooks where
  "cm_aop_hooks = ([hook_of Channel_join HOOK_3RD Cm_aop_hook],
     [hook_of Channel_join HOOK_3RD Cm_aop_hook])"

definition cm_ahalfop_hooks :: module_hooks where
  "cm_ahalfop_hooks = ([hook_of Channel_join HOOK_3RD Cm_ahalfop_hook],
     [hook_of Channel_join HOOK_3RD Cm_ahalfop_hook])"

definition cm_avoice_hooks :: module_hooks where
  "cm_avoice_hooks = ([hook_of Channel_join HOOK_3RD Cm_avoice_hook],
     [hook_of Channel_join HOOK_3RD Cm_avoice_hook])"

definition cm_ban_hooks :: module_hooks where
  "cm_ban_hooks = ([hook_of Channel_join HOOK_DEFAULT Cm_ban_hook],
     [hook_of Channel_join HOOK_DEFAULT Cm_ban_hook])"

definition cm_deny_hooks :: module_hooks where
  "cm_deny_hooks = ([hook_of Channel_join HOOK_1ST Cm_deny_hook],
     [hook_of Channel_join HOOK_1ST Cm_deny_hook])"

definition cm_except_hooks :: module_hooks where
  "cm_except_hooks = ([hook_of Channel_join HOOK_1ST Cm_except_hook],
     [hook_of Channel_join HOOK_1ST Cm_except_hook])"

definition cm_invex_hooks :: module_hooks where
  "cm_invex_hooks = ([hook_of Channel_join HOOK_1ST Cm_invex_hook],
     [hook_of Channel_join HOOK_1ST Cm_invex_hook])"

definition cm_limit_hooks :: module_hooks where
  "cm_limit_hooks = ([hook_of Channel_join HOOK_1ST Cm_limit_hook, hook_of Chanmode_args_build HOOK_1ST Cm_limit_build],
     [hook_of Chanmode_args_build HOOK_1ST Cm_limit_build, hook_of Channel_join HOOK_1ST Cm_limit_hook])"

definition cm_key_hooks :: module_hooks where
  "cm_key_hooks = ([hook_of Channel_join HOOK_1ST Cm_key_hook, hook_of Chanmode_args_build HOOK_1ST Cm_key_build],
     [hook_of Chanmode_args_build HOOK_1ST Cm_key_build, hook_of Channel_join HOOK_1ST Cm_key_hook])"

definition cm_persistent_hooks :: module_hooks where
  "cm_persistent_hooks = ([hook_of Channel_message HOOK_DEFAULT Cm_persistent_msg_hook, hook_of Channel_join HOOK_4TH Cm_persistent_join_hook],
     [hook_of Channel_join HOOK_4TH Cm_persistent_join_hook, hook_of Channel_message HOOK_DEFAULT Cm_persistent_msg_hook])"

definition cm_alarm_hooks :: module_hooks where
  "cm_alarm_hooks = ([hook_of Channel_message HOOK_DEFAULT Cm_alarm_msg_hook, hook_of Channel_join HOOK_4TH Cm_alarm_join_hook],
     [hook_of Channel_join HOOK_4TH Cm_alarm_join_hook, hook_of Channel_message HOOK_DEFAULT Cm_alarm_msg_hook])"

text \<open>A module first registers its mode, and gives up when \<open>chanmode_register\<close> returns no mode;
  \<open>registered\<close> says whether it did. With the list goes the code of the result.\<close>

definition module_load :: "bool \<Rightarrow> module_hooks \<Rightarrow> chan_hook list \<Rightarrow> chan_hook list \<times> int" where
  "module_load registered m hs =
     (if \<not> registered then (hs, - 1)
      else (fold (\<lambda>h hs. fst (hook_register hs (hk_function h) (hk_type h) (hk_callback h))) (fst m) hs, 0))"

definition module_unload :: "module_hooks \<Rightarrow> chan_hook list \<Rightarrow> chan_hook list" where
  "module_unload m hs = fold (\<lambda>h hs. fst (hook_unregister hs (hk_function h) (hk_type h) (hk_callback h))) (snd m) hs"

text \<open>The order of conf/modules.conf.in; the modes of the modules have different letters, so that all
  are registered.\<close>

definition chanmode_modules :: "module_hooks list" where
  "chanmode_modules = [cm_op_hooks, cm_halfop_hooks, cm_voice_hooks, cm_invite_hooks, cm_moderated_hooks, cm_noext_hooks,
     cm_secret_hooks, cm_topic_hooks, cm_aop_hooks, cm_ahalfop_hooks, cm_avoice_hooks, cm_ban_hooks,
     cm_deny_hooks, cm_except_hooks, cm_invex_hooks, cm_limit_hooks, cm_key_hooks, cm_persistent_hooks,
     cm_alarm_hooks]"

definition chanmode_hooks :: "chan_hook list" where
  "chanmode_hooks = fold (\<lambda>m hs. fst (module_load True m hs)) chanmode_modules []"

section \<open>Registering\<close>

lemma hook_of_self [simp]: "hook_of (hk_function h) (hk_type h) (hk_callback h) = h"
  by (simp add: hook_of_def)

lemma hook_find_Some: "hook_find hs f t cb = (if hook_of f t cb \<in> set hs then Some (hook_of f t cb) else None)"
proof -
  have "hk_function h = f \<and> hk_type h = t \<and> hk_callback h = cb \<longleftrightarrow> h = hook_of f t cb" for h :: "('a, 'b) hook"
    by (cases h) (simp add: hook_of_def)
  then have "hook_find hs f t cb = List.find (\<lambda>h. h = hook_of f t cb) hs" by (simp add: hook_find_def)
  moreover have "List.find (\<lambda>h. h = x) hs = (if x \<in> set hs then Some x else None)" for x :: "('a, 'b) hook"
    by (induction hs) auto
  ultimately show ?thesis by simp
qed

lemma hook_register_result:
  "fst (hook_register hs f t cb) = (if hook_of f t cb \<in> set hs then hs else hs @ [hook_of f t cb])"
  by (simp add: hook_register_def hook_find_Some)

lemma hook_unregister_result:
  "fst (hook_unregister hs f t cb) = remove1 (hook_of f t cb) hs"
  by (simp add: hook_unregister_def hook_find_Some remove1_idem)

lemma module_load_result:
  "distinct (fst m) \<Longrightarrow> set (fst m) \<inter> set hs = {} \<Longrightarrow> module_load True m hs = (hs @ fst m, 0)"
proof -
  have "fold (\<lambda>h hs. fst (hook_register hs (hk_function h) (hk_type h) (hk_callback h))) ls hs = hs @ ls"
    if "distinct ls" "set ls \<inter> set hs = {}" for ls hs :: "chan_hook list"
    using that by (induction ls arbitrary: hs) (auto simp: hook_register_result)
  then show "distinct (fst m) \<Longrightarrow> set (fst m) \<inter> set hs = {} \<Longrightarrow> module_load True m hs = (hs @ fst m, 0)"
    by (simp add: module_load_def)
qed

lemma module_unload_result: "module_unload m hs = fold remove1 (snd m) hs"
  by (simp add: module_unload_def hook_unregister_result)

lemma fold_remove1_append: "set ls \<inter> set hs = {} \<Longrightarrow> fold remove1 ls (hs @ ks) = hs @ fold remove1 ls ks"
  by (induction ls arbitrary: ks) (auto simp: remove1_append)

text \<open>C13. Loading and unloading: a module whose hooks are not registered leaves the list of hooks as it
  was when it is loaded and unloaded again, with one exception. The module of half operators takes its
  hook on joins back at another stage than it registered it at: the hook stays, and is called after
  the code of the module is gone. A module whose mode is not registered, since the letter is taken,
  fails and registers no hook.\<close>

theorem module_unload_undoes_load:
  assumes "m \<in> set chanmode_modules" "set (fst m) \<inter> set hs = {}" "set (snd m) \<inter> set hs = {}"
  shows "(\<exists>hs'. module_load True m hs = (hs', 0) \<and> module_unload m hs' =
      hs @ (if m = cm_halfop_hooks then [hook_of Channel_join HOOK_2ND Cm_halfop_hook] else [])) \<and>
    module_load False m hs = (hs, - 1)"
proof -
  have "\<forall>m \<in> set chanmode_modules. distinct (fst m) \<and>
      fold remove1 (snd m) (fst m) = (if m = cm_halfop_hooks then [hook_of Channel_join HOOK_2ND Cm_halfop_hook] else [])"
    by code_simp
  then show ?thesis
    using assms by (simp add: module_load_result module_unload_result fold_remove1_append) (simp add: module_load_def)
qed

theorem module_unload_witness:
  "module_unload cm_halfop_hooks (fst (module_load True cm_halfop_hooks [hook_of Channel_join HOOK_1ST Cm_key_hook])) =
     [hook_of Channel_join HOOK_1ST Cm_key_hook, hook_of Channel_join HOOK_2ND Cm_halfop_hook]"
  using module_unload_undoes_load[of cm_halfop_hooks "[hook_of Channel_join HOOK_1ST Cm_key_hook]"]
  by (auto simp: chanmode_modules_def cm_halfop_hooks_def hook_of_def)

text \<open>The stages of a join with all modules loaded.\<close>

lemma join_callbacks:
  "callbacks chanmode_hooks Channel_join HOOK_1ST =
     [Cm_invite_hook, Cm_ban_hook, Cm_deny_hook, Cm_except_hook, Cm_invex_hook, Cm_limit_hook, Cm_key_hook]"
  "callbacks chanmode_hooks Channel_join HOOK_2ND = [Cm_op_hook, Cm_halfop_hook, Cm_voice_hook]"
  "callbacks chanmode_hooks Channel_join HOOK_3RD = [Cm_aop_hook, Cm_ahalfop_hook, Cm_avoice_hook]"
  "callbacks chanmode_hooks Channel_join HOOK_4TH = [Cm_persistent_join_hook, Cm_alarm_join_hook]"
  by code_simp+

lemma other_callbacks:
  "callbacks chanmode_hooks Channel_message HOOK_DEFAULT =
     [Cm_moderated_hook, Cm_noext_hook, Cm_persistent_msg_hook, Cm_alarm_msg_hook]"
  "callbacks chanmode_hooks Channel_topic HOOK_DEFAULT = [Cm_topic_hook]"
  "callbacks chanmode_hooks Chanuser_kick HOOK_DEFAULT = [Cm_op_kick, Cm_halfop_kick]"
  by code_simp+

end
