(* ===== verification/Join.thy ===== *)
theory Join
  imports Names Hook Modecmd
begin

text \<open>
  Joining a channel: the command JOIN (modules/msg/m_join.c), channel_join of src/channel.c and the
  hooks that the channel modes hang on it (modules/chanmode). The hooks of the first stage decide
  whether the client may enter, each seeing what the ones before it decided; those of the second stage
  give privileges to the client that creates a channel, those of the third to a client that a mask
  names. The theorems say who is let in, what becomes of its invitation, and that a join returns and
  adds exactly one membership.
\<close>

unbundle bit_operations_syntax

section \<open>The hooks of a join\<close>

text \<open>The arguments of a hook: the reply and the list of changes are passed by address and kept in the
  state.\<close>

datatype hook_arg = Arg_lclient "ptr option" | Arg_client ptr | Arg_channel ptr | Arg_chanuser "ptr option"
  | Arg_text "string option" | Arg_type int | Arg_reply | Arg_list

subsection \<open>Who may enter\<close>

definition client_user :: "ircd \<Rightarrow> client \<Rightarrow> user option option" where
  "client_user s cl = (case c_user cl of None \<Rightarrow> Some None | Some u \<Rightarrow> map_option Some (users s u))"

text \<open>\<open>chanmode_match_ban\<close> with the list of a letter.\<close>

definition client_matches :: "ircd \<Rightarrow> ptr \<Rightarrow> ptr \<Rightarrow> char \<Rightarrow> bool option" where
  "client_matches s cptr k letter = do {
     ch \<leftarrow> channels s k;
     xs \<leftarrow> rd (ch_modelists ch) (chanmode_index letter);
     cl \<leftarrow> clients s cptr;
     u \<leftarrow> client_user s cl;
     match_ban cl u xs }"

definition cm_invite_hook :: "ircd \<Rightarrow> ptr \<Rightarrow> ptr \<Rightarrow> int \<Rightarrow> (ircd \<times> int) option" where
  "cm_invite_hook s cptr k reply =
     (if (reply > 0 \<or> reply = - int (ord (CHR ''I''))) \<and> reply \<noteq> 471 \<and> reply \<noteq> 475 then Some (s, reply)
      else do {
        u \<leftarrow> user_of s cptr;
        found \<leftarrow> find_invite s u k;
        (case found of
          Some p \<Rightarrow> do { s \<leftarrow> user_uninvite s p; Some (s, - int (ord (CHR ''i''))) }
        | None \<Rightarrow> do {
            ch \<leftarrow> channels s k;
            Some (s, if ch_modes ch AND chflg (CHR ''i'') \<noteq> 0 then 473 else reply) }) })"

definition cm_ban_hook :: "ircd \<Rightarrow> ptr \<Rightarrow> ptr \<Rightarrow> int \<Rightarrow> (ircd \<times> int) option" where
  "cm_ban_hook s cptr k reply =
     (if reply > 0 \<or> reply = - int (ord (CHR ''e'')) then Some (s, reply)
      else do { b \<leftarrow> client_matches s cptr k (CHR ''b''); Some (s, if b then 474 else reply) })"

definition cm_deny_hook :: "ircd \<Rightarrow> ptr \<Rightarrow> ptr \<Rightarrow> int \<Rightarrow> (ircd \<times> int) option" where
  "cm_deny_hook s cptr k reply =
     (if reply > 0 \<or> reply = - int (ord (CHR ''e'')) then Some (s, reply)
      else do {
        ch \<leftarrow> channels s k;
        xs \<leftarrow> rd (ch_modelists ch) (chanmode_index (CHR ''d''));
        cl \<leftarrow> clients s cptr;
        b \<leftarrow> match_deny cl xs;
        Some (s, if b then 470 else reply) })"

definition cm_except_hook :: "ircd \<Rightarrow> ptr \<Rightarrow> ptr \<Rightarrow> int \<Rightarrow> (ircd \<times> int) option" where
  "cm_except_hook s cptr k reply =
     (if reply > 0 \<and> reply \<noteq> 474 \<and> reply \<noteq> 470 then Some (s, reply)
      else do { b \<leftarrow> client_matches s cptr k (CHR ''e''); Some (s, if b then - int (ord (CHR ''e'')) else reply) })"

definition cm_invex_hook :: "ircd \<Rightarrow> ptr \<Rightarrow> ptr \<Rightarrow> int \<Rightarrow> (ircd \<times> int) option" where
  "cm_invex_hook s cptr k reply =
     (if (reply > 0 \<and> reply \<noteq> 473 \<and> reply \<noteq> 471 \<and> reply \<noteq> 475) \<or> reply = - int (ord (CHR ''i'')) then Some (s, reply)
      else do {
        b \<leftarrow> client_matches s cptr k (CHR ''I'');
        if b then do {
          u \<leftarrow> user_of s cptr;
          found \<leftarrow> find_invite s u k;
          s \<leftarrow> (case found of Some p \<Rightarrow> user_uninvite s p | None \<Rightarrow> Some s);
          Some (s, - int (ord (CHR ''I''))) }
        else Some (s, reply) })"

definition cm_limit_hook :: "ircd \<Rightarrow> ptr \<Rightarrow> ptr \<Rightarrow> int \<Rightarrow> (ircd \<times> int) option" where
  "cm_limit_hook s cptr k reply =
     (if reply > 0 \<or> reply = - int (ord (CHR ''I'')) \<or> reply = - int (ord (CHR ''i'')) then Some (s, reply)
      else do {
        ch \<leftarrow> channels s k;
        Some (s, if ch_modes ch AND chflg (CHR ''l'') \<noteq> 0 \<and> of_nat (length (ch_chanusers ch)) + 1 > ch_limit ch
          then 471 else reply) })"

definition cm_key_hook :: "ircd \<Rightarrow> ptr \<Rightarrow> ptr \<Rightarrow> string option \<Rightarrow> int \<Rightarrow> (ircd \<times> int) option" where
  "cm_key_hook s cptr k key reply =
     (if reply > 0 \<or> reply = - int (ord (CHR ''I'')) \<or> reply = - int (ord (CHR ''i'')) then Some (s, reply)
      else do {
        ch \<leftarrow> channels s k;
        Some (s, if ch_modes ch AND chflg (CHR ''k'') \<noteq> 0 then
            (case key of None \<Rightarrow> 475 | Some key \<Rightarrow> if str_cmp (ch_key ch) key \<noteq> 0 then 475 else reply)
          else reply) })"

text \<open>The call through the address of the callback. What a callback without a result leaves is not read
  by the caller.\<close>

definition join_first :: "callback \<Rightarrow> hook_arg list \<Rightarrow> ircd \<times> int \<Rightarrow> ((ircd \<times> int) \<times> int) option" where
  "join_first cb args x = (case (args, x) of
     ([Arg_client cptr, Arg_channel k, Arg_text key, Arg_reply], (s, reply)) \<Rightarrow>
       map_option (\<lambda>x. (x, 0)) (case cb of
         Cm_invite_hook \<Rightarrow> cm_invite_hook s cptr k reply
       | Cm_ban_hook \<Rightarrow> cm_ban_hook s cptr k reply
       | Cm_deny_hook \<Rightarrow> cm_deny_hook s cptr k reply
       | Cm_except_hook \<Rightarrow> cm_except_hook s cptr k reply
       | Cm_invex_hook \<Rightarrow> cm_invex_hook s cptr k reply
       | Cm_limit_hook \<Rightarrow> cm_limit_hook s cptr k reply
       | Cm_key_hook \<Rightarrow> cm_key_hook s cptr k key reply
       | _ \<Rightarrow> None)
   | _ \<Rightarrow> None)"

subsection \<open>First privileges\<close>

text \<open>Setting a privilege, rewriting the prefix and adding the change to the list.\<close>

definition grant_mode :: "ircd \<Rightarrow> chanmodechange list \<Rightarrow> ptr \<Rightarrow> char \<Rightarrow> (ircd \<times> chanmodechange list) option" where
  "grant_mode s list p letter = do {
     cu \<leftarrow> chanusers s p;
     s \<leftarrow> chanuser_mode_set s p (cu_flags cu OR chflg letter);
     (list, _) \<leftarrow> chanmode_change_add s list CHANMODE_ADD letter None (Some p);
     Some (s, list) }"

definition cm_op_hook :: "ircd \<Rightarrow> chanmodechange list \<Rightarrow> ptr \<Rightarrow> (ircd \<times> chanmodechange list) option" where
  "cm_op_hook s list p = grant_mode s list p (CHR ''o'')"

definition cm_halfop_hook :: "ircd \<Rightarrow> chanmodechange list \<Rightarrow> ptr \<Rightarrow> (ircd \<times> chanmodechange list) option" where
  "cm_halfop_hook s list p = grant_mode s list p (CHR ''h'')"

definition cm_voice_hook :: "ircd \<Rightarrow> chanmodechange list \<Rightarrow> ptr \<Rightarrow> (ircd \<times> chanmodechange list) option" where
  "cm_voice_hook s list p = grant_mode s list p (CHR ''v'')"

text \<open>\<open>chanmode_match_amode\<close> with the list of a letter, for a block.\<close>

definition member_matches :: "ircd \<Rightarrow> ptr \<Rightarrow> char \<Rightarrow> bool option" where
  "member_matches s p letter = do {
     cu \<leftarrow> chanusers s p;
     ch \<leftarrow> channels s (cu_channel cu);
     xs \<leftarrow> rd (ch_modelists ch) (chanmode_index letter);
     cl \<leftarrow> clients s (cu_client cu);
     u \<leftarrow> client_user s cl;
     match_amode cl u xs }"

definition cm_aop_hook :: "ircd \<Rightarrow> chanmodechange list \<Rightarrow> ptr \<Rightarrow> (ircd \<times> chanmodechange list) option" where
  "cm_aop_hook s list p = do {
     b \<leftarrow> member_matches s p (CHR ''O'');
     if b then grant_mode s list p (CHR ''o'') else Some (s, list) }"

definition cm_ahalfop_hook :: "ircd \<Rightarrow> chanmodechange list \<Rightarrow> ptr \<Rightarrow> (ircd \<times> chanmodechange list) option" where
  "cm_ahalfop_hook s list p = do {
     b \<leftarrow> member_matches s p (CHR ''H'');
     if b then grant_mode s list p (CHR ''h'') else Some (s, list) }"

definition cm_avoice_hook :: "ircd \<Rightarrow> chanmodechange list \<Rightarrow> ptr \<Rightarrow> (ircd \<times> chanmodechange list) option" where
  "cm_avoice_hook s list p = do {
     b \<leftarrow> member_matches s p (CHR ''V'');
     if b then grant_mode s list p (CHR ''v'') else Some (s, list) }"

definition join_modes :: "callback \<Rightarrow> hook_arg list \<Rightarrow> ircd \<times> chanmodechange list \<Rightarrow> ((ircd \<times> chanmodechange list) \<times> int) option" where
  "join_modes cb args x = (case (args, x) of
     ([Arg_list, Arg_chanuser (Some p)], (s, list)) \<Rightarrow>
       map_option (\<lambda>x. (x, 0)) (case cb of
         Cm_op_hook \<Rightarrow> cm_op_hook s list p
       | Cm_halfop_hook \<Rightarrow> cm_halfop_hook s list p
       | Cm_voice_hook \<Rightarrow> cm_voice_hook s list p
       | Cm_aop_hook \<Rightarrow> cm_aop_hook s list p
       | Cm_ahalfop_hook \<Rightarrow> cm_ahalfop_hook s list p
       | Cm_avoice_hook \<Rightarrow> cm_avoice_hook s list p
       | _ \<Rightarrow> None)
   | _ \<Rightarrow> None)"

subsection \<open>After the join\<close>

text \<open>The replay of a backlog entry. What the hook writes to the log files is left out.\<close>

definition replay_entry :: "ircd \<Rightarrow> ptr \<Rightarrow> string \<Rightarrow> ptr \<Rightarrow> ircd option" where
  "replay_entry s cptr name e = do {
     le \<leftarrow> logentries s e;
     Some (send (case le_text le of
       Some t \<Rightarrow> if cur t \<noteq> NUL
         then Client_line cptr '':%S 610 %N %s %u %s %s :%s'' [Server (server_me s), Client cptr, Str name,
           Num (unat (le_ts le)), Str (le_from le), Str (le_cmd le), Str t]
         else Client_line cptr '':%S 610 %N %s %u %s %s'' [Server (server_me s), Client cptr, Str name,
           Num (unat (le_ts le)), Str (le_from le), Str (le_cmd le)]
     | None \<Rightarrow> Client_line cptr '':%S 610 %N %s %u %s %s'' [Server (server_me s), Client cptr, Str name,
           Num (unat (le_ts le)), Str (le_from le), Str (le_cmd le)]) s) }"

definition cm_persistent_join_hook :: "ircd \<Rightarrow> ptr \<Rightarrow> ptr \<Rightarrow> ircd option" where
  "cm_persistent_join_hook s cptr k = do {
     ch \<leftarrow> channels s k;
     if ch_server ch \<noteq> server_me s then Some s
     else if ch_modes ch AND chflg (CHR ''P'') \<noteq> 0 then do {
       s \<leftarrow> for_each (\<lambda>s e. replay_entry s cptr (ch_name ch) e) s (ch_backlog ch);
       Some (send (Client_line cptr '':%S 611 %N %s :End of message replay''
         [Server (server_me s), Client cptr, Str (ch_name ch)]) s) }
     else Some s }"

definition join_last :: "callback \<Rightarrow> hook_arg list \<Rightarrow> ircd \<Rightarrow> (ircd \<times> int) option" where
  "join_last cb args s = (case args of
     [Arg_lclient lcptr, Arg_client cptr, Arg_channel k] \<Rightarrow>
       map_option (\<lambda>s. (s, 0)) (case cb of
         Cm_persistent_join_hook \<Rightarrow> cm_persistent_join_hook s cptr k
       | Cm_alarm_join_hook \<Rightarrow> Some s
       | _ \<Rightarrow> None)
   | _ \<Rightarrow> None)"

section \<open>The join\<close>

text \<open>The part of \<open>channel_join\<close> for a channel that exists: the state at a return, or the state, the new
  block and the changes to announce. \<open>a\<close> is the block that the allocation returns.\<close>

definition join_existing :: "chan_hook list \<Rightarrow> ptr \<Rightarrow> ircd \<Rightarrow> ptr \<Rightarrow> ptr \<Rightarrow> string option \<Rightarrow>
    (ircd + ircd \<times> ptr \<times> chanmodechange list) option" where
  "join_existing hs a s cptr k key = do {
     found \<leftarrow> chanuser_find s k cptr;
     if found \<noteq> None then Some (Inl s)
     else do {
       ((s, reply), _) \<leftarrow> hooks_call join_first hs Channel_join HOOK_1ST
         [Arg_client cptr, Arg_channel k, Arg_text key, Arg_reply] (s, 0);
       if reply > 0 then do {
         ch \<leftarrow> channels s k;
         Some (Inl (send (Numeric cptr (nat reply) [Str (ch_name ch)]) s)) }
       else do {
         (s, cuptr) \<leftarrow> chanuser_add s a k cptr;
         p \<leftarrow> cuptr;
         ((s, modes), _) \<leftarrow> hooks_call join_modes hs Channel_join HOOK_3RD [Arg_list, Arg_chanuser (Some p)] (s, []);
         Some (Inr (s, p, modes)) } } }"

text \<open>The part for a new channel; the allocation returns the block \<open>k\<close> for it.\<close>

definition join_new :: "(64 word \<Rightarrow> 64 word) \<Rightarrow> chan_hook list \<Rightarrow> ptr \<Rightarrow> ptr \<Rightarrow> ircd \<Rightarrow> ptr \<Rightarrow> string \<Rightarrow>
    (ircd \<times> ptr \<times> chanmodechange list) option" where
  "join_new shl hs k a s cptr name = do {
     (s, k) \<leftarrow> channel_new shl s k name;
     cl \<leftarrow> clients s cptr;
     s \<leftarrow> (if client_is_local cl then do { ch \<leftarrow> channels s k; Some (put_channel k (ch\<lparr>ch_server := server_me s\<rparr>) s) }
       else Some s);
     (s, cuptr) \<leftarrow> chanuser_add s a k cptr;
     p \<leftarrow> cuptr;
     ((s, modes), _) \<leftarrow> hooks_call join_modes hs Channel_join HOOK_2ND [Arg_list, Arg_chanuser (Some p)] (s, []);
     Some (s, p, modes) }"

text \<open>The topic, or that there is none.\<close>

definition show_topic :: "ircd \<Rightarrow> ptr \<Rightarrow> ptr \<Rightarrow> ircd option" where
  "show_topic s cptr k = do {
     ch \<leftarrow> channels s k;
     Some (if cur (ch_topic ch) = NUL then send (Numeric cptr 331 [Str (ch_name ch)]) s
       else send (Numeric cptr 333 [Str (ch_name ch), Str (ch_topic_info ch), Num (unat (ch_topic_ts ch))])
         (send (Numeric cptr 332 [Str (ch_name ch), Str (ch_topic ch)]) s)) }"

text \<open>What is sent after the client was added: the nodes from the one of the new block on are those
  that are introduced.\<close>

definition join_announce :: "format_table \<Rightarrow> chan_hook list \<Rightarrow> ircd \<Rightarrow> ptr option \<Rightarrow> ptr \<Rightarrow> ptr \<Rightarrow> ptr \<Rightarrow> chanmodechange list \<Rightarrow>
    ircd option" where
  "join_announce ft hs s lcptr cptr k p modes = do {
     ch \<leftarrow> channels s k;
     let new = dropWhile (\<lambda>q. q \<noteq> p) (ch_chanusers ch);
     s \<leftarrow> chanuser_introduce ft s None None new;
     s \<leftarrow> chanuser_send_joins s None new;
     s \<leftarrow> show_topic s cptr k;
     s \<leftarrow> chanuser_show ft s cptr k (Some p) 1;
     s \<leftarrow> (if modes \<noteq> [] then chanmode_send_local ft s (client_me s) k modes CHANMODE_PER_LINE else Some s);
     (s, _) \<leftarrow> hooks_call join_last hs Channel_join HOOK_4TH [Arg_lclient lcptr, Arg_client cptr, Arg_channel k] s;
     Some s }"

definition channel_join :: "(64 word \<Rightarrow> 64 word) \<Rightarrow> format_table \<Rightarrow> chan_hook list \<Rightarrow> ptr \<Rightarrow> ptr \<Rightarrow> ircd \<Rightarrow> ptr option \<Rightarrow> ptr \<Rightarrow>
    string \<Rightarrow> string option \<Rightarrow> ircd option" where
  "channel_join shl ft hs k0 a s lcptr cptr name key = do {
     found \<leftarrow> channel_find_name shl s name;
     (case found of
       Some k \<Rightarrow> do {
         r \<leftarrow> join_existing hs a s cptr k key;
         (case r of Inl s \<Rightarrow> Some s
          | Inr (s, p, modes) \<Rightarrow> join_announce ft hs s lcptr cptr k p modes) }
     | None \<Rightarrow> do {
         (s, p, modes) \<leftarrow> join_new shl hs k0 a s cptr name;
         join_announce ft hs s lcptr cptr k0 p modes }) }"

subsection \<open>The command\<close>

definition IRCD_MAXCHANNELS :: nat where "IRCD_MAXCHANNELS = 16"

text \<open>The loop over the names with their keys; \<open>fresh\<close> are the blocks that the allocations return.\<close>

fun join_loop :: "(64 word \<Rightarrow> 64 word) \<Rightarrow> format_table \<Rightarrow> chan_hook list \<Rightarrow> (nat \<Rightarrow> ptr \<times> ptr) \<Rightarrow> nat \<Rightarrow> ircd \<Rightarrow> ptr option \<Rightarrow> ptr \<Rightarrow>
    (string \<times> string option) list \<Rightarrow> ircd option" where
  "join_loop shl ft hs fresh i s lcptr cptr [] = Some s"
| "join_loop shl ft hs fresh i s lcptr cptr ((name, key) # rest) =
     (if \<not> chars_valid_chan (Some name) \<or> length (cstr name) > IRCD_CHANNELLEN
      then Some (send (Numeric cptr 479 [Str name]) s)
      else if \<not> channel_is_valid (Some name) then Some (send (Numeric cptr 403 [Str name]) s)
      else do {
        u \<leftarrow> user_of s cptr;
        us \<leftarrow> users s u;
        if length (u_channels us) = IRCD_MAXCHANNELS then Some (send (Numeric cptr 405 [Str name]) s)
        else do {
          s \<leftarrow> channel_join shl ft hs (fst (fresh i)) (snd (fresh i)) s lcptr cptr name key;
          join_loop shl ft hs fresh (i + 1) s lcptr cptr rest } })"

text \<open>\<open>v\<close> is what the stack held in \<open>chanv\<close>; \<open>keyv\<close> is cleared.\<close>

definition m_join :: "(64 word \<Rightarrow> 64 word) \<Rightarrow> format_table \<Rightarrow> chan_hook list \<Rightarrow> (nat \<Rightarrow> ptr \<times> ptr) \<Rightarrow> pvec \<Rightarrow> ircd \<Rightarrow> ptr option \<Rightarrow> ptr \<Rightarrow>
    string list \<Rightarrow> ircd option" where
  "m_join shl ft hs fresh v s lcptr cptr argv = do {
     a \<leftarrow> argv_at argv 2;
     (b, v, n) \<leftarrow> str_tokenize_s (a @ [NUL]) v IRCD_MAXCHANNELS (CHR '','');
     names \<leftarrow> those (map (\<lambda>i. Option.bind (arg_at b v i) id) [0..<n]);
     let keyv = replicate (IRCD_MAXCHANNELS + 1) None;
     (kb, keyv) \<leftarrow> (case argv_at argv 3 of
       Some a \<Rightarrow> do { (b, v, _) \<leftarrow> str_tokenize_s (a @ [NUL]) keyv IRCD_MAXCHANNELS (CHR '',''); Some (b, v) }
     | None \<Rightarrow> Some ([], keyv));
     keys \<leftarrow> those (map (arg_at kb keyv) [0..<n]);
     join_loop shl ft hs fresh 0 s lcptr cptr (zip names keys) }"

section \<open>The decision\<close>

text \<open>What the channel asks of a client that was not invited and is not on the list of invitations.\<close>

definition has_room :: "channel \<Rightarrow> bool" where
  "has_room ch \<longleftrightarrow> ch_modes ch AND chflg (CHR ''l'') = 0 \<or> of_nat (length (ch_chanusers ch)) + 1 \<le> ch_limit ch"

definition knows_key :: "channel \<Rightarrow> string option \<Rightarrow> bool" where
  "knows_key ch key \<longleftrightarrow> ch_modes ch AND chflg (CHR ''k'') = 0 \<or> (\<exists>t. key = Some t \<and> str_cmp (ch_key ch) t = 0)"

text \<open>Who is let in, of the mode +i, an invitation, the lists +b, +d, +e and +I, and the room and key.\<close>

definition lets_in :: "bool \<Rightarrow> bool \<Rightarrow> bool \<Rightarrow> bool \<Rightarrow> bool \<Rightarrow> bool \<Rightarrow> bool" where
  "lets_in only asked banned exc invex roomy =
     (if only \<and> \<not> asked then invex
      else if banned \<and> \<not> exc then False
      else invex \<or> asked \<and> \<not> exc \<or> roomy)"

definition refusal :: "bool \<Rightarrow> bool \<Rightarrow> bool \<Rightarrow> bool \<Rightarrow> bool \<Rightarrow> bool \<Rightarrow> nat" where
  "refusal only asked ban deny exc roomy =
     (if only \<and> \<not> asked then 473
      else if ban \<and> \<not> exc then 474
      else if deny \<and> \<not> exc then 470
      else if \<not> roomy then 471 else 475)"

text \<open>Taking an invitation back changes the lists of invitations only.\<close>

definition same_but_invites :: "ircd \<Rightarrow> ircd \<Rightarrow> bool" where
  "same_but_invites s t \<longleftrightarrow> (\<exists>us cs iv. t = s\<lparr>users := us, channels := cs, invites := iv\<rparr> \<and>
     (\<forall>u. map_option (\<lambda>x. x\<lparr>u_invites := []\<rparr>) (us u) = map_option (\<lambda>x. x\<lparr>u_invites := []\<rparr>) (users s u)) \<and>
     (\<forall>k. map_option (\<lambda>x. x\<lparr>ch_invites := []\<rparr>) (cs k) = map_option (\<lambda>x. x\<lparr>ch_invites := []\<rparr>) (channels s k)))"

lemma same_but_invites_refl [simp, intro]: "same_but_invites s s"
  unfolding same_but_invites_def by (rule exI[of _ "users s"], rule exI[of _ "channels s"], rule exI[of _ "invites s"]) simp

lemma uninvite_same:
  assumes "user_uninvite s p = Some t"
  shows "same_but_invites s t"
proof -
  obtain iv ch cs u us where i: "invites s p = Some iv" "channels s (iv_channel iv) = Some ch" "users s (iv_user iv) = Some u"
    "t = put_user (iv_user iv) (u\<lparr>u_invites := us\<rparr>) (put_channel (iv_channel iv) (ch\<lparr>ch_invites := cs\<rparr>) s)\<lparr>invites := (invites s)(p := None)\<rparr>"
    using assms by (auto simp: user_uninvite_def Let_def split: bind_splits)
  show ?thesis
    unfolding same_but_invites_def
    by (rule exI[of _ "users t"], rule exI[of _ "channels t"], rule exI[of _ "invites t"])
      (use i(2,3) in \<open>auto simp: i(4) put_user_def put_channel_def\<close>)
qed

lemma same_but_invites_fields:
  assumes "same_but_invites s t"
  shows "clients t = clients s" "chanusers t = chanusers s" "modes_table t = modes_table s" "client_me t = client_me s"
    "server_me t = server_me s" "logentries t = logentries s" "sent t = sent s" "user_of t = user_of s"
    "channels s k = Some ch \<Longrightarrow> \<exists>is. channels t k = Some (ch\<lparr>ch_invites := is\<rparr>)"
    "users s u = Some us \<Longrightarrow> \<exists>is. users t u = Some (us\<lparr>u_invites := is\<rparr>)"
proof -
  obtain us' cs iv where t: "t = s\<lparr>users := us', channels := cs, invites := iv\<rparr>"
    "\<And>u. map_option (\<lambda>x. x\<lparr>u_invites := []\<rparr>) (us' u) = map_option (\<lambda>x. x\<lparr>u_invites := []\<rparr>) (users s u)"
    "\<And>k. map_option (\<lambda>x. x\<lparr>ch_invites := []\<rparr>) (cs k) = map_option (\<lambda>x. x\<lparr>ch_invites := []\<rparr>) (channels s k)"
    using assms unfolding same_but_invites_def by blast
  show "clients t = clients s" "chanusers t = chanusers s" "modes_table t = modes_table s" "client_me t = client_me s"
    "server_me t = server_me s" "logentries t = logentries s" "sent t = sent s" "user_of t = user_of s"
    by (simp_all add: t(1) user_of_def fun_eq_iff)
  show "\<exists>is. channels t k = Some (ch\<lparr>ch_invites := is\<rparr>)" if k: "channels s k = Some ch"
  proof -
    obtain c' where c': "cs k = Some c'" "c'\<lparr>ch_invites := []\<rparr> = ch\<lparr>ch_invites := []\<rparr>"
      using t(3)[of k] k by auto
    then have "c' = ch\<lparr>ch_invites := ch_invites c'\<rparr>" by (cases c'; cases ch) simp
    then show ?thesis using c'(1) by (auto simp: t(1))
  qed
  show "\<exists>is. users t u = Some (us\<lparr>u_invites := is\<rparr>)" if u: "users s u = Some us"
  proof -
    obtain c' where c': "us' u = Some c'" "c'\<lparr>u_invites := []\<rparr> = us\<lparr>u_invites := []\<rparr>"
      using t(2)[of u] u by auto
    then have "c' = us\<lparr>u_invites := u_invites c'\<rparr>" by (cases c'; cases us) simp
    then show ?thesis using c'(1) by (auto simp: t(1))
  qed
qed

lemma match_ban_user:
  assumes "u_name u = u_name v"
  shows "match_ban c (Some u) xs = match_ban c (Some v) xs"
proof (induction xs)
  case (Cons x xs)
  have "(\<lambda>b. if \<not> b then match_ban c (Some u) xs else f b) = (\<lambda>b. if \<not> b then match_ban c (Some v) xs else f b)"
    "(\<lambda>b. if b then Some True else match_ban c (Some u) xs) = (\<lambda>b. if b then Some True else match_ban c (Some v) xs)" for f
    using Cons.IH by auto
  then show ?case by (simp only: match_ban.simps option.case assms)
qed simp

lemma client_matches_same:
  assumes t: "same_but_invites s t" and k: "channels s k = Some ch" and c: "clients s c = Some cl"
    and u: "c_user cl = Some u" "users s u = Some us"
  shows "client_matches t c k x = client_matches s c k x"
proof -
  note f = same_but_invites_fields[OF t]
  obtain i j where "channels t k = Some (ch\<lparr>ch_invites := i\<rparr>)" "users t u = Some (us\<lparr>u_invites := j\<rparr>)"
    using f(9)[OF k] f(10)[OF u(2)] by blast
  then show ?thesis
    using k c u match_ban_user[of "us\<lparr>u_invites := j\<rparr>" us cl] f(1)
    by (simp add: client_matches_def client_user_def)
qed

text \<open>The tests of the lists, as one reads them off the channel.\<close>

definition join_tests :: "ircd \<Rightarrow> ptr \<Rightarrow> ptr \<Rightarrow> bool \<Rightarrow> bool \<Rightarrow> bool \<Rightarrow> bool \<Rightarrow> bool" where
  "join_tests s c k ban deny exc invex \<longleftrightarrow> client_matches s c k (CHR ''b'') = Some ban \<and>
     client_matches s c k (CHR ''e'') = Some exc \<and> client_matches s c k (CHR ''I'') = Some invex \<and>
     (\<exists>ch cl xs. channels s k = Some ch \<and> clients s c = Some cl \<and>
       rd (ch_modelists ch) (chanmode_index (CHR ''d'')) = Some xs \<and> match_deny cl xs = Some deny)"

lemma join_tests_same:
  assumes "same_but_invites s t" "channels s k = Some ch" "clients s c = Some cl" "c_user cl = Some u" "users s u = Some us"
  shows "join_tests t c k ban deny exc invex = join_tests s c k ban deny exc invex"
proof -
  obtain i where "channels t k = Some (ch\<lparr>ch_invites := i\<rparr>)" using same_but_invites_fields(9)[OF assms(1,2)] by blast
  then show ?thesis
    using assms(2,3) same_but_invites_fields(1)[OF assms(1)] client_matches_same[OF assms] by (simp add: join_tests_def)
qed

text \<open>What each hook makes of the reply, with the tests done.\<close>

definition ban_step :: "bool \<Rightarrow> int \<Rightarrow> int \<Rightarrow> int" where
  "ban_step b n r = (if r > 0 \<or> r = - 101 then r else if b then n else r)"

definition except_step :: "bool \<Rightarrow> int \<Rightarrow> int" where
  "except_step b r = (if r > 0 \<and> r \<noteq> 474 \<and> r \<noteq> 470 then r else if b then - 101 else r)"

definition invex_step :: "bool \<Rightarrow> int \<Rightarrow> int" where
  "invex_step b r = (if r > 0 \<and> r \<noteq> 473 \<and> r \<noteq> 471 \<and> r \<noteq> 475 \<or> r = - 105 then r else if b then - 73 else r)"

definition room_step :: "bool \<Rightarrow> int \<Rightarrow> int \<Rightarrow> int" where
  "room_step b n r = (if r > 0 \<or> r = - 73 \<or> r = - 105 then r else if \<not> b then n else r)"

definition invite_step :: "bool \<Rightarrow> bool \<Rightarrow> int" where
  "invite_step only asked = (if asked then - 105 else if only then 473 else 0)"

lemma join_hook_results:
  assumes "join_tests s c k ban deny exc invex" "channels s k = Some ch"
  shows "cm_ban_hook s c k r = Some (s, ban_step ban 474 r)" "cm_deny_hook s c k r = Some (s, ban_step deny 470 r)"
    "cm_except_hook s c k r = Some (s, except_step exc r)" "cm_limit_hook s c k r = Some (s, room_step (has_room ch) 471 r)"
    "cm_key_hook s c k key r = Some (s, room_step (knows_key ch key) 475 r)"
  using assms
  by (auto simp: join_tests_def cm_ban_hook_def cm_deny_hook_def cm_except_hook_def cm_limit_hook_def cm_key_hook_def
    ban_step_def except_step_def room_step_def has_room_def knows_key_def not_le split: option.split)

lemma cm_invex_result:
  assumes "join_tests s c k ban deny exc invex" "user_of s c = Some u" "find_invite s u k = Some None"
  shows "cm_invex_hook s c k r = Some (s, invex_step invex r)"
  using assms by (auto simp: join_tests_def cm_invex_hook_def invex_step_def)

text \<open>All cases of the tests.\<close>

definition join_reply :: "bool \<Rightarrow> bool \<Rightarrow> bool \<Rightarrow> bool \<Rightarrow> bool \<Rightarrow> bool \<Rightarrow> bool \<Rightarrow> bool \<Rightarrow> int" where
  "join_reply only asked ban deny exc invex roomy key = room_step key 475 (room_step roomy 471 (invex_step invex
     (except_step exc (ban_step deny 470 (ban_step ban 474 (invite_step only asked))))))"

lemmas join_steps = ban_step_def except_step_def invex_step_def room_step_def invite_step_def

lemma join_reply_all:
  "0 < join_reply only asked ban deny exc invex roomy key \<longleftrightarrow> \<not> lets_in only asked (ban \<or> deny) exc invex (roomy \<and> key)"
  "0 < join_reply only asked ban deny exc invex roomy key \<Longrightarrow>
    nat (join_reply only asked ban deny exc invex roomy key) = refusal only asked ban deny exc roomy"
  by (cases only; cases asked; cases ban; cases deny; cases exc; cases invex; cases roomy; cases key;
      simp add: join_reply_def join_steps lets_in_def refusal_def)+

text \<open>The invitation is used up at once.\<close>

lemma invite_hook_result:
  assumes wf: "state_wf shl s" and k: "channels s k = Some ch" and u: "user_of s c = Some u" "users s u = Some us"
  obtains t where "cm_invite_hook s c k 0 = Some (t, invite_step (ch_modes ch AND chflg (CHR ''i'') \<noteq> 0) ((k, u) \<in> invited s))"
    "same_but_invites s t" "state_wf shl t" "members t = members s" "invited t = invited s - {(k, u)}"
    "find_invite t u k = Some None"
proof -
  obtain r where r: "find_invite s u k = Some r" "r = None \<longleftrightarrow> (k, u) \<notin> invited s"
    "\<And>p. r = Some p \<Longrightarrow> p \<in> set (chan_invites s k) \<and> (\<exists>iv. invites s p = Some iv \<and> iv_user iv = u)"
    using find_invite_correct[OF wf u(2), of k] by blast
  show thesis
  proof (cases r)
    case None
    then show thesis using that[of s] r wf k u by (auto simp: cm_invite_hook_def invite_step_def)
  next
    case (Some p)
    then obtain iv where p: "p \<in> set (chan_invites s k)" "invites s p = Some iv" "iv_user iv = u" using r(3) by blast
    obtain t where t: "user_uninvite s p = Some t" "state_wf shl t" "members t = members s"
      "invites t = (invites s)(p := None)" "chan_invites t = (chan_invites s)(k := removeAll p (chan_invites s k))"
      by (rule revoke_wf[OF wf p(1)], rule that)
    have inv: "invited t = invited s - {(k, u)}"
      using revoked_relation[OF state_wfD(3)[OF wf] p(1,2) t(4,5)] p(3) by simp
    have same: "same_but_invites s t" by (rule uninvite_same[OF t(1)])
    obtain i where us: "users t u = Some (us\<lparr>u_invites := i\<rparr>)" using same_but_invites_fields(10)[OF same u(2)] by blast
    obtain q where q: "find_invite t u k = Some q" "q = None \<longleftrightarrow> (k, u) \<notin> invited t"
      using find_invite_correct[OF t(2) us, of k] by blast
    show thesis
      by (rule that[of t]) (use r Some t inv same q u in \<open>auto simp: cm_invite_hook_def invite_step_def\<close>)
  qed
qed

lemma join_first_result:
  fixes key :: "string option"
  assumes wf: "state_wf shl s" and k: "channels s k = Some ch" and c: "clients s c = Some cl" "c_user cl = Some u"
    and us: "users s u = Some us" and tests: "join_tests s c k ban deny exc invex"
  defines "only \<equiv> ch_modes ch AND chflg (CHR ''i'') \<noteq> 0" and "asked \<equiv> (k, u) \<in> invited s"
    and "roomy \<equiv> has_room ch \<and> knows_key ch key"
  obtains t r where "hooks_call join_first chanmode_hooks Channel_join HOOK_1ST
      [Arg_client c, Arg_channel k, Arg_text key, Arg_reply] (s, 0) = Some ((t, r), 0)"
    "same_but_invites s t" "state_wf shl t" "members t = members s" "invited t = invited s - {(k, u)}"
    "r > 0 \<longleftrightarrow> \<not> lets_in only asked (ban \<or> deny) exc invex roomy"
    "r > 0 \<longrightarrow> nat r = refusal only asked ban deny exc (has_room ch)"
proof -
  have u: "user_of s c = Some u" using c by (simp add: user_of_def)
  obtain t where t: "cm_invite_hook s c k 0 = Some (t, invite_step only asked)"
    "same_but_invites s t" "state_wf shl t" "members t = members s" "invited t = invited s - {(k, u)}"
    "find_invite t u k = Some None"
    using invite_hook_result[OF wf k u us] unfolding only_def asked_def by blast
  obtain i where ch: "channels t k = Some (ch\<lparr>ch_invites := i\<rparr>)" using same_but_invites_fields(9)[OF t(2) k] by blast
  have tt: "join_tests t c k ban deny exc invex" using tests join_tests_same[OF t(2) k c us] by simp
  have ut: "user_of t c = Some u" using u same_but_invites_fields(8)[OF t(2)] by simp
  have same: "has_room (ch\<lparr>ch_invites := i\<rparr>) = has_room ch" "knows_key (ch\<lparr>ch_invites := i\<rparr>) y = knows_key ch y" for y
    by (simp_all add: has_room_def knows_key_def)
  note hooks = join_hook_results[OF tt ch, unfolded same] cm_invex_result[OF tt ut t(6)]
  define r where "r = join_reply only asked ban deny exc invex (has_room ch) (knows_key ch key)"
  have call: "hooks_call join_first chanmode_hooks Channel_join HOOK_1ST
      [Arg_client c, Arg_channel k, Arg_text key, Arg_reply] (s, 0) = Some ((t, r), 0)"
    unfolding hooks_call_callbacks join_callbacks r_def join_reply_def by (simp add: HOOK_MAXARGS_def join_first_def t(1) hooks)
  show thesis
    by (rule that[OF call t(2-5)])
      (use join_reply_all in \<open>simp_all add: r_def roomy_def\<close>)
qed

section \<open>Privileges of a new member\<close>

text \<open>The part of a block that the relation of members is made of.\<close>

definition block_key :: "ircd \<Rightarrow> ptr \<Rightarrow> (bool \<times> ptr \<times> ptr) option" where
  "block_key s p = map_option (\<lambda>cu. (cu_local cu, cu_channel cu, cu_client cu)) (chanusers s p)"

lemma members_by_key:
  "is_local s p \<longleftrightarrow> (\<exists>k c. block_key s p = Some (True, k, c))"
  "block_ok s k p \<longleftrightarrow> (\<exists>l c u us. block_key s p = Some (l, k, c) \<and> user_of s c = Some u \<and> users s u = Some us \<and> p \<in> set (u_channels us))"
  "owned s u p \<longleftrightarrow> (\<exists>l k c. block_key s p = Some (l, k, c) \<and> user_of s c = Some u \<and> p \<in> set (fst (member_lists s k)))"
  "members s = {(k, c) |p l k c. block_key s p = Some (l, k, c) \<and> p \<in> set (fst (member_lists s k))}"
  "members_unique s \<longleftrightarrow> (\<forall>p q l m k c. block_key s p = Some (l, k, c) \<longrightarrow> p \<in> set (fst (member_lists s k)) \<longrightarrow>
     block_key s q = Some (m, k, c) \<longrightarrow> q \<in> set (fst (member_lists s k)) \<longrightarrow> p = q)"
proof -
  show "is_local s p \<longleftrightarrow> (\<exists>k c. block_key s p = Some (True, k, c))"
    by (auto simp: is_local_def block_key_def split: option.split)
  show "block_ok s k p \<longleftrightarrow> (\<exists>l c u us. block_key s p = Some (l, k, c) \<and> user_of s c = Some u \<and> users s u = Some us \<and> p \<in> set (u_channels us))"
    by (auto simp: block_ok_def block_key_def)
  show "owned s u p \<longleftrightarrow> (\<exists>l k c. block_key s p = Some (l, k, c) \<and> user_of s c = Some u \<and> p \<in> set (fst (member_lists s k)))"
    by (auto simp: owned_def member_block_lists_iff block_key_def)
  show "members s = {(k, c) |p l k c. block_key s p = Some (l, k, c) \<and> p \<in> set (fst (member_lists s k))}"
    by (fastforce simp: members_def member_block_lists_iff block_key_def)
  show "members_unique s \<longleftrightarrow> (\<forall>p q l m k c. block_key s p = Some (l, k, c) \<longrightarrow> p \<in> set (fst (member_lists s k)) \<longrightarrow>
     block_key s q = Some (m, k, c) \<longrightarrow> q \<in> set (fst (member_lists s k)) \<longrightarrow> p = q)"
  proof (intro iffI allI impI)
    fix p q l m k c assume u: "members_unique s" and a: "block_key s p = Some (l, k, c)" "p \<in> set (fst (member_lists s k))"
      "block_key s q = Some (m, k, c)" "q \<in> set (fst (member_lists s k))"
    obtain cu du where "chanusers s p = Some cu" "chanusers s q = Some du" "cu_channel cu = k" "cu_channel du = k"
      "cu_client cu = c" "cu_client du = c" using a by (auto simp: block_key_def)
    then show "p = q"
      using u[unfolded members_unique_def member_block_lists_iff, rule_format, of p cu q du] a by simp
  next
    assume u: "\<forall>p q l m k c. block_key s p = Some (l, k, c) \<longrightarrow> p \<in> set (fst (member_lists s k)) \<longrightarrow>
     block_key s q = Some (m, k, c) \<longrightarrow> q \<in> set (fst (member_lists s k)) \<longrightarrow> p = q"
    show "members_unique s"
      unfolding members_unique_def member_block_lists_iff
    proof (intro allI impI)
      fix p q cu du assume p: "chanusers s p = Some cu \<and> p \<in> set (fst (member_lists s (cu_channel cu)))"
        and q: "chanusers s q = Some du \<and> q \<in> set (fst (member_lists s (cu_channel du)))"
        and e: "cu_channel cu = cu_channel du" "cu_client cu = cu_client du"
      have "block_key s p = Some (cu_local cu, cu_channel du, cu_client du)" using p e by (simp add: block_key_def)
      moreover have "block_key s q = Some (cu_local du, cu_channel du, cu_client du)" using q by (simp add: block_key_def)
      ultimately show "p = q" using u p[unfolded e(1)] q by blast
    qed
  qed
qed

text \<open>Writing the privileges of a block keeps everything else.\<close>

definition only_privileges :: "ircd \<Rightarrow> ircd \<Rightarrow> ptr \<Rightarrow> 64 word \<Rightarrow> bool" where
  "only_privileges s t p fl \<longleftrightarrow> (\<exists>cu. chanusers s p = Some cu \<and>
     t = put_chanuser p (cu\<lparr>cu_flags := fl, cu_prefix := prefix_of (modes_table s) fl\<rparr>) s)"

lemma only_privileges_wf:
  assumes t: "only_privileges s t p fl" and wf: "state_wf shl s"
  shows "state_wf shl t" "members t = members s" "invited t = invited s"
proof -
  have key: "block_key t = block_key s" and same: "clients t = clients s" "users t = users s" "channels t = channels s"
    "same_index s t" "same_invites s t" "backlog t = backlog s" "logentries t = logentries s"
    using t by (auto simp: only_privileges_def block_key_def fun_eq_iff same_index_def channel_key_def same_invites_def
      chan_invites_def user_invites_def backlog_def)
  have u: "user_of t = user_of s" "member_lists t = member_lists s"
    using same by (simp_all add: fun_eq_iff user_of_def member_lists_def)
  note k = members_by_key[of t, unfolded key u same(2)] members_by_key[of s]
  have "members_wf t = members_wf s"
    unfolding members_wf_def channel_lists_ok_def user_lists_ok_def clients_ok_def k same u
    by (simp add: members_by_key(1)[of t, unfolded key] members_by_key(1)[of s] cong: filter_cong)
  then show "state_wf shl t"
    using wf channels_wf_cong[OF same(4)] same_invites_cong(1)[OF same(5)] same(6,7)
    by (simp add: state_wf_def backlog_wf_def)
  show "members t = members s" "invited t = invited s" using same_invites_cong(2)[OF same(5)] by (simp_all only: k)
qed

text \<open>Setting one privilege.\<close>

text \<open>What a change of the list announces: a privilege of the client of the block.\<close>

definition grants :: "ptr \<Rightarrow> chanmodechange \<Rightarrow> bool" where
  "grants c g \<longleftrightarrow> g_what g = CHANMODE_ADD \<and> g_acptr g = Some c \<and> m_letter (g_mode g) \<in> {CHR ''o'', CHR ''h'', CHR ''v''}"

definition gives :: "chanmode list \<Rightarrow> char \<Rightarrow> bool" where
  "gives tab x \<longleftrightarrow> x \<in> {CHR ''o'', CHR ''h'', CHR ''v''} \<and> is_privilege (tab ! (ord x - 64))"

lemma grant_mode_result:
  assumes tab: "privileges_ok (modes_table s)" "gives (modes_table s) x" and cu: "chanusers s p = Some cu"
  obtains t g where "grant_mode s list p x = Some (t, list @ [g])" "only_privileges s t p (cu_flags cu OR chflg x)"
    "grants (cu_client cu) g"
proof -
  let ?fl = "cu_flags cu OR chflg x" and ?i = "ord x - 64"
  have x: "64 \<le> ord x" "ord x < 128" using tab(2) by (auto simp: gives_def)
  have t: "table_ok (modes_table s)" using tab(1) by (simp add: privileges_ok_def)
  have m: "m_type (modes_table s ! ?i) \<noteq> 0"
    using tab(2) by (intro privilege_registered) (simp add: gives_def)
  then have l: "m_letter (modes_table s ! ?i) = x"
    using t x by (simp add: table_ok_def)
  have r: "rd (modes_table s) (chanmode_index x) = Some (modes_table s ! ?i)"
    using t x by (simp add: chanmode_index_letter table_ok_def rd_def)
  obtain pfx where pfx: "chanmode_prefix_make (modes_table s) (replicate 65 NUL) ?fl = Some pfx"
    "cstr pfx = prefix_of (modes_table s) ?fl"
    by (rule prefix_make_result[OF tab(1), of "replicate 65 NUL" ?fl]) (simp_all add: prefix_of_def)
  let ?t = "put_chanuser p (cu\<lparr>cu_flags := ?fl, cu_prefix := prefix_of (modes_table s) ?fl\<rparr>) s"
  let ?g = "(change_zero (modes_table s ! ?i) CHANMODE_ADD)\<lparr>g_acptr := Some (cu_client cu), g_target := Some p\<rparr>"
  have "grant_mode s list p x = Some (?t, list @ [?g])"
    using m r cu pfx by (simp add: grant_mode_def chanuser_mode_set_def chanmode_change_add_def Let_def change_zero_def)
  moreover have "only_privileges s ?t p ?fl" using cu by (auto simp: only_privileges_def)
  moreover have "grants (cu_client cu) ?g"
    using l tab(2) by (simp add: grants_def gives_def change_zero_def)
  ultimately show thesis by (rule that)
qed

lemma prefix_of_0: "privileges_ok tab \<Longrightarrow> prefix_of tab 0 = []"
  using privileges_set[of tab 0] by (auto simp: prefix_of_def)

lemma only_privileges_same:
  assumes "only_privileges s t p fl"
  shows "clients t = clients s" "users t = users s" "channels t = channels s" "modes_table t = modes_table s"
    "server_me t = server_me s" "client_me t = client_me s" "logentries t = logentries s" "sent t = sent s"
    "chanusers s p = Some cu \<Longrightarrow> chanusers t = (chanusers s)(p \<mapsto> cu\<lparr>cu_flags := fl, cu_prefix := prefix_of (modes_table s) fl\<rparr>)"
  using assms by (auto simp: only_privileges_def put_chanuser_def)

lemma only_privileges_trans:
  assumes "only_privileges s t p f" "only_privileges t u p g"
  shows "only_privileges s u p g"
  using assms by (auto simp: only_privileges_def put_chanuser_def)

lemma member_matches_same:
  assumes "only_privileges s t p fl"
  shows "member_matches t p x = member_matches s p x"
  using assms by (auto simp: member_matches_def client_user_def only_privileges_def cong: option.case_cong)

text \<open>A stage: a list of privileges that are granted when a test says so, on a block that has \<open>fl\<close>.\<close>

lemma stage_step:
  assumes tab: "privileges_ok (modes_table s)" "gives (modes_table s) x" and cu: "chanusers s p = Some cu" "cu_client cu = c"
    and t: "only_privileges s t p fl" and ms: "\<forall>g \<in> set ms. grants c g"
  shows "\<exists>t' ms'. (if b then grant_mode t ms p x else Some (t, ms)) = Some (t', ms') \<and>
    only_privileges s t' p (fl OR (if b then chflg x else 0)) \<and> (\<forall>g \<in> set ms'. grants c g)"
proof (cases b)
  case True
  note same = only_privileges_same[OF t]
  have t_cu: "chanusers t p = Some (cu\<lparr>cu_flags := fl, cu_prefix := prefix_of (modes_table s) fl\<rparr>)"
    using same(9)[OF cu(1)] by simp
  obtain t' g where g: "grant_mode t ms p x = Some (t', ms @ [g])" "only_privileges t t' p (fl OR chflg x)" "grants c g"
    by (rule grant_mode_result[OF _ _ t_cu, of x ms]) (use tab cu same(4) in simp_all)
  then show ?thesis using True ms only_privileges_trans[OF t g(2)] by auto
next
  case False
  then show ?thesis using t ms by simp
qed

lemma no_privileges:
  assumes tab: "privileges_ok (modes_table s)" and cu: "chanusers s p = Some cu" "cu_flags cu = 0" "cu_prefix cu = []"
  shows "only_privileges s s p 0"
proof -
  have "s = put_chanuser p cu s" using cu(1) by (simp add: put_chanuser_def fun_upd_idem)
  moreover have "cu = cu\<lparr>cu_flags := 0, cu_prefix := prefix_of (modes_table s) 0\<rparr>"
    using cu(2,3) prefix_of_0[OF tab] by (cases cu) simp
  ultimately show ?thesis using cu(1) unfolding only_privileges_def by metis
qed

lemma second_stage:
  assumes tab: "privileges_ok (modes_table s)" "\<forall>x \<in> {CHR ''o'', CHR ''h'', CHR ''v''}. gives (modes_table s) x"
    and cu: "chanusers s p = Some cu" "cu_client cu = c" "cu_flags cu = 0" "cu_prefix cu = []"
  obtains t ms where "hooks_call join_modes chanmode_hooks Channel_join HOOK_2ND [Arg_list, Arg_chanuser (Some p)] (s, []) = Some ((t, ms), 0)"
    "only_privileges s t p (chflg (CHR ''o'') OR chflg (CHR ''h'') OR chflg (CHR ''v''))" "\<forall>g \<in> set ms. grants c g"
proof -
  note s0 = no_privileges[OF tab(1) cu(1,3,4)]
  have g: "gives (modes_table s) (CHR ''o'')" "gives (modes_table s) (CHR ''h'')" "gives (modes_table s) (CHR ''v'')" using tab(2) by simp_all
  obtain t1 m1 where 1: "grant_mode s [] p (CHR ''o'') = Some (t1, m1)" "only_privileges s t1 p (0 OR chflg (CHR ''o''))" "\<forall>g \<in> set m1. grants c g"
    using stage_step[OF tab(1) g(1) cu(1,2) s0, of "[]" True] by auto
  obtain t2 m2 where 2: "grant_mode t1 m1 p (CHR ''h'') = Some (t2, m2)"
    "only_privileges s t2 p ((0 OR chflg (CHR ''o'')) OR chflg (CHR ''h''))" "\<forall>g \<in> set m2. grants c g"
    using stage_step[OF tab(1) g(2) cu(1,2) 1(2,3), of True] by auto
  obtain t3 m3 where 3: "grant_mode t2 m2 p (CHR ''v'') = Some (t3, m3)"
    "only_privileges s t3 p (((0 OR chflg (CHR ''o'')) OR chflg (CHR ''h'')) OR chflg (CHR ''v''))" "\<forall>g \<in> set m3. grants c g"
    using stage_step[OF tab(1) g(3) cu(1,2) 2(2,3), of True] by auto
  show thesis
  proof (rule that)
    show "hooks_call join_modes chanmode_hooks Channel_join HOOK_2ND [Arg_list, Arg_chanuser (Some p)] (s, []) = Some ((t3, m3), 0)"
      unfolding hooks_call_callbacks join_callbacks
      by (simp add: HOOK_MAXARGS_def join_modes_def cm_op_hook_def cm_halfop_hook_def cm_voice_hook_def 1(1) 2(1) 3(1))
    show "only_privileges s t3 p (chflg (CHR ''o'') OR chflg (CHR ''h'') OR chflg (CHR ''v''))"
      using 3(2) by (simp add: or.assoc)
  qed (rule 3(3))
qed

lemma third_stage:
  assumes tab: "privileges_ok (modes_table s)" "\<forall>x \<in> {CHR ''o'', CHR ''h'', CHR ''v''}. gives (modes_table s) x"
    and cu: "chanusers s p = Some cu" "cu_client cu = c" "cu_flags cu = 0" "cu_prefix cu = []"
    and m: "member_matches s p (CHR ''O'') = Some bo" "member_matches s p (CHR ''H'') = Some bh" "member_matches s p (CHR ''V'') = Some bv"
  obtains t ms where "hooks_call join_modes chanmode_hooks Channel_join HOOK_3RD [Arg_list, Arg_chanuser (Some p)] (s, []) = Some ((t, ms), 0)"
    "only_privileges s t p ((if bo then chflg (CHR ''o'') else 0) OR (if bh then chflg (CHR ''h'') else 0) OR (if bv then chflg (CHR ''v'') else 0))"
    "\<forall>g \<in> set ms. grants c g"
proof -
  note s0 = no_privileges[OF tab(1) cu(1,3,4)]
  let ?f = "\<lambda>b x. if b then chflg x else 0"
  have g: "gives (modes_table s) (CHR ''o'')" "gives (modes_table s) (CHR ''h'')" "gives (modes_table s) (CHR ''v'')" using tab(2) by simp_all
  obtain t1 m1 where 1: "(if bo then grant_mode s [] p (CHR ''o'') else Some (s, [])) = Some (t1, m1)"
    "only_privileges s t1 p (0 OR ?f bo (CHR ''o''))" "\<forall>g \<in> set m1. grants c g"
    using stage_step[OF tab(1) g(1) cu(1,2) s0, of "[]" bo] by auto
  obtain t2 m2 where 2: "(if bh then grant_mode t1 m1 p (CHR ''h'') else Some (t1, m1)) = Some (t2, m2)"
    "only_privileges s t2 p ((0 OR ?f bo (CHR ''o'')) OR ?f bh (CHR ''h''))" "\<forall>g \<in> set m2. grants c g"
    using stage_step[OF tab(1) g(2) cu(1,2) 1(2,3), of bh] by blast
  obtain t3 m3 where 3: "(if bv then grant_mode t2 m2 p (CHR ''v'') else Some (t2, m2)) = Some (t3, m3)"
    "only_privileges s t3 p (((0 OR ?f bo (CHR ''o'')) OR ?f bh (CHR ''h'')) OR ?f bv (CHR ''v''))" "\<forall>g \<in> set m3. grants c g"
    using stage_step[OF tab(1) g(3) cu(1,2) 2(2,3), of bv] by blast
  have h: "cm_aop_hook s [] p = Some (t1, m1)" "cm_ahalfop_hook t1 m1 p = Some (t2, m2)" "cm_avoice_hook t2 m2 p = Some (t3, m3)"
    using 1(1) 2(1) 3(1) m member_matches_same[OF 1(2)] member_matches_same[OF 2(2)]
    by (simp_all add: cm_aop_hook_def cm_ahalfop_hook_def cm_avoice_hook_def)
  show thesis
  proof (rule that)
    show "hooks_call join_modes chanmode_hooks Channel_join HOOK_3RD [Arg_list, Arg_chanuser (Some p)] (s, []) = Some ((t3, m3), 0)"
      unfolding hooks_call_callbacks join_callbacks by (simp add: HOOK_MAXARGS_def join_modes_def h)
    show "only_privileges s t3 p (?f bo (CHR ''o'') OR ?f bh (CHR ''h'') OR ?f bv (CHR ''v''))"
      using 3(2) by (simp only: or.left_neutral or.assoc)
  qed (rule 3(3))
qed

section \<open>Announcing a join\<close>

text \<open>A member whose texts fit their arrays.\<close>

definition shown :: "ircd \<Rightarrow> ptr \<Rightarrow> bool" where
  "shown s p \<longleftrightarrow> (\<exists>cu cl u us. chanusers s p = Some cu \<and> clients s (cu_client cu) = Some cl \<and> c_user cl = Some u \<and>
     users s u = Some us \<and> text_ok IRCD_HOSTLEN (c_name cl) \<and> c_name cl \<noteq> [] \<and> text_ok IRCD_IDLEN (u_uid us) \<and> u_uid us \<noteq> [] \<and>
     text_ok 64 (cu_prefix cu) \<and> (cu_flags cu \<noteq> 0 \<longrightarrow> cu_prefix cu \<noteq> []))"

lemma shown_showable: "shown s p \<Longrightarrow> 1000 \<le> n \<Longrightarrow> showable s f uid n p"
  by (cases f; cases uid)
    (auto simp: shown_def showable_def member_name_def member_text_def text_ok_def IRCD_HOSTLEN_def IRCD_IDLEN_def)

definition njoin_head :: "string \<Rightarrow> 64 word \<Rightarrow> string" where
  "njoin_head name ts = ''NJOIN '' @ name @ '' '' @ decimal (unat (ucast ts :: 32 word)) @ '' :''"

lemma njoin_head_ok:
  assumes "text_ok IRCD_CHANNELLEN name"
  obtains b where "str_snprintf ft line_buffer (IRCD_LINELEN - 1) ''NJOIN %s %lu :''
      [ArgStr (Some name), Arg32 (ucast (ts :: 64 word))] = Some (b, length (njoin_head name ts))"
    "holds b (njoin_head name ts)" "length b = 2047" "no_nul (njoin_head name ts)" "length (njoin_head name ts) \<le> 300"
proof -
  let ?qs = "map PLit ''NJOIN '' @ [pstr name, PLit (CHR '' ''), PLow False False 0 (ucast ts), PLit (CHR '' ''), PLit (CHR '':'')]"
  have l: "length (njoin_head name ts) \<le> 300"
    using assms unsigned_decimal_length32[of "ucast ts"] by (simp add: njoin_head_def text_ok_def ircd_sizes)
  have m: "njoin_head name ts = concat (map meaning ?qs)"
    using assms by (simp add: njoin_head_def text_ok_def aligned_def)
  have "\<exists>b. str_snprintf ft line_buffer (IRCD_LINELEN - 1) ''NJOIN %s %lu :'' [ArgStr (Some name), Arg32 (ucast ts)] =
      Some (b, length (njoin_head name ts)) \<and> holds b (njoin_head name ts) \<and> length b = 2047"
    by (rule head_ok[OF _ _ _ m]) (use l in \<open>simp_all add: flags_def\<close>)
  moreover have "no_nul (njoin_head name ts)" using assms by (simp add: njoin_head_def text_ok_def)
  ultimately show thesis using that l by blast
qed

text \<open>The lines of NJOIN: every member once and in order, to the servers that know user ids and to the
  others.\<close>

lemma introduce_lines:
  assumes ps: "\<forall>p \<in> set ps. shown s p \<and> (\<exists>cu. chanusers s p = Some cu \<and> cu_channel cu = k)"
    and ch: "channels s k = Some ch" "text_ok IRCD_CHANNELLEN (ch_name ch)"
  defines "h \<equiv> njoin_head (ch_name ch) (ch_ts ch)"
  shows "\<exists>pss qss. chunks_of CHANUSER_PER_LINE ps pss \<and> chunks_of CHANUSER_PER_LINE ps qss \<and>
    chanuser_introduce ft s lcptr None ps = Some (
      send_entries (\<lambda>line. Server_line lcptr None CAP_NONE CAP_UID ''%s'' [Str line]) h False False qss
      (send_entries (\<lambda>line. Server_line lcptr None CAP_UID CAP_NONE ''%s'' [Str line]) h False True pss s))"
proof (cases ps)
  case Nil
  then show ?thesis
    by (intro exI[of _ "[]"]) (simp add: chanuser_introduce_def chunks_of_def send_entries_def)
next
  case (Cons p rest)
  then obtain cu where cu: "chanusers s p = Some cu" "cu_channel cu = k" using ps by auto
  obtain b where b: "str_snprintf ft line_buffer (IRCD_LINELEN - 1) ''NJOIN %s %lu :''
      [ArgStr (Some (ch_name ch)), Arg32 (ucast (ch_ts ch))] = Some (b, length h)" "holds b h" "length b = 2047" "no_nul h" "length h \<le> 300"
    unfolding h_def by (rule njoin_head_ok[OF ch(2)])
  let ?n = "IRCD_LINELEN - 1 - length h - 1"
  let ?m1 = "\<lambda>line. Server_line lcptr None CAP_UID CAP_NONE ''%s'' [Str line]"
  let ?m2 = "\<lambda>line. Server_line lcptr None CAP_NONE CAP_UID ''%s'' [Str line]"
  have n: "1000 \<le> ?n" "length h + ?n \<le> length b" "0 < ?n" using b(3,5) by (simp_all add: IRCD_LINELEN_def)
  have ok: "\<forall>p \<in> set ps. showable t False uid ?n p" if "showable t = showable s" for t uid
    unfolding that using ps shown_showable[OF _ n(1)] by blast
  obtain pss b1 where 1: "member_lines ?m1 s (length h) ?n False True b ps = Some (send_entries ?m1 h False True pss s, b1)"
    "chunks_of CHANUSER_PER_LINE ps pss" "holds b1 h" "length b1 = length b"
    using member_lines_ok[OF b(2,4) ok[OF refl, of True] n(2,3), of ?m1] by blast
  let ?t = "send_entries ?m1 h False True pss s"
  have same: "showable ?t = showable s"
  proof -
    have "showable (fold (\<lambda>ps. send (f ps)) pss s) = showable s" for f :: "ptr list \<Rightarrow> outmsg" and s
      by (induction pss arbitrary: s) (simp_all add: fun_eq_iff)
    then show ?thesis by (simp add: send_entries_def)
  qed
  obtain qss b2 where 2: "member_lines ?m2 ?t (length h) ?n False False b1 ps = Some (send_entries ?m2 h False False qss ?t, b2)"
    "chunks_of CHANUSER_PER_LINE ps qss"
    using member_lines_ok[OF 1(3) b(4) ok[OF same, of False] _ n(3), of ?m2] n(2) 1(4) by auto
  have "chanuser_introduce ft s lcptr None ps = Some (send_entries ?m2 h False False qss ?t)"
    using Cons cu ch(1) b(1) 1(1) 2(1) by (simp add: chanuser_introduce_def)
  then show ?thesis using 1(2) 2(2) by blast
qed

text \<open>Steps that only send.\<close>

lemma talked_fold: "talked s t \<Longrightarrow> talked s (fold (\<lambda>x. send (f x)) xs t)"
  by (induction xs arbitrary: t) auto

lemma talked_lines: "talked s t \<Longrightarrow> talked s (send_entries mk h f uid pss t)" "talked s t \<Longrightarrow> talked s (send_chunks mk2 uid xss t)"
  by (simp_all add: send_entries_def send_chunks_def talked_fold)

lemma for_each_talked:
  "(\<And>p t. p \<in> set ps \<Longrightarrow> talked s t \<Longrightarrow> \<exists>u. f t p = Some u \<and> talked s u) \<Longrightarrow> talked s t \<Longrightarrow>
    \<exists>u. for_each f t ps = Some u \<and> talked s u"
proof (induction ps arbitrary: t)
  case (Cons p ps)
  obtain v where v: "f t p = Some v" "talked s v" using Cons.prems(1)[of p t] Cons.prems(2) by auto
  moreover have "\<exists>u. for_each f v ps = Some u \<and> talked s u"
    by (rule Cons.IH) (use Cons.prems v in auto)
  ultimately show ?case by simp
qed simp

lemma send_joins_talked:
  assumes "\<forall>p \<in> set ps. \<exists>cu. chanusers s p = Some cu \<and> cu_channel cu = k" "channels s k = Some ch" "talked s t"
  shows "\<exists>u. chanuser_send_joins t l ps = Some u \<and> talked s u"
proof (cases ps)
  case (Cons p rest)
  note same = talked_same[OF assms(3)]
  obtain cu where cu: "chanusers s p = Some cu" "cu_channel cu = k" using assms(1) Cons by auto
  let ?f = "\<lambda>s p. do {
       cu \<leftarrow> chanusers s p;
       let c = Client (cu_client cu);
       Some (send (Channel_line l k '':%N!%U@%H JOIN %s'' [c, c, c, Str (ch_name ch)]) s) }"
  have "\<exists>u. for_each ?f t ps = Some u \<and> talked s u"
    by (rule for_each_talked[OF _ assms(3)]) (use assms(1) in \<open>auto simp: talked_same(3) Let_def\<close>)
  then show ?thesis using Cons cu assms(2) same(3,4) by (simp add: chanuser_send_joins_def Let_def)
qed (use assms(3) in \<open>simp add: chanuser_send_joins_def\<close>)

lemma show_topic_talked:
  assumes "channels s k = Some ch" "talked s t"
  shows "\<exists>u. show_topic t c k = Some u \<and> talked s u"
  using assms by (auto simp: show_topic_def talked_same)

lemma last_stage_talked:
  assumes "channels s k = Some ch" "\<forall>e \<in> set (ch_backlog ch). logentries s e \<noteq> None" "talked s t"
  shows "\<exists>u. hooks_call join_last chanmode_hooks Channel_join HOOK_4TH [Arg_lclient l, Arg_client c, Arg_channel k] t = Some (u, 0) \<and> talked s u"
proof -
  have ch: "channels t k = Some ch" using assms(1) talked_same(4)[OF assms(3)] by simp
  have e: "logentries u = logentries s" if "talked s u" for u using that by (auto simp: talked_def)
  have one: "\<exists>v. replay_entry u c (ch_name ch) e = Some v \<and> talked s v" if "e \<in> set (ch_backlog ch)" "talked s u" for u e
    using assms(2) that e[OF that(2)] by (auto simp: replay_entry_def)
  obtain v where v: "for_each (\<lambda>s e. replay_entry s c (ch_name ch) e) t (ch_backlog ch) = Some v" "talked s v"
    using for_each_talked[of "ch_backlog ch" s "\<lambda>s e. replay_entry s c (ch_name ch) e", OF one assms(3)] by auto
  have "\<exists>u. cm_persistent_join_hook t c k = Some u \<and> talked s u"
    using v assms(3) by (simp add: cm_persistent_join_hook_def ch)
  then obtain u where "cm_persistent_join_hook t c k = Some u" "talked s u" by blast
  then show ?thesis
    unfolding hooks_call_callbacks join_callbacks by (simp add: HOOK_MAXARGS_def join_last_def)
qed

text \<open>What a join that was granted finds: the texts of the server, the channel and its members fit.\<close>

definition announce_ready :: "ircd \<Rightarrow> ptr \<Rightarrow> bool" where
  "announce_ready s k \<longleftrightarrow> names_ok s (client_me s) \<and>
     (\<exists>ch. channels s k = Some ch \<and> text_ok IRCD_CHANNELLEN (ch_name ch) \<and> (\<forall>p \<in> set (ch_chanusers ch). shown s p))"

lemma announce_ok:
  assumes wf: "state_wf shl s" and ready: "announce_ready s k" and ch: "channels s k = Some ch"
    and p: "chanusers s p = Some cu" "cu_channel cu = k" "cu_client cu = c"
    and c: "names_ok s c" "map_option client_is_user (clients s c) = Some True" and ms: "\<forall>g \<in> set ms. grants c g"
  shows "\<exists>t. join_announce ft chanmode_hooks s l c k p ms = Some t \<and> talked s t"
proof -
  let ?new = "dropWhile (\<lambda>q. q \<noteq> p) (ch_chanusers ch)"
  have me: "names_ok s (client_me s)" and nm: "text_ok IRCD_CHANNELLEN (ch_name ch)" and sh: "\<forall>q \<in> set (ch_chanusers ch). shown s q"
    using ready ch by (auto simp: announce_ready_def)
  have blk: "\<exists>cu. chanusers s q = Some cu \<and> cu_channel cu = k" if "q \<in> set (ch_chanusers ch)" for q
    using channel_listsD(4)[OF members_wfD(1)[OF state_wfD(2)[OF wf]] ch that] by (auto simp: block_ok_def)
  have new: "\<forall>q \<in> set ?new. shown s q \<and> (\<exists>cu. chanusers s q = Some cu \<and> cu_channel cu = k)"
    using sh blk by (auto dest: set_dropWhileD)
  obtain s1 where 1: "chanuser_introduce ft s None None ?new = Some s1" "talked s s1"
    using introduce_lines[OF new ch nm, of ft None] talked_lines(1) by fastforce
  obtain s2 where 2: "chanuser_send_joins s1 None ?new = Some s2" "talked s s2"
    using send_joins_talked[OF _ ch 1(2), of ?new None] new by blast
  obtain s3 where 3: "show_topic s2 c k = Some s3" "talked s s3" using show_topic_talked[OF ch 2(2)] by blast
  have same3: "clients s3 = clients s" "channels s3 = channels s" "chanusers s3 = chanusers s" "users s3 = users s"
    "client_me s3 = client_me s" using talked_same[OF 3(2)] by simp_all
  obtain cl me_cl where cl: "clients s c = Some cl" "clients s (client_me s) = Some me_cl"
    "text_ok IRCD_HOSTLEN (c_name cl)" "text_ok IRCD_HOSTLEN (c_name me_cl)"
    using c(1) me unfolding names_ok_def by blast
  have "shown s3 q = shown s q" for q by (simp add: shown_def same3)
  then have "\<forall>q \<in> set (ch_chanusers ch). showable s3 True False 1000 q" using sh shown_showable by simp
  then obtain s4 where 4: "chanuser_show ft s3 c k (Some p) 1 = Some s4" "talked s s4"
    using show_lines[of s3 k ch c cl me_cl "Some p" ft 1] ch cl nm p talked_lines(1) 3(2)
    by (fastforce simp: same3)
  have same4: "clients s4 = clients s" "channels s4 = channels s" "users s4 = users s" "client_me s4 = client_me s"
    using talked_same[OF 4(2)] by simp_all
  have n4: "names_ok s4 q = names_ok s q" for q by (simp add: names_ok_def same4)
  have "can_announce s4 (client_me s4) k ms"
    using me ch nm c ms by (auto simp: can_announce_def n4 same4 announced_def change_sends_def grants_def)
  then obtain xss where "chanmode_send_local ft s4 (client_me s4) k ms CHANMODE_PER_LINE =
      Some (send_chunks (local_line k (local_command s4 (client_me s4) (ch_name ch))) False xss s4)"
    using send_local_lines[of s4 "client_me s4" k ms ch CHANMODE_PER_LINE ft] ch by (auto simp: same4 CHANMODE_PER_LINE_def)
  then have "\<exists>s5. (if ms \<noteq> [] then chanmode_send_local ft s4 (client_me s4) k ms CHANMODE_PER_LINE else Some s4) = Some s5 \<and> talked s s5"
    using 4(2) talked_lines(2) by auto
  then obtain s5 where 5: "(if ms \<noteq> [] then chanmode_send_local ft s4 (client_me s4) k ms CHANMODE_PER_LINE else Some s4) = Some s5"
    "talked s s5" by blast
  have "\<forall>e \<in> set (ch_backlog ch). logentries s e \<noteq> None"
    using state_wfD(4)[OF wf] ch unfolding backlog_wf_def backlog_def by (auto split: option.splits)
  then obtain s6 where 6: "hooks_call join_last chanmode_hooks Channel_join HOOK_4TH [Arg_lclient l, Arg_client c, Arg_channel k] s5 = Some (s6, 0)"
    "talked s s6" using last_stage_talked[OF ch _ 5(2)] by blast
  show ?thesis using ch 1 2 3 4 5 6 by (simp add: join_announce_def)
qed

section \<open>Entering\<close>

text \<open>The texts of clients and users.\<close>

definition same_texts :: "ircd \<Rightarrow> ircd \<Rightarrow> bool" where
  "same_texts s t \<longleftrightarrow> client_me t = client_me s \<and> modes_table t = modes_table s \<and>
     (\<forall>c. map_option (\<lambda>cl. cl\<lparr>c_refcount := 0\<rparr>) (clients t c) = map_option (\<lambda>cl. cl\<lparr>c_refcount := 0\<rparr>) (clients s c)) \<and>
     (\<forall>u. map_option (\<lambda>us. us\<lparr>u_invites := [], u_channels := []\<rparr>) (users t u) =
       map_option (\<lambda>us. us\<lparr>u_invites := [], u_channels := []\<rparr>) (users s u))"

lemma same_texts_trans: "same_texts s t \<Longrightarrow> same_texts t u \<Longrightarrow> same_texts s u"
  by (simp add: same_texts_def)

lemma same_texts_sym: "same_texts s t \<Longrightarrow> same_texts t s"
  by (simp add: same_texts_def)

lemma same_textsD:
  assumes "same_texts s t"
  shows "clients s c = Some cl \<Longrightarrow> \<exists>n. clients t c = Some (cl\<lparr>c_refcount := n\<rparr>)"
    "users s u = Some us \<Longrightarrow> \<exists>ps qs. users t u = Some (us\<lparr>u_channels := ps, u_invites := qs\<rparr>)"
proof -
  assume a: "clients s c = Some cl"
  have "map_option (\<lambda>cl. cl\<lparr>c_refcount := 0\<rparr>) (clients t c) = Some (cl\<lparr>c_refcount := 0\<rparr>)"
    using assms a by (simp add: same_texts_def)
  then obtain d where d: "clients t c = Some d" "d\<lparr>c_refcount := 0\<rparr> = cl\<lparr>c_refcount := 0\<rparr>" by auto
  then have "d = cl\<lparr>c_refcount := c_refcount d\<rparr>" by (cases d; cases cl) simp
  then show "\<exists>n. clients t c = Some (cl\<lparr>c_refcount := n\<rparr>)" using d(1) by auto
next
  assume a: "users s u = Some us"
  have "map_option (\<lambda>us. us\<lparr>u_invites := [], u_channels := []\<rparr>) (users t u) = Some (us\<lparr>u_invites := [], u_channels := []\<rparr>)"
    using assms a by (simp add: same_texts_def)
  then obtain d where d: "users t u = Some d" "d\<lparr>u_invites := [], u_channels := []\<rparr> = us\<lparr>u_invites := [], u_channels := []\<rparr>" by auto
  then have "d = us\<lparr>u_channels := u_channels d, u_invites := u_invites d\<rparr>" by (cases d; cases us) simp
  then show "\<exists>ps qs. users t u = Some (us\<lparr>u_channels := ps, u_invites := qs\<rparr>)" using d(1) by auto
qed

lemma same_texts_names:
  assumes "same_texts s t" "names_ok s c"
  shows "names_ok t c"
proof -
  obtain cl where cl: "clients s c = Some cl" "text_ok IRCD_HOSTLEN (c_name cl)" "text_ok IRCD_HOSTLEN (c_host cl)"
    "\<And>u. c_user cl = Some u \<Longrightarrow> \<exists>us. users s u = Some us \<and> text_ok IRCD_USERLEN (u_name us) \<and> text_ok IRCD_IDLEN (u_uid us)"
    "client_is_user cl \<longrightarrow> c_user cl \<noteq> None" using assms(2) unfolding names_ok_def by blast
  have "\<exists>us. users t u = Some us \<and> text_ok IRCD_USERLEN (u_name us) \<and> text_ok IRCD_IDLEN (u_uid us)"
    if u: "c_user cl = Some u" for u
    using cl(4)[OF u] same_textsD(2)[OF assms(1)] by fastforce
  then show ?thesis
    using cl(2,3,5) same_textsD(1)[OF assms(1) cl(1)] by (auto simp: names_ok_def client_is_user_def)
qed

lemma same_texts_shown:
  assumes "same_texts s t" "chanusers t p = chanusers s p" "shown s p"
  shows "shown t p"
proof -
  obtain cu cl u us where x: "chanusers s p = Some cu" "clients s (cu_client cu) = Some cl" "c_user cl = Some u"
    "users s u = Some us" "text_ok IRCD_HOSTLEN (c_name cl)" "c_name cl \<noteq> []" "text_ok IRCD_IDLEN (u_uid us)" "u_uid us \<noteq> []"
    "text_ok 64 (cu_prefix cu)" "cu_flags cu \<noteq> 0 \<longrightarrow> cu_prefix cu \<noteq> []"
    using assms(3) unfolding shown_def by blast
  then show ?thesis
    using assms(2) same_textsD(1)[OF assms(1) x(2)] same_textsD(2)[OF assms(1) x(4)] by (fastforce simp: shown_def)
qed

lemma same_but_invites_texts: "same_but_invites s t \<Longrightarrow> same_texts s t"
proof -
  assume a: "same_but_invites s t"
  then obtain us cs iv where t: "t = s\<lparr>users := us, channels := cs, invites := iv\<rparr>"
    "\<And>u. map_option (\<lambda>x. x\<lparr>u_invites := []\<rparr>) (us u) = map_option (\<lambda>x. x\<lparr>u_invites := []\<rparr>) (users s u)"
    unfolding same_but_invites_def by blast
  have "map_option (\<lambda>us. us\<lparr>u_invites := [], u_channels := []\<rparr>) (us u) = map_option (\<lambda>us. us\<lparr>u_invites := [], u_channels := []\<rparr>) (users s u)" for u
  proof -
    have "map_option ((\<lambda>us. us\<lparr>u_channels := []\<rparr>) \<circ> (\<lambda>x. x\<lparr>u_invites := []\<rparr>)) (us u) =
      map_option ((\<lambda>us. us\<lparr>u_channels := []\<rparr>) \<circ> (\<lambda>x. x\<lparr>u_invites := []\<rparr>)) (users s u)"
      using t(2)[of u] by (metis option.map_comp)
    then show ?thesis by (cases "us u"; cases "users s u") simp_all
  qed
  then show ?thesis by (simp add: same_texts_def t(1))
qed

text \<open>The state with the new block.\<close>

lemma enter_shape:
  assumes c: "clients s c = Some cl" "client_is_user cl" "c_user cl = Some u" and u: "users s u = Some us"
    and k: "channels s k = Some ch" and new: "chanuser_add s a k c = Some (t, Some a)"
  shows "same_texts s t" "server_me t = server_me s" "sent t = sent s"
    "chanusers t = (chanusers s)(a \<mapsto> \<lparr>cu_local = client_is_local cl, cu_serial = chanuser_serial s, cu_channel = k,
       cu_client = c, cu_flags = 0, cu_prefix = []\<rparr>)"
    "\<exists>ch'. channels t k = Some ch' \<and> ch_name ch' = ch_name ch \<and> ch_modelists ch' = ch_modelists ch \<and>
       ch_chanusers ch' = ch_chanusers ch @ [a]"
  using c u k new
  by (auto simp: chanuser_add_def chanuser_new_def channel_pop_def client_pop_def user_of_def Let_def same_texts_def split: if_splits)

lemma relations_cong:
  assumes f: "channel_list t = channel_list s" "channel_lists t = channel_lists s" "channels t = channels s" "clients t = clients s"
    "logentries t = logentries s" "users t = users s" "chanusers t = chanusers s" "invites t = invites s"
  shows "state_wf shl s \<Longrightarrow> state_wf shl t" "members t = members s" "invited t = invited s"
proof -
  have same: "same_rest s t" "same_members s t" "same_invites s t"
    using f by (simp_all add: same_rest_def same_index_def channel_key_def other_fields_def same_members_def client_key_def
      member_lists_def same_invites_def chan_invites_def user_invites_def fun_eq_iff)
  show "state_wf shl t" if "state_wf shl s"
    by (rule state_wf_rest[OF that same(1) members_wf_cong[OF same(2) state_wfD(2)[OF that]]])
      (use same_invites_cong(1)[OF same(3)] state_wfD(3)[OF that] in simp)
  show "members t = members s" "invited t = invited s"
    using same_members_members[OF same(2)] same_invites_cong(2)[OF same(3)] by simp_all
qed

lemma talked_state:
  assumes "talked s t"
  shows "state_wf shl s \<Longrightarrow> state_wf shl t" "members t = members s" "invited t = invited s"
proof -
  have f: "channel_list t = channel_list s" "channel_lists t = channel_lists s" "channels t = channels s" "clients t = clients s"
    "logentries t = logentries s" "users t = users s" "chanusers t = chanusers s" "invites t = invites s"
    using assms by (auto simp: talked_def)
  show "state_wf shl s \<Longrightarrow> state_wf shl t" "members t = members s" "invited t = invited s"
    using relations_cong[OF f] by simp_all
qed

text \<open>Privileges have prefixes.\<close>

lemma prefix_of_texts:
  assumes tab: "privileges_ok tab" "\<forall>x \<in> {CHR ''o'', CHR ''h'', CHR ''v''}. gives tab x"
    and fl: "\<forall>i. bit fl i \<longrightarrow> i \<in> {47, 40, 54}"
  shows "text_ok 64 (prefix_of tab fl)" "fl \<noteq> 0 \<longrightarrow> prefix_of tab fl \<noteq> []"
proof -
  have "length tab = 64" using tab(1) by (simp add: privileges_ok_def table_ok_def)
  then have "length (prefix_of tab fl) \<le> 64" using privileges_length[of tab fl] by (simp add: prefix_of_def)
  moreover have "no_nul (prefix_of tab fl)"
    using privileges_set[OF tab(1)] tab(1) by (auto simp: prefix_of_def no_nul_def privileges_ok_def)
  ultimately show "text_ok 64 (prefix_of tab fl)" by (simp add: text_ok_def)
  show "fl \<noteq> 0 \<longrightarrow> prefix_of tab fl \<noteq> []"
  proof
    assume "fl \<noteq> 0"
    then obtain i where i: "bit fl i" by (metis bit_0_eq bit_eqI bot_apply bot_bool_def)
    then have "i < 64" "is_privilege (tab ! i)" using fl tab(2) by (auto simp: gives_def)
    then have "tab ! i \<in> set (privileges tab fl (- 1))" using privileges_set[OF tab(1)] i by auto
    then show "prefix_of tab fl \<noteq> []" by (auto simp: prefix_of_def)
  qed
qed

text \<open>Who can join: a user with a name and an identifier whose texts fit their arrays, at a server whose
  own name fits and that has the modules of the three privileges.\<close>

definition joiner_ok :: "ircd \<Rightarrow> ptr \<Rightarrow> bool" where
  "joiner_ok s c \<longleftrightarrow> names_ok s c \<and> names_ok s (client_me s) \<and> privileges_ok (modes_table s) \<and>
     (\<forall>x \<in> {CHR ''o'', CHR ''h'', CHR ''v''}. gives (modes_table s) x) \<and>
     (\<exists>cl u us. clients s c = Some cl \<and> client_is_user cl \<and> c_user cl = Some u \<and> users s u = Some us \<and> c_name cl \<noteq> [] \<and> u_uid us \<noteq> [])"

definition room_ok :: "ircd \<Rightarrow> ptr \<Rightarrow> bool" where
  "room_ok s k \<longleftrightarrow> (\<exists>ch. channels s k = Some ch \<and> text_ok IRCD_CHANNELLEN (ch_name ch) \<and> (\<forall>p \<in> set (ch_chanusers ch). shown s p))"

lemma joiner_ok_texts:
  assumes "same_texts s t" "joiner_ok s c"
  shows "joiner_ok t c"
proof -
  obtain cl u us where x: "clients s c = Some cl" "client_is_user cl" "c_user cl = Some u" "users s u = Some us"
    "c_name cl \<noteq> []" "u_uid us \<noteq> []" using assms(2) unfolding joiner_ok_def by blast
  then have "\<exists>cl u us. clients t c = Some cl \<and> client_is_user cl \<and> c_user cl = Some u \<and> users t u = Some us \<and> c_name cl \<noteq> [] \<and> u_uid us \<noteq> []"
    using same_textsD(1)[OF assms(1) x(1)] same_textsD(2)[OF assms(1) x(4)] by (fastforce simp: client_is_user_def)
  moreover have "client_me t = client_me s" "modes_table t = modes_table s" using assms(1) by (simp_all add: same_texts_def)
  ultimately show ?thesis using assms by (simp add: joiner_ok_def same_texts_names)
qed

text \<open>From the added block to the end.\<close>

lemma granted_ok:
  assumes wf: "state_wf shl s" and c: "joiner_ok s c" and cu: "chanusers s a = Some cu" "cu_channel cu = k" "cu_client cu = c"
    and ch: "channels s k = Some ch" "text_ok IRCD_CHANNELLEN (ch_name ch)" "\<forall>p \<in> set (ch_chanusers ch). p \<noteq> a \<longrightarrow> shown s p"
    and t: "only_privileges s t a fl" and fl: "\<forall>i. bit fl i \<longrightarrow> i \<in> {47, 40, 54}" and ms: "\<forall>g \<in> set ms. grants c g"
  shows "\<exists>v. join_announce ft chanmode_hooks t l c k a ms = Some v \<and> state_wf shl v \<and> members v = members s \<and>
    invited v = invited s \<and> (\<exists>cu. chanusers v a = Some cu \<and> cu_channel cu = k \<and> cu_client cu = c \<and> cu_flags cu = fl \<and>
      cu_prefix cu = prefix_of (modes_table s) fl) \<and> talked t v"
proof -
  obtain cl u us where x: "clients s c = Some cl" "client_is_user cl" "c_user cl = Some u" "users s u = Some us"
    "c_name cl \<noteq> []" "u_uid us \<noteq> []" using c unfolding joiner_ok_def by blast
  have n: "names_ok s c" "names_ok s (client_me s)" and tab: "privileges_ok (modes_table s)"
    "\<forall>x \<in> {CHR ''o'', CHR ''h'', CHR ''v''}. gives (modes_table s) x" using c by (simp_all add: joiner_ok_def)
  note same = only_privileges_same[OF t]
  have blk: "chanusers t = (chanusers s)(a \<mapsto> cu\<lparr>cu_flags := fl, cu_prefix := prefix_of (modes_table s) fl\<rparr>)" by (rule same(9)[OF cu(1)])
  have st: "same_texts s t" by (simp add: same_texts_def same)
  have "text_ok IRCD_HOSTLEN (c_name cl)" "text_ok IRCD_IDLEN (u_uid us)" using n(1) x by (auto simp: names_ok_def)
  then have "shown t a" using x cu prefix_of_texts[OF tab fl] by (simp add: shown_def blk same)
  moreover have "shown t p" if "p \<noteq> a" "shown s p" for p by (rule same_texts_shown[OF st]) (use that blk in simp_all)
  ultimately have all: "\<forall>p \<in> set (ch_chanusers ch). shown t p" using ch(3) by metis
  have ready: "announce_ready t k" using all ch(1,2) n(2) same_texts_names[OF st] by (simp add: announce_ready_def same)
  have "state_wf shl t" "members t = members s" "invited t = invited s" using only_privileges_wf[OF t wf] by simp_all
  moreover obtain v where v: "join_announce ft chanmode_hooks t l c k a ms = Some v" "talked t v"
    using announce_ok[OF calculation(1) ready, of ch a "cu\<lparr>cu_flags := fl, cu_prefix := prefix_of (modes_table s) fl\<rparr>" c ms ft l]
      ch(1) cu x(1,2) same_texts_names[OF st n(1)] ms blk by (auto simp: same)
  ultimately show ?thesis
    using talked_state[OF v(2)] talked_same(3)[OF v(2)] cu blk by auto
qed

text \<open>The lists of masks that grant privileges, tested on the client.\<close>

definition amode_tests :: "ircd \<Rightarrow> ptr \<Rightarrow> ptr \<Rightarrow> char \<Rightarrow> bool \<Rightarrow> bool" where
  "amode_tests s c k x b \<longleftrightarrow> (\<exists>ch cl u us xs. channels s k = Some ch \<and> clients s c = Some cl \<and> c_user cl = Some u \<and>
     users s u = Some us \<and> rd (ch_modelists ch) (chanmode_index x) = Some xs \<and> match_amode cl (Some us) xs = Some b)"

lemma match_amode_texts:
  assumes "u_name u = u_name v" "c_name c = c_name d" "c_hostreal c = c_hostreal d" "c_hostip c = c_hostip d"
  shows "match_amode c (Some u) xs = match_amode d (Some v) xs"
proof (induction xs)
  case (Cons x xs)
  have "(\<lambda>b. if \<not> b then match_amode c (Some u) xs else f b) = (\<lambda>b. if \<not> b then match_amode d (Some v) xs else f b)"
    "(\<lambda>b. if b then Some True else match_amode c (Some u) xs) = (\<lambda>b. if b then Some True else match_amode d (Some v) xs)" for f
    using Cons.IH by auto
  then show ?case by (simp only: match_amode.simps option.case assms)
qed simp

lemma amode_matches:
  assumes t: "same_texts s t" and x: "amode_tests s c k x b" and ch: "channels s k = Some ch" "channels t k = Some ch'" "ch_modelists ch' = ch_modelists ch"
    and cu: "chanusers t p = Some cu" "cu_channel cu = k" "cu_client cu = c"
  shows "member_matches t p x = Some b"
proof -
  obtain cl u us xs where y: "clients s c = Some cl" "c_user cl = Some u" "users s u = Some us"
    "rd (ch_modelists ch) (chanmode_index x) = Some xs" "match_amode cl (Some us) xs = Some b"
    using x ch(1) unfolding amode_tests_def by auto
  obtain n ps qs where z: "clients t c = Some (cl\<lparr>c_refcount := n\<rparr>)" "users t u = Some (us\<lparr>u_channels := ps, u_invites := qs\<rparr>)"
    using same_textsD(1)[OF t y(1)] same_textsD(2)[OF t y(3)] by blast
  have "match_amode (cl\<lparr>c_refcount := n\<rparr>) (Some (us\<lparr>u_channels := ps, u_invites := qs\<rparr>)) xs = Some b"
    using y(5) match_amode_texts[of "us\<lparr>u_channels := ps, u_invites := qs\<rparr>" us "cl\<lparr>c_refcount := n\<rparr>" cl xs] by simp
  then show ?thesis using y z ch cu by (simp add: member_matches_def client_user_def)
qed

definition flag_bits :: "bool \<Rightarrow> bool \<Rightarrow> bool \<Rightarrow> 64 word" where
  "flag_bits bo bh bv = (if bo then chflg (CHR ''o'') else 0) OR (if bh then chflg (CHR ''h'') else 0) OR (if bv then chflg (CHR ''v'') else 0)"

lemma flag_bits_only: "bit (flag_bits bo bh bv) i \<Longrightarrow> i \<in> {47, 40, 54}"
  by (auto simp: flag_bits_def bit_or_iff bit_chflg split: if_splits)

text \<open>The join of a user who is let in, after the decision.\<close>

lemma enter_existing:
  assumes c: "joiner_ok s c" "clients s c = Some cl" "client_is_user cl" "c_user cl = Some u" "users s u = Some us"
    and k: "room_ok s k" "channels s k = Some ch" and new: "(k, c) \<notin> members s" "chanusers s a = None"
    and t1: "same_but_invites s t1" "state_wf shl t1" "members t1 = members s"
    and amodes: "amode_tests s c k (CHR ''O'') bo" "amode_tests s c k (CHR ''H'') bh" "amode_tests s c k (CHR ''V'') bv"
  obtains t2 t3 ms v where "chanuser_add t1 a k c = Some (t2, Some a)"
    "hooks_call join_modes chanmode_hooks Channel_join HOOK_3RD [Arg_list, Arg_chanuser (Some a)] (t2, []) = Some ((t3, ms), 0)"
    "join_announce ft chanmode_hooks t3 l c k a ms = Some v" "state_wf shl v" "members v = insert (k, c) (members s)" "invited v = invited t1"
    "\<exists>cu. chanusers v a = Some cu \<and> cu_channel cu = k \<and> cu_client cu = c \<and> cu_flags cu = flag_bits bo bh bv"
proof -
  note f1 = same_but_invites_fields[OF t1(1)]
  obtain i where ch1: "channels t1 k = Some (ch\<lparr>ch_invites := i\<rparr>)" using f1(9)[OF k(2)] by blast
  obtain j where us1: "users t1 u = Some (us\<lparr>u_invites := j\<rparr>)" using f1(10)[OF c(5)] by blast
  have c1: "clients t1 c = Some cl" "chanusers t1 a = None" using c(2) f1(1,2) new(2) by simp_all
  obtain t2 where 2: "chanuser_add t1 a k c = Some (t2, Some a)" "state_wf shl t2" "members t2 = insert (k, c) (members t1)"
    "invited t2 = invited t1"
    using enter_wf[OF t1(2) c1(2,1) _ ch1] c(3) new(1) t1(3) by metis
  note shape = enter_shape[OF c1(1) c(3,4) us1 ch1 2(1)]
  obtain ch2 where ch2: "channels t2 k = Some ch2" "ch_name ch2 = ch_name ch" "ch_modelists ch2 = ch_modelists ch"
    "ch_chanusers ch2 = ch_chanusers ch @ [a]" using shape(5) by auto
  have st: "same_texts s t2" using same_texts_trans[OF same_but_invites_texts[OF t1(1)] shape(1)] .
  have c2: "joiner_ok t2 c" by (rule joiner_ok_texts[OF st c(1)])
  define cu where "cu = \<lparr>cu_local = client_is_local cl, cu_serial = chanuser_serial t1, cu_channel = k, cu_client = c,
    cu_flags = 0, cu_prefix = []\<rparr>"
  have cu: "chanusers t2 a = Some cu" "cu_channel cu = k" "cu_client cu = c" "cu_flags cu = 0" "cu_prefix cu = []"
    using shape(4) by (simp_all add: cu_def)
  have tab: "privileges_ok (modes_table t2)" "\<forall>x \<in> {CHR ''o'', CHR ''h'', CHR ''v''}. gives (modes_table t2) x"
    using c2 by (simp_all add: joiner_ok_def)
  note mm = amode_matches[OF st _ k(2) ch2(1,3) cu(1-3)]
  obtain t3 ms where 3: "hooks_call join_modes chanmode_hooks Channel_join HOOK_3RD [Arg_list, Arg_chanuser (Some a)] (t2, []) = Some ((t3, ms), 0)"
    "only_privileges t2 t3 a (flag_bits bo bh bv)" "\<forall>g \<in> set ms. grants c g"
    unfolding flag_bits_def
    by (rule third_stage[OF tab cu(1,3,4,5) mm[OF amodes(1)] mm[OF amodes(2)] mm[OF amodes(3)]])
  have room: "\<forall>p \<in> set (ch_chanusers ch2). p \<noteq> a \<longrightarrow> shown t2 p" "text_ok IRCD_CHANNELLEN (ch_name ch2)"
    using k shape(4) f1(2) same_texts_shown[OF st] by (auto simp: room_ok_def ch2)
  obtain v where v: "join_announce ft chanmode_hooks t3 l c k a ms = Some v" "state_wf shl v" "members v = members t2"
    "invited v = invited t2" "\<exists>cu. chanusers v a = Some cu \<and> cu_channel cu = k \<and> cu_client cu = c \<and> cu_flags cu = flag_bits bo bh bv"
    using granted_ok[OF 2(2) c2 cu(1-3) ch2(1) room(2,1) 3(2) _ 3(3), of ft l] flag_bits_only by blast
  show thesis using that[OF 2(1) 3(1) v(1,2)] v(3-5) 2(3,4) t1(3) by simp
qed

text \<open>C6. Joining a channel that exists returns. The invitation of the user to the channel is used up,
  also when the join is refused. The user is let in, with the privileges of the lists +O, +H and +V,
  exactly if: a channel with +i that he was not invited to has him on its list +I, whatever its bans
  say; any other channel does not ban or deny him, or excepts him, and he is on the list +I, or was
  invited and is not on the list of exceptions, or there is room and he knows the key. Otherwise he is
  told the reason and nothing else changes.\<close>

theorem join_existing_channel:
  fixes key :: "string option"
  assumes wf: "state_wf shl s" and c: "joiner_ok s c" "user_of s c = Some u" and k: "room_ok s k" "channels s k = Some ch"
    and found: "channel_find_name shl s name = Some (Some k)" and fresh: "(k, c) \<notin> members s" "chanusers s a = None"
    and tests: "join_tests s c k ban deny exc invex"
    and amodes: "amode_tests s c k (CHR ''O'') bo" "amode_tests s c k (CHR ''H'') bh" "amode_tests s c k (CHR ''V'') bv"
  defines "only \<equiv> ch_modes ch AND chflg (CHR ''i'') \<noteq> 0" and "asked \<equiv> (k, u) \<in> invited s"
  shows "\<exists>t. channel_join shl ft chanmode_hooks k0 a s l c name key = Some t \<and> state_wf shl t \<and> invited t = invited s - {(k, u)} \<and>
    (if lets_in only asked (ban \<or> deny) exc invex (has_room ch \<and> knows_key ch key)
     then members t = insert (k, c) (members s) \<and>
       (\<exists>cu. chanusers t a = Some cu \<and> cu_channel cu = k \<and> cu_client cu = c \<and> cu_flags cu = flag_bits bo bh bv)
     else members t = members s \<and> sent t = sent s @ [Numeric c (refusal only asked ban deny exc (has_room ch)) [Str (ch_name ch)]])"
proof -
  obtain cl us where x: "clients s c = Some cl" "client_is_user cl" "c_user cl = Some u" "users s u = Some us"
    using c by (auto simp: joiner_ok_def user_of_def)
  obtain r where find: "chanuser_find s k c = Some r" "r = None \<longleftrightarrow> (k, c) \<notin> members s"
    using chanuser_find_correct[OF state_wfD(2)[OF wf] x(1), of k] x(2) by blast
  obtain t1 r1 where 1: "hooks_call join_first chanmode_hooks Channel_join HOOK_1ST
      [Arg_client c, Arg_channel k, Arg_text key, Arg_reply] (s, 0) = Some ((t1, r1), 0)"
    "same_but_invites s t1" "state_wf shl t1" "members t1 = members s" "invited t1 = invited s - {(k, u)}"
    "r1 > 0 \<longleftrightarrow> \<not> lets_in only asked (ban \<or> deny) exc invex (has_room ch \<and> knows_key ch key)"
    "r1 > 0 \<longrightarrow> nat r1 = refusal only asked ban deny exc (has_room ch)"
    unfolding only_def asked_def by (rule join_first_result[OF wf k(2) x(1,3,4) tests])
  note f1 = same_but_invites_fields[OF 1(2)]
  obtain i where ch1: "channels t1 k = Some (ch\<lparr>ch_invites := i\<rparr>)" using f1(9)[OF k(2)] by blast
  show ?thesis
  proof (cases "r1 > 0")
    case True
    let ?t = "send (Numeric c (nat r1) [Str (ch_name ch)]) t1"
    have "channel_join shl ft chanmode_hooks k0 a s l c name key = Some ?t"
      using found find fresh(1) 1(1) True ch1 by (simp add: channel_join_def join_existing_def)
    moreover have "talked t1 ?t" by simp
    note same = talked_state(1)[OF this 1(3)] talked_state(2,3)[OF this]
    moreover have "sent ?t = sent s @ [Numeric c (nat r1) [Str (ch_name ch)]]" using f1(7) by (simp add: send_def)
    ultimately show ?thesis using 1(4-7) True by simp
  next
    case False
    obtain t2 t3 ms v where v: "chanuser_add t1 a k c = Some (t2, Some a)"
      "hooks_call join_modes chanmode_hooks Channel_join HOOK_3RD [Arg_list, Arg_chanuser (Some a)] (t2, []) = Some ((t3, ms), 0)"
      "join_announce ft chanmode_hooks t3 l c k a ms = Some v" "state_wf shl v" "members v = insert (k, c) (members s)" "invited v = invited t1"
      "\<exists>cu. chanusers v a = Some cu \<and> cu_channel cu = k \<and> cu_client cu = c \<and> cu_flags cu = flag_bits bo bh bv"
      by (rule enter_existing[OF c(1) x k fresh 1(2-4) amodes, of ft l], rule that)
    have "channel_join shl ft chanmode_hooks k0 a s l c name key = Some v"
      using found find fresh(1) 1(1) False v(1-3) by (simp add: channel_join_def join_existing_def)
    then show ?thesis using v 1(5,6) False by auto
  qed
qed

text \<open>A new channel.\<close>

lemma state_wf_parts:
  assumes "state_wf shl s" "same_index s t" "same_members s t" "same_invites s t" "backlog t = backlog s" "logentries t = logentries s"
  shows "state_wf shl t" "chan_abs t = chan_abs s"
  using assms channels_wf_cong[OF assms(2)] members_wf_cong[OF assms(3)] same_invites_cong[OF assms(4)] same_members_members[OF assms(3)]
  by (simp_all add: state_wf_def backlog_wf_def chan_abs_def) (simp add: same_index_def)

text \<open>What the relations read of a channel.\<close>

lemma put_channel_wf:
  assumes "state_wf shl s" "channels s k = Some ch"
    and "ch_name ch' = ch_name ch" "ch_hash ch' = ch_hash ch" "ch_id ch' = ch_id ch" "ch_chanusers ch' = ch_chanusers ch"
      "ch_lchanusers ch' = ch_lchanusers ch" "ch_rchanusers ch' = ch_rchanusers ch" "ch_invites ch' = ch_invites ch"
      "ch_backlog ch' = ch_backlog ch"
  shows "state_wf shl (put_channel k ch' s)" "chan_abs (put_channel k ch' s) = chan_abs s"
proof -
  let ?t = "put_channel k ch' s"
  have "same_index s ?t" "same_members s ?t" "same_invites s ?t" "backlog ?t = backlog s" "logentries ?t = logentries s"
    using assms(2-) by (auto simp: same_index_def channel_key_def same_members_def client_key_def member_lists_def
      same_invites_def chan_invites_def user_invites_def backlog_def fun_eq_iff)
  then show "state_wf shl ?t" "chan_abs ?t = chan_abs s" using state_wf_parts[OF assms(1)] by simp_all
qed

lemma chan_abs_steps:
  "talked s t \<Longrightarrow> chan_abs t = chan_abs s"
  "only_privileges s t p fl \<Longrightarrow> state_wf shl s \<Longrightarrow> chan_abs t = chan_abs s"
proof -
  assume t: "talked s t"
  then have "channel_list t = channel_list s" by (auto simp: talked_def)
  then show "chan_abs t = chan_abs s" using talked_state(2,3)[OF t] by (simp add: chan_abs_def)
next
  assume t: "only_privileges s t p fl" and wf: "state_wf shl s"
  then have "channel_list t = channel_list s" by (auto simp: only_privileges_def put_chanuser_def)
  then show "chan_abs t = chan_abs s" using only_privileges_wf(2,3)[OF t wf] by (simp add: chan_abs_def)
qed

text \<open>The new channel, before anybody is in it.\<close>

lemma new_room:
  assumes wf: "state_wf shl s" and fresh: "channels s k = None"
  obtains s1 s2 ch2 where "channel_new shl s k name = Some (s1, k)" "clients s1 = clients s"
    "(if local then do { ch \<leftarrow> channels s1 k; Some (put_channel k (ch\<lparr>ch_server := server_me s1\<rparr>) s1) } else Some s1) = Some s2"
    "state_wf shl s2" "chan_abs s2 = (insert k (set (channel_list s)), members s, invited s)" "same_texts s s2" "clients s2 = clients s"
    "users s2 = users s" "chanusers s2 = chanusers s" "channels s2 k = Some ch2" "ch_name ch2 = field (IRCD_CHANNELLEN + 1) name"
    "ch_chanusers ch2 = []"
proof -
  obtain s1 where 1: "channel_new shl s k name = Some (s1, k)" "state_wf shl s1"
    "k \<in> set (channel_entries s1)" "removeAll k (channel_entries s1) = channel_entries s" "members s1 = members s" "invited s1 = invited s"
    by (rule channel_new_spec[OF wf fresh, of name], rule that)
  have abs1: "chan_abs s1 = (insert k (set (channel_list s)), members s, invited s)"
    using channel_list_entries[OF wf] channel_list_entries[OF 1(2)] 1(3-6) unfolding chan_abs_def
    by (metis insert_Diff set_removeAll)
  obtain ch1 where ch1: "channels s1 k = Some ch1" "ch_name ch1 = field (IRCD_CHANNELLEN + 1) name" "ch_chanusers ch1 = []"
    and st1: "same_texts s s1" "clients s1 = clients s" "users s1 = users s" "chanusers s1 = chanusers s" "server_me s1 = server_me s"
    using 1(1) by (auto simp: channel_new_def channel_link_def Let_def channel_zero_def same_texts_def)
  define ch2 where "ch2 = (if local then ch1\<lparr>ch_server := server_me s\<rparr> else ch1)"
  define s2 where "s2 = put_channel k ch2 s1"
  have set_server: "(if local then do { ch \<leftarrow> channels s1 k; Some (put_channel k (ch\<lparr>ch_server := server_me s1\<rparr>) s1) } else Some s1) = Some s2"
    using ch1(1) st1(5) by (simp add: s2_def ch2_def put_channel_def fun_upd_idem)
  have 2: "state_wf shl s2" "chan_abs s2 = chan_abs s1" "same_texts s1 s2"
    using put_channel_wf[OF 1(2) ch1(1), of ch2] by (simp_all add: s2_def ch2_def same_texts_def)
  have ch2: "channels s2 k = Some ch2" "ch_name ch2 = ch_name ch1" "ch_chanusers ch2 = []"
    using ch1(3) by (simp_all add: s2_def ch2_def)
  show thesis
    by (rule that[OF 1(1) st1(2) set_server 2(1) _ same_texts_trans[OF st1(1) 2(3)] _ _ _ ch2(1) _ ch2(3)])
      (use 2(2) abs1 st1 ch1(2) ch2(2) in \<open>simp_all add: s2_def\<close>)
qed

text \<open>C7. Joining a channel that does not exist returns, and makes it: the channels gain one, with the
  name cut to its array, its only member is the user who joined, as operator, half operator and
  voiced, and nothing else changes in the relations of channels, members and invitations.\<close>

theorem join_creates_channel:
  assumes wf: "state_wf shl s" and c: "joiner_ok s c" and none: "channel_find_name shl s name = Some None"
    and fresh: "channels s k = None" "chanusers s a = None"
  shows "\<exists>t. channel_join shl ft chanmode_hooks k a s l c name key = Some t \<and> state_wf shl t \<and>
    chan_abs t = (insert k (set (channel_list s)), insert (k, c) (members s), invited s) \<and>
    channel_name t k = field (IRCD_CHANNELLEN + 1) name \<and>
    (\<exists>cu. chanusers t a = Some cu \<and> cu_channel cu = k \<and> cu_client cu = c \<and> cu_flags cu = flag_bits True True True)"
proof -
  obtain cl u us where x: "clients s c = Some cl" "client_is_user cl" "c_user cl = Some u" "users s u = Some us"
    using c by (auto simp: joiner_ok_def)
  obtain s1 s2 ch2 where 1: "channel_new shl s k name = Some (s1, k)" "clients s1 = clients s"
    "(if client_is_local cl then do { ch \<leftarrow> channels s1 k; Some (put_channel k (ch\<lparr>ch_server := server_me s1\<rparr>) s1) } else Some s1) = Some s2"
    and 2: "state_wf shl s2" "chan_abs s2 = (insert k (set (channel_list s)), members s, invited s)" "same_texts s s2" "clients s2 = clients s"
    "users s2 = users s" "chanusers s2 = chanusers s"
    and ch2: "channels s2 k = Some ch2" "ch_name ch2 = field (IRCD_CHANNELLEN + 1) name" "ch_chanusers ch2 = []"
    by (rule new_room[OF wf fresh(1), of name "client_is_local cl"], rule that)
  have cl2: "clients s2 c = Some cl" "users s2 u = Some us" "chanusers s2 a = None"
    using x 2(4-6) fresh(2) by simp_all
  have m2: "members s2 = members s" using 2(2) by (simp add: chan_abs_def)
  have new: "(k, c) \<notin> members s2"
  proof
    assume "(k, c) \<in> members s2"
    then obtain p cu where "member_block s2 p cu" "cu_channel cu = k" by (auto simp: members_def)
    then show False using ch2(1,3) by (simp add: member_block_def)
  qed
  obtain s3 where 3: "chanuser_add s2 a k c = Some (s3, Some a)" "state_wf shl s3" "members s3 = insert (k, c) (members s2)"
    "invited s3 = invited s2" "same_index s2 s3"
    using enter_wf[OF 2(1) cl2(3,1) _ ch2(1) new] x(2) by metis
  have abs3: "chan_abs s3 = (insert k (set (channel_list s)), insert (k, c) (members s), invited s)"
    using 2(2) 3(3-5) by (simp add: chan_abs_def same_index_def)
  note shape = enter_shape[OF cl2(1) x(2,3) cl2(2) ch2(1) 3(1)]
  obtain ch3 where ch3: "channels s3 k = Some ch3" "ch_name ch3 = field (IRCD_CHANNELLEN + 1) name" "ch_chanusers ch3 = [a]"
    using shape(5) ch2(2,3) by auto
  have c3: "joiner_ok s3 c" by (rule joiner_ok_texts[OF same_texts_trans[OF 2(3) shape(1)] c])
  then have tab: "privileges_ok (modes_table s3)" "\<forall>x \<in> {CHR ''o'', CHR ''h'', CHR ''v''}. gives (modes_table s3) x"
    by (simp_all add: joiner_ok_def)
  define cu where "cu = \<lparr>cu_local = client_is_local cl, cu_serial = chanuser_serial s2, cu_channel = k, cu_client = c,
    cu_flags = 0, cu_prefix = []\<rparr>"
  have cu: "chanusers s3 a = Some cu" "cu_channel cu = k" "cu_client cu = c" "cu_flags cu = 0" "cu_prefix cu = []"
    using shape(4) by (simp_all add: cu_def)
  obtain s4 ms where 4: "hooks_call join_modes chanmode_hooks Channel_join HOOK_2ND [Arg_list, Arg_chanuser (Some a)] (s3, []) = Some ((s4, ms), 0)"
    "only_privileges s3 s4 a (flag_bits True True True)" "\<forall>g \<in> set ms. grants c g"
    using second_stage[OF tab cu(1,3,4,5)] unfolding flag_bits_def by auto
  have fits: "text_ok IRCD_CHANNELLEN (ch_name ch3)"
    by (simp add: ch3(2) text_ok_def field_def no_nul_take)
  obtain v where v: "join_announce ft chanmode_hooks s4 l c k a ms = Some v" "state_wf shl v" "talked s4 v"
    "\<exists>cu. chanusers v a = Some cu \<and> cu_channel cu = k \<and> cu_client cu = c \<and> cu_flags cu = flag_bits True True True"
    using granted_ok[OF 3(2) c3 cu(1-3) ch3(1) fits _ 4(2) _ 4(3), of ft l] flag_bits_only ch3(3) by auto
  have "chan_abs v = chan_abs s3" using chan_abs_steps(1)[OF v(3)] chan_abs_steps(2)[OF 4(2) 3(2)] by simp
  moreover have "channel_name v k = field (IRCD_CHANNELLEN + 1) name"
    using talked_same(4)[OF v(3)] only_privileges_same(3)[OF 4(2)] ch3(1,2) by (simp add: channel_name_def)
  moreover have "channel_join shl ft chanmode_hooks k a s l c name key = Some v"
    using none 1 x(1) 3(1) 4(1) v(1) by (simp add: channel_join_def join_new_def)
  ultimately show ?thesis using v(2,4) abs3 by auto
qed

section \<open>A server with a user\<close>

definition join_start :: ircd where
  "join_start = (boot_state [9 \<mapsto> (a_client CLIENT_LOCAL 22 ''irc.example.org'')\<lparr>c_type := CLIENT_SERVER, c_user := None\<rparr>,
     10 \<mapsto> a_client CLIENT_LOCAL 20 ''alice''] [20 \<mapsto> a_user 10 ''al''] 1000)\<lparr>modes_table := ohv_table, client_me := 9\<rparr>"

lemma join_start_ok:
  "state_wf shl join_start" "joiner_ok join_start 10" "user_of join_start 10 = Some 20" "members join_start = {}" "invited join_start = {}"
  "channels join_start = Map.empty" "chanusers join_start = Map.empty" "channel_list join_start = []"
proof -
  let ?b = "boot_state [9 \<mapsto> (a_client CLIENT_LOCAL 22 ''irc.example.org'')\<lparr>c_type := CLIENT_SERVER, c_user := None\<rparr>,
     10 \<mapsto> a_client CLIENT_LOCAL 20 ''alice''] [20 \<mapsto> a_user 10 ''al''] 1000"
  have "state_wf shl ?b"
    by (rule boot_wf)
      (auto simp: clients_ok_def boot_state_def a_client_def a_user_def user_of_def client_is_user_def client_is_service_def split: if_splits)
  then show "state_wf shl join_start" by (rule relations_cong(1)[rotated -1]) (simp_all add: join_start_def)
  have g: "gives ohv_table x" if "x \<in> {CHR ''o'', CHR ''h'', CHR ''v''}" for x
    using that by (auto simp: gives_def ohv_table_nth is_privilege_def privilege_mode_def)
  show "joiner_ok join_start 10"
    using g ohv_privileges_ok
    by (auto simp: joiner_ok_def names_ok_def join_start_def boot_state_def a_client_def a_user_def client_is_user_def text_ok_def
      ircd_sizes IRCD_IDLEN_def no_nul_def)
  show "user_of join_start 10 = Some 20" "members join_start = {}" "invited join_start = {}"
    "channels join_start = Map.empty" "chanusers join_start = Map.empty" "channel_list join_start = []"
    by (auto simp: join_start_def boot_state_def user_of_def a_client_def members_def member_block_def invited_def invite_block_def)
qed

theorem join_creates_witness:
  "\<exists>t. channel_join (\<lambda>_. 0) str_init chanmode_hooks 1 2 join_start None 10 ''#a'' None = Some t \<and>
    chan_abs t = ({1}, {(1, 10)}, {}) \<and> map_option cu_flags (chanusers t 2) = Some (flag_bits True True True)"
proof -
  note s = join_start_ok(1)[of "\<lambda>_. 0"] join_start_ok(2-8)
  have "channel_entries join_start = []" using channel_list_entries[OF s(1)] s(8) by (metis empty_set set_empty)
  then have "channel_find_name (\<lambda>_. 0) join_start ''#a'' = Some None"
    using channel_find_law[OF state_wfD(1)[OF s(1)]] by (simp del: concat_eq_Nil_conv)
  then show ?thesis
    using join_creates_channel[OF s(1,2), of "''#a''" 1 2 str_init None None] s(4-8) by fastforce
qed

theorem join_existing_witness:
  "\<exists>s t. channel_new (\<lambda>_. 0) join_start 1 ''#a'' = Some (s, 1) \<and>
    channel_join (\<lambda>_. 0) str_init chanmode_hooks 3 2 s None 10 ''#A'' None = Some t \<and> members t = {(1, 10)}"
proof -
  note b = join_start_ok(1)[of "\<lambda>_. 0"] join_start_ok(2-8)
  obtain s where s: "channel_new (\<lambda>_. 0) join_start 1 ''#a'' = Some (s, 1)" "state_wf (\<lambda>_. 0) s"
    "1 \<in> set (channel_entries s)" "removeAll 1 (channel_entries s) = channel_entries join_start" "members s = members join_start"
    "invited s = invited join_start" "channel_name s 1 = field (IRCD_CHANNELLEN + 1) ''#a''"
    by (rule channel_new_spec[OF b(1), of 1 "''#a''"]) (use b(6) in simp_all)
  obtain ch where ch: "channels s 1 = Some ch" "ch_name ch = ''#a''" "ch_chanusers ch = []" "ch_modes ch = 0" "ch_modelists ch = replicate 64 []"
    and st: "same_texts join_start s" "user_of s = user_of join_start" "chanusers s = chanusers join_start"
    using s(1) by (auto simp: channel_new_def channel_link_def Let_def channel_zero_def same_texts_def field_def IRCD_CHANNELLEN_def user_of_def fun_eq_iff)
  have c: "joiner_ok s 10" by (rule joiner_ok_texts[OF st(1) b(2)])
  have u: "user_of s 10 = Some 20" using st(2) b(3) by simp
  then obtain cl us where cl: "clients s 10 = Some cl" "c_user cl = Some 20" "users s 20 = Some us"
    using c unfolding joiner_ok_def user_of_def by force
  have "channel_entries join_start = []" using channel_list_entries[OF b(1)] b(8) by (metis empty_set set_empty)
  then have "set (channel_entries s) - {1} = {}" using s(4) by (metis set_removeAll empty_set)
  then have "set (channel_entries s) = {1}" using s(3) by blast
  moreover have "same_name ''#a'' ''#A''" by (simp add: same_name_def) code_simp
  ultimately have "List.find (\<lambda>p. same_name (channel_name s p) ''#A'') (channel_entries s) = Some 1"
    using s(7) by (cases "channel_entries s") (auto simp: field_def IRCD_CHANNELLEN_def simp del: set_concat)
  then have f: "channel_find_name (\<lambda>_. 0) s ''#A'' = Some (Some 1)"
    using channel_find_law[OF state_wfD(1)[OF s(2)]] by simp
  have tests: "join_tests s 10 1 False False False False" "amode_tests s 10 1 (CHR ''O'') False" "amode_tests s 10 1 (CHR ''H'') False"
    "amode_tests s 10 1 (CHR ''V'') False"
    using ch cl by (auto simp: join_tests_def client_matches_def client_user_def amode_tests_def rd_def chanmode_index_letter)
  show ?thesis
    using join_existing_channel[OF s(2) c _ _ ch(1) f _ _ tests, of 20 2 str_init 3 None None]
      s(1,5,6) b(3-7) st ch by (auto simp: room_ok_def text_ok_def no_nul_def IRCD_CHANNELLEN_def lets_in_def has_room_def knows_key_def)
qed

end
