(* ===== verification/Talk.thy ===== *)
theory Talk
  imports Join
begin

text \<open>
  Speaking on a channel: channel_message and channel_topic of src/channel.c, the hooks that the modules of
  the modes +m, +n, +P and +t hang on them, and the command TOPIC (modules/msg/m_topic.c). A hook that
  refuses a message does not keep the hooks behind it from being called.
\<close>

unbundle bit_operations_syntax

section \<open>Messages\<close>

definition cm_moderated_hook :: "ircd \<Rightarrow> ptr \<Rightarrow> ptr \<Rightarrow> (ircd \<times> int) option" where
  "cm_moderated_hook s cptr k = do {
     cuptr \<leftarrow> chanuser_find s k cptr;
     ch \<leftarrow> channels s k;
     silent \<leftarrow> (if ch_modes ch AND chflg (CHR ''m'') \<noteq> 0 then
         (case cuptr of None \<Rightarrow> Some True
          | Some p \<Rightarrow> do { cu \<leftarrow> chanusers s p;
              Some (cu_flags cu AND (chflg (CHR ''o'') OR chflg (CHR ''h'') OR chflg (CHR ''v'')) = 0) })
       else Some False);
     Some (if silent then (send (Numeric cptr 404 [Str (ch_name ch)]) s, 1) else (s, 0)) }"

definition cm_noext_hook :: "ircd \<Rightarrow> ptr \<Rightarrow> ptr \<Rightarrow> (ircd \<times> int) option" where
  "cm_noext_hook s cptr k = do {
     cuptr \<leftarrow> chanuser_find s k cptr;
     ch \<leftarrow> channels s k;
     Some (if cuptr = None \<and> ch_modes ch AND chflg (CHR ''n'') \<noteq> 0
       then (send (Numeric cptr 404 [Str (ch_name ch)]) s, 1) else (s, 0)) }"

text \<open>\<open>a\<close> is the block that the allocation of the entry returns.\<close>

definition CHANNEL_PRIVMSG :: int where "CHANNEL_PRIVMSG = 0"
definition CHANNEL_NOTICE :: int where "CHANNEL_NOTICE = 0"

definition message_cmd :: "int \<Rightarrow> string" where
  "message_cmd ty = (if ty = CHANNEL_PRIVMSG then ''PRIVMSG'' else ''NOTICE'')"

definition cm_persistent_msg_hook :: "ptr \<Rightarrow> ircd \<Rightarrow> ptr \<Rightarrow> ptr \<Rightarrow> int \<Rightarrow> string option \<Rightarrow> (ircd \<times> int) option" where
  "cm_persistent_msg_hook a s cptr k ty msg = do {
     ch \<leftarrow> channels s k;
     s \<leftarrow> (if ch_server ch = server_me s \<and> ch_modes ch AND chflg (CHR ''P'') \<noteq> 0
       then channel_backlog s a k cptr (message_cmd ty) msg else Some s);
     Some (s, 0) }"

definition message_hook :: "ptr \<Rightarrow> callback \<Rightarrow> hook_arg list \<Rightarrow> ircd \<Rightarrow> (ircd \<times> int) option" where
  "message_hook a cb args s = (case args of
     [Arg_client cptr, Arg_channel k, Arg_type ty, Arg_text msg] \<Rightarrow> (case cb of
         Cm_moderated_hook \<Rightarrow> cm_moderated_hook s cptr k
       | Cm_noext_hook \<Rightarrow> cm_noext_hook s cptr k
       | Cm_persistent_msg_hook \<Rightarrow> cm_persistent_msg_hook a s cptr k ty msg
       | Cm_alarm_msg_hook \<Rightarrow> Some (s, 0)
       | _ \<Rightarrow> None)
   | _ \<Rightarrow> None)"

text \<open>The handlers of the services on a channel are a parameter: \<open>service s p\<close> is the state after the
  handler of the client of the block \<open>p\<close> ran.\<close>

definition services_handle :: "(ircd \<Rightarrow> ptr \<Rightarrow> ircd option) \<Rightarrow> ircd \<Rightarrow> ptr list \<Rightarrow> ircd option" where
  "services_handle service s ps = for_each (\<lambda>s p. do {
     cu \<leftarrow> chanusers s p;
     cl \<leftarrow> clients s (cu_client cu);
     if client_is_service cl then service s p else Some s }) s ps"

definition channel_message :: "chan_hook list \<Rightarrow> (ircd \<Rightarrow> ptr \<Rightarrow> ircd option) \<Rightarrow> ptr \<Rightarrow> ircd \<Rightarrow> ptr option \<Rightarrow> ptr \<Rightarrow> ptr \<Rightarrow> int \<Rightarrow> string \<Rightarrow>
    ircd option" where
  "channel_message hs service a s lcptr cptr k ty msg = do {
     cuptr \<leftarrow> chanuser_find s k cptr;
     (s, ret) \<leftarrow> hooks_call (message_hook a) hs Channel_message HOOK_DEFAULT
       [Arg_client cptr, Arg_channel k, Arg_type ty, Arg_text (Some msg)] s;
     if ret \<noteq> 0 then Some s
     else do {
       cl \<leftarrow> clients s cptr;
       ch \<leftarrow> channels s k;
       let cmd = message_cmd ty;
       let c = Client cptr;
       let s = (if client_is_user cl \<or> client_is_service cl
           then send (Channel_line lcptr k '':%N!%U@%H %s %s :%s'' [c, c, c, Str cmd, Str (ch_name ch), Str msg]) s
           else send (Channel_line lcptr k '':%N %s %s :%s'' [c, Str cmd, Str (ch_name ch), Str msg]) s);
       s \<leftarrow> services_handle service s (ch_lchanusers ch);
       cl \<leftarrow> clients s cptr;
       ch \<leftarrow> channels s k;
       uid \<leftarrow> (case c_user cl of None \<Rightarrow> Some (c_name cl) | Some u \<Rightarrow> map_option u_uid (users s u));
       let s = send (Server_line lcptr (Some k) CAP_NONE CAP_UID '':%s %s %s :%s'' [Str (c_name cl), Str cmd, Str (ch_name ch), Str msg])
         (send (Server_line lcptr (Some k) CAP_UID CAP_NONE '':%s %s %s :%s'' [Str uid, Str cmd, Str (ch_name ch), Str msg]) s);
       Some (if cuptr \<noteq> None \<and> length (ch_chanusers ch) = 1 then s
         else put_client cptr (cl\<lparr>c_lastmsg := timer_systime s\<rparr>) s) } }"

section \<open>The topic\<close>

definition cm_topic_hook :: "ircd \<Rightarrow> ptr \<Rightarrow> ptr \<Rightarrow> ptr option \<Rightarrow> (ircd \<times> int) option" where
  "cm_topic_hook s cptr k cuptr = (case cuptr of
     None \<Rightarrow> Some (s, 0)
   | Some p \<Rightarrow> do {
       cu \<leftarrow> chanusers s p;
       if cu_flags cu AND chflg (CHR ''o'') = 0 \<and> cu_flags cu AND chflg (CHR ''h'') = 0 then do {
         ch \<leftarrow> channels s k;
         cl \<leftarrow> clients s cptr;
         Some (if ch_modes ch AND chflg (CHR ''t'') \<noteq> 0 \<and> client_is_user cl \<and> client_is_local cl
           then (send (Numeric cptr 482 [Str (ch_name ch)]) s, 1) else (s, 0)) }
       else Some (s, 0) })"

definition topic_hook :: "callback \<Rightarrow> hook_arg list \<Rightarrow> ircd \<Rightarrow> (ircd \<times> int) option" where
  "topic_hook cb args s = (case args of
     [Arg_lclient lcptr, Arg_client cptr, Arg_channel k, Arg_chanuser cuptr] \<Rightarrow> (case cb of
         Cm_topic_hook \<Rightarrow> cm_topic_hook s cptr k cuptr
       | _ \<Rightarrow> None)
   | _ \<Rightarrow> None)"

definition channel_topic :: "format_table \<Rightarrow> chan_hook list \<Rightarrow> ircd \<Rightarrow> ptr option \<Rightarrow> ptr \<Rightarrow> ptr \<Rightarrow> ptr option \<Rightarrow> string \<Rightarrow> ircd option" where
  "channel_topic ft hs s lcptr cptr k cuptr topic = do {
     (s, ret) \<leftarrow> hooks_call topic_hook hs Channel_topic HOOK_DEFAULT
       [Arg_lclient lcptr, Arg_client cptr, Arg_channel k, Arg_chanuser cuptr, Arg_text (Some topic)] s;
     if ret \<noteq> 0 then Some s
     else do {
       ch \<leftarrow> channels s k;
       if str_ncmp (ch_topic ch) topic IRCD_TOPICLEN = 0 then Some s
       else do {
         cl \<leftarrow> clients s cptr;
         info \<leftarrow> (if client_is_user cl then do {
             u \<leftarrow> c_user cl;
             us \<leftarrow> users s u;
             map_option (\<lambda>(b, n). cstr b) (str_snprintf ft (replicate (IRCD_PREFIXLEN + 1) NUL) (IRCD_PREFIXLEN + 1) ''%s!%s@%s''
               [ArgStr (Some (c_name cl)), ArgStr (Some (u_name us)), ArgStr (Some (c_host cl))]) }
           else Some (field (IRCD_PREFIXLEN + 1) (c_name cl)));
         let ch = ch\<lparr>ch_topic := field (IRCD_TOPICLEN + 1) topic, ch_topic_info := info, ch_topic_ts := timer_systime s\<rparr>;
         let s = put_channel k ch s;
         let s = send (Channel_line None k '':%s TOPIC %s :%s'' [Str info, Str (ch_name ch), Str (ch_topic ch)]) s;
         if client_is_user cl then do {
           u \<leftarrow> c_user cl;
           us \<leftarrow> users s u;
           Some (send (Server_line lcptr None CAP_NONE CAP_UID '':%s TOPIC %s :%s'' [Str (c_name cl), Str (ch_name ch), Str (ch_topic ch)])
             (send (Server_line lcptr None CAP_UID CAP_NONE '':%s TOPIC %s :%s'' [Str (u_uid us), Str (ch_name ch), Str (ch_topic ch)]) s)) }
         else Some (send (Server_line lcptr None CAP_NONE CAP_NONE '':%s TOPIC %s :%s'' [Str (c_name cl), Str (ch_name ch), Str (ch_topic ch)]) s) } } }"

text \<open>A topic that begins with a plus is put in front of the old one.\<close>

definition m_topic :: "(64 word \<Rightarrow> 64 word) \<Rightarrow> format_table \<Rightarrow> chan_hook list \<Rightarrow> ircd \<Rightarrow> ptr option \<Rightarrow> ptr \<Rightarrow> string list \<Rightarrow> ircd option" where
  "m_topic shl ft hs s lcptr cptr argv = do {
     name \<leftarrow> argv_at argv 2;
     (s, found) \<leftarrow> channel_find_warn shl s cptr name;
     (case found of
       None \<Rightarrow> Some s
     | Some k \<Rightarrow> do {
         cuptr \<leftarrow> chanuser_find s k cptr;
         ch \<leftarrow> channels s k;
         if cuptr = None then Some (send (Numeric cptr 442 [Str (ch_name ch)]) s)
         else if length argv < 4 then show_topic s cptr k
         else do {
           let arg = argv ! 3;
           (b, _) \<leftarrow> strlcpy (replicate (IRCD_TOPICLEN + 1) NUL) arg (IRCD_TOPICLEN + 1);
           b \<leftarrow> (if cur b = CHR ''+'' then do {
               (b, _) \<leftarrow> strlcpy b (drop 1 arg) (IRCD_TOPICLEN + 1);
               (b, _) \<leftarrow> strlcat b '' | '' (IRCD_TOPICLEN + 1);
               (b, _) \<leftarrow> strlcat b (ch_topic ch) (IRCD_TOPICLEN + 1);
               Some b }
             else Some b);
           channel_topic ft hs s lcptr cptr k cuptr (cstr b) } }) }"

definition ms_topic :: "(64 word \<Rightarrow> 64 word) \<Rightarrow> format_table \<Rightarrow> chan_hook list \<Rightarrow> ircd \<Rightarrow> ptr option \<Rightarrow> ptr \<Rightarrow> string list \<Rightarrow> ircd option" where
  "ms_topic shl ft hs s lcptr cptr argv = do {
     name \<leftarrow> argv_at argv 2;
     found \<leftarrow> channel_find_name shl s name;
     (case found of
       None \<Rightarrow> Some s
     | Some k \<Rightarrow> do { t \<leftarrow> argv_at argv 3; channel_topic ft hs s lcptr cptr k None t }) }"

section \<open>Who is heard\<close>

text \<open>The two refusals, of the channel and the block of the speaker, if there is one.\<close>

definition muted :: "channel \<Rightarrow> chanuser option \<Rightarrow> bool" where
  "muted ch cu \<longleftrightarrow> ch_modes ch AND chflg (CHR ''m'') \<noteq> 0 \<and>
     (\<forall>b. cu = Some b \<longrightarrow> cu_flags b AND (chflg (CHR ''o'') OR chflg (CHR ''h'') OR chflg (CHR ''v'')) = 0)"

definition outside :: "channel \<Rightarrow> chanuser option \<Rightarrow> bool" where
  "outside ch cu \<longleftrightarrow> cu = None \<and> ch_modes ch AND chflg (CHR ''n'') \<noteq> 0"

definition persists :: "ircd \<Rightarrow> channel \<Rightarrow> bool" where
  "persists s ch \<longleftrightarrow> ch_server ch = server_me s \<and> ch_modes ch AND chflg (CHR ''P'') \<noteq> 0"

lemma message_hooks_result:
  assumes wf: "state_wf shl s" and c: "clients s c = Some cl" "client_is_user cl" and k: "channels s k = Some ch"
    and a: "logentries s a = None" and find: "chanuser_find s k c = Some r" "\<forall>p. r = Some p \<longrightarrow> chanusers s p \<noteq> None"
  defines "cu \<equiv> Option.bind r (chanusers s)"
  defines "refused \<equiv> (if muted ch cu then [Numeric c 404 [Str (ch_name ch)]] else []) @ (if outside ch cu then [Numeric c 404 [Str (ch_name ch)]] else [])"
  obtains t where "hooks_call (message_hook a) chanmode_hooks Channel_message HOOK_DEFAULT
      [Arg_client c, Arg_channel k, Arg_type ty, Arg_text (Some msg)] s = Some (t, int (length refused))"
    "state_wf shl t" "chan_abs t = chan_abs s" "sent t = sent s @ refused" "clients t = clients s" "users t = users s"
    "chanusers t = chanusers s" "timer_systime t = timer_systime s"
    "\<exists>ch'. channels t k = Some ch' \<and> ch_name ch' = ch_name ch \<and> ch_chanusers ch' = ch_chanusers ch \<and> ch_lchanusers ch' = ch_lchanusers ch \<and>
      ch_backlog ch' = ch_backlog ch @ (if persists s ch then [a] else []) \<and>
      (persists s ch \<longrightarrow> logentries t a = Some (backlog_entry (timer_systime s) cl (message_cmd ty) (Some msg)))"
proof -
  let ?n = "Numeric c 404 [Str (ch_name ch)]"
  define s1 where "s1 = (if muted ch cu then send ?n s else s)"
  define s2 where "s2 = (if outside ch cu then send ?n s1 else s1)"
  have t12: "talked s s1" "talked s s2" by (simp_all add: s1_def s2_def talked_send)
  have out: "sent s2 = sent s @ refused" by (simp add: s1_def s2_def refused_def)
  have m: "cm_moderated_hook s c k = Some (s1, if muted ch cu then 1 else 0)"
    using find k by (auto simp: cm_moderated_hook_def s1_def muted_def cu_def split: option.split)
  have n: "cm_noext_hook s1 c k = Some (s2, if outside ch cu then 1 else 0)"
  proof -
    have "cu = None \<longleftrightarrow> r = None" using find(2) by (cases r) (auto simp: cu_def)
    then show ?thesis
      using find(1) k by (auto simp: cm_noext_hook_def s2_def outside_def talked_wf(3)[OF t12(1)] talked_same(4)[OF t12(1)])
  qed
  have same: "clients s2 = clients s" "channels s2 = channels s" "server_me s2 = server_me s" "logentries s2 = logentries s"
    "users s2 = users s" "chanusers s2 = chanusers s" "timer_systime s2 = timer_systime s"
    using talked_same[OF t12(2)] t12(2) by (auto simp: talked_def)
  have wf2: "state_wf shl s2" by (rule talked_state(1)[OF t12(2) wf])
  have log: "\<exists>t. cm_persistent_msg_hook a s2 c k ty (Some msg) = Some (t, 0) \<and> state_wf shl t \<and> chan_abs t = chan_abs s2 \<and>
    sent t = sent s2 \<and> clients t = clients s2 \<and> users t = users s2 \<and> chanusers t = chanusers s2 \<and> timer_systime t = timer_systime s2 \<and>
    (\<exists>ch'. channels t k = Some ch' \<and> ch_name ch' = ch_name ch \<and> ch_chanusers ch' = ch_chanusers ch \<and> ch_lchanusers ch' = ch_lchanusers ch \<and>
      ch_backlog ch' = ch_backlog ch @ (if persists s ch then [a] else []) \<and>
      (persists s ch \<longrightarrow> logentries t a = Some (backlog_entry (timer_systime s) cl (message_cmd ty) (Some msg))))"
  proof (cases "persists s ch")
    case True
    have fresh: "logentries s2 a = None" and ch2: "channels s2 k = Some ch" and c2: "clients s2 c = Some cl" using a k c same by simp_all
    obtain t where t: "channel_backlog s2 a k c (message_cmd ty) (Some msg) = Some t" "state_wf shl t" "members t = members s2"
      "invited t = invited s2" "same_index s2 t" by (rule backlog_add_wf[OF wf2 fresh ch2 c2], rule that)
    have "chan_abs t = chan_abs s2" using t(3-5) by (simp add: chan_abs_def same_index_def)
    then show ?thesis
      using True t c(2) c2 ch2 same(3,7)
      by (auto simp: cm_persistent_msg_hook_def persists_def channel_backlog_def)
  next
    case False
    then show ?thesis using k wf2 same by (auto simp: cm_persistent_msg_hook_def persists_def)
  qed
  then obtain t where t: "cm_persistent_msg_hook a s2 c k ty (Some msg) = Some (t, 0)" "state_wf shl t" "chan_abs t = chan_abs s2"
    "sent t = sent s2" "clients t = clients s2" "users t = users s2" "chanusers t = chanusers s2" "timer_systime t = timer_systime s2"
    "\<exists>ch'. channels t k = Some ch' \<and> ch_name ch' = ch_name ch \<and> ch_chanusers ch' = ch_chanusers ch \<and> ch_lchanusers ch' = ch_lchanusers ch \<and>
      ch_backlog ch' = ch_backlog ch @ (if persists s ch then [a] else []) \<and>
      (persists s ch \<longrightarrow> logentries t a = Some (backlog_entry (timer_systime s) cl (message_cmd ty) (Some msg)))" by blast
  have "hooks_call (message_hook a) chanmode_hooks Channel_message HOOK_DEFAULT
      [Arg_client c, Arg_channel k, Arg_type ty, Arg_text (Some msg)] s = Some (t, int (length refused))"
    unfolding hooks_call_callbacks other_callbacks refused_def
    by (simp add: HOOK_MAXARGS_def message_hook_def m n t(1))
  then show thesis
    using that t chan_abs_steps(1)[OF t12(2)] out same by metis
qed

text \<open>Without services among the local members nothing is handled.\<close>

definition no_services :: "ircd \<Rightarrow> ptr list \<Rightarrow> bool" where
  "no_services s ps \<longleftrightarrow> (\<forall>p \<in> set ps. \<exists>cu cl. chanusers s p = Some cu \<and> clients s (cu_client cu) = Some cl \<and> \<not> client_is_service cl)"

lemma services_none: "no_services s ps \<Longrightarrow> services_handle service s ps = Some s"
  by (induction ps) (auto simp: services_handle_def no_services_def)

lemma no_services_cong: "chanusers t = chanusers s \<Longrightarrow> clients t = clients s \<Longrightarrow> no_services t ps = no_services s ps"
  by (simp add: no_services_def)

text \<open>The lines of a message that is heard.\<close>

definition message_lines :: "ptr option \<Rightarrow> ptr \<Rightarrow> ptr \<Rightarrow> client \<Rightarrow> user \<Rightarrow> channel \<Rightarrow> string \<Rightarrow> string \<Rightarrow> outmsg list" where
  "message_lines l c k cl us ch cmd msg =
     [Channel_line l k '':%N!%U@%H %s %s :%s'' [Client c, Client c, Client c, Str cmd, Str (ch_name ch), Str msg],
      Server_line l (Some k) CAP_UID CAP_NONE '':%s %s %s :%s'' [Str (u_uid us), Str cmd, Str (ch_name ch), Str msg],
      Server_line l (Some k) CAP_NONE CAP_UID '':%s %s %s :%s'' [Str (c_name cl), Str cmd, Str (ch_name ch), Str msg]]"

lemma lastmsg_wf:
  assumes "state_wf shl s" "clients s c = Some cl"
  shows "state_wf shl (put_client c (cl\<lparr>c_lastmsg := x\<rparr>) s)" "chan_abs (put_client c (cl\<lparr>c_lastmsg := x\<rparr>) s) = chan_abs s"
proof -
  let ?t = "put_client c (cl\<lparr>c_lastmsg := x\<rparr>) s"
  have "same_index s ?t" "same_members s ?t" "same_invites s ?t" "backlog ?t = backlog s" "logentries ?t = logentries s"
    using assms(2) by (auto simp: put_client_def same_index_def channel_key_def same_members_def client_key_def member_lists_def
      same_invites_def chan_invites_def user_invites_def backlog_def fun_eq_iff)
  then show "state_wf shl ?t" "chan_abs ?t = chan_abs s" using state_wf_parts[OF assms(1)] by simp_all
qed

text \<open>C8. A message of a user to a channel returns and keeps the relations of the directory. It is refused
  exactly if the channel is moderated and the user is neither operator nor half operator nor voiced, or he
  is not a member and the channel takes nothing from outside; the user is told once for each of the two and
  no one else hears of it. Otherwise it goes to the channel and to the servers, by identifier and by name,
  and the idle time of the user starts anew unless he talks to himself. Refused or not, a persistent
  channel of this server keeps the message in its backlog, to be shown to those who join.\<close>

theorem channel_message_rules:
  assumes wf: "state_wf shl s" and c: "clients s c = Some cl" "client_is_user cl" "c_user cl = Some u" "users s u = Some us"
    and k: "channels s k = Some ch" "no_services s (ch_lchanusers ch)" and a: "logentries s a = None"
    and find: "chanuser_find s k c = Some r"
  defines "cu \<equiv> Option.bind r (chanusers s)"
  shows "\<exists>t ch'. channel_message chanmode_hooks service a s l c k ty msg = Some t \<and> state_wf shl t \<and> chan_abs t = chan_abs s \<and>
    channels t k = Some ch' \<and> ch_backlog ch' = ch_backlog ch @ (if persists s ch then [a] else []) \<and>
    (persists s ch \<longrightarrow> logentries t a = Some (backlog_entry (timer_systime s) cl (message_cmd ty) (Some msg))) \<and>
    (if muted ch cu \<or> outside ch cu
     then sent t = sent s @ (if muted ch cu then [Numeric c 404 [Str (ch_name ch)]] else []) @
         (if outside ch cu then [Numeric c 404 [Str (ch_name ch)]] else []) \<and> clients t = clients s
     else sent t = sent s @ message_lines l c k cl us ch (message_cmd ty) msg \<and>
       clients t = (if r \<noteq> None \<and> length (ch_chanusers ch) = 1 then clients s
         else (clients s)(c \<mapsto> cl\<lparr>c_lastmsg := timer_systime s\<rparr>)))"
proof -
  have blocks: "\<forall>p. r = Some p \<longrightarrow> chanusers s p \<noteq> None"
  proof -
    obtain r' where "chanuser_find s k c = Some r'" "\<And>p. r' = Some p \<Longrightarrow> \<exists>cu. member_block s p cu \<and> cu_channel cu = k \<and> cu_client cu = c"
      using chanuser_find_correct[OF state_wfD(2)[OF wf] c(1)] c(2) by metis
    then show ?thesis using find by (auto simp: member_block_def)
  qed
  define refused where "refused = (if muted ch cu then [Numeric c 404 [Str (ch_name ch)]] else []) @ (if outside ch cu then [Numeric c 404 [Str (ch_name ch)]] else [])"
  obtain t ch' where t: "hooks_call (message_hook a) chanmode_hooks Channel_message HOOK_DEFAULT
      [Arg_client c, Arg_channel k, Arg_type ty, Arg_text (Some msg)] s = Some (t, int (length refused))"
    "state_wf shl t" "chan_abs t = chan_abs s" "sent t = sent s @ refused" "clients t = clients s" "users t = users s"
    "chanusers t = chanusers s" "timer_systime t = timer_systime s"
    and ch': "channels t k = Some ch'" "ch_name ch' = ch_name ch" "ch_chanusers ch' = ch_chanusers ch" "ch_lchanusers ch' = ch_lchanusers ch"
      "ch_backlog ch' = ch_backlog ch @ (if persists s ch then [a] else [])"
      "persists s ch \<longrightarrow> logentries t a = Some (backlog_entry (timer_systime s) cl (message_cmd ty) (Some msg))"
    using message_hooks_result[OF wf c(1,2) k(1) a find blocks, of ty msg] unfolding cu_def[symmetric] refused_def[symmetric] by metis
  show ?thesis
  proof (cases "refused = []")
    case False
    then have "channel_message chanmode_hooks service a s l c k ty msg = Some t"
      using find t(1) by (simp add: channel_message_def)
    moreover have "muted ch cu \<or> outside ch cu" using False by (auto simp: refused_def split: if_splits)
    ultimately show ?thesis using t ch' by (auto simp: refused_def)
  next
    case True
    then have heard: "\<not> (muted ch cu \<or> outside ch cu)" by (auto simp: refused_def split: if_splits)
    define t1 where "t1 = fold send (message_lines l c k cl us ch (message_cmd ty) msg) t"
    have talk: "talked t t1" by (simp add: t1_def message_lines_def)
    note same = talked_same[OF talk]
    have sent1: "sent t1 = sent s @ message_lines l c k cl us ch (message_cmd ty) msg"
      using t(4) True by (simp add: t1_def message_lines_def)
    have log1: "logentries t1 = logentries t" using talk by (auto simp: talked_def)
    define v where "v = (if r \<noteq> None \<and> length (ch_chanusers ch) = 1 then t1 else put_client c (cl\<lparr>c_lastmsg := timer_systime s\<rparr>) t1)"
    have "channel_message chanmode_hooks service a s l c k ty msg = Some v"
      using find t(1,5-8) True c k(2) ch'(1-4) services_none no_services_cong[OF t(7,5)] no_services_cong[of "send x t" t for x]
      by (simp add: channel_message_def v_def t1_def message_lines_def Let_def)
    moreover have "state_wf shl t1" "chan_abs t1 = chan_abs s" "clients t1 c = Some cl"
      using talked_state(1)[OF talk t(2)] chan_abs_steps(1)[OF talk] t(3,5) same c(1) by simp_all
    then have "state_wf shl v" "chan_abs v = chan_abs s" using lastmsg_wf by (simp_all add: v_def)
    ultimately show ?thesis
      using heard ch' sent1 log1 same t(5) by (simp add: v_def)
  qed
qed

text \<open>An outsider talks to a moderated, persistent channel that is closed to the outside.\<close>

definition quiet_modes :: "64 word" where
  "quiet_modes = chflg (CHR ''m'') OR chflg (CHR ''n'') OR chflg (CHR ''P'')"

lemma quiet_modes_set: "quiet_modes AND chflg (CHR ''m'') \<noteq> 0" "quiet_modes AND chflg (CHR ''n'') \<noteq> 0" "quiet_modes AND chflg (CHR ''P'') \<noteq> 0"
  unfolding quiet_modes_def by code_simp+

theorem channel_message_witness:
  "\<exists>s ch t ch'. channel_new (\<lambda>_. 0) join_start 1 ''#a'' = Some (s, 1) \<and> channels s 1 = Some ch \<and>
    channel_message chanmode_hooks (\<lambda>s p. None) 3 (put_channel 1 (ch\<lparr>ch_modes := quiet_modes\<rparr>) s) None 10 1 CHANNEL_NOTICE ''hi'' = Some t \<and>
    sent t = [Numeric 10 404 [Str ''#a''], Numeric 10 404 [Str ''#a'']] \<and> channels t 1 = Some ch' \<and> ch_backlog ch' = [3] \<and>
    map_option (\<lambda>e. (le_cmd e, le_text e)) (logentries t 3) = Some (''PRIVMSG'', Some ''hi'')"
proof -
  note b = join_start_ok(1)[of "\<lambda>_. 0"] join_start_ok(2-8)
  obtain s where s: "channel_new (\<lambda>_. 0) join_start 1 ''#a'' = Some (s, 1)" "state_wf (\<lambda>_. 0) s" "members s = members join_start"
    by (rule channel_new_spec[OF b(1), of 1 "''#a''"]) (use b(6) in simp_all)
  obtain ch where ch: "channels s 1 = Some ch" "ch_name ch = ''#a''" "ch_chanusers ch = []" "ch_lchanusers ch = []" "ch_backlog ch = []"
      "ch_server ch = None"
    and st: "clients s = clients join_start" "users s = users join_start" "logentries s = logentries join_start"
      "server_me s = None" "sent s = []" "chanusers s = chanusers join_start"
    using s(1) by (auto simp: channel_new_def channel_link_def Let_def channel_zero_def field_def IRCD_CHANNELLEN_def join_start_def boot_state_def)
  let ?s = "put_channel 1 (ch\<lparr>ch_modes := quiet_modes\<rparr>) s"
  let ?cl = "a_client CLIENT_LOCAL 20 ''alice''"
  have cl: "clients ?s 10 = Some ?cl" "client_is_user ?cl" "c_user ?cl = Some 20" "users ?s 20 = Some (a_user 10 ''al'')" "logentries ?s 3 = None"
    by (simp_all add: st join_start_def boot_state_def a_client_def client_is_user_def)
  have wf: "state_wf (\<lambda>_. 0) ?s" by (rule put_channel_wf[OF s(2) ch(1)]) simp_all
  have find: "chanuser_find ?s 1 10 = Some None"
    using ch cl by (simp add: chanuser_find_def a_user_def)
  have cmd: "message_cmd CHANNEL_NOTICE = ''PRIVMSG''" by (simp add: message_cmd_def CHANNEL_PRIVMSG_def CHANNEL_NOTICE_def)
  let ?c = "ch\<lparr>ch_modes := quiet_modes\<rparr>"
  have rules: "no_services ?s (ch_lchanusers ?c)" "channels ?s 1 = Some ?c" "persists ?s ?c" "muted ?c None" "outside ?c None"
    using ch st quiet_modes_set by (simp_all add: no_services_def persists_def muted_def outside_def)
  obtain t ch' where t: "channel_message chanmode_hooks (\<lambda>s p. None) 3 ?s None 10 1 CHANNEL_NOTICE ''hi'' = Some t"
    "channels t 1 = Some ch'" "ch_backlog ch' = ch_backlog ?c @ [3]"
    "logentries t 3 = Some (backlog_entry (timer_systime ?s) ?cl ''PRIVMSG'' (Some ''hi''))"
    "sent t = sent ?s @ [Numeric 10 404 [Str (ch_name ?c)]] @ [Numeric 10 404 [Str (ch_name ?c)]]"
    using channel_message_rules[OF wf cl(1-4) rules(2,1) cl(5) find, of "\<lambda>s p. None" None CHANNEL_NOTICE "''hi''"] rules(3-5)
    unfolding cmd by (simp only: if_True Option.bind.simps simp_thms) blast
  have e: "le_cmd (backlog_entry x ?cl ''PRIVMSG'' (Some ''hi'')) = ''PRIVMSG''" "le_text (backlog_entry x ?cl ''PRIVMSG'' (Some ''hi'')) = Some ''hi''" for x
    by (simp_all add: backlog_entry_def field_def)
  have "sent t = [Numeric 10 404 [Str ''#a''], Numeric 10 404 [Str ''#a'']]" "ch_backlog ch' = [3]" using t(3,5) ch st by simp_all
  then show ?thesis using s(1) ch(1) t(1,2,4) e by (intro exI[of _ s] exI[of _ ch] exI[of _ t] exI[of _ ch']) simp
qed

section \<open>Who changes the topic\<close>

definition new_topic :: "string \<Rightarrow> string \<Rightarrow> string" where
  "new_topic arg old = take IRCD_TOPICLEN (case arg of [] \<Rightarrow> [] | c # cs \<Rightarrow> if c = CHR ''+'' then cs @ '' | '' @ old else arg)"

lemma topic_buffer:
  assumes "no_nul arg" "no_nul old"
  obtains b0 n b where "strlcpy (replicate (IRCD_TOPICLEN + 1) NUL) arg (IRCD_TOPICLEN + 1) = Some (b0, n)"
    "(if cur b0 = CHR ''+'' then do {
        (b, _) \<leftarrow> strlcpy b0 (drop 1 arg) (IRCD_TOPICLEN + 1);
        (b, _) \<leftarrow> strlcat b '' | '' (IRCD_TOPICLEN + 1);
        (b, _) \<leftarrow> strlcat b old (IRCD_TOPICLEN + 1);
        Some b }
      else Some b0) = Some b" "cstr b = new_topic arg old"
proof -
  let ?n = "IRCD_TOPICLEN + 1"
  have n: "0 < ?n" by simp
  obtain b0 k where b0: "strlcpy (replicate ?n NUL) arg ?n = Some (b0, k)"
    using strlcpy_result[OF n, of "replicate ?n NUL" arg] by (auto simp: Let_def)
  then have c0: "cstr b0 = take IRCD_TOPICLEN arg" "length b0 = ?n"
    using strlcpy_cstr[OF n _ b0] assms(1) by simp_all
  have hd0: "cur b0 = CHR ''+'' \<longleftrightarrow> (\<exists>cs. arg = CHR ''+'' # cs)"
  proof -
    have "cur b0 = (case cstr b0 of [] \<Rightarrow> NUL | c # _ \<Rightarrow> c)"
      using c0(2) by (cases b0) (simp_all add: cstr_def)
    then show ?thesis using c0(1) by (cases arg) (simp_all add: IRCD_TOPICLEN_def)
  qed
  show thesis
  proof (cases "cur b0 = CHR ''+''")
    case False
    then have "new_topic arg old = take IRCD_TOPICLEN arg" using hd0 by (auto simp: new_topic_def split: list.split)
    then show ?thesis using that[OF b0, of b0] False c0 by simp
  next
    case True
    then obtain cs where arg: "arg = CHR ''+'' # cs" using hd0 by blast
    then have cs: "no_nul cs" using assms(1) by (simp add: no_nul_def)
    obtain b1 k1 where b1: "strlcpy b0 cs ?n = Some (b1, k1)"
      using strlcpy_result[OF n, of b0 cs] c0 by (auto simp: Let_def)
    then have c1: "cstr b1 = take IRCD_TOPICLEN cs" "length b1 = ?n"
      using strlcpy_cstr[OF n _ b1] c0 cs by simp_all
    have cut: "take IRCD_TOPICLEN (take IRCD_TOPICLEN xs @ ys) = take IRCD_TOPICLEN (xs @ ys)" for xs ys :: string
      by (simp add: take_append min_def)
    obtain b2 where b2: "strlcat b1 '' | '' ?n = Some (b2, length (cstr b2))" "cstr b2 = take (?n - 1) (cstr b1 @ cstr '' | '')" "length b2 = length b1"
      by (rule strlcat_result[OF n, of b1 "'' | ''"]) (use c1 in simp_all)
    then have c2: "cstr b2 = take IRCD_TOPICLEN (cs @ '' | '')" "length b2 = ?n" using c1 cut[of cs "'' | ''"] by simp_all
    obtain b3 where b3: "strlcat b2 old ?n = Some (b3, length (cstr b3))" "cstr b3 = take (?n - 1) (cstr b2 @ cstr old)"
      by (rule strlcat_result[OF n, of b2 old]) (use c2 in simp_all)
    then have c3: "cstr b3 = take IRCD_TOPICLEN (cs @ '' | '' @ old)" using c2 assms(2) cut[of "cs @ '' | ''" old] by simp
    show ?thesis using that[OF b0, of b3] True arg b1 b2(1) b3(1) c3 by (simp add: new_topic_def)
  qed
qed

text \<open>A local user without the two privileges, on a channel with +t.\<close>

definition topic_guarded :: "channel \<Rightarrow> client \<Rightarrow> chanuser \<Rightarrow> bool" where
  "topic_guarded ch cl cu \<longleftrightarrow> ch_modes ch AND chflg (CHR ''t'') \<noteq> 0 \<and> client_is_local cl \<and>
     cu_flags cu AND chflg (CHR ''o'') = 0 \<and> cu_flags cu AND chflg (CHR ''h'') = 0"

definition topic_author :: "client \<Rightarrow> user \<Rightarrow> string" where
  "topic_author cl us = take IRCD_PREFIXLEN (c_name cl @ ''!'' @ u_name us @ ''@'' @ c_host cl)"

lemma topic_author_written:
  assumes "no_nul (c_name cl)" "no_nul (u_name us)" "no_nul (c_host cl)"
  shows "map_option (\<lambda>(b, n). cstr b) (str_snprintf ft (replicate (IRCD_PREFIXLEN + 1) NUL) (IRCD_PREFIXLEN + 1) ''%s!%s@%s''
    [ArgStr (Some (c_name cl)), ArgStr (Some (u_name us)), ArgStr (Some (c_host cl))]) = Some (topic_author cl us)"
proof -
  let ?t = "topic_author cl us"
  let ?qs = "[PStr False False 0 (Some (c_name cl)), PLit (CHR ''!''), PStr False False 0 (Some (u_name us)), PLit (CHR ''@''),
    PStr False False 0 (Some (c_host cl))]"
  have t: "?t = take (IRCD_PREFIXLEN + 1 - 1) (concat (map meaning ?qs))"
    using assms by (simp add: topic_author_def aligned_def)
  have "str_snprintf ft (replicate (IRCD_PREFIXLEN + 1) NUL) (IRCD_PREFIXLEN + 1) ''%s!%s@%s''
      [ArgStr (Some (c_name cl)), ArgStr (Some (u_name us)), ArgStr (Some (c_host cl))] =
    Some (?t @ NUL # drop (Suc (length ?t)) (replicate (IRCD_PREFIXLEN + 1) NUL), length ?t)"
    by (rule snprintf_text[of _ ?qs, OF _ _ _ _ _ t]) (simp_all add: flags_def)
  moreover have "no_nul ?t" using assms by (simp add: topic_author_def no_nul_take)
  ultimately show ?thesis by simp
qed

lemma topic_hooks_result:
  assumes "clients s c = Some cl" "client_is_user cl" "channels s k = Some ch" "chanusers s p = Some cu"
  shows "hooks_call topic_hook chanmode_hooks Channel_topic HOOK_DEFAULT
      [Arg_lclient l, Arg_client c, Arg_channel k, Arg_chanuser (Some p), Arg_text x] s =
    Some (if topic_guarded ch cl cu then (send (Numeric c 482 [Str (ch_name ch)]) s, 1) else (s, 0))"
  unfolding hooks_call_callbacks other_callbacks
  using assms by (simp add: HOOK_MAXARGS_def topic_hook_def cm_topic_hook_def topic_guarded_def)

lemma topic_text_read:
  assumes k: "channel_find_name shl s name = Some (Some k)" "channels s k = Some ch" "no_nul (ch_topic ch)"
    and p: "chanuser_find s k c = Some (Some p)" and arg: "no_nul arg"
  shows "m_topic shl ft hs s l c [pre, cmd, name, arg] = channel_topic ft hs s l c k (Some p) (new_topic arg (ch_topic ch))"
    "no_nul (new_topic arg (ch_topic ch))"
proof -
  obtain b0 n b where b: "strlcpy (replicate (IRCD_TOPICLEN + 1) NUL) arg (IRCD_TOPICLEN + 1) = Some (b0, n)"
    "(if cur b0 = CHR ''+'' then do {
        (b, _) \<leftarrow> strlcpy b0 (drop 1 arg) (IRCD_TOPICLEN + 1);
        (b, _) \<leftarrow> strlcat b '' | '' (IRCD_TOPICLEN + 1);
        (b, _) \<leftarrow> strlcat b (ch_topic ch) (IRCD_TOPICLEN + 1);
        Some b }
      else Some b0) = Some b" "cstr b = new_topic arg (ch_topic ch)"
    by (rule topic_buffer[OF arg k(3)])
  show "m_topic shl ft hs s l c [pre, cmd, name, arg] = channel_topic ft hs s l c k (Some p) (new_topic arg (ch_topic ch))"
    using k(1,2) p b by (simp add: m_topic_def argv_at_def channel_find_warn_def)
  show "no_nul (new_topic arg (ch_topic ch))" using b(3) by (metis no_nul_cstr)
qed

text \<open>C12. The command TOPIC of a member with a text returns and keeps the relations of the directory. A
  local user who is neither operator nor half operator cannot change the topic of a channel with +t: he
  is told so and nothing changes. Otherwise the topic becomes the text, or what follows its plus in front
  of the old topic, cut to 384 bytes; if that is what it was nothing happens, else the channel records the
  topic with its author and time and sends it to the members and to both kinds of servers.\<close>

theorem topic_command_rules:
  assumes wf: "state_wf shl s" and c: "names_ok s c" "clients s c = Some cl" "client_is_user cl" "c_user cl = Some u" "users s u = Some us"
    and k: "channel_find_name shl s name = Some (Some k)" "channels s k = Some ch" "text_ok IRCD_TOPICLEN (ch_topic ch)"
    and p: "chanuser_find s k c = Some (Some p)" "chanusers s p = Some cu"
    and argv: "argv = [pre, cmd, name, arg]" "no_nul arg"
  defines "new \<equiv> new_topic arg (ch_topic ch)"
  defines "line \<equiv> \<lambda>who. [Str who, Str (ch_name ch), Str new]"
  shows "\<exists>t. m_topic shl ft chanmode_hooks s l c argv = Some t \<and> state_wf shl t \<and> chan_abs t = chan_abs s \<and>
    (if topic_guarded ch cl cu then t = send (Numeric c 482 [Str (ch_name ch)]) s
     else if new = ch_topic ch then t = s
     else channels t = (channels s)(k \<mapsto> ch\<lparr>ch_topic := new, ch_topic_info := topic_author cl us, ch_topic_ts := timer_systime s\<rparr>) \<and>
       sent t = sent s @ [Channel_line None k '':%s TOPIC %s :%s'' (line (topic_author cl us)),
         Server_line l None CAP_UID CAP_NONE '':%s TOPIC %s :%s'' (line (u_uid us)),
         Server_line l None CAP_NONE CAP_UID '':%s TOPIC %s :%s'' (line (c_name cl))])"
proof -
  have nn: "no_nul (c_name cl)" "no_nul (u_name us)" "no_nul (c_host cl)" "no_nul (ch_topic ch)" "length (ch_topic ch) \<le> IRCD_TOPICLEN"
    using c k(3) by (auto simp: names_ok_def text_ok_def)
  note m = topic_text_read(1)[OF k(1,2) nn(4) p(1) argv(2), of ft chanmode_hooks l pre cmd, folded argv(1) new_def]
  have new: "no_nul new" "length new \<le> IRCD_TOPICLEN" "field (IRCD_TOPICLEN + 1) new = new"
  proof -
    show "no_nul new" unfolding new_def by (rule topic_text_read(2)[OF k(1,2) nn(4) p(1) argv(2)])
    show "length new \<le> IRCD_TOPICLEN" by (simp add: new_def new_topic_def)
    then show "field (IRCD_TOPICLEN + 1) new = new" using \<open>no_nul new\<close> by (simp add: field_id)
  qed
  have same: "str_ncmp (ch_topic ch) new IRCD_TOPICLEN = 0 \<longleftrightarrow> new = ch_topic ch"
    using str_ncmp_loop_0[of IRCD_TOPICLEN "ch_topic ch" new] nn(4,5) new(1,2) by (auto simp: str_ncmp_def IRCD_TOPICLEN_def)
  note hk = topic_hooks_result[OF c(2,3) k(2) p(2), of l "Some new"]
  consider "topic_guarded ch cl cu" | "\<not> topic_guarded ch cl cu" "new = ch_topic ch" | "\<not> topic_guarded ch cl cu" "new \<noteq> ch_topic ch" by blast
  then show ?thesis
  proof cases
    case 1
    have talk: "talked s (send (Numeric c 482 [Str (ch_name ch)]) s)" by simp
    show ?thesis
      using 1 hk talked_state(1)[OF talk wf] chan_abs_steps(1)[OF talk] by (simp add: m channel_topic_def)
  next
    case 2
    then show ?thesis using hk wf k(2) same by (simp add: m channel_topic_def)
  next
    case 3
    let ?ch = "ch\<lparr>ch_topic := new, ch_topic_info := topic_author cl us, ch_topic_ts := timer_systime s\<rparr>"
    let ?s = "put_channel k ?ch s"
    let ?t = "send (Server_line l None CAP_NONE CAP_UID '':%s TOPIC %s :%s'' (line (c_name cl)))
      (send (Server_line l None CAP_UID CAP_NONE '':%s TOPIC %s :%s'' (line (u_uid us)))
      (send (Channel_line None k '':%s TOPIC %s :%s'' (line (topic_author cl us))) ?s))"
    obtain bb kk where author: "str_snprintf ft (replicate (IRCD_PREFIXLEN + 1) NUL) (IRCD_PREFIXLEN + 1) ''%s!%s@%s''
        [ArgStr (Some (c_name cl)), ArgStr (Some (u_name us)), ArgStr (Some (c_host cl))] = Some (bb, kk)" "cstr bb = topic_author cl us"
      using topic_author_written[OF nn(1-3), of ft] by auto
    then have "m_topic shl ft chanmode_hooks s l c argv = Some ?t"
      using 3 hk k(2) same c(2-5) new(3)
      by (simp add: m channel_topic_def line_def Let_def)
    moreover have wf': "state_wf shl ?s" "chan_abs ?s = chan_abs s" by (rule put_channel_wf[OF wf k(2)]; simp)+
    have talk: "talked ?s ?t" by simp
    note talked_state(1)[OF talk wf'(1)] chan_abs_steps(1)[OF talk]
    ultimately show ?thesis using 3 wf'(2) by (simp add: put_channel_def)
  qed
qed

text \<open>A user alone in a channel.\<close>

lemma alice_room:
  obtains s ch cu where "state_wf (\<lambda>_. 0) s" "channels s 1 = Some ch" "ch_name ch = ''#a''" "ch_modes ch = 0" "ch_topic ch = []"
    "ch_chanusers ch = [2]" "ch_server ch = None" "chanusers s 2 = Some cu" "cu_channel cu = 1" "cu_client cu = 10" "cu_flags cu = 0"
    "chan_abs s = ({1}, {(1, 10)}, {})" "chanuser_find s 1 10 = Some (Some 2)" "channel_find_name (\<lambda>_. 0) s ''#a'' = Some (Some 1)"
    "channel_list s = [1]" "same_texts join_start s" "sent s = []" "server_me s = None" "timer_systime s = 1000" "lclients s = Map.empty"
proof -
  note b = join_start_ok(1)[of "\<lambda>_. 0"] join_start_ok(2-8)
  obtain s where s: "channel_new (\<lambda>_. 0) join_start 1 ''#a'' = Some (s, 1)" "state_wf (\<lambda>_. 0) s" "members s = members join_start"
    "invited s = invited join_start" "channel_name s 1 = field (IRCD_CHANNELLEN + 1) ''#a''" "1 \<in> set (channel_entries s)"
    "removeAll 1 (channel_entries s) = channel_entries join_start"
    by (rule channel_new_spec[OF b(1), of 1 "''#a''"]) (use b(6) in simp_all)
  let ?al = "a_client CLIENT_LOCAL 20 ''alice''"
  obtain ch where ch: "channels s 1 = Some ch" "ch_name ch = ''#a''" "ch_chanusers ch = []" "ch_modes ch = 0" "ch_topic ch = []" "ch_server ch = None"
    and st: "clients s = clients join_start" "users s = users join_start" "chanusers s = Map.empty" "server_me s = None" "sent s = []"
      "timer_systime s = 1000" "channel_list s = [1]" "lclients s = Map.empty" "same_texts join_start s"
    using s(1) by (auto simp: channel_new_def channel_link_def Let_def channel_zero_def field_def IRCD_CHANNELLEN_def join_start_def
      boot_state_def same_texts_def)
  have cl: "clients s 10 = Some ?al" "client_is_user ?al" "c_user ?al = Some 20" "users s 20 = Some (a_user 10 ''al'')"
    by (simp_all add: st join_start_def boot_state_def a_client_def client_is_user_def)
  obtain t where t: "chanuser_add s 2 1 10 = Some (t, Some 2)" "state_wf (\<lambda>_. 0) t" "members t = insert (1, 10) (members s)"
    "invited t = invited s" "same_index s t"
    using enter_wf[OF s(2) _ cl(1) _ ch(1), of 2] cl(2) st(3) s(3) b(4) by (metis empty_iff)
  obtain ch' where ch': "channels t 1 = Some ch'" "ch_name ch' = ''#a''" "ch_modes ch' = 0" "ch_topic ch' = []" "ch_chanusers ch' = [2]"
    "ch_server ch' = None" and t': "server_me t = None" "sent t = []" "timer_systime t = 1000" "lclients t = Map.empty"
    using t(1) ch cl st by (auto simp: chanuser_add_def chanuser_new_def channel_pop_def client_pop_def user_of_def Let_def split: if_splits)
  note shape = enter_shape[OF cl ch(1) t(1)]
  obtain cu where cu: "chanusers t 2 = Some cu" "cu_channel cu = 1" "cu_client cu = 10" "cu_flags cu = 0" using shape(4) by simp
  have alone: "p = 2" if "chanusers t p \<noteq> None" for p using that shape(4) st(3) by (simp split: if_splits)
  have abs: "chan_abs t = ({1}, {(1, 10)}, {})"
    using t(3-5) s(3,4) b(4,5) st(7) by (simp add: chan_abs_def same_index_def)
  have find: "chanuser_find t 1 10 = Some (Some 2)"
  proof -
    obtain n where c: "clients t 10 = Some (?al\<lparr>c_refcount := n\<rparr>)" using same_textsD(1)[OF shape(1) cl(1)] by blast
    obtain r where "chanuser_find t 1 10 = Some r" "r = None \<longleftrightarrow> (1, 10) \<notin> members t"
      "\<And>p. r = Some p \<Longrightarrow> \<exists>cu. member_block t p cu \<and> cu_channel cu = 1 \<and> cu_client cu = 10"
      using chanuser_find_correct[OF state_wfD(2)[OF t(2)] c, of 1] cl(2) by (auto simp: client_is_user_def)
    then show ?thesis using t(3) alone by (cases r) (auto simp: member_block_def)
  qed
  have "channel_name t 1 = ''#a''" using ch' by (simp add: channel_name_def)
  moreover have "set (channel_entries t) = {1}"
    using channel_list_entries[OF t(2)] abs by (simp add: chan_abs_def del: set_concat)
  moreover have "same_name ''#a'' ''#a''" by (simp add: same_name_def)
  ultimately have "List.find (\<lambda>p. same_name (channel_name t p) ''#a'') (channel_entries t) = Some 1"
    by (cases "channel_entries t") (auto simp del: set_concat)
  then have named: "channel_find_name (\<lambda>_. 0) t ''#a'' = Some (Some 1)" using channel_find_law[OF state_wfD(1)[OF t(2)]] by simp
  show thesis
    by (rule that[OF t(2) ch'(1-5) _ cu(1-4) abs find named _ same_texts_trans[OF st(9) shape(1)] t'(2,1,3,4)])
      (use ch'(6) t(5) st(7) in \<open>simp_all add: same_index_def\<close>)
qed

theorem topic_command_witness:
  "\<exists>s t. chan_abs s = ({1}, {(1, 10)}, {}) \<and>
    m_topic (\<lambda>_. 0) str_init chanmode_hooks s None 10 [''alice'', ''TOPIC'', ''#a'', ''+hi''] = Some t \<and> chan_abs t = chan_abs s \<and>
    map_option ch_topic (channels t 1) = Some ''hi | '' \<and> length (sent t) = 3"
proof -
  obtain s ch cu where s: "state_wf (\<lambda>_. 0) s" "channels s 1 = Some ch" "ch_name ch = ''#a''" "ch_modes ch = 0" "ch_topic ch = []"
    "chanusers s 2 = Some cu" "chan_abs s = ({1}, {(1, 10)}, {})" "chanuser_find s 1 10 = Some (Some 2)"
    "channel_find_name (\<lambda>_. 0) s ''#a'' = Some (Some 1)" "same_texts join_start s" "sent s = []"
    by (rule alice_room, rule that)
  have c: "joiner_ok s 10" by (rule joiner_ok_texts[OF s(10) join_start_ok(2)])
  then obtain cl u us where cl: "names_ok s 10" "clients s 10 = Some cl" "client_is_user cl" "c_user cl = Some u" "users s u = Some us"
    by (auto simp: joiner_ok_def)
  have new: "new_topic ''+hi'' [] = ''hi | ''" by (simp add: new_topic_def IRCD_TOPICLEN_def)
  have arg: "text_ok IRCD_TOPICLEN (ch_topic ch)" "no_nul ''+hi''" using s(5) by (simp_all add: text_ok_def no_nul_def)
  from topic_command_rules[OF s(1) cl s(9,2) arg(1) s(8,6) refl arg(2), of str_init None "''alice''" "''TOPIC''"]
  show ?thesis using s new by (fastforce simp: topic_guarded_def)
qed

end
