(* ===== verification/Leave.thy ===== *)
theory Leave
  imports Talk
begin

text \<open>
  Leaving a channel: the commands PART and OPART (modules/msg/m_part.c, m_opart.c), and KICK
  (modules/msg/m_kick.c with chanuser_kick of src/chanuser.c and the hooks of the modules of operators and
  half operators). Who owns a channel is asked in a way that every member answers.
\<close>

unbundle bit_operations_syntax

section \<open>PART\<close>

text \<open>The macros of modules/msg/m_part.c, the same as in include/ircd/crowdguard.h. The flags that are asked
  for are those the member has.\<close>

definition channel_owner_flags :: "chanuser \<Rightarrow> 64 word" where
  "channel_owner_flags cu = (cu_flags cu AND chflg (CHR ''o'')) OR (cu_flags cu AND chflg (CHR ''h'')) OR (cu_flags cu AND chflg (CHR ''v''))"

definition chanuser_is_owner :: "chanuser \<Rightarrow> bool" where
  "chanuser_is_owner cu \<longleftrightarrow> cu_flags cu AND channel_owner_flags cu = channel_owner_flags cu"

definition channel_is_persistent :: "channel \<Rightarrow> bool" where
  "channel_is_persistent ch \<longleftrightarrow> ch_modes ch AND chflg (CHR ''P'') \<noteq> 0"

definition m_part_send :: "ircd \<Rightarrow> ptr \<Rightarrow> ptr \<Rightarrow> string option \<Rightarrow> ircd option" where
  "m_part_send s cptr k reason = do {
     cl \<leftarrow> clients s cptr;
     u \<leftarrow> c_user cl;
     us \<leftarrow> users s u;
     ch \<leftarrow> channels s k;
     let who = [Str (c_name cl), Str (u_name us), Str (c_host cl), Str (ch_name ch)];
     Some (case reason of
       Some r \<Rightarrow> if cur r \<noteq> NUL then send (Channel_line None k '':%s!%s@%s PART %s :%s'' (who @ [Str r])) s
         else send (Channel_line None k '':%s!%s@%s PART %s'' who) s
     | None \<Rightarrow> send (Channel_line None k '':%s!%s@%s PART %s'' who) s) }"

text \<open>The buffer of the reason.\<close>

definition part_reason :: "string list \<Rightarrow> string option" where
  "part_reason argv = (if length argv > 3
     then map_option (\<lambda>(b, n). cstr b) (strlcpy (replicate (IRCD_TOPICLEN + 1) NUL) (argv ! 3) (IRCD_TOPICLEN + 1))
     else Some [])"

definition m_part :: "(64 word \<Rightarrow> 64 word) \<Rightarrow> ircd \<Rightarrow> ptr \<Rightarrow> string list \<Rightarrow> ircd option" where
  "m_part shl s cptr argv = do {
     reason \<leftarrow> part_reason argv;
     name \<leftarrow> argv_at argv 2;
     found \<leftarrow> channel_find_name shl s name;
     (case found of
       None \<Rightarrow> Some (send (Numeric_line cptr 403 [Str name]) s)
     | Some k \<Rightarrow> do {
         r \<leftarrow> chanuser_find s k cptr;
         (case r of
           None \<Rightarrow> Some (send (Numeric_line cptr 442 [Str name]) s)
         | Some p \<Rightarrow> do {
             cu \<leftarrow> chanusers s p;
             cl \<leftarrow> clients s cptr;
             ch \<leftarrow> channels s k;
             if chanuser_is_owner cu \<and> client_is_local cl \<and> channel_is_persistent ch then do {
               me \<leftarrow> server_me s;
               Some (send (Client_line cptr '':%s NOTICE %N :*** You need to /OPART if you really want to leave %s.''
                 [Server (Some me), Client cptr, Str (ch_name ch)]) s) }
             else do {
               s \<leftarrow> m_part_send s cptr k (Some reason);
               s \<leftarrow> chanuser_discharge s None p (argv_at argv 3);
               s \<leftarrow> chanuser_delete s p;
               ch \<leftarrow> channels s k;
               if ch_chanusers ch = [] \<and> \<not> channel_is_persistent ch then channel_delete s k else Some s } }) }) }"

definition ms_part :: "(64 word \<Rightarrow> 64 word) \<Rightarrow> ircd \<Rightarrow> ptr option \<Rightarrow> ptr \<Rightarrow> string list \<Rightarrow> ircd option" where
  "ms_part shl s lcptr cptr argv = do {
     name \<leftarrow> argv_at argv 2;
     found \<leftarrow> channel_find_name shl s name;
     (case found of
       None \<Rightarrow> Some s
     | Some k \<Rightarrow> do {
         r \<leftarrow> chanuser_find s k cptr;
         (case r of
           None \<Rightarrow> Some s
         | Some p \<Rightarrow> do {
             s \<leftarrow> m_part_send s cptr k (argv_at argv 3);
             s \<leftarrow> chanuser_discharge s lcptr p (argv_at argv 3);
             s \<leftarrow> chanuser_delete s p;
             ch \<leftarrow> channels s k;
             if ch_chanusers ch = [] then channel_delete s k else Some s }) }) }"

section \<open>OPART\<close>

definition m_opart_server_send :: "ircd \<Rightarrow> ptr option \<Rightarrow> ptr \<Rightarrow> string option \<Rightarrow> ircd option" where
  "m_opart_server_send s lcptr p reason = do {
     cu \<leftarrow> chanusers s p;
     cl \<leftarrow> clients s (cu_client cu);
     u \<leftarrow> c_user cl;
     us \<leftarrow> users s u;
     ch \<leftarrow> channels s (cu_channel cu);
     Some (case reason of
       Some r \<Rightarrow> send (Server_line lcptr None CAP_NONE CAP_UID '':%s OPART %s :%s'' [Str (c_name cl), Str (ch_name ch), Str r])
         (send (Server_line lcptr None CAP_UID CAP_NONE '':%s OPART %s :%s'' [Str (u_uid us), Str (ch_name ch), Str r]) s)
     | None \<Rightarrow> send (Server_line lcptr None CAP_NONE CAP_UID '':%s OPART %s'' [Str (c_name cl), Str (ch_name ch)])
         (send (Server_line lcptr None CAP_UID CAP_NONE '':%s OPART %s'' [Str (u_uid us), Str (ch_name ch)]) s)) }"

text \<open>The members are told of a kick, the one who leaves of a part.\<close>

definition opart_line :: "ptr option \<Rightarrow> ptr \<Rightarrow> string option \<Rightarrow> string \<Rightarrow> ptr \<Rightarrow> client \<Rightarrow> outmsg" where
  "opart_line lcptr cptr reason name a acl = (
     let own = c_lclient acl \<noteq> None \<and> lcptr = c_lclient acl;
         parts = [Client a, Client a, Client a, Str name];
         kicks = [Client cptr, Client cptr, Client cptr, Str name, Client a] in
     (case reason of
       Some r \<Rightarrow> if cur r \<noteq> NUL
         then (if own then Client_line a '':%N!%U@%H PART %s :%s'' (parts @ [Str r])
           else Client_line a '':%N!%U@%H KICK %s %N :%s'' (kicks @ [Str r]))
         else (if own then Client_line a '':%N!%U@%H PART %s'' parts else Client_line a '':%N!%U@%H KICK %s %N'' kicks)
     | None \<Rightarrow> if own then Client_line a '':%N!%U@%H PART %s'' parts else Client_line a '':%N!%U@%H KICK %s %N'' kicks))"

definition m_opart_send :: "ircd \<Rightarrow> ptr option \<Rightarrow> ptr \<Rightarrow> ptr \<Rightarrow> string option \<Rightarrow> ircd option" where
  "m_opart_send s lcptr cptr k reason = do {
     ch \<leftarrow> channels s k;
     for_each (\<lambda>s p. do {
       cu \<leftarrow> chanusers s p;
       acl \<leftarrow> clients s (cu_client cu);
       Some (send (opart_line lcptr cptr reason (ch_name ch) (cu_client cu) acl) s) }) s (ch_lchanusers ch) }"

definition m_opart :: "(64 word \<Rightarrow> 64 word) \<Rightarrow> ircd \<Rightarrow> ptr option \<Rightarrow> ptr \<Rightarrow> string list \<Rightarrow> ircd option" where
  "m_opart shl s lcptr cptr argv = do {
     reason \<leftarrow> part_reason argv;
     name \<leftarrow> argv_at argv 2;
     found \<leftarrow> channel_find_name shl s name;
     (case found of
       None \<Rightarrow> Some (send (Numeric_line cptr 403 [Str name]) s)
     | Some k \<Rightarrow> do {
         ch \<leftarrow> channels s k;
         if \<not> channel_is_persistent ch then
           Some (send (Client_line cptr '':%S NOTICE %N :*** Channel %s needs to be persistent (+P) for /OPART''
             [Server (server_me s), Client cptr, Str (ch_name ch)]) s)
         else do {
           r \<leftarrow> chanuser_find s k cptr;
           (case r of
             None \<Rightarrow> Some (send (Numeric_line cptr 442 [Str name]) s)
           | Some p \<Rightarrow> do {
               cu \<leftarrow> chanusers s p;
               if \<not> chanuser_is_owner cu then Some (send (Numeric cptr 482 [Str (ch_name ch)]) s)
               else do {
                 s \<leftarrow> m_opart_send s lcptr cptr k (Some reason);
                 s \<leftarrow> m_opart_server_send s None p (argv_at argv 3);
                 s \<leftarrow> chanuser_delete s p;
                 channel_delete s k } }) } }) }"

definition ms_opart :: "(64 word \<Rightarrow> 64 word) \<Rightarrow> ircd \<Rightarrow> ptr option \<Rightarrow> ptr \<Rightarrow> string list \<Rightarrow> ircd option" where
  "ms_opart shl s lcptr cptr argv = do {
     name \<leftarrow> argv_at argv 2;
     found \<leftarrow> channel_find_name shl s name;
     (case found of
       None \<Rightarrow> Some s
     | Some k \<Rightarrow> do {
         r \<leftarrow> chanuser_find s k cptr;
         (case r of
           None \<Rightarrow> Some s
         | Some p \<Rightarrow> do {
             s \<leftarrow> m_opart_send s lcptr cptr k (argv_at argv 3);
             s \<leftarrow> m_opart_server_send s lcptr p (argv_at argv 3);
             s \<leftarrow> chanuser_delete s p;
             channel_delete s k }) }) }"

section \<open>KICK\<close>

text \<open>The hooks have six parameters and are called with four arguments: the fifth, the block of the
  target, is what was passed there, if anything was.\<close>

definition cm_op_kick :: "ircd \<Rightarrow> ptr option \<Rightarrow> int option" where
  "cm_op_kick s cuptr = (case cuptr of
     None \<Rightarrow> Some 0
   | Some p \<Rightarrow> do { cu \<leftarrow> chanusers s p; Some (if cu_flags cu AND chflg (CHR ''o'') \<noteq> 0 then 1 else 0) })"

definition cm_halfop_kick :: "ircd \<Rightarrow> ptr option \<Rightarrow> hook_arg option \<Rightarrow> int option" where
  "cm_halfop_kick s cuptr acuptr = (case cuptr of
     None \<Rightarrow> Some 0
   | Some p \<Rightarrow> do {
       cu \<leftarrow> chanusers s p;
       if cu_flags cu AND chflg (CHR ''o'') \<noteq> 0 then Some 1
       else if cu_flags cu AND chflg (CHR ''h'') \<noteq> 0 then
         (case acuptr of
           Some (Arg_chanuser (Some q)) \<Rightarrow> do {
             ac \<leftarrow> chanusers s q;
             Some (if cu_flags ac AND chflg (CHR ''o'') = 0 then 1 else 0) }
         | _ \<Rightarrow> None)
       else Some 0 })"

definition kick_hook :: "callback \<Rightarrow> hook_arg list \<Rightarrow> ircd \<Rightarrow> (ircd \<times> int) option" where
  "kick_hook cb args s = (case args of
     Arg_lclient lcptr # Arg_client cptr # Arg_channel k # Arg_chanuser cuptr # rest \<Rightarrow>
       map_option (\<lambda>r. (s, r)) (case cb of
         Cm_op_kick \<Rightarrow> cm_op_kick s cuptr
       | Cm_halfop_kick \<Rightarrow> cm_halfop_kick s cuptr (case rest of [] \<Rightarrow> None | a # _ \<Rightarrow> Some a)
       | _ \<Rightarrow> None)
   | _ \<Rightarrow> None)"

definition kick_target :: "(64 word \<Rightarrow> 64 word) \<Rightarrow> ircd \<Rightarrow> ptr \<Rightarrow> ptr \<Rightarrow> string \<Rightarrow> (ircd \<times> ptr option) option" where
  "kick_target shl s lcptr cptr name = do {
     l \<leftarrow> lclients s lcptr;
     if l_caps l AND CAP_UID_BIT \<noteq> 0 then map_option (\<lambda>r. (s, r)) (client_find_uid shl s name)
     else client_find_nickhw shl s cptr name }"

definition kick_send :: "ircd \<Rightarrow> ptr \<Rightarrow> ptr \<Rightarrow> ptr \<Rightarrow> ptr \<Rightarrow> string \<Rightarrow> ircd option" where
  "kick_send s lcptr cptr k acptr reason = do {
     cl \<leftarrow> clients s cptr;
     ac \<leftarrow> clients s acptr;
     ch \<leftarrow> channels s k;
     au \<leftarrow> c_user ac;
     aus \<leftarrow> users s au;
     let rname = ch_name ch;
     if client_is_user cl then do {
       u \<leftarrow> c_user cl;
       us \<leftarrow> users s u;
       Some (send (Server_line (Some lcptr) None CAP_NONE CAP_UID '':%s KICK %s %s :%s'' [Str (c_name cl), Str rname, Str (c_name ac), Str reason])
         (send (Server_line (Some lcptr) None CAP_UID CAP_NONE '':%s KICK %s %s :%s'' [Str (u_uid us), Str rname, Str (u_uid aus), Str reason])
         (send (Channel_line None k '':%N!%U@%H KICK %s %N :%s'' [Client cptr, Client cptr, Client cptr, Str rname, Client acptr, Str reason]) s))) }
     else Some (send (Server_line (Some lcptr) None CAP_NONE CAP_UID '':%s KICK %s %s :%s'' [Str (c_name cl), Str rname, Str (c_name ac), Str reason])
         (send (Server_line (Some lcptr) None CAP_UID CAP_NONE '':%s KICK %s %s :%s'' [Str (c_name cl), Str rname, Str (u_uid aus), Str reason])
         (send (Channel_line None k '':%N KICK %s %N :%s'' [Client cptr, Str rname, Client acptr, Str reason]) s))) }"

fun chanuser_kick :: "(64 word \<Rightarrow> 64 word) \<Rightarrow> chan_hook list \<Rightarrow> ircd \<Rightarrow> ptr \<Rightarrow> ptr \<Rightarrow> ptr \<Rightarrow> ptr option \<Rightarrow> string list \<Rightarrow> string \<Rightarrow>
    ircd option" where
  "chanuser_kick shl hs s lcptr cptr k cuptr [] reason = Some s"
| "chanuser_kick shl hs s lcptr cptr k cuptr (t # ts) reason = do {
     (s, found) \<leftarrow> kick_target shl s lcptr cptr t;
     (case found of
       None \<Rightarrow> chanuser_kick shl hs s lcptr cptr k cuptr ts reason
     | Some acptr \<Rightarrow> do {
         (s, r) \<leftarrow> chanuser_find_warn s cptr k acptr;
         (case r of
           None \<Rightarrow> chanuser_kick shl hs s lcptr cptr k cuptr ts reason
         | Some acuptr \<Rightarrow> do {
             (s, ret) \<leftarrow> hooks_call kick_hook hs Chanuser_kick HOOK_DEFAULT
               [Arg_lclient (Some lcptr), Arg_client cptr, Arg_channel k, Arg_chanuser cuptr, Arg_chanuser (Some acuptr), Arg_text (Some reason)] s;
             s \<leftarrow> (if ret = 0 then do { ch \<leftarrow> channels s k; Some (send (Numeric cptr 482 [Str (ch_name ch)]) s) }
               else do { s \<leftarrow> kick_send s lcptr cptr k acptr reason; chanuser_delete s acuptr });
             chanuser_kick shl hs s lcptr cptr k cuptr ts reason }) }) }"

text \<open>The targets up to the NULL pointer; \<open>v\<close> is what the stack held in \<open>targetv\<close>.\<close>

definition IRCD_MAXTARGETS :: nat where "IRCD_MAXTARGETS = 4"

function kick_names :: "string \<Rightarrow> pvec \<Rightarrow> nat \<Rightarrow> string list option" where
  "kick_names b v i = (if i < length v then (case arg_at b v i of
       None \<Rightarrow> None
     | Some None \<Rightarrow> Some []
     | Some (Some t) \<Rightarrow> map_option ((#) t) (kick_names b v (i + 1)))
   else None)"
  by auto
termination by (relation "measure (\<lambda>(b, v, i). length v - i)") auto

definition m_kick :: "(64 word \<Rightarrow> 64 word) \<Rightarrow> chan_hook list \<Rightarrow> pvec \<Rightarrow> ircd \<Rightarrow> ptr \<Rightarrow> ptr \<Rightarrow> string list \<Rightarrow> ircd option" where
  "m_kick shl hs v s lcptr cptr argv = do {
     name \<leftarrow> argv_at argv 2;
     (s, found) \<leftarrow> channel_find_warn shl s cptr name;
     (case found of
       None \<Rightarrow> Some s
     | Some k \<Rightarrow> do {
         cuptr \<leftarrow> chanuser_find s k cptr;
         ch \<leftarrow> channels s k;
         if cuptr = None then Some (send (Numeric cptr 442 [Str (ch_name ch)]) s)
         else do {
           a \<leftarrow> argv_at argv 3;
           (b, v, n) \<leftarrow> str_tokenize_s (a @ [NUL]) v IRCD_MAXTARGETS (CHR '','');
           names \<leftarrow> kick_names b v 0;
           cl \<leftarrow> clients s cptr;
           chanuser_kick shl hs s lcptr cptr k cuptr names (case argv_at argv 4 of None \<Rightarrow> c_name cl | Some r \<Rightarrow> r) } }) }"

section \<open>What leaving does\<close>

lemma is_owner_always: "chanuser_is_owner cu"
  unfolding chanuser_is_owner_def channel_owner_flags_def by (rule bit_eqI) (auto simp: bit_simps)

text \<open>Taking blocks away sends nothing.\<close>

lemma for_each_sent:
  assumes "\<And>s p t. f s p = Some t \<Longrightarrow> sent t = sent s"
  shows "for_each f s ps = Some t \<Longrightarrow> sent t = sent s"
proof (induction ps arbitrary: s)
  case (Cons p ps)
  then obtain u where "f s p = Some u" "for_each f u ps = Some t" by (auto simp: bind_eq_Some_conv)
  then show ?case using assms Cons.IH by metis
qed simp

lemma chanuser_delete_sent: "chanuser_delete s p = Some t \<Longrightarrow> sent t = sent s"
  by (auto simp: chanuser_delete_def bind_eq_Some_conv Let_def put_user_def put_channel_def)

lemma user_uninvite_sent: "user_uninvite s p = Some t \<Longrightarrow> sent t = sent s"
  by (auto simp: user_uninvite_def bind_eq_Some_conv Let_def put_user_def put_channel_def)

lemma free_logentry_sent: "free_logentry s p = Some t \<Longrightarrow> sent t = sent s"
  by (auto simp: free_logentry_def bind_eq_Some_conv)

lemma released_sent:
  "for_each chanuser_delete s ps = Some t \<Longrightarrow> sent t = sent s" "for_each user_uninvite s ps = Some t \<Longrightarrow> sent t = sent s"
  "for_each free_logentry s ps = Some t \<Longrightarrow> sent t = sent s"
  by (erule for_each_sent[rotated], erule chanuser_delete_sent user_uninvite_sent free_logentry_sent)+

lemma channel_delete_sent:
  assumes "channel_delete s k = Some t"
  shows "sent t = sent s"
proof -
  obtain s1 s2 where 1: "channel_unlink s k = Some s1" "channel_release s1 k = Some s2" "sent t = sent s2"
    using assms by (auto simp: channel_delete_def bind_eq_Some_conv)
  have "sent s1 = sent s" using 1(1) by (auto simp: channel_unlink_def bind_eq_Some_conv Let_def)
  moreover have "sent s2 = sent s1"
    using 1(2) by (auto simp: channel_release_def bind_eq_Some_conv put_channel_def dest!: released_sent)
  ultimately show ?thesis using 1(3) by simp
qed

lemma leave_shape:
  assumes wf: "state_wf shl s" and m: "member_block s a cu" and ch: "channels s (cu_channel cu) = Some ch"
  obtains t ch' where "chanuser_delete s a = Some t" "state_wf shl t" "members t = members s - {(cu_channel cu, cu_client cu)}"
    "invited t = invited s" "channel_list t = channel_list s" "channels t (cu_channel cu) = Some ch'" "ch_modes ch' = ch_modes ch"
    "ch_chanusers ch' = removeAll a (ch_chanusers ch)" "sent t = sent s" "chanusers t = (chanusers s)(a := None)" "clients t = clients s"
proof -
  obtain t where t: "chanuser_delete s a = Some t" "state_wf shl t" "members t = members s - {(cu_channel cu, cu_client cu)}"
    "invited t = invited s" "same_rest s t" by (rule leave_wf[OF wf m], rule that)
  obtain t' where t': "chanuser_delete s a = Some t'" "unlinked_after s a cu t'"
    by (rule chanuser_delete_spec[OF state_wfD(2)[OF wf] m], rule that)
  then have u: "unlinked_after s a cu t" using t(1) by simp
  then obtain ch' where ch': "channels t (cu_channel cu) = Some ch'" "ch_chanusers ch' = removeAll a (ch_chanusers ch)"
    using ch by (auto simp: unlinked_after_def)
  have "chanusers s a = Some cu" using m by (simp add: member_block_def)
  then have "ch_modes ch' = ch_modes ch"
    using t(1) ch ch'(1) by (auto simp: chanuser_delete_def bind_eq_Some_conv Let_def put_user_def put_channel_def split: if_splits)
  moreover have "channel_list t = channel_list s" "clients t = clients s" using t(5) by (simp_all add: same_rest_def same_index_def)
  moreover have "chanusers t = (chanusers s)(a := None)" using u by (simp add: unlinked_after_def)
  ultimately show thesis using that[OF t(1-4) _ ch'(1) _ ch'(2) chanuser_delete_sent[OF t(1)]] by blast
qed

text \<open>Leaving, and the end of the channel.\<close>

lemma leave_delete:
  assumes wf: "state_wf shl s" and m: "member_block s p cu" "channels s (cu_channel cu) = Some ch" and k: "cu_channel cu \<in> set (channel_list s)"
  obtains w t where "chanuser_delete s p = Some w" "channel_delete w (cu_channel cu) = Some t" "state_wf shl t"
    "channels t (cu_channel cu) = None" "sent t = sent s"
    "chan_abs t = (set (channel_list s) - {cu_channel cu}, {m \<in> members s. fst m \<noteq> cu_channel cu}, {i \<in> invited s. fst i \<noteq> cu_channel cu})"
proof -
  obtain w where w: "chanuser_delete s p = Some w" "state_wf shl w" "members w = members s - {(cu_channel cu, cu_client cu)}"
    "invited w = invited s" "channel_list w = channel_list s" "sent w = sent s" by (rule leave_shape[OF wf m], rule that)
  have kw: "cu_channel cu \<in> set (channel_entries w)" using k w(5) channel_list_entries[OF w(2)] by simp
  obtain t where t: "channel_delete w (cu_channel cu) = Some t" "state_wf shl t" "channel_entries t = removeAll (cu_channel cu) (channel_entries w)"
    "channels t (cu_channel cu) = None" "members t = {m \<in> members w. fst m \<noteq> cu_channel cu}" "invited t = {i \<in> invited w. fst i \<noteq> cu_channel cu}"
    by (rule channel_delete_spec[OF w(2) kw], rule that)
  have "set (channel_list t) = set (channel_list s) - {cu_channel cu}"
    using channel_list_entries[OF t(2)] channel_list_entries[OF w(2)] t(3) w(5) by (metis set_removeAll)
  then have "chan_abs t = (set (channel_list s) - {cu_channel cu}, {m \<in> members s. fst m \<noteq> cu_channel cu}, {i \<in> invited s. fst i \<noteq> cu_channel cu})"
    using t(5,6) w(3,4) by (auto simp: chan_abs_def)
  then show thesis using that[OF w(1) t(1,2,4)] channel_delete_sent[OF t(1)] w(6) by simp
qed

text \<open>A member, as the lookups find it.\<close>

lemma found_member:
  assumes wf: "state_wf shl s" and c: "clients s c = Some cl" "client_is_user cl" and p: "chanuser_find s k c = Some (Some p)"
  obtains cu where "member_block s p cu" "cu_channel cu = k" "cu_client cu = c" "(k, c) \<in> members s"
proof -
  obtain r where r: "chanuser_find s k c = Some r" "r = None \<longleftrightarrow> (k, c) \<notin> members s"
    "\<And>p. r = Some p \<Longrightarrow> \<exists>cu. member_block s p cu \<and> cu_channel cu = k \<and> cu_client cu = c"
    using chanuser_find_correct[OF state_wfD(2)[OF wf] c(1), of k] c(2) by metis
  then show thesis using that p by auto
qed

lemma found_channel:
  assumes wf: "state_wf shl s" and k: "channel_find_name shl s name = Some (Some k)"
  shows "k \<in> set (channel_entries s)"
  using k channel_find_law[OF state_wfD(1)[OF wf]] by (auto simp: find_Some_iff simp del: set_concat)

text \<open>The buffer of the reason.\<close>

lemma part_reason_ok:
  "part_reason argv = Some (case argv_at argv 3 of None \<Rightarrow> [] | Some r \<Rightarrow> field (IRCD_TOPICLEN + 1) r)"
proof (cases "length argv > 3")
  case True
  obtain b n where b: "strlcpy (replicate (IRCD_TOPICLEN + 1) NUL) (argv ! 3) (IRCD_TOPICLEN + 1) = Some (b, n)"
    "cstr b = field (IRCD_TOPICLEN + 1) (argv ! 3)"
    by (rule field_strlcpy[of "IRCD_TOPICLEN + 1" "replicate (IRCD_TOPICLEN + 1) NUL" "argv ! 3"]) simp_all
  show ?thesis using True b by (simp add: part_reason_def argv_at_def)
qed (simp add: part_reason_def argv_at_def)

section \<open>Parting\<close>

text \<open>What a part says to the members and to the servers.\<close>

definition part_lines :: "ptr \<Rightarrow> client \<Rightarrow> user \<Rightarrow> string \<Rightarrow> string option \<Rightarrow> outmsg list" where
  "part_lines k cl us rname arg = (
     let who = [Str (c_name cl), Str (u_name us), Str (c_host cl), Str rname];
         r = (case arg of None \<Rightarrow> [] | Some r \<Rightarrow> field (IRCD_TOPICLEN + 1) r) in
     (if r = [] then Channel_line None k '':%s!%s@%s PART %s'' who else Channel_line None k '':%s!%s@%s PART %s :%s'' (who @ [Str r])) #
     (case arg of
       None \<Rightarrow> [Server_line None None CAP_UID CAP_NONE '':%s PART %s'' [Str (u_uid us), Str rname],
         Server_line None None CAP_NONE CAP_UID '':%s PART %s'' [Str (c_name cl), Str rname]]
     | Some r \<Rightarrow> [Server_line None None CAP_UID CAP_NONE '':%s PART %s :%s'' [Str (u_uid us), Str rname, Str r],
         Server_line None None CAP_NONE CAP_UID '':%s PART %s :%s'' [Str (c_name cl), Str rname, Str r]]))"

lemma cur_no_nul: "no_nul r \<Longrightarrow> cur r \<noteq> NUL \<longleftrightarrow> r \<noteq> []"
  by (cases r) (auto simp: no_nul_def)

lemma removeAll_alone: "distinct xs \<Longrightarrow> p \<in> set xs \<Longrightarrow> removeAll p xs = [] \<longleftrightarrow> xs = [p]"
  by (cases xs) (auto split: if_splits)

lemma talked_relations:
  assumes "talked s t" "state_wf shl s"
  shows "state_wf shl t" "members t = members s" "invited t = invited s" "channel_list t = channel_list s"
  using talked_state[OF assms(1)] assms by (auto simp: talked_def)

lemma part_said:
  fixes arg :: "string option"
  assumes c: "clients s c = Some cl" "c_user cl = Some u" "users s u = Some us" and k: "channels s k = Some ch"
    and p: "chanusers s p = Some cu" "cu_channel cu = k" "cu_client cu = c"
  defines "r \<equiv> (case arg of None \<Rightarrow> [] | Some r \<Rightarrow> field (IRCD_TOPICLEN + 1) r)"
  obtains t where "m_part_send s c k (Some r) = Some t" "\<exists>v. chanuser_discharge t None p arg = Some v \<and> talked s v \<and>
    sent v = sent s @ part_lines k cl us (ch_name ch) arg"
proof -
  have r: "cur r \<noteq> NUL \<longleftrightarrow> r \<noteq> []" by (rule cur_no_nul) (simp add: r_def split: option.split)
  define m where "m = hd (part_lines k cl us (ch_name ch) arg)"
  have 1: "m_part_send s c k (Some r) = Some (send m s)"
    using c k r by (simp add: m_part_send_def m_def part_lines_def r_def Let_def)
  have "\<exists>v. chanuser_discharge (send m s) None p arg = Some v \<and> talked s v \<and> sent v = sent s @ part_lines k cl us (ch_name ch) arg"
    using c k p by (cases arg) (simp_all add: chanuser_discharge_def m_def part_lines_def Let_def)
  then show thesis using that 1 by blast
qed

text \<open>C9. A member who parts from a channel leaves it: the membership is gone, members and servers are told,
  and a channel that is empty then is deleted with its invitations, unless it is persistent. But from a
  persistent channel no local user can part, whatever his flags are: he is told to use OPART, which is
  meant for owners only.\<close>

theorem part_rules:
  assumes wf: "state_wf shl s" and c: "clients s c = Some cl" "client_is_user cl" "c_user cl = Some u" "users s u = Some us"
    and argv: "argv_at argv 2 = Some name" and k: "channel_find_name shl s name = Some (Some k)" "channels s k = Some ch"
    and p: "chanuser_find s k c = Some (Some p)" and me: "server_me s = Some me"
  defines "others \<equiv> (set (channel_list s), members s - {(k, c)}, invited s)"
  shows "\<exists>t. m_part shl s c argv = Some t \<and> state_wf shl t \<and>
    (if client_is_local cl \<and> channel_is_persistent ch
     then t = send (Client_line c '':%s NOTICE %N :*** You need to /OPART if you really want to leave %s.''
       [Server (Some me), Client c, Str (ch_name ch)]) s
     else sent t = sent s @ part_lines k cl us (ch_name ch) (argv_at argv 3) \<and>
       (if ch_chanusers ch = [p] \<and> \<not> channel_is_persistent ch
        then chan_abs t = (set (channel_list s) - {k}, {m \<in> members s. fst m \<noteq> k}, {i \<in> invited s. fst i \<noteq> k}) \<and> channels t k = None
        else chan_abs t = others))"
proof -
  obtain cu where cu: "member_block s p cu" "cu_channel cu = k" "cu_client cu = c" "(k, c) \<in> members s"
    by (rule found_member[OF wf c(1,2) p])
  have pc: "chanusers s p = Some cu" using cu(1) by (simp add: member_block_def)
  show ?thesis
  proof (cases "client_is_local cl \<and> channel_is_persistent ch")
    case True
    let ?t = "send (Client_line c '':%s NOTICE %N :*** You need to /OPART if you really want to leave %s.''
       [Server (Some me), Client c, Str (ch_name ch)]) s"
    have "m_part shl s c argv = Some ?t"
      using True argv k p pc c(1) me is_owner_always by (simp add: m_part_def part_reason_ok)
    moreover have "state_wf shl ?t" by (rule talked_state(1)[OF _ wf]) simp
    ultimately show ?thesis using True by simp
  next
    case False
    obtain t v where t: "m_part_send s c k (Some (case argv_at argv 3 of None \<Rightarrow> [] | Some r \<Rightarrow> field (IRCD_TOPICLEN + 1) r)) = Some t"
      "chanuser_discharge t None p (argv_at argv 3) = Some v" "talked s v" "sent v = sent s @ part_lines k cl us (ch_name ch) (argv_at argv 3)"
      using part_said[OF c(1,3,4) k(2) pc cu(2,3), of "argv_at argv 3"] by metis
    note same = talked_same[OF t(3)]
    have wv: "state_wf shl v" "members v = members s" "invited v = invited s" "channel_list v = channel_list s"
      by (rule talked_relations[OF t(3) wf])+
    have mv: "member_block v p cu" "channels v (cu_channel cu) = Some ch" using cu(1,2) k(2) same by (simp_all add: member_block_def)
    obtain w ch' where w: "chanuser_delete v p = Some w" "state_wf shl w" "members w = members v - {(k, c)}" "invited w = invited v"
      "channel_list w = channel_list v" "channels w k = Some ch'" "ch_modes ch' = ch_modes ch"
      "ch_chanusers ch' = removeAll p (ch_chanusers ch)" "sent w = sent v"
      using leave_shape[OF wv(1) mv] unfolding cu(2,3) by metis
    have mem: "p \<in> set (ch_chanusers ch)" "distinct (ch_chanusers ch)"
      using mv channel_listsD(1)[OF members_wfD(1)[OF state_wfD(2)[OF wf]] k(2)] by (auto simp: member_block_def)
    have last: "ch_chanusers ch' = [] \<longleftrightarrow> ch_chanusers ch = [p]"
      using w(8) mem removeAll_alone by metis
    have pers: "channel_is_persistent ch' = channel_is_persistent ch" using w(7) by (simp add: channel_is_persistent_def)
    have run: "m_part shl s c argv = (if ch_chanusers ch = [p] \<and> \<not> channel_is_persistent ch then channel_delete w k else Some w)"
      using False argv k p pc c(1) t(1,2) w(1,6) last pers is_owner_always by (auto simp: m_part_def part_reason_ok)
    show ?thesis
    proof (cases "ch_chanusers ch = [p] \<and> \<not> channel_is_persistent ch")
      case True
      have "cu_channel cu \<in> set (channel_list v)" using found_channel[OF wf k(1)] channel_list_entries[OF wf] cu(2) wv(4) by simp
      note gone = leave_delete[OF wv(1) mv this, unfolded cu(2)]
      obtain w' x where x: "chanuser_delete v p = Some w'" "channel_delete w' k = Some x" "state_wf shl x" "channels x k = None" "sent x = sent v"
        "chan_abs x = (set (channel_list v) - {k}, {m \<in> members v. fst m \<noteq> k}, {i \<in> invited v. fst i \<noteq> k})"
        by (rule gone, rule that)
      moreover have "w' = w" using w(1) x(1) by simp
      ultimately show ?thesis using True False run wv(2-4) t(4) by simp
    next
      case False
      have "chan_abs w = others" using w(3-5) wv by (simp add: chan_abs_def others_def)
      moreover have "m_part shl s c argv = Some w" using run False by auto
      ultimately show ?thesis
        using False \<open>\<not> (client_is_local cl \<and> channel_is_persistent ch)\<close> w(2,9) t(4) by auto
    qed
  qed
qed

section \<open>Destroying a channel\<close>

definition opart_heard :: "ircd \<Rightarrow> ptr option \<Rightarrow> ptr \<Rightarrow> string option \<Rightarrow> string \<Rightarrow> ptr \<Rightarrow> outmsg \<Rightarrow> bool" where
  "opart_heard s l c reason name p x \<longleftrightarrow> (\<exists>cu cl. chanusers s p = Some cu \<and> clients s (cu_client cu) = Some cl \<and>
     x = opart_line l c reason name (cu_client cu) cl)"

lemma opart_said:
  assumes "\<forall>p \<in> set ps. \<exists>cu cl. chanusers s p = Some cu \<and> clients s (cu_client cu) = Some cl" "talked s t"
  shows "\<exists>v ms. for_each (\<lambda>s p. do { cu \<leftarrow> chanusers s p; acl \<leftarrow> clients s (cu_client cu);
      Some (send (opart_line l c reason name (cu_client cu) acl) s) }) t ps = Some v \<and>
    talked s v \<and> sent v = sent t @ ms \<and> list_all2 (opart_heard s l c reason name) ps ms"
  using assms
proof (induction ps arbitrary: t)
  case (Cons p ps)
  obtain cu cl where p: "chanusers s p = Some cu" "clients s (cu_client cu) = Some cl" using Cons.prems(1) by auto
  let ?x = "opart_line l c reason name (cu_client cu) cl"
  obtain v ms where v: "for_each (\<lambda>s p. do { cu \<leftarrow> chanusers s p; acl \<leftarrow> clients s (cu_client cu);
      Some (send (opart_line l c reason name (cu_client cu) acl) s) }) (send ?x t) ps = Some v" "talked s v" "sent v = sent (send ?x t) @ ms"
      "list_all2 (opart_heard s l c reason name) ps ms"
    using Cons.IH[of "send ?x t"] Cons.prems by auto
  have "opart_heard s l c reason name p ?x" using p by (auto simp: opart_heard_def)
  then have "list_all2 (opart_heard s l c reason name) (p # ps) (?x # ms)" using v(4) by simp
  moreover have "sent v = sent t @ ?x # ms" using v(3) by simp
  ultimately show ?case using v(1,2) p talked_same(1,3)[OF Cons.prems(2)] by fastforce
qed simp

text \<open>The local members have blocks and clients.\<close>

lemma local_members:
  assumes wf: "state_wf shl s" and k: "channels s k = Some ch"
  shows "\<forall>p \<in> set (ch_lchanusers ch). \<exists>cu cl. chanusers s p = Some cu \<and> clients s (cu_client cu) = Some cl"
proof
  fix p assume "p \<in> set (ch_lchanusers ch)"
  note lists = members_wfD(1)[OF state_wfD(2)[OF wf]]
  then have "block_ok s k p" using channel_listsD(2,4)[OF lists k] \<open>p \<in> set (ch_lchanusers ch)\<close> by simp
  then show "\<exists>cu cl. chanusers s p = Some cu \<and> clients s (cu_client cu) = Some cl"
    by (auto simp: block_ok_def user_of_def bind_eq_Some_conv)
qed

text \<open>C10. On a persistent channel any member, with or without privileges, destroys the channel with OPART:
  every local member is told, then both kinds of servers, and the channel is gone with all its members and
  invitations. The test that he is its owner never refuses.\<close>

theorem opart_destroys:
  assumes wf: "state_wf shl s" and c: "clients s c = Some cl" "client_is_user cl" "c_user cl = Some u" "users s u = Some us"
    and argv: "argv = [pre, cmd, name, reason]" and k: "channel_find_name shl s name = Some (Some k)" "channels s k = Some ch"
    and p: "chanuser_find s k c = Some (Some p)" and pers: "channel_is_persistent ch"
  shows "\<exists>t ms. m_opart shl s l c argv = Some t \<and> state_wf shl t \<and> channels t k = None \<and>
    chan_abs t = (set (channel_list s) - {k}, {m \<in> members s. fst m \<noteq> k}, {i \<in> invited s. fst i \<noteq> k}) \<and>
    list_all2 (opart_heard s l c (Some (field (IRCD_TOPICLEN + 1) reason)) (ch_name ch)) (ch_lchanusers ch) ms \<and>
    sent t = sent s @ ms @ [Server_line None None CAP_UID CAP_NONE '':%s OPART %s :%s'' [Str (u_uid us), Str (ch_name ch), Str reason],
      Server_line None None CAP_NONE CAP_UID '':%s OPART %s :%s'' [Str (c_name cl), Str (ch_name ch), Str reason]]"
proof -
  let ?r = "Some (field (IRCD_TOPICLEN + 1) reason)"
  obtain cu where cu: "member_block s p cu" "cu_channel cu = k" "cu_client cu = c" by (rule found_member[OF wf c(1,2) p])
  have pc: "chanusers s p = Some cu" using cu(1) by (simp add: member_block_def)
  obtain t ms where t: "m_opart_send s l c k ?r = Some t" "talked s t" "sent t = sent s @ ms"
    "list_all2 (opart_heard s l c ?r (ch_name ch)) (ch_lchanusers ch) ms"
    using opart_said[OF local_members[OF wf k(2)], of s l c ?r "ch_name ch"] k(2) by (auto simp: m_opart_send_def)
  let ?v = "send (Server_line None None CAP_NONE CAP_UID '':%s OPART %s :%s'' [Str (c_name cl), Str (ch_name ch), Str reason])
    (send (Server_line None None CAP_UID CAP_NONE '':%s OPART %s :%s'' [Str (u_uid us), Str (ch_name ch), Str reason]) t)"
  have v: "m_opart_server_send t None p (Some reason) = Some ?v"
    using talked_same[OF t(2)] pc cu(2,3) c k(2) by (simp add: m_opart_server_send_def)
  have tv: "talked s ?v" using t(2) by simp
  have wv: "state_wf shl ?v" "members ?v = members s" "invited ?v = invited s" "channel_list ?v = channel_list s"
    by (rule talked_relations[OF tv wf])+
  have mv: "member_block ?v p cu" "channels ?v (cu_channel cu) = Some ch"
    using cu(1,2) k(2) talked_same[OF tv] by (simp_all add: member_block_def)
  have kv: "cu_channel cu \<in> set (channel_list ?v)" using found_channel[OF wf k(1)] channel_list_entries[OF wf] cu(2) wv(4) by simp
  obtain w x where x: "chanuser_delete ?v p = Some w" "channel_delete w k = Some x" "state_wf shl x" "channels x k = None" "sent x = sent ?v"
    "chan_abs x = (set (channel_list ?v) - {k}, {m \<in> members ?v. fst m \<noteq> k}, {i \<in> invited ?v. fst i \<noteq> k})"
    by (rule leave_delete[OF wv(1) mv kv, unfolded cu(2)], rule that)
  have "chan_abs x = (set (channel_list s) - {k}, {m \<in> members s. fst m \<noteq> k}, {i \<in> invited s. fst i \<noteq> k})"
    using x(6) wv(2-4) by simp
  moreover have "m_opart shl s l c argv = Some x"
    using k p pc pers t(1) v x(1,2) is_owner_always part_reason_ok[of argv] by (simp add: argv m_opart_def argv_at_def)
  moreover have "sent x = sent s @ ms @ [Server_line None None CAP_UID CAP_NONE '':%s OPART %s :%s'' [Str (u_uid us), Str (ch_name ch), Str reason],
      Server_line None None CAP_NONE CAP_UID '':%s OPART %s :%s'' [Str (c_name cl), Str (ch_name ch), Str reason]]"
    using x(5) t(3) by simp
  ultimately show ?thesis using x(3,4) t(4) by blast
qed

section \<open>Kicking\<close>

definition kick_lines :: "ptr \<Rightarrow> ptr \<Rightarrow> ptr \<Rightarrow> ptr \<Rightarrow> client \<Rightarrow> user \<Rightarrow> client \<Rightarrow> user \<Rightarrow> string \<Rightarrow> string \<Rightarrow> outmsg list" where
  "kick_lines l c k d cl us dl dus name reason =
     [Channel_line None k '':%N!%U@%H KICK %s %N :%s'' [Client c, Client c, Client c, Str name, Client d, Str reason],
      Server_line (Some l) None CAP_UID CAP_NONE '':%s KICK %s %s :%s'' [Str (u_uid us), Str name, Str (u_uid dus), Str reason],
      Server_line (Some l) None CAP_NONE CAP_UID '':%s KICK %s %s :%s'' [Str (c_name cl), Str name, Str (c_name dl), Str reason]]"

lemma kick_hooks_result:
  "hooks_call kick_hook chanmode_hooks Chanuser_kick HOOK_DEFAULT
     [Arg_lclient l, Arg_client c, Arg_channel k, Arg_chanuser None, Arg_chanuser q, Arg_text x] s = Some (s, 0)"
  "chanusers s p = Some cu \<Longrightarrow> hooks_call kick_hook chanmode_hooks Chanuser_kick HOOK_DEFAULT
     [Arg_lclient l, Arg_client c, Arg_channel k, Arg_chanuser (Some p), Arg_chanuser q, Arg_text x] s =
   (if cu_flags cu AND chflg (CHR ''o'') \<noteq> 0 then Some (s, 2)
    else if cu_flags cu AND chflg (CHR ''h'') \<noteq> 0 then None else Some (s, 0))"
  unfolding hooks_call_callbacks other_callbacks
  by (simp_all add: HOOK_MAXARGS_def kick_hook_def cm_op_kick_def cm_halfop_kick_def)

text \<open>C11. A KICK of one member by another: an operator's returns, tells members and servers, and takes
  exactly that membership away, leaving the channel in place even when it is empty then. Without privileges
  it is refused. A half operator's does not come to a decision: the hook that should protect operators
  reads an argument that the call through \<open>hooks_call\<close> does not pass.\<close>

theorem kick_rules:
  fixes reason :: string
  assumes wf: "state_wf shl s" and c: "clients s c = Some cl" "client_is_user cl" "c_user cl = Some u" "users s u = Some us"
    and d: "clients s d = Some dl" "client_is_user dl" "c_user dl = Some du" "users s du = Some dus"
    and k: "channels s k = Some ch" and p: "chanuser_find s k c = Some (Some p)" "chanusers s p = Some cu"
    and q: "kick_target shl s l c name = Some (s, Some d)" "chanuser_find s k d = Some (Some q)"
  defines "kick \<equiv> chanuser_kick shl chanmode_hooks s l c k (Some p) [name] reason"
  shows "if cu_flags cu AND chflg (CHR ''o'') \<noteq> 0 then \<exists>t. kick = Some t \<and> state_wf shl t \<and>
       chan_abs t = (set (channel_list s), members s - {(k, d)}, invited s) \<and>
       sent t = sent s @ kick_lines l c k d cl us dl dus (ch_name ch) reason
     else if cu_flags cu AND chflg (CHR ''h'') \<noteq> 0 then kick = None
     else kick = Some (send (Numeric c 482 [Str (ch_name ch)]) s)"
proof -
  note hook = kick_hooks_result(2)[OF p(2), of "Some l" c k "Some q" "Some reason"]
  consider "cu_flags cu AND chflg (CHR ''o'') \<noteq> 0" | "cu_flags cu AND chflg (CHR ''o'') = 0" "cu_flags cu AND chflg (CHR ''h'') \<noteq> 0"
    | "cu_flags cu AND chflg (CHR ''o'') = 0" "cu_flags cu AND chflg (CHR ''h'') = 0" by blast
  then show ?thesis
  proof cases
    case 1
    obtain du' where du': "member_block s q du'" "cu_channel du' = k" "cu_client du' = d" by (rule found_member[OF wf d(1,2) q(2)])
    define v where "v = fold send (kick_lines l c k d cl us dl dus (ch_name ch) reason) s"
    have said: "kick_send s l c k d reason = Some v"
      using c d k by (simp add: kick_send_def v_def kick_lines_def Let_def)
    have tv: "talked s v" by (simp add: v_def kick_lines_def)
    have wv: "state_wf shl v" "members v = members s" "invited v = invited s" "channel_list v = channel_list s"
      by (rule talked_relations[OF tv wf])+
    have mv: "member_block v q du'" "channels v (cu_channel du') = Some ch"
      using du'(1,2) k talked_same[OF tv] by (simp_all add: member_block_def)
    obtain w where w: "chanuser_delete v q = Some w" "state_wf shl w" "members w = members v - {(k, d)}" "invited w = invited v"
      "channel_list w = channel_list v" "sent w = sent v"
      using leave_shape[OF wv(1) mv] unfolding du'(2,3) by metis
    have "kick = Some w"
      using 1 q hook said w(1) by (simp add: kick_def chanuser_find_warn_def)
    moreover have "sent v = sent s @ kick_lines l c k d cl us dl dus (ch_name ch) reason" by (simp add: v_def kick_lines_def)
    ultimately show ?thesis using 1 w wv by (simp add: chan_abs_def)
  next
    case 2
    then show ?thesis using q hook by (simp add: kick_def chanuser_find_warn_def)
  next
    case 3
    then show ?thesis using q hook k by (simp add: kick_def chanuser_find_warn_def)
  qed
qed

section \<open>Alice leaves\<close>

theorem part_witness:
  "\<exists>s t. chan_abs s = ({1}, {(1, 10)}, {}) \<and> m_part (\<lambda>_. 0) s 10 [''alice'', ''PART'', ''#a'', ''bye''] = Some t \<and>
    chan_abs t = ({}, {}, {}) \<and> channels t 1 = None \<and> length (sent t) = 3"
proof -
  obtain s' ch cu where s': "state_wf (\<lambda>_. 0) s'" "channels s' 1 = Some ch" "ch_name ch = ''#a''" "ch_modes ch = 0" "ch_chanusers ch = [2]"
    "chan_abs s' = ({1}, {(1, 10)}, {})" "chanuser_find s' 1 10 = Some (Some 2)"
    "channel_find_name (\<lambda>_. 0) s' ''#a'' = Some (Some 1)" "same_texts join_start s'" "sent s' = []"
    by (rule alice_room, rule that)
  define s where "s = s'\<lparr>server_me := Some 9\<rparr>"
  have wf: "state_wf (\<lambda>_. 0) s" "members s = members s'" "invited s = invited s'"
    using relations_cong[of s s'] s'(1) by (simp_all add: s_def)
  have abs: "chan_abs s = ({1}, {(1, 10)}, {})" using s'(6) wf(2,3) by (simp add: chan_abs_def s_def)
  have find: "channel_find_name (\<lambda>_. 0) s ''#a'' = Some (Some 1)" "chanuser_find s 1 10 = Some (Some 2)"
    using s'(7,8) by (simp_all add: s_def channel_find_name_def chanuser_find_def cong: if_cong)
  have c: "joiner_ok s' 10" by (rule joiner_ok_texts[OF s'(9) join_start_ok(2)])
  then obtain cl u us where cl: "clients s 10 = Some cl" "client_is_user cl" "c_user cl = Some u" "users s u = Some us"
    by (auto simp: joiner_ok_def s_def)
  have k: "channels s 1 = Some ch" "\<not> channel_is_persistent ch" "argv_at [''alice'', ''PART'', ''#a'', ''bye''] 2 = Some ''#a''"
    using s'(2,4) by (simp_all add: s_def channel_is_persistent_def argv_at_def)
  have "(1, 10) \<in> members s" "set (channel_list s) = {1}" "{m \<in> members s. fst m \<noteq> 1} = {}" "{i \<in> invited s. fst i \<noteq> 1} = {}"
    using abs by (auto simp: chan_abs_def)
  then show ?thesis
    using part_rules[OF wf(1) cl k(3) find(1) k(1) find(2), of 9] abs k(2) s'(5,10)
    by (auto simp: s_def part_lines_def argv_at_def Let_def)
qed

theorem opart_witness:
  "\<exists>s t. chan_abs s = ({1}, {(1, 10)}, {}) \<and> map_option cu_flags (chanusers s 2) = Some 0 \<and>
    m_opart (\<lambda>_. 0) s None 10 [''alice'', ''OPART'', ''#a'', ''bye''] = Some t \<and> chan_abs t = ({}, {}, {})"
proof -
  obtain s' ch cu where s': "state_wf (\<lambda>_. 0) s'" "channels s' 1 = Some ch" "ch_name ch = ''#a''" "ch_modes ch = 0" "ch_chanusers ch = [2]"
    "chan_abs s' = ({1}, {(1, 10)}, {})" "chanuser_find s' 1 10 = Some (Some 2)"
    "channel_find_name (\<lambda>_. 0) s' ''#a'' = Some (Some 1)" "same_texts join_start s'" "chanusers s' 2 = Some cu" "cu_flags cu = 0"
    by (rule alice_room, rule that)
  let ?ch = "ch\<lparr>ch_modes := quiet_modes\<rparr>"
  define s where "s = put_channel 1 ?ch s'"
  have wf: "state_wf (\<lambda>_. 0) s" "chan_abs s = ({1}, {(1, 10)}, {})"
    using put_channel_wf[OF s'(1,2), of ?ch] s'(6) by (simp_all add: s_def)
  have "channel_key s = channel_key s'" using s'(2) by (auto simp: s_def channel_key_def fun_eq_iff)
  then have "channel_name s 1 = channel_name s' 1" "channel_entries s = channel_entries s'"
    using s'(2) by (simp_all add: channel_name_def s_def)
  have find: "channel_find_name (\<lambda>_. 0) s ''#a'' = Some (Some 1)" "chanuser_find s 1 10 = Some (Some 2)"
  proof -
    have "(\<lambda>p. do { ch \<leftarrow> channels s p; Some (h = ch_hash ch \<and> str_icmp (ch_name ch) n = 0) }) =
      (\<lambda>p. do { ch \<leftarrow> channels s' p; Some (h = ch_hash ch \<and> str_icmp (ch_name ch) n = 0) })" for h n
      using s'(2) by (auto simp: s_def fun_eq_iff)
    moreover have "channel_lists s = channel_lists s'" by (simp add: s_def)
    ultimately show "channel_find_name (\<lambda>_. 0) s ''#a'' = Some (Some 1)" using s'(8) by (simp add: channel_find_name_def Let_def)
    show "chanuser_find s 1 10 = Some (Some 2)" using s'(7) by (simp add: s_def put_channel_def chanuser_find_def cong: if_cong)
  qed
  have c: "joiner_ok s' 10" by (rule joiner_ok_texts[OF s'(9) join_start_ok(2)])
  then obtain cl u us where cl: "clients s 10 = Some cl" "client_is_user cl" "c_user cl = Some u" "users s u = Some us"
    by (auto simp: joiner_ok_def s_def)
  have k: "channels s 1 = Some ?ch" "channel_is_persistent ?ch" using quiet_modes_set(3) by (simp_all add: s_def channel_is_persistent_def)
  have "set (channel_list s) = {1}" "{m \<in> members s. fst m \<noteq> 1} = {}" "{i \<in> invited s. fst i \<noteq> 1} = {}"
    using wf(2) by (auto simp: chan_abs_def)
  moreover have "map_option cu_flags (chanusers s 2) = Some 0" using s'(10,11) by (simp add: s_def)
  ultimately show ?thesis
    using opart_destroys[OF wf(1) cl refl find(1) k(1) find(2) k(2), of None "''alice''" "''OPART''" "''bye''"] wf(2) by auto
qed

text \<open>An operator alone kicks herself: the channel stays, with nobody in it.\<close>

theorem kick_witness:
  "\<exists>s t. chan_abs s = ({1}, {(1, 10)}, {}) \<and>
    chanuser_kick (\<lambda>_. 0) chanmode_hooks s 5 10 1 (Some 2) [''alice''] ''me'' = Some t \<and> chan_abs t = ({1}, {}, {}) \<and> length (sent t) = 3"
proof -
  obtain s' ch cu where s': "state_wf (\<lambda>_. 0) s'" "channels s' 1 = Some ch" "ch_name ch = ''#a''"
    "chan_abs s' = ({1}, {(1, 10)}, {})" "chanuser_find s' 1 10 = Some (Some 2)"
    "same_texts join_start s'" "sent s' = []" "chanusers s' 2 = Some cu" "cu_channel cu = 1" "channel_list s' = [1]"
    by (rule alice_room, rule that)
  let ?o = "chflg (CHR ''o'')"
  define s1 where "s1 = put_chanuser 2 (cu\<lparr>cu_flags := ?o, cu_prefix := prefix_of (modes_table s') ?o\<rparr>) s'"
  have op: "only_privileges s' s1 2 ?o" using s'(8) by (simp add: only_privileges_def s1_def)
  note w1 = only_privileges_wf[OF op s'(1)]
  let ?h = "\<lparr>h_hash = str_ihash (\<lambda>_. 0) (Some ''alice''), h_client = 10, h_nick = ''alice''\<rparr>"
  define s where "s = s1\<lparr>lclients := [5 \<mapsto> \<lparr>l_type = LCLIENT_USER, l_hash = 0, l_caps = 0, l_name = ''alice''\<rparr>], histories := [30 \<mapsto> ?h],
    client_history := replicate CLIENT_HASH_SIZE [30], client_listsn := replicate CLIENT_HASH_SIZE []\<rparr>"
  have wf: "state_wf (\<lambda>_. 0) s" "members s = members s1" "invited s = invited s1"
    using relations_cong[of s s1] w1(1) by (simp_all add: s_def)
  have abs: "chan_abs s = ({1}, {(1, 10)}, {})" using s'(4) wf(2,3) w1(2,3) by (simp add: chan_abs_def s_def s1_def)
  have find: "chanuser_find s 1 10 = Some (Some 2)"
  proof -
    have "(\<lambda>p. do { cu \<leftarrow> chanusers s p; Some (cu_channel cu = 1) }) = (\<lambda>p. do { cu \<leftarrow> chanusers s' p; Some (cu_channel cu = 1) })"
      using s'(8) by (auto simp: s_def s1_def fun_eq_iff)
    then show ?thesis using s'(5) by (simp add: chanuser_find_def s_def s1_def cong: if_cong)
  qed
  have target: "kick_target (\<lambda>_. 0) s 5 10 ''alice'' = Some (s, Some 10)"
    by (simp add: kick_target_def client_find_nickhw_def client_find_nick_def client_history_find_def Let_def s_def CLIENT_HASH_SIZE_def str_icmp_0)
  have c: "joiner_ok s' 10" by (rule joiner_ok_texts[OF s'(6) join_start_ok(2)])
  then obtain cl u us where cl: "clients s 10 = Some cl" "client_is_user cl" "c_user cl = Some u" "users s u = Some us"
    by (auto simp: joiner_ok_def s_def s1_def)
  have p: "channels s 1 = Some ch" "chanusers s 2 = Some (cu\<lparr>cu_flags := ?o, cu_prefix := prefix_of (modes_table s') ?o\<rparr>)" "sent s = []"
    using s'(2,7) by (simp_all add: s_def s1_def)
  have o: "?o AND ?o \<noteq> 0" by code_simp
  have "members s - {(1, 10)} = {}" "set (channel_list s) = {1}" "invited s = {}" using abs by (auto simp: chan_abs_def)
  then show ?thesis
    using kick_rules[OF wf(1) cl cl p(1) find p(2) target find, of "''me''"] abs o p(3) by (auto simp: kick_lines_def)
qed

end
