(* ===== verification/Spec2Isabelle.thy ===== *)
theory Spec2Isabelle
  imports Prelude Cstr Glob Dlink Numconv Hash Tokenize Format Chars Registry Msg Class Support Chanmode State Channel Chandir
    Chanmask Chanchange Chanapply Chansend Nicks Chanparse Modecmd Numeric Names
    Hook Join Talk Leave
begin

text \<open>
  A verification development of the IRC daemon chaosircd and of the parts of its support library
  libchaos that the daemon's core rests on.

  \<^bold>\<open>The program.\<close> A line from a connection is split into words (str_tokenize, lib/src/str.c), its
  command is looked up (src/msg.c), and the handler of the command works on clients (src/client.c,
  src/user.c), channels (src/channel.c), memberships (src/chanuser.c) and channel modes
  (src/chanmode.c, with the modules under modules/chanmode). What a handler does is told to local
  members, to the user as a numeric reply (src/numeric.c), and to the other servers. Tables are linked
  lists (lib/src/dlink.c) of reference-counted blocks, searched by hash (str_hash) and name (str_icmp).

  \<^bold>\<open>How C is modelled.\<close> A C string is the list of its bytes before the terminator, a buffer the list of
  all its bytes; a structure is a \<open>record\<close>, an address a number, a heap of blocks a map from
  addresses, so that freed blocks are outside the domain. A function with side effects takes the state
  and returns it; every read or write outside a buffer, of a NULL pointer or of a freed block is
  \<open>None\<close>, and so is a loop that does not end. Theorems that something is \<open>Some\<close> therefore say that
  the code is free of such accesses and returns. Integers keep their width (\<open>word\<close>) wherever their
  wrap-around is visible. What the C standard leaves undefined is a parameter: the value of a shift by
  64 (\<open>shl\<close>, in the hash), and what an uninitialised block holds (\<open>junk\<close>, \<open>v\<close>). The address an
  allocation returns is a parameter that has to be unused.

  \<^bold>\<open>Theories.\<close> In the order of the code's layers:

  \<^item> \<^verbatim>\<open>Prelude\<close>: bytes, terminated strings, checked access to buffers.
  \<^item> \<^verbatim>\<open>Cstr\<close>, \<^verbatim>\<open>Numconv\<close>, \<^verbatim>\<open>Hash\<close>, \<^verbatim>\<open>Tokenize\<close>, \<^verbatim>\<open>Format\<close>, \<^verbatim>\<open>Glob\<close>: lib/src/str.c and str.h.
    Copies are bounded and terminated; printed numerals are read back; the tokenizer finds the words of
    a line (locale \<open>tokenizer\<close>); the formatter writes the meaning of its format, cut to the buffer; the
    wildcard matcher decides the language of its mask (locale \<open>char_match\<close>) unless it needs more than 512
    calls, which is the bound in the source and is stated in the theorems.
  \<^item> \<^verbatim>\<open>Dlink\<close>: lib/src/dlink.c over an explicit heap of nodes; every operation implements the operation on
    the list of data (locale \<open>list_refinement\<close>). The later theories use HOL lists of pointers.
  \<^item> \<^verbatim>\<open>Chars\<close>: the table of src/chars.c and the validators of names.
  \<^item> \<^verbatim>\<open>Registry\<close>: the laws of tables searched by name (locales \<open>name_registry\<close>, \<open>dynamic_registry\<close>),
    interpreted for commands, classes, channels, nicks and former nicks.
  \<^item> \<^verbatim>\<open>Msg\<close>, \<^verbatim>\<open>Class\<close>, \<^verbatim>\<open>Support\<close>: src/msg.c, src/class.c and the ISUPPORT part of src/ircd.c.
  \<^item> \<^verbatim>\<open>Chanmode\<close>: the table of channel modes and the prefixes of privileges.
  \<^item> \<^verbatim>\<open>State\<close>, \<^verbatim>\<open>Channel\<close>, \<^verbatim>\<open>Chandir\<close>: clients, users, channels, memberships and invitations with their links
    (\<open>state_wf\<close>), and the refinement of sets of pairs by every sequence of channel operations.
  \<^item> \<^verbatim>\<open>Chanmask\<close>, \<^verbatim>\<open>Chanchange\<close>, \<^verbatim>\<open>Chanapply\<close>, \<^verbatim>\<open>Chansend\<close>, \<^verbatim>\<open>Chanparse\<close>, \<^verbatim>\<open>Modecmd\<close>: masks of bans, changes of modes with
    their bounce handlers (src/chanmode.c, src/chanuser.c, modules/chanmode/cm_key.c, cm_limit.c,
    cm_invite.c), what applying a line leaves and announces, the lines for members and servers, the
    parser, and the commands MODE and OMODE (modules/msg/m_mode.c, m_omode.c) as a whole.
  \<^item> \<^verbatim>\<open>Nicks\<close>: the table of users by nick, the history of nicks, the change of a nick.
  \<^item> \<^verbatim>\<open>Numeric\<close>: src/numeric.c with the table of all replies.
  \<^item> \<^verbatim>\<open>Names\<close>: members as lines, NAMES and NJOIN (src/chanuser.c).
  \<^item> \<^verbatim>\<open>Hook\<close>: lib/src/hook.c, and what every module under modules/chanmode registers and takes back.
  \<^item> \<^verbatim>\<open>Join\<close>: JOIN (modules/msg/m_join.c, channel_join of src/channel.c) with the hooks of the modes: who is
    let in, in the order in which the modules were loaded, with which privileges.
  \<^item> \<^verbatim>\<open>Talk\<close>: channel_message and channel_topic of src/channel.c with the hooks of +m, +n, +P and +t, and
    TOPIC (modules/msg/m_topic.c). The handlers of services on a channel are a parameter.
  \<^item> \<^verbatim>\<open>Leave\<close>: PART, OPART and KICK (modules/msg/m_part.c, m_opart.c, m_kick.c, chanuser_kick of
    src/chanuser.c).

  \<^bold>\<open>Kinds of theorems.\<close> Invariants of the state and their preservation by every operation; functional
  results on all branches; refinements of lists, relations and views of a channel; equivalence of
  optimised routines with specifications; round trips between what one server writes and another reads;
  bounds of buffers; and, where the code does not do what it means to, theorems that exhibit it. Loops
  that can run forever are \<open>partial_function\<close>s, and the theorems about them state that they end.

  \<^bold>\<open>Messages.\<close> What is sent is the list \<open>sent\<close> of the calls to \<open>channel_send\<close>, \<open>server_send\<close>,
  \<open>client_send\<close>, \<open>numeric_send\<close> and \<open>lclient_send\<close> with their formats and arguments; the formatting of
  those calls and the multicast to sockets is not part of the state. For the lines of mode changes the
  formatting is modelled as well (\<open>line_bytes\<close>), and the theorems state that it cuts none of them.

  \<^bold>\<open>Not modelled.\<close> Input and output, sockets, timers, processes and memory pools of libchaos (io, net,
  listen, connect, queue, timer, syscall, sauth, child, mfile, mem) consist of system calls; logging,
  loading of modules and reading of configuration files are input and output as well, and lexer and
  grammar are generated. Graphics, fonts, HTTP, TLS and databases (gif, ttf, image, graph, httpc, htmlp,
  ssl, filter, db) are not used by the chat core. libowfat is a vendored library and servauth a helper
  process around DNS and proxy checks. The registration of connections and servers (src/lclient.c,
  src/server.c), user modes, operators, services and the remaining commands under modules/msg are left
  out; of them only the fields and lookups that channels need are modelled. Commands and dumps whose
  only effect is a log line have no definition.
\<close>

end
